(* ===== verification/Kernel_Error.thy ===== *)
theory Kernel_Error
  imports Main "HOL-Library.Word"
begin

text \<open>
  The kernel's error values (kernel/src/error.rs and the error enums of the modelled
  modules). \<open>error\<close> is the enum \<open>Error\<close>, restricted to the variants that the modelled
  modules can construct: the variants that only wrap a driver's own enum
  (\<open>AcpiError\<close>, \<open>PciError\<close>, \<open>XhcDriverError\<close>, \<open>DrawError\<close>, \<open>LayerError\<close>,
  \<open>WindowManagerError\<close>) belong to modules outside the model. \<open>kerror\<close> is the struct
  \<open>Error_\<close>: a kind and an optional context string.
\<close>

type_synonym u8 = "8 word"
type_synonym u16 = "16 word"
type_synonym u32 = "32 word"
type_synonym u64 = "64 word"

datatype BitmapMemoryManagerError =
    FreeMemoryFrameWasNotFound
  | MemoryFrameWasAlreadyAllocated nat
  | MemoryFrameWasAlreadyDeallocated nat
  | InvalidMemoryFrameLength nat

text \<open>\<open>InvalidLayout\<close> carries the size and the alignment of the layout.\<close>

datatype AllocationError = InvalidLayout nat nat | InvalidNode | NoCursor | NoNextCursor | NullCursor

datatype VirtualFileSystemError =
    NoSuchFileOrDirectory "string option"
  | FileOrDirectoryAlreadyExists string
  | InvalidFileType "string option"
  | NotDirectory "string option"
  | NotFile "string option"
  | ReadOnly "string option"
  | BlockingFileResource nat
  | ReleasedFileResource nat
  | InvalidFileName
  | InvalidFileDescriptorNumber

datatype PageError = PageNotMapped | AddressNotAlignedByPageSize nat | AddressNotMapped nat

datatype Elf64Error = InvalidMagicNumber

datatype error =
    NotInitialized
  | Locked
  | IndexOutOfBounds nat "nat option"
  | OutOfRange nat nat nat
  | NotAligned nat nat
  | InvalidBufferSize nat nat
  | BufferFull
  | BufferEmpty
  | AlreadyExists
  | Overflow
  | NotFound
  | InvalidData
  | NotSupported
  | ElfError Elf64Error
  | BitmapError BitmapMemoryManagerError
  | AllocError AllocationError
  | VfsError VirtualFileSystemError
  | PagingError PageError

record kerror =
  kind :: error
  err_context :: "string option"

text \<open>\<open>From<Error> for Error_\<close>: no context; \<open>Error::with_context\<close>: a context string.\<close>

definition from_error :: "error \<Rightarrow> kerror" where
  "from_error k = \<lparr>kind = k, err_context = None\<rparr>"

definition with_context :: "error \<Rightarrow> string \<Rightarrow> kerror" where
  "with_context k c = (from_error k)\<lparr>err_context := Some c\<rparr>"

text \<open>\<open>Error_::should_retry\<close>: only a lost lock is worth retrying.\<close>

definition should_retry :: "kerror \<Rightarrow> bool" where
  "should_retry e = (kind e = Locked)"

lemma kind_from_error [simp]: "kind (from_error k) = k"
  by (simp add: from_error_def)

lemma kind_with_context [simp]: "kind (with_context k c) = k"
  by (simp add: with_context_def)

lemma from_error_inject [simp]: "from_error k = from_error k' \<longleftrightarrow> k = k'"
  by (simp add: from_error_def)

lemma with_context_inject [simp]: "with_context k c = with_context k' c' \<longleftrightarrow> k = k' \<and> c = c'"
  by (simp add: with_context_def from_error_def)

lemma from_error_neq_with_context [simp]:
  "from_error k \<noteq> with_context k' c" "with_context k' c \<noteq> from_error k"
  by (simp_all add: with_context_def from_error_def)

end
