(* ===== verification/Rust_Prelude.thy ===== *)
theory Rust_Prelude
  imports Kernel_Error
begin

text \<open>
  What the components share. A Rust call ends in one of three ways: it returns \<open>Ok\<close>, it
  returns \<open>Err\<close>, or it panics (an index out of range, an \<open>unwrap\<close> of \<open>None\<close>, an arithmetic
  overflow: the kernel is built with the debug profile, so integer overflow panics).
  \<open>outcome\<close> is that result. A method on \<open>&mut self\<close> is a value of type \<open>('s, 'a) act\<close>: it takes
  the state and returns the outcome together with the state reached, which is kept
  when the call fails, as the effects before a \<open>?\<close> are kept by the code.

  \<open>spec P m Q\<close> is a Hoare triple for such a method and \<open>keeps I m\<close> says that it keeps an
  invariant; their rules are collected in \<open>keeps_intros\<close>, so that an invariant proof of a
  handler follows the handler's structure.
\<close>

named_theorems keeps_intros
named_theorems act_simps

datatype 'a outcome = Ok 'a | Err kerror | Panic

abbreviation err :: "error \<Rightarrow> 'a outcome" where
  "err k \<equiv> Err (from_error k)"

abbreviation err_ctx :: "error \<Rightarrow> string \<Rightarrow> 'a outcome" where
  "err_ctx k c \<equiv> Err (with_context k c)"

subsection \<open>Pure fallible code\<close>

fun and_then :: "'a outcome \<Rightarrow> ('a \<Rightarrow> 'b outcome) \<Rightarrow> 'b outcome" where
  "and_then (Ok x) f = f x"
| "and_then (Err e) f = Err e"
| "and_then Panic f = Panic"

fun map_ok :: "('a \<Rightarrow> 'b) \<Rightarrow> 'a outcome \<Rightarrow> 'b outcome" where
  "map_ok f (Ok x) = Ok (f x)"
| "map_ok f (Err e) = Err e"
| "map_ok f Panic = Panic"

definition ok_or :: "'a option \<Rightarrow> kerror \<Rightarrow> 'a outcome" where
  "ok_or x e = (case x of None \<Rightarrow> Err e | Some v \<Rightarrow> Ok v)"

lemma ok_or_simps [simp]: "ok_or None e = Err e" "ok_or (Some v) e = Ok v"
  by (simp_all add: ok_or_def)

lemma and_then_Ok_iff:
  "and_then m f = Ok y \<longleftrightarrow> (\<exists>x. m = Ok x \<and> f x = Ok y)"
  by (cases m) auto

lemma and_then_Panic_iff:
  "and_then m f = Panic \<longleftrightarrow> m = Panic \<or> (\<exists>x. m = Ok x \<and> f x = Panic)"
  by (cases m) auto

lemma and_then_Err_iff:
  "and_then m f = Err e \<longleftrightarrow> m = Err e \<or> (\<exists>x. m = Ok x \<and> f x = Err e)"
  by (cases m) auto

lemma map_ok_Ok_iff: "map_ok f m = Ok y \<longleftrightarrow> (\<exists>x. m = Ok x \<and> y = f x)"
  by (cases m) auto

subsection \<open>Checked arithmetic and indexing\<close>

text \<open>\<open>usize\<close> and \<open>u64\<close> values are naturals below \<open>2 ^ 64\<close>; an operation that leaves that
  range panics.\<close>

definition uadd :: "nat \<Rightarrow> nat \<Rightarrow> nat outcome" where
  "uadd a b = (if a + b < 2 ^ 64 then Ok (a + b) else Panic)"

definition usub :: "nat \<Rightarrow> nat \<Rightarrow> nat outcome" where
  "usub a b = (if b \<le> a then Ok (a - b) else Panic)"

definition umul :: "nat \<Rightarrow> nat \<Rightarrow> nat outcome" where
  "umul a b = (if a * b < 2 ^ 64 then Ok (a * b) else Panic)"

definition umod :: "nat \<Rightarrow> nat \<Rightarrow> nat outcome" where
  "umod a b = (if b = 0 then Panic else Ok (a mod b))"

definition index :: "'a list \<Rightarrow> nat \<Rightarrow> 'a outcome" where
  "index xs i = (if i < length xs then Ok (xs ! i) else Panic)"

text \<open>\<open>slice xs a b\<close> is \<open>xs[a..b]\<close>, which panics when \<open>a > b\<close> or \<open>b\<close> is past the end.\<close>

definition slice :: "'a list \<Rightarrow> nat \<Rightarrow> nat \<Rightarrow> 'a list outcome" where
  "slice xs a b = (if a \<le> b \<and> b \<le> length xs then Ok (take (b - a) (drop a xs)) else Panic)"

lemma usub_Ok [simp]: "b \<le> a \<Longrightarrow> usub a b = Ok (a - b)"
  by (simp add: usub_def)

lemma uadd_Ok [simp]: "a + b < 2 ^ 64 \<Longrightarrow> uadd a b = Ok (a + b)"
  by (simp add: uadd_def)

lemma umul_Ok [simp]: "a * b < 2 ^ 64 \<Longrightarrow> umul a b = Ok (a * b)"
  by (simp add: umul_def)

lemma umod_Ok [simp]: "0 < b \<Longrightarrow> umod a b = Ok (a mod b)"
  by (simp add: umod_def)

lemma index_Ok [simp]: "i < length xs \<Longrightarrow> index xs i = Ok (xs ! i)"
  by (simp add: index_def)

lemma slice_Ok [simp]:
  "a \<le> b \<Longrightarrow> b \<le> length xs \<Longrightarrow> slice xs a b = Ok (take (b - a) (drop a xs))"
  by (simp add: slice_def)

lemma slice_Panic_iff: "slice xs a b = Panic \<longleftrightarrow> b < a \<or> length xs < b"
  by (auto simp: slice_def)

lemma unat_bound: "unat (w :: 'a :: len word) < 2 ^ LENGTH('a)"
  by (rule unsigned_less)

subsection \<open>Stateful code\<close>

type_synonym ('s, 'a) act = "'s \<Rightarrow> 'a outcome \<times> 's"

definition return_act :: "'a \<Rightarrow> ('s, 'a) act" where
  "return_act x = (\<lambda>s. (Ok x, s))"

definition fail :: "kerror \<Rightarrow> ('s, 'a) act" where
  "fail e = (\<lambda>s. (Err e, s))"

definition lift_outcome :: "'a outcome \<Rightarrow> ('s, 'a) act" where
  "lift_outcome r = (\<lambda>s. (r, s))"

definition gets :: "('s \<Rightarrow> 'a) \<Rightarrow> ('s, 'a) act" where
  "gets f = (\<lambda>s. (Ok (f s), s))"

definition modify :: "('s \<Rightarrow> 's) \<Rightarrow> ('s, unit) act" where
  "modify f = (\<lambda>s. (Ok (), f s))"

definition bind_act :: "('s, 'a) act \<Rightarrow> ('a \<Rightarrow> ('s, 'b) act) \<Rightarrow> ('s, 'b) act" where
  "bind_act m f = (\<lambda>s. case m s of
      (Ok x, s') \<Rightarrow> f x s'
    | (Err e, s') \<Rightarrow> (Err e, s')
    | (Panic, s') \<Rightarrow> (Panic, s'))"

text \<open>\<open>catch m f\<close> runs \<open>f\<close> on the outcome of \<open>m\<close> unless it panicked: the code's
  \<open>match\<close>, \<open>if let Ok\<close> and \<open>let _ =\<close> on a \<open>Result\<close>.\<close>

definition catch :: "('s, 'a) act \<Rightarrow> ('a outcome \<Rightarrow> ('s, 'b) act) \<Rightarrow> ('s, 'b) act" where
  "catch m f = (\<lambda>s. case m s of
      (Ok x, s') \<Rightarrow> f (Ok x) s'
    | (Err e, s') \<Rightarrow> f (Err e) s'
    | (Panic, s') \<Rightarrow> (Panic, s'))"

text \<open>A \<open>for\<close> loop whose body may leave the function through \<open>?\<close>.\<close>

primrec for_each :: "'i list \<Rightarrow> ('i \<Rightarrow> ('s, unit) act) \<Rightarrow> ('s, unit) act" where
  "for_each [] body = return_act ()"
| "for_each (i # is) body = bind_act (body i) (\<lambda>_. for_each is body)"

lemma act_run [act_simps, simp]:
  "return_act x s = (Ok x, s)"
  "fail e s = (Err e, s)"
  "lift_outcome r s = (r, s)"
  "gets f s = (Ok (f s), s)"
  "modify g s = (Ok (), g s)"
  by (simp_all add: return_act_def fail_def lift_outcome_def gets_def modify_def)

lemma bind_act_run [act_simps]:
  "bind_act m f s = (case m s of
      (Ok x, s') \<Rightarrow> f x s'
    | (Err e, s') \<Rightarrow> (Err e, s')
    | (Panic, s') \<Rightarrow> (Panic, s'))"
  by (simp add: bind_act_def)

lemma bind_act_simps [simp]:
  "m s = (Ok x, s') \<Longrightarrow> bind_act m f s = f x s'"
  "m s = (Err e, s') \<Longrightarrow> bind_act m f s = (Err e, s')"
  "m s = (Panic, s') \<Longrightarrow> bind_act m f s = (Panic, s')"
  by (simp_all add: bind_act_def)

lemma bind_act_invariant:
  assumes "m s = (r, s')" and "I s'" and "\<And>x. r = Ok x \<Longrightarrow> I (snd (f x s'))"
  shows "I (snd (bind_act m f s))"
  using assms by (cases r) (simp_all add: bind_act_def)

lemma catch_simps [simp]:
  "m s = (Ok x, s') \<Longrightarrow> catch m f s = f (Ok x) s'"
  "m s = (Err e, s') \<Longrightarrow> catch m f s = f (Err e) s'"
  "m s = (Panic, s') \<Longrightarrow> catch m f s = (Panic, s')"
  by (simp_all add: catch_def)

lemma for_each_cong: "(\<And>x. x \<in> set xs \<Longrightarrow> f x = g x) \<Longrightarrow> for_each xs f = for_each xs g"
  by (induction xs) auto

lemma for_each_map: "for_each (map h xs) f = for_each xs (\<lambda>x. f (h x))"
  by (induction xs) auto

lemma for_each_append:
  "for_each (xs @ ys) body s = bind_act (for_each xs body) (\<lambda>_. for_each ys body) s"
proof (induction xs arbitrary: s)
  case Nil
  then show ?case by simp
next
  case (Cons x xs)
  then show ?case by (cases "body x s", cases "fst (body x s)") (auto simp: bind_act_def)
qed

lemma for_each_snoc:
  "for_each xs body s = (Ok (), t) \<Longrightarrow> for_each (xs @ [x]) body s = body x t"
  by (cases "body x t", cases "fst (body x t)") (auto simp: for_each_append bind_act_def)

subsection \<open>Triples and invariants\<close>

definition spec :: "('s \<Rightarrow> bool) \<Rightarrow> ('s, 'a) act \<Rightarrow> ('a outcome \<Rightarrow> 's \<Rightarrow> bool) \<Rightarrow> bool" where
  "spec P m Q \<longleftrightarrow> (\<forall>s. P s \<longrightarrow> Q (fst (m s)) (snd (m s)))"

definition keeps :: "('s \<Rightarrow> bool) \<Rightarrow> ('s, 'a) act \<Rightarrow> bool" where
  "keeps I m \<longleftrightarrow> spec I m (\<lambda>_. I)"

lemma specI: "(\<And>s r s'. P s \<Longrightarrow> m s = (r, s') \<Longrightarrow> Q r s') \<Longrightarrow> spec P m Q"
  by (auto simp: spec_def)

lemma specD: "spec P m Q \<Longrightarrow> P s \<Longrightarrow> m s = (r, s') \<Longrightarrow> Q r s'"
  by (auto simp: spec_def)

lemma spec_conseq:
  "spec P m Q \<Longrightarrow> (\<And>s. P' s \<Longrightarrow> P s) \<Longrightarrow> (\<And>r s. Q r s \<Longrightarrow> Q' r s) \<Longrightarrow> spec P' m Q'"
  by (auto simp: spec_def)

lemma keepsI: "(\<And>s. I s \<Longrightarrow> I (snd (m s))) \<Longrightarrow> keeps I m"
  by (simp add: keeps_def spec_def)

lemma keepsD: "keeps I m \<Longrightarrow> I s \<Longrightarrow> I (snd (m s))"
  by (simp add: keeps_def spec_def)

lemma keepsD_eq: "keeps I m \<Longrightarrow> I s \<Longrightarrow> m s = (r, s') \<Longrightarrow> I s'"
  by (metis keepsD snd_conv)

lemma keeps_basic [keeps_intros]:
  "keeps I (return_act x)" "keeps I (fail e)" "keeps I (lift_outcome r)" "keeps I (gets f)"
  by (simp_all add: keeps_def spec_def)

lemma keeps_modify [keeps_intros]: "(\<And>s. I s \<Longrightarrow> I (f s)) \<Longrightarrow> keeps I (modify f)"
  by (simp add: keeps_def spec_def)

lemma keeps_bind [keeps_intros]:
  assumes "keeps I m" and "\<And>x. keeps I (f x)"
  shows "keeps I (bind_act m f)"
proof (rule keepsI)
  fix s assume "I s"
  obtain r s' where run: "m s = (r, s')" by (cases "m s")
  then have "I s'" using \<open>I s\<close> assms(1) by (metis keepsD_eq)
  then show "I (snd (bind_act m f s))"
    using run assms(2) by (cases r) (auto simp: bind_act_def dest: keepsD)
qed

lemma keeps_catch [keeps_intros]:
  assumes "keeps I m" and "\<And>r. keeps I (f r)"
  shows "keeps I (catch m f)"
proof (rule keepsI)
  fix s assume "I s"
  obtain r s' where run: "m s = (r, s')" by (cases "m s")
  then have "I s'" using \<open>I s\<close> assms(1) by (metis keepsD_eq)
  then show "I (snd (catch m f s))"
    using run assms(2) by (cases r) (auto simp: catch_def dest: keepsD)
qed

lemma keeps_if [keeps_intros]:
  "(b \<Longrightarrow> keeps I m) \<Longrightarrow> (\<not> b \<Longrightarrow> keeps I n) \<Longrightarrow> keeps I (if b then m else n)"
  by simp

lemma keeps_case_option [keeps_intros]:
  "(x = None \<Longrightarrow> keeps I m) \<Longrightarrow> (\<And>v. x = Some v \<Longrightarrow> keeps I (f v)) \<Longrightarrow>
   keeps I (case x of None \<Rightarrow> m | Some v \<Rightarrow> f v)"
  by (simp split: option.split)

lemma keeps_case_outcome [keeps_intros]:
  "(\<And>v. x = Ok v \<Longrightarrow> keeps I (f v)) \<Longrightarrow> (\<And>e. x = Err e \<Longrightarrow> keeps I (g e)) \<Longrightarrow>
   (x = Panic \<Longrightarrow> keeps I h) \<Longrightarrow>
   keeps I (case x of Ok v \<Rightarrow> f v | Err e \<Rightarrow> g e | Panic \<Rightarrow> h)"
  by (simp split: outcome.split)

lemma keeps_case_prod [keeps_intros]:
  "(\<And>a b. x = (a, b) \<Longrightarrow> keeps I (f a b)) \<Longrightarrow> keeps I (case x of (a, b) \<Rightarrow> f a b)"
  by (cases x) simp

lemma keeps_read [keeps_intros]: "keeps I (\<lambda>s. (f s, s))"
  by (simp add: keeps_def spec_def)

lemma keeps_for_each [keeps_intros]:
  "(\<And>i. keeps I (body i)) \<Longrightarrow> keeps I (for_each is body)"
  by (induction "is") (auto intro: keeps_intros)

subsection \<open>Lists\<close>

text \<open>A write through the reference that \<open>iter_mut().find(..)\<close> returns.\<close>

fun update_first :: "('a \<Rightarrow> bool) \<Rightarrow> ('a \<Rightarrow> 'a) \<Rightarrow> 'a list \<Rightarrow> 'a list" where
  "update_first P g [] = []"
| "update_first P g (x # xs) = (if P x then g x # xs else x # update_first P g xs)"

lemma find_append: "find P (xs @ ys) = (case find P xs of None \<Rightarrow> find P ys | Some x \<Rightarrow> Some x)"
  by (induction xs) auto

lemma take_drop_append_mid: "length xs = n \<Longrightarrow> take m (drop n (xs @ ys)) = take m ys"
  by simp

lemma nth_append_right': "length xs \<le> i \<Longrightarrow> (xs @ ys) ! i = ys ! (i - length xs)"
  by (simp add: nth_append)

end
