(* ===== verification/Frame_Allocator.thy ===== *)
theory Frame_Allocator
  imports Rust_Prelude
begin

unbundle bit_operations_syntax

text \<open>
  The physical frame allocator, kernel/src/mem/bitmap.rs: one bit per 4 KiB frame, kept in
  physical memory at an address chosen from the UEFI memory map
  (common/src/mem_desc.rs). \<open>phys_mem\<close> is that memory; the bitmap is the bytes from
  \<open>bitmap_phys_addr\<close> on. \<open>usize\<close> and \<open>u64\<close> values are naturals, with a panic where the code's
  arithmetic would overflow. The abstract view is the set \<open>free_frames\<close>; the interface the
  rest of the kernel relies on is the locale \<open>frame_pool\<close> at the end.
\<close>

subsection \<open>The memory map\<close>

datatype MemoryType =
    Reserved | LoaderCode | LoaderData | BootServicesCode | BootServicesData
  | RuntimeServicesCode | RuntimeServicesData | Conventional | Unusable | AcpiReclaim
  | AcpiNonVolatile | Mmio | MmioPortSpace | PalCode | PersistentMemory | Other u32

definition is_available_memory :: "MemoryType \<Rightarrow> bool" where
  "is_available_memory ty \<longleftrightarrow>
     ty = BootServicesCode \<or> ty = BootServicesData \<or> ty = Conventional"

record MemoryDescriptor =
  md_ty :: MemoryType
  phys_start :: nat
  virt_start :: nat
  page_cnt :: nat
  md_attr :: nat

abbreviation PAGE_SIZE :: nat where "PAGE_SIZE \<equiv> 4096"
abbreviation UEFI_PAGE_SIZE :: nat where "UEFI_PAGE_SIZE \<equiv> 0x1000"
abbreviation BITMAP_SIZE :: nat where "BITMAP_SIZE \<equiv> 8"

definition is_valid_mem_desc :: "MemoryDescriptor \<Rightarrow> bool" where
  "is_valid_mem_desc d \<longleftrightarrow>
     is_available_memory (md_ty d) \<and> phys_start d \<noteq> 0 \<and> phys_start d mod PAGE_SIZE = 0"

subsection \<open>One byte of the bitmap\<close>

definition bitmap_get :: "u8 \<Rightarrow> nat \<Rightarrow> bool outcome" where
  "bitmap_get b i =
     (if BITMAP_SIZE \<le> i then err (IndexOutOfBounds i (Some BITMAP_SIZE))
      else Ok (drop_bit i b AND 1 \<noteq> 0))"

definition bitmap_set :: "u8 \<Rightarrow> nat \<Rightarrow> bool \<Rightarrow> u8 outcome" where
  "bitmap_set b i v =
     (if BITMAP_SIZE \<le> i then err (IndexOutOfBounds i (Some BITMAP_SIZE))
      else let b' = (b AND NOT (push_bit i 1)) OR push_bit i (if v then 1 else 0) in
        and_then (bitmap_get b' i) (\<lambda>g. if g = v then Ok b' else Panic))"

definition bitmap_fill :: "bool \<Rightarrow> u8" where
  "bitmap_fill v = (if v then 0xff else 0)"

definition is_allocated_all :: "u8 \<Rightarrow> bool" where
  "is_allocated_all b \<longleftrightarrow> b = 0xff"

definition is_free_all :: "u8 \<Rightarrow> bool" where
  "is_free_all b \<longleftrightarrow> b = 0"

subsection \<open>Frames and the manager\<close>

record MemoryFrame =
  frame_start_phys_addr :: nat
  frame_size :: nat
  deallocated :: bool

definition new_frame :: "nat \<Rightarrow> nat \<Rightarrow> MemoryFrame outcome" where
  "new_frame addr sz =
     (if sz mod PAGE_SIZE = 0
      then Ok \<lparr>frame_start_phys_addr = addr, frame_size = sz, deallocated = False\<rparr> else Panic)"

definition frame_index :: "MemoryFrame \<Rightarrow> nat" where
  "frame_index f = frame_start_phys_addr f div PAGE_SIZE"

record BitmapMemoryManager =
  bitmap_phys_addr :: "nat option"
  total_frame_len :: nat
  allocated_frame_len :: nat
  free_frame_len :: nat
  allocated_frame_len_in_available_mem :: nat
  total_available_mem_size :: nat
  phys_mem :: "nat \<Rightarrow> u8"

definition bmm_new :: "(nat \<Rightarrow> u8) \<Rightarrow> BitmapMemoryManager" where
  "bmm_new mem = \<lparr>bitmap_phys_addr = None, total_frame_len = 0, allocated_frame_len = 0,
     free_frame_len = 0, allocated_frame_len_in_available_mem = 0, total_available_mem_size = 0,
     phys_mem = mem\<rparr>"

definition bitmap_len :: "BitmapMemoryManager \<Rightarrow> nat" where
  "bitmap_len s = (total_frame_len s + BITMAP_SIZE - 1) div BITMAP_SIZE"

definition bitmap_offset :: "nat \<Rightarrow> nat" where
  "bitmap_offset i = i div BITMAP_SIZE"

definition bitmap_pos :: "nat \<Rightarrow> nat" where
  "bitmap_pos i = i mod BITMAP_SIZE"

text \<open>\<open>bitmap(offset)\<close> returns a reference into memory: its address.\<close>

definition bitmap_ref :: "nat \<Rightarrow> BitmapMemoryManager \<Rightarrow> nat outcome" where
  "bitmap_ref off s =
     (if bitmap_len s \<le> off then err (IndexOutOfBounds off (Some (bitmap_len s)))
      else and_then (ok_or (bitmap_phys_addr s) (from_error NotInitialized)) (\<lambda>a. uadd a off))"

definition mem_frame :: "nat \<Rightarrow> BitmapMemoryManager \<Rightarrow> MemoryFrame option outcome" where
  "mem_frame i s =
     (case bitmap_ref (bitmap_offset i) s of
        Ok _ \<Rightarrow> and_then (umul i PAGE_SIZE) (\<lambda>a. map_ok Some (new_frame a PAGE_SIZE))
      | Err _ \<Rightarrow> Ok None
      | Panic \<Rightarrow> Panic)"

definition write_byte :: "nat \<Rightarrow> u8 \<Rightarrow> (BitmapMemoryManager, unit) act" where
  "write_byte a b = modify (\<lambda>s. s\<lparr>phys_mem := (phys_mem s)(a := b)\<rparr>)"

definition count_alloc :: "(BitmapMemoryManager, unit) act" where
  "count_alloc s =
     (case usub (free_frame_len s) 1 of
        Ok fr \<Rightarrow>
          (let s' = s\<lparr>allocated_frame_len := allocated_frame_len s + 1, free_frame_len := fr,
               allocated_frame_len_in_available_mem := allocated_frame_len_in_available_mem s + 1\<rparr>
           in (if total_frame_len s' = allocated_frame_len s' + free_frame_len s'
               then Ok () else Panic, s'))
      | _ \<Rightarrow> (Panic, s))"

definition count_dealloc :: "(BitmapMemoryManager, unit) act" where
  "count_dealloc s =
     (case (usub (allocated_frame_len s) 1, usub (allocated_frame_len_in_available_mem s) 1) of
        (Ok al, Ok av) \<Rightarrow>
          (let s' = s\<lparr>allocated_frame_len := al, free_frame_len := free_frame_len s + 1,
               allocated_frame_len_in_available_mem := av\<rparr>
           in (if total_frame_len s' = allocated_frame_len s' + free_frame_len s'
               then Ok () else Panic, s'))
      | _ \<Rightarrow> (Panic, s))"

definition alloc_frame :: "nat \<Rightarrow> (BitmapMemoryManager, unit) act" where
  "alloc_frame i =
     bind_act (\<lambda>s. (bitmap_ref (bitmap_offset i) s, s)) (\<lambda>a.
     bind_act (\<lambda>s. (bitmap_get (phys_mem s a) (bitmap_pos i), s)) (\<lambda>g.
     if g then fail (from_error (BitmapError (MemoryFrameWasAlreadyAllocated i)))
     else bind_act (\<lambda>s. (bitmap_set (phys_mem s a) (bitmap_pos i) True, s)) (\<lambda>b.
     bind_act (write_byte a b) (\<lambda>_. count_alloc))))"

definition dealloc_frame :: "nat \<Rightarrow> (BitmapMemoryManager, unit) act" where
  "dealloc_frame i =
     bind_act (\<lambda>s. (bitmap_ref (bitmap_offset i) s, s)) (\<lambda>a.
     bind_act (\<lambda>s. (bitmap_get (phys_mem s a) (bitmap_pos i), s)) (\<lambda>g.
     if \<not> g then fail (from_error (BitmapError (MemoryFrameWasAlreadyDeallocated i)))
     else bind_act (\<lambda>s. (bitmap_set (phys_mem s a) (bitmap_pos i) False, s)) (\<lambda>b.
     bind_act (write_byte a b) (\<lambda>_. count_dealloc))))"

subsection \<open>Allocating one frame\<close>

text \<open>The two nested loops of \<open>alloc_single_mem_frame\<close>: bits \<open>js\<close> of byte \<open>i\<close>, then bytes \<open>is\<close>.\<close>

fun single_in_byte :: "u8 \<Rightarrow> nat \<Rightarrow> nat list \<Rightarrow> nat option outcome" where
  "single_in_byte b i [] = Ok None"
| "single_in_byte b i (j # js) =
     (let fi = i * BITMAP_SIZE + j in
      if fi = 0 then single_in_byte b i js
      else and_then (bitmap_get b j)
        (\<lambda>g. if \<not> g then Ok (Some fi) else single_in_byte b i js))"

fun single_search :: "BitmapMemoryManager \<Rightarrow> nat list \<Rightarrow> nat option outcome" where
  "single_search s [] = Ok None"
| "single_search s (i # is) =
     and_then (bitmap_ref i s) (\<lambda>a.
       if is_allocated_all (phys_mem s a) then single_search s is
       else and_then (single_in_byte (phys_mem s a) i [0..<BITMAP_SIZE])
         (\<lambda>r. case r of None \<Rightarrow> single_search s is | Some fi \<Rightarrow> Ok (Some fi)))"

definition alloc_single_mem_frame :: "(BitmapMemoryManager, MemoryFrame) act" where
  "alloc_single_mem_frame s =
     (if free_frame_len s = 0 then (err (BitmapError FreeMemoryFrameWasNotFound), s)
      else bind_act (\<lambda>s. (single_search s [0..<bitmap_len s], s))
        (\<lambda>r. case r of
           None \<Rightarrow> fail (from_error (BitmapError FreeMemoryFrameWasNotFound))
         | Some fi \<Rightarrow> bind_act (alloc_frame fi) (\<lambda>_.
             lift_outcome (and_then (umul fi PAGE_SIZE) (\<lambda>a. new_frame a PAGE_SIZE)))) s)"

subsection \<open>Allocating consecutive frames\<close>

text \<open>The search of \<open>alloc_multi_mem_frame\<close>. Its variables are \<open>start_frame_index\<close> and
  \<open>consecutive_count\<close>; the flag says that the loop was left by \<open>break 'outer\<close>.\<close>

fun multi_in_byte ::
  "nat \<Rightarrow> u8 \<Rightarrow> nat \<Rightarrow> nat list \<Rightarrow> nat option \<times> nat \<Rightarrow> (bool \<times> nat option \<times> nat) outcome" where
  "multi_in_byte len b i [] (st, c) = Ok (False, st, c)"
| "multi_in_byte len b i (j # js) (st, c) =
     (let fi = i * BITMAP_SIZE + j in
      if fi = 0 then multi_in_byte len b i js (st, c)
      else and_then (bitmap_get b j) (\<lambda>g.
        if \<not> g then
          (let st' = (if c = 0 then Some fi else st); c' = c + 1 in
           if c' = len then Ok (True, st', c') else multi_in_byte len b i js (st', c'))
        else multi_in_byte len b i js (None, 0)))"

fun multi_search ::
  "nat \<Rightarrow> BitmapMemoryManager \<Rightarrow> nat list \<Rightarrow> nat option \<times> nat \<Rightarrow> (nat option \<times> nat) outcome" where
  "multi_search len s [] stc = Ok stc"
| "multi_search len s (i # is) stc =
     and_then (bitmap_ref i s) (\<lambda>a.
       if len = BITMAP_SIZE \<and> 0 < i \<and> is_free_all (phys_mem s a)
       then Ok (Some (i * BITMAP_SIZE), len)
       else and_then (multi_in_byte len (phys_mem s a) i [0..<BITMAP_SIZE] stc)
         (\<lambda>(brk, stc'). if brk then Ok stc' else multi_search len s is stc'))"

definition alloc_multi_mem_frame :: "nat \<Rightarrow> (BitmapMemoryManager, MemoryFrame) act" where
  "alloc_multi_mem_frame len s =
     (if len = 0 then (err (BitmapError (InvalidMemoryFrameLength len)), s)
      else if len = 1 then alloc_single_mem_frame s
      else if free_frame_len s < len then (err (BitmapError FreeMemoryFrameWasNotFound), s)
      else bind_act (\<lambda>s. (multi_search len s [0..<bitmap_len s] (None, 0), s)) (\<lambda>(st, c).
        case st of
          None \<Rightarrow> fail (from_error (BitmapError FreeMemoryFrameWasNotFound))
        | Some start \<Rightarrow>
            if c < len then fail (from_error (BitmapError FreeMemoryFrameWasNotFound))
            else bind_act (for_each [0..<len] (\<lambda>i. alloc_frame (start + i))) (\<lambda>_.
              lift_outcome (and_then (umul start PAGE_SIZE) (\<lambda>a.
                and_then (umul PAGE_SIZE len) (\<lambda>sz. new_frame a sz))))) s)"

text \<open>\<open>dealloc_mem_frame\<close> owns the frame: when the loop fails, the frame is dropped, and
  dropping a frame that is not marked deallocated panics (\<open>impl Drop for MemoryFrame\<close>).\<close>

definition drop_frame :: "MemoryFrame \<Rightarrow> unit outcome" where
  "drop_frame f = (if deallocated f then Ok () else Panic)"

definition dealloc_mem_frame :: "MemoryFrame \<Rightarrow> (BitmapMemoryManager, unit) act" where
  "dealloc_mem_frame f =
     catch (for_each [frame_index f..<frame_index f + frame_size f div PAGE_SIZE] dealloc_frame)
       (\<lambda>r. case r of
          Ok _ \<Rightarrow> lift_outcome (drop_frame (f\<lparr>deallocated := True\<rparr>))
        | Err e \<Rightarrow> lift_outcome (and_then (drop_frame f) (\<lambda>_. Err e))
        | Panic \<Rightarrow> lift_outcome Panic)"

definition leak :: "MemoryFrame \<Rightarrow> MemoryFrame" where
  "leak f = f\<lparr>deallocated := True\<rparr>"

subsection \<open>Initialisation\<close>

definition desc_end :: "MemoryDescriptor \<Rightarrow> nat outcome" where
  "desc_end d = and_then (umul (page_cnt d) UEFI_PAGE_SIZE) (\<lambda>sz. uadd (phys_start d) sz)"

text \<open>\<open>iter().map(..).max().unwrap()\<close>: panics on an empty map.\<close>

fun max_phys_addr :: "MemoryDescriptor list \<Rightarrow> nat outcome" where
  "max_phys_addr [] = Panic"
| "max_phys_addr [d] = desc_end d"
| "max_phys_addr (d # ds) =
     and_then (desc_end d) (\<lambda>e. and_then (max_phys_addr ds) (\<lambda>m. Ok (max e m)))"

fun available_size :: "MemoryDescriptor list \<Rightarrow> nat outcome" where
  "available_size [] = Ok 0"
| "available_size (d # ds) =
     and_then (available_size ds) (\<lambda>t.
       if is_valid_mem_desc d
       then and_then (umul (page_cnt d) UEFI_PAGE_SIZE) (\<lambda>sz. uadd sz t)
       else Ok t)"

definition bmm_init :: "MemoryDescriptor list \<Rightarrow> (BitmapMemoryManager, unit) act" where
  "bmm_init mem_map =
     bind_act (lift_outcome (and_then (max_phys_addr mem_map) (\<lambda>m. uadd m UEFI_PAGE_SIZE))) (\<lambda>m.
     let total = max (m div UEFI_PAGE_SIZE) 1 in
     bind_act (lift_outcome
       (case find (\<lambda>d. is_valid_mem_desc d \<and>
                      total div BITMAP_SIZE \<le> page_cnt d * UEFI_PAGE_SIZE) mem_map of
          None \<Rightarrow> Panic | Some d \<Rightarrow> Ok d)) (\<lambda>bitmap_desc.
     bind_act (lift_outcome (available_size mem_map)) (\<lambda>avail.
     modify (\<lambda>s. s\<lparr>bitmap_phys_addr := Some (phys_start bitmap_desc),
       total_frame_len := total, allocated_frame_len := total, free_frame_len := 0,
       allocated_frame_len_in_available_mem := avail div UEFI_PAGE_SIZE,
       total_available_mem_size := avail\<rparr>))))"

definition fill_step :: "nat \<Rightarrow> (BitmapMemoryManager, unit) act" where
  "fill_step i =
     bind_act (\<lambda>s. (bitmap_ref i s, s)) (\<lambda>a. write_byte a (bitmap_fill True))"

definition dealloc_desc :: "MemoryDescriptor \<Rightarrow> (BitmapMemoryManager, unit) act" where
  "dealloc_desc d = for_each [0..<page_cnt d] (\<lambda>i.
     bind_act (lift_outcome (and_then (umul i PAGE_SIZE) (\<lambda>off. uadd (phys_start d) off)))
       (\<lambda>a. dealloc_frame (a div PAGE_SIZE)))"

definition bmm_init2 :: "MemoryDescriptor list \<Rightarrow> (BitmapMemoryManager, unit) act" where
  "bmm_init2 mem_map =
     bind_act (\<lambda>s. for_each [0..<bitmap_len s] fill_step s) (\<lambda>_.
     bind_act (for_each (filter is_valid_mem_desc mem_map) dealloc_desc) (\<lambda>_.
     bind_act (\<lambda>s. (ok_or (bitmap_phys_addr s) (from_error NotInitialized), s)) (\<lambda>a.
     bind_act (\<lambda>s. (uadd a (bitmap_len s), s)) (\<lambda>e.
       for_each [a div PAGE_SIZE..<Suc (e div PAGE_SIZE)]
         (\<lambda>i. catch (alloc_frame i) (\<lambda>_. return_act ()))))))"

text \<open>The module's \<open>init\<close>, under the lock.\<close>

definition init_bitmap :: "MemoryDescriptor list \<Rightarrow> (BitmapMemoryManager, unit) act" where
  "init_bitmap mem_map = bind_act (bmm_init mem_map) (\<lambda>_. bmm_init2 mem_map)"

definition total_mem_size :: "BitmapMemoryManager \<Rightarrow> nat outcome" where
  "total_mem_size s = umul (total_frame_len s) PAGE_SIZE"

definition mem_size :: "BitmapMemoryManager \<Rightarrow> (nat \<times> nat) outcome" where
  "mem_size s =
     and_then (umul (allocated_frame_len_in_available_mem s) PAGE_SIZE)
       (\<lambda>used. Ok (used, total_available_mem_size s))"

subsection \<open>Bytes\<close>

lemma bitmap_get_bit: "i < 8 \<Longrightarrow> bitmap_get b i = Ok (bit b i)"
  by (simp add: bitmap_get_def and_one_eq bit_iff_odd_drop_bit odd_iff_mod_2_eq_one)

definition set_bit8 :: "u8 \<Rightarrow> nat \<Rightarrow> bool \<Rightarrow> u8" where
  "set_bit8 b i v = (if v then set_bit i b else unset_bit i b)"

lemma bit_set_bit8: "i < 8 \<Longrightarrow> j < 8 \<Longrightarrow> bit (set_bit8 b i v) j = (if j = i then v else bit b j)"
  by (auto simp: set_bit8_def bit_simps)

lemma bitmap_set_eq: "i < 8 \<Longrightarrow> bitmap_set b i v = Ok (set_bit8 b i v)"
proof -
  assume i: "i < 8"
  have eq: "(b AND NOT (push_bit i 1)) OR push_bit i (if v then 1 else 0) = set_bit8 b i v"
    by (rule bit_word_eqI) (auto simp: set_bit8_def bit_simps)
  have "bitmap_get (set_bit8 b i v) i = Ok v"
    using i by (simp add: bitmap_get_bit bit_set_bit8)
  with i eq show ?thesis by (simp add: bitmap_set_def Let_def)
qed

lemma fill_True_bits: "j < 8 \<Longrightarrow> bit (bitmap_fill True) j"
proof -
  assume "j < 8"
  then have "j \<in> {0, 1, 2, 3, 4, 5, 6, 7}" by auto
  then show ?thesis by (auto simp: bitmap_fill_def bit_iff_odd)
qed

lemma is_free_all_bits: "is_free_all b \<Longrightarrow> \<not> bit b j"
  by (simp add: is_free_all_def)

lemma is_allocated_all_bits: "is_allocated_all b \<Longrightarrow> j < 8 \<Longrightarrow> bit b j"
  using fill_True_bits by (simp add: is_allocated_all_def bitmap_fill_def)


subsection \<open>The abstract view\<close>

text \<open>A frame is free when it has a bit and the bit is 0.\<close>

definition bitmap_bit :: "BitmapMemoryManager \<Rightarrow> nat \<Rightarrow> bool" where
  "bitmap_bit s i = bit (phys_mem s (the (bitmap_phys_addr s) + i div 8)) (i mod 8)"

definition frame_free :: "BitmapMemoryManager \<Rightarrow> nat \<Rightarrow> bool" where
  "frame_free s i \<longleftrightarrow> i < 8 * bitmap_len s \<and> \<not> bitmap_bit s i"

definition free_frames :: "BitmapMemoryManager \<Rightarrow> nat set" where
  "free_frames s = {i. frame_free s i}"

text \<open>What \<open>init\<close> fixes for good: where the bitmap is and how long it is.\<close>

definition bmm_wf :: "BitmapMemoryManager \<Rightarrow> bool" where
  "bmm_wf s \<longleftrightarrow> (\<exists>a. bitmap_phys_addr s = Some a \<and> a + bitmap_len s < 2 ^ 64) \<and>
     total_frame_len s * PAGE_SIZE < 2 ^ 64"

definition bmm_inv :: "BitmapMemoryManager \<Rightarrow> bool" where
  "bmm_inv s \<longleftrightarrow> bmm_wf s \<and> free_frames s \<subseteq> {..<total_frame_len s} \<and>
     free_frame_len s = card (free_frames s) \<and>
     allocated_frame_len s + free_frame_len s = total_frame_len s \<and>
     allocated_frame_len_in_available_mem s + free_frame_len s =
       total_available_mem_size s div PAGE_SIZE"

lemma finite_free_frames [simp]: "finite (free_frames s)"
  by (rule finite_subset [of _ "{..<8 * bitmap_len s}"]) (auto simp: free_frames_def frame_free_def)

lemma total_le_bits: "total_frame_len s \<le> 8 * bitmap_len s"
  by (simp add: bitmap_len_def)

lemma bits_div: "i < 8 * n \<Longrightarrow> i div 8 < n" for n :: nat
  by auto

lemma bitmap_ref_Ok:
  "bmm_wf s \<Longrightarrow> off < bitmap_len s \<Longrightarrow> bitmap_ref off s = Ok (the (bitmap_phys_addr s) + off)"
  by (auto simp: bmm_wf_def bitmap_ref_def)

lemma bitmap_ref_Err:
  "bitmap_len s \<le> off \<Longrightarrow> bitmap_ref off s = err (IndexOutOfBounds off (Some (bitmap_len s)))"
  by (simp add: bitmap_ref_def)

text \<open>Writing bit \<open>i\<close> changes bit \<open>i\<close> only.\<close>

definition write_bit :: "nat \<Rightarrow> bool \<Rightarrow> BitmapMemoryManager \<Rightarrow> BitmapMemoryManager" where
  "write_bit i v s = (let a = the (bitmap_phys_addr s) + i div 8 in
     s\<lparr>phys_mem := (phys_mem s)(a := set_bit8 (phys_mem s a) (i mod 8) v)\<rparr>)"

lemma write_bit_fields [simp]:
  "bitmap_phys_addr (write_bit i v s) = bitmap_phys_addr s"
  "total_frame_len (write_bit i v s) = total_frame_len s"
  "allocated_frame_len (write_bit i v s) = allocated_frame_len s"
  "free_frame_len (write_bit i v s) = free_frame_len s"
  "allocated_frame_len_in_available_mem (write_bit i v s) = allocated_frame_len_in_available_mem s"
  "total_available_mem_size (write_bit i v s) = total_available_mem_size s"
  "bitmap_len (write_bit i v s) = bitmap_len s"
  by (simp_all add: write_bit_def Let_def bitmap_len_def)

lemma div_mod_eq_iff: "i div 8 = j div 8 \<and> i mod 8 = j mod 8 \<longleftrightarrow> i = j" for i j :: nat
  by (metis div_mult_mod_eq)

lemma bitmap_bit_write: "bitmap_bit (write_bit i v s) j = (if j = i then v else bitmap_bit s j)"
  using div_mod_eq_iff [of i j]
  by (auto simp: bitmap_bit_def write_bit_def Let_def bit_set_bit8)

lemma free_frames_write:
  "i < 8 * bitmap_len s \<Longrightarrow>
   free_frames (write_bit i v s) = (if v then free_frames s - {i} else insert i (free_frames s))"
  by (auto simp: free_frames_def frame_free_def bitmap_bit_write)

lemma free_frames_cong:
  "phys_mem t = phys_mem s \<Longrightarrow> bitmap_phys_addr t = bitmap_phys_addr s \<Longrightarrow>
   total_frame_len t = total_frame_len s \<Longrightarrow> free_frames t = free_frames s"
  by (simp add: free_frames_def frame_free_def bitmap_bit_def bitmap_len_def)

subsection \<open>Single frames\<close>

lemma alloc_frame_run:
  assumes "bmm_wf s"
  shows "alloc_frame i s =
    (if 8 * bitmap_len s \<le> i
     then (err (IndexOutOfBounds (i div 8) (Some (bitmap_len s))), s)
     else if bitmap_bit s i
     then (err (BitmapError (MemoryFrameWasAlreadyAllocated i)), s)
     else count_alloc (write_bit i True s))"
  using assms bits_div [of i "bitmap_len s"] bitmap_ref_Ok [OF assms, of "i div 8"]
    bitmap_ref_Err [of s "i div 8"]
  by (auto simp: alloc_frame_def bind_act_run bitmap_offset_def bitmap_pos_def bitmap_get_bit
      bitmap_set_eq bitmap_bit_def write_bit_def write_byte_def Let_def)

lemma dealloc_frame_run:
  assumes "bmm_wf s"
  shows "dealloc_frame i s =
    (if 8 * bitmap_len s \<le> i
     then (err (IndexOutOfBounds (i div 8) (Some (bitmap_len s))), s)
     else if \<not> bitmap_bit s i
     then (err (BitmapError (MemoryFrameWasAlreadyDeallocated i)), s)
     else count_dealloc (write_bit i False s))"
  using assms bits_div [of i "bitmap_len s"] bitmap_ref_Ok [OF assms, of "i div 8"]
    bitmap_ref_Err [of s "i div 8"]
  by (auto simp: dealloc_frame_def bind_act_run bitmap_offset_def bitmap_pos_def bitmap_get_bit
      bitmap_set_eq bitmap_bit_def write_bit_def write_byte_def Let_def)

text \<open>What stays put under every operation after \<open>init\<close>.\<close>

definition same_layout :: "BitmapMemoryManager \<Rightarrow> BitmapMemoryManager \<Rightarrow> bool" where
  "same_layout s t \<longleftrightarrow> bitmap_phys_addr t = bitmap_phys_addr s \<and>
     total_frame_len t = total_frame_len s \<and>
     total_available_mem_size t = total_available_mem_size s"

lemma same_layout_refl [simp]: "same_layout s s"
  by (simp add: same_layout_def)

lemma same_layout_trans: "same_layout s t \<Longrightarrow> same_layout t u \<Longrightarrow> same_layout s u"
  by (simp add: same_layout_def)

lemma same_layout_len: "same_layout s t \<Longrightarrow> bitmap_len t = bitmap_len s"
  by (simp add: same_layout_def bitmap_len_def)

lemma alloc_frame_free:
  assumes inv: "bmm_inv s" and free: "i \<in> free_frames s"
  obtains t where "alloc_frame i s = (Ok (), t)" "bmm_inv t"
    "free_frames t = free_frames s - {i}" "same_layout s t"
proof -
  let ?w = "write_bit i True s"
  let ?t = "?w\<lparr>allocated_frame_len := allocated_frame_len s + 1,
    free_frame_len := free_frame_len s - 1,
    allocated_frame_len_in_available_mem := allocated_frame_len_in_available_mem s + 1\<rparr>"
  have i: "i < 8 * bitmap_len s" "\<not> bitmap_bit s i" using free
    by (auto simp: free_frames_def frame_free_def)
  have ff: "free_frames ?t = free_frames s - {i}"
    using free_frames_write [OF i(1), of True] free_frames_cong [of ?t ?w] by simp
  have pos: "0 < card (free_frames s)" using free by (auto simp: card_gt_0_iff)
  have wf: "bmm_wf ?t" using inv by (simp add: bmm_inv_def bmm_wf_def bitmap_len_def)
  have "alloc_frame i s = (Ok (), ?t)"
    using i inv pos alloc_frame_run [of s i]
    by (auto simp: bmm_inv_def count_alloc_def Let_def)
  moreover have "bmm_inv ?t"
    unfolding bmm_inv_def ff using wf inv [unfolded bmm_inv_def] pos free by auto
  moreover have "same_layout s ?t" by (simp add: same_layout_def)
  ultimately show thesis using ff that by blast
qed

lemma dealloc_frame_used:
  assumes inv: "bmm_inv s" and used: "i < total_frame_len s" "i \<notin> free_frames s"
    and room: "0 < allocated_frame_len_in_available_mem s"
  obtains t where "dealloc_frame i s = (Ok (), t)" "bmm_inv t"
    "free_frames t = insert i (free_frames s)" "same_layout s t"
    "allocated_frame_len_in_available_mem t = allocated_frame_len_in_available_mem s - 1"
proof -
  let ?w = "write_bit i False s"
  let ?t = "?w\<lparr>allocated_frame_len := allocated_frame_len s - 1,
    free_frame_len := free_frame_len s + 1,
    allocated_frame_len_in_available_mem := allocated_frame_len_in_available_mem s - 1\<rparr>"
  have i: "i < 8 * bitmap_len s" using used total_le_bits [of s] by simp
  have b: "bitmap_bit s i" using i used by (auto simp: free_frames_def frame_free_def)
  have ff: "free_frames ?t = insert i (free_frames s)"
    using free_frames_write [OF i, of False] free_frames_cong [of ?t ?w] by simp
  have "card (free_frames s) < total_frame_len s"
  proof -
    have "free_frames s \<subset> {..<total_frame_len s}" using inv used by (auto simp: bmm_inv_def)
    then show ?thesis using psubset_card_mono [of "{..<total_frame_len s}"] by simp
  qed
  then have pos: "0 < allocated_frame_len s" using inv by (auto simp: bmm_inv_def)
  have wf: "bmm_wf ?t" using inv by (simp add: bmm_inv_def bmm_wf_def bitmap_len_def)
  have "dealloc_frame i s = (Ok (), ?t)"
    using i b inv pos room dealloc_frame_run [of s i]
    by (auto simp: bmm_inv_def count_dealloc_def Let_def)
  moreover have "bmm_inv ?t"
    unfolding bmm_inv_def ff using wf inv [unfolded bmm_inv_def] pos room used by auto
  moreover have "same_layout s ?t" by (simp add: same_layout_def)
  ultimately show thesis using ff that by simp
qed

subsection \<open>The searches\<close>

lemma upt_by_bytes: "k < n \<Longrightarrow> [8 * k..<8 * n] = map (\<lambda>j. k * 8 + j) [0..<8] @ [8 * Suc k..<8 * n]"
proof -
  assume "k < n"
  then have "[8 * k..<8 * n] = [8 * k..<8 * k + 8] @ [8 * k + 8..<8 * n]"
    using upt_add_eq_append [of "8 * k" "8 * k + 8" "8 * n - (8 * k + 8)"] by simp
  moreover have "[8 * k..<8 * k + 8] = map (\<lambda>j. k * 8 + j) [0..<8]"
    using map_add_upt [of "8 * k" 8] by (simp add: add.commute mult.commute)
  ultimately show ?thesis by (simp add: algebra_simps)
qed

lemma single_in_byte_find:
  "\<forall>j\<in>set js. j < 8 \<Longrightarrow> single_in_byte b i js =
     Ok (find (\<lambda>fi. fi \<noteq> 0 \<and> \<not> bit b (fi mod 8)) (map (\<lambda>j. i * 8 + j) js))"
  by (induction js) (auto simp: bitmap_get_bit Let_def)

lemma frame_free_in_byte:
  assumes "i < bitmap_len s" and "j < 8"
  shows "frame_free s (i * 8 + j) \<longleftrightarrow> \<not> bit (phys_mem s (the (bitmap_phys_addr s) + i)) j"
proof -
  have "(i * 8 + j) div 8 = i" "(i * 8 + j) mod 8 = j" using assms(2) by auto
  with assms show ?thesis by (auto simp: frame_free_def bitmap_bit_def)
qed

lemma byte_frames:
  assumes "x \<in> set (map (\<lambda>j. k * 8 + j) [0..<8])"
  obtains j where "x = k * 8 + j" "j < 8"
proof -
  have "x = k * 8 + (x - k * 8)" "x - k * 8 < 8" using assms by auto
  then show thesis using that by blast
qed

lemma find_cong_all: "\<forall>x\<in>set xs. P x = Q x \<Longrightarrow> find P xs = find Q xs"
  by (induction xs) auto

lemma single_search_find:
  assumes wf: "bmm_wf s"
  shows "k \<le> n \<Longrightarrow> n \<le> bitmap_len s \<Longrightarrow> single_search s [k..<n] =
    Ok (find (\<lambda>fi. fi \<noteq> 0 \<and> frame_free s fi) [8 * k..<8 * n])"
proof (induction "n - k" arbitrary: k)
  case 0
  then show ?case by simp
next
  case (Suc m)
  then have k: "k < n" "k < bitmap_len s" by simp_all
  let ?b = "phys_mem s (the (bitmap_phys_addr s) + k)"
  let ?P = "\<lambda>fi. fi \<noteq> 0 \<and> frame_free s fi"
  have byte: "find (\<lambda>fi. fi \<noteq> 0 \<and> \<not> bit ?b (fi mod 8)) (map (\<lambda>j. k * 8 + j) [0..<8]) =
      find ?P (map (\<lambda>j. k * 8 + j) [0..<8])"
  proof (intro find_cong_all ballI)
    fix x assume "x \<in> set (map (\<lambda>j. k * 8 + j) [0..<8])"
    then obtain j where "x = k * 8 + j" "j < 8" by (rule byte_frames)
    then show "(x \<noteq> 0 \<and> \<not> bit ?b (x mod 8)) = ?P x"
      using frame_free_in_byte [OF k(2), of j] by simp
  qed
  have full: "find ?P (map (\<lambda>j. k * 8 + j) [0..<8]) = None" if "is_allocated_all ?b"
    unfolding find_None_iff
    using is_allocated_all_bits [OF that] frame_free_in_byte [OF k(2)] by (metis byte_frames)
  have IH: "single_search s [Suc k..<n] = Ok (find ?P [8 * Suc k..<8 * n])"
    using Suc k by simp
  have "[k..<n] = k # [Suc k..<n]" using k by (simp add: upt_conv_Cons)
  then show ?case
    using bitmap_ref_Ok [OF wf k(2)] IH full single_in_byte_find [of "[0..<8]" ?b k]
    unfolding byte upt_by_bytes [OF k(1)] find_append
    by (auto split: option.splits)
qed

text \<open>A run of \<open>n\<close> consecutive frames, frame 0 excluded.\<close>

definition run_at :: "(nat \<Rightarrow> bool) \<Rightarrow> nat \<Rightarrow> nat \<Rightarrow> bool" where
  "run_at P a n \<longleftrightarrow> 1 \<le> a \<and> (\<forall>i. a \<le> i \<and> i < a + n \<longrightarrow> P i)"

text \<open>The state of the search after looking at the frames below \<open>k\<close>: the current run is the
  \<open>c\<close> frames that end at \<open>k\<close>, it cannot be extended downwards, and no run of the wanted
  length was missed.\<close>

definition scan_inv :: "nat \<Rightarrow> (nat \<Rightarrow> bool) \<Rightarrow> nat \<Rightarrow> nat option \<Rightarrow> nat \<Rightarrow> bool" where
  "scan_inv len P k st c \<longleftrightarrow> c < len \<and> c \<le> k \<and> st = (if c = 0 then None else Some (k - c)) \<and>
     (0 < c \<longrightarrow> run_at P (k - c) c) \<and> (k - c \<le> 1 \<or> \<not> P (k - c - 1)) \<and>
     (\<forall>b. b + len \<le> k \<longrightarrow> \<not> run_at P b len)"

lemma scan_inv_0: "0 < len \<Longrightarrow> scan_inv len P 0 None 0"
  by (auto simp: scan_inv_def run_at_def)

lemma scan_inv_skip0: "scan_inv len P 0 st c \<Longrightarrow> scan_inv len P 1 st c"
  by (auto simp: scan_inv_def run_at_def)

lemma scan_inv_used:
  assumes "scan_inv len P k st c" and "\<not> P k"
  shows "scan_inv len P (Suc k) None 0"
proof -
  have "\<not> run_at P b len" if "b + len \<le> Suc k" for b
  proof (cases "b + len \<le> k")
    case False
    then have "b \<le> k" "k < b + len" using that assms by (auto simp: scan_inv_def)
    then show ?thesis using assms(2) by (auto simp: run_at_def)
  qed (use assms in \<open>auto simp: scan_inv_def\<close>)
  then show ?thesis using assms by (auto simp: scan_inv_def)
qed

lemma scan_run_extend:
  assumes "scan_inv len P k st c" and "P k" and "1 \<le> k"
  shows "run_at P (k - c) (Suc c)"
proof (cases "c = 0")
  case False
  then have "run_at P (k - c) c" "c \<le> k" using assms(1) by (simp_all add: scan_inv_def)
  then show ?thesis using assms(2) by (auto simp: run_at_def less_Suc_eq)
qed (use assms in \<open>auto simp: run_at_def less_Suc_eq_le dest: le_antisym\<close>)

lemma scan_inv_free:
  assumes inv: "scan_inv len P k st c" and k: "P k" "1 \<le> k" and c: "Suc c \<noteq> len"
  shows "scan_inv len P (Suc k) (if c = 0 then Some k else st) (Suc c)"
proof -
  have "\<not> run_at P b len" if "b + len \<le> Suc k" for b
  proof (cases "b + len \<le> k")
    case False
    then have b: "b + len = Suc k" using that by simp
    then have lt: "b < k - c" using inv c by (auto simp: scan_inv_def)
    show ?thesis
    proof (cases "k - c \<le> 1")
      case True
      then show ?thesis using lt by (auto simp: run_at_def)
    next
      case False
      then have "\<not> P (k - c - 1)" using inv by (auto simp: scan_inv_def)
      then show ?thesis using lt b by (auto simp: run_at_def intro!: exI [of _ "k - c - 1"])
    qed
  qed (use inv in \<open>auto simp: scan_inv_def\<close>)
  then show ?thesis
    using inv c scan_run_extend [OF inv k] by (auto simp: scan_inv_def)
qed

lemma multi_in_byte_scan:
  assumes "0 < len" and "\<forall>j<8. P (i * 8 + j) \<longleftrightarrow> \<not> bit b j"
  shows "j \<le> 8 \<Longrightarrow> scan_inv len P (i * 8 + j) st c \<Longrightarrow>
    (\<exists>st' c'. multi_in_byte len b i [j..<8] (st, c) = Ok (False, st', c') \<and>
        scan_inv len P (i * 8 + 8) st' c') \<or>
    (\<exists>a. multi_in_byte len b i [j..<8] (st, c) = Ok (True, Some a, len) \<and> run_at P a len)"
proof (induction "8 - j" arbitrary: j st c)
  case 0
  then show ?case by simp
next
  case (Suc m)
  then have j: "j < 8" "m = 8 - Suc j" "Suc j \<le> 8" by simp_all
  let ?k = "i * 8 + j"
  have upt: "[j..<8] = j # [Suc j..<8]" using j by (simp add: upt_conv_Cons)
  have get: "bitmap_get b j = Ok (\<not> P ?k)" using j assms(2) by (simp add: bitmap_get_bit)
  note IH = Suc.hyps(1) [OF j(2,3), unfolded add_Suc_right]
  consider "?k = 0" | "?k \<noteq> 0" "P ?k" "Suc c = len" | "?k \<noteq> 0" "P ?k" "Suc c \<noteq> len"
    | "?k \<noteq> 0" "\<not> P ?k" by blast
  then show ?case
  proof cases
    case 1
    then have "scan_inv len P (Suc ?k) st c" using Suc.prems(2) scan_inv_skip0 [of len P st c] by simp
    with 1 show ?thesis using IH [of st c] upt by simp
  next
    case 2
    then have "run_at P (?k - c) len"
      using scan_run_extend [OF Suc.prems(2)] by (metis One_nat_def Suc_leI gr0I)
    moreover have "st = (if c = 0 then None else Some (?k - c))"
      using Suc.prems(2) by (simp add: scan_inv_def)
    ultimately show ?thesis using 2 upt get by (auto simp: Let_def)
  next
    case 3
    then have "scan_inv len P (Suc ?k) (if c = 0 then Some ?k else st) (Suc c)"
      using scan_inv_free [OF Suc.prems(2)] by (metis One_nat_def Suc_leI gr0I)
    with 3 show ?thesis using IH upt get by (auto simp: Let_def)
  next
    case 4
    then have "scan_inv len P (Suc ?k) None 0"
      using scan_inv_used [OF Suc.prems(2)] by simp
    with 4 show ?thesis using IH [of None 0] upt get by (auto simp: Let_def)
  qed
qed

lemma multi_search_scan:
  assumes wf: "bmm_wf s" and len: "0 < len"
  shows "k \<le> n \<Longrightarrow> n \<le> bitmap_len s \<Longrightarrow> scan_inv len (frame_free s) (k * 8) st c \<Longrightarrow>
    (\<exists>st' c'. multi_search len s [k..<n] (st, c) = Ok (st', c') \<and>
        scan_inv len (frame_free s) (n * 8) st' c') \<or>
    (\<exists>a. multi_search len s [k..<n] (st, c) = Ok (Some a, len) \<and> run_at (frame_free s) a len)"
proof (induction "n - k" arbitrary: k st c)
  case 0
  then show ?case by simp
next
  case (Suc m)
  then have k: "k < n" "k < bitmap_len s" "m = n - Suc k" "Suc k \<le> n" by simp_all
  let ?a = "the (bitmap_phys_addr s) + k"
  let ?b = "phys_mem s ?a" and ?P = "frame_free s"
  have upt: "[k..<n] = k # [Suc k..<n]" using k by (simp add: upt_conv_Cons)
  have bits: "\<forall>j<8. ?P (k * 8 + j) \<longleftrightarrow> \<not> bit ?b j"
    using frame_free_in_byte [OF k(2)] by simp
  have ref: "bitmap_ref k s = Ok ?a" by (rule bitmap_ref_Ok [OF wf k(2)])
  show ?case
  proof (cases "len = 8 \<and> 0 < k \<and> is_free_all ?b")
    case True
    have "?P i" if "k * 8 \<le> i" "i < k * 8 + 8" for i
      using bits is_free_all_bits [of ?b "i - k * 8"] True that
      by (metis add_diff_inverse_nat leD less_diff_conv2 add.commute)
    then have "run_at ?P (k * 8) len" using True by (simp add: run_at_def)
    then show ?thesis using True upt ref by simp
  next
    case fast: False
    from multi_in_byte_scan [OF len bits, of 0 st c] Suc.prems(3)
    consider st' c' where "multi_in_byte len ?b k [0..<8] (st, c) = Ok (False, st', c')"
        "scan_inv len ?P (k * 8 + 8) st' c'"
      | a where "multi_in_byte len ?b k [0..<8] (st, c) = Ok (True, Some a, len)"
        "run_at ?P a len" by auto
    then show ?thesis
    proof cases
      case 1
      then have "scan_inv len ?P (Suc k * 8) st' c'" by (simp add: add.commute)
      from Suc.hyps(1) [OF k(3,4) Suc.prems(2) this] 1 fast upt ref show ?thesis
        by (simp only: multi_search.simps and_then.simps if_False prod.case)
    next
      case 2
      with fast upt ref show ?thesis
        by (simp only: multi_search.simps and_then.simps if_False if_True prod.case) blast
    qed
  qed
qed

lemma multi_search_result:
  assumes "bmm_wf s" and "0 < len"
  obtains (found) a where "multi_search len s [0..<bitmap_len s] (None, 0) = Ok (Some a, len)"
      "run_at (frame_free s) a len"
    | (none) st c where "multi_search len s [0..<bitmap_len s] (None, 0) = Ok (st, c)" "c < len"
      "\<forall>b. \<not> run_at (frame_free s) b len"
proof -
  let ?P = "frame_free s"
  have no_run: "\<forall>b. \<not> run_at ?P b len" if inv: "scan_inv len ?P (bitmap_len s * 8) st c" for st c
  proof (intro allI notI)
    fix b assume run: "run_at ?P b len"
    then have "?P (b + len - 1)" using assms(2) by (auto simp: run_at_def)
    then have "b + len \<le> bitmap_len s * 8" by (auto simp: frame_free_def)
    then show False using inv run by (auto simp: scan_inv_def)
  qed
  from multi_search_scan [OF assms, of 0 "bitmap_len s" None 0] scan_inv_0 [OF assms(2), of ?P]
  consider st c where "multi_search len s [0..<bitmap_len s] (None, 0) = Ok (st, c)"
      "scan_inv len ?P (bitmap_len s * 8) st c"
    | a where "multi_search len s [0..<bitmap_len s] (None, 0) = Ok (Some a, len)"
      "run_at ?P a len" by auto
  then show thesis
  proof cases
    case 1
    moreover have "c < len" using 1(2) by (simp add: scan_inv_def)
    ultimately show ?thesis using no_run none by blast
  qed (rule found)
qed

subsection \<open>Allocation\<close>

text \<open>The frames \<open>a\<close> to \<open>a + n - 1\<close>, all free, are taken one after the other.\<close>

lemma alloc_run:
  "bmm_inv s \<Longrightarrow> {a..<a + n} \<subseteq> free_frames s \<Longrightarrow>
   \<exists>t. for_each [0..<n] (\<lambda>i. alloc_frame (a + i)) s = (Ok (), t) \<and> bmm_inv t \<and>
     free_frames t = free_frames s - {a..<a + n} \<and> same_layout s t"
proof (induction n)
  case 0
  then show ?case by simp
next
  case (Suc n)
  have "{a..<a + n} \<subseteq> free_frames s" using Suc.prems(2) by auto
  then obtain t where t: "for_each [0..<n] (\<lambda>i. alloc_frame (a + i)) s = (Ok (), t)" "bmm_inv t"
    "free_frames t = free_frames s - {a..<a + n}" "same_layout s t"
    using Suc.IH Suc.prems(1) by blast
  then have "a + n \<in> free_frames t" using Suc.prems(2) by auto
  with t obtain u where u: "alloc_frame (a + n) t = (Ok (), u)" "bmm_inv u"
    "free_frames u = free_frames t - {a + n}" "same_layout t u"
    using alloc_frame_free by metis
  have "for_each [0..<Suc n] (\<lambda>i. alloc_frame (a + i)) s = (Ok (), u)"
    using trans [OF for_each_snoc [OF t(1), of n] u(1)] by (simp only: upt_Suc_append le0)
  moreover have "free_frames u = free_frames s - {a..<a + Suc n}"
    unfolding u(3) t(3) atLeastLessThanSuc add_Suc_right by simp blast
  ultimately show ?case using u same_layout_trans [OF t(4) u(4)] by blast
qed

text \<open>The frame that starts at index \<open>a\<close> and has \<open>n\<close> pages, and the indices a frame covers.\<close>

definition frame_at :: "nat \<Rightarrow> nat \<Rightarrow> MemoryFrame" where
  "frame_at a n =
     \<lparr>frame_start_phys_addr = a * PAGE_SIZE, frame_size = PAGE_SIZE * n, deallocated = False\<rparr>"

definition frame_indices :: "MemoryFrame \<Rightarrow> nat set" where
  "frame_indices f = {frame_index f..<frame_index f + frame_size f div PAGE_SIZE}"

lemma frame_indices_frame_at [simp]: "frame_indices (frame_at a n) = {a..<a + n}"
  by (simp add: frame_indices_def frame_at_def frame_index_def)

lemma run_at_free:
  "run_at (frame_free s) a n \<longleftrightarrow> 1 \<le> a \<and> {a..<a + n} \<subseteq> free_frames s"
  by (auto simp: run_at_def free_frames_def)

lemma new_frame_at:
  assumes "bmm_inv s" and "{a..<a + n} \<subseteq> free_frames s" and "0 < n"
  shows "and_then (umul a PAGE_SIZE) (\<lambda>p. and_then (umul PAGE_SIZE n) (new_frame p)) = Ok (frame_at a n)"
proof -
  have "a + n - 1 \<in> free_frames s" using assms(2,3) by auto
  then have "a + n \<le> total_frame_len s" using assms(1) by (auto simp: bmm_inv_def)
  then have "(a + n) * PAGE_SIZE \<le> total_frame_len s * PAGE_SIZE" by simp
  moreover have "total_frame_len s * PAGE_SIZE < 2 ^ 64"
    using assms(1) by (simp add: bmm_inv_def bmm_wf_def)
  ultimately have "a * PAGE_SIZE < 2 ^ 64" "PAGE_SIZE * n < 2 ^ 64" by (simp_all add: algebra_simps)
  then show ?thesis by (simp add: new_frame_def frame_at_def umul_def)
qed

definition alloc_post :: "nat \<Rightarrow> BitmapMemoryManager \<Rightarrow> MemoryFrame \<Rightarrow> BitmapMemoryManager \<Rightarrow> bool"
where
  "alloc_post n s f t \<longleftrightarrow> bmm_inv t \<and> same_layout s t \<and>
     (\<exists>a\<ge>1. f = frame_at a n \<and> {a..<a + n} \<subseteq> free_frames s \<and>
       free_frames t = free_frames s - {a..<a + n})"

lemma alloc_single_found:
  assumes inv: "bmm_inv s" and run: "run_at (frame_free s) b 1"
  shows "\<exists>f t. alloc_single_mem_frame s = (Ok f, t) \<and> alloc_post 1 s f t"
proof -
  let ?P = "\<lambda>fi. fi \<noteq> 0 \<and> frame_free s fi"
  have wf: "bmm_wf s" using inv by (simp add: bmm_inv_def)
  have b: "b \<in> set [8 * 0..<8 * bitmap_len s]" "?P b"
    using run by (auto simp: run_at_free free_frames_def frame_free_def)
  then obtain a where a: "find ?P [8 * 0..<8 * bitmap_len s] = Some a"
    by (metis (mono_tags, lifting) find_None_iff option.exhaust)
  then have Pa: "?P a" by (metis (mono_tags, lifting) find_Some_iff)
  then have free: "a \<in> free_frames s" "{a..<a + 1} \<subseteq> free_frames s" by (auto simp: free_frames_def)
  have "card (free_frames s) \<noteq> 0" using free(1) by auto
  then have len: "free_frame_len s \<noteq> 0" using inv by (simp add: bmm_inv_def)
  have search: "single_search s [0..<bitmap_len s] = Ok (Some a)"
    using single_search_find [OF wf, of 0 "bitmap_len s"] a by simp
  obtain t where t: "alloc_frame a s = (Ok (), t)" "bmm_inv t"
    "free_frames t = free_frames s - {a}" "same_layout s t"
    using alloc_frame_free [OF inv free(1)] by metis
  have "alloc_single_mem_frame s = (Ok (frame_at a 1), t)"
    using len search t(1) new_frame_at [OF inv free(2)]
    by (simp add: alloc_single_mem_frame_def bind_act_run)
  moreover have "alloc_post 1 s (frame_at a 1) t"
    unfolding alloc_post_def using t free Pa by (intro conjI exI [of _ a]) simp_all
  ultimately show ?thesis by blast
qed

lemma alloc_single_none:
  assumes inv: "bmm_inv s" and none: "\<forall>b. \<not> run_at (frame_free s) b 1"
  shows "alloc_single_mem_frame s = (err (BitmapError FreeMemoryFrameWasNotFound), s)"
proof -
  have "find (\<lambda>fi. fi \<noteq> 0 \<and> frame_free s fi) [8 * 0..<8 * bitmap_len s] = None"
    using none by (fastforce simp: find_None_iff run_at_free free_frames_def)
  then have "single_search s [0..<bitmap_len s] = Ok None"
    using single_search_find [of s 0 "bitmap_len s"] inv by (simp add: bmm_inv_def)
  then show ?thesis by (simp add: alloc_single_mem_frame_def)
qed

lemma alloc_multi_found:
  assumes inv: "bmm_inv s" and n: "0 < n" and run: "run_at (frame_free s) b n"
  shows "\<exists>f t. alloc_multi_mem_frame n s = (Ok f, t) \<and> alloc_post n s f t"
proof (cases "n = 1")
  case True
  then show ?thesis using alloc_single_found [OF inv] run by (simp add: alloc_multi_mem_frame_def)
next
  case False
  have wf: "bmm_wf s" using inv by (simp add: bmm_inv_def)
  have "card {b..<b + n} \<le> card (free_frames s)"
    using run by (intro card_mono) (auto simp: run_at_free)
  then have len: "n \<le> free_frame_len s" using inv by (simp add: bmm_inv_def)
  from multi_search_result [OF wf n] run obtain a where
    a: "multi_search n s [0..<bitmap_len s] (None, 0) = Ok (Some a, n)" "run_at (frame_free s) a n"
    by metis
  then have free: "{a..<a + n} \<subseteq> free_frames s" "1 \<le> a" by (simp_all add: run_at_free)
  obtain t where t: "for_each [0..<n] (\<lambda>i. alloc_frame (a + i)) s = (Ok (), t)" "bmm_inv t"
    "free_frames t = free_frames s - {a..<a + n}" "same_layout s t"
    using alloc_run [OF inv free(1)] by metis
  have "alloc_multi_mem_frame n s = (Ok (frame_at a n), t)"
    using n False len a(1) t(1) new_frame_at [OF inv free(1) n]
    by (simp add: alloc_multi_mem_frame_def bind_act_run)
  then show ?thesis using t free by (auto simp: alloc_post_def)
qed

lemma alloc_multi_none:
  assumes inv: "bmm_inv s" and n: "0 < n" and none: "\<forall>b. \<not> run_at (frame_free s) b n"
  shows "alloc_multi_mem_frame n s = (err (BitmapError FreeMemoryFrameWasNotFound), s)"
proof (cases "n = 1")
  case True
  then show ?thesis using alloc_single_none [OF inv] none by (simp add: alloc_multi_mem_frame_def)
next
  case False
  have wf: "bmm_wf s" using inv by (simp add: bmm_inv_def)
  from multi_search_result [OF wf n] none obtain st c where
    "multi_search n s [0..<bitmap_len s] (None, 0) = Ok (st, c)" "c < n" by metis
  then show ?thesis using n False
    by (auto simp: alloc_multi_mem_frame_def bind_act_run split: option.splits)
qed

lemma alloc_multi_cases:
  assumes "bmm_inv s"
  obtains (found) f t where "alloc_multi_mem_frame n s = (Ok f, t)" "alloc_post n s f t" "0 < n"
    | (failed) e where "alloc_multi_mem_frame n s = (Err e, s)"
proof (cases "n = 0")
  case True
  then show thesis using failed by (simp add: alloc_multi_mem_frame_def)
next
  case False
  then show thesis
    using alloc_multi_found [OF assms, of n] alloc_multi_none [OF assms, of n] found failed
    by blast
qed

subsection \<open>Deallocation\<close>

lemma dealloc_run:
  "bmm_inv s \<Longrightarrow> a + n \<le> total_frame_len s \<Longrightarrow> {a..<a + n} \<inter> free_frames s = {} \<Longrightarrow>
   n \<le> allocated_frame_len_in_available_mem s \<Longrightarrow>
   \<exists>t. for_each [a..<a + n] dealloc_frame s = (Ok (), t) \<and> bmm_inv t \<and>
     free_frames t = free_frames s \<union> {a..<a + n} \<and> same_layout s t \<and>
     allocated_frame_len_in_available_mem t = allocated_frame_len_in_available_mem s - n"
proof (induction n)
  case 0
  then show ?case by simp
next
  case (Suc n)
  have "{a..<a + n} \<subseteq> {a..<a + Suc n}" by auto
  then have "{a..<a + n} \<inter> free_frames s = {}" using Suc.prems(3) by blast
  then obtain t where t: "for_each [a..<a + n] dealloc_frame s = (Ok (), t)" "bmm_inv t"
    "free_frames t = free_frames s \<union> {a..<a + n}" "same_layout s t"
    "allocated_frame_len_in_available_mem t = allocated_frame_len_in_available_mem s - n"
    using Suc by auto
  have "a + n \<notin> free_frames t" "a + n < total_frame_len t"
    "0 < allocated_frame_len_in_available_mem t"
    using t Suc.prems by (simp_all add: same_layout_def disjoint_iff)
  with t(2) obtain u where u: "dealloc_frame (a + n) t = (Ok (), u)" "bmm_inv u"
    "free_frames u = insert (a + n) (free_frames t)" "same_layout t u"
    "allocated_frame_len_in_available_mem u = allocated_frame_len_in_available_mem t - 1"
    using dealloc_frame_used by metis
  have "for_each [a..<a + Suc n] dealloc_frame s = (Ok (), u)"
    using u(1) for_each_snoc [OF t(1), of "a + n"] by simp
  moreover have "free_frames u = free_frames s \<union> {a..<a + Suc n}"
    unfolding u(3) t(3) by (simp add: atLeastLessThanSuc)
  ultimately show ?case using u t same_layout_trans [OF t(4) u(4)] by (intro exI [of _ u]) simp
qed

definition dealloc_post :: "BitmapMemoryManager \<Rightarrow> MemoryFrame \<Rightarrow> BitmapMemoryManager \<Rightarrow> bool" where
  "dealloc_post s f t \<longleftrightarrow> bmm_inv t \<and> same_layout s t \<and>
     free_frames t = free_frames s \<union> frame_indices f \<and>
     allocated_frame_len_in_available_mem t =
       allocated_frame_len_in_available_mem s - card (frame_indices f)"

lemma dealloc_mem_frame_ok:
  assumes "bmm_inv s" and "frame_indices f \<subseteq> {..<total_frame_len s}"
    and "frame_indices f \<inter> free_frames s = {}"
    and "card (frame_indices f) \<le> allocated_frame_len_in_available_mem s"
  shows "\<exists>t. dealloc_mem_frame f s = (Ok (), t) \<and> dealloc_post s f t"
proof (cases "frame_size f div PAGE_SIZE = 0")
  case True
  then show ?thesis using assms(1)
    by (auto simp: dealloc_mem_frame_def catch_def drop_frame_def dealloc_post_def frame_indices_def)
next
  case False
  let ?a = "frame_index f" and ?n = "frame_size f div PAGE_SIZE"
  have "?a + ?n \<le> total_frame_len s"
  proof -
    have "?a + ?n - 1 \<in> frame_indices f" using False by (auto simp: frame_indices_def)
    then show ?thesis using assms(2) False by fastforce
  qed
  then obtain t where "for_each [?a..<?a + ?n] dealloc_frame s = (Ok (), t)" "bmm_inv t"
    "free_frames t = free_frames s \<union> frame_indices f" "same_layout s t"
    "allocated_frame_len_in_available_mem t = allocated_frame_len_in_available_mem s - ?n"
    using dealloc_run [OF assms(1), of ?a ?n] assms(3,4) by (auto simp: frame_indices_def)
  then show ?thesis
    by (auto simp: dealloc_mem_frame_def catch_def drop_frame_def dealloc_post_def frame_indices_def)
qed

subsection \<open>Initialisation\<close>

definition desc_pages :: "MemoryDescriptor \<Rightarrow> nat set" where
  "desc_pages d = {phys_start d div PAGE_SIZE..<phys_start d div PAGE_SIZE + page_cnt d}"

definition available_pages :: "MemoryDescriptor list \<Rightarrow> nat set" where
  "available_pages m = (\<Union>d\<in>set (filter is_valid_mem_desc m). desc_pages d)"

definition desc_limit :: "MemoryDescriptor \<Rightarrow> nat" where
  "desc_limit d = phys_start d + page_cnt d * PAGE_SIZE"

definition map_frames :: "MemoryDescriptor list \<Rightarrow> nat" where
  "map_frames m = max ((Max (desc_limit ` set m) + PAGE_SIZE) div PAGE_SIZE) 1"

text \<open>A memory map as the firmware hands it over: every descriptor ends below the top of
  the address space, the usable descriptors do not overlap, and one of them passes the test
  by which \<open>init\<close> chooses the bitmap's place.\<close>

definition mem_map_ok :: "MemoryDescriptor list \<Rightarrow> bool" where
  "mem_map_ok m \<longleftrightarrow> m \<noteq> [] \<and> (\<forall>d\<in>set m. desc_limit d + PAGE_SIZE < 2 ^ 64) \<and>
     sorted_wrt (\<lambda>d e. desc_pages d \<inter> desc_pages e = {}) (filter is_valid_mem_desc m) \<and>
     sum_list (map (\<lambda>d. page_cnt d * PAGE_SIZE) (filter is_valid_mem_desc m)) < 2 ^ 64 \<and>
     (\<exists>d\<in>set m. is_valid_mem_desc d \<and> map_frames m div 8 \<le> page_cnt d * PAGE_SIZE)"

lemma desc_end_ok: "desc_limit d + PAGE_SIZE < 2 ^ 64 \<Longrightarrow> desc_end d = Ok (desc_limit d)"
  by (simp add: desc_end_def desc_limit_def umul_def uadd_def)

lemma max_phys_addr_ok:
  "m \<noteq> [] \<Longrightarrow> \<forall>d\<in>set m. desc_limit d + PAGE_SIZE < 2 ^ 64 \<Longrightarrow>
   max_phys_addr m = Ok (Max (desc_limit ` set m))"
  by (induction m rule: max_phys_addr.induct) (auto simp: desc_end_ok)

lemma available_size_ok:
  "sum_list (map (\<lambda>d. page_cnt d * PAGE_SIZE) (filter is_valid_mem_desc m)) < 2 ^ 64 \<Longrightarrow>
   available_size m =
     Ok (sum_list (map (\<lambda>d. page_cnt d * PAGE_SIZE) (filter is_valid_mem_desc m)))"
  by (induction m) (auto simp: umul_def uadd_def)

definition init_desc :: "MemoryDescriptor list \<Rightarrow> MemoryDescriptor" where
  "init_desc m = the (find (\<lambda>d. is_valid_mem_desc d \<and> map_frames m div 8 \<le> page_cnt d * PAGE_SIZE) m)"

definition init_state :: "MemoryDescriptor list \<Rightarrow> BitmapMemoryManager \<Rightarrow> BitmapMemoryManager" where
  "init_state m s =
     (let avail = sum_list (map (\<lambda>d. page_cnt d * PAGE_SIZE) (filter is_valid_mem_desc m)) in
      s\<lparr>bitmap_phys_addr := Some (phys_start (init_desc m)), total_frame_len := map_frames m,
        allocated_frame_len := map_frames m, free_frame_len := 0,
        allocated_frame_len_in_available_mem := avail div PAGE_SIZE,
        total_available_mem_size := avail\<rparr>)"

lemma init_desc_found:
  assumes "mem_map_ok m"
  shows "find (\<lambda>d. is_valid_mem_desc d \<and> map_frames m div 8 \<le> page_cnt d * PAGE_SIZE) m =
      Some (init_desc m)"
    and "init_desc m \<in> set m" and "is_valid_mem_desc (init_desc m)"
    and "map_frames m div 8 \<le> page_cnt (init_desc m) * PAGE_SIZE"
proof -
  let ?P = "\<lambda>d. is_valid_mem_desc d \<and> map_frames m div 8 \<le> page_cnt d * PAGE_SIZE"
  obtain d where "find ?P m = Some d"
    using assms by (cases "find ?P m") (auto simp: mem_map_ok_def find_None_iff)
  then show "find ?P m = Some (init_desc m)" by (simp add: init_desc_def)
  then show "init_desc m \<in> set m" "is_valid_mem_desc (init_desc m)"
    "map_frames m div 8 \<le> page_cnt (init_desc m) * PAGE_SIZE"
    by (auto simp: find_Some_iff)
qed

lemma bmm_init_run:
  assumes "mem_map_ok m"
  shows "bmm_init m s = (Ok (), init_state m s)"
proof -
  have lim: "\<forall>d\<in>set m. desc_limit d + PAGE_SIZE < 2 ^ 64" and ne: "m \<noteq> []"
    using assms by (simp_all add: mem_map_ok_def)
  have "Max (desc_limit ` set m) \<in> desc_limit ` set m" using ne by (intro Max_in) auto
  then have "Max (desc_limit ` set m) + PAGE_SIZE < 2 ^ 64" using lim by auto
  then have "and_then (max_phys_addr m) (\<lambda>e. uadd e UEFI_PAGE_SIZE) =
      Ok (Max (desc_limit ` set m) + PAGE_SIZE)"
    using max_phys_addr_ok [OF ne lim] by (simp add: uadd_def)
  then show ?thesis
    using init_desc_found(1) [OF assms] available_size_ok [of m] assms
    by (simp add: bmm_init_def bind_act_run Let_def map_frames_def mem_map_ok_def init_state_def)
qed

lemma total_frames_bound:
  assumes "mem_map_ok m"
  shows "map_frames m * PAGE_SIZE < 2 ^ 64"
    and "d \<in> set m \<Longrightarrow> desc_limit d < map_frames m * PAGE_SIZE"
proof -
  let ?M = "Max (desc_limit ` set m)"
  have ne: "set m \<noteq> {}" using assms by (auto simp: mem_map_ok_def)
  then have "?M \<in> desc_limit ` set m" by (intro Max_in) auto
  then have "?M + PAGE_SIZE < 2 ^ 64" using assms by (auto simp: mem_map_ok_def)
  moreover have "(?M + PAGE_SIZE) div PAGE_SIZE * PAGE_SIZE \<le> ?M + PAGE_SIZE"
    by (rule div_times_less_eq_dividend)
  ultimately have "(?M + PAGE_SIZE) div PAGE_SIZE * PAGE_SIZE < 2 ^ 64" by linarith
  then show "map_frames m * PAGE_SIZE < 2 ^ 64" unfolding map_frames_def max_def by auto
  assume "d \<in> set m"
  then have "desc_limit d \<le> ?M" by simp
  moreover have "?M < ((?M + PAGE_SIZE) div PAGE_SIZE) * PAGE_SIZE" by simp
  ultimately show "desc_limit d < map_frames m * PAGE_SIZE" by (simp add: map_frames_def max_def)
qed

lemma init_state_wf:
  assumes "mem_map_ok m"
  shows "bmm_wf (init_state m s)"
proof -
  let ?d = "init_desc m"
  have "desc_limit ?d + PAGE_SIZE < 2 ^ 64"
    using assms init_desc_found(2) [OF assms] by (simp add: mem_map_ok_def)
  moreover have "bitmap_len (init_state m s) \<le> map_frames m div 8 + 1"
    by (simp add: bitmap_len_def init_state_def Let_def)
  moreover have "map_frames m div 8 \<le> page_cnt ?d * PAGE_SIZE" by (rule init_desc_found(4) [OF assms])
  ultimately have "phys_start ?d + bitmap_len (init_state m s) < 2 ^ 64"
    by (simp add: desc_limit_def)
  then show ?thesis using total_frames_bound(1) [OF assms]
    by (simp add: bmm_wf_def init_state_def Let_def)
qed

text \<open>The fill loop sets every bit and nothing else.\<close>

lemma fill_run:
  assumes "bmm_wf s" and "n \<le> bitmap_len s"
  shows "for_each [0..<n] fill_step s = (Ok (), s\<lparr>phys_mem := (\<lambda>a.
    if the (bitmap_phys_addr s) \<le> a \<and> a < the (bitmap_phys_addr s) + n then 0xff
    else phys_mem s a)\<rparr>)"
  using assms(2)
proof (induction n)
  case 0
  have "(\<lambda>a. if the (bitmap_phys_addr s) \<le> a \<and> a < the (bitmap_phys_addr s) + 0 then 0xff
      else phys_mem s a) = phys_mem s" by (rule ext) auto
  then show ?case by simp
next
  case (Suc n)
  let ?a = "the (bitmap_phys_addr s)"
  let ?t = "s\<lparr>phys_mem := (\<lambda>a. if ?a \<le> a \<and> a < ?a + n then 0xff else phys_mem s a)\<rparr>"
  have run: "for_each [0..<n] fill_step s = (Ok (), ?t)" using Suc by simp
  have "bmm_wf ?t" "n < bitmap_len ?t"
    using assms(1) Suc.prems by (auto simp: bmm_wf_def bitmap_len_def)
  then have "fill_step n ?t = (Ok (), ?t\<lparr>phys_mem := (phys_mem ?t)(?a + n := 0xff)\<rparr>)"
    using bitmap_ref_Ok [of ?t n]
    by (simp add: fill_step_def bind_act_run write_byte_def bitmap_fill_def)
  also have "?t\<lparr>phys_mem := (phys_mem ?t)(?a + n := 0xff)\<rparr> = s\<lparr>phys_mem :=
      (\<lambda>a. if ?a \<le> a \<and> a < ?a + Suc n then 0xff else phys_mem s a)\<rparr>"
    by (auto intro!: arg_cong [where f = "\<lambda>f. phys_mem_update (\<lambda>_. f) s"])
  finally show ?case using for_each_snoc [OF run, of n] by simp
qed

lemma filled_inv:
  assumes "mem_map_ok m" and "for_each [0..<bitmap_len (init_state m s)] fill_step (init_state m s) = (r, t)"
  shows "r = Ok () \<and> bmm_inv t \<and> free_frames t = {} \<and> same_layout (init_state m s) t \<and>
    allocated_frame_len_in_available_mem t = total_available_mem_size t div PAGE_SIZE"
proof -
  let ?s = "init_state m s"
  let ?a = "the (bitmap_phys_addr ?s)"
  have t: "r = Ok ()" "t = ?s\<lparr>phys_mem := (\<lambda>a. if ?a \<le> a \<and> a < ?a + bitmap_len ?s then 0xff
      else phys_mem ?s a)\<rparr>"
    using fill_run [OF init_state_wf [OF assms(1)], of "bitmap_len (init_state m s)" s] assms(2) by auto
  have len: "bitmap_len t = bitmap_len ?s" and addr: "bitmap_phys_addr t = bitmap_phys_addr ?s"
    by (simp_all add: t(2) bitmap_len_def)
  have "bitmap_bit t i" if "i < 8 * bitmap_len t" for i
    using that len fill_True_bits [of "i mod 8"] bits_div [OF that]
    by (simp add: bitmap_bit_def t(2) bitmap_fill_def)
  then have "free_frames t = {}" by (auto simp: free_frames_def frame_free_def)
  moreover have "bmm_wf t" using init_state_wf [OF assms(1), of s] len addr
    by (simp add: bmm_wf_def t(2))
  ultimately show ?thesis
    using t(1) by (auto simp: bmm_inv_def same_layout_def t(2) init_state_def Let_def)
qed

text \<open>Freeing a descriptor's pages is freeing consecutive frames.\<close>

lemma dealloc_desc_frames:
  assumes "is_valid_mem_desc d" and "desc_limit d < 2 ^ 64"
  shows "dealloc_desc d =
    for_each [phys_start d div PAGE_SIZE..<phys_start d div PAGE_SIZE + page_cnt d] dealloc_frame"
proof -
  let ?p = "phys_start d div PAGE_SIZE"
  have p: "phys_start d = ?p * PAGE_SIZE"
    using assms(1) by (simp add: is_valid_mem_desc_def mod_eq_0_iff_dvd)
  have step: "bind_act (lift_outcome (and_then (umul i PAGE_SIZE) (\<lambda>off. uadd (phys_start d) off)))
      (\<lambda>a. dealloc_frame (a div PAGE_SIZE)) = dealloc_frame (i + ?p)" if "i < page_cnt d" for i
  proof -
    have "i * PAGE_SIZE + PAGE_SIZE \<le> page_cnt d * PAGE_SIZE" using that by simp
    then have "phys_start d + i * PAGE_SIZE < 2 ^ 64" using assms(2) by (simp add: desc_limit_def)
    moreover have "(phys_start d + i * PAGE_SIZE) div PAGE_SIZE = i + ?p" by (subst p) simp
    ultimately show ?thesis by (intro ext) (simp add: bind_act_run umul_def uadd_def)
  qed
  have "[?p..<?p + page_cnt d] = map (\<lambda>i. i + ?p) [0..<page_cnt d]"
    by (simp add: map_add_upt add.commute)
  then show ?thesis
    by (simp only: dealloc_desc_def for_each_map) (intro for_each_cong, simp add: step)
qed

lemma dealloc_desc_run:
  assumes inv: "bmm_inv s" and valid: "is_valid_mem_desc d" and lim: "desc_limit d < 2 ^ 64"
    and "desc_limit d < total_frame_len s * PAGE_SIZE" and "desc_pages d \<inter> free_frames s = {}"
    and "page_cnt d \<le> allocated_frame_len_in_available_mem s"
  shows "\<exists>t. dealloc_desc d s = (Ok (), t) \<and> bmm_inv t \<and> same_layout s t \<and>
    free_frames t = free_frames s \<union> desc_pages d \<and>
    allocated_frame_len_in_available_mem t = allocated_frame_len_in_available_mem s - page_cnt d"
proof -
  have "phys_start d div PAGE_SIZE + page_cnt d = desc_limit d div PAGE_SIZE"
    by (simp add: desc_limit_def)
  also have "\<dots> \<le> total_frame_len s" using assms(4) by (simp add: less_mult_imp_div_less less_imp_le)
  finally have fit: "phys_start d div PAGE_SIZE + page_cnt d \<le> total_frame_len s" .
  show ?thesis
    using dealloc_run [OF inv fit _ assms(6)] assms(5)
    unfolding dealloc_desc_frames [OF valid lim] desc_pages_def by auto
qed

lemma dealloc_descs_run:
  "bmm_inv s \<Longrightarrow> \<forall>d\<in>set ds. is_valid_mem_desc d \<and> desc_limit d < 2 ^ 64 \<and>
     desc_limit d < total_frame_len s * PAGE_SIZE \<and> desc_pages d \<inter> free_frames s = {} \<Longrightarrow>
   sorted_wrt (\<lambda>d e. desc_pages d \<inter> desc_pages e = {}) ds \<Longrightarrow>
   sum_list (map page_cnt ds) \<le> allocated_frame_len_in_available_mem s \<Longrightarrow>
   \<exists>t. for_each ds dealloc_desc s = (Ok (), t) \<and> bmm_inv t \<and> same_layout s t \<and>
     free_frames t = free_frames s \<union> (\<Union>d\<in>set ds. desc_pages d)"
proof (induction ds arbitrary: s)
  case Nil
  then show ?case by simp
next
  case (Cons d ds)
  obtain t where t: "dealloc_desc d s = (Ok (), t)" "bmm_inv t" "same_layout s t"
    "free_frames t = free_frames s \<union> desc_pages d"
    "allocated_frame_len_in_available_mem t = allocated_frame_len_in_available_mem s - page_cnt d"
    using dealloc_desc_run [of s d] Cons.prems by auto
  have "\<forall>e\<in>set ds. is_valid_mem_desc e \<and> desc_limit e < 2 ^ 64 \<and>
     desc_limit e < total_frame_len t * PAGE_SIZE \<and> desc_pages e \<inter> free_frames t = {}"
    using Cons.prems(2,3) t(3,4) by (fastforce simp: same_layout_def)
  moreover have "sum_list (map page_cnt ds) \<le> allocated_frame_len_in_available_mem t"
    using Cons.prems(4) t(5) by simp
  ultimately obtain u where "for_each ds dealloc_desc t = (Ok (), u)" "bmm_inv u"
    "same_layout t u" "free_frames u = free_frames t \<union> (\<Union>d\<in>set ds. desc_pages d)"
    using Cons.IH [OF t(2)] Cons.prems(3) by auto
  then show ?case using t same_layout_trans [OF t(3)] by (auto simp: bind_act_run)
qed

text \<open>Reserving pages, ignoring the errors for pages that are not free.\<close>

lemma reserve_run:
  "bmm_inv s \<Longrightarrow>
   \<exists>t. for_each is (\<lambda>i. catch (alloc_frame i) (\<lambda>_. return_act ())) s = (Ok (), t) \<and>
     bmm_inv t \<and> same_layout s t \<and> free_frames t = free_frames s - set is"
proof (induction "is" arbitrary: s)
  case Nil
  then show ?case by simp
next
  case (Cons i "is")
  let ?body = "\<lambda>i. catch (alloc_frame i) (\<lambda>_. return_act ())"
  have "\<exists>t. ?body i s = (Ok (), t) \<and> bmm_inv t \<and> same_layout s t \<and>
      free_frames t = free_frames s - {i}"
  proof (cases "i \<in> free_frames s")
    case True
    then show ?thesis using alloc_frame_free [OF Cons.prems True] by (metis catch_simps(1) act_run(1))
  next
    case False
    then have "\<exists>e. alloc_frame i s = (Err e, s)"
      using alloc_frame_run [of s i] Cons.prems
      by (auto simp: bmm_inv_def free_frames_def frame_free_def)
    then show ?thesis using False Cons.prems by auto
  qed
  then obtain t where t: "?body i s = (Ok (), t)" "bmm_inv t" "same_layout s t"
    "free_frames t = free_frames s - {i}" by blast
  then obtain u where u: "for_each is ?body t = (Ok (), u)" "bmm_inv u" "same_layout t u"
    "free_frames u = free_frames t - set is" using Cons.IH [OF t(2)] by blast
  have "free_frames u = free_frames s - set (i # is)" unfolding u(4) t(4) by (simp, blast)
  moreover have "for_each (i # is) ?body s = (Ok (), u)" using t(1) u(1) by simp
  ultimately show ?case using u(2) same_layout_trans [OF t(3) u(3)] by blast
qed

definition bitmap_pages :: "BitmapMemoryManager \<Rightarrow> nat set" where
  "bitmap_pages s = {the (bitmap_phys_addr s) div PAGE_SIZE..
     (the (bitmap_phys_addr s) + bitmap_len s) div PAGE_SIZE}"

lemma sum_pages: "sum_list (map (\<lambda>d. page_cnt d * PAGE_SIZE) ds) div PAGE_SIZE =
    sum_list (map page_cnt ds)"
  by (simp add: sum_list_mult_const)

lemma init_bitmap_run:
  assumes ok: "mem_map_ok m"
  shows "\<exists>t. init_bitmap m s = (Ok (), t) \<and> bmm_inv t \<and>
    total_frame_len t = map_frames m \<and> bitmap_phys_addr t = Some (phys_start (init_desc m)) \<and>
    free_frames t = available_pages m - bitmap_pages t"
proof -
  let ?s = "init_state m s" and ?ds = "filter is_valid_mem_desc m"
  obtain t1 where t1: "for_each [0..<bitmap_len ?s] fill_step ?s = (Ok (), t1)" "bmm_inv t1"
    "free_frames t1 = {}" "same_layout ?s t1"
    "allocated_frame_len_in_available_mem t1 = total_available_mem_size t1 div PAGE_SIZE"
    using filled_inv [OF ok, of s] by (metis surj_pair)
  have "total_available_mem_size t1 = sum_list (map (\<lambda>d. page_cnt d * PAGE_SIZE) ?ds)"
    using t1(4) by (simp add: same_layout_def init_state_def Let_def)
  then have avail: "sum_list (map page_cnt ?ds) \<le> allocated_frame_len_in_available_mem t1"
    using t1(5) sum_pages [of ?ds] by simp
  have descs: "\<forall>d\<in>set ?ds. is_valid_mem_desc d \<and> desc_limit d < 2 ^ 64 \<and>
      desc_limit d < total_frame_len t1 * PAGE_SIZE \<and> desc_pages d \<inter> free_frames t1 = {}"
    using ok t1(3,4) total_frames_bound(2) [OF ok]
    by (auto simp: mem_map_ok_def same_layout_def init_state_def Let_def)
  obtain t2 where t2: "for_each ?ds dealloc_desc t1 = (Ok (), t2)" "bmm_inv t2" "same_layout t1 t2"
    "free_frames t2 = available_pages m"
    using dealloc_descs_run [OF t1(2) descs _ avail] ok t1(3)
    by (auto simp: mem_map_ok_def available_pages_def)
  let ?a = "phys_start (init_desc m)"
  have lay: "same_layout ?s t2" using same_layout_trans [OF t1(4) t2(3)] .
  then have a: "bitmap_phys_addr t2 = Some ?a" "total_frame_len t2 = map_frames m"
    by (simp_all add: same_layout_def init_state_def Let_def)
  have "?a + bitmap_len t2 < 2 ^ 64" using t2(2) a by (auto simp: bmm_inv_def bmm_wf_def)
  then have e: "uadd ?a (bitmap_len t2) = Ok (?a + bitmap_len t2)" by simp
  obtain t3 where t3: "for_each [?a div PAGE_SIZE..<Suc ((?a + bitmap_len t2) div PAGE_SIZE)]
      (\<lambda>i. catch (alloc_frame i) (\<lambda>_. return_act ())) t2 = (Ok (), t3)"
    "bmm_inv t3" "same_layout t2 t3" "free_frames t3 = available_pages m -
      set [?a div PAGE_SIZE..<Suc ((?a + bitmap_len t2) div PAGE_SIZE)]"
    using reserve_run [OF t2(2)] unfolding t2(4) by metis
  have "init_bitmap m s = (Ok (), t3)"
    using bmm_init_run [OF ok, of s] t1(1) t2(1) a(1) e t3(1)
    by (simp add: init_bitmap_def bmm_init2_def bind_act_run del: upt_Suc)
  moreover have "free_frames t3 = available_pages m - bitmap_pages t3"
  proof -
    have "set [?a div PAGE_SIZE..<Suc ((?a + bitmap_len t2) div PAGE_SIZE)] = bitmap_pages t3"
      using t3(3) a same_layout_len [OF t3(3)]
      by (simp add: bitmap_pages_def same_layout_def atLeastLessThanSuc_atLeastAtMost del: upt_Suc)
    then show ?thesis using t3(4) by (simp only:)
  qed
  ultimately show ?thesis using t3 a by (auto simp: same_layout_def)
qed

subsection \<open>The interface of a frame pool\<close>

text \<open>What the heap, the page tables and the tasks rely on. \<open>used\<close> counts the frames handed
  out; it bounds what may come back.\<close>

locale frame_pool =
  fixes alloc :: "nat \<Rightarrow> ('s, 'f) act"
    and dealloc :: "'f \<Rightarrow> ('s, unit) act"
    and frames :: "'f \<Rightarrow> nat set"
    and free :: "'s \<Rightarrow> nat set"
    and universe :: "'s \<Rightarrow> nat set"
    and used :: "'s \<Rightarrow> nat"
    and inv :: "'s \<Rightarrow> bool"
  assumes alloc_ok: "inv s \<Longrightarrow> alloc n s = (Ok f, t) \<Longrightarrow>
      inv t \<and> finite (frames f) \<and> card (frames f) = n \<and> frames f \<subseteq> free s \<and>
      free t = free s - frames f \<and> universe t = universe s \<and> used t = used s + n"
    and alloc_failed: "inv s \<Longrightarrow> alloc n s = (Err e, t) \<Longrightarrow> t = s"
    and alloc_no_panic: "inv s \<Longrightarrow> fst (alloc n s) \<noteq> Panic"
    and dealloc_ok: "inv s \<Longrightarrow> frames f \<subseteq> universe s - free s \<Longrightarrow> card (frames f) \<le> used s \<Longrightarrow>
      \<exists>t. dealloc f s = (Ok (), t) \<and> inv t \<and> free t = free s \<union> frames f \<and>
        universe t = universe s \<and> used t = used s - card (frames f)"
    and free_universe: "inv s \<Longrightarrow> free s \<subseteq> universe s"
begin

definition live :: "'s \<Rightarrow> 'f list \<Rightarrow> bool" where
  "live s fs \<longleftrightarrow> inv s \<and> sorted_wrt (\<lambda>f g. frames f \<inter> frames g = {}) fs \<and>
     (\<forall>f\<in>set fs. frames f \<subseteq> universe s - free s) \<and>
     sum_list (map (\<lambda>f. card (frames f)) fs) \<le> used s"

lemma live_start: "inv s \<Longrightarrow> live s []"
  by (simp add: live_def)

lemma live_alloc:
  assumes "live s fs" and "alloc n s = (Ok f, t)"
  shows "live t (f # fs)"
proof -
  have f: "inv t" "card (frames f) = n" "frames f \<subseteq> free s" "free t = free s - frames f"
    "universe t = universe s" "used t = used s + n" "free s \<subseteq> universe s"
    using alloc_ok [of s n f t] free_universe [of s] assms by (auto simp: live_def)
  have "frames f \<inter> frames g = {}" if "g \<in> set fs" for g
    using that assms(1) f(3) by (auto simp: live_def)
  moreover have "frames g \<subseteq> universe t - free t" if "g \<in> set (f # fs)" for g
    using that assms(1) f(3-5,7) unfolding live_def by auto
  ultimately show ?thesis using assms(1) f(1,2,6) by (simp add: live_def)
qed

lemma live_remove:
  assumes "live s (fs @ f # gs)"
  shows "frames f \<subseteq> universe s - free s" "card (frames f) \<le> used s"
    "\<forall>g\<in>set (fs @ gs). frames f \<inter> frames g = {}"
  using assms by (auto simp: live_def sorted_wrt_append)

lemma live_dealloc:
  assumes live: "live s (fs @ f # gs)"
  shows "\<exists>t. dealloc f s = (Ok (), t) \<and> live t (fs @ gs) \<and> free t = free s \<union> frames f"
proof -
  obtain t where t: "dealloc f s = (Ok (), t)" "inv t" "free t = free s \<union> frames f"
    "universe t = universe s" "used t = used s - card (frames f)"
    using dealloc_ok [of s f] live live_remove [OF live] by (auto simp: live_def)
  have "live t (fs @ gs)"
    using live live_remove(3) [OF live] t
    unfolding live_def by (auto simp: sorted_wrt_append)
  with t show ?thesis by blast
qed

end

text \<open>The bitmap manager provides it.\<close>

interpretation bmm_pool: frame_pool
  alloc_multi_mem_frame dealloc_mem_frame frame_indices free_frames
  "\<lambda>s. {..<total_frame_len s}" allocated_frame_len_in_available_mem bmm_inv
proof (unfold_locales, goal_cases)
  case (1 s n f t)
  then have post: "alloc_post n s f t"
    using alloc_multi_cases [OF 1(1), of n] by (metis outcome.inject(1) outcome.distinct(1) prod.inject)
  then obtain a where a: "f = frame_at a n" "{a..<a + n} \<subseteq> free_frames s"
    "free_frames t = free_frames s - {a..<a + n}" "bmm_inv t" "same_layout s t"
    by (auto simp: alloc_post_def)
  have "card (free_frames t) + n = card (free_frames s)"
    using card_Diff_subset [of "{a..<a + n}" "free_frames s"] a(2)
      card_mono [of "free_frames s" "{a..<a + n}"] by (simp add: a(3))
  then have "allocated_frame_len_in_available_mem t = allocated_frame_len_in_available_mem s + n"
    using 1(1) a(4,5) by (simp add: bmm_inv_def same_layout_def)
  then show ?case using a by (simp add: same_layout_def)
next
  case (2 s n e t)
  then show ?case
    using alloc_multi_cases [OF 2(1), of n] by (metis outcome.distinct(1) prod.inject)
next
  case (3 s n)
  then show ?case
    using alloc_multi_cases [OF 3, of n] by (metis fst_conv outcome.distinct(3,5))
next
  case (4 s f)
  have "frame_indices f \<subseteq> {..<total_frame_len s}" "frame_indices f \<inter> free_frames s = {}"
    using 4(2) by auto
  from dealloc_mem_frame_ok [OF 4(1) this 4(3)] show ?case
    by (auto simp: dealloc_post_def same_layout_def)
next
  case (5 s)
  then show ?case by (simp add: bmm_inv_def)
qed

text \<open>The frames in the hands of the kernel after any sequence of allocations and
  deallocations since \<open>init\<close>.\<close>

inductive frames_live :: "BitmapMemoryManager \<Rightarrow> MemoryFrame list \<Rightarrow> bool" where
  boot: "mem_map_ok m \<Longrightarrow> init_bitmap m (bmm_new mem) = (Ok (), s) \<Longrightarrow> frames_live s []"
| allocated: "frames_live s fs \<Longrightarrow> alloc_multi_mem_frame n s = (Ok f, t) \<Longrightarrow> frames_live t (f # fs)"
| failed: "frames_live s fs \<Longrightarrow> alloc_multi_mem_frame n s = (Err e, t) \<Longrightarrow> frames_live t fs"
| freed: "frames_live s (fs @ f # gs) \<Longrightarrow> dealloc_mem_frame f s = (r, t) \<Longrightarrow> frames_live t (fs @ gs)"

lemma frames_live_inv: "frames_live s fs \<Longrightarrow> bmm_pool.live s fs"
proof (induction rule: frames_live.induct)
  case (boot m mem s)
  then show ?case using init_bitmap_run [OF boot(1), of "bmm_new mem"] bmm_pool.live_start by auto
next
  case (allocated s fs n f t)
  then show ?case by (blast intro: bmm_pool.live_alloc)
next
  case (failed s fs n e t)
  then show ?case using bmm_pool.alloc_failed [of s n e t] by (auto simp: bmm_pool.live_def)
next
  case (freed s fs f gs r t)
  then show ?case using bmm_pool.live_dealloc [of s fs f gs] by auto
qed

lemma available_pages_pos: "0 \<notin> available_pages m"
  by (auto simp: available_pages_def desc_pages_def is_valid_mem_desc_def)

lemma same_layout_pages: "same_layout s t \<Longrightarrow> bitmap_pages t = bitmap_pages s"
  by (simp add: bitmap_pages_def same_layout_len) (simp add: same_layout_def)

text \<open>No frame in use or free is frame 0 or holds a part of the bitmap.\<close>

definition protected :: "BitmapMemoryManager \<Rightarrow> nat set" where
  "protected s = insert 0 (bitmap_pages s)"

lemma alloc_layout:
  "bmm_inv s \<Longrightarrow> alloc_multi_mem_frame n s = (r, t) \<Longrightarrow> same_layout s t"
  by (cases rule: alloc_multi_cases [of s n]) (auto simp: alloc_post_def)

lemma frames_live_protected:
  "frames_live s fs \<Longrightarrow> protected s \<inter> free_frames s = {} \<and>
     (\<forall>f\<in>set fs. protected s \<inter> frame_indices f = {})"
proof (induction rule: frames_live.induct)
  case (boot m mem s)
  then show ?case using init_bitmap_run [OF boot(1), of "bmm_new mem"] available_pages_pos [of m]
    by (auto simp: protected_def)
next
  case (allocated s fs n f t)
  have inv: "bmm_inv s" using frames_live_inv [OF allocated(1)] by (simp add: bmm_pool.live_def)
  then have "frame_indices f \<subseteq> free_frames s" "free_frames t = free_frames s - frame_indices f"
    using bmm_pool.alloc_ok [OF _ allocated(2)] by simp_all
  then show ?case using allocated.IH same_layout_pages [OF alloc_layout [OF inv allocated(2)]]
    unfolding protected_def by auto
next
  case (failed s fs n e t)
  have "bmm_inv s" using frames_live_inv [OF failed(1)] by (simp add: bmm_pool.live_def)
  then show ?case using failed bmm_pool.alloc_failed [of s n e t] by simp
next
  case (freed s fs f gs r t)
  note lv = frames_live_inv [OF freed(1)]
  have inv: "bmm_inv s" using lv by (simp add: bmm_pool.live_def)
  have "dealloc_post s f t"
    using dealloc_mem_frame_ok [OF inv, of f] bmm_pool.live_remove [OF lv] freed(2) by auto
  then have "free_frames t = free_frames s \<union> frame_indices f" "bitmap_pages t = bitmap_pages s"
    using same_layout_pages by (auto simp: dealloc_post_def)
  then show ?case using freed.IH by (auto simp: protected_def)
qed

subsection \<open>Properties\<close>

text \<open>A small state and a small memory map for the witnesses: eight frames of which 1, 2
  and 3 are free; twelve pages of ordinary memory from frame 1 on.\<close>

definition demo_bmm :: BitmapMemoryManager where
  "demo_bmm = \<lparr>bitmap_phys_addr = Some 0, total_frame_len = 8, allocated_frame_len = 5,
     free_frame_len = 3, allocated_frame_len_in_available_mem = 1,
     total_available_mem_size = 16384, phys_mem = (\<lambda>_. 0xF1)\<rparr>"

definition demo_map :: "MemoryDescriptor list" where
  "demo_map = [\<lparr>md_ty = Conventional, phys_start = 0x1000, virt_start = 0, page_cnt = 12, md_attr = 0\<rparr>]"

lemma nat_below_8: "i < 8 \<longleftrightarrow> i \<in> {0, 1, 2, 3, 4, 5, 6, 7}" for i :: nat
  by auto

lemma demo_free_frames: "free_frames demo_bmm = {1, 2, 3}"
proof -
  have "bitmap_len demo_bmm = 1" by (simp add: bitmap_len_def demo_bmm_def)
  then have "free_frames demo_bmm = {i. i < 8 \<and> \<not> bit (0xF1 :: u8) i}"
    by (auto simp: free_frames_def frame_free_def bitmap_bit_def demo_bmm_def)
  also have "\<dots> = {1, 2, 3}" by (auto simp: nat_below_8 bit_iff_odd)
  finally show ?thesis .
qed

lemma demo_bmm_inv: "bmm_inv demo_bmm"
  unfolding bmm_inv_def demo_free_frames
  by (auto simp: bmm_wf_def demo_bmm_def bitmap_len_def)

lemma demo_map_ok: "mem_map_ok demo_map"
  by (simp add: mem_map_ok_def demo_map_def desc_limit_def is_valid_mem_desc_def
      is_available_memory_def map_frames_def)



text \<open>C3: \<open>init\<close> makes exactly the usable memory available: for a memory map whose usable
  descriptors do not overlap it succeeds, the invariant holds, and the free frames are the
  pages of the usable descriptors except those that hold the bitmap itself.\<close>

theorem init_bitmap_correct:
  assumes "mem_map_ok m"
  shows "\<exists>t. init_bitmap m (bmm_new mem) = (Ok (), t) \<and> bmm_inv t \<and>
    free_frames t = available_pages m - bitmap_pages t"
  using init_bitmap_run [OF assms, of "bmm_new mem"] by blast

theorem init_bitmap_correct_witness:
  "\<exists>t. init_bitmap demo_map (bmm_new (\<lambda>_. 0)) = (Ok (), t) \<and> bmm_inv t \<and>
    free_frames t = available_pages demo_map - bitmap_pages t"
  by (rule init_bitmap_correct [OF demo_map_ok])


lemma demo_booted: "\<exists>s. frames_live s [] \<and> free_frames s = {2..<13}"
proof -
  obtain t where t: "init_bitmap demo_map (bmm_new (\<lambda>_. 0)) = (Ok (), t)" "bmm_inv t"
    "bitmap_phys_addr t = Some (phys_start (init_desc demo_map))" "total_frame_len t = map_frames demo_map"
    "free_frames t = available_pages demo_map - bitmap_pages t"
    using init_bitmap_run [OF demo_map_ok, of "bmm_new (\<lambda>_. 0)"] by blast
  have "map_frames demo_map = 14" by (simp add: map_frames_def demo_map_def desc_limit_def)
  moreover have "phys_start (init_desc demo_map) = 0x1000"
    using init_desc_found(2) [OF demo_map_ok] by (simp add: demo_map_def)
  ultimately have "bitmap_pages t = {1}"
    using t(3,4) by (simp add: bitmap_pages_def bitmap_len_def)
  moreover have "available_pages demo_map = {1..<13}"
    by (auto simp: available_pages_def demo_map_def desc_pages_def is_valid_mem_desc_def
      is_available_memory_def)
  ultimately have "free_frames t = {2..<13}" unfolding t(5) by auto
  then show ?thesis using frames_live.boot [OF demo_map_ok t(1)] by blast
qed

lemma alloc_one:
  assumes "bmm_inv s" and "i \<in> free_frames s" and "1 \<le> i"
  shows "\<exists>f t. alloc_multi_mem_frame 1 s = (Ok f, t)"
proof -
  have "{i..<i + 1} = {i}" by auto
  then have "run_at (frame_free s) i 1" using assms(2,3) by (simp add: run_at_free)
  then show ?thesis using alloc_multi_found [OF assms(1), of 1 i] by auto
qed

lemma demo_live: "\<exists>s f. frames_live s [f]"
proof -
  obtain s where s: "frames_live s []" "free_frames s = {2..<13}" using demo_booted by blast
  have "bmm_inv s" using frames_live_inv [OF s(1)] by (simp add: bmm_pool.live_def)
  then obtain f u where "alloc_multi_mem_frame 1 s = (Ok f, u)" using alloc_one [of s 2] s(2) by auto
  then show ?thesis using frames_live.allocated [OF s(1)] by blast
qed


text \<open>the allocator never hands out its own bitmap or frame 0: no frame in use after
  booting covers a page of the bitmap or frame 0.\<close>

theorem live_frames_avoid_bitmap:
  assumes "frames_live s fs" and "f \<in> set fs"
  shows "frame_indices f \<inter> bitmap_pages s = {} \<and> 0 \<notin> frame_indices f"
  using frames_live_protected [OF assms(1)] assms(2) by (auto simp: protected_def)

theorem live_frames_avoid_bitmap_witness:
  "\<exists>s f. frames_live s [f] \<and> frame_indices f \<inter> bitmap_pages s = {} \<and> 0 \<notin> frame_indices f"
  using demo_live live_frames_avoid_bitmap by (metis list.set_intros(1))

text \<open>giving a frame back twice stops the kernel. When the frame's pages are already
  free, \<open>dealloc_mem_frame\<close> does not return its \<open>MemoryFrameWasAlreadyDeallocated\<close> error: the
  frame it owns is dropped on the way out without being marked, and the destructor
  panics. The bitmap is not changed.\<close>

theorem double_free_panics:
  assumes "bmm_inv s" and "0 < n" and "{a..<a + n} \<subseteq> free_frames s"
  shows "dealloc_mem_frame (frame_at a n) s = (Panic, s)"
proof -
  have "a \<in> {a..<a + n}" using assms(2) by simp
  then have "a \<in> free_frames s" using assms(3) by blast
  then have "frame_free s a" by (simp add: free_frames_def)
  then have first: "dealloc_frame a s = (err (BitmapError (MemoryFrameWasAlreadyDeallocated a)), s)"
    using dealloc_frame_run [of s a] assms(1) by (simp add: bmm_inv_def frame_free_def)
  have "[a..<a + n] = a # [Suc a..<a + n]" using assms(2) by (simp add: upt_conv_Cons)
  then have "for_each [a..<a + n] dealloc_frame s =
      (err (BitmapError (MemoryFrameWasAlreadyDeallocated a)), s)"
    using first by simp
  then show ?thesis
    by (simp add: dealloc_mem_frame_def catch_def frame_at_def frame_index_def drop_frame_def)
qed

theorem double_free_panics_witness: "dealloc_mem_frame (frame_at 1 2) demo_bmm = (Panic, demo_bmm)"
  by (rule double_free_panics [OF demo_bmm_inv]) (auto simp: demo_free_frames)

definition overrun_map :: "MemoryDescriptor list" where
  "overrun_map =
     [\<lparr>md_ty = Conventional, phys_start = 0x1000, virt_start = 0, page_cnt = 1, md_attr = 0\<rparr>,
      \<lparr>md_ty = Reserved, phys_start = 0x2000, virt_start = 0, page_cnt = 32766, md_attr = 0\<rparr>]"

text \<open>the bitmap can be larger than the memory chosen for it. The test in \<open>init\<close>
  compares the region with \<open>total_frame_len / 8\<close> rounded down, the bitmap has
  \<open>total_frame_len / 8\<close> bytes rounded up: on this memory map \<open>init\<close> succeeds and the bitmap's
  last byte lies behind the end of the chosen descriptor.\<close>

theorem bitmap_overruns_region:
  "\<exists>t. init_bitmap overrun_map (bmm_new mem) = (Ok (), t) \<and>
    bitmap_phys_addr t = Some (phys_start (overrun_map ! 0)) \<and>
    desc_limit (overrun_map ! 0) < phys_start (overrun_map ! 0) + bitmap_len t"
proof -
  have frames: "map_frames overrun_map = 32769"
    by (simp add: map_frames_def overrun_map_def desc_limit_def)
  have ok: "mem_map_ok overrun_map"
    unfolding mem_map_ok_def frames
    by (simp add: overrun_map_def desc_limit_def is_valid_mem_desc_def is_available_memory_def)
  have "init_desc overrun_map = overrun_map ! 0"
    unfolding init_desc_def frames
    by (simp add: overrun_map_def is_valid_mem_desc_def is_available_memory_def)
  then show ?thesis
    using init_bitmap_run [OF ok, of "bmm_new mem"] frames
    by (auto simp: bitmap_len_def overrun_map_def desc_limit_def)
qed

end
