(* ===== verification/Heap.thy ===== *)
theory Heap
  imports Frame_Allocator "HOL-Library.Multiset"
begin

text \<open>
  The kernel heap, kernel/src/mem/allocator.rs: a first-fit allocator over a singly linked list of
  holes, sorted by address, whose nodes are stored in the holes themselves. \<open>hmem\<close> is that memory, read
  and written in units of \<open>Hole\<close> (two machine words); the head \<open>first\<close> is a field of the list, not of
  the memory, so that a pointer to a node is a \<open>loc\<close>: \<open>None\<close> for the head, \<open>Some a\<close> for the node at
  address \<open>a\<close>. \<open>usize\<close> values and addresses are naturals; \<open>wadd\<close> is \<open>wrapping_add\<close>.

  The abstract view is a list of tiles that cover the heap from \<open>bottom\<close> to \<open>top\<close> without gaps, each
  free or in use (\<open>heap_rel\<close>).
\<close>

abbreviation HEAP_SIZE :: nat where "HEAP_SIZE \<equiv> 1024 * 1024 * 32"

record Layout =
  layout_size :: nat
  layout_align :: nat

record Hole =
  hole_size :: nat
  hole_next :: "nat option"

record HoleInfo =
  info_addr :: nat
  info_size :: nat

type_synonym loc = "nat option"

record HoleList =
  first :: Hole
  bottom :: nat
  top :: nat
  hmem :: "nat \<Rightarrow> Hole"

record Cursor =
  cur_prev :: loc
  cur_hole :: nat

text \<open>\<open>size_of::<Hole>()\<close> and \<open>align_of::<Hole>()\<close>.\<close>

abbreviation HOLE_SIZE :: nat where "HOLE_SIZE \<equiv> 16"
abbreviation HOLE_ALIGN :: nat where "HOLE_ALIGN \<equiv> 8"

definition wadd :: "nat \<Rightarrow> nat \<Rightarrow> nat" where
  "wadd a b = (a + b) mod 2 ^ 64"

definition is_power_of_two :: "nat \<Rightarrow> bool" where
  "is_power_of_two n \<longleftrightarrow> 0 < n \<and> (of_nat n :: u64) AND (of_nat n - 1) = 0"

subsection \<open>Alignment\<close>

text \<open>\<open>align_offset\<close> of a byte pointer is the distance to the next multiple of the alignment.\<close>

definition align_up :: "nat \<Rightarrow> nat \<Rightarrow> nat" where
  "align_up addr align = wadd addr ((align - addr mod align) mod align)"

definition align_down_size :: "nat \<Rightarrow> nat \<Rightarrow> nat outcome" where
  "align_down_size sz align =
     (if is_power_of_two align then Ok (unat ((of_nat sz :: u64) AND NOT (of_nat align - 1)))
      else if align = 0 then Ok sz
      else Panic)"

definition align_up_size :: "nat \<Rightarrow> nat \<Rightarrow> nat outcome" where
  "align_up_size sz align =
     and_then (uadd sz align) (\<lambda>n. and_then (usub n 1) (\<lambda>n. align_down_size n align))"

subsection \<open>Holes\<close>

definition min_size :: nat where
  "min_size = 8 * 2"

definition hole_list_empty :: HoleList where
  "hole_list_empty = \<lparr>first = \<lparr>hole_size = 0, hole_next = None\<rparr>, bottom = 0, top = 0,
     hmem = (\<lambda>_. \<lparr>hole_size = 0, hole_next = None\<rparr>)\<rparr>"

definition hole_at :: "HoleList \<Rightarrow> loc \<Rightarrow> Hole" where
  "hole_at hl l = (case l of None \<Rightarrow> first hl | Some a \<Rightarrow> hmem hl a)"

definition write_hole :: "nat \<Rightarrow> Hole \<Rightarrow> HoleList \<Rightarrow> HoleList" where
  "write_hole a h hl = hl\<lparr>hmem := (hmem hl)(a := h)\<rparr>"

definition set_next :: "loc \<Rightarrow> nat option \<Rightarrow> HoleList \<Rightarrow> HoleList" where
  "set_next l n hl =
     (case l of
        None \<Rightarrow> hl\<lparr>first := (first hl)\<lparr>hole_next := n\<rparr>\<rparr>
      | Some a \<Rightarrow> write_hole a ((hmem hl a)\<lparr>hole_next := n\<rparr>) hl)"

text \<open>\<open>HoleList::new\<close>, over the memory \<open>mem\<close>.\<close>

definition hole_list_new :: "(nat \<Rightarrow> Hole) \<Rightarrow> nat \<Rightarrow> nat \<Rightarrow> HoleList outcome" where
  "hole_list_new mem hole_addr hsize =
     (if hsize < HOLE_SIZE then Panic
      else let aligned = align_up hole_addr HOLE_ALIGN in
        and_then (usub aligned hole_addr) (\<lambda>off.
        and_then (usub hsize off) (\<lambda>requested.
        and_then (align_down_size requested HOLE_ALIGN) (\<lambda>asize.
          if asize < HOLE_SIZE then Panic
          else if wadd hole_addr hsize \<noteq> wadd aligned requested then Panic
          else Ok \<lparr>first = \<lparr>hole_size = 0, hole_next = Some aligned\<rparr>, bottom = aligned,
                 top = wadd aligned asize,
                 hmem = mem(aligned := \<lparr>hole_size = asize, hole_next = None\<rparr>)\<rparr>))))"

definition cursor :: "HoleList \<Rightarrow> Cursor option" where
  "cursor hl = map_option (\<lambda>h. \<lparr>cur_prev = None, cur_hole = h\<rparr>) (hole_next (first hl))"

definition cursor_next :: "HoleList \<Rightarrow> Cursor \<Rightarrow> Cursor option" where
  "cursor_next hl c =
     map_option (\<lambda>h. \<lparr>cur_prev = Some (cur_hole c), cur_hole = h\<rparr>) (hole_next (hmem hl (cur_hole c)))"

text \<open>\<open>Layout::from_size_align\<close> refuses an alignment that is no power of two and a size that
  overflows \<open>isize\<close> when it is rounded up to the alignment.\<close>

definition from_size_align :: "nat \<Rightarrow> nat \<Rightarrow> Layout option" where
  "from_size_align sz al =
     (if is_power_of_two al \<and> sz \<le> 2 ^ 63 - al then Some \<lparr>layout_size = sz, layout_align = al\<rparr> else None)"

definition align_layout :: "Layout \<Rightarrow> Layout outcome" where
  "align_layout l =
     and_then (align_up_size (if layout_size l < min_size then min_size else layout_size l) HOLE_ALIGN) (\<lambda>sz.
       ok_or (from_size_align sz (layout_align l))
         (from_error (AllocError (InvalidLayout (layout_size l) (layout_align l)))))"

subsection \<open>Allocation\<close>

text \<open>The first part of \<open>split_current\<close>: where the block goes in the current hole, with the padding before
  and after it. \<open>None\<close> is the return \<open>Err(self)\<close>.\<close>

definition fit_front :: "nat \<Rightarrow> nat \<Rightarrow> (HoleInfo option \<times> nat) outcome" where
  "fit_front addr align =
     (if addr = align_up addr align then Ok (None, addr)
      else let aligned = align_up (wadd addr min_size) align in
        and_then (usub aligned addr) (\<lambda>sz. Ok (Some \<lparr>info_addr = addr, info_size = sz\<rparr>, aligned)))"

definition fit_hole ::
  "nat \<Rightarrow> nat \<Rightarrow> Layout \<Rightarrow> (HoleInfo option \<times> nat \<times> HoleInfo option) option outcome" where
  "fit_hole addr sz l =
     (if sz < layout_size l then Ok None
      else and_then (fit_front addr (layout_align l)) (\<lambda>(front, aligned).
        let alloc_end = wadd aligned (layout_size l); hole_end = wadd addr sz in
        if hole_end < alloc_end then Ok None
        else and_then (usub hole_end alloc_end) (\<lambda>back_size.
          if back_size = 0 then Ok (Some (front, aligned, None))
          else let start = align_up alloc_end HOLE_ALIGN in
            if wadd start HOLE_SIZE \<le> hole_end
            then Ok (Some (front, aligned, Some \<lparr>info_addr = start, info_size = back_size\<rparr>))
            else Ok None)))"

definition split_current ::
  "Cursor \<Rightarrow> Layout \<Rightarrow> HoleList \<Rightarrow> (nat \<times> HoleList) option outcome" where
  "split_current c l hl =
     map_ok (map_option (\<lambda>(front, ptr, back).
        let hl1 = set_next (cur_prev c) None hl;
            nxt = hole_next (hmem hl1 (cur_hole c));
            hl2 = set_next (Some (cur_hole c)) None hl1
        in (ptr,
          case (front, back) of
            (None, None) \<Rightarrow> set_next (cur_prev c) nxt hl2
          | (None, Some p) \<Rightarrow> set_next (cur_prev c) (Some (info_addr p))
              (write_hole (info_addr p) \<lparr>hole_size = info_size p, hole_next = nxt\<rparr> hl2)
          | (Some p, None) \<Rightarrow> set_next (cur_prev c) (Some (info_addr p))
              (write_hole (info_addr p) \<lparr>hole_size = info_size p, hole_next = nxt\<rparr> hl2)
          | (Some f, Some b) \<Rightarrow> set_next (cur_prev c) (Some (info_addr f))
              (write_hole (info_addr f) \<lparr>hole_size = info_size f, hole_next = Some (info_addr b)\<rparr>
                (write_hole (info_addr b) \<lparr>hole_size = info_size b, hole_next = nxt\<rparr> hl2)))))
     (fit_hole (cur_hole c) (hole_size (hmem hl (cur_hole c))) l)"

text \<open>The loop of \<open>alloc_first_fit\<close> ends when the list does; \<open>None\<close> is a loop that does not end.\<close>

partial_function (option) first_fit ::
  "Layout \<Rightarrow> HoleList \<Rightarrow> Cursor \<Rightarrow> (nat outcome \<times> HoleList) option" where
  "first_fit l hl c =
     (case split_current c l hl of
        Ok (Some (ptr, hl')) \<Rightarrow> Some (if ptr = 0 then err (AllocError NullCursor) else Ok ptr, hl')
      | Ok None \<Rightarrow>
          (case cursor_next hl c of
             None \<Rightarrow> Some (err (AllocError NoNextCursor), hl)
           | Some c' \<Rightarrow> first_fit l hl c')
      | Err e \<Rightarrow> Some (Err e, hl)
      | Panic \<Rightarrow> Some (Panic, hl))"

definition hole_list_alloc ::
  "Layout \<Rightarrow> HoleList \<Rightarrow> ((nat \<times> Layout) outcome \<times> HoleList) option" where
  "hole_list_alloc l hl =
     (case align_layout l of
        Ok l' \<Rightarrow>
          (case cursor hl of
             None \<Rightarrow> Some (err (AllocError NoCursor), hl)
           | Some c \<Rightarrow> map_option (\<lambda>(r, hl'). (map_ok (\<lambda>p. (p, l')) r, hl')) (first_fit l' hl c))
      | Err e \<Rightarrow> Some (Err e, hl)
      | Panic \<Rightarrow> Some (Panic, hl))"

subsection \<open>Deallocation\<close>

definition make_hole :: "nat \<Rightarrow> nat \<Rightarrow> HoleList \<Rightarrow> HoleList" where
  "make_hole addr sz = write_hole addr \<lparr>hole_size = sz, hole_next = None\<rparr>"

definition check_merge_top :: "nat \<Rightarrow> (HoleList, unit) act" where
  "check_merge_top node hl =
     (let end = wadd node (hole_size (hmem hl node)) in
      if end < top hl \<and> top hl < wadd (align_up end HOLE_ALIGN) HOLE_SIZE
      then bind_act (lift_outcome (and_then (usub (top hl) end) (\<lambda>off. uadd (hole_size (hmem hl node)) off)))
        (\<lambda>sz. modify (write_hole node ((hmem hl node)\<lparr>hole_size := sz\<rparr>))) hl
      else (Ok (), hl))"

definition check_merge_bottom :: "nat \<Rightarrow> (HoleList, nat) act" where
  "check_merge_bottom node hl =
     (if node < wadd (bottom hl) HOLE_SIZE
      then bind_act (lift_outcome (and_then (usub node (bottom hl)) (\<lambda>off. uadd (hole_size (hmem hl node)) off)))
        (\<lambda>sz. bind_act (modify (make_hole (bottom hl) sz)) (\<lambda>_. return_act (bottom hl))) hl
      else (Ok node, hl))"

definition assert_act :: "bool \<Rightarrow> ('s, unit) act" where
  "assert_act b = lift_outcome (if b then Ok () else Panic)"

text \<open>\<open>Ok None\<close> is the result \<open>Err(self)\<close>: the node does not belong before the first hole.\<close>

definition try_insert_back :: "nat \<Rightarrow> Cursor \<Rightarrow> (HoleList, Cursor option) act" where
  "try_insert_back node c hl =
     (if node < cur_hole c
      then bind_act (assert_act (wadd node (hole_size (hmem hl node)) \<le> cur_hole c)) (\<lambda>_.
        bind_act (assert_act (hole_size (hole_at hl (cur_prev c)) = 0)) (\<lambda>_.
        bind_act (check_merge_bottom node) (\<lambda>node'.
        bind_act (modify (set_next (cur_prev c) (Some node'))) (\<lambda>_.
        bind_act (modify (set_next (Some node') (Some (cur_hole c)))) (\<lambda>_.
        return_act (Some \<lparr>cur_prev = cur_prev c, cur_hole = node'\<rparr>)))))) hl
      else (Ok None, hl))"

text \<open>\<open>Err(InvalidNode)\<close> when the node belongs behind the next hole.\<close>

definition try_insert_after :: "nat \<Rightarrow> Cursor \<Rightarrow> (HoleList, unit) act" where
  "try_insert_after node c hl =
     bind_act
       (case hole_next (hmem hl (cur_hole c)) of
          None \<Rightarrow> return_act ()
        | Some nx \<Rightarrow>
            if node < nx then assert_act (wadd node (hole_size (hmem hl node)) \<le> nx)
            else fail (from_error (AllocError InvalidNode)))
       (\<lambda>_. bind_act (assert_act (cur_hole c < node)) (\<lambda>_.
        bind_act (assert_act (wadd (cur_hole c) (hole_size (hmem hl (cur_hole c))) \<le> node)) (\<lambda>_.
        bind_act (gets (\<lambda>hl. hole_next (hmem hl (cur_hole c)))) (\<lambda>nxt.
        bind_act (modify (set_next (Some (cur_hole c)) (Some node))) (\<lambda>_.
        modify (set_next (Some node) nxt)))))) hl"

fun merge_next_n :: "nat \<Rightarrow> nat \<Rightarrow> (HoleList, unit) act" where
  "merge_next_n 0 h hl = (Ok (), hl)"
| "merge_next_n (Suc n) h hl =
     (case hole_next (hmem hl h) of
        None \<Rightarrow> check_merge_top h hl
      | Some nx \<Rightarrow>
          if wadd h (hole_size (hmem hl h)) = nx
          then let nsize = hole_size (hmem hl nx); nnext = hole_next (hmem hl nx);
                   hl1 = set_next (Some nx) None hl;
                   hl2 = set_next (Some h) nnext hl1
               in bind_act (lift_outcome (uadd (hole_size (hmem hl2 h)) nsize)) (\<lambda>sz.
                    bind_act (modify (\<lambda>hl. write_hole h ((hmem hl h)\<lparr>hole_size := sz\<rparr>) hl)) (\<lambda>_.
                    merge_next_n n h)) hl2
          else merge_next_n n nx hl)"

text \<open>The loop of \<open>dealloc\<close>: the cursor moves on while the node does not fit behind it.\<close>

partial_function (option) insert_after_loop ::
  "nat \<Rightarrow> Cursor \<Rightarrow> HoleList \<Rightarrow> (Cursor outcome \<times> HoleList) option" where
  "insert_after_loop node c hl =
     (case try_insert_after node c hl of
        (Ok _, hl') \<Rightarrow> Some (Ok c, hl')
      | (Panic, hl') \<Rightarrow> Some (Panic, hl')
      | (Err _, hl') \<Rightarrow>
          (case cursor_next hl' c of
             None \<Rightarrow> Some (err (AllocError NoNextCursor), hl')
           | Some c' \<Rightarrow> insert_after_loop node c' hl'))"

definition dealloc_hole :: "nat \<Rightarrow> nat \<Rightarrow> HoleList \<Rightarrow> (unit outcome \<times> HoleList) option" where
  "dealloc_hole addr sz hl =
     (let hl1 = make_hole addr sz hl in
      case cursor hl1 of
        None \<Rightarrow> Some (bind_act (check_merge_bottom addr) (\<lambda>h.
            bind_act (check_merge_top h) (\<lambda>_. modify (set_next None (Some h)))) hl1)
      | Some c \<Rightarrow>
          (case try_insert_back addr c hl1 of
             (Ok (Some c'), hl2) \<Rightarrow> Some (merge_next_n 1 (cur_hole c') hl2)
           | (Ok None, hl2) \<Rightarrow>
               map_option (\<lambda>(r, hl3).
                   case r of Ok c' \<Rightarrow> merge_next_n 2 (cur_hole c') hl3
                           | Err e \<Rightarrow> (Err e, hl3) | Panic \<Rightarrow> (Panic, hl3))
                 (insert_after_loop addr c hl2)
           | (Err e, hl2) \<Rightarrow> Some (Err e, hl2)
           | (Panic, hl2) \<Rightarrow> Some (Panic, hl2)))"

definition hole_list_dealloc :: "nat \<Rightarrow> Layout \<Rightarrow> HoleList \<Rightarrow> (Layout outcome \<times> HoleList) option" where
  "hole_list_dealloc ptr l hl =
     (case align_layout l of
        Ok l' \<Rightarrow> map_option (\<lambda>(r, hl'). (map_ok (\<lambda>_. l') r, hl')) (dealloc_hole ptr (layout_size l') hl)
      | Err e \<Rightarrow> Some (Err e, hl)
      | Panic \<Rightarrow> Some (Panic, hl))"

subsection \<open>The heap\<close>

record Heap =
  used :: nat
  holes :: HoleList

definition heap_empty :: Heap where
  "heap_empty = \<lparr>used = 0, holes = hole_list_empty\<rparr>"

definition heap_init :: "(nat \<Rightarrow> Hole) \<Rightarrow> nat \<Rightarrow> nat \<Rightarrow> Heap outcome" where
  "heap_init mem addr sz = map_ok (\<lambda>hl. \<lparr>used = 0, holes = hl\<rparr>) (hole_list_new mem addr sz)"

definition heap_alloc :: "Layout \<Rightarrow> Heap \<Rightarrow> (nat outcome \<times> Heap) option" where
  "heap_alloc l h =
     map_option (\<lambda>(r, hl). case r of
         Ok (p, l') \<Rightarrow>
           (case uadd (used h) (layout_size l') of
              Ok u \<Rightarrow> (Ok p, h\<lparr>used := u, holes := hl\<rparr>)
            | _ \<Rightarrow> (Panic, h\<lparr>holes := hl\<rparr>))
       | Err e \<Rightarrow> (Err e, h\<lparr>holes := hl\<rparr>)
       | Panic \<Rightarrow> (Panic, h\<lparr>holes := hl\<rparr>))
     (hole_list_alloc l (holes h))"

definition heap_dealloc :: "nat \<Rightarrow> Layout \<Rightarrow> Heap \<Rightarrow> (unit outcome \<times> Heap) option" where
  "heap_dealloc ptr l h =
     map_option (\<lambda>(r, hl). case r of
         Ok l' \<Rightarrow>
           (case usub (used h) (layout_size l') of
              Ok u \<Rightarrow> (Ok (), h\<lparr>used := u, holes := hl\<rparr>)
            | _ \<Rightarrow> (Panic, h\<lparr>holes := hl\<rparr>))
       | Err e \<Rightarrow> (Err e, h\<lparr>holes := hl\<rparr>)
       | Panic \<Rightarrow> (Panic, h\<lparr>holes := hl\<rparr>))
     (hole_list_dealloc ptr l (holes h))"

text \<open>\<open>GlobalAlloc\<close>: an error of the heap is a panic of the kernel (\<open>unwrap\<close>).\<close>

fun unwrap_result :: "'a outcome \<Rightarrow> 'a outcome" where
  "unwrap_result (Ok x) = Ok x"
| "unwrap_result (Err e) = Panic"
| "unwrap_result Panic = Panic"

definition global_alloc :: "Layout \<Rightarrow> Heap \<Rightarrow> (nat outcome \<times> Heap) option" where
  "global_alloc l h = map_option (\<lambda>(r, h'). (unwrap_result r, h')) (heap_alloc l h)"

definition global_dealloc :: "nat \<Rightarrow> Layout \<Rightarrow> Heap \<Rightarrow> (unit outcome \<times> Heap) option" where
  "global_dealloc ptr l h = map_option (\<lambda>(r, h'). (unwrap_result r, h')) (heap_dealloc ptr l h)"

text \<open>\<open>init_heap\<close>: the memory of the heap is a frame of the allocator that is never given back.\<close>

definition init_heap :: "(nat \<Rightarrow> Hole) \<Rightarrow> (BitmapMemoryManager, MemoryFrame \<times> Heap) act" where
  "init_heap mem =
     bind_act (alloc_multi_mem_frame ((HEAP_SIZE + PAGE_SIZE - 1) div PAGE_SIZE)) (\<lambda>f.
       lift_outcome (map_ok (\<lambda>h. (leak f, h)) (heap_init mem (frame_start_phys_addr f) (frame_size f))))"

definition heap_size :: "Heap \<Rightarrow> nat \<times> nat" where
  "heap_size h = (used h, HEAP_SIZE)"

subsection \<open>Alignment is rounding\<close>

lemma is_power_of_two_pow: "k < 64 \<Longrightarrow> is_power_of_two (2 ^ k)"
proof -
  assume k: "k < 64"
  have "(2 ^ k :: u64) AND (2 ^ k - 1) = 0"
    by (rule bit_word_eqI) (simp add: bit_and_iff bit_mask_iff bit_exp_iff flip: mask_eq_exp_minus_1)
  then show ?thesis by (simp add: is_power_of_two_def)
qed

lemma align_down_8: "n < 2 ^ 64 \<Longrightarrow> align_down_size n 8 = Ok (n div 8 * 8)"
proof -
  assume n: "n < 2 ^ 64"
  have "is_power_of_two 8" using is_power_of_two_pow [of 3] by simp
  have "(of_nat n :: u64) AND NOT (mask 3) = push_bit 3 (drop_bit 3 (of_nat n))"
    by (rule bit_word_eqI) (auto simp: bit_simps)
  moreover have "(of_nat 8 - 1 :: u64) = mask 3" by (simp add: mask_eq_exp_minus_1)
  moreover have "unat (push_bit 3 (drop_bit 3 (of_nat n :: u64))) = n div 8 * 8"
  proof -
    have d: "unat (drop_bit 3 (of_nat n :: u64)) = n div 8"
    proof -
      have "unat (drop_bit 3 (of_nat n :: u64)) = drop_bit 3 (unat (of_nat n :: u64))" by (rule unat_drop_bit_eq)
      also have "unat (of_nat n :: u64) = n" using n by (simp add: unat_of_nat)
      finally show ?thesis by (simp add: drop_bit_eq_div)
    qed
    have "n div 8 * 8 < 2 ^ 64" using n by simp
    then show ?thesis unfolding unsigned_push_bit_eq d by (simp add: push_bit_eq_mult take_bit_nat_eq_self)
  qed
  ultimately show ?thesis using \<open>is_power_of_two 8\<close> unfolding align_down_size_def by metis
qed

text \<open>The least multiple of \<open>al\<close> that is not below \<open>a\<close>.\<close>

definition up :: "nat \<Rightarrow> nat \<Rightarrow> nat" where
  "up a al = a + (al - a mod al) mod al"

lemma up_mult: "0 < al \<Longrightarrow> al dvd up a al"
proof -
  assume "0 < al"
  have "(a + (al - a mod al) mod al) mod al = (a + (al - a mod al)) mod al" by (simp add: mod_simps)
  also have "a + (al - a mod al) = a div al * al + al"
  proof -
    have gen: "x = q + r \<Longrightarrow> r < al \<Longrightarrow> x + (al - r) = q + al" for x q r :: nat by linarith
    show ?thesis by (rule gen [OF div_mult_mod_eq [symmetric] mod_less_divisor [OF \<open>0 < al\<close>]])
  qed
  also have "(a div al * al + al) mod al = 0" by simp
  finally show ?thesis unfolding up_def dvd_eq_mod_eq_0 .
qed

lemma up_bounds: "0 < al \<Longrightarrow> a \<le> up a al \<and> up a al < a + al"
  by (simp add: up_def)

lemma up_id: "al dvd a \<Longrightarrow> up a al = a"
  by (simp add: up_def)

lemma up_eq_iff: "0 < al \<Longrightarrow> up a al = a \<longleftrightarrow> al dvd a"
  using up_mult [of al a] up_id by auto

lemma align_up_up: "up a al < 2 ^ 64 \<Longrightarrow> align_up a al = up a al"
  by (simp add: align_up_def wadd_def up_def)

lemma wadd_eq: "a + b < 2 ^ 64 \<Longrightarrow> wadd a b = a + b"
  by (simp add: wadd_def)

subsection \<open>Tiles\<close>

datatype tile = Free nat | Used nat

fun tsize :: "tile \<Rightarrow> nat" where
  "tsize (Free n) = n"
| "tsize (Used n) = n"

definition tlen :: "tile list \<Rightarrow> nat" where
  "tlen ts = sum_list (map tsize ts)"

fun holes_of :: "nat \<Rightarrow> tile list \<Rightarrow> (nat \<times> nat) list" where
  "holes_of a [] = []"
| "holes_of a (Free n # ts) = (a, n) # holes_of (a + n) ts"
| "holes_of a (Used n # ts) = holes_of (a + n) ts"

definition tiles_ok :: "tile list \<Rightarrow> bool" where
  "tiles_ok ts \<longleftrightarrow> (\<forall>t\<in>set ts. HOLE_SIZE \<le> tsize t \<and> 8 dvd tsize t)"

fun is_free :: "tile \<Rightarrow> bool" where
  "is_free (Free n) = True"
| "is_free (Used n) = False"

definition coalesced :: "tile list \<Rightarrow> bool" where
  "coalesced ts = successively (\<lambda>s t. \<not> (is_free s \<and> is_free t)) ts"

lemma tlen_simps [simp]:
  "tlen [] = 0" "tlen (t # ts) = tsize t + tlen ts" "tlen (xs @ ys) = tlen xs + tlen ys"
  by (simp_all add: tlen_def)

lemma tiles_ok_simps [simp]:
  "tiles_ok []" "tiles_ok (t # ts) \<longleftrightarrow> HOLE_SIZE \<le> tsize t \<and> 8 dvd tsize t \<and> tiles_ok ts"
  "tiles_ok (xs @ ys) \<longleftrightarrow> tiles_ok xs \<and> tiles_ok ys"
  by (auto simp: tiles_ok_def)

lemma holes_of_append [simp]: "holes_of a (xs @ ys) = holes_of a xs @ holes_of (a + tlen xs) ys"
  by (induction a xs rule: holes_of.induct) (simp_all add: add.assoc)

lemma holes_of_bounds: "(h, n) \<in> set (holes_of a ts) \<Longrightarrow> a \<le> h \<and> h + n \<le> a + tlen ts"
  by (induction a ts rule: holes_of.induct) fastforce+

lemma tiles_dvd: "tiles_ok ts \<Longrightarrow> 8 dvd tlen ts"
  by (induction ts) (auto intro: dvd_add)

lemma tiles_big: "tiles_ok ts \<Longrightarrow> ts \<noteq> [] \<Longrightarrow> HOLE_SIZE \<le> tlen ts"
  by (cases ts) auto

text \<open>The first hole of a list of tiles.\<close>

lemma holes_first:
  "holes_of a ts = (h, n) # hs \<Longrightarrow>
   \<exists>us vs. ts = us @ Free n # vs \<and> holes_of a us = [] \<and> h = a + tlen us \<and> hs = holes_of (h + n) vs"
proof (induction a ts rule: holes_of.induct)
  case (2 a m ts)
  then show ?case by (intro exI [of _ "[]"] exI [of _ ts]) auto
next
  case (3 a m ts)
  then obtain us vs where "ts = us @ Free n # vs" "holes_of (a + m) us = []" "h = a + m + tlen us"
    "hs = holes_of (h + n) vs" by auto
  then show ?case by (intro exI [of _ "Used m # us"] exI [of _ vs]) auto
qed simp

lemma no_holes_iff: "holes_of a ts = [] \<longleftrightarrow> (\<forall>n. Free n \<notin> set ts)"
  by (induction a ts rule: holes_of.induct) auto

subsection \<open>The list in memory\<close>

text \<open>\<open>nodes hl l hs\<close>: from the node at \<open>l\<close>, following the links leads through the nodes \<open>hs\<close> (address and
  size); \<open>chain\<close> adds that the list ends there.\<close>

definition next_of :: "HoleList \<Rightarrow> loc \<Rightarrow> nat option" where
  "next_of hl l = hole_next (hole_at hl l)"

fun nodes :: "HoleList \<Rightarrow> loc \<Rightarrow> (nat \<times> nat) list \<Rightarrow> bool" where
  "nodes hl l [] = True"
| "nodes hl l ((a, n) # hs) = (next_of hl l = Some a \<and> hole_size (hmem hl a) = n \<and> nodes hl (Some a) hs)"

definition end_loc :: "loc \<Rightarrow> (nat \<times> nat) list \<Rightarrow> loc" where
  "end_loc l hs = (if hs = [] then l else Some (fst (last hs)))"

definition chain :: "HoleList \<Rightarrow> loc \<Rightarrow> (nat \<times> nat) list \<Rightarrow> bool" where
  "chain hl l hs \<longleftrightarrow> nodes hl l hs \<and> next_of hl (end_loc l hs) = None"

lemma end_loc_simps [simp]:
  "end_loc l [] = l" "end_loc l (xs @ [(a, n)]) = Some a" "end_loc l ((a, n) # xs) = end_loc (Some a) xs"
  "end_loc l (xs @ ys) = end_loc (end_loc l xs) ys"
  by (auto simp: end_loc_def)

lemma nodes_append [simp]: "nodes hl l (xs @ ys) \<longleftrightarrow> nodes hl l xs \<and> nodes hl (end_loc l xs) ys"
  by (induction hl l xs rule: nodes.induct) auto

lemma chain_append: "chain hl l (xs @ ys) \<longleftrightarrow> nodes hl l xs \<and> chain hl (end_loc l xs) ys"
  by (auto simp: chain_def)

lemma chain_simps [simp]:
  "chain hl l [] \<longleftrightarrow> next_of hl l = None"
  "chain hl l ((a, n) # hs) \<longleftrightarrow> next_of hl l = Some a \<and> hole_size (hmem hl a) = n \<and> chain hl (Some a) hs"
  by (auto simp: chain_def)

text \<open>A segment depends on the links of its nodes but the last, and on the sizes.\<close>

definition sources :: "loc \<Rightarrow> (nat \<times> nat) list \<Rightarrow> loc set" where
  "sources l hs = set (butlast (l # map (\<lambda>(a, _). Some a) hs))"

lemma nodes_cong:
  "(\<And>k. k \<in> sources l hs \<Longrightarrow> next_of hl' k = next_of hl k) \<Longrightarrow>
   (\<And>a n. (a, n) \<in> set hs \<Longrightarrow> hole_size (hmem hl' a) = hole_size (hmem hl a)) \<Longrightarrow>
   nodes hl' l hs = nodes hl l hs"
proof (induction hl l hs rule: nodes.induct)
  case (2 hl l a n hs)
  have "nodes hl' (Some a) hs = nodes hl (Some a) hs"
    by (rule 2(1)) (use 2(2,3) in \<open>auto simp: sources_def\<close>)
  moreover have "next_of hl' l = next_of hl l" using 2(2) [of l] by (simp add: sources_def)
  ultimately show ?case using 2(3) [of a n] by simp
qed simp

lemma chain_cong:
  assumes "next_of hl' l = next_of hl l" and "\<And>a n. (a, n) \<in> set hs \<Longrightarrow> hmem hl' a = hmem hl a"
  shows "chain hl' l hs = chain hl l hs"
proof -
  have same: "next_of hl' (Some a) = next_of hl (Some a)" if "(a, n) \<in> set hs" for a n
    using assms(2) [OF that] by (simp add: next_of_def hole_at_def)
  have "nodes hl' l hs = nodes hl l hs"
    by (rule nodes_cong) (use assms same in \<open>auto simp: sources_def dest!: in_set_butlastD split: if_splits\<close>)
  moreover have "next_of hl' (end_loc l hs) = next_of hl (end_loc l hs)"
    using assms(1) same [of "fst (last hs)" "snd (last hs)"] by (cases "hs = []") (simp_all add: end_loc_def)
  ultimately show ?thesis by (simp add: chain_def)
qed

lemma next_of_simps [simp]:
  "next_of (set_next l v hl) k = (if k = l then v else next_of hl k)"
  "next_of (write_hole a h hl) k = (if k = Some a then hole_next h else next_of hl k)"
  by (auto simp: next_of_def hole_at_def set_next_def write_hole_def split: option.splits)

lemma hole_size_simps [simp]:
  "hole_size (hmem (set_next l v hl) a) = hole_size (hmem hl a)"
  "hole_size (hmem (write_hole b h hl) a) = (if a = b then hole_size h else hole_size (hmem hl a))"
  by (simp_all add: set_next_def write_hole_def split: option.split)

lemma hmem_simps [simp]:
  "l \<noteq> Some a \<Longrightarrow> hmem (set_next l v hl) a = hmem hl a"
  "b \<noteq> a \<Longrightarrow> hmem (write_hole b h hl) a = hmem hl a"
  "hmem (write_hole a h hl) a = h"
  by (auto simp: set_next_def write_hole_def split: option.split)

lemma frame_simps [simp]:
  "bottom (set_next l v hl) = bottom hl" "top (set_next l v hl) = top hl"
  "bottom (write_hole b h hl) = bottom hl" "top (write_hole b h hl) = top hl"
  "hole_size (first (set_next l v hl)) = hole_size (first hl)" "first (write_hole b h hl) = first hl"
  by (simp_all add: set_next_def write_hole_def split: option.split)

lemma hole_next_of: "hole_next (hmem hl a) = next_of hl (Some a)" "hole_next (first hl) = next_of hl None"
  by (simp_all add: next_of_def hole_at_def)

subsection \<open>The refinement relation\<close>

text \<open>\<open>heap_rel\<close> relates a hole list to the tiles of the heap. Addresses stay below \<open>2 ^ 63\<close>, as physical
  memory does, so that no address computation wraps.\<close>

definition heap_rel :: "HoleList \<Rightarrow> tile list \<Rightarrow> bool" where
  "heap_rel hl ts \<longleftrightarrow> tiles_ok ts \<and> 8 dvd bottom hl \<and> 0 < bottom hl \<and> top hl = bottom hl + tlen ts \<and>
     top hl < 2 ^ 63 \<and> hole_size (first hl) = 0 \<and> chain hl None (holes_of (bottom hl) ts)"

text \<open>Addresses of the holes around a position.\<close>

lemma holes_before: "(h, n) \<in> set (holes_of a xs) \<Longrightarrow> tiles_ok xs \<Longrightarrow> h < a + tlen xs"
proof (induction a xs rule: holes_of.induct)
  case (2 a m ts)
  then show ?case by auto
next
  case (3 a m ts)
  then show ?case by auto
qed simp

lemma end_before:
  assumes "end_loc None (holes_of a xs) = Some h" and "tiles_ok xs"
  shows "h < a + tlen xs"
proof -
  have "holes_of a xs \<noteq> []" using assms(1) by (auto simp: end_loc_def)
  then obtain n where "(h, n) \<in> set (holes_of a xs)"
    using assms(1) last_in_set by (metis end_loc_def option.inject prod.collapse)
  then show ?thesis using holes_before assms(2) by blast
qed

lemma sources_before:
  assumes "k \<in> sources None (holes_of a xs)" and "tiles_ok xs"
  shows "k \<noteq> end_loc None (holes_of a xs)"
proof -
  have d: "distinct (None # map (\<lambda>(h, _). Some h) (holes_of a xs))" if "tiles_ok xs" for a xs
    using that
  proof (induction a xs rule: holes_of.induct)
    case (2 a n ts)
    have "(a, m) \<notin> set (holes_of (a + n) ts)" for m
      using holes_of_bounds [of a m "a + n" ts] 2(2) by auto
    then show ?case using 2 by auto
  qed auto
  have "end_loc None (holes_of a xs) = last (None # map (\<lambda>(h, _). Some h) (holes_of a xs))"
    by (simp add: end_loc_def last_map case_prod_unfold)
  moreover have "last ys \<notin> set (butlast ys)" if "distinct ys" "ys \<noteq> []" for ys :: "loc list"
    using that by (metis append_butlast_last_id distinct_append disjoint_insert(2) list.simps(15))
  ultimately show ?thesis using assms d [OF assms(2)] unfolding sources_def by (metis list.distinct(1))
qed

text \<open>Replacing the holes at one tile: the memory before it changes only in the link of the last hole there.\<close>

lemma heap_rel_replace_list:
  assumes rel: "heap_rel hl (xs @ ms @ ys)" and ok: "tiles_ok zs" "tlen zs = tlen ms"
    and fixed: "bottom hl' = bottom hl" "top hl' = top hl" "hole_size (first hl') = hole_size (first hl)"
    and before: "\<And>k. k \<in> sources None (holes_of (bottom hl) xs) \<Longrightarrow> next_of hl' k = next_of hl k"
      "\<And>a. a < bottom hl + tlen xs \<Longrightarrow> hole_size (hmem hl' a) = hole_size (hmem hl a)"
    and after: "chain hl' (end_loc None (holes_of (bottom hl) xs))
       (holes_of (bottom hl + tlen xs) zs @ holes_of (bottom hl + tlen xs + tlen zs) ys)"
  shows "heap_rel hl' (xs @ zs @ ys)"
proof -
  have xs: "tiles_ok xs" "nodes hl None (holes_of (bottom hl) xs)"
    using rel by (auto simp: heap_rel_def chain_append)
  have "nodes hl' None (holes_of (bottom hl) xs)"
    using nodes_cong [of None "holes_of (bottom hl) xs" hl' hl] before holes_before [OF _ xs(1)] xs(2) by auto
  then have "chain hl' None (holes_of (bottom hl) (xs @ zs @ ys))"
    using after by (simp add: chain_append add.assoc)
  then show ?thesis using rel ok fixed by (simp add: heap_rel_def)
qed

lemmas heap_rel_replace = heap_rel_replace_list [where ms = "[t]" for t, simplified]

subsection \<open>Where a block goes\<close>

text \<open>What \<open>Layout\<close> guarantees of its values, and what \<open>align_layout\<close> adds.\<close>

definition layout_valid :: "Layout \<Rightarrow> bool" where
  "layout_valid l \<longleftrightarrow> (\<exists>k<63. layout_align l = 2 ^ k) \<and> layout_size l \<le> 2 ^ 63 - layout_align l"

definition layout_ok :: "Layout \<Rightarrow> bool" where
  "layout_ok l \<longleftrightarrow> layout_valid l \<and> HOLE_SIZE \<le> layout_size l \<and> 8 dvd layout_size l"

lemma align_layout_cases:
  assumes "layout_valid l"
  shows "(\<exists>l'. align_layout l = Ok l' \<and> layout_ok l' \<and> layout_align l' = layout_align l \<and>
      layout_size l \<le> layout_size l' \<and> layout_size l' < max 16 (layout_size l) + 8) \<or>
    align_layout l = err (AllocError (InvalidLayout (layout_size l) (layout_align l)))"
proof -
  define m where "m = (if layout_size l < min_size then min_size else layout_size l)"
  obtain k where k: "k < 63" "layout_align l = 2 ^ k" "layout_size l \<le> 2 ^ 63 - layout_align l"
    using assms by (auto simp: layout_valid_def)
  have m: "m \<le> 2 ^ 63" "16 \<le> m" "layout_size l \<le> m" "m = max 16 (layout_size l)"
    using k(3) by (auto simp: m_def min_size_def)
  have up: "align_up_size m HOLE_ALIGN = Ok ((m + 7) div 8 * 8)"
    using m(1) by (simp add: align_up_size_def align_down_8)
  have round: "m \<le> (m + 7) div 8 * 8" "(m + 7) div 8 * 8 < m + 8" by linarith+
  have pow: "is_power_of_two (layout_align l)" using is_power_of_two_pow [of k] k by simp
  show ?thesis
  proof (cases "(m + 7) div 8 * 8 \<le> 2 ^ 63 - layout_align l")
    case True
    then have "align_layout l = Ok \<lparr>layout_size = (m + 7) div 8 * 8, layout_align = layout_align l\<rparr>"
      using pow up by (simp add: align_layout_def m_def [symmetric] from_size_align_def)
    then show ?thesis using True k round m by (auto simp: layout_ok_def layout_valid_def)
  next
    case False
    then show ?thesis using pow up by (simp add: align_layout_def m_def [symmetric] from_size_align_def)
  qed
qed

definition place :: "nat \<Rightarrow> Layout \<Rightarrow> nat" where
  "place a l = (if layout_align l dvd a then a else up (a + HOLE_SIZE) (layout_align l))"

definition fits :: "nat \<Rightarrow> nat \<Rightarrow> Layout \<Rightarrow> bool" where
  "fits a n l \<longleftrightarrow> place a l + layout_size l = a + n \<or> place a l + layout_size l + HOLE_SIZE \<le> a + n"

lemma place_facts:
  assumes "layout_ok l" and "8 dvd a"
  shows "8 dvd place a l" "layout_align l dvd place a l" "a \<le> place a l"
    "place a l = a \<or> a + HOLE_SIZE \<le> place a l" "place a l < a + HOLE_SIZE + 2 ^ 62 + 1"
proof -
  obtain k where k: "k < 63" "layout_align l = 2 ^ k" using assms(1) by (auto simp: layout_ok_def layout_valid_def)
  have pos: "0 < layout_align l" by (simp add: k)
  have "layout_align l dvd 8 \<or> 8 dvd layout_align l"
    using le_imp_power_dvd [of k 3 "2 :: nat"] le_imp_power_dvd [of 3 k "2 :: nat"] k by (cases "k \<le> 3") auto
  then show "8 dvd place a l"
  proof
    assume "layout_align l dvd 8"
    then have "layout_align l dvd a" using assms(2) dvd_trans by blast
    then show ?thesis using assms(2) by (simp add: place_def)
  next
    assume "8 dvd layout_align l"
    then have "8 dvd up (a + HOLE_SIZE) (layout_align l)" using up_mult [OF pos] dvd_trans by blast
    then show ?thesis using assms(2) by (simp add: place_def)
  qed
  show "layout_align l dvd place a l" using up_mult [OF pos] by (simp add: place_def)
  have "layout_align l \<le> 2 ^ 62" using k by (simp add: power_increasing del: power_numeral)
  then show "a \<le> place a l" "place a l = a \<or> a + HOLE_SIZE \<le> place a l" "place a l < a + HOLE_SIZE + 2 ^ 62 + 1"
    using up_bounds [OF pos, of "a + HOLE_SIZE"] by (auto simp: place_def)
qed

lemma fit_hole_spec:
  assumes l: "layout_ok l" and a: "8 dvd a" "8 dvd n" "a + n < 2 ^ 63"
  shows "fit_hole a n l = Ok (if fits a n l
    then Some (if place a l = a then None else Some \<lparr>info_addr = a, info_size = place a l - a\<rparr>, place a l,
      if place a l + layout_size l = a + n then None
      else Some \<lparr>info_addr = place a l + layout_size l, info_size = a + n - (place a l + layout_size l)\<rparr>)
    else None)"
proof (cases "n < layout_size l")
  case True
  then have "\<not> fits a n l" using place_facts(3) [OF l a(1)] by (auto simp: fits_def)
  then show ?thesis using True by (simp add: fit_hole_def)
next
  case False
  let ?al = "layout_align l" and ?p = "place a l" and ?s = "layout_size l"
  note p = place_facts [OF l a(1)]
  obtain k where k: "k < 63" "?al = 2 ^ k" using l by (auto simp: layout_ok_def layout_valid_def)
  have pos: "0 < ?al" by (simp add: k)
  have al: "?al \<le> 2 ^ 62" using k by (simp add: power_increasing del: power_numeral)
  have bounds: "?p + ?s < 2 ^ 64" "a < 2 ^ 63" "?s < 2 ^ 63" using p(5) a(3) False by auto
  have up1: "align_up a ?al = up a ?al" "align_up (a + 16) ?al = up (a + 16) ?al" "wadd a min_size = a + 16"
    using up_bounds [OF pos, of a] up_bounds [OF pos, of "a + 16"] al bounds(2)
    by (auto intro!: align_up_up simp: wadd_def min_size_def)
  have front: "fit_front a ?al = Ok (if ?p = a then None else Some \<lparr>info_addr = a, info_size = ?p - a\<rparr>, ?p)"
  proof (cases "?al dvd a")
    case True
    then show ?thesis using up1 pos by (simp add: fit_front_def place_def up_id)
  next
    case False
    then have "up a ?al \<noteq> a" "up (a + 16) ?al \<noteq> a" using up_eq_iff [OF pos] up_bounds [OF pos, of "a + 16"] by auto
    then show ?thesis using False up1 p(3) by (auto simp: fit_front_def place_def Let_def)
  qed
  have ends: "wadd ?p ?s = ?p + ?s" "wadd a n = a + n" using bounds a(3) by (simp_all add: wadd_def)
  have "8 dvd ?p + ?s" using p(1) l by (simp add: layout_ok_def)
  then have align: "align_up (?p + ?s) 8 = ?p + ?s" using bounds(1) by (simp add: align_up_up up_id)
  show ?thesis
  proof (cases "a + n < ?p + ?s")
    case True
    then have "\<not> fits a n l" by (auto simp: fits_def)
    then show ?thesis using True False by (simp add: fit_hole_def front ends Let_def)
  next
    case le: False
    then have "wadd (?p + ?s) 16 = ?p + ?s + 16" using a(3) by (simp add: wadd_def)
    then show ?thesis using le False
      by (auto simp: fit_hole_def front ends Let_def align fits_def)
  qed
qed

definition split_tile :: "nat \<Rightarrow> nat \<Rightarrow> Layout \<Rightarrow> tile list" where
  "split_tile a n l =
     (if place a l = a then [] else [Free (place a l - a)]) @ [Used (layout_size l)] @
     (if place a l + layout_size l = a + n then [] else [Free (a + n - (place a l + layout_size l))])"

lemma split_tile_ok:
  assumes "layout_ok l" and "8 dvd a" and "8 dvd n" and "fits a n l"
  shows "tiles_ok (split_tile a n l)" "tlen (split_tile a n l) = n"
  using place_facts [OF assms(1,2)] assms(1,3,4) assms(2)
  by (auto simp: split_tile_def layout_ok_def fits_def intro!: dvd_diff_nat)

subsection \<open>Allocation refines splitting a tile\<close>

lemma chain_move:
  assumes "next_of hl' l' = next_of hl l" and "\<And>a n. (a, n) \<in> set hs \<Longrightarrow> hmem hl' a = hmem hl a"
  shows "chain hl' l' hs = chain hl l hs"
proof (cases hs)
  case Nil
  then show ?thesis using assms(1) by simp
next
  case (Cons h hs')
  obtain a n where h: "h = (a, n)" by (cases h)
  have a: "hmem hl' a = hmem hl a" using assms(2) [of a n] by (simp add: Cons h)
  then have "next_of hl' (Some a) = next_of hl (Some a)" by (simp add: next_of_def hole_at_def)
  then have "chain hl' (Some a) hs' = chain hl (Some a) hs'"
    by (rule chain_cong) (use assms(2) in \<open>auto simp: Cons\<close>)
  then show ?thesis using assms(1) a by (simp add: Cons h)
qed

lemma source_before:
  assumes "Some h \<in> sources None (holes_of b xs)" and "tiles_ok xs"
  shows "h < b + tlen xs"
  using assms holes_before by (fastforce simp: sources_def dest!: in_set_butlastD split: if_splits)

definition at_tile :: "HoleList \<Rightarrow> tile list \<Rightarrow> Cursor" where
  "at_tile hl xs = \<lparr>cur_prev = end_loc None (holes_of (bottom hl) xs), cur_hole = bottom hl + tlen xs\<rparr>"

lemma tile_node:
  assumes "heap_rel hl (xs @ Free n # ys)" and "a = bottom hl + tlen xs"
  shows "hole_size (hmem hl a) = n" "chain hl (Some a) (holes_of (a + n) ys)"
    "next_of hl (end_loc None (holes_of (bottom hl) xs)) = Some a" "8 dvd a" "a + n < 2 ^ 63" "8 dvd n" "0 < a"
    "HOLE_SIZE \<le> n" "tiles_ok xs" "tiles_ok ys"
  using assms by (auto simp: heap_rel_def chain_append add.assoc intro: dvd_add tiles_dvd)

lemma split_current_refines:
  assumes rel: "heap_rel hl (xs @ Free n # ys)" and a: "a = bottom hl + tlen xs" and l: "layout_ok l"
  shows "if fits a n l
    then \<exists>hl'. split_current (at_tile hl xs) l hl = Ok (Some (place a l, hl')) \<and>
      heap_rel hl' (xs @ split_tile a n l @ ys) \<and> bottom hl' = bottom hl
    else split_current (at_tile hl xs) l hl = Ok None"
proof -
  note node = tile_node [OF rel a]
  let ?p = "place a l" and ?s = "layout_size l" and ?prev = "end_loc None (holes_of (bottom hl) xs)"
  have fit: "fit_hole a (hole_size (hmem hl a)) l = Ok (if fits a n l
    then Some (if ?p = a then None else Some \<lparr>info_addr = a, info_size = ?p - a\<rparr>, ?p,
      if ?p + ?s = a + n then None else Some \<lparr>info_addr = ?p + ?s, info_size = a + n - (?p + ?s)\<rparr>)
    else None)"
    unfolding node(1) by (rule fit_hole_spec [OF l node(4,6,5)])
  show ?thesis
  proof (cases "fits a n l")
    case False
    then show ?thesis using fit by (simp add: split_current_def at_tile_def a [symmetric])
  next
    case True
    note p = place_facts [OF l node(4)]
    have prev: "?prev \<noteq> Some a" "?prev \<noteq> Some (?p + ?s)" "h \<noteq> a \<Longrightarrow> h < a \<or> a < h" for h
      using end_before [of "bottom hl" xs] node(9) a p(3) by fastforce+
    have s: "HOLE_SIZE \<le> ?s" using l by (simp add: layout_ok_def)
    define nxt where "nxt = next_of hl (Some a)"
    define hl2 where "hl2 = set_next (Some a) None (set_next ?prev None hl)"
    define bk where "bk = write_hole (?p + ?s) \<lparr>hole_size = a + n - (?p + ?s), hole_next = nxt\<rparr> hl2"
    define b_loc where "b_loc = (if ?p + ?s = a + n then nxt else Some (?p + ?s))"
    define hl3 where "hl3 = (if ?p + ?s = a + n then hl2 else bk)"
    define hl' where "hl' = (if ?p = a then set_next ?prev b_loc hl3
      else set_next ?prev (Some a) (write_hole a \<lparr>hole_size = ?p - a, hole_next = b_loc\<rparr> hl3))"
    have run: "split_current (at_tile hl xs) l hl = Ok (Some (?p, hl'))"
      using True fit prev(1)
      by (auto simp: split_current_def at_tile_def a [symmetric] Let_def hl'_def hl3_def bk_def hl2_def
          b_loc_def nxt_def hole_next_of)
    have tail: "chain hl'' k (holes_of (a + n) ys)"
      if "next_of hl'' k = nxt" "\<And>x. a + n \<le> x \<Longrightarrow> hmem hl'' x = hmem hl x" for hl'' k
      using chain_move [of hl'' k hl "Some a" "holes_of (a + n) ys"] that node(2) holes_of_bounds
      by (fastforce simp: nxt_def)
    have far: "x \<noteq> a" "x \<noteq> ?p + ?s" "?prev \<noteq> Some x" if "a + n \<le> x" "?p + ?s \<noteq> a + n" for x
    proof -
      show "x \<noteq> a" using that node(8) by simp
      show "x \<noteq> ?p + ?s" using that True by (auto simp: fits_def)
      show "?prev \<noteq> Some x" using that end_before [of "bottom hl" xs] node(9) a by fastforce
    qed
    have far': "a \<noteq> x" "x \<noteq> a" "?prev \<noteq> Some x" if "a + n \<le> x" for x
      using that node(8) end_before [of "bottom hl" xs] node(9) a by fastforce+
    have "heap_rel hl' (xs @ split_tile a n l @ ys)"
    proof (rule heap_rel_replace [OF rel])
      show "tiles_ok (split_tile a n l)" "tlen (split_tile a n l) = tsize (Free n)"
        using split_tile_ok [OF l node(4,6) True] by simp_all
      show "bottom hl' = bottom hl" "top hl' = top hl" "hole_size (first hl') = hole_size (first hl)"
        by (simp_all add: hl'_def hl3_def bk_def hl2_def)
      show "next_of hl' k = next_of hl k" if "k \<in> sources None (holes_of (bottom hl) xs)" for k
        using sources_before [OF that node(9)] source_before [of _ "bottom hl" xs] that node(9) a p(3)
        by (cases k) (fastforce simp: hl'_def hl3_def bk_def hl2_def)+
      show "hole_size (hmem hl' x) = hole_size (hmem hl x)" if "x < bottom hl + tlen xs" for x
        using that a p(3) by (simp add: hl'_def hl3_def bk_def hl2_def)
      show "chain hl' ?prev (holes_of (bottom hl + tlen xs) (split_tile a n l) @
          holes_of (bottom hl + tlen xs + tlen (split_tile a n l)) ys)"
        unfolding a [symmetric] split_tile_ok(2) [OF l node(4,6) True]
      proof (cases "?p = a \<and> ?p + ?s = a + n")
        case exact: True
        then have "hl' = set_next ?prev nxt hl2" by (simp add: hl'_def b_loc_def hl3_def)
        then have "chain hl' ?prev (holes_of (a + n) ys)"
          by (intro tail) (use prev(1) far' in \<open>auto simp: hl2_def\<close>)
        moreover have "holes_of a (split_tile a n l) = []" using exact by (simp add: split_tile_def)
        ultimately show "chain hl' ?prev (holes_of a (split_tile a n l) @ holes_of (a + n) ys)" by simp
      next
        case False
        then show "chain hl' ?prev (holes_of a (split_tile a n l) @ holes_of (a + n) ys)"
          using p(3,4) s prev far far' True
          by (cases "?p = a"; cases "?p + ?s = a + n")
            (auto simp: split_tile_def hl'_def hl3_def bk_def hl2_def b_loc_def fits_def node(1) intro!: tail)
      qed
    qed
    then show ?thesis using True run by (auto simp: hl'_def hl3_def bk_def hl2_def)
  qed
qed

text \<open>\<open>unfit b ts l\<close>: no hole of the tiles has room for the block.\<close>

definition unfit :: "nat \<Rightarrow> tile list \<Rightarrow> Layout \<Rightarrow> bool" where
  "unfit b ts l = list_all (\<lambda>(a, n). \<not> fits a n l) (holes_of b ts)"

lemma unfit_simps [simp]:
  "unfit b [] l" "unfit b (xs @ ys) l \<longleftrightarrow> unfit b xs l \<and> unfit (b + tlen xs) ys l"
  "unfit b (Free n # ts) l \<longleftrightarrow> \<not> fits b n l \<and> unfit (b + n) ts l" "unfit b (Used n # ts) l = unfit (b + n) ts l"
  by (auto simp: unfit_def)

lemma unfit_used: "holes_of b us = [] \<Longrightarrow> unfit b us l"
  by (simp add: unfit_def)

text \<open>The cursor moves from one hole to the next.\<close>

lemma cursor_moves:
  assumes rel: "heap_rel hl (xs @ Free n # ys)"
  shows "case holes_of (bottom hl + tlen xs + n) ys of
      [] \<Rightarrow> cursor_next hl (at_tile hl xs) = None
    | _ \<Rightarrow> \<exists>us m vs. ys = us @ Free m # vs \<and> holes_of (bottom hl + tlen xs + n) us = [] \<and>
        cursor_next hl (at_tile hl xs) = Some (at_tile hl (xs @ Free n # us))"
proof (cases "holes_of (bottom hl + tlen xs + n) ys")
  case Nil
  then show ?thesis using tile_node(2) [OF rel refl] by (simp add: cursor_next_def at_tile_def hole_next_of)
next
  case (Cons h hs)
  obtain c m where h: "h = (c, m)" by (cases h)
  from holes_first [OF Cons [unfolded h]] obtain us vs where
    u: "ys = us @ Free m # vs" "holes_of (bottom hl + tlen xs + n) us = []" "c = bottom hl + tlen xs + n + tlen us" by blast
  have "cursor_next hl (at_tile hl xs) = Some \<lparr>cur_prev = Some (bottom hl + tlen xs), cur_hole = c\<rparr>"
    using tile_node(2) [OF rel refl] by (simp add: cursor_next_def at_tile_def hole_next_of Cons h)
  then have "cursor_next hl (at_tile hl xs) = Some (at_tile hl (xs @ Free n # us))"
    using u(2,3) by (simp add: at_tile_def add.assoc)
  then show ?thesis unfolding Cons list.case using u(1,2) by blast
qed

lemma first_fit_refines:
  assumes "heap_rel hl (xs @ Free n # ys)" and "layout_ok l"
  shows "(\<exists>us m vs hl'. Free n # ys = us @ Free m # vs \<and> unfit (bottom hl + tlen xs) us l \<and>
        first_fit l hl (at_tile hl xs) = Some (Ok (place (bottom hl + tlen (xs @ us)) l), hl') \<and>
        fits (bottom hl + tlen (xs @ us)) m l \<and> bottom hl' = bottom hl \<and>
        heap_rel hl' (xs @ us @ split_tile (bottom hl + tlen (xs @ us)) m l @ vs)) \<or>
    unfit (bottom hl + tlen xs) (Free n # ys) l \<and>
      first_fit l hl (at_tile hl xs) = Some (err (AllocError NoNextCursor), hl)"
  using assms
proof (induction "length ys" arbitrary: xs n ys rule: less_induct)
  case less
  let ?a = "bottom hl + tlen xs"
  note split = split_current_refines [OF less.prems(1) refl less.prems(2)]
  show ?case
  proof (cases "fits ?a n l")
    case True
    then obtain hl' where hl': "split_current (at_tile hl xs) l hl = Ok (Some (place ?a l, hl'))"
      "heap_rel hl' (xs @ split_tile ?a n l @ ys)" "bottom hl' = bottom hl" using split by auto
    have "place ?a l \<noteq> 0"
      using place_facts(3) [OF less.prems(2) tile_node(4) [OF less.prems(1) refl]] tile_node(7) [OF less.prems(1) refl] by linarith
    then have run: "first_fit l hl (at_tile hl xs) = Some (Ok (place ?a l), hl')"
      by (subst first_fit.simps) (simp add: hl'(1))
    show ?thesis
      by (rule disjI1, intro exI [of _ "[]"] exI [of _ n] exI [of _ ys] exI [of _ hl']) (use run hl' True in simp)
  next
    case False
    then have sc: "split_current (at_tile hl xs) l hl = Ok None" using split by simp
    show ?thesis
    proof (cases "holes_of (?a + n) ys")
      case Nil
      then have "cursor_next hl (at_tile hl xs) = None" using cursor_moves [OF less.prems(1)] by simp
      then have "first_fit l hl (at_tile hl xs) = Some (err (AllocError NoNextCursor), hl)"
        by (subst first_fit.simps) (simp add: sc)
      then show ?thesis using False Nil by (simp add: unfit_used)
    next
      case (Cons h hs)
      then obtain us m vs where u: "ys = us @ Free m # vs" "holes_of (?a + n) us = []"
        "cursor_next hl (at_tile hl xs) = Some (at_tile hl (xs @ Free n # us))"
        using cursor_moves [OF less.prems(1)] by auto
      have step: "first_fit l hl (at_tile hl xs) = first_fit l hl (at_tile hl (xs @ Free n # us))"
        by (subst first_fit.simps) (simp add: sc u(3))
      have skip: "unfit ?a (Free n # us) l" using False u(2) by (simp add: unfit_used)
      have shift: "bottom hl + tlen (xs @ Free n # us) = ?a + tlen (Free n # us)" by simp
      from less.hyps [of vs "xs @ Free n # us" m, OF _ _ less.prems(2)] less.prems(1) u(1)
      consider us' m' vs' hl' where "Free m # vs = us' @ Free m' # vs'"
        "unfit (?a + tlen (Free n # us)) us' l"
        "first_fit l hl (at_tile hl xs) = Some (Ok (place (bottom hl + tlen ((xs @ Free n # us) @ us')) l), hl')"
        "fits (bottom hl + tlen ((xs @ Free n # us) @ us')) m' l" "bottom hl' = bottom hl"
        "heap_rel hl' ((xs @ Free n # us) @ us' @ split_tile (bottom hl + tlen ((xs @ Free n # us) @ us')) m' l @ vs')"
        | "unfit (?a + tlen (Free n # us)) (Free m # vs) l"
          "first_fit l hl (at_tile hl xs) = Some (err (AllocError NoNextCursor), hl)"
        unfolding step shift by fastforce
      then show ?thesis
      proof cases
        case 1
        show ?thesis
          by (rule disjI1, intro exI [of _ "Free n # us @ us'"] exI [of _ m'] exI [of _ vs'] exI [of _ hl'])
            (use 1 u(1) skip in \<open>auto simp: add.assoc\<close>)
      next
        case 2
        then show ?thesis using u(1) skip by (auto simp: add.assoc)
      qed
    qed
  qed
qed


lemma coalesced_append:
  "coalesced (xs @ ys) \<longleftrightarrow> coalesced xs \<and> coalesced ys \<and>
     (xs \<noteq> [] \<and> ys \<noteq> [] \<longrightarrow> \<not> (is_free (last xs) \<and> is_free (hd ys)))"
  by (auto simp: coalesced_def successively_append_iff)

lemma coalesced_simps [simp]:
  "coalesced []" "coalesced [t]"
  "coalesced (s # t # ts) \<longleftrightarrow> \<not> (is_free s \<and> is_free t) \<and> coalesced (t # ts)"
  by (auto simp: coalesced_def)

text \<open>Splitting a free tile between tiles in use leaves no two free tiles side by side.\<close>

lemma coalesced_split:
  assumes "coalesced (xs @ Free n # ys)"
  shows "coalesced (xs @ split_tile a n l @ ys)"
proof -
  have xs: "coalesced xs" "xs \<noteq> [] \<Longrightarrow> \<not> is_free (last xs)" and ys: "coalesced ys" "ys \<noteq> [] \<Longrightarrow> \<not> is_free (hd ys)"
    using assms by (cases ys; auto simp: coalesced_append)+
  have used: "coalesced (Used k # ys)" "coalesced (Free m # ys)" for k m using ys by (cases ys; simp)+
  show ?thesis using xs ys used by (auto simp: split_tile_def coalesced_append)
qed

text \<open>\<open>alloc_first_fit\<close> always returns. It takes the first hole with room, or fails and changes nothing when
  there is none.\<close>

lemma hole_list_alloc_refines:
  assumes rel: "heap_rel hl ts" and l: "align_layout l = Ok l'" "layout_ok l'"
  shows "(\<exists>xs n ys hl'. ts = xs @ Free n # ys \<and> unfit (bottom hl) xs l' \<and> fits (bottom hl + tlen xs) n l' \<and>
        hole_list_alloc l hl = Some (Ok (place (bottom hl + tlen xs) l', l'), hl') \<and> bottom hl' = bottom hl \<and>
        heap_rel hl' (xs @ split_tile (bottom hl + tlen xs) n l' @ ys)) \<or>
    unfit (bottom hl) ts l' \<and> (\<exists>e. hole_list_alloc l hl = Some (Err e, hl))"
proof (cases "holes_of (bottom hl) ts")
  case Nil
  then have "next_of hl None = None" using rel by (simp add: heap_rel_def)
  then show ?thesis using l Nil by (simp add: hole_list_alloc_def cursor_def hole_next_of unfit_used)
next
  case (Cons h hs)
  obtain a n where h: "h = (a, n)" by (cases h)
  from holes_first [OF Cons [unfolded h]] obtain us vs where
    u: "ts = us @ Free n # vs" "holes_of (bottom hl) us = []" "a = bottom hl + tlen us" by blast
  have rel': "heap_rel hl (us @ Free n # vs)" using rel u(1) by simp
  have "cursor hl = Some (at_tile hl us)"
    using rel Cons h u(2,3) by (simp add: heap_rel_def cursor_def hole_next_of at_tile_def)
  then have run: "hole_list_alloc l hl = map_option (\<lambda>(r, hl'). (map_ok (\<lambda>p. (p, l')) r, hl')) (first_fit l' hl (at_tile hl us))"
    using l(1) by (simp add: hole_list_alloc_def)
  from first_fit_refines [OF rel' l(2)] show ?thesis
  proof (elim disjE exE conjE, goal_cases)
    case (1 us' m vs' hl')
    show ?thesis
      by (rule disjI1, intro exI [of _ "us @ us'"] exI [of _ m] exI [of _ vs'] exI [of _ hl'])
        (use 1 u unfit_used [OF u(2)] run in simp)
  next
    case 2
    then show ?thesis using u unfit_used [OF u(2)] run by simp
  qed
qed

subsection \<open>Deallocation refines freeing a tile\<close>

lemma used_not_node:
  assumes "heap_rel hl (xs @ Used n # ys)" and "(h, m) \<in> set (holes_of (bottom hl) (xs @ Used n # ys))"
  shows "h \<noteq> bottom hl + tlen xs"
proof -
  have ok: "tiles_ok xs" "16 \<le> n" using assms(1) by (auto simp: heap_rel_def)
  have "(h, m) \<in> set (holes_of (bottom hl) xs) \<or> (h, m) \<in> set (holes_of (bottom hl + tlen xs + n) ys)"
    using assms(2) by (auto simp: add.assoc)
  then show ?thesis using holes_before [OF _ ok(1)] holes_of_bounds [of h m "bottom hl + tlen xs + n" ys] ok(2) by force
qed

lemma used_facts:
  assumes "heap_rel hl (xs @ Used n # ys)" and "a = bottom hl + tlen xs"
  shows "8 dvd a" "a + n < 2 ^ 63" "8 dvd n" "HOLE_SIZE \<le> n" "tiles_ok xs" "tiles_ok ys" "0 < a"
    "a = bottom hl \<or> bottom hl + HOLE_SIZE \<le> a" "a + n = top hl \<or> a + n + HOLE_SIZE \<le> top hl"
    "bottom hl < 2 ^ 63" "chain hl (end_loc None (holes_of (bottom hl) xs)) (holes_of (a + n) ys)"
proof -
  show "8 dvd a" "a + n < 2 ^ 63" "8 dvd n" "HOLE_SIZE \<le> n" "tiles_ok xs" "tiles_ok ys" "0 < a" "bottom hl < 2 ^ 63"
    "chain hl (end_loc None (holes_of (bottom hl) xs)) (holes_of (a + n) ys)"
    using assms by (auto simp: heap_rel_def chain_append add.assoc intro: dvd_add tiles_dvd)
  show "a = bottom hl \<or> bottom hl + HOLE_SIZE \<le> a" "a + n = top hl \<or> a + n + HOLE_SIZE \<le> top hl"
    using assms tiles_big [of xs] tiles_big [of ys] by (cases "xs = []"; cases "ys = []"; force simp: heap_rel_def)+
qed

text \<open>Writing the node into the freed block does not touch the list.\<close>

lemma make_hole_rel:
  assumes "heap_rel hl (xs @ Used n # ys)" and "a = bottom hl + tlen xs"
  shows "heap_rel (make_hole a k hl) (xs @ Used n # ys)"
proof -
  have same: "hmem (make_hole a k hl) h = hmem hl h"
    if "(h, m) \<in> set (holes_of (bottom hl) (xs @ Used n # ys))" for h m
    using used_not_node [OF assms(1) that] assms(2) by (simp add: make_hole_def)
  have "next_of (make_hole a k hl) None = next_of hl None" by (simp add: make_hole_def)
  then have "chain (make_hole a k hl) None (holes_of (bottom hl) (xs @ Used n # ys)) =
      chain hl None (holes_of (bottom hl) (xs @ Used n # ys))"
    by (rule chain_cong) (rule same)
  then show ?thesis using assms(1) by (simp add: heap_rel_def make_hole_def)
qed

text \<open>Linking the node in behind the last hole before it turns the tile into a free one.\<close>

lemma link_rel:
  assumes rel: "heap_rel hl (xs @ Used n # ys)" and a: "a = bottom hl + tlen xs"
    and size: "hole_size (hmem hl a) = n"
    and prev: "prev = end_loc None (holes_of (bottom hl) xs)" and nxt: "nxt = next_of hl prev"
  shows "heap_rel (set_next (Some a) nxt (set_next prev (Some a) hl)) (xs @ [Free n] @ ys)" (is "heap_rel ?hl _")
proof (rule heap_rel_replace [OF rel])
  note f = used_facts [OF rel a]
  have pa: "prev \<noteq> Some a" using end_before [of "bottom hl" xs] f(5) a prev by fastforce
  have far: "a \<noteq> x" "prev \<noteq> Some x" if "a + n \<le> x" for x
    using that f(4) end_before [of "bottom hl" xs] f(5) a prev by fastforce+
  show "tiles_ok [Free n]" "tlen [Free n] = tsize (Used n)" using f(3,4) by simp_all
  show "next_of ?hl k = next_of hl k" if "k \<in> sources None (holes_of (bottom hl) xs)" for k
    using sources_before [OF that f(5)] source_before [of _ "bottom hl" xs] that f(5) a prev
    by (cases k) fastforce+
  have "chain ?hl (Some a) (holes_of (a + n) ys)"
    using chain_move [of ?hl "Some a" hl prev "holes_of (a + n) ys"] f(11) far holes_of_bounds pa nxt
    unfolding prev [symmetric] by fastforce
  then show "chain ?hl (end_loc None (holes_of (bottom hl) xs))
      (holes_of (bottom hl + tlen xs) [Free n] @ holes_of (bottom hl + tlen xs + tlen [Free n]) ys)"
    unfolding a [symmetric] prev [symmetric] using pa size by simp
qed simp_all

lemma check_merge_bottom_id:
  assumes "hmem hl a = \<lparr>hole_size = n, hole_next = None\<rparr>" and "a = bottom hl \<or> bottom hl + HOLE_SIZE \<le> a"
    and "bottom hl < 2 ^ 63" and "n < 2 ^ 63"
  shows "check_merge_bottom a hl = (Ok a, hl)"
proof -
  have w: "wadd (bottom hl) HOLE_SIZE = bottom hl + HOLE_SIZE" using assms(3) by (simp add: wadd_def)
  have "write_hole a \<lparr>hole_size = n, hole_next = None\<rparr> hl = hl"
    using assms(1) by (simp add: write_hole_def fun_upd_idem)
  then show ?thesis using assms w by (auto simp: check_merge_bottom_def make_hole_def)
qed

lemma check_merge_top_id:
  assumes "a + hole_size (hmem hl a) = top hl \<or> a + hole_size (hmem hl a) + HOLE_SIZE \<le> top hl"
    and "8 dvd a + hole_size (hmem hl a)" and "top hl < 2 ^ 63"
  shows "check_merge_top a hl = (Ok (), hl)"
proof -
  let ?e = "a + hole_size (hmem hl a)"
  have "?e \<le> top hl" using assms(1) by auto
  then have e: "wadd a (hole_size (hmem hl a)) = ?e" "align_up ?e HOLE_ALIGN = ?e" "wadd ?e HOLE_SIZE = ?e + HOLE_SIZE"
    using assms(2,3) by (simp_all add: wadd_def align_up_up up_id)
  show ?thesis using assms(1) by (auto simp: check_merge_top_def e Let_def)
qed

lemma next_hole:
  assumes "heap_rel hl (xs @ ys)"
  shows "next_of hl (end_loc None (holes_of (bottom hl) xs)) =
    (case holes_of (bottom hl + tlen xs) ys of [] \<Rightarrow> None | (h, n) # _ \<Rightarrow> Some h)"
  using assms by (auto simp: heap_rel_def chain_append split: list.split)

lemma try_insert_back_run:
  assumes rel: "heap_rel hl (xs @ Used n # ys)" and a: "a = bottom hl + tlen xs"
    and cell: "hmem hl a = \<lparr>hole_size = n, hole_next = None\<rparr>"
    and first: "holes_of (bottom hl) xs = []" "holes_of (a + n) ys = (c, m) # hs"
  shows "\<exists>hl'. try_insert_back a \<lparr>cur_prev = None, cur_hole = c\<rparr> hl = (Ok (Some \<lparr>cur_prev = None, cur_hole = a\<rparr>), hl') \<and>
    heap_rel hl' (xs @ [Free n] @ ys) \<and> bottom hl' = bottom hl"
proof -
  note f = used_facts [OF rel a]
  have c: "a + n \<le> c" using holes_of_bounds [of c m "a + n" ys] first(2) by simp
  have "next_of hl None = Some c"
    using next_hole [OF rel] first a by (simp add: add.assoc)
  then have "heap_rel (set_next (Some a) (Some c) (set_next None (Some a) hl)) (xs @ [Free n] @ ys)"
    using link_rel [OF rel a, of None "Some c"] cell first(1) by simp
  moreover have "check_merge_bottom a hl = (Ok a, hl)"
    by (rule check_merge_bottom_id [OF cell f(8,10)]) (use f(2) in simp)
  moreover have "hole_size (first hl) = 0" using rel by (simp add: heap_rel_def)
  ultimately show ?thesis using c f(2,4) cell
    by (simp add: try_insert_back_def wadd_def assert_act_def bind_act_def hole_at_def)
qed

text \<open>At the last hole before the block the node is linked in; at an earlier hole the cursor moves on.\<close>

lemma try_insert_after_last:
  assumes rel: "heap_rel hl ((us @ Free m # vs) @ Used n # ys)" and a: "a = bottom hl + tlen (us @ Free m # vs)"
    and cell: "hmem hl a = \<lparr>hole_size = n, hole_next = None\<rparr>" and last: "holes_of (bottom hl + tlen us + m) vs = []"
  shows "\<exists>hl'. try_insert_after a (at_tile hl us) hl = (Ok (), hl') \<and>
    heap_rel hl' ((us @ Free m # vs) @ [Free n] @ ys) \<and> bottom hl' = bottom hl"
proof -
  let ?h = "bottom hl + tlen us"
  note f = used_facts [OF rel a]
  have prev: "end_loc None (holes_of (bottom hl) (us @ Free m # vs)) = Some ?h" using last by (simp add: add.assoc)
  define nxt where "nxt = next_of hl (Some ?h)"
  have nxt_eq: "nxt = (case holes_of (a + n) ys of [] \<Rightarrow> None | (h, n) # _ \<Rightarrow> Some h)"
    using next_hole [OF rel] a unfolding nxt_def prev by simp
  have le: "a + n \<le> x" if "nxt = Some x" for x
    using that holes_of_bounds [of x _ "a + n" ys] unfolding nxt_eq by (auto split: list.splits)
  have ok: "a + n \<le> x" "a < x" if "nxt = Some x" for x using le [OF that] f(4) by linarith+
  have hs: "hole_size (hmem hl ?h) = m" "16 \<le> m" using tile_node(1,8) [of hl us m "vs @ Used n # ys"] rel by simp_all
  have "heap_rel (set_next (Some a) nxt (set_next (Some ?h) (Some a) hl)) ((us @ Free m # vs) @ [Free n] @ ys)"
    using link_rel [OF rel a, of "Some ?h" nxt] cell prev nxt_def by simp
  moreover have "try_insert_after a (at_tile hl us) hl =
      (Ok (), set_next (Some a) nxt (set_next (Some ?h) (Some a) hl))"
    using ok f(2) hs a cell
    by (auto simp: try_insert_after_def at_tile_def hole_next_of nxt_def [symmetric] assert_act_def bind_act_def
        wadd_def split: option.split)
  ultimately show ?thesis by simp
qed

lemma try_insert_after_skip:
  assumes rel: "heap_rel hl ((us @ Free m # vs) @ Used n # ys)" and a: "a = bottom hl + tlen (us @ Free m # vs)"
    and more: "holes_of (bottom hl + tlen us + m) vs \<noteq> []"
  shows "\<exists>e. try_insert_after a (at_tile hl us) hl = (Err e, hl)"
proof -
  obtain x k hs where x: "holes_of (bottom hl + tlen us + m) vs = (x, k) # hs"
    using more by (cases "holes_of (bottom hl + tlen us + m) vs") auto
  have "next_of hl (Some (bottom hl + tlen us)) = Some x"
    using next_hole [of hl "us @ [Free m]" "vs @ Used n # ys"] rel x by (simp add: add.assoc)
  moreover have "tiles_ok vs" using rel by (simp add: heap_rel_def)
  then have "x < a" using holes_before [of x k "bottom hl + tlen us + m" vs] x a by (simp add: add.assoc)
  ultimately show ?thesis by (simp add: try_insert_after_def at_tile_def hole_next_of bind_act_def)
qed

text \<open>The loop ends at the last hole before the block.\<close>

lemma insert_after_loop_run:
  assumes "heap_rel hl ((us @ Free m # vs) @ Used n # ys)" and "a = bottom hl + tlen (us @ Free m # vs)"
    and "hmem hl a = \<lparr>hole_size = n, hole_next = None\<rparr>"
  shows "\<exists>us' m' vs' hl'. us @ Free m # vs = us' @ Free m' # vs' \<and> holes_of (bottom hl + tlen us' + m') vs' = [] \<and>
    insert_after_loop a (at_tile hl us) hl = Some (Ok (at_tile hl us'), hl') \<and>
    heap_rel hl' ((us @ Free m # vs) @ [Free n] @ ys) \<and> bottom hl' = bottom hl"
  using assms
proof (induction "length vs" arbitrary: us m vs rule: less_induct)
  case less
  show ?case
  proof (cases "holes_of (bottom hl + tlen us + m) vs")
    case Nil
    then obtain hl' where hl': "try_insert_after a (at_tile hl us) hl = (Ok (), hl')"
      "heap_rel hl' ((us @ Free m # vs) @ [Free n] @ ys)" "bottom hl' = bottom hl"
      using try_insert_after_last [OF less.prems] by blast
    have "insert_after_loop a (at_tile hl us) hl = Some (Ok (at_tile hl us), hl')"
      by (subst insert_after_loop.simps) (simp add: hl'(1))
    then show ?thesis using Nil hl' by blast
  next
    case (Cons h hs)
    then obtain e where e: "try_insert_after a (at_tile hl us) hl = (Err e, hl)"
      using try_insert_after_skip [OF less.prems(1,2)] by auto
    obtain c k where h: "h = (c, k)" by (cases h)
    from holes_first [OF Cons [unfolded h]] obtain ws zs where
      w: "vs = ws @ Free k # zs" "holes_of (bottom hl + tlen us + m) ws = []" by blast
    have rel': "heap_rel hl (us @ Free m # (ws @ Free k # zs @ Used n # ys))"
      using less.prems(1) w(1) by simp
    have "\<exists>us' m' vs'. ws @ Free k # zs @ Used n # ys = us' @ Free m' # vs' \<and> holes_of (bottom hl + tlen us + m) us' = [] \<and>
        cursor_next hl (at_tile hl us) = Some (at_tile hl (us @ Free m # us'))"
      using cursor_moves [OF rel'] w(2) by (simp add: add.assoc)
    then obtain us' m' vs' where u': "ws @ Free k # zs @ Used n # ys = us' @ Free m' # vs'"
      "holes_of (bottom hl + tlen us + m) us' = []" "cursor_next hl (at_tile hl us) = Some (at_tile hl (us @ Free m # us'))"
      by blast
    have "us' = ws"
      using u'(1,2) w(2) unfolding no_holes_iff
      by (auto simp: append_eq_append_conv2 Cons_eq_append_conv append_eq_Cons_conv)
    then have nx: "cursor_next hl (at_tile hl us) = Some (at_tile hl (us @ Free m # ws))" using u'(3) by simp
    have step: "insert_after_loop a (at_tile hl us) hl = insert_after_loop a (at_tile hl (us @ Free m # ws)) hl"
      by (subst insert_after_loop.simps) (simp add: e nx)
    have "length zs < length vs" using w(1) by simp
    from less.hyps [OF this, of "us @ Free m # ws" k] less.prems w(1) show ?thesis
      unfolding step by simp
  qed
qed

lemma merge_touching:
  assumes rel: "heap_rel hl (us @ Free n # Free m # vs)" and h: "h = bottom hl + tlen us"
  shows "\<exists>hl'. merge_next_n (Suc k) h hl = merge_next_n k h hl' \<and> heap_rel hl' (us @ Free (n + m) # vs) \<and>
    bottom hl' = bottom hl"
proof -
  note f = tile_node [OF rel h]
  let ?prev = "end_loc None (holes_of (bottom hl) us)"
  define nn where "nn = next_of hl (Some (h + n))"
  define hl2 where "hl2 = set_next (Some h) nn (set_next (Some (h + n)) None hl)"
  define hl' where "hl' = write_hole h ((hmem hl2 h)\<lparr>hole_size := n + m\<rparr>) hl2"
  have chain: "next_of hl (Some h) = Some (h + n)" "hole_size (hmem hl (h + n)) = m"
    "chain hl (Some (h + n)) (holes_of (h + n + m) vs)" using f(2) by simp_all
  have sizes: "16 \<le> m" "8 dvd m" "h + n + m < 2 ^ 63" "16 \<le> n"
    using rel h by (auto simp: heap_rel_def)
  have pos: "h \<noteq> h + n" "h + n \<noteq> h" using sizes by auto
  have nxt: "hole_next (hmem hl2 h) = nn" unfolding hole_next_of hl2_def by simp
  have run: "merge_next_n (Suc k) h hl = merge_next_n k h hl'"
    using chain f(1) sizes pos
    by (simp add: hole_next_of wadd_def Let_def hl'_def hl2_def [unfolded nn_def, symmetric] nn_def bind_act_def)
  have prev: "?prev \<noteq> Some x" if "h \<le> x" for x
    using that end_before [of "bottom hl" us] f(9) h by fastforce
  have rel2: "heap_rel hl (us @ [Free n, Free m] @ vs)" using rel by simp
  have "heap_rel hl' (us @ [Free (n + m)] @ vs)"
  proof (rule heap_rel_replace_list [OF rel2])
    show "tiles_ok [Free (n + m)]" "tlen [Free (n + m)] = tlen [Free n, Free m]" using sizes f(6) by simp_all
    show "bottom hl' = bottom hl" "top hl' = top hl" "hole_size (first hl') = hole_size (first hl)"
      by (simp_all add: hl'_def hl2_def)
    show "next_of hl' x = next_of hl x" if "x \<in> sources None (holes_of (bottom hl) us)" for x
      using source_before [of _ "bottom hl" us] that f(9) h
      by (cases x) (fastforce simp: hl'_def hl2_def)+
    show "hole_size (hmem hl' x) = hole_size (hmem hl x)" if "x < bottom hl + tlen us" for x
      using that h by (simp add: hl'_def hl2_def)
    have "chain hl' (Some h) (holes_of (h + n + m) vs) = chain hl (Some (h + n)) (holes_of (h + n + m) vs)"
    proof (rule chain_move)
      show "next_of hl' (Some h) = next_of hl (Some (h + n))" using nxt by (simp add: hl'_def nn_def)
      show "hmem hl' x = hmem hl x" if "(x, y) \<in> set (holes_of (h + n + m) vs)" for x y
        using holes_of_bounds [OF that] sizes by (simp add: hl'_def hl2_def)
    qed
    then have "chain hl' (Some h) (holes_of (h + n + m) vs)" using chain(3) by simp
    moreover have "next_of hl' ?prev = Some h" using f(3) prev [of h] prev [of "h + n"] by (simp add: hl'_def hl2_def)
    ultimately show "chain hl' ?prev (holes_of (bottom hl + tlen us) [Free (n + m)] @
        holes_of (bottom hl + tlen us + tlen [Free (n + m)]) vs)"
      unfolding h [symmetric] by (simp add: hl'_def add.assoc)
  qed
  then show ?thesis using run by (auto simp: hl'_def hl2_def)
qed

lemma merge_apart:
  assumes rel: "heap_rel hl (us @ Free n # vs)" and h: "h = bottom hl + tlen us"
    and apart: "vs = [] \<or> \<not> is_free (hd vs)"
  shows "case holes_of (h + n) vs of
      [] \<Rightarrow> merge_next_n (Suc k) h hl = (Ok (), hl)
    | (x, m) # _ \<Rightarrow> merge_next_n (Suc k) h hl = merge_next_n k x hl"
proof (cases "holes_of (h + n) vs")
  case Nil
  note f = tile_node [OF rel h]
  have e: "h + n = top hl \<or> h + n + HOLE_SIZE \<le> top hl"
    using rel h tiles_big [of vs] by (cases "vs = []") (auto simp: heap_rel_def)
  have "8 dvd h + n" using f(4,6) by simp
  then have "check_merge_top h hl = (Ok (), hl)"
    using e f(1) rel by (intro check_merge_top_id) (auto simp: heap_rel_def)
  then show ?thesis using Nil f(2) by (simp add: hole_next_of)
next
  case (Cons c hs)
  note f = tile_node [OF rel h]
  obtain x m where c: "c = (x, m)" by (cases c)
  from holes_first [OF Cons [unfolded c]] obtain ws zs where
    w: "vs = ws @ Free m # zs" "x = h + n + tlen ws" by blast
  have "ws \<noteq> []" using apart w(1) by auto
  moreover have "tiles_ok ws" using f(10) w(1) by simp
  ultimately have "h + n \<noteq> x" using tiles_big [of ws] w(2) by simp
  then show ?thesis using Cons c f(1,2,5) by (simp add: hole_next_of wadd_def)
qed

definition merge_right :: "nat \<Rightarrow> tile list \<Rightarrow> tile list" where
  "merge_right n ys = (case ys of Free k # ys' \<Rightarrow> Free (n + k) # ys' | _ \<Rightarrow> Free n # ys)"

definition free_tile :: "tile list \<Rightarrow> nat \<Rightarrow> tile list \<Rightarrow> tile list" where
  "free_tile xs n ys =
     (if xs \<noteq> [] \<and> is_free (last xs) then butlast xs @ merge_right (tsize (last xs) + n) ys
      else xs @ merge_right n ys)"

lemma merge_one:
  assumes rel: "heap_rel hl (us @ Free n # vs)" and h: "h = bottom hl + tlen us" and co: "coalesced vs"
  shows "\<exists>hl'. merge_next_n 1 h hl = (Ok (), hl') \<and> heap_rel hl' (us @ merge_right n vs) \<and> bottom hl' = bottom hl"
proof (cases "vs = [] \<or> \<not> is_free (hd vs)")
  case True
  then have "merge_next_n 1 h hl = (Ok (), hl)"
    using merge_apart [OF rel h True, of 0] by (auto split: list.splits)
  moreover have "merge_right n vs = Free n # vs"
    using True by (cases vs; cases "hd vs") (auto simp: merge_right_def)
  ultimately show ?thesis using rel by simp
next
  case False
  then obtain m vs' where vs: "vs = Free m # vs'" by (cases vs; cases "hd vs") auto
  then show ?thesis using merge_touching [of hl us n m vs' h 0] rel h by (auto simp: merge_right_def)
qed

text \<open>\<open>dealloc\<close> always returns \<open>Ok\<close> for a block in use, and the tile becomes free, merged with its free
  neighbours. None of the assertions fails.\<close>

lemma dealloc_hole_refines:
  assumes rel: "heap_rel hl (xs @ Used n # ys)" and a: "a = bottom hl + tlen xs" and co: "coalesced xs" "coalesced ys"
  shows "\<exists>hl'. dealloc_hole a n hl = Some (Ok (), hl') \<and> heap_rel hl' (free_tile xs n ys) \<and> bottom hl' = bottom hl"
proof -
  define hl1 where "hl1 = make_hole a n hl"
  have rel1: "heap_rel hl1 (xs @ Used n # ys)" unfolding hl1_def by (rule make_hole_rel [OF rel a])
  have cell: "hmem hl1 a = \<lparr>hole_size = n, hole_next = None\<rparr>" by (simp add: hl1_def make_hole_def)
  have b: "bottom hl1 = bottom hl" by (simp add: hl1_def make_hole_def)
  have a1: "a = bottom hl1 + tlen xs" using a b by simp
  note f = used_facts [OF rel1 a1]
  show ?thesis
  proof (cases "holes_of (bottom hl1) xs")
    case Nil
    then have nofree: "xs = [] \<or> \<not> is_free (last xs)"
      by (metis holes_of.simps(2) is_free.elims(2) last_in_set no_holes_iff)
    show ?thesis
    proof (cases "holes_of (a + n) ys")
      case Nil2: Nil
      have none: "next_of hl1 None = None" using next_hole [OF rel1] Nil Nil2 a1 by simp
      have "check_merge_bottom a hl1 = (Ok a, hl1)"
        by (rule check_merge_bottom_id [OF cell f(8,10)]) (use f(2) in simp)
      moreover have "check_merge_top a hl1 = (Ok (), hl1)"
        by (rule check_merge_top_id) (use f rel1 cell in \<open>auto simp: heap_rel_def\<close>)
      ultimately have run: "dealloc_hole a n hl = Some (Ok (), set_next None (Some a) hl1)"
        using none by (simp add: dealloc_hole_def hl1_def [symmetric] cursor_def hole_next_of bind_act_def Let_def)
      have "set_next (Some a) None (set_next None (Some a) hl1) = set_next None (Some a) hl1"
        using cell by (simp add: set_next_def write_hole_def fun_upd_idem)
      then have "heap_rel (set_next None (Some a) hl1) (xs @ [Free n] @ ys)"
        using link_rel [OF rel1 a1, of None None] cell Nil none by simp
      moreover have "merge_right n ys = Free n # ys"
        using Nil2 by (cases ys; cases "hd ys") (auto simp: merge_right_def)
      ultimately show ?thesis using run nofree b by (auto simp: free_tile_def)
    next
      case (Cons h hs)
      obtain c m where h: "h = (c, m)" by (cases h)
      have nx: "next_of hl1 None = Some c" using next_hole [OF rel1] Nil Cons h a1 by simp
      from try_insert_back_run [OF rel1 a1 cell Nil Cons [unfolded h]] obtain hl2 where
        hl2: "try_insert_back a \<lparr>cur_prev = None, cur_hole = c\<rparr> hl1 = (Ok (Some \<lparr>cur_prev = None, cur_hole = a\<rparr>), hl2)"
        "heap_rel hl2 (xs @ [Free n] @ ys)" "bottom hl2 = bottom hl1" by blast
      have a2: "a = bottom hl2 + tlen xs" using a1 hl2(3) by simp
      from merge_one [of hl2 xs n ys, OF _ a2 co(2)] hl2(2) obtain hl3 where
        hl3: "merge_next_n 1 a hl2 = (Ok (), hl3)" "heap_rel hl3 (xs @ merge_right n ys)" "bottom hl3 = bottom hl2" by auto
      then have "dealloc_hole a n hl = Some (Ok (), hl3)"
        using nx hl2(1) by (simp add: dealloc_hole_def hl1_def [symmetric] cursor_def hole_next_of)
      then show ?thesis using hl3 hl2(3) b nofree by (auto simp: free_tile_def)
    qed
  next
    case (Cons h hs)
    obtain c m where h: "h = (c, m)" by (cases h)
    from holes_first [OF Cons [unfolded h]] obtain us vs where
      u: "xs = us @ Free m # vs" "holes_of (bottom hl1) us = []" "c = bottom hl1 + tlen us" by blast
    have nx: "next_of hl1 None = Some c" using next_hole [of hl1 "[]" "xs @ Used n # ys"] rel1 Cons h by simp
    have "c < a" using holes_before [of c m "bottom hl1" xs] Cons h f(5) a1 by simp
    then have skip: "try_insert_back a \<lparr>cur_prev = None, cur_hole = c\<rparr> hl1 = (Ok None, hl1)"
      by (simp add: try_insert_back_def)
    have cur: "\<lparr>cur_prev = None, cur_hole = c\<rparr> = at_tile hl1 us" using u(2,3) by (simp add: at_tile_def)
    from insert_after_loop_run [OF rel1 [unfolded u(1)] a1 [unfolded u(1)] cell, folded u(1)] obtain us' m' vs' hl2 where
      l: "xs = us' @ Free m' # vs'" "holes_of (bottom hl1 + tlen us' + m') vs' = []"
        "insert_after_loop a (at_tile hl1 us) hl1 = Some (Ok (at_tile hl1 us'), hl2)"
        "heap_rel hl2 (xs @ [Free n] @ ys)" "bottom hl2 = bottom hl1" by blast
    let ?h = "bottom hl1 + tlen us'"
    have run: "dealloc_hole a n hl = Some (merge_next_n 2 ?h hl2)"
      using nx skip cur l(3)
      by (simp add: dealloc_hole_def hl1_def [symmetric] cursor_def hole_next_of at_tile_def)
    have h2: "?h = bottom hl2 + tlen us'" using l(5) by simp
    show ?thesis
    proof (cases "vs' = []")
      case True
      then obtain hl3 where hl3: "merge_next_n (Suc 1) ?h hl2 = merge_next_n 1 ?h hl3"
        "heap_rel hl3 (us' @ Free (m' + n) # ys)" "bottom hl3 = bottom hl2"
        using merge_touching [of hl2 us' m' n ys ?h 1] l(1,4) h2 by auto
      have h3: "?h = bottom hl3 + tlen us'" using h2 hl3(3) by simp
      from merge_one [OF hl3(2) h3 co(2)] obtain hl4 where
        hl4: "merge_next_n 1 ?h hl3 = (Ok (), hl4)" "heap_rel hl4 (us' @ merge_right (m' + n) ys)" "bottom hl4 = bottom hl3"
        by blast
      then have "dealloc_hole a n hl = Some (Ok (), hl4)" using run hl3(1) by (simp add: numeral_2_eq_2)
      then show ?thesis using hl4 hl3(3) l(1,5) b True by (auto simp: free_tile_def)
    next
      case False
      have used: "\<not> is_free (hd vs')" "\<not> is_free (last vs')"
        using l(2) False unfolding no_holes_iff by (metis is_free.elims(2) list.set_sel(1) last_in_set)+
      have rel2: "heap_rel hl2 (us' @ Free m' # vs' @ Free n # ys)" using l(1,4) by simp
      have "holes_of (?h + m') (vs' @ Free n # ys) = (a, n) # holes_of (a + n) ys"
        using l(1,2) a1 by (simp add: add.assoc)
      then have step: "merge_next_n (Suc 1) ?h hl2 = merge_next_n 1 a hl2"
        using merge_apart [OF rel2 h2, of 1] used False by simp
      have a2: "a = bottom hl2 + tlen xs" using a1 l(5) by simp
      from merge_one [of hl2 xs n ys, OF _ a2 co(2)] l(4) obtain hl3 where
        hl3: "merge_next_n 1 a hl2 = (Ok (), hl3)" "heap_rel hl3 (xs @ merge_right n ys)" "bottom hl3 = bottom hl2" by auto
      then have "dealloc_hole a n hl = Some (Ok (), hl3)" using run step by (simp add: numeral_2_eq_2)
      moreover have "\<not> (xs \<noteq> [] \<and> is_free (last xs))" using l(1) False used(2) by simp
      ultimately show ?thesis using hl3 l(5) b by (auto simp: free_tile_def)
    qed
  qed
qed

subsection \<open>Blocks\<close>

fun used_of :: "nat \<Rightarrow> tile list \<Rightarrow> (nat \<times> nat) list" where
  "used_of a [] = []"
| "used_of a (Used n # ts) = (a, n) # used_of (a + n) ts"
| "used_of a (Free n # ts) = used_of (a + n) ts"

definition used_sum :: "tile list \<Rightarrow> nat" where
  "used_sum ts = sum_list (map (\<lambda>t. if is_free t then 0 else tsize t) ts)"

lemma used_of_append [simp]: "used_of a (xs @ ys) = used_of a xs @ used_of (a + tlen xs) ys"
  by (induction a xs rule: used_of.induct) (simp_all add: add.assoc)

lemma used_sum_simps [simp]:
  "used_sum [] = 0" "used_sum (Used n # ts) = n + used_sum ts" "used_sum (Free n # ts) = used_sum ts"
  "used_sum (xs @ ys) = used_sum xs + used_sum ys"
  by (simp_all add: used_sum_def)

lemma used_sum_le: "used_sum ts \<le> tlen ts"
proof (induction ts)
  case (Cons t ts)
  then show ?case by (cases t) auto
qed simp

lemma used_of_bounds: "(h, n) \<in> set (used_of a ts) \<Longrightarrow> a \<le> h \<and> h + n \<le> a + tlen ts"
  by (induction a ts rule: used_of.induct) fastforce+

lemma used_of_split: "(p, n) \<in> set (used_of a ts) \<Longrightarrow> \<exists>xs ys. ts = xs @ Used n # ys \<and> p = a + tlen xs"
proof (induction a ts rule: used_of.induct)
  case (2 a m ts)
  show ?case
  proof (cases "(p, n) = (a, m)")
    case True
    then show ?thesis by (intro exI [of _ "[]"] exI [of _ ts]) simp
  next
    case False
    then obtain xs ys where "ts = xs @ Used n # ys" "p = a + m + tlen xs" using 2 by auto
    then show ?thesis by (intro exI [of _ "Used m # xs"] exI [of _ ys]) simp
  qed
next
  case (3 a m ts)
  then obtain xs ys where "ts = xs @ Used n # ys" "p = a + m + tlen xs" by auto
  then show ?case by (intro exI [of _ "Free m # xs"] exI [of _ ys]) simp
qed simp

lemma split_tile_used:
  assumes "place a l \<ge> a" and "fits a n l"
  shows "used_of a (split_tile a n l) = [(place a l, layout_size l)]" "used_sum (split_tile a n l) = layout_size l"
  using assms by (auto simp: split_tile_def)

lemma merge_right_used:
  "tlen (merge_right n ys) = n + tlen ys" "used_of a (merge_right n ys) = used_of (a + n) ys"
  "used_sum (merge_right n ys) = used_sum ys"
  by (auto simp: merge_right_def add.assoc split: list.split tile.split)

lemma free_tile_used:
  "tlen (free_tile xs n ys) = tlen xs + n + tlen ys"
  "used_of a (free_tile xs n ys) = used_of a xs @ used_of (a + tlen xs + n) ys"
  "used_sum (free_tile xs n ys) = used_sum xs + used_sum ys"
proof -
  have "xs = butlast xs @ [Free (tsize (last xs))]" if "xs \<noteq> []" "is_free (last xs)"
    using that by (metis append_butlast_last_id is_free.elims(2) tsize.simps(1))
  then have l: "xs \<noteq> [] \<and> is_free (last xs) \<Longrightarrow> tlen xs = tlen (butlast xs) + tsize (last xs) \<and>
      used_of a xs = used_of a (butlast xs) \<and> used_sum xs = used_sum (butlast xs)"
    by (metis add.right_neutral append_Nil2 tlen_simps(1,2,3) tsize.simps(1) used_of.simps(1,3) used_of_append
        used_sum_simps(1,3,4))
  show "tlen (free_tile xs n ys) = tlen xs + n + tlen ys"
    "used_of a (free_tile xs n ys) = used_of a xs @ used_of (a + tlen xs + n) ys"
    "used_sum (free_tile xs n ys) = used_sum xs + used_sum ys"
    using l by (auto simp: free_tile_def merge_right_used add.assoc)
qed

lemma coalesced_merge_right: "coalesced ys \<Longrightarrow> coalesced (merge_right n ys)"
proof (cases ys)
  case (Cons t ts)
  assume "coalesced ys"
  then show ?thesis using Cons by (cases t; cases ts) (auto simp: merge_right_def)
qed (simp add: merge_right_def)

lemma hd_merge_right: "is_free (hd (merge_right n ys))" "merge_right n ys \<noteq> []"
  by (auto simp: merge_right_def split: list.split tile.split)

lemma coalesced_free:
  assumes "coalesced (xs @ Used n # ys)"
  shows "coalesced (free_tile xs n ys)"
proof -
  have xs: "coalesced xs" and ys: "coalesced ys" using assms by (cases ys; auto simp: coalesced_append)+
  have "coalesced (butlast xs) \<and> (butlast xs \<noteq> [] \<longrightarrow> \<not> is_free (last (butlast xs)))" if "xs \<noteq> []" "is_free (last xs)"
  proof -
    have "coalesced (butlast xs @ [last xs])" using xs that(1) by simp
    then show ?thesis using that(2) by (simp add: coalesced_append)
  qed
  then show ?thesis
    using xs coalesced_merge_right [OF ys] hd_merge_right by (auto simp: free_tile_def coalesced_append)
qed

subsection \<open>Reachable heaps\<close>

definition aligned_size :: "Layout \<Rightarrow> nat" where
  "aligned_size l = (case align_layout l of Ok l' \<Rightarrow> layout_size l' | _ \<Rightarrow> 0)"

definition block :: "nat \<times> Layout \<Rightarrow> nat set" where
  "block b = {fst b..<fst b + aligned_size (snd b)}"

text \<open>The heap and the blocks handed out and not yet given back.\<close>

inductive heap_live :: "Heap \<Rightarrow> (nat \<times> Layout) list \<Rightarrow> bool" where
  init: "8 dvd addr \<Longrightarrow> 0 < addr \<Longrightarrow> 8 dvd sz \<Longrightarrow> addr + sz < 2 ^ 63 \<Longrightarrow> heap_init mem addr sz = Ok h \<Longrightarrow>
    heap_live h []"
| alloc: "heap_live h bs \<Longrightarrow> layout_valid l \<Longrightarrow> heap_alloc l h = Some (Ok p, h') \<Longrightarrow> heap_live h' ((p, l) # bs)"
| failed: "heap_live h bs \<Longrightarrow> layout_valid l \<Longrightarrow> heap_alloc l h = Some (Err e, h') \<Longrightarrow> heap_live h' bs"
| dealloc: "heap_live h (xs @ (p, l) # ys) \<Longrightarrow> heap_dealloc p l h = Some (r, h') \<Longrightarrow> heap_live h' (xs @ ys)"

definition sized :: "(nat \<times> Layout) list \<Rightarrow> (nat \<times> nat) multiset" where
  "sized bs = mset (map (\<lambda>(p, l). (p, aligned_size l)) bs)"

definition heap_inv :: "Heap \<Rightarrow> (nat \<times> Layout) list \<Rightarrow> tile list \<Rightarrow> bool" where
  "heap_inv h bs ts \<longleftrightarrow> heap_rel (holes h) ts \<and> coalesced ts \<and> used h = used_sum ts \<and>
     sized bs = mset (used_of (bottom (holes h)) ts) \<and>
     (\<forall>(p, l)\<in>set bs. layout_valid l \<and> layout_align l dvd p \<and> (\<exists>l'. align_layout l = Ok l'))"

lemma heap_init_rel:
  assumes "8 dvd addr" "0 < addr" "8 dvd sz" "addr + sz < 2 ^ 63"
  shows "heap_init mem addr sz = (if 16 \<le> sz
    then Ok \<lparr>used = 0, holes = \<lparr>first = \<lparr>hole_size = 0, hole_next = Some addr\<rparr>, bottom = addr, top = addr + sz,
        hmem = mem(addr := \<lparr>hole_size = sz, hole_next = None\<rparr>)\<rparr>\<rparr>
    else Panic)"
proof -
  have "align_up addr 8 = addr" using assms by (simp add: align_up_up up_id)
  moreover have "wadd addr sz = addr + sz" using assms by (simp add: wadd_def)
  moreover have "align_down_size sz 8 = Ok sz" using assms by (simp add: align_down_8)
  ultimately show ?thesis by (simp add: heap_init_def hole_list_new_def Let_def)
qed

lemma heap_init_inv:
  assumes "8 dvd addr" "0 < addr" "8 dvd sz" "addr + sz < 2 ^ 63" "heap_init mem addr sz = Ok h"
  shows "heap_inv h [] [Free sz]"
  using assms heap_init_rel [OF assms(1-4), of mem]
  by (auto simp: heap_inv_def heap_rel_def sized_def next_of_def hole_at_def split: if_splits)

lemma used_in_heap:
  assumes "heap_rel hl ts" and "layout_ok l"
  shows "used_sum ts + layout_size l < 2 ^ 64"
  using assms used_sum_le [of ts] by (auto simp: heap_rel_def layout_ok_def layout_valid_def)

text \<open>An allocation returns, never panics, succeeds exactly when a hole has room, and then adds a block.\<close>

lemma heap_alloc_step:
  assumes inv: "heap_inv h bs ts" and l: "layout_valid l"
  shows "(\<exists>p h' ts'. heap_alloc l h = Some (Ok p, h') \<and> heap_inv h' ((p, l) # bs) ts' \<and> tlen ts' = tlen ts \<and>
        bottom (holes h') = bottom (holes h)) \<or>
    (\<exists>e. heap_alloc l h = Some (Err e, h) \<and>
      (\<forall>l'. align_layout l = Ok l' \<longrightarrow> unfit (bottom (holes h)) ts l'))"
proof (cases "\<exists>l'. align_layout l = Ok l'")
  case False
  then have "align_layout l = err (AllocError (InvalidLayout (layout_size l) (layout_align l)))"
    using align_layout_cases [OF l] by blast
  then show ?thesis by (simp add: heap_alloc_def hole_list_alloc_def)
next
  case True
  then obtain l' where l': "align_layout l = Ok l'" "layout_ok l'" "layout_align l' = layout_align l"
    using align_layout_cases [OF l] by auto
  let ?b = "bottom (holes h)"
  have rel: "heap_rel (holes h) ts" and co: "coalesced ts" and us: "used h = used_sum ts"
    and bs: "sized bs = mset (used_of ?b ts)" using inv by (auto simp: heap_inv_def)
  from hole_list_alloc_refines [OF rel l'(1,2)] show ?thesis
  proof (elim disjE exE conjE, goal_cases)
    case (1 xs n ys hl')
    let ?a = "?b + tlen xs" and ?ts = "xs @ split_tile (?b + tlen xs) n l' @ ys"
    have node: "8 dvd ?a" "8 dvd n" using tile_node(4,6) [of "holes h" xs n ys] rel 1(1) by auto
    note p = place_facts [OF l'(2) node(1)]
    have u: "used_of ?a (split_tile ?a n l') = [(place ?a l', layout_size l')]" "used_sum (split_tile ?a n l') = layout_size l'"
      using split_tile_used [OF p(3) 1(3)] by simp_all
    have len: "tlen (split_tile ?a n l') = n" using split_tile_ok(2) [OF l'(2) node 1(3)] by simp
    let ?h = "h\<lparr>used := used_sum ts + layout_size l', holes := hl'\<rparr>"
    have run: "heap_alloc l h = Some (Ok (place ?a l'), ?h)"
      using 1(4) us used_in_heap [OF rel l'(2)] by (simp add: heap_alloc_def)
    have "heap_inv ?h ((place ?a l', l) # bs) ?ts"
      unfolding heap_inv_def
    proof (intro conjI)
      show "heap_rel (holes ?h) ?ts" using 1(6) by simp
      show "coalesced ?ts" using coalesced_split co 1(1) by simp
      show "used ?h = used_sum ?ts" using u(2) 1(1) by simp
      show "sized ((place ?a l', l) # bs) = mset (used_of (bottom (holes ?h)) ?ts)"
        using bs 1(1,5) u(1) len l'(1) by (simp add: sized_def aligned_size_def add.assoc)
      show "\<forall>(p, l)\<in>set ((place ?a l', l) # bs). layout_valid l \<and> layout_align l dvd p \<and> (\<exists>l'. align_layout l = Ok l')"
        using inv l l'(1,3) p(2) by (auto simp: heap_inv_def)
    qed
    moreover have "tlen ?ts = tlen ts" using 1(1) len by simp
    ultimately show ?thesis using run 1(5) by (intro disjI1) auto
  next
    case (2 e)
    then show ?thesis using l'(1) by (simp add: heap_alloc_def)
  qed
qed

text \<open>Giving back a block returns \<open>Ok\<close>; the other blocks stay.\<close>

lemma heap_dealloc_step:
  assumes inv: "heap_inv h (xs @ (p, l) # ys) ts"
  shows "\<exists>h' ts'. heap_dealloc p l h = Some (Ok (), h') \<and> heap_inv h' (xs @ ys) ts' \<and> tlen ts' = tlen ts \<and>
    bottom (holes h') = bottom (holes h)"
proof -
  let ?b = "bottom (holes h)"
  obtain l' where l': "align_layout l = Ok l'" using inv by (auto simp: heap_inv_def)
  have rel: "heap_rel (holes h) ts" and co: "coalesced ts" and us: "used h = used_sum ts"
    and bs: "sized (xs @ (p, l) # ys) = mset (used_of ?b ts)" using inv by (auto simp: heap_inv_def)
  have "(p, layout_size l') \<in># sized (xs @ (p, l) # ys)" using l' by (simp add: sized_def aligned_size_def)
  then have "(p, layout_size l') \<in> set (used_of ?b ts)" by (simp add: bs)
  then obtain vs ws where ts: "ts = vs @ Used (layout_size l') # ws" "p = ?b + tlen vs"
    using used_of_split by blast
  have "coalesced vs" "coalesced ws" using co ts(1) by (cases ws; auto simp: coalesced_append)+
  from dealloc_hole_refines [OF rel [unfolded ts(1)] ts(2) this] obtain hl' where
    hl': "dealloc_hole p (layout_size l') (holes h) = Some (Ok (), hl')"
      "heap_rel hl' (free_tile vs (layout_size l') ws)" "bottom hl' = ?b" by blast
  let ?h = "h\<lparr>used := used_sum ts - layout_size l', holes := hl'\<rparr>" and ?ts = "free_tile vs (layout_size l') ws"
  have run: "heap_dealloc p l h = Some (Ok (), ?h)"
    using l' hl'(1) us ts(1) by (simp add: heap_dealloc_def hole_list_dealloc_def)
  have "heap_inv ?h (xs @ ys) ?ts"
    unfolding heap_inv_def
  proof (intro conjI)
    show "heap_rel (holes ?h) ?ts" using hl'(2) by simp
    show "coalesced ?ts" using coalesced_free co ts(1) by simp
    show "used ?h = used_sum ?ts" using ts(1) by (simp add: free_tile_used)
    have "add_mset (p, layout_size l') (sized (xs @ ys)) = add_mset (p, layout_size l') (mset (used_of ?b ?ts))"
      using bs ts l' by (simp add: sized_def aligned_size_def free_tile_used add.assoc)
    then show "sized (xs @ ys) = mset (used_of (bottom (holes ?h)) ?ts)" using hl'(3) by simp
    show "\<forall>(p, l)\<in>set (xs @ ys). layout_valid l \<and> layout_align l dvd p \<and> (\<exists>l'. align_layout l = Ok l')"
      using inv by (auto simp: heap_inv_def)
  qed
  moreover have "tlen ?ts = tlen ts" using ts(1) by (simp add: free_tile_used)
  ultimately show ?thesis using run hl'(3) by (intro exI [of _ ?h] exI [of _ ?ts]) simp
qed

lemma heap_live_inv: "heap_live h bs \<Longrightarrow> \<exists>ts. heap_inv h bs ts"
proof (induction rule: heap_live.induct)
  case (init addr sz mem h)
  then show ?case using heap_init_inv by blast
next
  case (alloc h bs l p h')
  then obtain ts where "heap_inv h bs ts" by blast
  from heap_alloc_step [OF this alloc(2)] alloc(3) show ?case by auto
next
  case (failed h bs l e h')
  then obtain ts where "heap_inv h bs ts" by blast
  from heap_alloc_step [OF this failed(2)] failed(3) show ?case using \<open>heap_inv h bs ts\<close> by auto
next
  case (dealloc h xs p l ys r h')
  then obtain ts where "heap_inv h (xs @ (p, l) # ys) ts" by blast
  from heap_dealloc_step [OF this] dealloc(2) show ?case by auto
qed

text \<open>Blocks at different places of the tiling are disjoint, also from the holes.\<close>

lemma used_disjoint:
  assumes "mset (used_of a ts) = add_mset (p, n) (add_mset (q, m) M)" and "tiles_ok ts"
  shows "{p..<p + n} \<inter> {q..<q + m} = {}"
proof -
  have "(p, n) \<in># mset (used_of a ts)" using assms(1) by simp
  then obtain xs ys where ts: "ts = xs @ Used n # ys" "p = a + tlen xs" using used_of_split [of p n a ts] by auto
  then have "mset (used_of a xs) + mset (used_of (p + n) ys) = add_mset (q, m) M"
    using assms(1) by (simp add: add.assoc)
  then have "(q, m) \<in># mset (used_of a xs) + mset (used_of (p + n) ys)" by simp
  then show ?thesis
    using used_of_bounds [of q m a xs] used_of_bounds [of q m "p + n" ys] ts(2) by (auto simp: disjoint_iff)
qed

lemma used_hole_disjoint:
  assumes "(p, n) \<in> set (used_of a ts)" and "(h, m) \<in> set (holes_of a ts)"
  shows "{p..<p + n} \<inter> {h..<h + m} = {}"
proof -
  obtain xs ys where ts: "ts = xs @ Used n # ys" "p = a + tlen xs" using used_of_split [OF assms(1)] by blast
  then have "(h, m) \<in> set (holes_of a xs) \<or> (h, m) \<in> set (holes_of (p + n) ys)"
    using assms(2) by (auto simp: add.assoc)
  then show ?thesis
    using holes_of_bounds [of h m a xs] holes_of_bounds [of h m "p + n" ys] ts(2) by (auto simp: disjoint_iff)
qed

lemma all_free: "coalesced ts \<Longrightarrow> used_of a ts = [] \<Longrightarrow> ts = [] \<or> (\<exists>n. ts = [Free n])"
proof (cases ts)
  case (Cons t us)
  assume co: "coalesced ts" and none: "used_of a ts = []"
  then obtain n where t: "t = Free n" using Cons by (cases t) auto
  then show ?thesis using co none Cons by (cases us; cases "hd us") auto
qed simp

subsection \<open>The contract of the heap\<close>

text \<open>What the collections of the kernel rely on: a block that was handed out can be given back, and the
  other blocks stay as they are.\<close>

locale block_heap =
  fixes inv :: "'h \<Rightarrow> (nat \<times> Layout) list \<Rightarrow> bool"
    and dealloc :: "nat \<Rightarrow> Layout \<Rightarrow> 'h \<Rightarrow> (unit outcome \<times> 'h) option"
  assumes dealloc_ok: "inv h (xs @ (p, l) # ys) \<Longrightarrow>
    \<exists>h'. dealloc p l h = Some (Ok (), h') \<and> inv h' (xs @ ys)"
begin

text \<open>Dropping a list of blocks in order.\<close>

fun free_all :: "(nat \<times> Layout) list \<Rightarrow> 'h \<Rightarrow> (unit outcome \<times> 'h) option" where
  "free_all [] h = Some (Ok (), h)"
| "free_all ((p, l) # bs) h =
     (case dealloc p l h of
        Some (Ok _, h') \<Rightarrow> free_all bs h'
      | Some (r, h') \<Rightarrow> Some (r, h')
      | None \<Rightarrow> None)"

lemma free_all_ok: "inv h (bs @ cs) \<Longrightarrow> \<exists>h'. free_all bs h = Some (Ok (), h') \<and> inv h' cs"
proof (induction bs arbitrary: h)
  case (Cons b bs)
  obtain p l where b: "b = (p, l)" by (cases b)
  from dealloc_ok [of h "[]" p l "bs @ cs"] Cons.prems obtain h' where
    "dealloc p l h = Some (Ok (), h')" "inv h' (bs @ cs)" by (auto simp: b)
  then show ?case using Cons.IH by (simp add: b)
qed simp

end

interpretation kheap: block_heap "\<lambda>h bs. \<exists>ts. heap_inv h bs ts" heap_dealloc
proof unfold_locales
  fix h xs p l ys
  assume "\<exists>ts. heap_inv h (xs @ (p, l) # ys) ts"
  then show "\<exists>h'. heap_dealloc p l h = Some (Ok (), h') \<and> (\<exists>ts. heap_inv h' (xs @ ys) ts)"
    using heap_dealloc_step by blast
qed

subsection \<open>Properties\<close>

text \<open>A heap of four kilobytes for the witnesses.\<close>

definition demo_layout :: Layout where
  "demo_layout = \<lparr>layout_size = 20, layout_align = 64\<rparr>"

definition demo_heap :: Heap where
  "demo_heap = \<lparr>used = 0, holes = \<lparr>first = \<lparr>hole_size = 0, hole_next = Some 0x1010\<rparr>, bottom = 0x1010, top = 0x2010,
     hmem = (\<lambda>_. \<lparr>hole_size = 0, hole_next = None\<rparr>)(0x1010 := \<lparr>hole_size = 0x1000, hole_next = None\<rparr>)\<rparr>\<rparr>"

lemma demo_heap_init: "heap_init (\<lambda>_. \<lparr>hole_size = 0, hole_next = None\<rparr>) 0x1010 0x1000 = Ok demo_heap"
proof -
  have "(8 :: nat) dvd 0x1010" "(8 :: nat) dvd 0x1000" by simp_all
  then show ?thesis by (simp add: heap_init_rel demo_heap_def)
qed

lemma demo_heap_live: "heap_live demo_heap []"
  by (rule heap_live.init [OF _ _ _ _ demo_heap_init]) simp_all

lemma demo_layout_valid: "layout_valid demo_layout"
  unfolding layout_valid_def by (auto simp: demo_layout_def intro!: exI [of _ 6])

text \<open>C22: Blocks of the heap are safe. Whatever has been allocated and given back since the heap was set up,
  a block in use lies inside the heap, is aligned as requested and as large, overlaps no other block in
  use and no hole, and giving it back succeeds: the loop ends and no assertion fails.\<close>

theorem heap_blocks_safe:
  assumes "heap_live h (xs @ (p, l) # ys)"
  shows "block (p, l) \<subseteq> {bottom (holes h)..<top (holes h)} \<and> layout_align l dvd p \<and>
    layout_size l \<le> aligned_size l \<and>
    (\<forall>b\<in>set (xs @ ys). block (p, l) \<inter> block b = {}) \<and>
    (\<exists>hs. chain (holes h) None hs \<and> (\<forall>(a, n)\<in>set hs. block (p, l) \<inter> {a..<a + n} = {})) \<and>
    (\<exists>h'. heap_dealloc p l h = Some (Ok (), h'))"
proof -
  obtain ts where inv: "heap_inv h (xs @ (p, l) # ys) ts" using heap_live_inv [OF assms] by blast
  let ?b = "bottom (holes h)"
  have rel: "heap_rel (holes h) ts" and bs: "sized (xs @ (p, l) # ys) = mset (used_of ?b ts)"
    using inv by (auto simp: heap_inv_def)
  have lay: "layout_valid l" "layout_align l dvd p" "\<exists>l'. align_layout l = Ok l'" using inv by (auto simp: heap_inv_def)
  have size: "layout_size l \<le> aligned_size l" using align_layout_cases [OF lay(1)] lay(3) by (auto simp: aligned_size_def)
  have "(p, aligned_size l) \<in># sized (xs @ (p, l) # ys)" by (simp add: sized_def)
  then have mem: "(p, aligned_size l) \<in> set (used_of ?b ts)" by (simp add: bs)
  have "block (p, l) \<inter> block b = {}" if b: "b \<in> set (xs @ ys)" for b
  proof -
    obtain M where "mset (xs @ ys) = add_mset b M" using b by (metis mset_add set_mset_mset)
    then have "mset (used_of ?b ts) = add_mset (p, aligned_size l)
        (add_mset (fst b, aligned_size (snd b)) (image_mset (\<lambda>(p, l). (p, aligned_size l)) M))"
      using bs by (simp add: sized_def case_prod_unfold flip: image_mset_union)
    then show ?thesis using used_disjoint rel by (simp add: block_def heap_rel_def)
  qed
  moreover have "block (p, l) \<subseteq> {?b..<top (holes h)}"
    using used_of_bounds [OF mem] rel by (auto simp: block_def heap_rel_def)
  moreover have "chain (holes h) None (holes_of ?b ts)" using rel by (simp add: heap_rel_def)
  moreover have "\<forall>(a, n)\<in>set (holes_of ?b ts). block (p, l) \<inter> {a..<a + n} = {}"
    using used_hole_disjoint [OF mem] by (auto simp: block_def)
  ultimately show ?thesis using lay(2) size heap_dealloc_step [OF inv] by blast
qed

lemma demo_alloc_ok: "\<exists>p h. heap_live h [(p, demo_layout)]"
proof -
  have inv: "heap_inv demo_heap [] [Free 0x1000]"
    by (rule heap_init_inv [OF _ _ _ _ demo_heap_init]) simp_all
  obtain l' where l': "align_layout demo_layout = Ok l'" "layout_size l' < 28" "layout_align l' = 64"
    using align_layout_cases [OF demo_layout_valid] by (auto simp: demo_layout_def align_layout_def align_up_size_def
        align_down_8 min_size_def from_size_align_def is_power_of_two_def)
  have "\<not> unfit (bottom (holes demo_heap)) [Free 0x1000] l'"
    using l' by (simp add: demo_heap_def fits_def place_def up_def)
  then obtain p h' where "heap_alloc demo_layout demo_heap = Some (Ok p, h')"
    using heap_alloc_step [OF inv demo_layout_valid] l'(1) by blast
  then show ?thesis using heap_live.alloc [OF demo_heap_live demo_layout_valid] by blast
qed

theorem heap_blocks_safe_witness:
  "\<exists>p h. heap_live h [(p, demo_layout)] \<and> 64 dvd p \<and> (\<exists>h'. heap_dealloc p demo_layout h = Some (Ok (), h'))"
proof -
  obtain p h where p: "heap_live h [(p, demo_layout)]" using demo_alloc_ok by blast
  then show ?thesis using heap_blocks_safe [of h "[]" p demo_layout "[]"] by (auto simp: demo_layout_def)
qed

text \<open>C23: An allocation ends for every layout, never panics, and is first fit: it fails only when no hole of
  the list has room for the aligned block (counting that what is left of a hole must be empty or large
  enough for a hole), and then it changes nothing.\<close>

theorem heap_alloc_total:
  assumes "heap_live h bs" and "layout_valid l"
  shows "(\<exists>p h'. heap_alloc l h = Some (Ok p, h') \<and> heap_live h' ((p, l) # bs)) \<or>
    (\<exists>e hs. heap_alloc l h = Some (Err e, h) \<and> chain (holes h) None hs \<and>
      (\<forall>l'. align_layout l = Ok l' \<longrightarrow> list_all (\<lambda>(a, n). \<not> fits a n l') hs))"
proof -
  obtain ts where inv: "heap_inv h bs ts" using heap_live_inv [OF assms(1)] by blast
  have "chain (holes h) None (holes_of (bottom (holes h)) ts)" using inv by (simp add: heap_inv_def heap_rel_def)
  then show ?thesis
    using heap_alloc_step [OF inv assms(2)] heap_live.alloc [OF assms] unfolding unfit_def by blast
qed

theorem heap_alloc_total_witness: "\<exists>r h'. heap_alloc demo_layout demo_heap = Some (r, h') \<and> r \<noteq> Panic"
  using heap_alloc_total [OF demo_heap_live demo_layout_valid] by auto

text \<open>C24: No memory is lost to fragmentation. When every block has been given back, in whatever order the
  blocks were allocated and freed before, the heap is one hole from its bottom to its top and the count
  of used bytes is zero.\<close>

theorem heap_all_freed:
  assumes "heap_live h bs"
  shows "\<exists>h'. kheap.free_all bs h = Some (Ok (), h') \<and> used h' = 0 \<and>
    (bottom (holes h') < top (holes h') \<longrightarrow>
      chain (holes h') None [(bottom (holes h'), top (holes h') - bottom (holes h'))])"
proof -
  obtain h' where h': "kheap.free_all bs h = Some (Ok (), h')" "\<exists>ts. heap_inv h' [] ts"
    using kheap.free_all_ok [of h bs "[]"] heap_live_inv [OF assms] by auto
  then obtain ts where inv: "heap_inv h' [] ts" by blast
  have "used_of (bottom (holes h')) ts = []" using inv by (simp add: heap_inv_def sized_def)
  then consider "ts = []" | n where "ts = [Free n]" using all_free inv by (auto simp: heap_inv_def)
  then have "used h' = 0 \<and> (bottom (holes h') < top (holes h') \<longrightarrow>
      chain (holes h') None [(bottom (holes h'), top (holes h') - bottom (holes h'))])"
    using inv by cases (auto simp: heap_inv_def heap_rel_def)
  then show ?thesis using h'(1) by blast
qed

theorem heap_all_freed_witness:
  "\<exists>p h h'. heap_live h [(p, demo_layout)] \<and> kheap.free_all [(p, demo_layout)] h = Some (Ok (), h') \<and> used h' = 0"
proof -
  obtain p h where "heap_live h [(p, demo_layout)]" using demo_alloc_ok by blast
  then show ?thesis using heap_all_freed by blast
qed

end
