(* ===== verification/Path.thy ===== *)
theory Path
  imports Rust_Prelude
begin

text \<open>
  File-system paths, kernel/src/fs/path.rs. A path is its UTF-8 string; the separator, the
  dot names and the root are ASCII, so splitting bytes and splitting characters agree. The
  reference semantics is \<open>walk\<close>: following names from a directory, where \<open>.\<close> stays and \<open>..\<close>
  goes up and stops at the root.
\<close>

type_synonym path = string

abbreviation SEPARATOR :: char where "SEPARATOR \<equiv> CHR ''/''"
abbreviation ROOT :: path where "ROOT \<equiv> ''/''"
abbreviation CURRENT_DIR :: string where "CURRENT_DIR \<equiv> ''.''"
abbreviation PARENT_DIR :: string where "PARENT_DIR \<equiv> ''..''"

subsection \<open>String operations of the standard library\<close>

text \<open>\<open>str::split\<close> on a character and \<open>[&str]::join\<close>.\<close>

fun split_on :: "char \<Rightarrow> string \<Rightarrow> string list" where
  "split_on c [] = [[]]"
| "split_on c (x # xs) =
     (if x = c then [] # split_on c xs
      else (case split_on c xs of [] \<Rightarrow> [[x]] | y # ys \<Rightarrow> (x # y) # ys))"

fun join_with :: "string \<Rightarrow> string list \<Rightarrow> string" where
  "join_with sep [] = []"
| "join_with sep [x] = x"
| "join_with sep (x # y # ys) = x @ sep @ join_with sep (y # ys)"

definition strip_prefix :: "string \<Rightarrow> string \<Rightarrow> string option" where
  "strip_prefix p s = (if take (length p) s = p then Some (drop (length p) s) else None)"

subsection \<open>Operations\<close>

definition is_abs :: "path \<Rightarrow> bool" where
  "is_abs p \<longleftrightarrow> take 1 p = ROOT"

definition root :: path where
  "root = ROOT"

text \<open>The closure folded over the components by \<open>normalize\<close>.\<close>

definition norm_step :: "bool \<Rightarrow> string list \<Rightarrow> string \<Rightarrow> string list" where
  "norm_step ab acc part =
     (if part = PARENT_DIR then
        (if acc \<noteq> [] \<and> last acc \<noteq> PARENT_DIR then butlast acc
         else if ab then acc
         else acc @ [part])
      else acc @ [part])"

definition norm_parts :: "path \<Rightarrow> string list" where
  "norm_parts p =
     foldl (norm_step (is_abs p)) []
       (filter (\<lambda>s. s \<noteq> [] \<and> s \<noteq> CURRENT_DIR) (split_on SEPARATOR p))"

definition normalize :: "path \<Rightarrow> path" where
  "normalize p =
     (if is_abs p then ROOT @ join_with [SEPARATOR] (norm_parts p)
      else join_with [SEPARATOR] (norm_parts p))"

definition ends_with_sep :: "path \<Rightarrow> bool" where
  "ends_with_sep p \<longleftrightarrow> p \<noteq> [] \<and> last p = SEPARATOR"

definition path_join :: "path \<Rightarrow> string \<Rightarrow> path" where
  "path_join p name = normalize ((if ends_with_sep p then p else p @ [SEPARATOR]) @ name)"

definition names :: "path \<Rightarrow> string list" where
  "names p = filter (\<lambda>s. s \<noteq> []) (split_on SEPARATOR p)"

definition path_name :: "path \<Rightarrow> string" where
  "path_name p = (if names p = [] then ROOT else last (names p))"

definition parent :: "path \<Rightarrow> path" where
  "parent p =
     (let normalized = normalize p in
      if normalized = ROOT then normalized
      else let parts = butlast (names normalized) in
        if is_abs p then
          (let par = ROOT @ join_with ROOT parts in if par = [] then root else par)
        else
          (let par = join_with ROOT parts in if par = [] then CURRENT_DIR else par))"

definition path_diff :: "path \<Rightarrow> path \<Rightarrow> path" where
  "path_diff p q =
     (case strip_prefix q p of
        Some st \<Rightarrow> (case strip_prefix [SEPARATOR] st of Some st' \<Rightarrow> st' | None \<Rightarrow> st)
      | None \<Rightarrow>
          (case strip_prefix p q of
             Some st \<Rightarrow> (case strip_prefix [SEPARATOR] st of Some st' \<Rightarrow> st' | None \<Rightarrow> st)
           | None \<Rightarrow> p))"

subsection \<open>Splitting and joining\<close>

lemma split_on_nonempty [simp]: "split_on c s \<noteq> []"
  by (induction s) (auto split: list.splits)

lemma split_on_no_sep: "x \<in> set (split_on c s) \<Longrightarrow> c \<notin> set x"
  by (induction s arbitrary: x) (auto split: list.splits if_splits)

lemma split_on_plain: "c \<notin> set s \<Longrightarrow> split_on c s = [s]"
  by (induction s) auto

lemma split_on_append_sep: "split_on c (s @ c # t) = split_on c s @ split_on c t"
  by (induction s) (auto split: list.splits)

lemma split_on_append_plain:
  "c \<notin> set s \<Longrightarrow> split_on c (s @ c # t) = s # split_on c t"
  by (simp add: split_on_append_sep split_on_plain)

text \<open>A component: a nonempty name without separator.\<close>

definition component :: "string \<Rightarrow> bool" where
  "component s \<longleftrightarrow> s \<noteq> [] \<and> SEPARATOR \<notin> set s"

lemma names_component: "x \<in> set (names p) \<Longrightarrow> component x"
  using split_on_no_sep by (auto simp: names_def component_def)

lemma names_append_sep: "names (p @ SEPARATOR # q) = names p @ names q"
  by (simp add: names_def split_on_append_sep)

lemma names_Nil: "names [] = []"
  by (simp add: names_def)

lemma names_root [simp]: "names ROOT = []"
  by (simp add: names_def)

lemma names_sep_Cons: "names (SEPARATOR # q) = names q"
  using names_append_sep [of "[]" q] by (simp add: names_def)

lemma names_component_single: "component s \<Longrightarrow> names s = [s]"
  by (simp add: names_def component_def split_on_plain)

lemma names_join: "\<forall>x\<in>set xs. component x \<Longrightarrow> names (join_with [SEPARATOR] xs) = xs"
proof (induction "[SEPARATOR]" xs rule: join_with.induct)
  case 1
  then show ?case by (simp add: names_def)
next
  case (2 x)
  then show ?case by (simp add: names_component_single)
next
  case (3 x y ys)
  then show ?case by (simp add: names_append_sep names_component_single)
qed

lemma is_abs_Cons: "is_abs (x # xs) \<longleftrightarrow> x = SEPARATOR"
  by (simp add: is_abs_def)

lemma is_abs_append: "p \<noteq> [] \<Longrightarrow> is_abs (p @ q) = is_abs p"
  by (cases p) (simp_all add: is_abs_Cons)

lemma is_abs_join: "\<forall>x\<in>set xs. component x \<Longrightarrow> \<not> is_abs (join_with [SEPARATOR] xs)"
proof (induction "[SEPARATOR]" xs rule: join_with.induct)
  case 1
  then show ?case by (simp add: is_abs_def)
next
  case (2 x)
  then show ?case by (cases x) (auto simp: component_def is_abs_Cons)
next
  case (3 x y ys)
  then show ?case by (cases x) (auto simp: component_def is_abs_Cons)
qed

lemma join_with_empty: "join_with [SEPARATOR] xs = [] \<Longrightarrow> \<forall>x\<in>set xs. component x \<Longrightarrow> xs = []"
  by (cases "([SEPARATOR], xs)" rule: join_with.cases) (auto simp: component_def)

subsection \<open>Normal paths\<close>

lemma norm_parts_names:
  "norm_parts p = foldl (norm_step (is_abs p)) [] (filter (\<lambda>s. s \<noteq> CURRENT_DIR) (names p))"
  by (simp add: norm_parts_def names_def)

text \<open>The component lists of normal paths: no \<open>.\<close>, and \<open>..\<close> only in front, and only if the
  path is relative.\<close>

definition normal_parts :: "bool \<Rightarrow> string list \<Rightarrow> bool" where
  "normal_parts ab xs \<longleftrightarrow> (\<forall>x\<in>set xs. component x \<and> x \<noteq> CURRENT_DIR) \<and>
     (\<exists>n ys. xs = replicate n PARENT_DIR @ ys \<and> PARENT_DIR \<notin> set ys \<and> (ab \<longrightarrow> n = 0))"

lemma normal_partsI:
  "xs = replicate n PARENT_DIR @ ys \<Longrightarrow> PARENT_DIR \<notin> set ys \<Longrightarrow> ab \<longrightarrow> n = 0 \<Longrightarrow>
   \<forall>x\<in>set xs. component x \<and> x \<noteq> CURRENT_DIR \<Longrightarrow> normal_parts ab xs"
  unfolding normal_parts_def by (intro conjI exI [of _ n] exI [of _ ys])

lemma norm_step_normal:
  assumes "normal_parts ab acc" and "component part" and "part \<noteq> CURRENT_DIR"
  shows "normal_parts ab (norm_step ab acc part)"
proof -
  from assms(1) obtain n ys where acc: "acc = replicate n PARENT_DIR @ ys"
    "PARENT_DIR \<notin> set ys" "ab \<longrightarrow> n = 0" "\<forall>x\<in>set acc. component x \<and> x \<noteq> CURRENT_DIR"
    by (auto simp: normal_parts_def)
  show ?thesis
  proof (cases "part = PARENT_DIR")
    case False
    then have eq: "norm_step ab acc part = replicate n PARENT_DIR @ (ys @ [part])"
      using acc(1) by (simp add: norm_step_def)
    have no_up: "PARENT_DIR \<notin> set (ys @ [part])" using False acc(2) by auto
    have "\<forall>x\<in>set (replicate n PARENT_DIR @ (ys @ [part])). component x \<and> x \<noteq> CURRENT_DIR"
      using acc(1,4) assms(2,3) by auto
    then show ?thesis using normal_partsI [OF eq no_up acc(3)] unfolding eq by blast
  next
    case up: True
    show ?thesis
    proof (cases ys rule: rev_cases)
      case Nil
      have "norm_step ab acc part = (if ab then [] else replicate (Suc n) PARENT_DIR)"
        using up acc Nil by (auto simp: norm_step_def replicate_append_same)
      moreover have "normal_parts ab (if ab then [] else replicate (Suc n) PARENT_DIR)"
        unfolding normal_parts_def
        by (auto simp: component_def intro!: exI [of _ "Suc n"] exI [of _ "[]"])
      ultimately show ?thesis by simp
    next
      case (snoc zs z)
      then have "norm_step ab acc part = replicate n PARENT_DIR @ zs"
        using up acc by (auto simp: norm_step_def butlast_append)
      then show ?thesis using acc snoc unfolding normal_parts_def by auto
    qed
  qed
qed

lemma foldl_norm_normal:
  "normal_parts ab acc \<Longrightarrow> \<forall>x\<in>set xs. component x \<and> x \<noteq> CURRENT_DIR \<Longrightarrow>
   normal_parts ab (foldl (norm_step ab) acc xs)"
  by (induction xs arbitrary: acc) (auto simp: norm_step_normal)

lemma norm_parts_normal: "normal_parts (is_abs p) (norm_parts p)"
  unfolding norm_parts_names
  by (rule foldl_norm_normal) (auto simp: normal_parts_def dest: names_component)

lemma normal_fixpoint:
  "normal_parts ab xs \<Longrightarrow> foldl (norm_step ab) [] xs = xs"
proof -
  assume "normal_parts ab xs"
  then obtain n ys where xs: "xs = replicate n PARENT_DIR @ ys" "PARENT_DIR \<notin> set ys"
    "ab \<longrightarrow> n = 0" by (auto simp: normal_parts_def)
  have ups: "foldl (norm_step ab) (replicate k PARENT_DIR) (replicate n PARENT_DIR) =
      replicate (k + n) PARENT_DIR" if "\<not> ab \<or> n = 0" for k n
    using that
  proof (induction n arbitrary: k)
    case (Suc n)
    have "norm_step ab (replicate k PARENT_DIR) PARENT_DIR = replicate (Suc k) PARENT_DIR"
      using Suc.prems by (cases k) (auto simp: norm_step_def replicate_append_same)
    then show ?case using Suc.IH [of "Suc k"] Suc.prems by simp
  qed simp
  have down: "PARENT_DIR \<notin> set ys \<Longrightarrow> foldl (norm_step ab) acc ys = acc @ ys" for acc ys
    by (induction ys arbitrary: acc) (auto simp: norm_step_def)
  show ?thesis using xs ups [of n 0] down by auto
qed

lemma normal_parts_components: "normal_parts ab xs \<Longrightarrow> \<forall>x\<in>set xs. component x"
  by (simp add: normal_parts_def)

lemma names_normalize: "names (normalize p) = norm_parts p"
  using names_join [OF normal_parts_components [OF norm_parts_normal]]
  by (simp add: normalize_def names_sep_Cons)

lemma is_abs_normalize: "is_abs (normalize p) = is_abs p"
  using is_abs_join [OF normal_parts_components [OF norm_parts_normal]]
  by (simp add: normalize_def is_abs_Cons)

lemma normalize_idempotent_aux: "normalize (normalize p) = normalize p"
proof -
  have parts: "norm_parts (normalize p) = norm_parts p"
    using norm_parts_normal [of p] normal_fixpoint [OF norm_parts_normal [of p]]
    by (simp add: norm_parts_names [of "normalize p"] names_normalize is_abs_normalize
        normal_parts_def)
  show ?thesis
    unfolding normalize_def [of "normalize p"] parts is_abs_normalize by (simp only: normalize_def)
qed

subsection \<open>The reference semantics\<close>

definition cd :: "string list \<Rightarrow> string \<Rightarrow> string list" where
  "cd dir name =
     (if name = CURRENT_DIR then dir else if name = PARENT_DIR then butlast dir else dir @ [name])"

definition walk :: "string list \<Rightarrow> string list \<Rightarrow> string list" where
  "walk dir ns = foldl cd dir ns"

lemma walk_append: "walk dir (xs @ ys) = walk (walk dir xs) ys"
  by (simp add: walk_def)

lemma foldl_norm_walk:
  "PARENT_DIR \<notin> set acc \<Longrightarrow>
   foldl (norm_step True) acc (filter (\<lambda>s. s \<noteq> CURRENT_DIR) xs) = walk acc xs"
proof (induction xs arbitrary: acc)
  case Nil
  then show ?case by (simp add: walk_def)
next
  case (Cons x xs)
  have "last acc \<noteq> PARENT_DIR" if "acc \<noteq> []" using last_in_set [OF that] Cons.prems by auto
  then have "x \<noteq> CURRENT_DIR \<Longrightarrow> norm_step True acc x = cd acc x"
    by (cases "acc = []") (auto simp: norm_step_def cd_def)
  moreover have "PARENT_DIR \<notin> set (cd acc x)"
    using Cons.prems by (auto simp: cd_def dest: in_set_butlastD)
  ultimately show ?case using Cons.IH [of "cd acc x"] Cons.prems
    by (auto simp: walk_def cd_def)
qed

lemma norm_parts_walk: "is_abs p \<Longrightarrow> norm_parts p = walk [] (names p)"
  using foldl_norm_walk [of "[]" "names p"] by (simp add: norm_parts_names)

lemma join_names:
  "is_abs p \<Longrightarrow> names (path_join p n) = walk (walk [] (names p)) (names n) \<and> is_abs (path_join p n)"
proof -
  assume ab: "is_abs p"
  let ?q = "(if ends_with_sep p then p else p @ [SEPARATOR]) @ n"
  have ne: "p \<noteq> []" using ab by (auto simp: is_abs_def)
  then have q: "is_abs ?q" using ab is_abs_append by simp
  have "names ?q = names p @ names n"
  proof (cases "ends_with_sep p")
    case True
    then have p: "p = butlast p @ [SEPARATOR]"
      by (metis append_butlast_last_id ends_with_sep_def)
    have "names p = names (butlast p)"
      using names_append_sep [of "butlast p" "[]"] p by (simp add: names_Nil)
    moreover have "names (p @ n) = names (butlast p) @ names n"
      by (subst p) (simp add: names_append_sep)
    ultimately show ?thesis using True by simp
  qed (simp add: names_append_sep)
  then show ?thesis using q norm_parts_walk [OF q]
    by (simp add: path_join_def names_normalize is_abs_normalize walk_append)
qed

lemma abs_normal_eq:
  "is_abs p \<Longrightarrow> normalize p = ROOT @ join_with [SEPARATOR] (walk [] (names p))"
  using norm_parts_walk [of p] by (simp add: normalize_def)

subsection \<open>Walking relative paths\<close>

lemma foldl_norm_rel_walk:
  "CURRENT_DIR \<notin> set acc \<Longrightarrow>
   walk dir (foldl (norm_step False) acc (filter (\<lambda>s. s \<noteq> CURRENT_DIR) xs)) = walk (walk dir acc) xs"
proof (induction xs arbitrary: acc)
  case Nil
  then show ?case by (simp add: walk_def)
next
  case (Cons x xs)
  have step: "walk dir (norm_step False acc x) = cd (walk dir acc) x" if "x \<noteq> CURRENT_DIR"
  proof (cases "x = PARENT_DIR \<and> acc \<noteq> [] \<and> last acc \<noteq> PARENT_DIR")
    case True
    then have "walk dir acc = cd (walk dir (butlast acc)) (last acc)"
      using walk_append [of dir "butlast acc" "[last acc]"] by (simp add: walk_def)
    moreover have "last acc \<noteq> CURRENT_DIR" using True Cons.prems last_in_set by metis
    ultimately show ?thesis using True by (simp add: norm_step_def cd_def)
  next
    case False
    then have "norm_step False acc x = acc @ [x]" by (auto simp: norm_step_def)
    then show ?thesis by (simp add: walk_append) (simp add: walk_def)
  qed
  have "CURRENT_DIR \<notin> set (norm_step False acc x)" if "x \<noteq> CURRENT_DIR"
    using Cons.prems that by (auto simp: norm_step_def dest: in_set_butlastD)
  then show ?case using Cons step by (auto simp: walk_def cd_def)
qed

lemma norm_parts_walk_rel: "\<not> is_abs p \<Longrightarrow> walk dir (norm_parts p) = walk dir (names p)"
  using foldl_norm_rel_walk [of "[]" dir "names p"] by (simp add: norm_parts_names walk_def)

lemma walk_normal: "is_abs p \<Longrightarrow> walk [] (names (normalize p)) = names (normalize p)"
  using norm_parts_walk [of "normalize p"] norm_parts_walk [of p]
  by (metis is_abs_normalize names_normalize normalize_idempotent_aux)

definition plain_name :: "string \<Rightarrow> bool" where
  "plain_name s \<longleftrightarrow> s \<noteq> CURRENT_DIR \<and> s \<noteq> PARENT_DIR"

lemma norm_parts_snoc:
  assumes "names p = ns @ [n]" and "plain_name n"
  shows "norm_parts p = foldl (norm_step (is_abs p)) [] (filter (\<lambda>s. s \<noteq> CURRENT_DIR) ns) @ [n]"
  using assms by (simp add: norm_parts_names plain_name_def norm_step_def)

lemma names_join_root: "\<forall>x\<in>set xs. component x \<Longrightarrow> names (ROOT @ join_with ROOT xs) = xs"
  using names_join [of xs] by (simp add: names_sep_Cons)

text \<open>The directory a path's \<open>parent\<close> names is the one reached before its last component.\<close>

lemma parent_walk:
  assumes ns: "names p = ns @ [n]" and n: "plain_name n" and dir: "is_abs p \<Longrightarrow> dir = []"
  shows "is_abs (parent p) = is_abs p \<and> walk dir (names (parent p)) = walk dir ns"
proof -
  let ?q = "foldl (norm_step (is_abs p)) [] (filter (\<lambda>s. s \<noteq> CURRENT_DIR) ns)"
  have np: "names (normalize p) = ?q @ [n]" by (simp add: names_normalize norm_parts_snoc [OF ns n])
  have q: "\<forall>x\<in>set ?q. component x"
    using names_component [of _ "normalize p"] np by (metis UnCI set_append)
  have nr: "normalize p \<noteq> ROOT" using np by auto
  show ?thesis
  proof (cases "is_abs p")
    case True
    then have "parent p = ROOT @ join_with ROOT ?q" using nr np by (simp add: parent_def Let_def)
    moreover have "?q = walk [] ns" using foldl_norm_walk [of "[]" ns] True by simp
    moreover have "walk [] (walk [] ns) = walk [] ns"
    proof -
      have "walk [] (names (normalize p)) = names (normalize p)" by (rule walk_normal [OF True])
      then have "walk (walk [] ?q) [n] = ?q @ [n]" unfolding np walk_append .
      then have "walk [] ?q @ [n] = ?q @ [n]" using n by (simp add: walk_def cd_def plain_name_def)
      then show ?thesis using \<open>?q = walk [] ns\<close> by simp
    qed
    ultimately show ?thesis using True dir names_join_root [OF q] by (simp add: is_abs_Cons)
  next
    case False
    have w: "walk dir ?q = walk dir ns"
      using foldl_norm_rel_walk [of "[]" dir ns] False by (simp add: walk_def)
    show ?thesis
    proof (cases "join_with ROOT ?q = []")
      case True
      then have "?q = []" using join_with_empty q by simp
      then have "parent p = CURRENT_DIR" using nr np False by (simp add: parent_def Let_def)
      then show ?thesis using w \<open>?q = []\<close> False
        by (simp add: walk_def is_abs_Cons names_component_single component_def cd_def)
    next
      case ne: False
      then have "parent p = join_with ROOT ?q" using nr np False by (simp add: parent_def Let_def)
      then show ?thesis using w names_join [OF q] is_abs_join [OF q] False by simp
    qed
  qed
qed

lemma parent_walk_empty:
  assumes "names p = []" and dir: "is_abs p \<Longrightarrow> dir = []"
  shows "is_abs (parent p) = is_abs p \<and> walk dir (names (parent p)) = dir"
proof -
  have np: "norm_parts p = []" using assms by (simp add: norm_parts_names)
  show ?thesis
  proof (cases "is_abs p")
    case True
    then show ?thesis using np dir by (simp add: parent_def normalize_def is_abs_Cons walk_def)
  next
    case False
    then show ?thesis using np
      by (simp add: parent_def normalize_def is_abs_Cons walk_def names_Nil names_component_single component_def cd_def)
  qed
qed

subsection \<open>Properties\<close>



text \<open>Normal form. The components of a normalized path have no \<open>.\<close> and no empty name,
  \<open>..\<close> occurs only in front, and in an absolute path not at all; normalizing again changes
  nothing.\<close>

theorem normalize_normal_form:
  "\<exists>n ys. names (normalize p) = replicate n PARENT_DIR @ ys \<and>
     set ys \<inter> {PARENT_DIR, CURRENT_DIR, []} = {} \<and> (if is_abs p then n = 0 else True) \<and>
     normalize (normalize p) = normalize p"
proof -
  from norm_parts_normal [of p] obtain n ys where
    "norm_parts p = replicate n PARENT_DIR @ ys" "PARENT_DIR \<notin> set ys" "is_abs p \<longrightarrow> n = 0"
    "\<forall>x\<in>set (norm_parts p). component x \<and> x \<noteq> CURRENT_DIR"
    unfolding normal_parts_def by blast
  then show ?thesis unfolding names_normalize normalize_idempotent_aux
    by (intro exI [of _ n] exI [of _ ys]) (auto simp: component_def)
qed

text \<open>\<open>join\<close> on an absolute path is walking on from the directory the path names, with
  the components of the joined string; the result is absolute.\<close>

theorem join_walks_on:
  assumes "is_abs p"
  shows "is_abs (path_join p n) \<and> names (path_join p n) = walk (names (normalize p)) (names n)"
  using join_names [OF assms, of n] assms by (simp add: names_normalize norm_parts_walk)

theorem join_walks_on_witness:
  "is_abs (path_join ''/a/b/'' ''../c'') \<and> names (path_join ''/a/b/'' ''../c'') = [''a'', ''c'']"
proof -
  have "walk (names (normalize ''/a/b/'')) (names ''../c'') = [''a'', ''c'']"
    by (simp add: walk_def names_def cd_def normalize_def norm_parts_def norm_step_def is_abs_def)
  then show ?thesis using join_walks_on [of "''/a/b/''" "''../c''"] by (simp add: is_abs_def)
qed

text \<open>\<open>parent\<close> undoes \<open>join\<close>: for an absolute path and a plain file name, the parent
  of the joined path is the normalized path, and its last name is the file name.\<close>

theorem parent_of_join:
  assumes "is_abs p" and "component n" and "n \<noteq> CURRENT_DIR" and "n \<noteq> PARENT_DIR"
  shows "parent (path_join p n) = normalize p \<and> path_name (path_join p n) = n"
proof -
  let ?q = "path_join p n"
  have q: "is_abs ?q" "names ?q = walk [] (names p) @ [n]"
    using join_names [OF assms(1), of n] assms
    by (simp_all add: names_component_single walk_def cd_def)
  have "normalize ?q = ?q" by (simp add: path_join_def normalize_idempotent_aux)
  moreover have "?q \<noteq> ROOT" using q(2) by auto
  ultimately show ?thesis
    using q abs_normal_eq [OF assms(1)] by (simp add: parent_def path_name_def Let_def)
qed

theorem parent_of_join_witness:
  "parent (path_join ''/dev'' ''tty'') = normalize ''/dev'' \<and> path_name (path_join ''/dev'' ''tty'') = ''tty''"
  by (rule parent_of_join) (simp_all add: is_abs_def component_def)

text \<open>\<open>parent\<close> loses relative paths that climb: the parent of \<open>..\<close> is reported as the
  current directory \<open>.\<close>, one level too deep, and the parent of \<open>../..\<close> as \<open>..\<close>.\<close>

theorem parent_of_climbing_path:
  "parent ''..'' = ''.'' \<and> parent ''../..'' = ''..'' \<and> path_join [] ''a'' = ''/a''"
  by (simp add: parent_def Let_def normalize_def norm_parts_def norm_step_def is_abs_def names_def
      path_join_def ends_with_sep_def)

end
