(* ===== verification/Fifo.thy ===== *)
theory Fifo
  imports Rust_Prelude
begin

text \<open>
  The ring buffer of kernel/src/util/fifo.rs. A buffer of \<open>SIZE\<close> cells and two cursors; one
  cell always stays empty, so that equal cursors mean an empty queue. The interface the
  clients rely on is the locale \<open>bounded_queue\<close>; \<open>fifo_queue\<close> interprets it on the ring.
\<close>

record 'a fifo =
  fifo_buf :: "'a list"
  fifo_size :: nat
  read_ptr :: nat
  write_ptr :: nat

subsection \<open>Operations\<close>

definition new_fifo :: "nat \<Rightarrow> 'a \<Rightarrow> 'a fifo" where
  "new_fifo n d = \<lparr>fifo_buf = replicate n d, fifo_size = n, read_ptr = 0, write_ptr = 0\<rparr>"

definition fifo_len :: "'a fifo \<Rightarrow> nat outcome" where
  "fifo_len f =
     and_then (usub (write_ptr f + fifo_size f) (read_ptr f)) (\<lambda>d. umod d (fifo_size f))"

definition is_full :: "'a fifo \<Rightarrow> bool outcome" where
  "is_full f = and_then (umod (write_ptr f + 1) (fifo_size f)) (\<lambda>n. Ok (n = read_ptr f))"

definition reset_ptr :: "'a fifo \<Rightarrow> 'a fifo" where
  "reset_ptr f = f\<lparr>read_ptr := 0, write_ptr := 0\<rparr>"

definition read_write_ptr :: "'a fifo \<Rightarrow> nat \<times> nat" where
  "read_write_ptr f = (read_ptr f, write_ptr f)"

text \<open>\<open>AtomicUsize::compare_exchange\<close> on a cell holding \<open>cur\<close>.\<close>

definition compare_exchange :: "nat \<Rightarrow> nat \<Rightarrow> nat \<Rightarrow> nat option" where
  "compare_exchange cur expected new = (if cur = expected then Some new else None)"

definition enqueue :: "'a \<Rightarrow> ('a fifo, unit) act" where
  "enqueue v f =
     (let r = read_ptr f; w = write_ptr f in
      case umod (w + 1) (fifo_size f) of
        Ok next_w \<Rightarrow>
          if next_w = r then (err BufferFull, f)
          else (case compare_exchange (write_ptr f) w next_w of
              None \<Rightarrow> (err Locked, f)
            | Some w' \<Rightarrow>
                if w < length (fifo_buf f)
                then (Ok (), f\<lparr>write_ptr := w', fifo_buf := (fifo_buf f)[w := v]\<rparr>)
                else (Panic, f\<lparr>write_ptr := w'\<rparr>))
      | Err e \<Rightarrow> (Err e, f)
      | Panic \<Rightarrow> (Panic, f))"

definition dequeue :: "('a fifo, 'a) act" where
  "dequeue f =
     (let r = read_ptr f; w = write_ptr f in
      case umod (r + 1) (fifo_size f) of
        Ok next_r \<Rightarrow>
          if r = w then (err BufferEmpty, f)
          else (case compare_exchange (read_ptr f) r next_r of
              None \<Rightarrow> (err Locked, f)
            | Some r' \<Rightarrow> (index (fifo_buf f) r, f\<lparr>read_ptr := r'\<rparr>))
      | Err e \<Rightarrow> (Err e, f)
      | Panic \<Rightarrow> (Panic, f))"

text \<open>\<open>while let Ok(x) = q.dequeue()\<close>: collects the elements until the first \<open>Err\<close>. The bound
  is the number of iterations allowed; \<open>drain_bound\<close> below shows that the ring's size is
  enough.\<close>

fun drain :: "nat \<Rightarrow> ('q, 'a) act \<Rightarrow> 'q \<Rightarrow> ('a list \<times> 'q) option" where
  "drain 0 deq q = None"
| "drain (Suc n) deq q =
     (case deq q of
        (Ok x, q') \<Rightarrow> map_option (\<lambda>(xs, q''). (x # xs, q'')) (drain n deq q')
      | (Err e, q') \<Rightarrow> Some ([], q')
      | (Panic, q') \<Rightarrow> None)"

subsection \<open>The interface of a bounded queue\<close>

locale bounded_queue =
  fixes enq :: "'a \<Rightarrow> ('q, unit) act"
    and deq :: "('q, 'a) act"
    and clear :: "'q \<Rightarrow> 'q"
    and contents :: "'q \<Rightarrow> 'a list"
    and room :: "'q \<Rightarrow> nat"
    and inv :: "'q \<Rightarrow> bool"
  assumes enq_ok: "inv q \<Longrightarrow> length (contents q) < room q \<Longrightarrow>
      \<exists>q'. enq x q = (Ok (), q') \<and> inv q' \<and> contents q' = contents q @ [x] \<and> room q' = room q"
    and enq_full: "inv q \<Longrightarrow> room q \<le> length (contents q) \<Longrightarrow> enq x q = (err BufferFull, q)"
    and deq_ok: "inv q \<Longrightarrow> contents q = x # xs \<Longrightarrow>
      \<exists>q'. deq q = (Ok x, q') \<and> inv q' \<and> contents q' = xs \<and> room q' = room q"
    and deq_empty: "inv q \<Longrightarrow> contents q = [] \<Longrightarrow> deq q = (err BufferEmpty, q)"
    and clear_ok: "inv q \<Longrightarrow> inv (clear q) \<and> contents (clear q) = [] \<and> room (clear q) = room q"
    and within_room: "inv q \<Longrightarrow> length (contents q) \<le> room q"
begin

lemma enq_cases:
  assumes "inv q"
  obtains (stored) q' where "enq x q = (Ok (), q')" "inv q'" "contents q' = contents q @ [x]"
      "room q' = room q" "length (contents q) < room q"
    | (full) "enq x q = (err BufferFull, q)" "length (contents q) = room q"
  using assms enq_ok [OF assms, of x] enq_full [OF assms, of x] within_room [OF assms]
  by (metis le_neq_implies_less)

lemma enq_keeps_inv: "inv q \<Longrightarrow> inv (snd (enq x q))"
  by (cases rule: enq_cases [of q x]) auto

lemma deq_keeps_inv: "inv q \<Longrightarrow> inv (snd (deq q))"
  using deq_ok [of q] deq_empty [of q] by (cases "contents q") fastforce+

lemma drain_contents:
  "inv q \<Longrightarrow> length (contents q) < n \<Longrightarrow>
   \<exists>q'. drain n deq q = Some (contents q, q') \<and> inv q' \<and> contents q' = [] \<and> room q' = room q"
proof (induction n arbitrary: q)
  case 0
  then show ?case by simp
next
  case (Suc n)
  show ?case
  proof (cases "contents q")
    case Nil
    with Suc.prems deq_empty [of q] show ?thesis by auto
  next
    case (Cons x xs)
    with Suc.prems deq_ok [of q x xs] obtain q1 where
      q1: "deq q = (Ok x, q1)" "inv q1" "contents q1 = xs" "room q1 = room q" by blast
    with Suc.prems Cons Suc.IH [of q1] show ?thesis by auto
  qed
qed

text \<open>A client that fills an empty queue and drains it gets its elements back in order.\<close>

primrec enq_all :: "'a list \<Rightarrow> ('q, unit) act" where
  "enq_all [] = return_act ()"
| "enq_all (x # xs) = bind_act (enq x) (\<lambda>_. enq_all xs)"

lemma enq_all_ok:
  "inv q \<Longrightarrow> length (contents q) + length xs \<le> room q \<Longrightarrow>
   \<exists>q'. enq_all xs q = (Ok (), q') \<and> inv q' \<and> contents q' = contents q @ xs \<and> room q' = room q"
proof (induction xs arbitrary: q)
  case Nil
  then show ?case by simp
next
  case (Cons x xs)
  then obtain q1 where q1: "enq x q = (Ok (), q1)" "inv q1" "contents q1 = contents q @ [x]"
      "room q1 = room q"
    using enq_ok [of q x] by auto
  with Cons.prems Cons.IH [of q1] show ?case by simp
qed

end

subsection \<open>The ring implements it\<close>

definition fifo_inv :: "'a fifo \<Rightarrow> bool" where
  "fifo_inv f \<longleftrightarrow> length (fifo_buf f) = fifo_size f \<and> read_ptr f < fifo_size f \<and>
     write_ptr f < fifo_size f"

text \<open>The number of stored elements and the elements themselves, oldest first.\<close>

definition fifo_count :: "'a fifo \<Rightarrow> nat" where
  "fifo_count f = (write_ptr f + fifo_size f - read_ptr f) mod fifo_size f"

definition fifo_contents :: "'a fifo \<Rightarrow> 'a list" where
  "fifo_contents f =
     map (\<lambda>i. fifo_buf f ! ((read_ptr f + i) mod fifo_size f)) [0..<fifo_count f]"

definition fifo_room :: "'a fifo \<Rightarrow> nat" where
  "fifo_room f = fifo_size f - 1"

lemma fifo_count_alt:
  "fifo_inv f \<Longrightarrow> fifo_count f =
     (if read_ptr f \<le> write_ptr f then write_ptr f - read_ptr f
      else write_ptr f + fifo_size f - read_ptr f)"
  by (auto simp: fifo_count_def fifo_inv_def mod_if)

lemma fifo_count_bound: "fifo_inv f \<Longrightarrow> fifo_count f \<le> fifo_room f"
  by (auto simp: fifo_count_alt fifo_room_def fifo_inv_def)

lemma length_fifo_contents [simp]: "length (fifo_contents f) = fifo_count f"
  by (simp add: fifo_contents_def)

lemma fifo_len_eq: "fifo_inv f \<Longrightarrow> fifo_len f = Ok (length (fifo_contents f))"
  by (auto simp: fifo_len_def fifo_count_def fifo_inv_def)

lemma ring_succ: "w < n \<Longrightarrow> Suc w mod n = (if Suc w = n then 0 else Suc w)" for n :: nat
  by auto

lemma ring_slot: "i < n \<Longrightarrow> r < n \<Longrightarrow> (r + i) mod n = (if r + i < n then r + i else r + i - n)"
  for n :: nat
  by (auto simp: mod_if)

lemma full_iff: "fifo_inv f \<Longrightarrow> Suc (write_ptr f) mod fifo_size f = read_ptr f \<longleftrightarrow>
    fifo_room f \<le> fifo_count f"
  by (auto simp: fifo_count_alt fifo_room_def fifo_inv_def ring_succ split: if_splits)

lemma is_full_eq: "fifo_inv f \<Longrightarrow> is_full f = Ok (length (fifo_contents f) = fifo_room f)"
  using fifo_count_bound [of f] full_iff [of f] by (auto simp: is_full_def fifo_inv_def)

lemma empty_iff: "fifo_inv f \<Longrightarrow> fifo_contents f = [] \<longleftrightarrow> read_ptr f = write_ptr f"
  by (auto simp: fifo_contents_def fifo_count_alt fifo_inv_def)

lemma enqueue_full: "fifo_inv f \<Longrightarrow> fifo_room f \<le> fifo_count f \<Longrightarrow>
    enqueue v f = (err BufferFull, f)"
  using full_iff [of f] by (auto simp: enqueue_def Let_def fifo_inv_def)

lemma dequeue_empty: "fifo_inv f \<Longrightarrow> fifo_contents f = [] \<Longrightarrow> dequeue f = (err BufferEmpty, f)"
  using empty_iff [of f] by (auto simp: dequeue_def Let_def fifo_inv_def)

definition enqueued :: "'a \<Rightarrow> 'a fifo \<Rightarrow> 'a fifo" where
  "enqueued v f = f\<lparr>write_ptr := Suc (write_ptr f) mod fifo_size f,
     fifo_buf := (fifo_buf f)[write_ptr f := v]\<rparr>"

lemma enqueue_run: "fifo_inv f \<Longrightarrow> fifo_count f < fifo_room f \<Longrightarrow>
    enqueue v f = (Ok (), enqueued v f)"
  using full_iff [of f]
  by (auto simp: enqueue_def enqueued_def Let_def fifo_inv_def compare_exchange_def)

lemma enqueued_inv: "fifo_inv f \<Longrightarrow> fifo_inv (enqueued v f)"
  by (auto simp: fifo_inv_def enqueued_def)

lemma enqueued_count: "fifo_inv f \<Longrightarrow> fifo_count f < fifo_room f \<Longrightarrow>
    fifo_count (enqueued v f) = Suc (fifo_count f)"
  using enqueued_inv [of f v] full_iff [of f]
  by (auto simp: fifo_count_alt) (auto simp: fifo_inv_def enqueued_def ring_succ split: if_splits)

lemma enqueued_contents:
  assumes "fifo_inv f" and "fifo_count f < fifo_room f"
  shows "fifo_contents (enqueued v f) = fifo_contents f @ [v]"
proof (rule nth_equalityI)
  show "length (fifo_contents (enqueued v f)) = length (fifo_contents f @ [v])"
    using assms by (simp add: enqueued_count)
next
  fix i assume "i < length (fifo_contents (enqueued v f))"
  then have i: "i \<le> fifo_count f" using assms by (simp add: enqueued_count)
  have slot: "(read_ptr f + i) mod fifo_size f = write_ptr f \<longleftrightarrow> i = fifo_count f"
    using assms i by (auto simp: fifo_count_alt fifo_inv_def fifo_room_def ring_slot
      split: if_splits)
  have "fifo_contents (enqueued v f) ! i =
      (fifo_buf f)[write_ptr f := v] ! ((read_ptr f + i) mod fifo_size f)"
    using assms i enqueued_count [OF assms, of v]
    by (auto simp: fifo_contents_def enqueued_def simp del: upt_Suc)
  also have "\<dots> = (fifo_contents f @ [v]) ! i"
    using assms i slot by (auto simp: nth_append fifo_contents_def fifo_inv_def)
  finally show "fifo_contents (enqueued v f) ! i = (fifo_contents f @ [v]) ! i" .
qed

definition dequeued :: "'a fifo \<Rightarrow> 'a fifo" where
  "dequeued f = f\<lparr>read_ptr := Suc (read_ptr f) mod fifo_size f\<rparr>"

lemma dequeued_inv: "fifo_inv f \<Longrightarrow> fifo_inv (dequeued f)"
  by (auto simp: fifo_inv_def dequeued_def)

lemma dequeue_run:
  assumes "fifo_inv f" and "fifo_contents f = x # xs"
  shows "dequeue f = (Ok x, dequeued f)"
proof -
  have "read_ptr f \<noteq> write_ptr f" using assms empty_iff [of f] by auto
  moreover have "fifo_buf f ! read_ptr f = x"
  proof -
    have "0 < fifo_count f" using assms(2) by (metis length_fifo_contents length_greater_0_conv list.distinct(1))
    then have "fifo_contents f ! 0 = fifo_buf f ! (read_ptr f mod fifo_size f)"
      by (simp add: fifo_contents_def)
    then show ?thesis using assms by (simp add: fifo_inv_def)
  qed
  ultimately show ?thesis
    using assms(1) by (auto simp: dequeue_def dequeued_def Let_def fifo_inv_def compare_exchange_def)
qed

lemma dequeued_count: "fifo_inv f \<Longrightarrow> read_ptr f \<noteq> write_ptr f \<Longrightarrow>
    fifo_count f = Suc (fifo_count (dequeued f))"
  using dequeued_inv [of f]
  by (auto simp: fifo_count_alt) (auto simp: fifo_inv_def dequeued_def ring_succ split: if_splits)

lemma dequeued_contents:
  assumes "fifo_inv f" and "fifo_contents f = x # xs"
  shows "fifo_contents (dequeued f) = xs"
proof -
  have "read_ptr f \<noteq> write_ptr f" using assms empty_iff [of f] by auto
  note count = dequeued_count [OF assms(1) this]
  have "fifo_contents (dequeued f) = tl (fifo_contents f)"
  proof (rule nth_equalityI)
    show "length (fifo_contents (dequeued f)) = length (tl (fifo_contents f))"
      using count by simp
  next
    fix i assume "i < length (fifo_contents (dequeued f))"
    then have i: "i < fifo_count (dequeued f)" by simp
    have "(Suc (read_ptr f) mod fifo_size f + i) mod fifo_size f =
        (read_ptr f + Suc i) mod fifo_size f"
      by (simp add: mod_simps)
    moreover have "Suc i < fifo_count f" using i count by simp
    ultimately show "fifo_contents (dequeued f) ! i = tl (fifo_contents f) ! i"
      using i by (simp add: nth_tl fifo_contents_def dequeued_def mod_simps)
  qed
  then show ?thesis using assms(2) by simp
qed

interpretation fifo_queue: bounded_queue
  enqueue dequeue reset_ptr fifo_contents fifo_room fifo_inv
proof (unfold_locales, goal_cases)
  case (1 q x)
  then show ?case
    by (auto intro!: exI [of _ "enqueued x q"] simp: enqueue_run enqueued_inv enqueued_contents)
      (auto simp: fifo_room_def enqueued_def)
next
  case (2 q x)
  then show ?case by (simp add: enqueue_full)
next
  case (3 q x xs)
  then show ?case
    by (auto intro!: exI [of _ "dequeued q"] simp: dequeue_run dequeued_inv dequeued_contents)
      (auto simp: fifo_room_def dequeued_def)
next
  case (4 q)
  then show ?case by (simp add: dequeue_empty)
next
  case (5 q)
  then show ?case
    by (auto simp: reset_ptr_def fifo_inv_def fifo_contents_def fifo_count_def fifo_room_def)
next
  case (6 q)
  then show ?case by (simp add: fifo_count_bound)
qed

lemma new_fifo_inv: "0 < n \<Longrightarrow> fifo_inv (new_fifo n d) \<and> fifo_contents (new_fifo n d) = [] \<and>
    fifo_room (new_fifo n d) = n - 1"
  by (simp add: new_fifo_def fifo_inv_def fifo_contents_def fifo_count_def fifo_room_def)

lemma drain_bound:
  assumes "fifo_inv f"
  shows "\<exists>f'. drain (fifo_size f) dequeue f = Some (fifo_contents f, f') \<and> fifo_inv f' \<and>
    fifo_contents f' = [] \<and> fifo_room f' = fifo_room f"
proof -
  have "length (fifo_contents f) < fifo_size f"
    using fifo_count_bound [OF assms] assms by (auto simp: fifo_inv_def fifo_room_def)
  then show ?thesis by (rule fifo_queue.drain_contents [OF assms])
qed

subsection \<open>Refinement of a bounded list\<close>

datatype 'a fifo_op = Enqueue 'a | Dequeue | Reset

fun ring_op :: "'a fifo_op \<Rightarrow> ('a fifo, 'a option) act" where
  "ring_op (Enqueue x) = bind_act (enqueue x) (\<lambda>_. return_act None)"
| "ring_op Dequeue = bind_act dequeue (\<lambda>x. return_act (Some x))"
| "ring_op Reset = bind_act (modify reset_ptr) (\<lambda>_. return_act None)"

text \<open>The specification: a list of at most \<open>cap\<close> elements.\<close>

fun list_op :: "nat \<Rightarrow> 'a fifo_op \<Rightarrow> ('a list, 'a option) act" where
  "list_op cap (Enqueue x) xs = (if length xs < cap then (Ok None, xs @ [x]) else (err BufferFull, xs))"
| "list_op cap Dequeue xs = (case xs of [] \<Rightarrow> (err BufferEmpty, []) | y # ys \<Rightarrow> (Ok (Some y), ys))"
| "list_op cap Reset xs = (Ok None, [])"

primrec outcomes :: "('o \<Rightarrow> ('s, 'r) act) \<Rightarrow> 'o list \<Rightarrow> 's \<Rightarrow> 'r outcome list" where
  "outcomes step [] s = []"
| "outcomes step (x # xs) s = fst (step x s) # outcomes step xs (snd (step x s))"

lemma ring_op_refines:
  assumes "fifo_inv f"
  shows "fst (ring_op x f) = fst (list_op (fifo_room f) x (fifo_contents f)) \<and>
    fifo_contents (snd (ring_op x f)) = snd (list_op (fifo_room f) x (fifo_contents f)) \<and>
    fifo_inv (snd (ring_op x f)) \<and> fifo_room (snd (ring_op x f)) = fifo_room f"
proof (cases x)
  case (Enqueue v)
  then show ?thesis using assms by (cases rule: fifo_queue.enq_cases [OF assms, of v]) auto
next
  case Dequeue
  then show ?thesis
    using fifo_queue.deq_ok [OF assms] fifo_queue.deq_empty [OF assms] assms
    by (cases "fifo_contents f") fastforce+
next
  case Reset
  then show ?thesis using fifo_queue.clear_ok [OF assms] by simp
qed

text \<open>C39: The ring buffer refines a bounded list: for every sequence of enqueues, dequeues and
  resets on a new queue of size \<open>n\<close>, every call returns what it returns on a list of capacity
  \<open>n - 1\<close>; in particular no call of one thread sees the queue locked, and none panics.\<close>

theorem fifo_refines_list:
  assumes "0 < n"
  shows "outcomes ring_op ops (new_fifo n d) = outcomes (list_op (n - 1)) ops []"
proof -
  have "outcomes ring_op ops f = outcomes (list_op (fifo_room f)) ops (fifo_contents f)" if "fifo_inv f" for f
    using that
  proof (induction ops arbitrary: f)
    case (Cons x ops)
    show ?case using Cons.IH [of "snd (ring_op x f)"] ring_op_refines [OF Cons.prems, of x] by simp
  qed simp
  then show ?thesis using new_fifo_inv [OF assms] by metis
qed

theorem fifo_refines_list_witness:
  "outcomes ring_op [Enqueue 1, Enqueue 2, Enqueue 3, Dequeue] (new_fifo 3 (0 :: nat)) =
     [Ok None, Ok None, err BufferFull, Ok (Some 1)]"
  using fifo_refines_list [of 3 "[Enqueue 1, Enqueue 2, Enqueue 3, Dequeue]" "0 :: nat"] by simp

end
