(* ===== verification/Ansi.thy ===== *)
theory Ansi
  imports Fifo
begin

text \<open>
  The terminal's escape-sequence parser, kernel/src/util/ansi.rs: a three-state machine that
  buffers the characters of a control sequence in a \<open>Fifo<char, 16>\<close> and parses them when the
  final letter arrives. Characters are Unicode code points (\<open>nat\<close>). The streaming parser is
  shown to compute the pure parse \<open>csi_loop\<close> of the sequence it was fed, and the cursor
  position sequences to be parsed back to the numbers they were printed from.
\<close>

datatype CsiSequence =
    CursorUp nat | CursorDown nat | CursorRight nat | CursorLeft nat
  | CursorNextLineHead nat | CursorPrevLineHead nat | CursorColumn nat
  | CursorPosition nat nat
  | ScrollUp nat | ScrollDown nat
  | ClearScreenAfterCursor | ClearScreenBeforeCursor | ClearScreenAll
  | ClearRowAfterCursor | ClearRowBeforeCursor | ClearRowAll
  | CharReset | CharBold | CharDim | CharItalic | CharUnderline | CharBlink | CharBlinkFast
  | CharReverseColor | CharHidden | CharCancel
  | ForeColorBlack | ForeColorRed | ForeColorGreen | ForeColorYellow
  | ForeColorBlue | ForeColorMagenta | ForeColorCyan | ForeColorWhite
  | BackColorBlack | BackColorRed | BackColorGreen | BackColorYellow
  | BackColorBlue | BackColorMagenta | BackColorCyan | BackColorWhite

datatype AnsiEvent = AnsiControlChar nat | CsiEvent CsiSequence

datatype ansi_state = Normal | Esc | Csi

record AnsiEscapeStream =
  ansi_state :: ansi_state
  ansi_buf :: "nat fifo"

definition ansi_new :: AnsiEscapeStream where
  "ansi_new = \<lparr>ansi_state = Normal, ansi_buf = new_fifo 16 0\<rparr>"

definition ansi_reset :: "AnsiEscapeStream \<Rightarrow> AnsiEscapeStream" where
  "ansi_reset s = s\<lparr>ansi_state := Normal, ansi_buf := reset_ptr (ansi_buf s)\<rparr>"

subsection \<open>Parsing a finished sequence\<close>

definition is_digit :: "nat \<Rightarrow> bool" where
  "is_digit c \<longleftrightarrow> 0x30 \<le> c \<and> c \<le> 0x39"

definition is_ascii_alphabetic :: "nat \<Rightarrow> bool" where
  "is_ascii_alphabetic c \<longleftrightarrow> 0x41 \<le> c \<and> c \<le> 0x5A \<or> 0x61 \<le> c \<and> c \<le> 0x7A"

definition digits_val :: "nat list \<Rightarrow> nat" where
  "digits_val ds = foldl (\<lambda>v c. v * 10 + (c - 0x30)) 0 ds"

text \<open>\<open>str::parse\<close> on a string of digits: no digits and a value above the type's maximum
  are errors. The counts are \<open>u32\<close>; the selectors of \<open>J\<close>, \<open>K\<close> and \<open>m\<close> are matched against
  unsuffixed literals and so are \<open>i32\<close>.\<close>

definition parse_num :: "nat \<Rightarrow> nat list \<Rightarrow> nat option" where
  "parse_num mx ds = (if ds = [] \<or> mx < digits_val ds then None else Some (digits_val ds))"

abbreviation u32_max :: nat where "u32_max \<equiv> 2 ^ 32 - 1"
abbreviation i32_max :: nat where "i32_max \<equiv> 2 ^ 31 - 1"

definition count_seq :: "nat \<Rightarrow> nat \<Rightarrow> CsiSequence" where
  "count_seq ch num =
     (if ch = 0x41 then CursorUp num
      else if ch = 0x42 then CursorDown num
      else if ch = 0x43 then CursorRight num
      else if ch = 0x44 then CursorLeft num
      else if ch = 0x45 then CursorNextLineHead num
      else if ch = 0x46 then CursorPrevLineHead num
      else if ch = 0x47 then CursorColumn num
      else if ch = 0x53 then ScrollUp num
      else ScrollDown num)"

definition clear_screen_seq :: "nat \<Rightarrow> CsiSequence option" where
  "clear_screen_seq num = map_of
     [(0, ClearScreenAfterCursor), (1, ClearScreenBeforeCursor), (2, ClearScreenAll)] num"

definition clear_row_seq :: "nat \<Rightarrow> CsiSequence option" where
  "clear_row_seq num = map_of
     [(0, ClearRowAfterCursor), (1, ClearRowBeforeCursor), (2, ClearRowAll)] num"

definition char_seq :: "nat \<Rightarrow> CsiSequence option" where
  "char_seq num = map_of
     [(0, CharReset), (1, CharBold), (2, CharDim), (3, CharItalic), (4, CharUnderline),
      (5, CharBlink), (6, CharBlinkFast), (7, CharReverseColor), (8, CharHidden), (9, CharCancel),
      (30, ForeColorBlack), (31, ForeColorRed), (32, ForeColorGreen), (33, ForeColorYellow),
      (34, ForeColorBlue), (35, ForeColorMagenta), (36, ForeColorCyan), (37, ForeColorWhite),
      (40, BackColorBlack), (41, BackColorRed), (42, BackColorGreen), (43, BackColorYellow),
      (44, BackColorBlue), (45, BackColorMagenta), (46, BackColorCyan), (47, BackColorWhite)] num"

text \<open>A selector that is not a number takes the default; one that is no known number is
  skipped (\<open>continue\<close>).\<close>

definition select_seq ::
  "(nat \<Rightarrow> CsiSequence option) \<Rightarrow> CsiSequence \<Rightarrow> nat list \<Rightarrow> CsiSequence option" where
  "select_seq table dflt ds = (case parse_num i32_max ds of None \<Rightarrow> Some dflt | Some n \<Rightarrow> table n)"

text \<open>One pass of the \<open>for ch in seq\<close> loop; \<open>b1\<close> and \<open>b2\<close> are the two number buffers.\<close>

fun csi_loop :: "nat list \<Rightarrow> nat list \<Rightarrow> nat list \<Rightarrow> AnsiEvent option" where
  "csi_loop b1 b2 [] = None"
| "csi_loop b1 b2 (ch # rest) =
     (if is_digit ch then csi_loop (b1 @ [ch]) b2 rest
      else if ch \<in> {0x41, 0x42, 0x43, 0x44, 0x45, 0x46, 0x47, 0x53, 0x54} then
        Some (CsiEvent (count_seq ch
          (case parse_num u32_max b1 of None \<Rightarrow> 1 | Some n \<Rightarrow> n)))
      else if ch = 0x48 \<or> ch = 0x66 then
        (case (parse_num u32_max b1, parse_num u32_max b2) of
           (Some num1, Some num2) \<Rightarrow> Some (CsiEvent (CursorPosition num2 num1))
         | _ \<Rightarrow> csi_loop b1 b2 rest)
      else if ch = 0x4A then
        (case select_seq clear_screen_seq ClearScreenAfterCursor b1 of
           Some sq \<Rightarrow> Some (CsiEvent sq) | None \<Rightarrow> csi_loop b1 b2 rest)
      else if ch = 0x4B then
        (case select_seq clear_row_seq ClearRowAfterCursor b1 of
           Some sq \<Rightarrow> Some (CsiEvent sq) | None \<Rightarrow> csi_loop b1 b2 rest)
      else if ch = 0x6D then
        (case select_seq char_seq CharReset b1 of
           Some sq \<Rightarrow> Some (CsiEvent sq) | None \<Rightarrow> csi_loop b1 b2 rest)
      else if ch = 0x3B then
        (if b1 \<noteq> [] then csi_loop [] b1 rest else csi_loop b1 b2 rest)
      else csi_loop b1 b2 rest)"

definition parse_csi_seq :: "(AnsiEscapeStream, AnsiEvent option) act" where
  "parse_csi_seq s =
     (case drain (fifo_size (ansi_buf s)) dequeue (ansi_buf s) of
        None \<Rightarrow> (Panic, s)
      | Some (sq, buf') \<Rightarrow> (Ok (csi_loop [] [] sq), ansi_reset (s\<lparr>ansi_buf := buf'\<rparr>)))"

definition ansi_enqueue :: "nat \<Rightarrow> (AnsiEscapeStream, unit) act" where
  "ansi_enqueue c s = (case enqueue c (ansi_buf s) of (r, b) \<Rightarrow> (r, s\<lparr>ansi_buf := b\<rparr>))"

text \<open>\<open>AnsiEscapeStream::push\<close>.\<close>

definition ansi_push :: "nat \<Rightarrow> (AnsiEscapeStream, AnsiEvent option) act" where
  "ansi_push c s =
     (case ansi_state s of
        Normal \<Rightarrow>
          if c = 0x1B then (Ok (Some (AnsiControlChar c)), s\<lparr>ansi_state := Esc\<rparr>)
          else (Ok None, s)
      | Esc \<Rightarrow>
          if c = 0x5B
          then (Ok (Some (AnsiControlChar c)),
                s\<lparr>ansi_state := Csi, ansi_buf := reset_ptr (ansi_buf s)\<rparr>)
          else (Ok None, s\<lparr>ansi_state := Normal\<rparr>)
      | Csi \<Rightarrow>
          bind_act
            (catch (ansi_enqueue c)
              (\<lambda>r. case r of
                 Ok _ \<Rightarrow> return_act ()
               | _ \<Rightarrow> bind_act (modify (\<lambda>s. s\<lparr>ansi_buf := reset_ptr (ansi_buf s)\<rparr>))
                        (\<lambda>_. ansi_enqueue c)))
            (\<lambda>_. if is_ascii_alphabetic c then parse_csi_seq
                 else return_act (Some (AnsiControlChar c))) s)"

text \<open>Feeding a whole string; the result is the event of the last character.\<close>

fun push_all :: "nat list \<Rightarrow> AnsiEvent option \<Rightarrow> (AnsiEscapeStream, AnsiEvent option) act" where
  "push_all [] e = return_act e"
| "push_all (c # cs) e = bind_act (ansi_push c) (push_all cs)"

subsection \<open>Invariant\<close>

definition ansi_inv :: "AnsiEscapeStream \<Rightarrow> bool" where
  "ansi_inv s \<longleftrightarrow> fifo_inv (ansi_buf s) \<and> fifo_room (ansi_buf s) = 15"

lemma ansi_inv_new: "ansi_inv ansi_new"
  using new_fifo_inv [of 16 "0::nat"] by (simp add: ansi_inv_def ansi_new_def)

lemma ansi_inv_reset: "ansi_inv s \<Longrightarrow> ansi_inv (ansi_reset s)"
  using fifo_queue.clear_ok [of "ansi_buf s"] by (simp add: ansi_inv_def ansi_reset_def)

lemma parse_csi_seq_run:
  assumes "ansi_inv s"
  shows "\<exists>s'. parse_csi_seq s = (Ok (csi_loop [] [] (fifo_contents (ansi_buf s))), s') \<and>
    ansi_inv s' \<and> ansi_state s' = Normal"
proof -
  obtain b where "drain (fifo_size (ansi_buf s)) dequeue (ansi_buf s) =
      Some (fifo_contents (ansi_buf s), b)" and "fifo_inv b" and "fifo_room b = 15"
    using drain_bound [of "ansi_buf s"] assms by (auto simp: ansi_inv_def)
  moreover from this have "ansi_inv (ansi_reset (s\<lparr>ansi_buf := b\<rparr>))"
    by (intro ansi_inv_reset) (simp add: ansi_inv_def)
  ultimately show ?thesis by (simp add: parse_csi_seq_def ansi_reset_def)
qed

text \<open>In the \<open>Csi\<close> state the character joins the buffer, or restarts it when it is full.\<close>

lemma csi_store:
  assumes "ansi_inv s" and "ansi_state s = Csi"
  obtains s1 where "ansi_inv s1" "ansi_state s1 = Csi"
    "fifo_contents (ansi_buf s1) =
       (if fifo_count (ansi_buf s) < 15 then fifo_contents (ansi_buf s) @ [c] else [c])"
    "ansi_push c s =
       (if is_ascii_alphabetic c then parse_csi_seq s1
        else (Ok (Some (AnsiControlChar c)), s1))"
proof -
  let ?b = "ansi_buf s"
  have b: "fifo_inv ?b" "fifo_room ?b = 15" using assms by (simp_all add: ansi_inv_def)
  show thesis
  proof (cases rule: fifo_queue.enq_cases [OF b(1), of c])
    case (1 q)
    with b assms show ?thesis
      by (intro that [of "s\<lparr>ansi_buf := q\<rparr>"])
        (auto simp: ansi_inv_def ansi_push_def ansi_enqueue_def catch_def bind_act_def)
  next
    case 2
    obtain q where q: "enqueue c (reset_ptr ?b) = (Ok (), q)" "fifo_inv q"
        "fifo_contents q = [c]" "fifo_room q = 15"
      using fifo_queue.enq_ok [of "reset_ptr ?b" c] fifo_queue.clear_ok [OF b(1)] b(2) by auto
    with 2 b assms show ?thesis
      by (intro that [of "s\<lparr>ansi_buf := q\<rparr>"])
        (auto simp: ansi_inv_def ansi_push_def ansi_enqueue_def catch_def bind_act_def)
  qed
qed

lemma ansi_push_total:
  assumes "ansi_inv s"
  shows "\<exists>e s'. ansi_push c s = (Ok e, s') \<and> ansi_inv s'"
proof (cases "ansi_state s")
  case Csi
  from csi_store [OF assms Csi, of c] obtain s1 where s1: "ansi_inv s1"
    "ansi_push c s = (if is_ascii_alphabetic c then parse_csi_seq s1
        else (Ok (Some (AnsiControlChar c)), s1))" by metis
  then show ?thesis using parse_csi_seq_run [of s1] by auto
qed (use assms fifo_queue.clear_ok [of "ansi_buf s"] in
      \<open>auto simp: ansi_push_def ansi_inv_def\<close>)

lemma push_all_append:
  "push_all (xs @ ys) e = bind_act (push_all xs e) (push_all ys)"
proof (induction xs arbitrary: e)
  case Nil
  then show ?case by (rule ext) (simp add: bind_act_def)
next
  case (Cons x xs)
  show ?case
    by (rule ext) (simp add: Cons.IH bind_act_def split: prod.splits outcome.splits)
qed

lemma push_all_body:
  "ansi_inv s \<Longrightarrow> ansi_state s = Csi \<Longrightarrow> \<forall>c\<in>set body. \<not> is_ascii_alphabetic c \<Longrightarrow>
   fifo_count (ansi_buf s) + length body \<le> 15 \<Longrightarrow>
   \<exists>e' s'. push_all body e s = (Ok e', s') \<and> ansi_inv s' \<and> ansi_state s' = Csi \<and>
     fifo_contents (ansi_buf s') = fifo_contents (ansi_buf s) @ body"
proof (induction body arbitrary: s e)
  case Nil
  then show ?case by simp
next
  case (Cons c body)
  obtain s1 where s1: "ansi_inv s1" "ansi_state s1 = Csi"
      "fifo_contents (ansi_buf s1) = fifo_contents (ansi_buf s) @ [c]"
      "ansi_push c s = (Ok (Some (AnsiControlChar c)), s1)"
    using csi_store [OF Cons.prems(1,2), of c] Cons.prems(3,4) by auto
  then have "fifo_count (ansi_buf s1) = Suc (fifo_count (ansi_buf s))"
    by (metis length_append_singleton length_fifo_contents)
  with s1 Cons.prems Cons.IH [of s1 "Some (AnsiControlChar c)"] show ?case by auto
qed

lemma push_all_total:
  "ansi_inv s \<Longrightarrow> \<exists>e' s'. push_all cs e s = (Ok e', s') \<and> ansi_inv s'"
proof (induction cs arbitrary: s e)
  case Nil
  then show ?case by simp
next
  case (Cons c cs)
  obtain e1 s1 where "ansi_push c s = (Ok e1, s1)" "ansi_inv s1"
    using ansi_push_total [OF Cons.prems] by blast
  with Cons.IH [of s1 e1] show ?case by simp
qed

lemma push_all_intro:
  assumes "ansi_inv s" and "ansi_state s = Normal"
  obtains s1 e1 where "push_all [0x1B, 0x5B] e s = (Ok e1, s1)" "ansi_inv s1"
    "ansi_state s1 = Csi" "fifo_contents (ansi_buf s1) = []"
proof -
  have "fifo_inv (reset_ptr (ansi_buf s)) \<and> fifo_contents (reset_ptr (ansi_buf s)) = [] \<and>
      fifo_room (reset_ptr (ansi_buf s)) = 15"
    using fifo_queue.clear_ok [of "ansi_buf s"] assms by (simp add: ansi_inv_def)
  with assms show thesis
    by (intro that [of _ "s\<lparr>ansi_state := Csi, ansi_buf := reset_ptr (ansi_buf s)\<rparr>"])
      (auto simp: ansi_push_def ansi_inv_def bind_act_def)
qed

lemma csi_sequence:
  assumes "ansi_inv s" and "ansi_state s = Normal"
    and "\<forall>c\<in>set body. \<not> is_ascii_alphabetic c" and "length body < 15"
    and "is_ascii_alphabetic fin"
  shows "\<exists>s'. push_all ([0x1B, 0x5B] @ body @ [fin]) e s = (Ok (csi_loop [] [] (body @ [fin])), s') \<and>
    ansi_inv s' \<and> ansi_state s' = Normal"
proof -
  obtain s1 e1 where s1: "push_all [0x1B, 0x5B] e s = (Ok e1, s1)" "ansi_inv s1"
    "ansi_state s1 = Csi" "fifo_contents (ansi_buf s1) = []"
    using push_all_intro [OF assms(1,2)] by metis
  then have "fifo_count (ansi_buf s1) = 0" by (metis length_fifo_contents list.size(3))
  with s1 assms obtain e2 s2 where s2: "push_all body e1 s1 = (Ok e2, s2)" "ansi_inv s2"
    "ansi_state s2 = Csi" "fifo_contents (ansi_buf s2) = body"
    using push_all_body [of s1 body e1] by auto
  then have "fifo_count (ansi_buf s2) < 15" using assms(4) by (metis length_fifo_contents)
  with s2 assms(5) obtain s3 where "ansi_inv s3" "fifo_contents (ansi_buf s3) = body @ [fin]"
    "ansi_push fin s2 = parse_csi_seq s3"
    using csi_store [OF s2(2,3), of fin] by auto
  moreover from this obtain s4 where "parse_csi_seq s3 = (Ok (csi_loop [] [] (body @ [fin])), s4)"
    "ansi_inv s4" "ansi_state s4 = Normal"
    using parse_csi_seq_run [of s3] by auto
  ultimately have s4: "push_all [fin] e2 s2 = (Ok (csi_loop [] [] (body @ [fin])), s4)"
    "ansi_inv s4" "ansi_state s4 = Normal" by (simp_all add: bind_act_def)
  show ?thesis
    unfolding push_all_append using s1(1) s2(1) s4
    by (simp del: push_all.simps(2))
qed

subsection \<open>Printing numbers back\<close>

fun decimal :: "nat \<Rightarrow> nat list" where
  "decimal n = (if n < 10 then [0x30 + n] else decimal (n div 10) @ [0x30 + n mod 10])"

declare decimal.simps [simp del]

lemma decimal_digits: "c \<in> set (decimal n) \<Longrightarrow> is_digit c"
proof (induction n rule: decimal.induct)
  case (1 n)
  then show ?case
    by (subst (asm) (2) decimal.simps) (auto simp: is_digit_def split: if_splits)
qed

lemma decimal_nonempty [simp]: "decimal n \<noteq> []"
  by (subst decimal.simps) simp

lemma digits_val_snoc: "digits_val (ds @ [d]) = digits_val ds * 10 + (d - 0x30)"
  by (simp add: digits_val_def)

lemma digits_val_decimal [simp]: "digits_val (decimal n) = n"
proof (induction n rule: decimal.induct)
  case (1 n)
  show ?case
    using 1 by (subst decimal.simps) (auto simp: digits_val_snoc digits_val_def)
qed

lemma digit_not_alpha: "is_digit c \<Longrightarrow> \<not> is_ascii_alphabetic c"
  by (auto simp: is_digit_def is_ascii_alphabetic_def)

lemma csi_loop_digits:
  "\<forall>c\<in>set ds. is_digit c \<Longrightarrow> csi_loop b1 b2 (ds @ rest) = csi_loop (b1 @ ds) b2 rest"
  by (induction ds arbitrary: b1) auto

lemma csi_loop_position:
  assumes "r \<le> u32_max" and "c \<le> u32_max"
  shows "csi_loop [] [] (decimal r @ [0x3B] @ decimal c @ [0x48]) =
    Some (CsiEvent (CursorPosition r c))"
proof -
  have dr: "\<forall>d\<in>set (decimal r). is_digit d" and dc: "\<forall>d\<in>set (decimal c). is_digit d"
    by (simp_all add: decimal_digits)
  have "csi_loop [] [] (decimal r @ [0x3B] @ decimal c @ [0x48]) =
      csi_loop [] (decimal r) (decimal c @ [0x48])"
    by (subst csi_loop_digits [OF dr]) (simp add: is_digit_def)
  also have "\<dots> = csi_loop (decimal c) (decimal r) [0x48]"
    by (subst csi_loop_digits [OF dc]) simp
  also have "\<dots> = Some (CsiEvent (CursorPosition r c))"
    using assms by (simp add: is_digit_def parse_num_def)
  finally show ?thesis .
qed

subsection \<open>Properties\<close>

text \<open>The parser is total: from a fresh stream, whatever characters are pushed, every
  \<open>push\<close> returns \<open>Ok\<close>. No error and no panic is reachable, the buffer's \<open>Locked\<close>, \<open>BufferFull\<close>
  and out-of-range branches included.\<close>

theorem ansi_stream_total: "\<exists>e s. push_all cs None ansi_new = (Ok e, s) \<and> ansi_inv s"
  by (rule push_all_total [OF ansi_inv_new])

text \<open>The streaming parser refines the pure parse of a control sequence: after
  \<open>ESC [\<close>, a body of at most 14 characters without letters and a final letter, the last \<open>push\<close>
  returns exactly the parse of the sequence, and the stream is back in its \<open>Normal\<close> state.\<close>

theorem ansi_stream_refines_parse:
  assumes "ansi_inv s" and "ansi_state s = Normal"
    and "list_all (\<lambda>c. \<not> is_ascii_alphabetic c) body" and "length body < 15"
    and "is_ascii_alphabetic fin"
  shows "\<exists>s'. push_all ([0x1B, 0x5B] @ body @ [fin]) None s =
      (Ok (csi_loop [] [] (body @ [fin])), s') \<and> ansi_inv s' \<and> ansi_state s' = Normal"
  using assms by (intro csi_sequence) (simp_all add: list_all_iff)

theorem ansi_stream_refines_parse_witness:
  "\<exists>s'. push_all ([0x1B, 0x5B] @ [0x33, 0x31] @ [0x6D]) None ansi_new =
      (Ok (Some (CsiEvent ForeColorRed)), s') \<and> ansi_inv s' \<and> ansi_state s' = Normal"
proof -
  have "csi_loop [] [] ([0x33, 0x31] @ [0x6D]) = Some (CsiEvent ForeColorRed)"
    by (simp add: is_digit_def select_seq_def parse_num_def digits_val_def char_seq_def)
  moreover have "ansi_state ansi_new = Normal" by (simp add: ansi_new_def)
  ultimately show ?thesis
    using ansi_stream_refines_parse [OF ansi_inv_new, of "[0x33, 0x31]" "0x6D"]
    by (simp add: is_ascii_alphabetic_def)
qed

text \<open>cursor positions survive the terminal: a row and a column printed in decimal as
  \<open>ESC [ row ; col H\<close> are parsed back to that row and column, for all \<open>u32\<close> numbers whose
  digits fit the 15-character buffer.\<close>

theorem cursor_position_roundtrip:
  assumes "ansi_inv s" and "ansi_state s = Normal"
    and "r < 2 ^ 32" and "c < 2 ^ 32" and "length (decimal r) + length (decimal c) \<le> 13"
  shows "\<exists>s'. push_all ([0x1B, 0x5B] @ decimal r @ [0x3B] @ decimal c @ [0x48]) None s =
      (Ok (Some (CsiEvent (CursorPosition r c))), s') \<and> ansi_inv s' \<and> ansi_state s' = Normal"
proof -
  have "\<forall>d\<in>set (decimal r @ [0x3B] @ decimal c). \<not> is_ascii_alphabetic d"
    using decimal_digits digit_not_alpha by (auto simp: is_ascii_alphabetic_def)
  with assms show ?thesis
    using csi_sequence [of s "decimal r @ [0x3B] @ decimal c" "0x48" None] csi_loop_position [of r c]
    by (simp add: is_ascii_alphabetic_def)
qed

theorem cursor_position_roundtrip_witness:
  "\<exists>s'. push_all ([0x1B, 0x5B] @ decimal 24 @ [0x3B] @ decimal 51 @ [0x48]) None ansi_new =
      (Ok (Some (CsiEvent (CursorPosition 24 51))), s') \<and> ansi_inv s' \<and> ansi_state s' = Normal"
proof -
  have "length (decimal 24) + length (decimal 51) \<le> 13"
    by (simp add: decimal.simps)
  then show ?thesis
    by (intro cursor_position_roundtrip ansi_inv_new) (simp_all add: ansi_new_def)
qed

end
