(* ===== verification/Checksum.thy ===== *)
theory Checksum
  imports Rust_Prelude
begin

unbundle bit_operations_syntax

text \<open>
  Big-endian integers on the wire and the Internet checksum, kernel/src/net/checksum.rs, with
  the two 32-bit loops at their width. The main facts: folding terminates and yields the
  one's complement of the sum modulo 65535, so a checksum that was computed verifies, and a
  packet verifies exactly when its 16-bit words add up to a multiple of 65535.
\<close>

datatype Ipv4Addr = Ipv4Addr u8 u8 u8 u8

fun octets :: "Ipv4Addr \<Rightarrow> u8 list" where
  "octets (Ipv4Addr a b c d) = [a, b, c, d]"

subsection \<open>Big-endian integers\<close>

definition be16 :: "u8 \<Rightarrow> u8 \<Rightarrow> u16" where
  "be16 h l = push_bit 8 (ucast h) OR ucast l"

definition be32 :: "u8 \<Rightarrow> u8 \<Rightarrow> u8 \<Rightarrow> u8 \<Rightarrow> u32" where
  "be32 a b c d = push_bit 24 (ucast a) OR push_bit 16 (ucast b) OR push_bit 8 (ucast c) OR ucast d"

definition to_be16 :: "u16 \<Rightarrow> u8 list" where
  "to_be16 w = [ucast (drop_bit 8 w), ucast w]"

definition to_be32 :: "u32 \<Rightarrow> u8 list" where
  "to_be32 w = [ucast (drop_bit 24 w), ucast (drop_bit 16 w), ucast (drop_bit 8 w), ucast w]"

lemma be16_parts [simp]: "be16 (ucast (drop_bit 8 w)) (ucast w) = w"
  by (rule bit_word_eqI) (auto simp: be16_def bit_simps)

lemma be32_parts [simp]:
  "be32 (ucast (drop_bit 24 w)) (ucast (drop_bit 16 w)) (ucast (drop_bit 8 w)) (ucast w) = w"
proof (rule bit_word_eqI)
  fix n assume "n < LENGTH(32)"
  then consider "n < 8" | "8 \<le> n" "n < 16" | "16 \<le> n" "n < 24" | "24 \<le> n" "n < 32" by fastforce
  then show "bit (be32 (ucast (drop_bit 24 w)) (ucast (drop_bit 16 w)) (ucast (drop_bit 8 w)) (ucast w)) n =
      bit w n"
    by cases (auto simp: be32_def bit_simps)
qed

lemma length_to_be [simp]: "length (to_be16 w) = 2" "length (to_be32 x) = 4"
  by (simp_all add: to_be16_def to_be32_def)

lemma unat_be16: "unat (be16 h l) = 256 * unat h + unat l"
proof -
  have "push_bit 8 (ucast h :: u16) AND ucast l = 0"
    by (rule bit_word_eqI) (auto simp: bit_simps dest: bit_imp_le_length)
  then have or_plus: "be16 h l = push_bit 8 (ucast h) + ucast l"
    using word_plus_and_or [of "push_bit 8 (ucast h :: u16)" "ucast l"] by (simp add: be16_def)
  have hb: "unat h < 256" "unat l < 256"
    using unat_bound [of h] unat_bound [of l] by simp_all
  have hl: "unat (ucast h :: u16) = unat h" "unat (ucast l :: u16) = unat l"
    using hb by (simp_all add: unsigned_ucast_eq take_bit_nat_eq_self_iff)
  have "unat (push_bit 8 (ucast h :: u16)) = 256 * unat h"
    unfolding unsigned_push_bit_eq hl(1)
    using hb by (simp add: push_bit_eq_mult take_bit_nat_eq_self mult.commute)
  then show ?thesis
    unfolding or_plus using hb hl by (subst unat_add_lem [THEN iffD1]) simp_all
qed

subsection \<open>The checksum\<close>

text \<open>\<open>data.chunks(2)\<close> as 16-bit words; an odd last byte is padded with 0.\<close>

fun chunk_words :: "u8 list \<Rightarrow> u16 list" where
  "chunk_words [] = []"
| "chunk_words [h] = [be16 h 0]"
| "chunk_words (h # l # rest) = be16 h l # chunk_words rest"

definition checksum_words :: "u8 list \<Rightarrow> u32" where
  "checksum_words bs = foldl (\<lambda>acc w. acc + ucast w) 0 (chunk_words bs)"

lemma carry_fold:
  fixes n :: nat
  shows "n mod 65536 + n div 65536 < n \<longleftrightarrow> 65536 \<le> n"
    and "(n mod 65536 + n div 65536) mod 65535 = n mod 65535"
    and "n mod 65536 + n div 65536 = 0 \<longleftrightarrow> n = 0"
proof -
  define q r where "q = n div 65536" and "r = n mod 65536"
  then have n: "n = 65536 * q + r" and r: "r < 65536" by simp_all
  have q: "65536 \<le> n \<longleftrightarrow> 0 < q" unfolding q_def by (simp add: div_greater_zero_iff)
  have "r + q < n \<longleftrightarrow> 0 < q" unfolding n by linarith
  then show "n mod 65536 + n div 65536 < n \<longleftrightarrow> 65536 \<le> n" using q by (simp add: q_def r_def)
  have "n = (r + q) + q * 65535" unfolding n by simp
  then have "(r + q) mod 65535 = n mod 65535" by (metis mod_mult_self1)
  then show "(n mod 65536 + n div 65536) mod 65535 = n mod 65535" by (simp add: q_def r_def)
  have "r + q = 0 \<longleftrightarrow> n = 0" unfolding n by linarith
  then show "n mod 65536 + n div 65536 = 0 \<longleftrightarrow> n = 0" by (simp add: q_def r_def)
qed

text \<open>The loop \<open>while (sum >> 16) > 0\<close>.\<close>

lemma fold_parts:
  "unat (drop_bit 16 (w :: u32)) = unat w div 65536"
  "unat (w AND 0xffff) = unat w mod 65536"
  "unat ((w AND 0xffff) + drop_bit 16 w) = unat w mod 65536 + unat w div 65536"
proof -
  show hi: "unat (drop_bit 16 w) = unat w div 65536"
    unfolding unat_drop_bit_eq by (simp add: drop_bit_eq_div)
  have "w AND 0xffff = take_bit 16 w" by (simp add: take_bit_eq_mask mask_eq_exp_minus_1)
  then show lo: "unat (w AND 0xffff) = unat w mod 65536"
    by (simp only: unsigned_take_bit_eq) (simp add: take_bit_eq_mod)
  have "unat w div 65536 < 65536" using unat_bound [of w] by simp
  then have "unat (w AND 0xffff) + unat (drop_bit 16 w) < 2 ^ LENGTH(32)"
    unfolding hi lo by simp
  then have "unat ((w AND 0xffff) + drop_bit 16 w) = unat (w AND 0xffff) + unat (drop_bit 16 w)"
    by (rule unat_add_lem [THEN iffD1])
  then show "unat ((w AND 0xffff) + drop_bit 16 w) = unat w mod 65536 + unat w div 65536"
    unfolding hi lo .
qed

lemma drop_bit_16_pos: "0 < drop_bit 16 (w :: u32) \<longleftrightarrow> 65536 \<le> unat w"
  using fold_parts(1) [of w] by (simp add: word_less_nat_alt div_greater_zero_iff)

function fold_loop :: "u32 \<Rightarrow> u32" where
  "fold_loop w = (if 0 < drop_bit 16 w then fold_loop ((w AND 0xffff) + drop_bit 16 w) else w)"
  by pat_completeness auto
termination
proof (relation "measure unat")
  fix w :: u32
  assume "0 < drop_bit 16 w"
  then have "65536 \<le> unat w" by (simp add: drop_bit_16_pos)
  then have "unat w mod 65536 + unat w div 65536 < unat w" by (simp only: carry_fold(1))
  then show "((w AND 0xffff) + drop_bit 16 w, w) \<in> measure unat" using fold_parts(3) [of w] by simp
qed simp

declare fold_loop.simps [simp del]

definition fold_checksum :: "u32 \<Rightarrow> u16" where
  "fold_checksum s = NOT (ucast (fold_loop s))"

text \<open>\<open>sum += x\<close> on a \<open>u32\<close> panics on overflow, that is, when the wrapped sum is smaller than \<open>sum\<close>.\<close>

fun add_all :: "u32 \<Rightarrow> u32 list \<Rightarrow> u32 outcome" where
  "add_all s [] = Ok s"
| "add_all s (w # ws) = (if s \<le> s + w then add_all (s + w) ws else Panic)"

fun pseudo_header_sum :: "Ipv4Addr \<Rightarrow> Ipv4Addr \<Rightarrow> u32 \<Rightarrow> nat \<Rightarrow> u32 outcome" where
  "pseudo_header_sum (Ipv4Addr s0 s1 s2 s3) (Ipv4Addr d0 d1 d2 d3) protocol len =
     add_all 0 [push_bit 8 (ucast s0) OR ucast s1,
                push_bit 8 (ucast s2) OR ucast s3,
                push_bit 8 (ucast d0) OR ucast d1,
                push_bit 8 (ucast d2) OR ucast d3,
                protocol,
                of_nat len]"

subsection \<open>One's complement arithmetic\<close>

text \<open>The loop keeps the sum modulo 65535 and keeps it positive.\<close>

lemma fold_loop_unat:
  "unat (fold_loop w) < 65536 \<and> unat (fold_loop w) mod 65535 = unat w mod 65535 \<and>
   (unat (fold_loop w) = 0 \<longleftrightarrow> unat w = 0)"
proof (induction w rule: fold_loop.induct)
  case (1 w)
  show ?case
  proof (cases "0 < drop_bit 16 w")
    case True
    let ?n = "unat w"
    let ?w = "(w AND 0xffff) + drop_bit 16 w"
    have "unat ?w mod 65535 = ?n mod 65535" unfolding fold_parts(3) by (rule carry_fold(2))
    moreover have "unat ?w = 0 \<longleftrightarrow> ?n = 0" unfolding fold_parts(3) by (rule carry_fold(3))
    ultimately show ?thesis using 1 [OF True] True by (simp add: fold_loop.simps [of w])
  next
    case False
    then show ?thesis using drop_bit_16_pos [of w] by (simp add: fold_loop.simps [of w])
  qed
qed

definition ones_fold :: "nat \<Rightarrow> nat" where
  "ones_fold n = (if n = 0 then 0 else if n mod 65535 = 0 then 65535 else n mod 65535)"

lemma ones_fold_unique:
  fixes r n :: nat
  assumes "r < 65536" and "r mod 65535 = n mod 65535" and "r = 0 \<longleftrightarrow> n = 0"
  shows "r = ones_fold n"
proof (cases "r = 65535")
  case True
  then show ?thesis using assms by (simp add: ones_fold_def)
next
  case False
  then have "r mod 65535 = r" using assms(1) by simp
  then show ?thesis using assms False by (simp add: ones_fold_def)
qed

lemma unat_fold_loop: "unat (fold_loop w) = ones_fold (unat w)"
  using fold_loop_unat [of w] by (intro ones_fold_unique) auto

lemma unat_NOT_u16: "unat (NOT (w :: u16)) = 65535 - unat w"
proof -
  have "unat (- 1 - w) = unat (- 1 :: u16) - unat w" by (rule unat_sub) simp
  moreover have "NOT w = - 1 - w" by (simp add: not_eq_complement)
  moreover have "unat (- 1 :: u16) = 65535"
    by (simp add: unsigned_minus_1_eq_mask mask_eq_exp_minus_1)
  ultimately show ?thesis by simp
qed

lemma unat_fold_checksum: "unat (fold_checksum w) = 65535 - ones_fold (unat w)"
proof -
  have "unat (ucast (fold_loop w) :: u16) = unat (fold_loop w)"
    using fold_loop_unat [of w] by (simp add: unsigned_ucast_eq take_bit_nat_eq_self_iff)
  then show ?thesis by (simp add: fold_checksum_def unat_NOT_u16 unat_fold_loop)
qed


text \<open>The loop adds at most 65535 words of 16 bits, so that it cannot wrap.\<close>

definition word_total :: "u8 list \<Rightarrow> nat" where
  "word_total bs = sum_list (map unat (chunk_words bs))"

lemma length_chunk_words [simp]: "length (chunk_words bs) = (length bs + 1) div 2"
  by (induction bs rule: chunk_words.induct) auto

lemma word_total_bound: "word_total bs \<le> 65535 * ((length bs + 1) div 2)"
proof -
  have "unat w \<le> 65535" for w :: u16 using unat_bound [of w] by simp
  then have "sum_list (map unat ws) \<le> 65535 * length ws" for ws :: "u16 list"
    by (induction ws) (simp_all add: add_mono)
  then show ?thesis unfolding word_total_def by (metis length_chunk_words)
qed

lemma foldl_word_sum:
  "unat a + sum_list (map unat ws) < 2 ^ 32 \<Longrightarrow>
   unat (foldl (\<lambda>acc (w :: u16). acc + ucast w) (a :: u32) ws) = unat a + sum_list (map unat ws)"
proof (induction ws arbitrary: a)
  case (Cons w ws)
  have w: "unat (ucast w :: u32) = unat w"
    using unat_bound [of w] by (simp add: unsigned_ucast_eq take_bit_nat_eq_self_iff)
  have "unat (a + ucast w) = unat a + unat w"
    using Cons.prems w by (subst unat_add_lem [THEN iffD1]) simp_all
  then show ?case using Cons by simp
qed simp

lemma unat_checksum_words:
  assumes "length bs \<le> 131070"
  shows "unat (checksum_words bs) = word_total bs"
proof -
  have "word_total bs < 2 ^ 32"
    using word_total_bound [of bs] assms by (simp add: less_eq_Suc_le)
  then show ?thesis unfolding checksum_words_def word_total_def by (simp add: foldl_word_sum)
qed

lemma chunk_words_append: "even (length xs) \<Longrightarrow> chunk_words (xs @ ys) = chunk_words xs @ chunk_words ys"
  by (induction xs rule: chunk_words.induct) auto

lemma word_total_append: "even (length xs) \<Longrightarrow> word_total (xs @ ys) = word_total xs + word_total ys"
  by (simp add: word_total_def chunk_words_append)

lemma word_total_simps [simp]: "word_total [] = 0" "word_total (h # l # bs) = unat (be16 h l) + word_total bs"
  by (simp_all add: word_total_def)

lemma fold_checksum_zero: "fold_checksum w = 0 \<longleftrightarrow> 0 < unat w \<and> unat w mod 65535 = 0"
proof -
  have "fold_checksum w = 0 \<longleftrightarrow> unat (fold_checksum w) = 0" by (simp add: unat_eq_0)
  also have "\<dots> \<longleftrightarrow> 65535 \<le> ones_fold (unat w)" by (simp add: unat_fold_checksum)
  also have "\<dots> \<longleftrightarrow> 0 < unat w \<and> unat w mod 65535 = 0"
  proof -
    have "unat w mod 65535 < 65535" by simp
    then show ?thesis by (auto simp: ones_fold_def)
  qed
  finally show ?thesis .
qed

text \<open>A checksum added to the words it was computed from completes them to a positive multiple
  of 65535.\<close>

lemma checksum_completes:
  "(n + (65535 - ones_fold n)) mod 65535 = 0 \<and> 0 < n + (65535 - ones_fold n)"
proof -
  define q r where "q = n div 65535" and "r = n mod 65535"
  then have n: "n = 65535 * q + r" and r: "r < 65535" by simp_all
  then have "n + (65535 - r) = 65535 * (q + 1)" by simp
  then have "(n + (65535 - r)) mod 65535 = 0" by (simp only: mod_mult_self1_is_0)
  moreover have "0 < 65535 - r" using r by simp
  moreover have "r = 0 \<Longrightarrow> n mod 65535 = 0" by (simp add: r_def)
  ultimately show ?thesis by (auto simp: ones_fold_def r_def [symmetric])
qed

subsection \<open>The pseudo header\<close>

lemma add_all_Ok:
  "unat s + sum_list (map unat ws) < 2 ^ 32 \<Longrightarrow>
   \<exists>r. add_all s ws = Ok r \<and> unat r = unat s + sum_list (map unat ws)"
proof (induction ws arbitrary: s)
  case (Cons w ws)
  have "unat s + unat w < 2 ^ LENGTH(32)" using Cons.prems by simp
  then have "s \<le> s + w" "unat (s + w) = unat s + unat w"
    by (simp_all only: no_olen_add_nat unat_add_lem)
  then show ?case using Cons.IH [of "s + w"] Cons.prems by (simp add: add.assoc)
qed simp

fun pseudo_header_nat :: "Ipv4Addr \<Rightarrow> Ipv4Addr \<Rightarrow> u32 \<Rightarrow> nat \<Rightarrow> nat" where
  "pseudo_header_nat (Ipv4Addr s0 s1 s2 s3) (Ipv4Addr d0 d1 d2 d3) protocol len =
     unat (be16 s0 s1) + unat (be16 s2 s3) + unat (be16 d0 d1) + unat (be16 d2 d3) +
     unat protocol + len"

lemma unat_pair_u32: "unat (push_bit 8 (ucast h) OR ucast l :: u32) = unat (be16 h l)"
proof -
  have "push_bit 8 (ucast h) OR ucast l = (ucast (be16 h l) :: u32)"
    by (rule bit_word_eqI) (auto simp: be16_def bit_simps dest: bit_imp_le_length)
  moreover have "unat (ucast (be16 h l) :: u32) = unat (be16 h l)"
    using unat_bound [of "be16 h l"] by (simp add: unsigned_ucast_eq take_bit_nat_eq_self)
  ultimately show ?thesis by simp
qed

lemma pseudo_header_sum_Ok:
  assumes "unat protocol < 256" and "len \<le> 65535"
  shows "\<exists>r. pseudo_header_sum src dst protocol len = Ok r \<and>
    unat r = pseudo_header_nat src dst protocol len \<and> pseudo_header_nat src dst protocol len < 400000"
proof (cases src; cases dst)
  fix s0 s1 s2 s3 d0 d1 d2 d3
  assume eqs: "src = Ipv4Addr s0 s1 s2 s3" "dst = Ipv4Addr d0 d1 d2 d3"
  have len: "unat (of_nat len :: u32) = len" using assms(2) by (simp add: unat_of_nat)
  have bounds: "unat (be16 s0 s1) < 65536" "unat (be16 s2 s3) < 65536" "unat (be16 d0 d1) < 65536"
    "unat (be16 d2 d3) < 65536"
    using unat_bound [of "be16 s0 s1"] unat_bound [of "be16 s2 s3"] unat_bound [of "be16 d0 d1"]
      unat_bound [of "be16 d2 d3"] by simp_all
  let ?ws = "[push_bit 8 (ucast s0) OR ucast s1, push_bit 8 (ucast s2) OR ucast s3,
    push_bit 8 (ucast d0) OR ucast d1, push_bit 8 (ucast d2) OR ucast d3, protocol, of_nat len] :: u32 list"
  have total: "unat (0 :: u32) + sum_list (map unat ?ws) = pseudo_header_nat src dst protocol len"
    by (simp add: eqs unat_pair_u32 len)
  have small: "pseudo_header_nat src dst protocol len < 400000" using assms bounds by (simp add: eqs)
  then have "unat (0 :: u32) + sum_list (map unat ?ws) < 2 ^ 32" unfolding total by simp
  from add_all_Ok [OF this] show ?thesis unfolding total using small by (simp only: eqs pseudo_header_sum.simps simp_thms)
qed

end
