(* ===== verification/Packets.thy ===== *)
theory Packets
  imports Checksum
begin

text \<open>
  The packet formats below IPv4 and beside it: Ethernet addresses and types
  (kernel/src/net/eth.rs, first half), ARP (arp.rs), ICMP (icmp.rs), UDP (udp.rs, the packet) and
  TCP (tcp.rs, the packet). Each has an encoder (\<open>to_vec\<close>) and a decoder (\<open>try_from\<close>); the
  locales \<open>wire_format\<close>, \<open>padded_format\<close> and \<open>lossless_format\<close> state what the layers above rely on,
  and each format is interpreted in the ones it satisfies.
\<close>

subsection \<open>Contracts of a wire format\<close>

locale wire_format =
  fixes encode :: "'p \<Rightarrow> u8 list"
    and decode :: "u8 list \<Rightarrow> 'p outcome"
    and wf :: "'p \<Rightarrow> bool"
    and min_len :: nat
  assumes roundtrip: "wf p \<Longrightarrow> decode (encode p) = Ok p"
    and short_buffer:
      "length bs < min_len \<Longrightarrow> decode bs = err (InvalidBufferSize min_len (length bs))"
begin

lemma encode_inj: "wf p \<Longrightarrow> wf q \<Longrightarrow> encode p = encode q \<Longrightarrow> p = q"
  by (metis outcome.inject(1) roundtrip)

lemma encode_length: "wf p \<Longrightarrow> min_len \<le> length (encode p)"
  by (metis not_less outcome.distinct(1) roundtrip short_buffer)

end

text \<open>A format that finds its own end: bytes that follow the packet do not disturb it.\<close>

locale padded_format = wire_format +
  assumes padding: "wf p \<Longrightarrow> decode (encode p @ pad) = Ok p"
begin

lemma prefix_free:
  assumes "wf p" "wf q" "encode p @ r = encode q @ s"
  shows "p = q \<and> r = s"
  by (metis append_same_eq assms outcome.inject(1) padding same_append_eq)

end

text \<open>A format whose decoder loses nothing: what it accepts starts with the packet's encoding.\<close>

locale lossless_format = wire_format +
  assumes decoded_prefix: "decode bs = Ok p \<Longrightarrow> wf p \<and> (\<exists>pad. bs = encode p @ pad)"
begin

lemma decode_again: "decode bs = Ok p \<Longrightarrow> decode (encode p) = Ok p"
  using decoded_prefix roundtrip by blast

lemma decode_image: "(\<exists>bs. decode bs = Ok p) \<longleftrightarrow> wf p"
  using decoded_prefix roundtrip by blast

end

subsection \<open>Ethernet addresses and types\<close>

datatype EthernetAddress = EthernetAddress u8 u8 u8 u8 u8 u8

fun mac_bytes :: "EthernetAddress \<Rightarrow> u8 list" where
  "mac_bytes (EthernetAddress a b c d e f) = [a, b, c, d, e, f]"

definition broadcast :: EthernetAddress where
  "broadcast = EthernetAddress 0xff 0xff 0xff 0xff 0xff 0xff"

text \<open>\<open>[data[i], \<dots>, data[i + 5]].into()\<close> and \<open>Ipv4Addr::new\<close> at an offset; the callers have checked
  the length.\<close>

definition mac_at :: "u8 list \<Rightarrow> nat \<Rightarrow> EthernetAddress" where
  "mac_at bs i = EthernetAddress (bs ! i) (bs ! (i + 1)) (bs ! (i + 2)) (bs ! (i + 3)) (bs ! (i + 4)) (bs ! (i + 5))"

definition ipv4_at :: "u8 list \<Rightarrow> nat \<Rightarrow> Ipv4Addr" where
  "ipv4_at bs i = Ipv4Addr (bs ! i) (bs ! (i + 1)) (bs ! (i + 2)) (bs ! (i + 3))"

datatype EthernetType = EtIpv4 | EtIpv6 | EtArp | EtOther u16 | PayloadLength u16

definition eth_type_of :: "u8 \<Rightarrow> u8 \<Rightarrow> EthernetType" where
  "eth_type_of h l =
     (let value = be16 h l in
      if value \<le> 0x05dc then PayloadLength value
      else if value = 0x0800 then EtIpv4
      else if value = 0x86dd then EtIpv6
      else if value = 0x0806 then EtArp
      else EtOther value)"

fun eth_type_bytes :: "EthernetType \<Rightarrow> u8 list" where
  "eth_type_bytes EtIpv4 = [0x08, 0x00]"
| "eth_type_bytes EtIpv6 = [0x86, 0xdd]"
| "eth_type_bytes EtArp = [0x08, 0x06]"
| "eth_type_bytes (EtOther value) = to_be16 value"
| "eth_type_bytes (PayloadLength value) = to_be16 value"

text \<open>The types that the decoder can produce.\<close>

fun eth_type_wf :: "EthernetType \<Rightarrow> bool" where
  "eth_type_wf (EtOther v) = (\<not> v \<le> 0x05dc \<and> v \<noteq> 0x0800 \<and> v \<noteq> 0x86dd \<and> v \<noteq> 0x0806)"
| "eth_type_wf (PayloadLength v) = (v \<le> 0x05dc)"
| "eth_type_wf _ = True"

lemma be16_inv: "to_be16 (be16 h l) = [h, l]"
proof -
  have "ucast (drop_bit 8 (be16 h l)) = h"
    by (rule bit_word_eqI) (auto simp: be16_def bit_simps dest: bit_imp_le_length)
  moreover have "ucast (be16 h l) = l"
    by (rule bit_word_eqI) (auto simp: be16_def bit_simps)
  ultimately show ?thesis by (simp add: to_be16_def)
qed

lemma be16_of_to_be16 [simp]: "be16 (to_be16 w ! 0) (to_be16 w ! 1) = w"
  by (simp add: to_be16_def)

lemma be16_nums: "be16 8 0 = 0x0800" "be16 0x86 0xdd = 0x86dd" "be16 8 6 = 0x0806"
  by (simp_all add: be16_def)

lemma eth_type_roundtrip:
  "eth_type_wf t \<Longrightarrow> eth_type_of (eth_type_bytes t ! 0) (eth_type_bytes t ! 1) = t"
  by (cases t) (simp_all add: eth_type_of_def be16_nums del: One_nat_def)

lemma eth_type_of_wf: "eth_type_wf (eth_type_of h l)"
  by (simp add: eth_type_of_def Let_def)

lemma eth_type_bytes_of: "eth_type_bytes (eth_type_of h l) = [h, l]"
proof -
  have "to_be16 0x0800 = [0x08, 0x00]" "to_be16 0x86dd = [0x86, 0xdd]" "to_be16 0x0806 = [0x08, 0x06]"
    by (simp_all add: to_be16_def)
  then have "eth_type_bytes (eth_type_of h l) = to_be16 (be16 h l)"
    by (simp add: eth_type_of_def Let_def)
  then show ?thesis by (simp add: be16_inv)
qed

subsection \<open>ARP\<close>

datatype ArpOperation = ArpRequest | ArpReply

fun arp_op_bytes :: "ArpOperation \<Rightarrow> u8 list" where
  "arp_op_bytes ArpRequest = [0, 1]"
| "arp_op_bytes ArpReply = [0, 2]"

definition arp_op_of :: "u8 list \<Rightarrow> ArpOperation outcome" where
  "arp_op_of value =
     (if value = [0, 1] then Ok ArpRequest
      else if value = [0, 2] then Ok ArpReply
      else err InvalidData)"

record ArpPacket =
  hardware_ty :: "u8 \<times> u8"
  protocol_ty :: EthernetType
  hardware_len :: u8
  protocol_len :: u8
  arp_op_field :: "u8 \<times> u8"
  sender_eth_addr :: EthernetAddress
  sender_ipv4_addr :: Ipv4Addr
  target_eth_addr :: EthernetAddress
  target_ipv4_addr :: Ipv4Addr

definition arp_try_from :: "u8 list \<Rightarrow> ArpPacket outcome" where
  "arp_try_from bs =
     (if length bs < 28 then err (InvalidBufferSize 28 (length bs))
      else Ok \<lparr>hardware_ty = (bs ! 0, bs ! 1),
               protocol_ty = eth_type_of (bs ! 2) (bs ! 3),
               hardware_len = bs ! 4,
               protocol_len = bs ! 5,
               arp_op_field = (bs ! 6, bs ! 7),
               sender_eth_addr = mac_at bs 8,
               sender_ipv4_addr = ipv4_at bs 14,
               target_eth_addr = mac_at bs 18,
               target_ipv4_addr = ipv4_at bs 24\<rparr>)"

definition pair_of :: "u8 list \<Rightarrow> u8 \<times> u8" where
  "pair_of bs = (bs ! 0, bs ! 1)"

definition arp_new_with ::
  "ArpOperation \<Rightarrow> EthernetAddress \<Rightarrow> Ipv4Addr \<Rightarrow> EthernetAddress \<Rightarrow> Ipv4Addr \<Rightarrow> ArpPacket" where
  "arp_new_with op_ty se sip te tip =
     \<lparr>hardware_ty = (0, 1), protocol_ty = EtIpv4, hardware_len = 6, protocol_len = 4,
      arp_op_field = pair_of (arp_op_bytes op_ty),
      sender_eth_addr = se, sender_ipv4_addr = sip, target_eth_addr = te, target_ipv4_addr = tip\<rparr>"

definition arp_op :: "ArpPacket \<Rightarrow> ArpOperation outcome" where
  "arp_op p = arp_op_of [fst (arp_op_field p), snd (arp_op_field p)]"

definition arp_to_vec :: "ArpPacket \<Rightarrow> u8 list" where
  "arp_to_vec p =
     [fst (hardware_ty p), snd (hardware_ty p)] @ eth_type_bytes (protocol_ty p) @
     [hardware_len p] @ [protocol_len p] @ [fst (arp_op_field p), snd (arp_op_field p)] @
     mac_bytes (sender_eth_addr p) @ octets (sender_ipv4_addr p) @
     mac_bytes (target_eth_addr p) @ octets (target_ipv4_addr p)"

definition arp_wf :: "ArpPacket \<Rightarrow> bool" where
  "arp_wf p = eth_type_wf (protocol_ty p)"

lemma arp_op_new_with [simp]: "arp_op (arp_new_with t a b c d) = Ok t"
  by (cases t) (simp_all add: arp_op_def arp_new_with_def pair_of_def arp_op_of_def)

lemma arp_wf_new_with [simp]: "arp_wf (arp_new_with t a b c d)"
  by (simp add: arp_wf_def arp_new_with_def)

lemma eth_type_bytes_two: "\<exists>h l. eth_type_bytes t = [h, l]"
  by (cases t) (simp_all add: to_be16_def)

lemma arp_decode_encode:
  assumes "arp_wf p"
  shows "arp_try_from (arp_to_vec p @ pad) = Ok p"
proof -
  obtain h l where ty: "eth_type_bytes (protocol_ty p) = [h, l]" using eth_type_bytes_two by blast
  then have "eth_type_of h l = protocol_ty p"
    using eth_type_roundtrip assms by (fastforce simp: arp_wf_def)
  then show ?thesis
    by (cases p; cases "sender_eth_addr p"; cases "sender_ipv4_addr p"; cases "target_eth_addr p";
        cases "target_ipv4_addr p")
      (use ty in \<open>simp add: arp_try_from_def arp_to_vec_def mac_at_def ipv4_at_def\<close>)
qed

text \<open>A list that is long enough starts with its elements.\<close>

lemma list_prefix: "n \<le> length bs \<Longrightarrow> bs = map ((!) bs) [0..<n] @ drop n bs"
proof -
  assume "n \<le> length bs"
  then have "take n bs = map ((!) bs) [0..<n]" by (intro nth_equalityI) simp_all
  then show ?thesis by (metis append_take_drop_id)
qed

lemma upt_two: "(2 :: nat) \<le> numeral k \<Longrightarrow> [0..<numeral k] = 0 # Suc 0 # [2..<numeral k]"
  by (simp add: upt_conv_Cons numeral_2_eq_2)

lemmas upt_unfold = upt_two upt_rec_numeral

lemma arp_encode_decode:
  assumes "arp_try_from bs = Ok p"
  shows "arp_wf p \<and> (\<exists>pad. bs = arp_to_vec p @ pad)"
proof -
  have len: "28 \<le> length bs" and p: "p = \<lparr>hardware_ty = (bs ! 0, bs ! 1),
      protocol_ty = eth_type_of (bs ! 2) (bs ! 3), hardware_len = bs ! 4, protocol_len = bs ! 5,
      arp_op_field = (bs ! 6, bs ! 7), sender_eth_addr = mac_at bs 8, sender_ipv4_addr = ipv4_at bs 14,
      target_eth_addr = mac_at bs 18, target_ipv4_addr = ipv4_at bs 24\<rparr>"
    using assms by (auto simp: arp_try_from_def split: if_splits)
  have "map ((!) bs) [0..<28] = arp_to_vec p"
    unfolding p by (simp add: arp_to_vec_def eth_type_bytes_of mac_at_def ipv4_at_def upt_unfold)
  then have "bs = arp_to_vec p @ drop 28 bs" using list_prefix [OF len] by metis
  moreover have "arp_wf p" unfolding p by (simp add: arp_wf_def eth_type_of_wf)
  ultimately show ?thesis by blast
qed

interpretation arp: padded_format arp_to_vec arp_try_from arp_wf 28
  using arp_decode_encode [where pad = "[]"] arp_decode_encode
  by unfold_locales (simp_all add: arp_try_from_def)

interpretation arp_lossless: lossless_format arp_to_vec arp_try_from arp_wf 28
  by unfold_locales (rule arp_encode_decode)

subsection \<open>ICMP\<close>

datatype IcmpType = EchoReply | EchoRequest | IcmpOther u8

fun icmp_type_byte :: "IcmpType \<Rightarrow> u8" where
  "icmp_type_byte EchoReply = 0"
| "icmp_type_byte EchoRequest = 8"
| "icmp_type_byte (IcmpOther x) = x"

definition icmp_type_of :: "u8 \<Rightarrow> IcmpType" where
  "icmp_type_of x = (if x = 0 then EchoReply else if x = 8 then EchoRequest else IcmpOther x)"

record IcmpPacket =
  icmp_ty :: IcmpType
  icmp_code :: u8
  icmp_checksum :: u16
  icmp_id :: u16
  icmp_seq :: u16
  icmp_data :: "u8 list"

definition icmp_try_from :: "u8 list \<Rightarrow> IcmpPacket outcome" where
  "icmp_try_from value =
     (if length value < 8 then err (InvalidBufferSize 8 (length value))
      else Ok \<lparr>icmp_ty = icmp_type_of (value ! 0),
               icmp_code = value ! 1,
               icmp_checksum = be16 (value ! 2) (value ! 3),
               icmp_id = be16 (value ! 4) (value ! 5),
               icmp_seq = be16 (value ! 6) (value ! 7),
               icmp_data = drop 8 value\<rparr>)"

definition icmp_to_vec :: "IcmpPacket \<Rightarrow> u8 list" where
  "icmp_to_vec p =
     [icmp_type_byte (icmp_ty p)] @ [icmp_code p] @ to_be16 (icmp_checksum p) @
     to_be16 (icmp_id p) @ to_be16 (icmp_seq p) @ icmp_data p"

text \<open>\<open>calc_checksum\<close> iterates over the chunks of the header and then over those of the data; \<open>id >> 8\<close>
  and \<open>id & 0xff\<close> as bytes are the big-endian bytes. The loop and the folding are the ones of
  checksum.rs written out again.\<close>

definition icmp_calc_checksum :: "IcmpPacket \<Rightarrow> IcmpPacket" where
  "icmp_calc_checksum p =
     (let header = [icmp_type_byte (icmp_ty p), icmp_code p, 0, 0] @
            [ucast (drop_bit 8 (icmp_id p)), ucast (icmp_id p AND 0xff)] @
            [ucast (drop_bit 8 (icmp_seq p)), ucast (icmp_seq p AND 0xff)];
          s = foldl (\<lambda>acc w. acc + ucast w) (0 :: u32) (chunk_words header @ chunk_words (icmp_data p))
      in p\<lparr>icmp_checksum := NOT (ucast (fold_loop s))\<rparr>)"

definition icmp_wf :: "IcmpPacket \<Rightarrow> bool" where
  "icmp_wf p = (icmp_type_of (icmp_type_byte (icmp_ty p)) = icmp_ty p)"

lemma icmp_type_byte_of [simp]: "icmp_type_byte (icmp_type_of x) = x"
  by (simp add: icmp_type_of_def)

lemma icmp_decode_encode: "icmp_wf p \<Longrightarrow> icmp_try_from (icmp_to_vec p) = Ok p"
  by (cases p) (simp add: icmp_try_from_def icmp_to_vec_def icmp_wf_def to_be16_def)

lemma icmp_encode_decode:
  assumes "icmp_try_from bs = Ok p"
  shows "icmp_wf p \<and> bs = icmp_to_vec p"
proof -
  have len: "8 \<le> length bs" and p: "p = \<lparr>icmp_ty = icmp_type_of (bs ! 0), icmp_code = bs ! 1,
      icmp_checksum = be16 (bs ! 2) (bs ! 3), icmp_id = be16 (bs ! 4) (bs ! 5),
      icmp_seq = be16 (bs ! 6) (bs ! 7), icmp_data = drop 8 bs\<rparr>"
    using assms by (auto simp: icmp_try_from_def split: if_splits)
  have "map ((!) bs) [0..<8] @ drop 8 bs = icmp_to_vec p"
    unfolding p by (simp add: icmp_to_vec_def be16_inv upt_unfold)
  moreover have "icmp_wf p" unfolding p by (simp add: icmp_wf_def)
  ultimately show ?thesis using list_prefix [OF len] by metis
qed

interpretation icmp: lossless_format icmp_to_vec icmp_try_from icmp_wf 8
proof unfold_locales
  show "length bs < 8 \<Longrightarrow> icmp_try_from bs = err (InvalidBufferSize 8 (length bs))" for bs
    by (simp add: icmp_try_from_def)
qed (use icmp_decode_encode icmp_encode_decode in auto)

subsection \<open>UDP\<close>

record UdpPacket =
  udp_src_port :: u16
  udp_dst_port :: u16
  udp_len :: u16
  udp_checksum :: u16
  udp_data :: "u8 list"

text \<open>\<open>value[8..(len as usize)]\<close> is a slice with the length of the packet's own header.\<close>

definition udp_try_from :: "u8 list \<Rightarrow> UdpPacket outcome" where
  "udp_try_from value =
     (if length value < 8 then err (InvalidBufferSize 8 (length value))
      else let len = be16 (value ! 4) (value ! 5) in
           map_ok (\<lambda>d. \<lparr>udp_src_port = be16 (value ! 0) (value ! 1),
                        udp_dst_port = be16 (value ! 2) (value ! 3),
                        udp_len = len,
                        udp_checksum = be16 (value ! 6) (value ! 7),
                        udp_data = d\<rparr>)
             (slice value 8 (unat len)))"

text \<open>A checked addition on \<open>u16\<close>.\<close>

definition add_u16 :: "u16 \<Rightarrow> u16 \<Rightarrow> u16 outcome" where
  "add_u16 a b = (if a \<le> a + b then Ok (a + b) else Panic)"

definition udp_new_with :: "u16 \<Rightarrow> u16 \<Rightarrow> u8 list \<Rightarrow> UdpPacket outcome" where
  "udp_new_with src dst bs =
     map_ok (\<lambda>len. \<lparr>udp_src_port = src, udp_dst_port = dst, udp_len = len, udp_checksum = 0, udp_data = bs\<rparr>)
       (add_u16 8 (of_nat (length bs)))"

definition udp_to_vec :: "UdpPacket \<Rightarrow> u8 list" where
  "udp_to_vec p =
     to_be16 (udp_src_port p) @ to_be16 (udp_dst_port p) @ to_be16 (udp_len p) @
     to_be16 (udp_checksum p) @ udp_data p"

definition udp_calc_checksum_with_ipv4 :: "Ipv4Addr \<Rightarrow> Ipv4Addr \<Rightarrow> UdpPacket \<Rightarrow> UdpPacket outcome" where
  "udp_calc_checksum_with_ipv4 src dst p =
     (let udp_vec = udp_to_vec (p\<lparr>udp_checksum := 0\<rparr>) in
      map_ok (\<lambda>ph. p\<lparr>udp_checksum := fold_checksum (ph + checksum_words udp_vec)\<rparr>)
        (pseudo_header_sum src dst 17 (length udp_vec)))"

definition udp_wf :: "UdpPacket \<Rightarrow> bool" where
  "udp_wf p = (unat (udp_len p) = 8 + length (udp_data p))"

lemma udp_decode_encode: "udp_wf p \<Longrightarrow> udp_try_from (udp_to_vec p @ pad) = Ok p"
  by (cases p) (simp add: udp_try_from_def udp_to_vec_def udp_wf_def to_be16_def)

lemma udp_encode_decode:
  assumes "udp_try_from bs = Ok p"
  shows "udp_wf p \<and> (\<exists>pad. bs = udp_to_vec p @ pad)"
proof -
  let ?n = "unat (be16 (bs ! 4) (bs ! 5))"
  have len: "8 \<le> length bs" and n: "8 \<le> ?n" "?n \<le> length bs"
    and p: "p = \<lparr>udp_src_port = be16 (bs ! 0) (bs ! 1), udp_dst_port = be16 (bs ! 2) (bs ! 3),
      udp_len = be16 (bs ! 4) (bs ! 5), udp_checksum = be16 (bs ! 6) (bs ! 7),
      udp_data = take (?n - 8) (drop 8 bs)\<rparr>"
    using assms by (auto simp: udp_try_from_def Let_def slice_def split: if_splits)
  have "map ((!) bs) [0..<8] @ take (?n - 8) (drop 8 bs) = udp_to_vec p"
    unfolding p by (simp add: udp_to_vec_def be16_inv upt_unfold)
  then have "bs = udp_to_vec p @ drop (?n - 8) (drop 8 bs)"
    using list_prefix [OF len] by (metis append_assoc append_take_drop_id)
  moreover have "udp_wf p" unfolding p using n by (simp add: udp_wf_def)
  ultimately show ?thesis by blast
qed

lemma add_u16_Ok: "add_u16 a b = Ok c \<Longrightarrow> unat c = unat a + unat b"
  by (auto simp: add_u16_def no_olen_add_nat unat_add_lem [THEN iffD1] split: if_splits)

lemma unat_of_nat_u16 [simp]: "n < 65536 \<Longrightarrow> unat (of_nat n :: u16) = n"
  by (simp add: unat_of_nat)

lemma udp_wf_new_with:
  assumes "udp_new_with s d bs = Ok p" and "length bs < 65536"
  shows "udp_wf p" and "udp_data p = bs"
proof -
  obtain len where "add_u16 8 (of_nat (length bs)) = Ok len" "udp_len p = len" and d: "udp_data p = bs"
    using assms(1) by (auto simp: udp_new_with_def map_ok_Ok_iff)
  then show "udp_wf p" using add_u16_Ok assms(2) by (fastforce simp: udp_wf_def)
  show "udp_data p = bs" by (rule d)
qed

interpretation udp: padded_format udp_to_vec udp_try_from udp_wf 8
  using udp_decode_encode [where pad = "[]"] udp_decode_encode
  by unfold_locales (simp_all add: udp_try_from_def)

interpretation udp_lossless: lossless_format udp_to_vec udp_try_from udp_wf 8
  by unfold_locales (rule udp_encode_decode)

subsection \<open>TCP\<close>

record TcpPacket =
  tcp_src_port :: u16
  tcp_dst_port :: u16
  tcp_seq_num :: u32
  tcp_ack_num :: u32
  tcp_flags :: u16
  tcp_window_size :: u16
  tcp_checksum :: u16
  tcp_urgent_ptr :: u16
  tcp_options :: "u8 list"
  tcp_data :: "u8 list"

definition FLAGS_FIN :: u16 where "FLAGS_FIN = 0x01"
definition FLAGS_SYN :: u16 where "FLAGS_SYN = 0x02"
definition FLAGS_RST :: u16 where "FLAGS_RST = 0x04"
definition FLAGS_PSH :: u16 where "FLAGS_PSH = 0x08"
definition FLAGS_ACK :: u16 where "FLAGS_ACK = 0x10"

lemmas flags_defs = FLAGS_FIN_def FLAGS_SYN_def FLAGS_RST_def FLAGS_PSH_def FLAGS_ACK_def

definition tcp_try_from :: "u8 list \<Rightarrow> TcpPacket outcome" where
  "tcp_try_from value =
     (if length value < 20 then err (InvalidBufferSize 20 (length value))
      else let flags = be16 (value ! 12) (value ! 13);
               data_offset_words = unat (drop_bit 12 flags);
               header_len = data_offset_words * 4 in
           if data_offset_words < 5 then err_ctx InvalidData ''TCP data offset''
           else if length value < header_len then err (InvalidBufferSize header_len (length value))
           else Ok \<lparr>tcp_src_port = be16 (value ! 0) (value ! 1),
                    tcp_dst_port = be16 (value ! 2) (value ! 3),
                    tcp_seq_num = be32 (value ! 4) (value ! 5) (value ! 6) (value ! 7),
                    tcp_ack_num = be32 (value ! 8) (value ! 9) (value ! 10) (value ! 11),
                    tcp_flags = flags,
                    tcp_window_size = be16 (value ! 14) (value ! 15),
                    tcp_checksum = be16 (value ! 16) (value ! 17),
                    tcp_urgent_ptr = be16 (value ! 18) (value ! 19),
                    tcp_options = take (header_len - 20) (drop 20 value),
                    tcp_data = drop header_len value\<rparr>)"

text \<open>\<open>Vec::resize(n, 0)\<close>.\<close>

definition resize :: "nat \<Rightarrow> u8 list \<Rightarrow> u8 list" where
  "resize n bs = take n bs @ replicate (n - length bs) 0"

text \<open>\<open>header_len\<close> is in 32-bit words and is shifted into the top four bits of the flags; the
  subtraction in \<open>header_len as usize * 4 - 20\<close> is checked.\<close>

definition tcp_new_with ::
  "u16 \<Rightarrow> u16 \<Rightarrow> u32 \<Rightarrow> u32 \<Rightarrow> u16 \<Rightarrow> u16 \<Rightarrow> u16 \<Rightarrow> u8 list \<Rightarrow> u8 list \<Rightarrow> TcpPacket outcome" where
  "tcp_new_with src dst seq ack flags_without_header_len window urgent options bs =
     (let header_len = of_nat ((20 + length options + 3) div 4) :: u16;
          flags = push_bit 12 header_len OR (flags_without_header_len AND 0x0fff) in
      map_ok (\<lambda>n. \<lparr>tcp_src_port = src, tcp_dst_port = dst, tcp_seq_num = seq, tcp_ack_num = ack,
                   tcp_flags = flags, tcp_window_size = window, tcp_checksum = 0,
                   tcp_urgent_ptr = urgent, tcp_options = resize n options, tcp_data = bs\<rparr>)
        (usub (unat header_len * 4) 20))"

definition tcp_to_vec :: "TcpPacket \<Rightarrow> u8 list" where
  "tcp_to_vec p =
     to_be16 (tcp_src_port p) @ to_be16 (tcp_dst_port p) @ to_be32 (tcp_seq_num p) @
     to_be32 (tcp_ack_num p) @ to_be16 (tcp_flags p) @ to_be16 (tcp_window_size p) @
     to_be16 (tcp_checksum p) @ to_be16 (tcp_urgent_ptr p) @ tcp_options p @ tcp_data p"

definition tcp_calc_checksum :: "TcpPacket \<Rightarrow> TcpPacket" where
  "tcp_calc_checksum p =
     p\<lparr>tcp_checksum := fold_checksum (checksum_words (tcp_to_vec (p\<lparr>tcp_checksum := 0\<rparr>)))\<rparr>"

definition tcp_verify_checksum_with_ipv4 :: "Ipv4Addr \<Rightarrow> Ipv4Addr \<Rightarrow> TcpPacket \<Rightarrow> bool outcome" where
  "tcp_verify_checksum_with_ipv4 src dst p =
     (let packet = tcp_to_vec p in
      map_ok (\<lambda>ph. let checksum = fold_checksum (ph + checksum_words packet) in
                   checksum = 0xffff \<or> checksum = 0)
        (pseudo_header_sum src dst 6 (length packet)))"

definition tcp_calc_checksum_with_ipv4 :: "Ipv4Addr \<Rightarrow> Ipv4Addr \<Rightarrow> TcpPacket \<Rightarrow> TcpPacket outcome" where
  "tcp_calc_checksum_with_ipv4 src dst p =
     (let packet = tcp_to_vec (p\<lparr>tcp_checksum := 0\<rparr>) in
      map_ok (\<lambda>ph. p\<lparr>tcp_checksum := fold_checksum (ph + checksum_words packet)\<rparr>)
        (pseudo_header_sum src dst 6 (length packet)))"

definition flags_header_len :: "TcpPacket \<Rightarrow> nat" where
  "flags_header_len p = unat (drop_bit 12 (tcp_flags p)) * 4"

definition flags_fin :: "TcpPacket \<Rightarrow> bool" where "flags_fin p = (tcp_flags p AND FLAGS_FIN \<noteq> 0)"
definition flags_syn :: "TcpPacket \<Rightarrow> bool" where "flags_syn p = (tcp_flags p AND FLAGS_SYN \<noteq> 0)"
definition flags_rst :: "TcpPacket \<Rightarrow> bool" where "flags_rst p = (tcp_flags p AND FLAGS_RST \<noteq> 0)"
definition flags_psh :: "TcpPacket \<Rightarrow> bool" where "flags_psh p = (tcp_flags p AND FLAGS_PSH \<noteq> 0)"
definition flags_ack :: "TcpPacket \<Rightarrow> bool" where "flags_ack p = (tcp_flags p AND FLAGS_ACK \<noteq> 0)"

lemmas flags_tests = flags_fin_def flags_syn_def flags_rst_def flags_psh_def flags_ack_def

definition tcp_wf :: "TcpPacket \<Rightarrow> bool" where
  "tcp_wf p = (20 \<le> flags_header_len p \<and> length (tcp_options p) = flags_header_len p - 20)"

lemma tcp_decode_encode:
  assumes wf: "tcp_wf p"
  shows "tcp_try_from (tcp_to_vec p) = Ok p"
proof -
  define h where "h = to_be16 (tcp_src_port p) @ to_be16 (tcp_dst_port p) @ to_be32 (tcp_seq_num p) @
     to_be32 (tcp_ack_num p) @ to_be16 (tcp_flags p) @ to_be16 (tcp_window_size p) @
     to_be16 (tcp_checksum p) @ to_be16 (tcp_urgent_ptr p)"
  have vec: "tcp_to_vec p = h @ tcp_options p @ tcp_data p" and h: "length h = 20"
    by (simp_all add: tcp_to_vec_def h_def)
  define n where "n = unat (drop_bit 12 (tcp_flags p))"
  have n: "5 \<le> n" "length (tcp_options p) = n * 4 - 20"
    using wf by (simp_all add: tcp_wf_def flags_header_len_def n_def)
  have fields: "be16 (h ! 0) (h ! 1) = tcp_src_port p" "be16 (h ! 2) (h ! 3) = tcp_dst_port p"
    "be32 (h ! 4) (h ! 5) (h ! 6) (h ! 7) = tcp_seq_num p"
    "be32 (h ! 8) (h ! 9) (h ! 10) (h ! 11) = tcp_ack_num p" "be16 (h ! 12) (h ! 13) = tcp_flags p"
    "be16 (h ! 14) (h ! 15) = tcp_window_size p" "be16 (h ! 16) (h ! 17) = tcp_checksum p"
    "be16 (h ! 18) (h ! 19) = tcp_urgent_ptr p"
    by (simp_all add: h_def to_be16_def to_be32_def)
  show ?thesis
    unfolding tcp_try_from_def vec using h n fields
    by (simp add: nth_append n_def [symmetric] Let_def)
qed

lemma be32_inv: "to_be32 (be32 a b c d) = [a, b, c, d]"
proof -
  have "ucast (drop_bit 24 (be32 a b c d)) = a" "ucast (drop_bit 16 (be32 a b c d)) = b"
    "ucast (drop_bit 8 (be32 a b c d)) = c" "ucast (be32 a b c d) = d"
    by (rule bit_word_eqI; auto simp: be32_def bit_simps dest: bit_imp_le_length)+
  then show ?thesis by (simp add: to_be32_def)
qed

lemma tcp_encode_decode:
  assumes "tcp_try_from bs = Ok p"
  shows "tcp_wf p \<and> bs = tcp_to_vec p"
proof -
  let ?f = "be16 (bs ! 12) (bs ! 13)"
  let ?n = "unat (drop_bit 12 ?f) * 4"
  have len: "20 \<le> length bs" and n: "20 \<le> ?n" "?n \<le> length bs"
    and p: "p = \<lparr>tcp_src_port = be16 (bs ! 0) (bs ! 1), tcp_dst_port = be16 (bs ! 2) (bs ! 3),
      tcp_seq_num = be32 (bs ! 4) (bs ! 5) (bs ! 6) (bs ! 7),
      tcp_ack_num = be32 (bs ! 8) (bs ! 9) (bs ! 10) (bs ! 11), tcp_flags = ?f,
      tcp_window_size = be16 (bs ! 14) (bs ! 15), tcp_checksum = be16 (bs ! 16) (bs ! 17),
      tcp_urgent_ptr = be16 (bs ! 18) (bs ! 19), tcp_options = take (?n - 20) (drop 20 bs),
      tcp_data = drop ?n bs\<rparr>"
    using assms by (auto simp: tcp_try_from_def Let_def split: if_splits)
  have "map ((!) bs) [0..<20] @ take (?n - 20) (drop 20 bs) @ drop ?n bs = tcp_to_vec p"
    unfolding p by (simp add: tcp_to_vec_def be16_inv be32_inv upt_unfold)
  moreover have "take (?n - 20) (drop 20 bs) @ drop ?n bs = drop 20 bs"
    using n by (metis append_take_drop_id drop_drop le_add_diff_inverse2)
  ultimately have "bs = tcp_to_vec p" using list_prefix [OF len] by metis
  moreover have "tcp_wf p" unfolding p using n by (simp add: tcp_wf_def flags_header_len_def)
  ultimately show ?thesis by blast
qed

interpretation tcp: lossless_format tcp_to_vec tcp_try_from tcp_wf 20
proof unfold_locales
  show "length bs < 20 \<Longrightarrow> tcp_try_from bs = err (InvalidBufferSize 20 (length bs))" for bs
    by (simp add: tcp_try_from_def)
qed (use tcp_decode_encode tcp_encode_decode in auto)

text \<open>What \<open>new_with\<close> builds, for options of at most 40 bytes: the header length lands in the top four
  bits and the flags are kept.\<close>

lemma header_words_flags:
  assumes "n < 16"
  shows "drop_bit 12 (push_bit 12 (of_nat n :: u16) OR (f AND 0x0fff)) = of_nat n"
    and "(push_bit 12 (of_nat n :: u16) OR (f AND 0x0fff)) AND 0x0fff = f AND 0x0fff"
proof -
  have m: "(0x0fff :: u16) = mask 12" by (simp add: mask_eq_exp_minus_1)
  have "take_bit 4 n = n" using assms by (simp add: take_bit_nat_eq_self)
  then have n: "bit n i \<Longrightarrow> i < 4" for i by (metis bit_take_bit_iff)
  show "drop_bit 12 (push_bit 12 (of_nat n :: u16) OR (f AND 0x0fff)) = of_nat n"
    unfolding m by (rule bit_word_eqI) (auto simp: bit_simps dest: n)
  show "(push_bit 12 (of_nat n :: u16) OR (f AND 0x0fff)) AND 0x0fff = f AND 0x0fff"
    unfolding m by (rule bit_word_eqI) (auto simp: bit_simps)
qed

lemma tcp_new_with_Ok:
  assumes "length options \<le> 40"
  obtains p where "tcp_new_with src dst seq ack f window urgent options bs = Ok p"
    "tcp_wf p" "tcp_src_port p = src" "tcp_dst_port p = dst" "tcp_seq_num p = seq"
    "tcp_ack_num p = ack" "tcp_flags p AND 0x0fff = f AND 0x0fff" "tcp_window_size p = window"
    "tcp_checksum p = 0" "tcp_urgent_ptr p = urgent" "tcp_data p = bs"
    "take (length options) (tcp_options p) = options" "length (tcp_options p) \<le> 40"
proof -
  define n where "n = (20 + length options + 3) div 4"
  have n: "5 \<le> n" "n < 16" "length options \<le> n * 4 - 20" using assms by (simp_all add: n_def)
  have hw: "unat (drop_bit 12 (push_bit 12 (of_nat n :: u16) OR (f AND 0x0fff))) = n"
    using n(2) by (simp only: header_words_flags(1)) simp
  show thesis
  proof (rule that)
    show "tcp_new_with src dst seq ack f window urgent options bs = Ok
      \<lparr>tcp_src_port = src, tcp_dst_port = dst, tcp_seq_num = seq, tcp_ack_num = ack,
       tcp_flags = push_bit 12 (of_nat n) OR (f AND 0x0fff), tcp_window_size = window, tcp_checksum = 0,
       tcp_urgent_ptr = urgent, tcp_options = resize (n * 4 - 20) options, tcp_data = bs\<rparr>"
      unfolding tcp_new_with_def n_def [symmetric] using n by (simp add: Let_def)
  qed (use n hw header_words_flags(2) [OF n(2)] in
      \<open>simp_all add: tcp_wf_def flags_header_len_def resize_def del: drop_bit_or\<close>)
qed

subsection \<open>Checksums of the formats\<close>

text \<open>With at most 65535 bytes nothing wraps: the sum that is folded is the total of the words.\<close>

lemma ip_sum:
  assumes "unat protocol < 256" and "length bs \<le> 65535"
  shows "\<exists>ph. pseudo_header_sum src dst protocol (length bs) = Ok ph \<and>
    unat (ph + checksum_words bs) = pseudo_header_nat src dst protocol (length bs) + word_total bs"
proof -
  obtain ph where ph: "pseudo_header_sum src dst protocol (length bs) = Ok ph"
    "unat ph = pseudo_header_nat src dst protocol (length bs)" "unat ph < 400000"
    using pseudo_header_sum_Ok [OF assms] by metis
  have wt: "word_total bs \<le> 65535 * 32768" using word_total_bound [of bs] assms(2) by simp
  have "unat (checksum_words bs) = word_total bs" using assms(2) by (simp add: unat_checksum_words)
  then have "unat (ph + checksum_words bs) = unat ph + word_total bs"
    using ph(3) wt by (subst unat_add_lem [THEN iffD1]) simp_all
  then show ?thesis using ph by simp
qed

lemma pseudo_header_pos: "0 < unat protocol \<Longrightarrow> 0 < pseudo_header_nat src dst protocol len"
  by (cases src; cases dst) simp

lemma tcp_verify_iff:
  assumes "length (tcp_to_vec p) \<le> 65535"
  shows "tcp_verify_checksum_with_ipv4 src dst p =
    Ok ((pseudo_header_nat src dst 6 (length (tcp_to_vec p)) + word_total (tcp_to_vec p)) mod 65535 = 0)"
proof -
  let ?n = "pseudo_header_nat src dst 6 (length (tcp_to_vec p)) + word_total (tcp_to_vec p)"
  obtain ph where ph: "pseudo_header_sum src dst 6 (length (tcp_to_vec p)) = Ok ph"
    and s: "unat (ph + checksum_words (tcp_to_vec p)) = ?n"
    using ip_sum [of 6 "tcp_to_vec p"] assms by auto
  have pos: "0 < ?n" using pseudo_header_pos [of 6] by (simp add: add_pos_nonneg)
  have "fold_checksum (ph + checksum_words (tcp_to_vec p)) \<noteq> 0xffff"
  proof
    assume "fold_checksum (ph + checksum_words (tcp_to_vec p)) = 0xffff"
    then have "unat (fold_checksum (ph + checksum_words (tcp_to_vec p))) = 65535" by simp
    then have "ones_fold ?n = 0" unfolding unat_fold_checksum s by simp
    then show False using pos by (auto simp: ones_fold_def split: if_splits)
  qed
  then show ?thesis
    using pos by (simp add: tcp_verify_checksum_with_ipv4_def ph Let_def fold_checksum_zero s)
qed

text \<open>Changing one byte changes one word by less than 65535.\<close>

lemma word_total_update:
  "i < length bs \<Longrightarrow>
   \<exists>k \<in> {1, 256}. word_total (bs[i := b]) + k * unat (bs ! i) = word_total bs + k * unat b"
proof (induction bs arbitrary: i rule: chunk_words.induct)
  case (2 h)
  then show ?case by (intro bexI [of _ 256]) (simp_all add: word_total_def unat_be16)
next
  case (3 h l rest)
  consider "i = 0" | "i = 1" | j where "i = Suc (Suc j)" by (metis One_nat_def not0_implies_Suc)
  then show ?case
  proof cases
    case 1
    then show ?thesis by (intro bexI [of _ 256]) (simp_all add: unat_be16)
  next
    case 2
    then show ?thesis by (intro bexI [of _ 1]) (simp_all add: unat_be16)
  next
    case (3 j)
    then show ?thesis using "3.IH" [of j] "3.prems" by auto
  qed
qed simp

lemma word_total_corrupt:
  assumes "i < length bs" and "b \<noteq> bs ! i" and "(n + word_total bs) mod 65535 = 0"
  shows "(n + word_total (bs[i := b])) mod 65535 \<noteq> 0"
proof
  assume other: "(n + word_total (bs[i := b])) mod 65535 = 0"
  obtain k where k: "k = 1 \<or> k = 256"
    and eq: "word_total (bs[i := b]) + k * unat (bs ! i) = word_total bs + k * unat b"
    using word_total_update [OF assms(1), of b] by blast
  define x y where "x = unat (bs ! i)" and "y = unat b"
  have bounds: "x < 256" "y < 256" using unat_bound [of "bs ! i"] unat_bound [of b] by (simp_all add: x_def y_def)
  have neq: "x \<noteq> y" using assms(2) unfolding x_def y_def by (metis unsigned_word_eqI)
  have "(n + word_total (bs[i := b]) + k * x) mod 65535 = (n + word_total bs + k * y) mod 65535"
    using eq by (simp add: x_def y_def add.assoc)
  then have "(k * x) mod 65535 = (k * y) mod 65535"
    using assms(3) other by (metis add_0 mod_add_left_eq)
  moreover have "k * x < 65535" "k * y < 65535" using bounds k by auto
  ultimately show False using neq k by auto
qed

lemma tcp_calc_checksum_Ok:
  assumes "length (tcp_to_vec p) \<le> 65535"
  shows "\<exists>p'. tcp_calc_checksum_with_ipv4 src dst p = Ok p' \<and>
    p'\<lparr>tcp_checksum := tcp_checksum p\<rparr> = p \<and>
    tcp_verify_checksum_with_ipv4 src dst p' = Ok True"
proof -
  let ?z = "tcp_to_vec (p\<lparr>tcp_checksum := 0\<rparr>)"
  have len: "length ?z = length (tcp_to_vec p)" by (simp add: tcp_to_vec_def)
  then obtain ph where ph: "pseudo_header_sum src dst 6 (length ?z) = Ok ph"
    and s: "unat (ph + checksum_words ?z) = pseudo_header_nat src dst 6 (length ?z) + word_total ?z"
    using ip_sum [of 6 ?z] assms by auto
  let ?c = "fold_checksum (ph + checksum_words ?z)"
  let ?p = "p\<lparr>tcp_checksum := ?c\<rparr>"
  have "word_total (tcp_to_vec ?p) = word_total ?z + unat ?c"
    by (simp add: tcp_to_vec_def to_be16_def to_be32_def unat_be16)
  moreover have "length (tcp_to_vec ?p) = length ?z" by (simp add: tcp_to_vec_def)
  ultimately have "tcp_verify_checksum_with_ipv4 src dst ?p = Ok True"
    using tcp_verify_iff [of ?p src dst] assms len checksum_completes
    by (simp add: unat_fold_checksum s add.assoc [symmetric])
  moreover have "tcp_calc_checksum_with_ipv4 src dst p = Ok ?p"
    by (simp add: tcp_calc_checksum_with_ipv4_def ph Let_def)
  ultimately show ?thesis by auto
qed

text \<open>A TCP packet of at most 65535 bytes whose checksum the kernel computed passes the
  kernel's own verification, for every pair of addresses, and the computation changes nothing but
  the checksum field.\<close>

theorem tcp_checksum_verifies:
  assumes "length (tcp_to_vec p) \<le> 65535"
  shows "\<exists>p'. tcp_calc_checksum_with_ipv4 src dst p = Ok p' \<and>
    p'\<lparr>tcp_checksum := tcp_checksum p\<rparr> = p \<and>
    tcp_verify_checksum_with_ipv4 src dst p' = Ok True"
  using assms by (rule tcp_calc_checksum_Ok)

theorem tcp_checksum_verifies_witness:
  "\<exists>p'. tcp_calc_checksum_with_ipv4 (Ipv4Addr 10 0 2 15) (Ipv4Addr 10 0 2 2)
     \<lparr>tcp_src_port = 80, tcp_dst_port = 49152, tcp_seq_num = 0, tcp_ack_num = 1, tcp_flags = 0x5010,
      tcp_window_size = 65535, tcp_checksum = 7, tcp_urgent_ptr = 0, tcp_options = [], tcp_data = [1, 2, 3]\<rparr> = Ok p' \<and>
    tcp_verify_checksum_with_ipv4 (Ipv4Addr 10 0 2 15) (Ipv4Addr 10 0 2 2) p' = Ok True"
  using tcp_checksum_verifies [of "\<lparr>tcp_src_port = 80, tcp_dst_port = 49152, tcp_seq_num = 0,
      tcp_ack_num = 1, tcp_flags = 0x5010, tcp_window_size = 65535, tcp_checksum = 7, tcp_urgent_ptr = 0,
      tcp_options = [], tcp_data = [1, 2, 3]\<rparr>" "Ipv4Addr 10 0 2 15" "Ipv4Addr 10 0 2 2"]
  by (auto simp: tcp_to_vec_def)

text \<open>C37: The TCP checksum detects every corruption of a single byte: if a packet verifies
  and one byte of it is replaced on the wire by a different one, the received packet, when it
  decodes at all, does not verify.\<close>

theorem tcp_detects_byte_corruption:
  assumes "tcp_verify_checksum_with_ipv4 src dst p = Ok True"
    and "length (tcp_to_vec p) \<le> 65535"
    and "i < length (tcp_to_vec p)" and "b \<noteq> tcp_to_vec p ! i"
    and "tcp_try_from ((tcp_to_vec p)[i := b]) = Ok q"
  shows "tcp_verify_checksum_with_ipv4 src dst q = Ok False"
proof -
  have q: "tcp_to_vec q = (tcp_to_vec p)[i := b]" using tcp_encode_decode [OF assms(5)] by simp
  have "(pseudo_header_nat src dst 6 (length (tcp_to_vec p)) + word_total (tcp_to_vec p)) mod 65535 = 0"
    using assms(1) tcp_verify_iff [OF assms(2)] by simp
  from word_total_corrupt [OF assms(3,4) this]
  show ?thesis using assms(2) by (simp add: tcp_verify_iff q)
qed

theorem tcp_detects_byte_corruption_witness:
  "tcp_verify_checksum_with_ipv4 (Ipv4Addr 10 0 2 15) (Ipv4Addr 10 0 2 2)
     \<lparr>tcp_src_port = 80, tcp_dst_port = 49152, tcp_seq_num = 0, tcp_ack_num = 1,
      tcp_flags = 20496, tcp_window_size = 65535, tcp_checksum = 54897, tcp_urgent_ptr = 0, tcp_options = [],
      tcp_data = [2]\<rparr> = Ok False"
proof -
  let ?p = "\<lparr>tcp_src_port = 80, tcp_dst_port = 49152, tcp_seq_num = 0, tcp_ack_num = 1,
      tcp_flags = 20496, tcp_window_size = 65535, tcp_checksum = 54897, tcp_urgent_ptr = 0, tcp_options = [],
      tcp_data = [1]\<rparr> :: TcpPacket"
  have sent: "tcp_verify_checksum_with_ipv4 (Ipv4Addr 10 0 2 15) (Ipv4Addr 10 0 2 2) ?p = Ok True"
    by code_simp
  have received: "tcp_try_from ((tcp_to_vec ?p)[20 := 2]) = Ok (?p\<lparr>tcp_data := [2]\<rparr>)" by code_simp
  show ?thesis
    using tcp_detects_byte_corruption [OF sent _ _ _ received]
    by (simp add: tcp_to_vec_def to_be16_def to_be32_def)
qed

subsection \<open>What the decoders accept\<close>

text \<open>C38: The TCP decoder accepts exactly the encodings of well-formed packets, and decodes each to the
  packet it encodes: parsing and printing are inverse, byte for byte.\<close>

theorem tcp_decode_exact: "tcp_try_from bs = Ok p \<longleftrightarrow> tcp_wf p \<and> bs = tcp_to_vec p"
  using tcp_encode_decode tcp_decode_encode by blast

text \<open>The ARP decoder accepts exactly the buffers that start with the encoding of a packet: what
  follows the 28 bytes (the padding of a short Ethernet frame) is ignored.\<close>

lemma arp_decode_exact: "arp_try_from bs = Ok p \<longleftrightarrow> arp_wf p \<and> (\<exists>pad. bs = arp_to_vec p @ pad)"
  using arp_encode_decode arp_decode_encode by blast

text \<open>The UDP decoder slices the payload with the length field of the packet itself, which it
  does not check: it panics exactly when that field is below 8 or beyond the buffer, and otherwise accepts
  exactly the buffers that start with the encoding of a packet.\<close>

theorem udp_decode_outcomes:
  "(udp_try_from bs = Panic \<longleftrightarrow>
      8 \<le> length bs \<and> (unat (be16 (bs ! 4) (bs ! 5)) < 8 \<or> length bs < unat (be16 (bs ! 4) (bs ! 5)))) \<and>
   (udp_try_from bs = Ok p \<longleftrightarrow> udp_wf p \<and> (\<exists>pad. bs = udp_to_vec p @ pad))"
proof
  have m: "map_ok f m = Panic \<longleftrightarrow> m = Panic" for f :: "'a \<Rightarrow> 'b" and m by (cases m) simp_all
  show "udp_try_from bs = Panic \<longleftrightarrow>
      8 \<le> length bs \<and> (unat (be16 (bs ! 4) (bs ! 5)) < 8 \<or> length bs < unat (be16 (bs ! 4) (bs ! 5)))"
    by (auto simp: udp_try_from_def Let_def m slice_Panic_iff)
  show "udp_try_from bs = Ok p \<longleftrightarrow> udp_wf p \<and> (\<exists>pad. bs = udp_to_vec p @ pad)"
    using udp_encode_decode udp_decode_encode by blast
qed

end
