(* ===== verification/Tcp_Socket.thy ===== *)
theory Tcp_Socket
  imports Packets "HOL-Library.Sublist"
begin

text \<open>
  The TCP and UDP sockets (kernel/src/net/tcp.rs, \<open>TcpSocket\<close>; udp.rs, \<open>UdpSocket\<close>). Each method is a
  stateful action on the socket. The transition system \<open>tcp_step\<close> collects every method that changes
  the state; \<open>tcp_reachable\<close> is what a socket can become. The main property is that the receive buffer is
  always a prefix of the byte stream that the peer sends, whatever the order, the repetition or the
  loss of its segments.
\<close>

datatype TcpSocketState =
    Closed | Listen | SynReceived | SynSent | Established | FinWait1 | FinWait2 | CloseWait | Closing
  | LastAck | TimeWait

record TcpSocket =
  sock_state :: TcpSocketState
  sock_src_port :: "u16 option"
  sock_dst_ipv4_addr :: "Ipv4Addr option"
  sock_dst_port :: "u16 option"
  sock_seq_num :: u32
  sock_next_recv_seq :: u32
  sock_buf :: "u8 list"

definition tcp_socket_new :: TcpSocket where
  "tcp_socket_new = \<lparr>sock_state = Closed, sock_src_port = None, sock_dst_ipv4_addr = None,
     sock_dst_port = None, sock_seq_num = 0, sock_next_recv_seq = 0, sock_buf = []\<rparr>"

definition set_dst_ipv4_addr :: "Ipv4Addr \<Rightarrow> (TcpSocket, unit) act" where
  "set_dst_ipv4_addr a = modify (sock_dst_ipv4_addr_update (\<lambda>_. Some a))"

definition set_dst_port :: "u16 \<Rightarrow> (TcpSocket, unit) act" where
  "set_dst_port p = modify (sock_dst_port_update (\<lambda>_. Some p))"

definition add_seq_num :: "u32 \<Rightarrow> (TcpSocket, unit) act" where
  "add_seq_num n = modify (\<lambda>s. s\<lparr>sock_seq_num := sock_seq_num s + n\<rparr>)"

definition reset_buf :: "(TcpSocket, u8 list) act" where
  "reset_buf = (\<lambda>s. (Ok (sock_buf s), s\<lparr>sock_buf := []\<rparr>))"

definition start_passive :: "u16 \<Rightarrow> (TcpSocket, unit) act" where
  "start_passive port = (\<lambda>s.
     if sock_state s \<noteq> Closed then (err InvalidData, s)
     else (Ok (), s\<lparr>sock_state := Listen, sock_src_port := Some port, sock_seq_num := 0, sock_buf := []\<rparr>))"

definition start_active :: "Ipv4Addr \<Rightarrow> u16 \<Rightarrow> (TcpSocket, unit) act" where
  "start_active addr port = (\<lambda>s.
     if sock_state s \<noteq> Closed then (err InvalidData, s)
     else (Ok (), s\<lparr>sock_state := SynSent, sock_dst_ipv4_addr := Some addr, sock_dst_port := Some port,
                    sock_seq_num := 0, sock_buf := []\<rparr>))"

definition receive_syn :: "u32 \<Rightarrow> (TcpSocket, u32) act" where
  "receive_syn remote_seq = (\<lambda>s.
     if sock_state s \<noteq> Listen then (err InvalidData, s)
     else (Ok (sock_seq_num s),
           s\<lparr>sock_state := SynReceived, sock_next_recv_seq := remote_seq + 1,
             sock_seq_num := sock_seq_num s + 1\<rparr>))"

definition receive_syn_ack :: "u32 \<Rightarrow> (TcpSocket, unit) act" where
  "receive_syn_ack remote_seq = (\<lambda>s.
     if sock_state s \<noteq> SynSent then (err InvalidData, s)
     else (Ok (), s\<lparr>sock_state := Established, sock_next_recv_seq := remote_seq + 1,
                    sock_seq_num := sock_seq_num s + 1\<rparr>))"

definition receive_ack :: "(TcpSocket, unit) act" where
  "receive_ack = (\<lambda>s.
     if sock_state s \<noteq> SynReceived \<and> sock_state s \<noteq> Established then (err InvalidData, s)
     else (Ok (), s\<lparr>sock_state := Established\<rparr>))"

definition receive_fin :: "(TcpSocket, unit) act" where
  "receive_fin = (\<lambda>s.
     if sock_state s \<noteq> Established then (err InvalidData, s)
     else (Ok (), s\<lparr>sock_state := CloseWait, sock_next_recv_seq := sock_next_recv_seq s + 1\<rparr>))"

definition receive_data :: "u8 list \<Rightarrow> u32 \<Rightarrow> (TcpSocket, unit) act" where
  "receive_data bs seq = (\<lambda>s.
     if sock_state s \<noteq> Established then (err InvalidData, s)
     else if seq \<noteq> sock_next_recv_seq s then (Ok (), s)
     else if bs \<noteq> [] then
       (Ok (), s\<lparr>sock_buf := sock_buf s @ bs,
                 sock_next_recv_seq := sock_next_recv_seq s + of_nat (length bs)\<rparr>)
     else (Ok (), s))"

definition tcp_close :: "(TcpSocket, unit) act" where
  "tcp_close = modify (\<lambda>_. tcp_socket_new)"

lemmas tcp_socket_defs = set_dst_ipv4_addr_def set_dst_port_def add_seq_num_def reset_buf_def start_passive_def
  start_active_def receive_syn_def receive_syn_ack_def receive_ack_def receive_fin_def receive_data_def
  tcp_close_def

subsection \<open>The UDP socket\<close>

record UdpSocket =
  udp_buf :: "u8 list"

definition udp_socket_new :: UdpSocket where
  "udp_socket_new = \<lparr>udp_buf = []\<rparr>"

definition udp_receive :: "u8 list \<Rightarrow> (UdpSocket, unit) act" where
  "udp_receive bs = modify (\<lambda>s. s\<lparr>udp_buf := udp_buf s @ bs\<rparr>)"

text \<open>\<open>read_buf\<close> fills the front of the caller's buffer; the bytes it copies are returned here, for a
  buffer of \<open>n\<close> bytes.\<close>

definition udp_read_buf :: "nat \<Rightarrow> (UdpSocket, u8 list) act" where
  "udp_read_buf n = (\<lambda>s. let read_len = min n (length (udp_buf s)) in
     if 0 < read_len
     then (Ok (take read_len (udp_buf s)), s\<lparr>udp_buf := drop read_len (udp_buf s)\<rparr>)
     else (Ok [], s))"

lemma udp_read_buf_run:
  "udp_read_buf n s = (Ok (take n (udp_buf s)), s\<lparr>udp_buf := drop n (udp_buf s)\<rparr>)"
  by (cases s) (auto simp: udp_read_buf_def Let_def min_def)

primrec udp_read_all :: "nat list \<Rightarrow> UdpSocket \<Rightarrow> u8 list \<times> UdpSocket" where
  "udp_read_all [] s = ([], s)"
| "udp_read_all (n # ns) s =
     (case udp_read_buf n s of (r, s') \<Rightarrow>
        (case udp_read_all ns s' of (rest, s'') \<Rightarrow> ((case r of Ok bs \<Rightarrow> bs | _ \<Rightarrow> []) @ rest, s'')))"

text \<open>A UDP socket neither loses nor reorders bytes: for any sequence of datagrams and any
  sequence of buffer sizes, the bytes read out followed by the bytes left are the bytes received.\<close>

theorem udp_socket_fifo:
  "\<exists>s out rest. for_each datagrams udp_receive udp_socket_new = (Ok (), s) \<and>
     udp_read_all sizes s = (out, \<lparr>udp_buf = rest\<rparr>) \<and> out @ rest = concat datagrams \<and>
     length out = min (sum_list sizes) (length (concat datagrams))"
proof -
  have "for_each datagrams udp_receive \<lparr>udp_buf = bs\<rparr> = (Ok (), \<lparr>udp_buf = bs @ concat datagrams\<rparr>)" for bs
    by (induction datagrams arbitrary: bs) (simp_all add: udp_receive_def bind_act_def)
  moreover have "\<exists>out rest. udp_read_all sizes \<lparr>udp_buf = bs\<rparr> = (out, \<lparr>udp_buf = rest\<rparr>) \<and> out @ rest = bs \<and>
      length out = min (sum_list sizes) (length bs)" for bs
  proof (induction sizes arbitrary: bs)
    case (Cons n ns)
    obtain out rest where "udp_read_all ns \<lparr>udp_buf = drop n bs\<rparr> = (out, \<lparr>udp_buf = rest\<rparr>)" "out @ rest = drop n bs"
      "length out = min (sum_list ns) (length (drop n bs))"
      using Cons.IH by metis
    then show ?case by (auto simp: udp_read_buf_run)
  qed simp
  ultimately show ?thesis by (simp add: udp_socket_new_def)
qed

subsection \<open>The transition system of a TCP socket\<close>

inductive tcp_step :: "TcpSocket \<Rightarrow> TcpSocket \<Rightarrow> bool" where
  step_passive: "start_passive port s = (Ok (), s') \<Longrightarrow> tcp_step s s'"
| step_active: "start_active addr port s = (Ok (), s') \<Longrightarrow> tcp_step s s'"
| step_syn: "receive_syn seq s = (Ok isn, s') \<Longrightarrow> tcp_step s s'"
| step_syn_ack: "receive_syn_ack seq s = (Ok (), s') \<Longrightarrow> tcp_step s s'"
| step_ack: "receive_ack s = (Ok (), s') \<Longrightarrow> tcp_step s s'"
| step_fin: "receive_fin s = (Ok (), s') \<Longrightarrow> tcp_step s s'"
| step_data: "receive_data bs seq s = (Ok (), s') \<Longrightarrow> tcp_step s s'"
| step_reset_buf: "reset_buf s = (Ok bs, s') \<Longrightarrow> tcp_step s s'"
| step_add_seq: "add_seq_num n s = (Ok (), s') \<Longrightarrow> tcp_step s s'"
| step_dst_addr: "set_dst_ipv4_addr addr s = (Ok (), s') \<Longrightarrow> tcp_step s s'"
| step_dst_port: "set_dst_port port s = (Ok (), s') \<Longrightarrow> tcp_step s s'"
| step_close: "tcp_close s = (Ok (), s') \<Longrightarrow> tcp_step s s'"

definition tcp_reachable :: "TcpSocket \<Rightarrow> bool" where
  "tcp_reachable s = tcp_step\<^sup>*\<^sup>* tcp_socket_new s"

text \<open>The edges of the state diagram that the code implements.\<close>

definition tcp_edge :: "TcpSocketState \<Rightarrow> TcpSocketState \<Rightarrow> bool" where
  "tcp_edge a b \<longleftrightarrow> a = b \<or> b = Closed \<or>
     (a, b) \<in> {(Closed, Listen), (Closed, SynSent), (Listen, SynReceived), (SynSent, Established),
                (SynReceived, Established), (Established, CloseWait)}"

definition tcp_socket_inv :: "TcpSocket \<Rightarrow> bool" where
  "tcp_socket_inv s \<longleftrightarrow>
     sock_state s \<notin> {FinWait1, FinWait2, Closing, LastAck, TimeWait} \<and>
     (sock_state s \<in> {Listen, SynReceived} \<longrightarrow> sock_src_port s \<noteq> None) \<and>
     (sock_state s = SynSent \<longrightarrow> sock_dst_ipv4_addr s \<noteq> None \<and> sock_dst_port s \<noteq> None) \<and>
     (sock_state s \<notin> {Established, CloseWait} \<longrightarrow> sock_buf s = [])"

lemma tcp_step_edge: "tcp_step s s' \<Longrightarrow> tcp_edge (sock_state s) (sock_state s')"
  by (erule tcp_step.cases) (clarsimp simp: tcp_socket_defs tcp_socket_new_def tcp_edge_def split: if_splits)+

lemma tcp_step_inv: "tcp_step s s' \<Longrightarrow> tcp_socket_inv s \<Longrightarrow> tcp_socket_inv s'"
  by (erule tcp_step.cases) (clarsimp simp: tcp_socket_defs tcp_socket_new_def tcp_socket_inv_def split: if_splits)+

lemma tcp_reachable_inv: "tcp_reachable s \<Longrightarrow> tcp_socket_inv s"
  unfolding tcp_reachable_def
proof (induction rule: rtranclp_induct)
  case base
  then show ?case by (simp add: tcp_socket_inv_def tcp_socket_new_def)
next
  case (step y z)
  then show ?case using tcp_step_inv by blast
qed

text \<open>Whatever sequence of methods is called on a fresh socket, it moves only along the edges of
  the state diagram (a connection is established only by completing a handshake), only six of
  the eleven declared states are ever taken (the states of an active close are not), and a socket that is
  not yet connected holds no received data.\<close>

theorem tcp_socket_states:
  assumes "tcp_reachable s" and "tcp_step s s'"
  shows "tcp_edge (sock_state s) (sock_state s') \<and> tcp_socket_inv s'"
  using assms tcp_step_edge tcp_step_inv tcp_reachable_inv by blast

theorem tcp_socket_states_witness:
  "tcp_edge Closed Listen \<and> tcp_socket_inv (snd (start_passive 80 tcp_socket_new))"
proof -
  have "tcp_step tcp_socket_new (snd (start_passive 80 tcp_socket_new))"
    by (rule step_passive [of 80]) (simp add: start_passive_def tcp_socket_new_def)
  from tcp_socket_states [OF _ this] show ?thesis
    by (simp add: tcp_reachable_def start_passive_def tcp_socket_new_def)
qed

subsection \<open>The received byte stream\<close>

text \<open>The peer sends the stream \<open>stream\<close>, whose first byte has the sequence number \<open>base\<close>; a segment
  carries some of its bytes with the sequence number of the first of them.\<close>

definition is_segment :: "u8 list \<Rightarrow> u32 \<Rightarrow> u8 list \<times> u32 \<Rightarrow> bool" where
  "is_segment stream base seg \<longleftrightarrow>
     (\<exists>off n. off \<le> length stream \<and> seg = (take n (drop off stream), base + of_nat off))"

definition receive_segments :: "(u8 list \<times> u32) list \<Rightarrow> (TcpSocket, unit) act" where
  "receive_segments segs = for_each segs (\<lambda>(bs, seq). receive_data bs seq)"

definition stream_state :: "u8 list \<Rightarrow> u32 \<Rightarrow> nat \<Rightarrow> TcpSocket \<Rightarrow> bool" where
  "stream_state stream base m s \<longleftrightarrow>
     sock_state s = Established \<and> m \<le> length stream \<and> sock_buf s = take m stream \<and>
     sock_next_recv_seq s = base + of_nat m"

lemma of_nat_u32_inj:
  assumes "a < 2 ^ 32" and "b < 2 ^ 32"
  shows "(of_nat a :: u32) = of_nat b \<longleftrightarrow> a = b"
proof
  assume "(of_nat a :: u32) = of_nat b"
  then have "unat (of_nat a :: u32) = unat (of_nat b :: u32)" by simp
  then show "a = b" using assms by (simp add: unat_of_nat)
qed simp

lemma take_append_take_drop: "take m xs @ take n (drop m xs) = take (m + n) xs"
  by (simp add: take_add)

text \<open>One segment: it is taken when it starts where the buffer ends, and dropped otherwise.\<close>

lemma receive_segment:
  assumes st: "stream_state stream base m s" and short: "length stream < 2 ^ 32"
    and off: "off \<le> length stream"
  shows "\<exists>s'. receive_data (take n (drop off stream)) (base + of_nat off) s = (Ok (), s') \<and>
    stream_state stream base (if off = m then min (m + n) (length stream) else m) s'"
proof (cases "off = m")
  case True
  define k where "k = min (m + n) (length stream)"
  have len: "length (take n (drop m stream)) = k - m" and mk: "m \<le> k" "k \<le> length stream"
    using st by (auto simp: k_def stream_state_def min_def)
  have "take m stream @ take n (drop m stream) = take k stream"
    using take_append_take_drop [of m stream n] by (simp add: k_def min_def)
  moreover have "(of_nat m :: u32) + of_nat (k - m) = of_nat k"
    using mk(1) by (metis le_add_diff_inverse of_nat_add)
  moreover have "take n (drop m stream) = [] \<Longrightarrow> k = m" using len mk by (metis diff_is_0_eq le_antisym list.size(3))
  ultimately show ?thesis
    using st True mk len unfolding k_def [symmetric]
    by (cases "take n (drop m stream) = []") (auto simp: stream_state_def receive_data_def add.assoc)
next
  case False
  then have "(of_nat off :: u32) \<noteq> of_nat m"
    using st short off by (subst of_nat_u32_inj) (auto simp: stream_state_def)
  then show ?thesis using st False by (auto simp: stream_state_def receive_data_def)
qed

text \<open>C34: Whatever segments of the peer's stream arrive at an established connection, in
  whatever order, repeated, overlapping or with gaps, the receive buffer holds a prefix of the
  stream and the next expected sequence number is the one of the byte after it (for streams
  shorter than the sequence space, across its wrap-around).\<close>

theorem tcp_stream_prefix:
  assumes "sock_state s = Established" and "sock_buf s = []" and "length stream < 2 ^ 32"
    and "\<forall>seg \<in> set segs. is_segment stream (sock_next_recv_seq s) seg"
  shows "\<exists>s' m. receive_segments segs s = (Ok (), s') \<and> m \<le> length stream \<and>
    sock_buf s' = take m stream \<and> sock_next_recv_seq s' = sock_next_recv_seq s + of_nat m"
proof -
  define base where "base = sock_next_recv_seq s"
  have start: "stream_state stream base 0 s" using assms(1,2) by (simp add: stream_state_def base_def)
  have "\<exists>t' k. receive_segments segs t = (Ok (), t') \<and> stream_state stream base k t'"
    if "stream_state stream base m t" "\<forall>seg \<in> set segs. is_segment stream base seg" for segs m t
    using that
  proof (induction segs arbitrary: m t)
    case (Cons seg segs)
    then obtain off n where seg: "seg = (take n (drop off stream), base + of_nat off)" "off \<le> length stream"
      by (auto simp: is_segment_def)
    then obtain t1 m1 where "receive_data (fst seg) (snd seg) t = (Ok (), t1)" "stream_state stream base m1 t1"
      using receive_segment [OF Cons.prems(1) assms(3) seg(2), of n] by (metis fst_conv snd_conv)
    then show ?case using Cons.IH [of m1 t1] Cons.prems(2) seg by (auto simp: receive_segments_def)
  qed (auto simp: receive_segments_def)
  from this [OF start assms(4) [folded base_def]] show ?thesis
    by (auto simp: base_def stream_state_def)
qed

theorem tcp_stream_prefix_witness:
  "\<exists>s' m. receive_segments [([3], 1), ([1, 2], 0xffffffff), ([1, 2], 0xffffffff), ([3], 1)]
     (tcp_socket_new\<lparr>sock_state := Established, sock_next_recv_seq := 0xffffffff\<rparr>) = (Ok (), s') \<and>
     sock_buf s' = take m [1, 2, 3]"
proof -
  have "is_segment [1, 2, 3] 0xffffffff ([3], 1)" "is_segment [1, 2, 3] 0xffffffff ([1, 2], 0xffffffff)"
    unfolding is_segment_def by (intro exI [of _ 2] exI [of _ 1], simp) (intro exI [of _ 0] exI [of _ 2], simp)
  then show ?thesis
    using tcp_stream_prefix [of "tcp_socket_new\<lparr>sock_state := Established, sock_next_recv_seq := 0xffffffff\<rparr>"
        "[1, 2, 3]" "[([3], 1), ([1, 2], 0xffffffff), ([1, 2], 0xffffffff), ([3], 1)]"]
    by (auto simp: tcp_socket_new_def)
qed

text \<open>The sender's side: the stream cut into chunks, sent and resent in any schedule (a list of chunk
  numbers). Abstractly, the receiver counts the chunks it has.\<close>

definition chunk_segment :: "u8 list list \<Rightarrow> u32 \<Rightarrow> nat \<Rightarrow> u8 list \<times> u32" where
  "chunk_segment chunks base i = (chunks ! i, base + of_nat (length (concat (take i chunks))))"

definition progress :: "nat list \<Rightarrow> nat \<Rightarrow> nat" where
  "progress schedule j = fold (\<lambda>i j. if i = j then Suc j else j) schedule j"

lemma progress_mono: "j \<le> progress schedule j"
  by (induction schedule arbitrary: j) (auto simp: progress_def intro: Suc_leD)

lemma progress_subseq:
  "subseq [j..<n] schedule \<Longrightarrow> j \<le> n \<Longrightarrow> n \<le> progress schedule j"
proof (induction schedule arbitrary: j)
  case Nil
  then show ?case by (cases "j < n") (auto simp: progress_def)
next
  case (Cons i schedule)
  show ?case
  proof (cases "j < n")
    case False
    then show ?thesis using Cons.prems(2) progress_mono [of n "i # schedule"] by simp
  next
    case True
    then have "subseq (j # [Suc j..<n]) (i # schedule)" using Cons.prems(1) by (simp add: upt_conv_Cons)
    then show ?thesis
      using Cons.IH [of "Suc j"] Cons.IH [of j] True
      by (cases "i = j") (auto simp: progress_def upt_conv_Cons)
  qed
qed

lemma take_chunks: "i < length chunks \<Longrightarrow> concat (take (Suc i) chunks) = concat (take i chunks) @ chunks ! i"
  by (simp add: take_Suc_conv_app_nth)

lemma chunk_prefix_length:
  assumes "\<forall>c \<in> set chunks. c \<noteq> []" and "i < j" and "j \<le> length chunks"
  shows "length (concat (take i chunks)) < length (concat (take j chunks))"
  using assms(2,3)
proof (induction j)
  case (Suc j)
  have "chunks ! j \<noteq> []" using Suc.prems assms(1) by (simp add: nth_mem)
  then have "length (concat (take j chunks)) < length (concat (take (Suc j) chunks))"
    using Suc.prems by (simp add: take_chunks)
  then show ?case using Suc by (cases "i = j") auto
qed simp

lemma chunk_prefix_le: "length (concat (take i chunks)) \<le> length (concat chunks)"
  by (metis append_take_drop_id concat_append le_add1 length_append)

definition chunk_state :: "u8 list list \<Rightarrow> u32 \<Rightarrow> nat \<Rightarrow> TcpSocket \<Rightarrow> bool" where
  "chunk_state chunks base j s \<longleftrightarrow>
     sock_state s = Established \<and> j \<le> length chunks \<and> sock_buf s = concat (take j chunks) \<and>
     sock_next_recv_seq s = base + of_nat (length (concat (take j chunks)))"

lemma receive_chunk:
  assumes st: "chunk_state chunks base j s" and ne: "\<forall>c \<in> set chunks. c \<noteq> []"
    and short: "length (concat chunks) < 2 ^ 32" and i: "i < length chunks"
  shows "\<exists>s'. receive_data (fst (chunk_segment chunks base i)) (snd (chunk_segment chunks base i)) s = (Ok (), s') \<and>
    chunk_state chunks base (if i = j then Suc j else j) s'"
proof (cases "i = j")
  case True
  then show ?thesis
    using st i by (auto simp: chunk_state_def chunk_segment_def receive_data_def take_chunks add.assoc)
next
  case False
  let ?l = "\<lambda>k. length (concat (take k chunks))"
  have "?l i \<noteq> ?l j" using False chunk_prefix_length [OF ne, of i j] chunk_prefix_length [OF ne, of j i] st i
    by (cases "i < j") (auto simp: chunk_state_def)
  moreover have "?l i < 2 ^ 32" "?l j < 2 ^ 32" using chunk_prefix_le short le_less_trans by blast+
  ultimately have "(of_nat (?l i) :: u32) \<noteq> of_nat (?l j)" by (simp add: of_nat_u32_inj del: length_concat)
  then show ?thesis
    using st False by (auto simp: chunk_state_def chunk_segment_def receive_data_def simp del: length_concat)
qed

text \<open>C35: A stream cut into non-empty chunks and sent under a schedule that may repeat and
  reorder chunks arrives complete if every chunk is sent after those before it were: the socket refines
  the machine that counts the chunks received so far.\<close>

theorem tcp_stream_complete:
  assumes "sock_state s = Established" and "sock_buf s = []"
    and "\<forall>c \<in> set chunks. c \<noteq> []" and "length (concat chunks) < 2 ^ 32"
    and "\<forall>i \<in> set schedule. i < length chunks"
  shows "\<exists>s'. receive_segments (map (chunk_segment chunks (sock_next_recv_seq s)) schedule) s = (Ok (), s') \<and>
    sock_buf s' = concat (take (progress schedule 0) chunks) \<and>
    (subseq [0..<length chunks] schedule \<longrightarrow> sock_buf s' = concat chunks)"
proof -
  define base where "base = sock_next_recv_seq s"
  have "\<exists>t'. receive_segments (map (chunk_segment chunks base) schedule) t = (Ok (), t') \<and>
      chunk_state chunks base (progress schedule j) t'"
    if "chunk_state chunks base j t" "\<forall>i \<in> set schedule. i < length chunks" for schedule j t
    using that
  proof (induction schedule arbitrary: j t)
    case (Cons i schedule)
    then obtain t1 where
      t1: "receive_data (fst (chunk_segment chunks base i)) (snd (chunk_segment chunks base i)) t = (Ok (), t1)"
      and st: "chunk_state chunks base (if i = j then Suc j else j) t1"
      using receive_chunk [OF Cons.prems(1) assms(3,4), of i] by auto
    from Cons.IH [OF st] Cons.prems(2) t1 show ?case
      by (auto simp: receive_segments_def progress_def case_prod_unfold)
  qed (simp add: receive_segments_def progress_def)
  moreover have "chunk_state chunks base 0 s" using assms(1,2) by (simp add: chunk_state_def base_def)
  ultimately obtain s' where s': "receive_segments (map (chunk_segment chunks base) schedule) s = (Ok (), s')"
    and st: "chunk_state chunks base (progress schedule 0) s'"
    using assms(5) by blast
  have "subseq [0..<length chunks] schedule \<Longrightarrow> sock_buf s' = concat chunks"
    using progress_subseq [of 0 "length chunks" schedule] st by (simp add: chunk_state_def)
  then show ?thesis using s' st by (simp add: base_def chunk_state_def)
qed

theorem tcp_stream_complete_witness:
  "\<exists>s'. receive_segments (map (chunk_segment [[1, 2], [3]] 7) [1, 0, 0, 1])
     (tcp_socket_new\<lparr>sock_state := Established, sock_next_recv_seq := 7\<rparr>) = (Ok (), s') \<and> sock_buf s' = [1, 2, 3]"
  using tcp_stream_complete [of "tcp_socket_new\<lparr>sock_state := Established, sock_next_recv_seq := 7\<rparr>"
      "[[1, 2], [3]]" "[1, 0, 0, 1]"]
  by (auto simp: tcp_socket_new_def progress_def)

end
