(* ===== verification/BTree_Map.thy ===== *)
theory BTree_Map
  imports Checksum
begin

text \<open>
  The maps of the network stack are \<open>BTreeMap\<close>s of the standard library: an ordered map, iterated in
  the order of its keys. The model is an association list in key order. The locale \<open>ordered_map\<close> states
  what the code relies on. IP addresses are ordered by their octets, as \<open>Ord for Ipv4Addr\<close> does.
\<close>

instantiation Ipv4Addr :: linorder
begin

fun addr_num :: "Ipv4Addr \<Rightarrow> nat" where
  "addr_num (Ipv4Addr a b c d) = ((unat a * 256 + unat b) * 256 + unat c) * 256 + unat d"

definition less_eq_Ipv4Addr :: "Ipv4Addr \<Rightarrow> Ipv4Addr \<Rightarrow> bool" where
  "less_eq_Ipv4Addr x y = (addr_num x \<le> addr_num y)"

definition less_Ipv4Addr :: "Ipv4Addr \<Rightarrow> Ipv4Addr \<Rightarrow> bool" where
  "less_Ipv4Addr x y = (addr_num x < addr_num y)"

lemma addr_num_inj: "addr_num x = addr_num y \<Longrightarrow> x = y"
proof (cases x; cases y)
  fix a b c d a' b' c' d'
  assume eq: "addr_num x = addr_num y" and xy: "x = Ipv4Addr a b c d" "y = Ipv4Addr a' b' c' d'"
  have byte: "unat w < 256" for w :: u8 using unat_bound [of w] by simp
  have step: "m * 256 + unat v = n * 256 + unat w \<Longrightarrow> m = n \<and> v = w" for m n and v w :: u8
  proof -
    assume e: "m * 256 + unat v = n * 256 + unat w"
    then have "(m * 256 + unat v) div 256 = (n * 256 + unat w) div 256" by simp
    then have "m = n" using byte [of v] byte [of w] by simp
    then show ?thesis using e by (simp add: unsigned_word_eqI)
  qed
  have "((unat a * 256 + unat b) * 256 + unat c) * 256 + unat d =
      ((unat a' * 256 + unat b') * 256 + unat c') * 256 + unat d'"
    using eq by (simp only: xy addr_num.simps)
  then have "(unat a * 256 + unat b) * 256 + unat c = (unat a' * 256 + unat b') * 256 + unat c'" "d = d'"
    using step by blast+
  then have "unat a * 256 + unat b = unat a' * 256 + unat b'" "c = c'" using step by blast+
  then have "unat a = unat a'" "b = b'" using step by blast+
  then show "x = y" using \<open>d = d'\<close> \<open>c = c'\<close> by (simp add: xy unsigned_word_eqI)
qed

instance
proof
  fix x y z :: Ipv4Addr
  show "x < y \<longleftrightarrow> x \<le> y \<and> \<not> y \<le> x" by (auto simp: less_eq_Ipv4Addr_def less_Ipv4Addr_def)
  show "x \<le> x" by (simp add: less_eq_Ipv4Addr_def)
  show "x \<le> y \<Longrightarrow> y \<le> z \<Longrightarrow> x \<le> z" by (simp add: less_eq_Ipv4Addr_def)
  show "x \<le> y \<Longrightarrow> y \<le> x \<Longrightarrow> x = y" by (simp add: less_eq_Ipv4Addr_def addr_num_inj)
  show "x \<le> y \<or> y \<le> x" by (auto simp: less_eq_Ipv4Addr_def)
qed

end

type_synonym ('k, 'v) btree = "('k \<times> 'v) list"

definition bt_get :: "('k, 'v) btree \<Rightarrow> 'k \<Rightarrow> 'v option" where
  "bt_get m k = map_of m k"

fun bt_insert :: "('k :: linorder) \<Rightarrow> 'v \<Rightarrow> ('k, 'v) btree \<Rightarrow> ('k, 'v) btree" where
  "bt_insert k v [] = [(k, v)]"
| "bt_insert k v ((k', v') # m) =
     (if k < k' then (k, v) # (k', v') # m
      else if k = k' then (k, v) # m
      else (k', v') # bt_insert k v m)"

fun bt_remove :: "'k \<Rightarrow> ('k, 'v) btree \<Rightarrow> ('k, 'v) btree" where
  "bt_remove k [] = []"
| "bt_remove k ((k', v') # m) = (if k = k' then m else (k', v') # bt_remove k m)"

definition bt_contains_key :: "('k, 'v) btree \<Rightarrow> 'k \<Rightarrow> bool" where
  "bt_contains_key m k = (bt_get m k \<noteq> None)"

definition bt_inv :: "('k :: linorder, 'v) btree \<Rightarrow> bool" where
  "bt_inv m = (sorted (map fst m) \<and> distinct (map fst m))"

text \<open>The contract: a partial function with an iteration order.\<close>

locale ordered_map =
  fixes get :: "'m \<Rightarrow> 'k :: linorder \<Rightarrow> 'v option"
    and insert_kv :: "'k \<Rightarrow> 'v \<Rightarrow> 'm \<Rightarrow> 'm"
    and remove :: "'k \<Rightarrow> 'm \<Rightarrow> 'm"
    and entries :: "'m \<Rightarrow> ('k \<times> 'v) list"
    and inv :: "'m \<Rightarrow> bool"
  assumes get_insert: "inv m \<Longrightarrow> get (insert_kv k v m) k' = (if k' = k then Some v else get m k')"
    and get_remove: "inv m \<Longrightarrow> get (remove k m) k' = (if k' = k then None else get m k')"
    and inv_insert: "inv m \<Longrightarrow> inv (insert_kv k v m)"
    and inv_remove: "inv m \<Longrightarrow> inv (remove k m)"
    and entries_get: "inv m \<Longrightarrow> (k, v) \<in> set (entries m) \<longleftrightarrow> get m k = Some v"
    and entries_sorted: "inv m \<Longrightarrow> sorted (map fst (entries m)) \<and> distinct (map fst (entries m))"
begin

text \<open>The first entry in iteration order that satisfies a predicate is the one with the least key.\<close>

lemma find_least:
  assumes "inv m" and "find (\<lambda>(k, v). P k v) (entries m) = Some (k, v)"
  shows "get m k = Some v \<and> P k v \<and> (\<forall>k' v'. get m k' = Some v' \<and> P k' v' \<longrightarrow> k \<le> k')"
proof -
  obtain i where i: "i < length (entries m)" "entries m ! i = (k, v)" "P k v"
    and before: "\<And>j. j < i \<Longrightarrow> \<not> (case entries m ! j of (k, v) \<Rightarrow> P k v)"
    using assms(2) unfolding find_Some_iff by auto
  have "(k, v) \<in> set (entries m)" using i nth_mem by fastforce
  moreover have "k \<le> k'" if "get m k' = Some v'" "P k' v'" for k' v'
  proof -
    have "(k', v') \<in> set (entries m)" using that(1) assms(1) entries_get by blast
    then obtain j where j: "j < length (entries m)" "entries m ! j = (k', v')" by (metis in_set_conv_nth)
    then have "i \<le> j" using before [of j] that(2) by (metis case_prod_conv not_le)
    then have "map fst (entries m) ! i \<le> map fst (entries m) ! j"
      using entries_sorted [OF assms(1)] j(1) by (metis length_map sorted_nth_mono)
    then show ?thesis using i j by simp
  qed
  ultimately show ?thesis using entries_get [OF assms(1)] i(3) by blast
qed

lemma find_none:
  assumes "inv m" and "find (\<lambda>(k, v). P k v) (entries m) = None" and "get m k = Some v"
  shows "\<not> P k v"
  using assms entries_get by (fastforce simp: find_None_iff)

lemma insert_overwrites: "inv m \<Longrightarrow> get (insert_kv k w (insert_kv k v m)) = get (insert_kv k w m)"
  by (rule ext) (simp add: get_insert inv_insert)

end

lemma bt_get_insert [simp]: "bt_get (bt_insert k v m) k' = (if k' = k then Some v else bt_get m k')"
  by (induction m) (auto simp: bt_get_def)

lemma bt_keys_insert: "set (map fst (bt_insert k v m)) = insert k (set (map fst m))"
  by (induction k v m rule: bt_insert.induct) (simp_all, blast?)

lemma bt_set_remove: "set (bt_remove k m) \<subseteq> set m"
  by (induction m rule: bt_remove.induct) (auto split: if_splits)

lemma bt_inv_Nil [simp]: "bt_inv []"
  by (simp add: bt_inv_def)

lemma bt_inv_Cons: "bt_inv ((k, v) # m) \<longleftrightarrow> bt_inv m \<and> (\<forall>x \<in> set (map fst m). k < x)"
  by (auto simp: bt_inv_def order.order_iff_strict)

lemma bt_inv_insert [simp]: "bt_inv m \<Longrightarrow> bt_inv (bt_insert k v m)"
proof (induction m)
  case (Cons e m)
  obtain k' v' where e: "e = (k', v')" by (cases e)
  show ?case
    using Cons bt_keys_insert [of k v m] by (auto simp: e bt_inv_Cons)
qed (simp add: bt_inv_Cons)

lemma bt_inv_remove [simp]: "bt_inv m \<Longrightarrow> bt_inv (bt_remove k m)"
  by (induction m rule: bt_remove.induct) (auto simp: bt_inv_Cons dest!: set_mp [OF bt_set_remove])

lemma bt_get_remove [simp]: "bt_inv m \<Longrightarrow> bt_get (bt_remove k m) k' = (if k' = k then None else bt_get m k')"
proof (induction m rule: bt_remove.induct)
  case (2 k x w m)
  then have "k = x \<Longrightarrow> map_of m k = None" by (auto simp: bt_inv_Cons map_of_eq_None_iff)
  then show ?case using 2 by (auto simp: bt_get_def bt_inv_Cons)
qed (simp add: bt_get_def)

lemma bt_get_Nil [simp]: "bt_get [] k = None"
  by (simp add: bt_get_def)

lemma bt_get_Cons [simp]: "bt_get ((k, v) # m) k' = (if k' = k then Some v else bt_get m k')"
  by (simp add: bt_get_def)

lemma bt_insert_same: "bt_inv m \<Longrightarrow> bt_get m k = Some v \<Longrightarrow> bt_insert k v m = m"
proof (induction k v m rule: bt_insert.induct)
  case (2 k v x w m)
  then show ?case by (auto simp: bt_inv_Cons bt_get_def split: if_splits dest!: map_of_SomeD)
qed (simp add: bt_get_def)

lemma bt_entries_get: "bt_inv m \<Longrightarrow> (k, v) \<in> set m \<longleftrightarrow> bt_get m k = Some v"
  by (simp add: bt_inv_def bt_get_def)

interpretation bt: ordered_map bt_get bt_insert bt_remove "\<lambda>m. m" bt_inv
proof unfold_locales
  show "bt_inv m \<Longrightarrow> sorted (map fst m) \<and> distinct (map fst m)" for m :: "('a, 'b) btree"
    by (simp add: bt_inv_def)
qed (simp_all add: bt_entries_get)

end
