(* ===== verification/Ip_Eth.thy ===== *)
theory Ip_Eth
  imports Packets
begin

text \<open>
  IPv4 (kernel/src/net/ip.rs) and the Ethernet frame (kernel/src/net/eth.rs). An IPv4 packet
  carries its payload as bytes, which \<open>payload\<close> decodes by protocol; an Ethernet frame is re-encoded
  from its decoded payload and padded to the minimum length. The properties say which packets
  survive the way through a frame.
\<close>

subsection \<open>IPv4\<close>

datatype Protocol = PIcmp | PTcp | PUdp | POther u8

fun protocol_byte :: "Protocol \<Rightarrow> u8" where
  "protocol_byte PIcmp = 1"
| "protocol_byte PTcp = 6"
| "protocol_byte PUdp = 17"
| "protocol_byte (POther x) = x"

definition protocol_of :: "u8 \<Rightarrow> Protocol" where
  "protocol_of x = (if x = 1 then PIcmp else if x = 6 then PTcp else if x = 17 then PUdp else POther x)"

datatype Ipv4Payload = IpIcmp IcmpPacket | IpTcp TcpPacket | IpUdp UdpPacket

record Ipv4Packet =
  version_ihl :: u8
  dscp_ecn :: u8
  ip_len :: u16
  ip_id :: u16
  ip_flags :: u16
  ip_ttl :: u8
  ip_protocol :: Protocol
  ip_checksum :: u16
  src_addr :: Ipv4Addr
  dst_addr :: Ipv4Addr
  ip_data :: "u8 list"

text \<open>The length of the header in bytes, as its low four bits say.\<close>

definition ihl_bytes :: "u8 \<Rightarrow> nat" where
  "ihl_bytes v = unat (v AND 0x0f) * 4"

text \<open>\<open>value[ihl..data_end.min(value.len())]\<close>: \<open>ihl\<close> is at most both bounds, so the slice never panics.\<close>

definition ip_try_from :: "u8 list \<Rightarrow> Ipv4Packet outcome" where
  "ip_try_from value =
     (if length value < 20 then err (InvalidBufferSize 20 (length value))
      else let len = be16 (value ! 2) (value ! 3);
               ihl = ihl_bytes (value ! 0) in
           if length value < ihl then err_ctx InvalidData ''IP IHL''
           else let payload_len = unat len - ihl;
                    data_end = ihl + payload_len in
                map_ok (\<lambda>d. \<lparr>version_ihl = value ! 0,
                             dscp_ecn = value ! 1,
                             ip_len = len,
                             ip_id = be16 (value ! 4) (value ! 5),
                             ip_flags = be16 (value ! 6) (value ! 7),
                             ip_ttl = value ! 8,
                             ip_protocol = protocol_of (value ! 9),
                             ip_checksum = be16 (value ! 10) (value ! 11),
                             src_addr = ipv4_at value 12,
                             dst_addr = ipv4_at value 16,
                             ip_data = d\<rparr>)
                  (slice value ihl (min data_end (length value))))"

fun ipv4_payload_vec :: "Ipv4Payload \<Rightarrow> u8 list" where
  "ipv4_payload_vec (IpIcmp packet) = icmp_to_vec packet"
| "ipv4_payload_vec (IpTcp packet) = tcp_to_vec packet"
| "ipv4_payload_vec (IpUdp packet) = udp_to_vec packet"

definition ip_new_with ::
  "u8 \<Rightarrow> u8 \<Rightarrow> u16 \<Rightarrow> u16 \<Rightarrow> Protocol \<Rightarrow> Ipv4Addr \<Rightarrow> Ipv4Addr \<Rightarrow> Ipv4Payload \<Rightarrow> Ipv4Packet outcome" where
  "ip_new_with vihl dscp ident flags proto src dst payload =
     (let payload_vec = ipv4_payload_vec payload in
      map_ok (\<lambda>len. \<lparr>version_ihl = vihl, dscp_ecn = dscp, ip_len = len, ip_id = ident, ip_flags = flags,
                     ip_ttl = 64, ip_protocol = proto, ip_checksum = 0, src_addr = src, dst_addr = dst,
                     ip_data = payload_vec\<rparr>)
        (add_u16 20 (of_nat (length payload_vec))))"

definition ip_to_vec :: "Ipv4Packet \<Rightarrow> u8 list" where
  "ip_to_vec p =
     [version_ihl p] @ [dscp_ecn p] @ to_be16 (ip_len p) @ to_be16 (ip_id p) @ to_be16 (ip_flags p) @
     [ip_ttl p] @ [protocol_byte (ip_protocol p)] @ to_be16 (ip_checksum p) @
     octets (src_addr p) @ octets (dst_addr p) @ ip_data p"

text \<open>The loops of \<open>calc_checksum\<close> are those of checksum.rs written out again, over the header only.\<close>

definition ip_calc_checksum :: "Ipv4Packet \<Rightarrow> Ipv4Packet" where
  "ip_calc_checksum p =
     (let packet = ip_to_vec (p\<lparr>ip_checksum := 0\<rparr>);
          header = take (min (ihl_bytes (version_ihl p)) (length packet)) packet
      in p\<lparr>ip_checksum := NOT (ucast (fold_loop
             (foldl (\<lambda>acc w. acc + ucast w) (0 :: u32) (chunk_words header))))\<rparr>)"

definition ip_validate :: "Ipv4Packet \<Rightarrow> unit outcome" where
  "ip_validate p =
     (if drop_bit 4 (version_ihl p) \<noteq> 4 then err_ctx InvalidData ''IP version''
      else if ip_ttl p = 0 then err_ctx InvalidData ''IP TTL''
      else Ok ())"

definition ip_payload :: "Ipv4Packet \<Rightarrow> Ipv4Payload outcome" where
  "ip_payload p =
     (case ip_protocol p of
        PIcmp \<Rightarrow> map_ok IpIcmp (icmp_try_from (ip_data p))
      | PTcp \<Rightarrow> map_ok IpTcp (tcp_try_from (ip_data p))
      | PUdp \<Rightarrow> map_ok IpUdp (udp_try_from (ip_data p))
      | POther _ \<Rightarrow> err InvalidData)"

subsection \<open>Ethernet frames\<close>

datatype EthernetPayload = EpArp ArpPacket | EpIpv4 Ipv4Packet | EpNone

fun eth_payload_vec :: "EthernetPayload \<Rightarrow> u8 list" where
  "eth_payload_vec (EpArp packet) = arp_to_vec packet"
| "eth_payload_vec (EpIpv4 packet) = ip_to_vec packet"
| "eth_payload_vec EpNone = []"

record EthernetFrame =
  dst_mac_addr :: EthernetAddress
  src_mac_addr :: EthernetAddress
  eth_type :: EthernetType
  eth_payload_bytes :: "u8 list"

definition eth_try_from :: "u8 list \<Rightarrow> EthernetFrame outcome" where
  "eth_try_from value =
     (if length value < 14 then err (InvalidBufferSize 14 (length value))
      else Ok \<lparr>dst_mac_addr = mac_at value 0,
               src_mac_addr = mac_at value 6,
               eth_type = eth_type_of (value ! 12) (value ! 13),
               eth_payload_bytes = drop 14 value\<rparr>)"

definition eth_new_with ::
  "EthernetAddress \<Rightarrow> EthernetAddress \<Rightarrow> EthernetType \<Rightarrow> u8 list \<Rightarrow> EthernetFrame" where
  "eth_new_with dst src ty payload =
     \<lparr>dst_mac_addr = dst, src_mac_addr = src, eth_type = ty, eth_payload_bytes = payload\<rparr>"

definition eth_payload :: "EthernetFrame \<Rightarrow> EthernetPayload outcome" where
  "eth_payload f =
     (case eth_type f of
        EtArp \<Rightarrow> map_ok EpArp (arp_try_from (eth_payload_bytes f))
      | EtIpv4 \<Rightarrow> map_ok EpIpv4 (ip_try_from (eth_payload_bytes f))
      | _ \<Rightarrow> Ok EpNone)"

definition eth_to_vec :: "EthernetFrame \<Rightarrow> u8 list outcome" where
  "eth_to_vec f =
     map_ok (\<lambda>pl. let payload = eth_payload_vec pl;
                      payload_len = max (length payload) 46;
                      frame_len = max (14 + payload_len) 64 in
                  resize frame_len
                    (mac_bytes (dst_mac_addr f) @ mac_bytes (src_mac_addr f) @
                     eth_type_bytes (eth_type f) @ payload))
       (eth_payload f)"

subsection \<open>IPv4 as a wire format\<close>

fun protocol_wf :: "Protocol \<Rightarrow> bool" where
  "protocol_wf (POther x) = (x \<noteq> 1 \<and> x \<noteq> 6 \<and> x \<noteq> 17)"
| "protocol_wf _ = True"

definition ip_wf :: "Ipv4Packet \<Rightarrow> bool" where
  "ip_wf p = (ihl_bytes (version_ihl p) = 20 \<and> unat (ip_len p) = 20 + length (ip_data p) \<and>
              protocol_wf (ip_protocol p))"

lemma protocol_roundtrip: "protocol_wf x \<Longrightarrow> protocol_of (protocol_byte x) = x"
  by (cases x) (simp_all add: protocol_of_def)

lemma ip_decode_encode: "ip_wf p \<Longrightarrow> ip_try_from (ip_to_vec p @ pad) = Ok p"
  by (cases p; cases "src_addr p"; cases "dst_addr p")
    (simp add: ip_try_from_def ip_to_vec_def ip_wf_def to_be16_def ipv4_at_def protocol_roundtrip Let_def)

interpretation ip: padded_format ip_to_vec ip_try_from ip_wf 20
  using ip_decode_encode [where pad = "[]"] ip_decode_encode
  by unfold_locales (simp_all add: ip_try_from_def)

lemma ip_wf_new_with:
  assumes "ip_new_with v dscp ident flags proto src dst payload = Ok p"
    and "length (ipv4_payload_vec payload) < 65536" and "ihl_bytes v = 20" and "protocol_wf proto"
  shows "ip_wf p"
proof -
  obtain len where len: "add_u16 20 (of_nat (length (ipv4_payload_vec payload))) = Ok len"
    and p: "ip_len p = len" "version_ihl p = v" "ip_data p = ipv4_payload_vec payload" "ip_protocol p = proto"
    using assms(1) by (auto simp: ip_new_with_def Let_def map_ok_Ok_iff)
  then show ?thesis using add_u16_Ok [OF len] assms(2-) by (simp add: ip_wf_def)
qed

lemma ip_wf_calc_checksum [simp]: "ip_wf (ip_calc_checksum p) = ip_wf p"
  by (simp add: ip_calc_checksum_def ip_wf_def Let_def)

subsection \<open>Properties\<close>

text \<open>The payload of an Ethernet frame, the type that announces it, and its well-formedness.\<close>

fun payload_type :: "EthernetPayload \<Rightarrow> EthernetType" where
  "payload_type (EpArp _) = EtArp"
| "payload_type (EpIpv4 _) = EtIpv4"
| "payload_type EpNone = EtIpv6"

fun payload_wf :: "EthernetPayload \<Rightarrow> bool" where
  "payload_wf (EpArp p) = arp_wf p"
| "payload_wf (EpIpv4 p) = ip_wf p"
| "payload_wf EpNone = True"

lemma eth_payload_decode:
  "payload_wf pl \<Longrightarrow>
   eth_payload \<lparr>dst_mac_addr = d, src_mac_addr = s, eth_type = payload_type pl,
     eth_payload_bytes = eth_payload_vec pl @ pad\<rparr> = Ok pl"
  by (cases pl) (simp_all add: eth_payload_def arp.padding ip.padding)

lemma resize_extend: "length bs \<le> n \<Longrightarrow> resize n bs = bs @ replicate (n - length bs) 0"
  by (simp add: resize_def)

lemma eth_decode_encode:
  assumes "eth_type_wf ty"
  shows "eth_try_from (mac_bytes d @ mac_bytes s @ eth_type_bytes ty @ rest) =
    Ok \<lparr>dst_mac_addr = d, src_mac_addr = s, eth_type = ty, eth_payload_bytes = rest\<rparr>"
proof -
  obtain h l where ty: "eth_type_bytes ty = [h, l]" using eth_type_bytes_two by blast
  then have "eth_type_of h l = ty" using eth_type_roundtrip [OF assms] by simp
  then show ?thesis by (cases d; cases s) (simp add: eth_try_from_def ty mac_at_def)
qed

text \<open>A well-formed ARP or IPv4 packet sent in an Ethernet frame is what the receiver of the
  frame decodes, with the addresses and the type of the frame, although the frame is padded to at least
  64 bytes and the decoder does not know how long the padding is.\<close>

theorem eth_frame_roundtrip:
  assumes "payload_wf pl"
  shows "\<exists>bs f. eth_to_vec (eth_new_with d s (payload_type pl) (eth_payload_vec pl)) = Ok bs \<and>
    64 \<le> length bs \<and> eth_try_from bs = Ok f \<and>
    dst_mac_addr f = d \<and> src_mac_addr f = s \<and> eth_type f = payload_type pl \<and>
    eth_payload f = Ok pl"
proof -
  let ?h = "mac_bytes d @ mac_bytes s @ eth_type_bytes (payload_type pl)"
  let ?v = "eth_payload_vec pl"
  define n where "n = max (14 + max (length ?v) 46) 64"
  have h: "length ?h = 14" by (cases d; cases s; cases pl) simp_all
  have pad: "resize n (?h @ ?v) = ?h @ ?v @ replicate (n - 14 - length ?v) 0"
    using h by (simp add: resize_extend n_def)
  have "eth_payload (eth_new_with d s (payload_type pl) ?v) = Ok pl"
    using eth_payload_decode [OF assms, where pad = "[]"] by (simp add: eth_new_with_def)
  then have sent: "eth_to_vec (eth_new_with d s (payload_type pl) ?v) = Ok (resize n (?h @ ?v))"
    by (simp add: eth_to_vec_def n_def Let_def) (simp add: eth_new_with_def)
  have wf: "eth_type_wf (payload_type pl)" by (cases pl) simp_all
  have "eth_try_from (resize n (?h @ ?v)) =
    Ok \<lparr>dst_mac_addr = d, src_mac_addr = s, eth_type = payload_type pl,
        eth_payload_bytes = ?v @ replicate (n - 14 - length ?v) 0\<rparr>"
    unfolding pad using eth_decode_encode [OF wf] by simp
  moreover have "64 \<le> length (resize n (?h @ ?v))" using h by (simp add: resize_def n_def)
  ultimately show ?thesis using sent eth_payload_decode [OF assms] by auto
qed

theorem eth_frame_roundtrip_witness:
  "\<exists>bs f. eth_to_vec (eth_new_with broadcast (EthernetAddress 1 2 3 4 5 6) EtArp
       (arp_to_vec (arp_new_with ArpRequest (EthernetAddress 1 2 3 4 5 6) (Ipv4Addr 10 0 2 15)
          broadcast (Ipv4Addr 10 0 2 2)))) = Ok bs \<and>
     eth_try_from bs = Ok f \<and>
     eth_payload f = Ok (EpArp (arp_new_with ArpRequest (EthernetAddress 1 2 3 4 5 6) (Ipv4Addr 10 0 2 15)
          broadcast (Ipv4Addr 10 0 2 2)))"
  using eth_frame_roundtrip [of "EpArp (arp_new_with ArpRequest (EthernetAddress 1 2 3 4 5 6)
      (Ipv4Addr 10 0 2 15) broadcast (Ipv4Addr 10 0 2 2))" broadcast "EthernetAddress 1 2 3 4 5 6"]
  by auto

text \<open>After \<open>calc_checksum\<close> the ten words of a header without options add up to a multiple of 65535,
  which is what a receiver of the packet checks.\<close>

lemma ip_header_total:
  assumes "ihl_bytes (version_ihl p) = 20"
  shows "word_total (take 20 (ip_to_vec (ip_calc_checksum p))) mod 65535 = 0"
proof -
  let ?z = "take 20 (ip_to_vec (p\<lparr>ip_checksum := 0\<rparr>))"
  let ?c = "fold_checksum (checksum_words ?z)"
  have q: "ip_calc_checksum p = p\<lparr>ip_checksum := ?c\<rparr>"
    by (simp add: ip_calc_checksum_def fold_checksum_def checksum_words_def assms Let_def min_def)
  have split: "word_total (take 20 (ip_to_vec (p\<lparr>ip_checksum := x\<rparr>))) = word_total ?z + unat x" for x
    by (cases "src_addr p"; cases "dst_addr p") (simp add: ip_to_vec_def to_be16_def unat_be16)
  have "unat ?c = 65535 - ones_fold (word_total ?z)"
    by (simp add: unat_fold_checksum unat_checksum_words)
  then have "(word_total ?z + unat ?c) mod 65535 = 0" using checksum_completes [of "word_total ?z"] by metis
  then show ?thesis using split [of ?c] by (metis q)
qed

text \<open>A packet built with the header length of a packet that carried options (as the reply to such
  a packet is) loses that many bytes of its payload when its frame is encoded: the constructor writes no
  options, and the frame's encoder takes them off the payload.\<close>

theorem ip_options_cut_payload:
  assumes "ip_new_with v dscp ident flags proto src dst payload = Ok p"
    and "20 \<le> ihl_bytes v" and "ihl_bytes v - 20 \<le> length (ipv4_payload_vec payload)"
    and "length (ipv4_payload_vec payload) < 65516" and "protocol_wf proto"
  shows "\<exists>q. eth_payload (eth_new_with d s EtIpv4 (ip_to_vec p)) = Ok (EpIpv4 q) \<and>
    ip_data q = drop (ihl_bytes v - 20) (ipv4_payload_vec payload)"
proof -
  obtain len where len: "add_u16 20 (of_nat (length (ipv4_payload_vec payload))) = Ok len"
    and p: "ip_len p = len" "version_ihl p = v" "ip_data p = ipv4_payload_vec payload"
    using assms(1) by (auto simp: ip_new_with_def Let_def map_ok_Ok_iff)
  have l: "unat len = 20 + length (ipv4_payload_vec payload)" using add_u16_Ok [OF len] assms(4) by simp
  define h where "h = take 20 (ip_to_vec p)"
  have vec: "ip_to_vec p = h @ ipv4_payload_vec payload" and h: "length h = 20"
    and fields: "h ! 0 = v" "be16 (h ! 2) (h ! 3) = len"
    by (cases "src_addr p"; cases "dst_addr p"; simp add: h_def ip_to_vec_def p to_be16_def)+
  show ?thesis
    using assms(2,3) l h fields
    by (simp add: eth_payload_def eth_new_with_def ip_try_from_def vec nth_append Let_def min_def)
qed

theorem ip_options_cut_payload_witness:
  "\<exists>p q. ip_new_with 0x46 0 0 0 PIcmp (Ipv4Addr 10 0 2 15) (Ipv4Addr 10 0 2 2)
      (IpIcmp \<lparr>icmp_ty = EchoReply, icmp_code = 0, icmp_checksum = 0, icmp_id = 1, icmp_seq = 1, icmp_data = [7]\<rparr>) = Ok p \<and>
     eth_payload (eth_new_with broadcast broadcast EtIpv4 (ip_to_vec p)) = Ok (EpIpv4 q) \<and> ip_data q = [0, 1, 0, 1, 7]"
proof -
  let ?pl = "IpIcmp \<lparr>icmp_ty = EchoReply, icmp_code = 0, icmp_checksum = 0, icmp_id = 1, icmp_seq = 1, icmp_data = [7]\<rparr>"
  let ?mk = "ip_new_with 0x46 0 0 0 PIcmp (Ipv4Addr 10 0 2 15) (Ipv4Addr 10 0 2 2) ?pl"
  obtain p where p: "?mk = Ok p"
    by (simp add: ip_new_with_def Let_def add_u16_def icmp_to_vec_def to_be16_def)
  show ?thesis
    using ip_options_cut_payload [OF p, of broadcast broadcast] p
    by (auto simp: ihl_bytes_def icmp_to_vec_def to_be16_def)
qed

end
