(* ===== verification/Socket_Table.thy ===== *)
theory Socket_Table
  imports Tcp_Socket BTree_Map Ip_Eth
begin

text \<open>
  The socket table (kernel/src/net/socket.rs): the sockets by their id and, for each protocol, the
  port map. A \<open>&mut\<close> reference into the table is modelled by running an action on the entry and writing it
  back (\<open>with_socket\<close>, \<open>inner_tcp_mut\<close>, \<open>inner_udp_mut\<close>). \<open>next_socket_id\<close> is the static counter of
  \<open>SocketId::new\<close>, which counts from 4096; it is a natural number here, so its wrap-around after \<open>2 ^ 64\<close>
  sockets is not modelled.

  \<open>table_inv\<close> is the invariant that ties the three maps together; every operation keeps it.
\<close>

type_synonym SocketId = nat

datatype SocketInner = InnerTcp TcpSocket | InnerUdp UdpSocket

datatype SocketType = Stream | Dgram

record Socket =
  so_port :: u16
  so_addr :: "Ipv4Addr option"
  so_inner :: SocketInner
  so_kind :: SocketType

record SocketTable =
  table :: "(SocketId, Socket) btree"
  udp_port_socket_id_map :: "(u16, SocketId) btree"
  tcp_port_socket_id_map :: "(u16, SocketId) btree"
  next_socket_id :: nat

definition socket_table_new :: SocketTable where
  "socket_table_new = \<lparr>table = [], udp_port_socket_id_map = [], tcp_port_socket_id_map = [],
     next_socket_id = 4096\<rparr>"

definition socket_id_try_new :: "int \<Rightarrow> SocketId outcome" where
  "socket_id_try_new value = (if value < 0 then err_ctx InvalidData ''socket fd'' else Ok (nat value))"

definition inner_udp_mut :: "(UdpSocket, 'a) act \<Rightarrow> (Socket, 'a) act" where
  "inner_udp_mut m = (\<lambda>s.
     if so_kind s \<noteq> Dgram then (err_ctx InvalidData ''socket type'', s)
     else (case so_inner s of
             InnerUdp u \<Rightarrow> (case m u of (r, u') \<Rightarrow> (r, s\<lparr>so_inner := InnerUdp u'\<rparr>))
           | InnerTcp _ \<Rightarrow> (err_ctx InvalidData ''socket type'', s)))"

definition inner_tcp_mut :: "(TcpSocket, 'a) act \<Rightarrow> (Socket, 'a) act" where
  "inner_tcp_mut m = (\<lambda>s.
     if so_kind s \<noteq> Stream then (err_ctx InvalidData ''socket type'', s)
     else (case so_inner s of
             InnerTcp t \<Rightarrow> (case m t of (r, t') \<Rightarrow> (r, s\<lparr>so_inner := InnerTcp t'\<rparr>))
           | InnerUdp _ \<Rightarrow> (err_ctx InvalidData ''socket type'', s)))"

definition set_port :: "u16 \<Rightarrow> (Socket, unit) act" where
  "set_port p = modify (so_port_update (\<lambda>_. p))"

definition socket_by_id :: "SocketId \<Rightarrow> (SocketTable, Socket) act" where
  "socket_by_id i = (\<lambda>st. (ok_or (bt_get (table st) i) (with_context NotFound ''socket ID''), st))"

text \<open>\<open>socket_mut_by_id(id)?\<close> followed by code on the socket.\<close>

definition with_socket :: "SocketId \<Rightarrow> (Socket, 'a) act \<Rightarrow> (SocketTable, 'a) act" where
  "with_socket i m = (\<lambda>st. case bt_get (table st) i of
      None \<Rightarrow> (err_ctx NotFound ''socket ID'', st)
    | Some s \<Rightarrow> (case m s of (r, s') \<Rightarrow> (r, st\<lparr>table := bt_insert i s' (table st)\<rparr>)))"

definition remove_socket :: "SocketId \<Rightarrow> (SocketTable, unit) act" where
  "remove_socket i = (\<lambda>st. case bt_get (table st) i of
      None \<Rightarrow> (err_ctx NotFound ''socket ID'', st)
    | Some s \<Rightarrow>
        let st' = st\<lparr>table := bt_remove i (table st)\<rparr> in
        (Ok (),
         if so_port s \<noteq> 0 then
           (case so_kind s of
              Stream \<Rightarrow> st'\<lparr>tcp_port_socket_id_map := bt_remove (so_port s) (tcp_port_socket_id_map st')\<rparr>
            | Dgram \<Rightarrow> st'\<lparr>udp_port_socket_id_map := bt_remove (so_port s) (udp_port_socket_id_map st')\<rparr>)
         else st'))"

definition socket_id_by_port_and_type :: "u16 \<Rightarrow> SocketType \<Rightarrow> (SocketTable, SocketId) act" where
  "socket_id_by_port_and_type p k = (\<lambda>st.
     (ok_or (case k of Stream \<Rightarrow> bt_get (tcp_port_socket_id_map st) p
                     | Dgram \<Rightarrow> bt_get (udp_port_socket_id_map st) p)
        (with_context NotFound ''port''), st))"

definition insert_new_socket :: "SocketType \<Rightarrow> Protocol \<Rightarrow> (SocketTable, SocketId) act" where
  "insert_new_socket k proto = (\<lambda>st.
     if k = Stream \<and> proto \<noteq> PTcp \<or> k = Dgram \<and> proto \<noteq> PUdp
     then (err_ctx InvalidData ''socket protocol'', st)
     else let inner = (case k of Stream \<Rightarrow> InnerTcp tcp_socket_new | Dgram \<Rightarrow> InnerUdp udp_socket_new);
              i = next_socket_id st;
              socket = \<lparr>so_port = 0, so_addr = None, so_inner = inner, so_kind = k\<rparr>
          in (Ok i, st\<lparr>next_socket_id := Suc i, table := bt_insert i socket (table st)\<rparr>))"

text \<open>The loop over the ephemeral ports, \<open>PORT_EPHEMERAL_START..=PORT_EPHEMERAL_END\<close>.\<close>

lemma unat_inc_u16: "(p :: u16) \<noteq> 65535 \<Longrightarrow> unat (p + 1) = unat p + 1"
proof -
  assume "p \<noteq> 65535"
  then have "unat p \<noteq> unat (65535 :: u16)" by (metis unsigned_word_eqI)
  then have "unat p + unat (1 :: u16) < 2 ^ LENGTH(16)" using unat_bound [of p] by simp
  then show ?thesis by (subst unat_add_lem [THEN iffD1]) simp_all
qed

function find_port :: "(u16 \<Rightarrow> bool) \<Rightarrow> u16 \<Rightarrow> u16 option" where
  "find_port free p =
     (if free p then Some p
      else if p = 65535 then None
      else find_port free (p + 1))"
  by pat_completeness auto
termination
proof (relation "measure (\<lambda>(_, p). 65535 - unat p)")
  fix free :: "u16 \<Rightarrow> bool" and p :: u16
  assume "p \<noteq> 65535"
  then have "unat p \<noteq> unat (65535 :: u16)" by (metis unsigned_word_eqI)
  then show "((free, p + 1), (free, p)) \<in> measure (\<lambda>(_, p). 65535 - unat p)"
    using unat_inc_u16 [OF \<open>p \<noteq> 65535\<close>] unat_bound [of p] by simp
qed simp

declare find_port.simps [simp del]

definition port_free :: "SocketTable \<Rightarrow> u16 \<Rightarrow> bool" where
  "port_free st p = (\<not> bt_contains_key (tcp_port_socket_id_map st) p \<and>
                     \<not> bt_contains_key (udp_port_socket_id_map st) p)"

definition choose_port :: "u16 option \<Rightarrow> SocketTable \<Rightarrow> u16 outcome" where
  "choose_port port st =
     (let p = (case port of None \<Rightarrow> 0 | Some p \<Rightarrow> p) in
      if p = 0 then ok_or (find_port (port_free st) 49152) (from_error BufferFull)
      else if bt_contains_key (tcp_port_socket_id_map st) p then err_ctx AlreadyExists ''TCP port''
      else if bt_contains_key (udp_port_socket_id_map st) p then err_ctx AlreadyExists ''UDP port''
      else Ok p)"

definition bind_port :: "SocketId \<Rightarrow> u16 option \<Rightarrow> (SocketTable, unit) act" where
  "bind_port i port =
     bind_act (\<lambda>st. (choose_port port st, st)) (\<lambda>p.
     bind_act (with_socket i (\<lambda>s. (Ok (so_kind s), s\<lparr>so_port := p\<rparr>))) (\<lambda>k.
     modify (\<lambda>st. case k of
        Stream \<Rightarrow> st\<lparr>tcp_port_socket_id_map := bt_insert p i (tcp_port_socket_id_map st)\<rparr>
      | Dgram \<Rightarrow> st\<lparr>udp_port_socket_id_map := bt_insert p i (udp_port_socket_id_map st)\<rparr>)))"

text \<open>The loops over the table in key order.\<close>

definition is_established :: "u16 \<Rightarrow> Socket \<Rightarrow> bool" where
  "is_established server_port s =
     (so_kind s = Stream \<and> so_port s = server_port \<and>
      (case so_inner s of InnerTcp t \<Rightarrow> sock_state t = Established | InnerUdp _ \<Rightarrow> False))"

definition find_tcp_established_socket :: "u16 \<Rightarrow> SocketTable \<Rightarrow> SocketId option" where
  "find_tcp_established_socket server_port st =
     map_option fst (find (\<lambda>(_, s). is_established server_port s) (table st))"

definition is_connection :: "u16 \<Rightarrow> Ipv4Addr \<Rightarrow> u16 \<Rightarrow> Socket \<Rightarrow> bool" where
  "is_connection local_port remote_addr remote_port s =
     (so_kind s = Stream \<and> so_port s = local_port \<and>
      (case so_inner s of
         InnerTcp t \<Rightarrow> sock_dst_ipv4_addr t = Some remote_addr \<and> sock_dst_port t = Some remote_port
       | InnerUdp _ \<Rightarrow> False))"

definition find_tcp_socket_by_port_and_addr ::
  "u16 \<Rightarrow> Ipv4Addr \<Rightarrow> u16 \<Rightarrow> SocketTable \<Rightarrow> SocketId option" where
  "find_tcp_socket_by_port_and_addr local_port remote_addr remote_port st =
     map_option fst (find (\<lambda>(_, s). is_connection local_port remote_addr remote_port s) (table st))"

subsection \<open>The invariant\<close>

text \<open>A TCP socket is in a state that its methods reach, and knows its peer once it has one.\<close>

definition tcp_ok :: "TcpSocket \<Rightarrow> bool" where
  "tcp_ok t \<longleftrightarrow> tcp_socket_inv t \<and>
     (sock_state t \<notin> {Closed, Listen} \<longrightarrow> sock_dst_ipv4_addr t \<noteq> None \<and> sock_dst_port t \<noteq> None)"

definition socket_ok :: "Socket \<Rightarrow> bool" where
  "socket_ok s = (case so_inner s of
      InnerTcp t \<Rightarrow> so_kind s = Stream \<and> tcp_ok t
    | InnerUdp _ \<Rightarrow> so_kind s = Dgram)"

definition table_inv :: "SocketTable \<Rightarrow> bool" where
  "table_inv st \<longleftrightarrow>
     bt_inv (table st) \<and> bt_inv (tcp_port_socket_id_map st) \<and> bt_inv (udp_port_socket_id_map st) \<and>
     (\<forall>i s. bt_get (table st) i = Some s \<longrightarrow> i < next_socket_id st \<and> socket_ok s) \<and>
     (\<forall>p i. bt_get (tcp_port_socket_id_map st) p = Some i \<longrightarrow>
        p \<noteq> 0 \<and> (\<exists>s. bt_get (table st) i = Some s \<and> so_kind s = Stream \<and> so_port s = p)) \<and>
     (\<forall>p i. bt_get (udp_port_socket_id_map st) p = Some i \<longrightarrow>
        p \<noteq> 0 \<and> (\<exists>s. bt_get (table st) i = Some s \<and> so_kind s = Dgram \<and> so_port s = p)) \<and>
     (\<forall>i s. bt_get (table st) i = Some s \<and> so_kind s = Dgram \<and> so_port s \<noteq> 0 \<longrightarrow>
        bt_get (udp_port_socket_id_map st) (so_port s) = Some i)"

lemma table_invD:
  assumes "table_inv st"
  shows "bt_inv (table st)" "bt_inv (tcp_port_socket_id_map st)" "bt_inv (udp_port_socket_id_map st)"
    and "bt_get (table st) i = Some s \<Longrightarrow> i < next_socket_id st" "bt_get (table st) i = Some s \<Longrightarrow> socket_ok s"
    and "bt_get (tcp_port_socket_id_map st) p = Some i \<Longrightarrow>
        p \<noteq> 0 \<and> (\<exists>s. bt_get (table st) i = Some s \<and> so_kind s = Stream \<and> so_port s = p)"
    and "bt_get (udp_port_socket_id_map st) p = Some i \<Longrightarrow>
        p \<noteq> 0 \<and> (\<exists>s. bt_get (table st) i = Some s \<and> so_kind s = Dgram \<and> so_port s = p)"
    and "bt_get (table st) i = Some s \<Longrightarrow> so_kind s = Dgram \<Longrightarrow> so_port s \<noteq> 0 \<Longrightarrow>
        bt_get (udp_port_socket_id_map st) (so_port s) = Some i"
  using assms unfolding table_inv_def by blast+

lemma table_invI:
  assumes "bt_inv (table st)" "bt_inv (tcp_port_socket_id_map st)" "bt_inv (udp_port_socket_id_map st)"
    and "\<And>i s. bt_get (table st) i = Some s \<Longrightarrow> i < next_socket_id st \<and> socket_ok s"
    and "\<And>p i. bt_get (tcp_port_socket_id_map st) p = Some i \<Longrightarrow>
        p \<noteq> 0 \<and> (\<exists>s. bt_get (table st) i = Some s \<and> so_kind s = Stream \<and> so_port s = p)"
    and "\<And>p i. bt_get (udp_port_socket_id_map st) p = Some i \<Longrightarrow>
        p \<noteq> 0 \<and> (\<exists>s. bt_get (table st) i = Some s \<and> so_kind s = Dgram \<and> so_port s = p)"
    and "\<And>i s. bt_get (table st) i = Some s \<Longrightarrow> so_kind s = Dgram \<Longrightarrow> so_port s \<noteq> 0 \<Longrightarrow>
        bt_get (udp_port_socket_id_map st) (so_port s) = Some i"
  shows "table_inv st"
  using assms unfolding table_inv_def by blast

lemma table_inv_new [simp]: "table_inv socket_table_new"
  by (simp add: table_inv_def socket_table_new_def)

lemma tcp_ok_new [simp]: "tcp_ok tcp_socket_new"
  by (simp add: tcp_ok_def tcp_socket_inv_def tcp_socket_new_def)

lemma keeps_tcp_ok [keeps_intros]:
  "keeps tcp_ok (start_passive p)" "keeps tcp_ok (start_active a p)" "keeps tcp_ok (receive_syn_ack q)"
  "keeps tcp_ok receive_ack" "keeps tcp_ok receive_fin" "keeps tcp_ok (receive_data bs q)"
  "keeps tcp_ok reset_buf" "keeps tcp_ok (add_seq_num n)"
  by (rule keepsI, clarsimp simp: tcp_socket_defs tcp_ok_def tcp_socket_inv_def split: if_splits)+

text \<open>Code on a socket that leaves its port and its kind alone keeps the invariant.\<close>

definition quiet :: "(Socket, 'a) act \<Rightarrow> bool" where
  "quiet m \<longleftrightarrow> (\<forall>s. so_port (snd (m s)) = so_port s \<and> so_kind (snd (m s)) = so_kind s \<and>
     (socket_ok s \<longrightarrow> socket_ok (snd (m s))))"

lemma quiet_inner [intro]: "keeps tcp_ok m \<Longrightarrow> quiet (inner_tcp_mut m)" "quiet (inner_udp_mut u)"
  by (auto simp: quiet_def inner_tcp_mut_def inner_udp_mut_def socket_ok_def
      split: SocketInner.split prod.split dest: keepsD_eq)

lemma quiet_read [simp, intro]: "quiet (\<lambda>s. (f s, s))" "quiet (gets g)"
  by (simp_all add: quiet_def)

lemma quiet_bind [intro]:
  assumes "quiet m" and "\<And>x. quiet (f x)"
  shows "quiet (bind_act m f)"
  unfolding quiet_def
proof
  fix s
  obtain r t where run: "m s = (r, t)" by (cases "m s")
  have "so_port t = so_port s" "so_kind t = so_kind s" "socket_ok s \<longrightarrow> socket_ok t"
    using assms(1) run unfolding quiet_def by (metis snd_conv)+
  then show "so_port (snd (bind_act m f s)) = so_port s \<and> so_kind (snd (bind_act m f s)) = so_kind s \<and>
      (socket_ok s \<longrightarrow> socket_ok (snd (bind_act m f s)))"
    using assms(2) run unfolding quiet_def by (cases r) auto
qed

lemma quiet_if [intro]: "quiet m \<Longrightarrow> quiet n \<Longrightarrow> quiet (if b then m else n)"
  by simp

lemma quiet_basic [simp, intro]: "quiet (fail e)" "quiet (return_act x)" "quiet (lift_outcome r)"
  by (simp_all add: quiet_def)

lemma table_inv_update:
  assumes inv: "table_inv st" and get: "bt_get (table st) i = Some s"
    and t: "so_port t = so_port s" "so_kind t = so_kind s" "socket_ok t"
  shows "table_inv (st\<lparr>table := bt_insert i t (table st)\<rparr>)"
proof (rule table_invI)
  note D = table_invD [OF inv]
  let ?st = "st\<lparr>table := bt_insert i t (table st)\<rparr>"
  show "bt_inv (table ?st)" "bt_inv (tcp_port_socket_id_map ?st)" "bt_inv (udp_port_socket_id_map ?st)"
    using D(1-3) by simp_all
  show "j < next_socket_id ?st \<and> socket_ok s'" if "bt_get (table ?st) j = Some s'" for j s'
    using that D(4,5) get t by (auto split: if_splits)
  show "p \<noteq> 0 \<and> (\<exists>s. bt_get (table ?st) j = Some s \<and> so_kind s = Stream \<and> so_port s = p)"
    if "bt_get (tcp_port_socket_id_map ?st) p = Some j" for p j
    using D(6) [of p j] that get t by auto
  show "p \<noteq> 0 \<and> (\<exists>s. bt_get (table ?st) j = Some s \<and> so_kind s = Dgram \<and> so_port s = p)"
    if "bt_get (udp_port_socket_id_map ?st) p = Some j" for p j
    using D(7) [of p j] that get t by auto
  show "bt_get (udp_port_socket_id_map ?st) (so_port s') = Some j"
    if "bt_get (table ?st) j = Some s'" "so_kind s' = Dgram" "so_port s' \<noteq> 0" for j s'
    using D(8) that get t by (auto split: if_splits)
qed

lemma keeps_with_socket [keeps_intros]: "quiet m \<Longrightarrow> keeps table_inv (with_socket i m)"
proof (rule keepsI)
  fix st assume q: "quiet m" and inv: "table_inv st"
  show "table_inv (snd (with_socket i m st))"
  proof (cases "bt_get (table st) i")
    case (Some s)
    have "so_port (snd (m s)) = so_port s" "so_kind (snd (m s)) = so_kind s" "socket_ok (snd (m s))"
      using q table_invD(5) [OF inv Some] by (auto simp: quiet_def)
    then show ?thesis
      using table_inv_update [OF inv Some] Some by (auto simp: with_socket_def split: prod.split)
  qed (use inv in \<open>simp add: with_socket_def\<close>)
qed

lemma keeps_socket_by_id [keeps_intros]:
  "keeps table_inv (socket_by_id i)" "keeps table_inv (socket_id_by_port_and_type p k)"
  by (simp_all add: keepsI socket_by_id_def socket_id_by_port_and_type_def)

text \<open>A new socket has a fresh id and no port.\<close>

lemma table_inv_fresh: "table_inv st \<Longrightarrow> bt_get (table st) (next_socket_id st) = None"
  using table_invD(4) by (metis less_irrefl not_None_eq)

lemma table_inv_insert_socket:
  assumes inv: "table_inv st" and s: "socket_ok s" "so_kind s = Stream \<or> so_port s = 0"
  shows "table_inv (st\<lparr>next_socket_id := Suc (next_socket_id st), table := bt_insert (next_socket_id st) s (table st)\<rparr>)"
proof -
  note D = table_invD [OF inv] and fresh = table_inv_fresh [OF inv]
  let ?st = "st\<lparr>next_socket_id := Suc (next_socket_id st), table := bt_insert (next_socket_id st) s (table st)\<rparr>"
  have old: "bt_get (table ?st) j = Some s'" if "bt_get (table st) j = Some s'" for j s'
    using that fresh by auto
  show ?thesis
  proof (rule table_invI)
    show "bt_inv (table ?st)" "bt_inv (tcp_port_socket_id_map ?st)" "bt_inv (udp_port_socket_id_map ?st)"
      using D(1-3) by simp_all
    show "j < next_socket_id ?st \<and> socket_ok s'" if "bt_get (table ?st) j = Some s'" for j s'
      using that D(4,5) s by (auto split: if_splits simp: less_Suc_eq)
    show "p \<noteq> 0 \<and> (\<exists>s. bt_get (table ?st) j = Some s \<and> so_kind s = Stream \<and> so_port s = p)"
      if "bt_get (tcp_port_socket_id_map ?st) p = Some j" for p j
      using D(6) [of p j] that old by fastforce
    show "p \<noteq> 0 \<and> (\<exists>s. bt_get (table ?st) j = Some s \<and> so_kind s = Dgram \<and> so_port s = p)"
      if "bt_get (udp_port_socket_id_map ?st) p = Some j" for p j
      using D(7) [of p j] that old by fastforce
    show "bt_get (udp_port_socket_id_map ?st) (so_port s') = Some j"
      if "bt_get (table ?st) j = Some s'" "so_kind s' = Dgram" "so_port s' \<noteq> 0" for j s'
      using D(8) that s by (auto split: if_splits)
  qed
qed

lemma insert_new_socket_run:
  assumes "k = Stream \<and> proto = PTcp \<or> k = Dgram \<and> proto = PUdp"
  shows "insert_new_socket k proto st =
    (Ok (next_socket_id st), st\<lparr>next_socket_id := Suc (next_socket_id st),
       table := bt_insert (next_socket_id st)
         \<lparr>so_port = 0, so_addr = None,
          so_inner = (case k of Stream \<Rightarrow> InnerTcp tcp_socket_new | Dgram \<Rightarrow> InnerUdp udp_socket_new),
          so_kind = k\<rparr> (table st)\<rparr>)"
  using assms by (auto simp: insert_new_socket_def Let_def)

lemma keeps_insert_new_socket [keeps_intros]: "keeps table_inv (insert_new_socket k proto)"
proof (rule keepsI)
  fix st assume inv: "table_inv st"
  show "table_inv (snd (insert_new_socket k proto st))"
  proof (cases "k = Stream \<and> proto = PTcp \<or> k = Dgram \<and> proto = PUdp")
    case True
    then show ?thesis
      using table_inv_insert_socket [OF inv]
      by (simp add: insert_new_socket_run socket_ok_def split: SocketType.split)
  next
    case False
    then show ?thesis using inv by (cases k) (auto simp: insert_new_socket_def)
  qed
qed

text \<open>Removing a socket that has a port removes whatever entry its protocol's map has for that port.\<close>

lemma keeps_remove_socket [keeps_intros]: "keeps table_inv (remove_socket i)"
proof (rule keepsI)
  fix st assume inv: "table_inv st"
  note D = table_invD [OF inv]
  show "table_inv (snd (remove_socket i st))"
  proof (cases "bt_get (table st) i")
    case None
    then show ?thesis using inv by (simp add: remove_socket_def)
  next
    case (Some s)
    define tm where "tm = (if so_port s \<noteq> 0 \<and> so_kind s = Stream
      then bt_remove (so_port s) (tcp_port_socket_id_map st) else tcp_port_socket_id_map st)"
    define um where "um = (if so_port s \<noteq> 0 \<and> so_kind s = Dgram
      then bt_remove (so_port s) (udp_port_socket_id_map st) else udp_port_socket_id_map st)"
    let ?st = "st\<lparr>table := bt_remove i (table st), tcp_port_socket_id_map := tm, udp_port_socket_id_map := um\<rparr>"
    have run: "snd (remove_socket i st) = ?st"
      by (cases "so_kind s") (simp_all add: remove_socket_def Some Let_def tm_def um_def)
    have tget: "bt_get tm p = (if p = so_port s \<and> so_kind s = Stream then None else bt_get (tcp_port_socket_id_map st) p)"
      and uget: "bt_get um p = (if p = so_port s \<and> so_kind s = Dgram then None else bt_get (udp_port_socket_id_map st) p)" for p
      using D(2,3) D(6) [of 0] D(7) [of 0] by (auto simp: tm_def um_def split: option.split) (metis option.exhaust)+
    have "table_inv ?st"
    proof (rule table_invI)
      show "bt_inv (table ?st)" "bt_inv (tcp_port_socket_id_map ?st)" "bt_inv (udp_port_socket_id_map ?st)"
        using D(1-3) by (simp_all add: tm_def um_def)
      show "j < next_socket_id ?st \<and> socket_ok s'" if "bt_get (table ?st) j = Some s'" for j s'
        using that D(1,4,5) by (auto split: if_splits)
      show "p \<noteq> 0 \<and> (\<exists>s. bt_get (table ?st) j = Some s \<and> so_kind s = Stream \<and> so_port s = p)"
        if "bt_get (tcp_port_socket_id_map ?st) p = Some j" for p j
        using that D(1) D(6) [of p j] Some by (auto simp: tget split: if_splits)
      show "p \<noteq> 0 \<and> (\<exists>s. bt_get (table ?st) j = Some s \<and> so_kind s = Dgram \<and> so_port s = p)"
        if "bt_get (udp_port_socket_id_map ?st) p = Some j" for p j
        using that D(1) D(7) [of p j] Some by (auto simp: uget split: if_splits)
      show "bt_get (udp_port_socket_id_map ?st) (so_port s') = Some j"
        if "bt_get (table ?st) j = Some s'" "so_kind s' = Dgram" "so_port s' \<noteq> 0" for j s'
        using that D(1) D(8) [of j s'] D(8) [OF Some] by (auto simp: uget split: if_splits)
    qed
    then show ?thesis by (simp add: run)
  qed
qed

lemma u16_le_succ:
  assumes "(p :: u16) \<noteq> 65535"
  shows "p \<le> r \<longleftrightarrow> r = p \<or> p + 1 \<le> r"
proof -
  have "r = p \<longleftrightarrow> unat r = unat p" by (metis unsigned_word_eqI)
  moreover have "p + 1 \<le> r \<longleftrightarrow> unat p + 1 \<le> unat r"
    unfolding word_le_nat_alt unat_inc_u16 [OF assms] ..
  moreover have "p \<le> r \<longleftrightarrow> unat p \<le> unat r" by (rule word_le_nat_alt)
  ultimately show ?thesis by linarith
qed

lemma find_port_Some: "find_port free p = Some q \<Longrightarrow> free q \<and> p \<le> q \<and> (\<forall>r. p \<le> r \<and> r < q \<longrightarrow> \<not> free r)"
proof (induction free p rule: find_port.induct)
  case (1 free p)
  show ?case
  proof (cases "free p")
    case True
    then show ?thesis using "1.prems" by (auto simp: find_port.simps [of free p])
  next
    case False
    then have p: "p \<noteq> 65535" and rec: "find_port free (p + 1) = Some q"
      using "1.prems" False by (subst (asm) find_port.simps, simp split: if_splits)+
    note IH = "1.IH" [OF False p rec]
    have "p \<le> q" using IH u16_le_succ [OF p, of q] by simp
    moreover have "\<not> free r" if "p \<le> r" "r < q" for r
      using that IH u16_le_succ [OF p, of r] False by auto
    ultimately show ?thesis using IH by simp
  qed
qed

lemma find_port_None: "find_port free p = None \<Longrightarrow> p \<le> r \<Longrightarrow> \<not> free r"
proof (induction free p rule: find_port.induct)
  case (1 free p)
  then have nf: "\<not> free p" by (auto simp: find_port.simps [of free p])
  show ?case
  proof (cases "p = 65535")
    case True
    have "unat r = unat p" using "1.prems"(2) unat_bound [of r] True by (simp add: word_le_nat_alt)
    then have "r = p" by (metis unsigned_word_eqI)
    then show ?thesis using nf by simp
  next
    case False
    have "r = p \<or> p + 1 \<le> r" using "1.prems"(2) u16_le_succ [OF False] by simp
    moreover have "find_port free (p + 1) = None"
      using "1.prems"(1) nf False by (subst (asm) find_port.simps, simp)
    ultimately show ?thesis using "1.IH" [OF nf False] nf by blast
  qed
qed

lemma choose_port_Ok:
  assumes "choose_port port st = Ok p"
  shows "p \<noteq> 0" "port_free st p"
proof -
  have "p \<noteq> 0 \<and> port_free st p"
  proof (cases "(case port of None \<Rightarrow> 0 | Some p \<Rightarrow> p) = 0")
    case True
    then have "find_port (port_free st) 49152 = Some p"
      using assms by (auto simp: choose_port_def ok_or_def split: option.splits)
    from find_port_Some [OF this] show ?thesis by auto
  next
    case False
    then show ?thesis
      using assms by (auto simp: choose_port_def port_free_def Let_def split: option.splits if_splits)
  qed
  then show "p \<noteq> 0" "port_free st p" by auto
qed

lemma bind_port_run:
  assumes "choose_port port st = Ok p" and "bt_get (table st) i = Some s"
  shows "bind_port i port st = (Ok (),
    (case so_kind s of
       Stream \<Rightarrow> st\<lparr>table := bt_insert i (s\<lparr>so_port := p\<rparr>) (table st),
                   tcp_port_socket_id_map := bt_insert p i (tcp_port_socket_id_map st)\<rparr>
     | Dgram \<Rightarrow> st\<lparr>table := bt_insert i (s\<lparr>so_port := p\<rparr>) (table st),
                  udp_port_socket_id_map := bt_insert p i (udp_port_socket_id_map st)\<rparr>))"
  using assms by (cases "so_kind s") (simp_all add: bind_port_def bind_act_def with_socket_def)

lemma bind_port_fails:
  "(\<forall>p. choose_port port st \<noteq> Ok p) \<or> bt_get (table st) i = None \<Longrightarrow> snd (bind_port i port st) = st"
  by (cases "choose_port port st") (auto simp: bind_port_def bind_act_def with_socket_def)

lemma table_inv_bind:
  assumes inv: "table_inv st" and p: "choose_port port st = Ok p"
    and s: "bt_get (table st) i = Some s" "so_port s = 0"
  shows "table_inv (snd (bind_port i port st))"
proof -
  note D = table_invD [OF inv] and run = bind_port_run [OF p s(1)] and p = choose_port_Ok [OF p]
  define st' where "st' = snd (bind_port i port st)"
  define t where "t = s\<lparr>so_port := p\<rparr>"
  have t: "socket_ok t" "so_port t = p" "so_kind t = so_kind s" using D(5) [OF s(1)]
    by (simp_all add: t_def socket_ok_def split: SocketInner.splits)
  have maps: "table st' = bt_insert i t (table st)" "next_socket_id st' = next_socket_id st"
    "tcp_port_socket_id_map st' = (if so_kind s = Stream then bt_insert p i (tcp_port_socket_id_map st) else tcp_port_socket_id_map st)"
    "udp_port_socket_id_map st' = (if so_kind s = Dgram then bt_insert p i (udp_port_socket_id_map st) else udp_port_socket_id_map st)"
    by (cases "so_kind s"; simp add: st'_def run t_def)+
  have unmapped: "bt_get (tcp_port_socket_id_map st) q \<noteq> Some i" "bt_get (udp_port_socket_id_map st) q \<noteq> Some i" for q
    using D(6) [of q i] D(7) [of q i] s by auto
  show ?thesis
    unfolding st'_def [symmetric]
  proof (rule table_invI)
    show "bt_inv (table st')" "bt_inv (tcp_port_socket_id_map st')" "bt_inv (udp_port_socket_id_map st')"
      using D(1-3) by (simp_all add: maps)
    show "j < next_socket_id st' \<and> socket_ok s'" if "bt_get (table st') j = Some s'" for j s'
      using that D(4,5) s t by (auto simp: maps split: if_splits)
    show "q \<noteq> 0 \<and> (\<exists>s. bt_get (table st') j = Some s \<and> so_kind s = Stream \<and> so_port s = q)"
      if "bt_get (tcp_port_socket_id_map st') q = Some j" for q j
      using that D(6) [of q j] p t unmapped [of q] by (auto simp: maps split: if_splits)
    show "q \<noteq> 0 \<and> (\<exists>s. bt_get (table st') j = Some s \<and> so_kind s = Dgram \<and> so_port s = q)"
      if "bt_get (udp_port_socket_id_map st') q = Some j" for q j
      using that D(7) [of q j] p t unmapped [of q] by (auto simp: maps split: if_splits)
    show "bt_get (udp_port_socket_id_map st') (so_port s') = Some j"
      if "bt_get (table st') j = Some s'" "so_kind s' = Dgram" "so_port s' \<noteq> 0" for j s'
    proof (cases "j = i")
      case True
      then show ?thesis using that t by (simp add: maps split: if_splits)
    next
      case False
      then have "bt_get (udp_port_socket_id_map st) (so_port s') = Some j" using that D(8) by (simp add: maps)
      moreover from this have "so_port s' \<noteq> p" using p(2) by (auto simp: port_free_def bt_contains_key_def)
      ultimately show ?thesis by (simp add: maps)
    qed
  qed
qed

text \<open>Binding keeps the invariant when the socket is not bound yet, which every caller ensures.\<close>

lemma keeps_bind_port:
  "table_inv st \<Longrightarrow> (\<And>s. bt_get (table st) i = Some s \<Longrightarrow> so_port s = 0) \<Longrightarrow> table_inv (snd (bind_port i port st))"
  using table_inv_bind bind_port_fails by (metis option.exhaust)

text \<open>A TCP socket without a port may be given one that is not registered, as the accepted connections
  of a listening socket are.\<close>

lemma table_inv_set_port:
  assumes inv: "table_inv st" and get: "bt_get (table st) i = Some s" "so_port s = 0" "so_kind s = Stream"
    and t: "so_kind t = Stream" "socket_ok t"
  shows "table_inv (st\<lparr>table := bt_insert i t (table st)\<rparr>)"
proof (rule table_invI)
  note D = table_invD [OF inv]
  let ?st = "st\<lparr>table := bt_insert i t (table st)\<rparr>"
  show "bt_inv (table ?st)" "bt_inv (tcp_port_socket_id_map ?st)" "bt_inv (udp_port_socket_id_map ?st)"
    using D(1-3) by simp_all
  show "j < next_socket_id ?st \<and> socket_ok s'" if "bt_get (table ?st) j = Some s'" for j s'
    using that D(4,5) get t by (auto split: if_splits)
  show "p \<noteq> 0 \<and> (\<exists>s. bt_get (table ?st) j = Some s \<and> so_kind s = Stream \<and> so_port s = p)"
    if "bt_get (tcp_port_socket_id_map ?st) p = Some j" for p j
    using D(6) [of p j] that get t by auto
  show "p \<noteq> 0 \<and> (\<exists>s. bt_get (table ?st) j = Some s \<and> so_kind s = Dgram \<and> so_port s = p)"
    if "bt_get (udp_port_socket_id_map ?st) p = Some j" for p j
    using D(7) [of p j] that get t by auto
  show "bt_get (udp_port_socket_id_map ?st) (so_port s') = Some j"
    if "bt_get (table ?st) j = Some s'" "so_kind s' = Dgram" "so_port s' \<noteq> 0" for j s'
    using D(8) that get t by (auto split: if_splits)
qed

subsection \<open>Properties\<close>

text \<open>Binding an unbound socket to an automatic port succeeds exactly when an ephemeral
  port is free for both protocols; it takes the least such port, after which the port leads to the
  socket, every other port leads where it did, and the table is consistent. Otherwise the error is
  \<open>BufferFull\<close> and nothing changes.\<close>

theorem bind_port_automatic:
  assumes "table_inv st" and "bt_get (table st) i = Some s" and "so_port s = 0"
  shows "if \<exists>p \<ge> 49152. port_free st p
    then \<exists>p st'. bind_port i None st = (Ok (), st') \<and>
      49152 \<le> p \<and> port_free st p \<and> (\<forall>q. 49152 \<le> q \<and> q < p \<longrightarrow> \<not> port_free st q) \<and>
      socket_id_by_port_and_type p (so_kind s) st' = (Ok i, st') \<and>
      (\<forall>q k. (q, k) \<noteq> (p, so_kind s) \<longrightarrow>
         fst (socket_id_by_port_and_type q k st') = fst (socket_id_by_port_and_type q k st)) \<and>
      table_inv st'
    else bind_port i None st = (err BufferFull, st)"
proof (cases "find_port (port_free st) 49152")
  case None
  then have "\<not> (\<exists>p \<ge> 49152. port_free st p)" using find_port_None by blast
  then show ?thesis using None by (simp add: bind_port_def bind_act_def choose_port_def)
next
  case (Some p)
  then have p: "choose_port None st = Ok p" by (simp add: choose_port_def)
  note run = bind_port_run [OF p assms(2)] and inv = table_inv_bind [OF assms(1) p assms(2,3)]
  have "socket_id_by_port_and_type p (so_kind s) (snd (bind_port i None st)) = (Ok i, snd (bind_port i None st))"
    by (cases "so_kind s") (simp_all add: run socket_id_by_port_and_type_def)
  moreover have "fst (socket_id_by_port_and_type q k (snd (bind_port i None st))) = fst (socket_id_by_port_and_type q k st)"
    if "(q, k) \<noteq> (p, so_kind s)" for q k
    using that by (cases "so_kind s"; cases k) (simp_all add: run socket_id_by_port_and_type_def)
  ultimately show ?thesis using find_port_Some [OF Some] inv run by auto
qed

theorem bind_port_automatic_witness:
  "\<exists>p st'. bind_port 4096 None (snd (insert_new_socket Stream PTcp socket_table_new)) = (Ok (), st') \<and>
     49152 \<le> p \<and> socket_id_by_port_and_type p Stream st' = (Ok 4096, st')"
proof -
  let ?st = "snd (insert_new_socket Stream PTcp socket_table_new)"
  have inv: "table_inv ?st" using keepsD [OF keeps_insert_new_socket] by simp
  have get: "bt_get (table ?st) 4096 = Some \<lparr>so_port = 0, so_addr = None, so_inner = InnerTcp tcp_socket_new, so_kind = Stream\<rparr>"
    by (simp add: insert_new_socket_def socket_table_new_def Let_def)
  have "port_free ?st 49152"
    by (simp add: insert_new_socket_def socket_table_new_def Let_def port_free_def bt_contains_key_def)
  then have "\<exists>p \<ge> 49152. port_free ?st p" by blast
  with bind_port_automatic [OF inv get] show ?thesis by auto
qed

lemma find_connection_least:
  assumes "table_inv st"
  shows "case find_tcp_socket_by_port_and_addr lp ra rp st of
      Some i \<Rightarrow> (\<exists>s. bt_get (table st) i = Some s \<and> is_connection lp ra rp s) \<and>
        (\<forall>j s. bt_get (table st) j = Some s \<and> is_connection lp ra rp s \<longrightarrow> i \<le> j)
    | None \<Rightarrow> \<forall>j s. bt_get (table st) j = Some s \<longrightarrow> \<not> is_connection lp ra rp s"
proof (cases "find (\<lambda>(_, s). is_connection lp ra rp s) (table st)")
  case None
  then show ?thesis
    using bt.find_none [OF table_invD(1) [OF assms], of "\<lambda>_. is_connection lp ra rp"]
    by (auto simp: find_tcp_socket_by_port_and_addr_def)
next
  case (Some e)
  then show ?thesis
    using bt.find_least [OF table_invD(1) [OF assms], of "\<lambda>_. is_connection lp ra rp" "fst e" "snd e"]
    by (auto simp: find_tcp_socket_by_port_and_addr_def)
qed

text \<open>The search for the socket of a connection finds a socket with exactly that local port, remote
  address and remote port, the one with the least id, and finds one whenever there is one.\<close>

theorem find_connection_correct:
  assumes "table_inv st"
  shows "case find_tcp_socket_by_port_and_addr lp ra rp st of
      Some i \<Rightarrow> (\<exists>s. bt_get (table st) i = Some s \<and> is_connection lp ra rp s) \<and>
        (\<forall>j s. bt_get (table st) j = Some s \<and> is_connection lp ra rp s \<longrightarrow> i \<le> j)
    | None \<Rightarrow> \<forall>j s. bt_get (table st) j = Some s \<longrightarrow> \<not> is_connection lp ra rp s"
  using assms by (rule find_connection_least)

theorem find_connection_correct_witness:
  "case find_tcp_socket_by_port_and_addr 80 (Ipv4Addr 10 0 2 2) 5000 socket_table_new of
     Some i \<Rightarrow> False | None \<Rightarrow> True"
  using find_connection_correct [OF table_inv_new, of 80 "Ipv4Addr 10 0 2 2" 5000]
  by (auto simp: socket_table_new_def split: option.splits)

end
