(* ===== verification/Network.thy ===== *)
theory Network
  imports Socket_Table
begin

text \<open>
  The network manager (kernel/src/net/mod.rs): ARP, the receive path from an Ethernet payload to the
  sockets and the reply, and the send path from a socket to the transmit queue of the driver. The state
  is the struct \<open>NetworkManager\<close> extended by what its methods use of the rest of the kernel:
  the transmit queue of the RTL8139 driver and whether its lock is taken (device/rtl8139.rs,
  \<open>push_eth_frame_to_tx_queue\<close>), the uptime in milliseconds (\<open>global_uptime\<close>), and whether the lock
  \<open>NETWORK_MAN\<close> of the public functions is taken.

  Buffers that the code fills are returned: \<open>recvfrom_udp_v4\<close> and \<open>recv_tcp_packet\<close> take the size of the
  caller's buffer and return the bytes copied to its front.
\<close>

record NetworkManager =
  my_ipv4_addr :: Ipv4Addr
  nm_mac_addr :: "EthernetAddress option"
  arp_table :: "(Ipv4Addr, EthernetAddress option \<times> nat) btree"
  socket_table :: SocketTable

record net = NetworkManager +
  tx_queue :: "EthernetFrame list"
  rtl8139_locked :: bool
  uptime :: nat
  network_locked :: bool

definition GATEWAY_ADDR :: Ipv4Addr where "GATEWAY_ADDR = Ipv4Addr 10 0 2 2"
definition LOCAL_ADDR :: Ipv4Addr where "LOCAL_ADDR = Ipv4Addr 10 0 2 15"
definition SUBNET_MASK :: Ipv4Addr where "SUBNET_MASK = Ipv4Addr 255 255 255 0"

definition target_ip :: "Ipv4Addr \<Rightarrow> Ipv4Addr \<Rightarrow> Ipv4Addr" where
  "target_ip my_ip dst_ip =
     (if list_all (\<lambda>i. (octets my_ip ! i AND octets SUBNET_MASK ! i) = (octets dst_ip ! i AND octets SUBNET_MASK ! i)) [0..<4]
      then dst_ip else GATEWAY_ADDR)"

definition network_new :: "Ipv4Addr \<Rightarrow> NetworkManager" where
  "network_new ip = \<lparr>my_ipv4_addr = ip, nm_mac_addr = None, arp_table = [], socket_table = socket_table_new\<rparr>"

subsection \<open>Access to the parts of the state\<close>

definition with_table :: "(SocketTable, 'a) act \<Rightarrow> (net, 'a) act" where
  "with_table m = (\<lambda>s. case m (socket_table s) of (r, t) \<Rightarrow> (r, s\<lparr>socket_table := t\<rparr>))"

abbreviation on_tcp :: "SocketId \<Rightarrow> (TcpSocket, 'a) act \<Rightarrow> (net, 'a) act" where
  "on_tcp i m \<equiv> with_table (with_socket i (inner_tcp_mut m))"

definition set_my_mac_addr :: "EthernetAddress \<Rightarrow> (net, unit) act" where
  "set_my_mac_addr mac = modify (nm_mac_addr_update (\<lambda>_. Some mac))"

definition my_mac_addr :: "(net, EthernetAddress) act" where
  "my_mac_addr = (\<lambda>s. (ok_or (nm_mac_addr s) (with_context NotInitialized ''MAC address''), s))"

definition push_eth_frame_to_tx_queue :: "EthernetFrame \<Rightarrow> (net, unit) act" where
  "push_eth_frame_to_tx_queue f = (\<lambda>s.
     if rtl8139_locked s then (err Locked, s) else (Ok (), s\<lparr>tx_queue := tx_queue s @ [f]\<rparr>))"

subsection \<open>Sending\<close>

definition send_eth_payload :: "EthernetPayload \<Rightarrow> EthernetAddress \<Rightarrow> EthernetType \<Rightarrow> (net, unit) act" where
  "send_eth_payload payload dst_mac ty =
     bind_act my_mac_addr (\<lambda>src_mac.
     push_eth_frame_to_tx_queue (eth_new_with dst_mac src_mac ty (eth_payload_vec payload)))"

definition send_arp_packet ::
  "ArpOperation \<Rightarrow> EthernetAddress \<Rightarrow> Ipv4Addr \<Rightarrow> EthernetAddress \<Rightarrow> Ipv4Addr \<Rightarrow> (net, unit) act" where
  "send_arp_packet op_ty se sip te tip =
     send_eth_payload (EpArp (arp_new_with op_ty se sip te tip)) te EtArp"

text \<open>An entry without an address is a pending request, asked again after a second.\<close>

definition resolve_mac_addr :: "Ipv4Addr \<Rightarrow> (net, EthernetAddress option) act" where
  "resolve_mac_addr ip = (\<lambda>s.
     let now = uptime s;
         request = (\<lambda>s. bind_act my_mac_addr (\<lambda>mac.
                        bind_act (send_arp_packet ArpRequest mac (my_ipv4_addr s) broadcast ip) (\<lambda>_.
                        return_act None)) s)
     in case bt_get (arp_table s) ip of
          Some (Some mac, _) \<Rightarrow> (Ok (Some mac), s)
        | Some (None, last_req) \<Rightarrow>
            if now < last_req + 1000 then (Ok None, s)
            else request (s\<lparr>arp_table := bt_insert ip (None, now) (arp_table s)\<rparr>)
        | None \<Rightarrow> request (s\<lparr>arp_table := bt_insert ip (None, now) (arp_table s)\<rparr>))"

text \<open>The tail that the senders share: look up the next hop, then queue the frame.\<close>

definition send_ipv4 :: "Ipv4Addr \<Rightarrow> Ipv4Packet \<Rightarrow> (net, unit) act" where
  "send_ipv4 dst packet =
     bind_act (gets my_ipv4_addr) (\<lambda>me.
     bind_act (resolve_mac_addr (target_ip me dst)) (\<lambda>mac.
     bind_act (lift_outcome (ok_or mac (with_context NotFound ''MAC address''))) (\<lambda>dst_mac.
     send_eth_payload (EpIpv4 packet) dst_mac EtIpv4)))"

definition make_ipv4 :: "Protocol \<Rightarrow> Ipv4Addr \<Rightarrow> Ipv4Addr \<Rightarrow> Ipv4Payload \<Rightarrow> Ipv4Packet outcome" where
  "make_ipv4 proto src dst payload = map_ok ip_calc_checksum (ip_new_with 0x45 0 0 0 proto src dst payload)"

definition send_udp_packet :: "u16 \<Rightarrow> u16 \<Rightarrow> Ipv4Addr \<Rightarrow> u8 list \<Rightarrow> (net, unit) act" where
  "send_udp_packet src_port dst_port dst bs =
     bind_act (gets my_ipv4_addr) (\<lambda>me.
     bind_act (lift_outcome (and_then (udp_new_with src_port dst_port bs) (udp_calc_checksum_with_ipv4 me dst))) (\<lambda>udp.
     bind_act (lift_outcome (make_ipv4 PUdp me dst (IpUdp udp))) (\<lambda>packet.
     send_ipv4 dst packet)))"

text \<open>A TCP packet of a socket, with the checksum over the pseudo header.\<close>

definition send_tcp :: "Ipv4Addr \<Rightarrow> TcpPacket outcome \<Rightarrow> (net, unit) act" where
  "send_tcp dst new_packet =
     bind_act (gets my_ipv4_addr) (\<lambda>me.
     bind_act (lift_outcome (and_then new_packet (tcp_calc_checksum_with_ipv4 me dst))) (\<lambda>tcp.
     bind_act (lift_outcome (make_ipv4 PTcp me dst (IpTcp tcp))) (\<lambda>packet.
     send_ipv4 dst packet)))"

subsection \<open>Socket operations\<close>

definition create_new_socket :: "SocketType \<Rightarrow> (net, SocketId) act" where
  "create_new_socket k = with_table (insert_new_socket k (case k of Stream \<Rightarrow> PTcp | Dgram \<Rightarrow> PUdp))"

definition bind_socket_v4 :: "SocketId \<Rightarrow> Ipv4Addr option \<Rightarrow> u16 option \<Rightarrow> (net, unit) act" where
  "bind_socket_v4 i bound_addr port =
     bind_act (with_table (socket_by_id i)) (\<lambda>s.
     if so_port s \<noteq> 0 then fail (from_error AlreadyExists)
     else bind_act (with_table (bind_port i port)) (\<lambda>_.
          with_table (with_socket i (modify (so_addr_update (\<lambda>_. bound_addr))))))"

definition sendto_udp_v4 :: "SocketId \<Rightarrow> Ipv4Addr \<Rightarrow> u16 \<Rightarrow> u8 list \<Rightarrow> (net, unit) act" where
  "sendto_udp_v4 i dst dst_port bs =
     bind_act (with_table (socket_by_id i)) (\<lambda>s. send_udp_packet (so_port s) dst_port dst bs)"

definition recvfrom_udp_v4 :: "SocketId \<Rightarrow> nat \<Rightarrow> (net, u8 list) act" where
  "recvfrom_udp_v4 i n = with_table (with_socket i (inner_udp_mut (udp_read_buf n)))"

definition listen_tcp_v4 :: "SocketId \<Rightarrow> (net, unit) act" where
  "listen_tcp_v4 i =
     with_table (with_socket i (bind_act (gets so_port) (\<lambda>port.
       if port = 0 then fail (with_context InvalidData ''socket not bound'')
       else inner_tcp_mut (start_passive port))))"

definition accept_tcp_v4 :: "SocketId \<Rightarrow> (net, SocketId) act" where
  "accept_tcp_v4 i =
     bind_act (on_tcp i (gets sock_state)) (\<lambda>state.
     if state \<noteq> Listen then fail (with_context InvalidData ''socket state'')
     else bind_act (with_table (with_socket i (gets so_port))) (\<lambda>server_port.
          with_table (\<lambda>st. (ok_or (find_tcp_established_socket server_port st)
                             (with_context NotFound ''incoming connection''), st))))"

definition connect_tcp_v4 :: "SocketId \<Rightarrow> Ipv4Addr \<Rightarrow> u16 \<Rightarrow> (net, unit) act" where
  "connect_tcp_v4 i dst dst_port =
     bind_act (with_table (socket_by_id i)) (\<lambda>s.
     bind_act (if so_port s = 0 then with_table (bind_port i None) else return_act ()) (\<lambda>_.
     on_tcp i (start_active dst dst_port)))"

text \<open>The peer of a socket and the numbers of its next packet.\<close>

definition peer_of :: "TcpSocket \<Rightarrow> (u16 \<times> Ipv4Addr \<times> u32 \<times> u32) outcome" where
  "peer_of t =
     and_then (ok_or (sock_dst_port t) (with_context NotFound ''destination port'')) (\<lambda>p.
     and_then (ok_or (sock_dst_ipv4_addr t) (with_context NotFound ''destination address'')) (\<lambda>a.
     Ok (p, a, sock_seq_num t, sock_next_recv_seq t)))"

definition send_tcp_syn :: "SocketId \<Rightarrow> (net, unit) act" where
  "send_tcp_syn i =
     bind_act (with_table (with_socket i (gets so_port))) (\<lambda>src_port.
     bind_act (on_tcp i (\<lambda>t.
       (if sock_state t \<noteq> SynSent then err_ctx InvalidData ''socket state'' else peer_of t, t)))
     (\<lambda>(dst_port, dst, seq, _).
     send_tcp dst (tcp_new_with src_port dst_port seq 0 FLAGS_SYN 0xffff 0 [] [])))"

text \<open>\<open>send_tcp_fin\<close> does nothing for a socket that is not an established TCP socket.\<close>

definition send_tcp_fin :: "SocketId \<Rightarrow> (net, unit) act" where
  "send_tcp_fin i =
     bind_act (with_table (with_socket i (gets so_port))) (\<lambda>src_port.
     catch (on_tcp i (gets (\<lambda>t. t))) (\<lambda>r. case r of
       Ok t \<Rightarrow>
         if sock_state t \<noteq> Established then return_act ()
         else bind_act (lift_outcome (peer_of t)) (\<lambda>(dst_port, dst, seq, ack).
              bind_act (send_tcp dst (tcp_new_with src_port dst_port seq ack (FLAGS_ACK OR FLAGS_FIN) 0xffff 0 [] [])) (\<lambda>_.
              on_tcp i (add_seq_num 1)))
     | _ \<Rightarrow> return_act ()))"

definition send_tcp_packet :: "SocketId \<Rightarrow> u8 list \<Rightarrow> (net, unit) act" where
  "send_tcp_packet i bs =
     bind_act (with_table (with_socket i (gets so_port))) (\<lambda>src_port.
     bind_act (on_tcp i (\<lambda>t.
       (if sock_state t \<noteq> Established then err_ctx InvalidData ''socket state'' else peer_of t, t)))
     (\<lambda>(dst_port, dst, seq, ack).
     bind_act (send_tcp dst (tcp_new_with src_port dst_port seq ack (FLAGS_ACK OR FLAGS_PSH) 0xffff 0 [] bs)) (\<lambda>_.
     if bs \<noteq> [] then on_tcp i (add_seq_num (of_nat (length bs))) else return_act ())))"

definition recv_tcp_packet :: "SocketId \<Rightarrow> nat \<Rightarrow> (net, u8 list) act" where
  "recv_tcp_packet i n =
     on_tcp i (bind_act (gets sock_state) (\<lambda>state.
       if state \<notin> {Established, FinWait1, FinWait2, CloseWait, TimeWait, LastAck, Closing}
       then fail (with_context InvalidData ''socket state'')
       else bind_act reset_buf (\<lambda>bs. if bs = [] then return_act [] else return_act (take (min n (length bs)) bs))))"

definition is_tcp_established :: "SocketId \<Rightarrow> (net, bool) act" where
  "is_tcp_established i = on_tcp i (gets (\<lambda>t. sock_state t = Established))"

definition close_socket :: "SocketId \<Rightarrow> (net, unit) act" where
  "close_socket i = catch (send_tcp_fin i) (\<lambda>_. with_table (remove_socket i))"

subsection \<open>Receiving\<close>

text \<open>The socket a packet is for, created and bound when the port is not known. The code returns a
  reference to the inner socket; the model returns the id, once the inner socket has the right type.\<close>

definition socket_of_port :: "SocketType \<Rightarrow> Protocol \<Rightarrow> u16 \<Rightarrow> (net, SocketId) act" where
  "socket_of_port k proto port =
     catch (with_table (socket_id_by_port_and_type port k)) (\<lambda>r. case r of
       Ok i \<Rightarrow> return_act i
     | _ \<Rightarrow> bind_act (with_table (insert_new_socket k proto)) (\<lambda>i.
            bind_act (with_table (bind_port i (Some port))) (\<lambda>_. return_act i)))"

definition udp_socket_mut_by_port :: "u16 \<Rightarrow> (net, SocketId) act" where
  "udp_socket_mut_by_port port =
     bind_act (socket_of_port Dgram PUdp port) (\<lambda>i.
     bind_act (with_table (with_socket i (inner_udp_mut (return_act ())))) (\<lambda>_. return_act i))"

definition tcp_socket_mut_by_port :: "u16 \<Rightarrow> Ipv4Addr \<Rightarrow> u16 \<Rightarrow> (net, SocketId) act" where
  "tcp_socket_mut_by_port local_port remote_addr remote_port =
     bind_act (gets (\<lambda>s. find_tcp_socket_by_port_and_addr local_port remote_addr remote_port (socket_table s))) (\<lambda>found.
     bind_act (case found of Some i \<Rightarrow> return_act i | None \<Rightarrow> socket_of_port Stream PTcp local_port) (\<lambda>i.
     bind_act (on_tcp i (return_act ())) (\<lambda>_. return_act i)))"

definition receive_icmp_packet :: "IcmpPacket \<Rightarrow> (net, IcmpPacket option) act" where
  "receive_icmp_packet packet =
     (case icmp_ty packet of
        EchoRequest \<Rightarrow> return_act (Some (icmp_calc_checksum (packet\<lparr>icmp_ty := EchoReply\<rparr>)))
      | _ \<Rightarrow> return_act None)"

text \<open>The branches of \<open>receive_tcp_packet\<close>, by the state of the socket.\<close>

definition mss_options :: "u8 list" where
  "mss_options = [0x02, 0x04, ucast (drop_bit 8 (1460 :: u16)), ucast ((1460 :: u16) AND 0xff)]"

definition reply_tcp :: "TcpPacket outcome \<Rightarrow> (net, TcpPacket option) act" where
  "reply_tcp p = lift_outcome (map_ok Some p)"

definition receive_tcp_listen :: "TcpPacket \<Rightarrow> Ipv4Addr \<Rightarrow> (net, TcpPacket option) act" where
  "receive_tcp_listen packet remote_addr =
     (if \<not> flags_syn packet then return_act None
      else bind_act (with_table (insert_new_socket Stream PTcp)) (\<lambda>i.
           bind_act (with_table (with_socket i (bind_act (set_port (tcp_dst_port packet)) (\<lambda>_. inner_tcp_mut (
             bind_act (start_passive (tcp_dst_port packet)) (\<lambda>_.
             bind_act (set_dst_ipv4_addr remote_addr) (\<lambda>_.
             bind_act (set_dst_port (tcp_src_port packet)) (\<lambda>_.
             bind_act (receive_syn (tcp_seq_num packet)) (\<lambda>next_seq_num.
             bind_act (gets sock_next_recv_seq) (\<lambda>ack_num.
             return_act (next_seq_num, ack_num)))))))))))
           (\<lambda>(next_seq_num, ack_num).
           reply_tcp (tcp_new_with (tcp_dst_port packet) (tcp_src_port packet) next_seq_num ack_num
             (FLAGS_SYN OR FLAGS_ACK) 0xffff 0 mss_options []))))"

definition receive_tcp_syn_sent :: "SocketId \<Rightarrow> TcpPacket \<Rightarrow> (net, TcpPacket option) act" where
  "receive_tcp_syn_sent i packet =
     (if \<not> flags_syn packet \<or> \<not> flags_ack packet then return_act None
      else bind_act (on_tcp i (receive_syn_ack (tcp_seq_num packet))) (\<lambda>_.
           bind_act (on_tcp i (gets (\<lambda>t. (sock_seq_num t, sock_next_recv_seq t)))) (\<lambda>(next_seq_num, ack_num).
           reply_tcp (tcp_new_with (tcp_dst_port packet) (tcp_src_port packet) next_seq_num ack_num
             FLAGS_ACK 0xffff 0 [] []))))"

definition receive_tcp_established :: "SocketId \<Rightarrow> TcpPacket \<Rightarrow> (net, TcpPacket option) act" where
  "receive_tcp_established i packet =
     bind_act (if flags_ack packet then on_tcp i receive_ack else return_act ()) (\<lambda>_.
     bind_act (if tcp_data packet \<noteq> [] then on_tcp i (receive_data (tcp_data packet) (tcp_seq_num packet)) else return_act ()) (\<lambda>_.
     bind_act (if flags_fin packet then on_tcp i receive_fin else return_act ()) (\<lambda>_.
     if tcp_data packet \<noteq> [] \<or> flags_fin packet
     then bind_act (on_tcp i (gets (\<lambda>t. (sock_seq_num t, sock_next_recv_seq t)))) (\<lambda>(next_seq_num, ack_num).
          reply_tcp (tcp_new_with (tcp_dst_port packet) (tcp_src_port packet) next_seq_num ack_num
            FLAGS_ACK 0xffff 0 [] []))
     else return_act None)))"

definition receive_tcp_packet :: "TcpPacket \<Rightarrow> Ipv4Addr \<Rightarrow> (net, TcpPacket option) act" where
  "receive_tcp_packet packet remote_addr =
     catch (tcp_socket_mut_by_port (tcp_dst_port packet) remote_addr (tcp_src_port packet)) (\<lambda>r. case r of
       Ok i \<Rightarrow>
         bind_act (on_tcp i (gets sock_state)) (\<lambda>state. case state of
           Closed \<Rightarrow> return_act None
         | Listen \<Rightarrow> receive_tcp_listen packet remote_addr
         | SynSent \<Rightarrow> receive_tcp_syn_sent i packet
         | SynReceived \<Rightarrow>
             if \<not> flags_ack packet then return_act None
             else bind_act (on_tcp i receive_ack) (\<lambda>_. return_act None)
         | Established \<Rightarrow> receive_tcp_established i packet
         | _ \<Rightarrow> return_act None)
     | _ \<Rightarrow> return_act None)"

definition receive_udp_packet :: "UdpPacket \<Rightarrow> (net, UdpPacket option) act" where
  "receive_udp_packet packet =
     bind_act (udp_socket_mut_by_port (udp_dst_port packet)) (\<lambda>i.
     bind_act (with_table (with_socket i (inner_udp_mut (udp_receive (udp_data packet))))) (\<lambda>_.
     return_act None))"

definition receive_arp_packet :: "ArpPacket \<Rightarrow> (net, ArpPacket option) act" where
  "receive_arp_packet packet =
     bind_act (lift_outcome (arp_op packet)) (\<lambda>op_ty.
     bind_act (modify (\<lambda>s. s\<lparr>arp_table :=
       bt_insert (sender_ipv4_addr packet) (Some (sender_eth_addr packet), uptime s) (arp_table s)\<rparr>)) (\<lambda>_.
     if op_ty = ArpRequest then
       bind_act (gets my_ipv4_addr) (\<lambda>me.
       if target_ipv4_addr packet \<noteq> me then return_act None
       else bind_act my_mac_addr (\<lambda>mac.
            return_act (Some (arp_new_with ArpReply mac me (sender_eth_addr packet) (sender_ipv4_addr packet)))))
     else return_act None))"

definition receive_ipv4_payload :: "Ipv4Packet \<Rightarrow> Ipv4Payload \<Rightarrow> (net, Ipv4Payload option) act" where
  "receive_ipv4_payload packet payload = (case payload of
       IpIcmp icmp \<Rightarrow> bind_act (receive_icmp_packet icmp) (\<lambda>r. return_act (map_option IpIcmp r))
     | IpTcp tcp \<Rightarrow>
         bind_act (lift_outcome (tcp_verify_checksum_with_ipv4 (src_addr packet) (dst_addr packet) tcp)) (\<lambda>is_valid.
         if \<not> is_valid then return_act None
         else bind_act (receive_tcp_packet tcp (src_addr packet)) (\<lambda>r. case r of
                None \<Rightarrow> return_act None
              | Some reply \<Rightarrow>
                  bind_act (gets my_ipv4_addr) (\<lambda>me.
                  lift_outcome (map_ok (\<lambda>p. Some (IpTcp p)) (tcp_calc_checksum_with_ipv4 me (src_addr packet) reply)))))
     | IpUdp udp \<Rightarrow> bind_act (receive_udp_packet udp) (\<lambda>_. return_act None))"

text \<open>A TCP packet with a bad checksum leaves the function at once, with no reply: as no payload does.\<close>

definition receive_ipv4_packet :: "Ipv4Packet \<Rightarrow> (net, Ipv4Packet option) act" where
  "receive_ipv4_packet packet =
     bind_act (lift_outcome (ip_validate packet)) (\<lambda>_.
     bind_act (gets my_ipv4_addr) (\<lambda>me.
     if dst_addr packet \<noteq> me then return_act None
     else bind_act (lift_outcome (ip_payload packet)) (\<lambda>payload.
          bind_act (receive_ipv4_payload packet payload) (\<lambda>reply_payload. case reply_payload of
            None \<Rightarrow> return_act None
          | Some pl \<Rightarrow>
              lift_outcome (map_ok (\<lambda>p. Some (ip_calc_checksum p))
                (ip_new_with (version_ihl packet) (dscp_ecn packet) (ip_id packet) (ip_flags packet)
                   (ip_protocol packet) me (src_addr packet) pl))))))"

definition receive_eth_payload :: "EthernetPayload \<Rightarrow> (net, EthernetPayload option) act" where
  "receive_eth_payload payload = (case payload of
       EpArp arp \<Rightarrow> bind_act (receive_arp_packet arp) (\<lambda>r. return_act (map_option EpArp r))
     | EpIpv4 ip \<Rightarrow> bind_act (receive_ipv4_packet ip) (\<lambda>r. return_act (map_option EpIpv4 r))
     | EpNone \<Rightarrow> return_act None)"

subsection \<open>The public functions\<close>

text \<open>\<open>NETWORK_MAN.try_lock()?\<close> and then the method.\<close>

definition try_lock :: "(net, 'a) act \<Rightarrow> (net, 'a) act" where
  "try_lock m = (\<lambda>s. if network_locked s then (err Locked, s) else m s)"

text \<open>The blocking \<open>resolve_mac_addr\<close>: between two rounds the processor halts until an interrupt, whose
  handler may change the state. The interrupts that arrive are a parameter; the result
  \<open>Ok None\<close> is a call that still waits after the last of them.\<close>

primrec resolve_blocking :: "Ipv4Addr \<Rightarrow> (net \<Rightarrow> net) list \<Rightarrow> (net, EthernetAddress option) act" where
  "resolve_blocking ip [] = try_lock (resolve_mac_addr ip)"
| "resolve_blocking ip (irq # irqs) =
     bind_act (try_lock (resolve_mac_addr ip)) (\<lambda>r. case r of
       Some mac \<Rightarrow> return_act (Some mac)
     | None \<Rightarrow> bind_act (modify irq) (\<lambda>_. resolve_blocking ip irqs))"

definition pub_sendto_udp_v4 ::
  "(net \<Rightarrow> net) list \<Rightarrow> SocketId \<Rightarrow> Ipv4Addr \<Rightarrow> u16 \<Rightarrow> u8 list \<Rightarrow> (net, unit option) act" where
  "pub_sendto_udp_v4 irqs i dst dst_port bs =
     bind_act (try_lock (gets my_ipv4_addr)) (\<lambda>me.
     bind_act (resolve_blocking (target_ip me dst) irqs) (\<lambda>r. case r of
       None \<Rightarrow> return_act None
     | Some _ \<Rightarrow> bind_act (try_lock (sendto_udp_v4 i dst dst_port bs)) (\<lambda>u. return_act (Some u))))"

text \<open>The prologue of the public \<open>send_tcp_syn\<close> and \<open>send_tcp_packet\<close>: the peer's address first, then
  the MAC address of the next hop, then the send.\<close>

definition pre_resolve :: "(net \<Rightarrow> net) list \<Rightarrow> SocketId \<Rightarrow> (net, unit) act \<Rightarrow> (net, unit option) act" where
  "pre_resolve irqs i m =
     bind_act (try_lock (on_tcp i (\<lambda>t.
       (and_then (ok_or (sock_dst_ipv4_addr t) (with_context NotFound ''destination address'')) (\<lambda>a.
        and_then (ok_or (sock_dst_port t) (with_context NotFound ''destination port'')) (\<lambda>_. Ok a)), t)))) (\<lambda>dst.
     bind_act (try_lock (gets my_ipv4_addr)) (\<lambda>me.
     bind_act (resolve_blocking (target_ip me dst) irqs) (\<lambda>r. case r of
       None \<Rightarrow> return_act None
     | Some _ \<Rightarrow> bind_act (try_lock m) (\<lambda>u. return_act (Some u)))))"

definition pub_send_tcp_syn :: "(net \<Rightarrow> net) list \<Rightarrow> SocketId \<Rightarrow> (net, unit option) act" where
  "pub_send_tcp_syn irqs i = pre_resolve irqs i (send_tcp_syn i)"

definition pub_send_tcp_packet :: "(net \<Rightarrow> net) list \<Rightarrow> SocketId \<Rightarrow> u8 list \<Rightarrow> (net, unit option) act" where
  "pub_send_tcp_packet irqs i bs = pre_resolve irqs i (send_tcp_packet i bs)"

subsection \<open>The invariant\<close>

definition net_inv :: "net \<Rightarrow> bool" where
  "net_inv s \<longleftrightarrow> table_inv (socket_table s) \<and> bt_inv (arp_table s)"

lemma keeps_with_table [keeps_intros]: "keeps table_inv m \<Longrightarrow> keeps net_inv (with_table m)"
  by (rule keepsI) (auto simp: with_table_def net_inv_def split: prod.split dest: keepsD_eq)

lemma keeps_env [keeps_intros]:
  "keeps net_inv my_mac_addr" "keeps net_inv (set_my_mac_addr mac)" "keeps net_inv (push_eth_frame_to_tx_queue f)"
  by (rule keepsI, simp add: my_mac_addr_def set_my_mac_addr_def push_eth_frame_to_tx_queue_def net_inv_def)+

lemma keeps_send_eth [keeps_intros]:
  "keeps net_inv (send_eth_payload pl mac ty)" "keeps net_inv (send_arp_packet x a b c d)"
  by (simp_all add: send_eth_payload_def send_arp_packet_def keeps_intros)

lemma keeps_resolve [keeps_intros]: "keeps net_inv (resolve_mac_addr ip)"
proof (rule keepsI)
  fix s assume inv: "net_inv s"
  have "keeps net_inv (bind_act my_mac_addr (\<lambda>mac. bind_act (send_arp_packet ArpRequest mac me broadcast ip)
    (\<lambda>_. return_act (None :: EthernetAddress option))))" for me by (intro keeps_intros)
  note req = keepsD [OF this]
  have "net_inv (s\<lparr>arp_table := bt_insert ip v (arp_table s)\<rparr>)" for v
    using inv by (simp add: net_inv_def)
  then show "net_inv (snd (resolve_mac_addr ip s))"
    using inv req by (auto simp: resolve_mac_addr_def Let_def split: option.split prod.split)
qed

lemma keeps_send [keeps_intros]:
  "keeps net_inv (send_ipv4 dst p)" "keeps net_inv (send_tcp dst q)" "keeps net_inv (send_udp_packet sp dp dst bs)"
  by (auto simp: send_ipv4_def send_tcp_def send_udp_packet_def intro!: keeps_intros)

lemma keeps_on_tcp [keeps_intros]: "keeps tcp_ok m \<Longrightarrow> keeps net_inv (on_tcp i m)"
  by (intro keeps_intros quiet_inner)

lemma keeps_so_port [keeps_intros]: "keeps net_inv (with_table (with_socket i (gets f)))"
  by (intro keeps_intros quiet_read)

lemma keeps_socket_ops [keeps_intros]:
  "keeps net_inv (create_new_socket k)" "keeps net_inv (sendto_udp_v4 i dst dp bs)"
  "keeps net_inv (recvfrom_udp_v4 i n)" "keeps net_inv (listen_tcp_v4 i)" "keeps net_inv (accept_tcp_v4 i)"
  "keeps net_inv (send_tcp_syn i)" "keeps net_inv (send_tcp_fin i)" "keeps net_inv (send_tcp_packet i bs)"
  "keeps net_inv (recv_tcp_packet i n)" "keeps net_inv (is_tcp_established i)" "keeps net_inv (close_socket i)"
proof -
  show fin: "keeps net_inv (send_tcp_fin i)"
    unfolding send_tcp_fin_def by (intro keeps_intros) auto
  show "keeps net_inv (create_new_socket k)" unfolding create_new_socket_def by (intro keeps_intros)
  show "keeps net_inv (sendto_udp_v4 i dst dp bs)" unfolding sendto_udp_v4_def by (intro keeps_intros)
  show "keeps net_inv (recvfrom_udp_v4 i n)" unfolding recvfrom_udp_v4_def by (intro keeps_intros quiet_inner)
  show "keeps net_inv (listen_tcp_v4 i)"
    unfolding listen_tcp_v4_def by (intro keeps_intros quiet_bind quiet_if quiet_inner quiet_basic quiet_read)
  show "keeps net_inv (accept_tcp_v4 i)" unfolding accept_tcp_v4_def by (intro keeps_intros)
  show "keeps net_inv (send_tcp_syn i)" unfolding send_tcp_syn_def by (intro keeps_intros)
  show "keeps net_inv (send_tcp_packet i bs)" unfolding send_tcp_packet_def by (intro keeps_intros)
  show "keeps net_inv (recv_tcp_packet i n)" unfolding recv_tcp_packet_def by (intro keeps_intros)
  show "keeps net_inv (is_tcp_established i)" unfolding is_tcp_established_def by (intro keeps_intros)
  show "keeps net_inv (close_socket i)" unfolding close_socket_def by (intro keeps_intros fin)
qed

text \<open>The places that bind a port do so for a socket that has none.\<close>

lemma net_bind_port:
  assumes "net_inv s" and "\<And>x. bt_get (table (socket_table s)) i = Some x \<Longrightarrow> so_port x = 0"
  shows "net_inv (snd (with_table (bind_port i port) s))"
  using keeps_bind_port [of "socket_table s" i port] assms
  by (auto simp: with_table_def net_inv_def split: prod.split)

lemma socket_by_id_run:
  "with_table (socket_by_id i) s = (ok_or (bt_get (table (socket_table s)) i) (with_context NotFound ''socket ID''), s)"
  by (simp add: with_table_def socket_by_id_def)

lemma net_bind_then:
  assumes "net_inv s" and "\<And>x. bt_get (table (socket_table s)) i = Some x \<Longrightarrow> so_port x = 0"
    and "\<And>x. keeps net_inv (f x)"
  shows "net_inv (snd (bind_act (with_table (bind_port i port)) f s))"
proof -
  obtain r s' where run: "with_table (bind_port i port) s = (r, s')" by (metis surj_pair)
  then have "net_inv s'" using net_bind_port [OF assms(1), of i port] assms(2) by simp
  then show ?thesis
    using run keepsD [OF assms(3)] by (intro bind_act_invariant [where I = net_inv])
qed

lemma keeps_bind_socket [keeps_intros]: "keeps net_inv (bind_socket_v4 i a port)"
proof (rule keepsI)
  fix s assume inv: "net_inv s"
  show "net_inv (snd (bind_socket_v4 i a port s))"
  proof (cases "bt_get (table (socket_table s)) i")
    case (Some x)
    have "quiet (modify (so_addr_update (\<lambda>_. a)))" by (simp add: quiet_def socket_ok_def split: SocketInner.split)
    then have "keeps net_inv (with_table (with_socket i (modify (so_addr_update (\<lambda>_. a)))))" by (intro keeps_intros)
    then show ?thesis
      using inv Some net_bind_then [OF inv, of i] by (auto simp: bind_socket_v4_def socket_by_id_run bind_act_def [of "with_table (socket_by_id i)"])
  qed (use inv in \<open>simp add: bind_socket_v4_def socket_by_id_run bind_act_def\<close>)
qed

lemma keeps_connect [keeps_intros]: "keeps net_inv (connect_tcp_v4 i dst dp)"
proof (rule keepsI)
  fix s assume inv: "net_inv s"
  have k: "keeps net_inv (on_tcp i (start_active dst dp))" by (intro keeps_intros)
  show "net_inv (snd (connect_tcp_v4 i dst dp s))"
  proof (cases "bt_get (table (socket_table s)) i")
    case (Some x)
    show ?thesis
    proof (cases "so_port x = 0")
      case True
      then show ?thesis
        using net_bind_then [OF inv _ k, of i] Some by (simp add: connect_tcp_v4_def socket_by_id_run)
    next
      case False
      then show ?thesis using Some keepsD [OF k inv] by (simp add: connect_tcp_v4_def socket_by_id_run)
    qed
  qed (use inv in \<open>simp add: connect_tcp_v4_def socket_by_id_run\<close>)
qed

lemma keeps_socket_of_port [keeps_intros]: "keeps net_inv (socket_of_port k proto port)"
proof -
  have "keeps net_inv (bind_act (with_table (insert_new_socket k proto)) (\<lambda>i.
      bind_act (with_table (bind_port i (Some port))) (\<lambda>_. return_act i)))"
  proof (rule keepsI)
    fix s assume inv: "net_inv s"
    obtain r s' where run: "with_table (insert_new_socket k proto) s = (r, s')" by (metis surj_pair)
    have inv': "net_inv s'"
      using keepsD_eq [OF keeps_with_table [OF keeps_insert_new_socket] inv run] .
    show "net_inv (snd (bind_act (with_table (insert_new_socket k proto)) (\<lambda>i.
        bind_act (with_table (bind_port i (Some port))) (\<lambda>_. return_act i)) s))"
    proof (rule bind_act_invariant [where I = net_inv], rule run, rule inv')
      fix i assume "r = Ok i"
      then have "bt_get (table (socket_table s')) i = Some x \<Longrightarrow> so_port x = 0" for x
        using run by (auto simp: with_table_def insert_new_socket_def Let_def split: if_splits)
      then show "net_inv (snd (bind_act (with_table (bind_port i (Some port))) (\<lambda>_. return_act i) s'))"
        by (rule net_bind_then [OF inv' _ keeps_basic(1)])
    qed
  qed
  then show ?thesis
    unfolding socket_of_port_def
    by (intro keeps_catch keeps_case_outcome keeps_with_table keeps_socket_by_id keeps_basic)
qed

lemma keeps_socket_by_port [keeps_intros]:
  "keeps net_inv (udp_socket_mut_by_port p)" "keeps net_inv (tcp_socket_mut_by_port lp ra rp)"
  unfolding udp_socket_mut_by_port_def tcp_socket_mut_by_port_def
  by (intro keeps_intros quiet_inner)+

lemma keeps_reply_tcp [keeps_intros]: "keeps net_inv (reply_tcp p)"
  by (simp add: reply_tcp_def keeps_intros)

text \<open>What a SYN makes of the listener's table: a new socket, not registered under its port.\<close>

definition child_socket :: "TcpPacket \<Rightarrow> Ipv4Addr \<Rightarrow> Socket" where
  "child_socket packet ra =
     \<lparr>so_port = tcp_dst_port packet, so_addr = None,
      so_inner = InnerTcp \<lparr>sock_state = SynReceived, sock_src_port = Some (tcp_dst_port packet),
        sock_dst_ipv4_addr = Some ra, sock_dst_port = Some (tcp_src_port packet), sock_seq_num = 1,
        sock_next_recv_seq = tcp_seq_num packet + 1, sock_buf = []\<rparr>,
      so_kind = Stream\<rparr>"

definition spawn_child :: "TcpPacket \<Rightarrow> Ipv4Addr \<Rightarrow> SocketTable \<Rightarrow> SocketTable" where
  "spawn_child packet ra st = st\<lparr>next_socket_id := Suc (next_socket_id st),
     table := bt_insert (next_socket_id st) (child_socket packet ra)
       (bt_insert (next_socket_id st)
         \<lparr>so_port = 0, so_addr = None, so_inner = InnerTcp tcp_socket_new, so_kind = Stream\<rparr> (table st))\<rparr>"

lemma receive_tcp_listen_run:
  assumes "flags_syn packet"
  shows "receive_tcp_listen packet ra s =
    (map_ok Some (tcp_new_with (tcp_dst_port packet) (tcp_src_port packet) 0 (tcp_seq_num packet + 1)
       (FLAGS_SYN OR FLAGS_ACK) 0xffff 0 mss_options []),
     s\<lparr>socket_table := spawn_child packet ra (socket_table s)\<rparr>)"
  using assms
  by (simp add: receive_tcp_listen_def with_table_def insert_new_socket_run with_socket_def set_port_def
      inner_tcp_mut_def tcp_socket_defs bind_act_def tcp_socket_new_def reply_tcp_def spawn_child_def child_socket_def)

lemma table_inv_spawn: "table_inv st \<Longrightarrow> table_inv (spawn_child packet ra st)"
proof -
  assume inv: "table_inv st"
  let ?new = "\<lparr>so_port = 0, so_addr = None, so_inner = InnerTcp tcp_socket_new, so_kind = Stream\<rparr>"
  let ?st = "st\<lparr>next_socket_id := Suc (next_socket_id st), table := bt_insert (next_socket_id st) ?new (table st)\<rparr>"
  have inv': "table_inv ?st" by (rule table_inv_insert_socket [OF inv]) (simp_all add: socket_ok_def)
  have "table_inv (?st\<lparr>table := bt_insert (next_socket_id st) (child_socket packet ra) (table ?st)\<rparr>)"
    by (rule table_inv_set_port [OF inv', where s = ?new])
      (simp_all add: child_socket_def socket_ok_def tcp_ok_def tcp_socket_inv_def)
  then show ?thesis by (simp add: spawn_child_def)
qed

lemma keeps_receive_tcp_listen [keeps_intros]: "keeps net_inv (receive_tcp_listen packet ra)"
proof (rule keepsI)
  fix s assume inv: "net_inv s"
  show "net_inv (snd (receive_tcp_listen packet ra s))"
  proof (cases "flags_syn packet")
    case True
    then show ?thesis using inv table_inv_spawn by (simp add: receive_tcp_listen_run net_inv_def)
  next
    case False
    then show ?thesis using inv by (simp add: receive_tcp_listen_def)
  qed
qed

lemma keeps_receive_tcp [keeps_intros]:
  "keeps net_inv (receive_tcp_syn_sent i packet)" "keeps net_inv (receive_tcp_established i packet)"
  unfolding receive_tcp_syn_sent_def receive_tcp_established_def by (intro keeps_intros)+

lemma keeps_receive_tcp_packet [keeps_intros]: "keeps net_inv (receive_tcp_packet packet ra)"
proof -
  have "keeps net_inv (case state of
           Closed \<Rightarrow> return_act None
         | Listen \<Rightarrow> receive_tcp_listen packet ra
         | SynSent \<Rightarrow> receive_tcp_syn_sent i packet
         | SynReceived \<Rightarrow>
             if \<not> flags_ack packet then return_act None
             else bind_act (on_tcp i receive_ack) (\<lambda>_. return_act None)
         | Established \<Rightarrow> receive_tcp_established i packet
         | _ \<Rightarrow> return_act None)" for state i
    by (cases state) (auto intro!: keeps_intros)
  then show ?thesis
    unfolding receive_tcp_packet_def
    by (intro keeps_catch keeps_case_outcome keeps_bind keeps_basic keeps_on_tcp keeps_socket_by_port)
qed

lemma keeps_receive [keeps_intros]:
  "keeps net_inv (receive_udp_packet u)" "keeps net_inv (receive_arp_packet a)"
  "keeps net_inv (receive_icmp_packet c)"
proof -
  show "keeps net_inv (receive_udp_packet u)"
    unfolding receive_udp_packet_def by (intro keeps_intros quiet_inner)
  show "keeps net_inv (receive_arp_packet a)"
    unfolding receive_arp_packet_def by (intro keeps_intros) (simp add: net_inv_def)
  show "keeps net_inv (receive_icmp_packet c)"
    by (cases "icmp_ty c") (simp_all add: receive_icmp_packet_def keeps_intros)
qed

lemma keeps_receive_ipv4_payload [keeps_intros]: "keeps net_inv (receive_ipv4_payload packet pl)"
  by (cases pl) (auto simp: receive_ipv4_payload_def intro!: keeps_intros)

lemma keeps_receive_eth [keeps_intros]:
  "keeps net_inv (receive_ipv4_packet p)" "keeps net_inv (receive_eth_payload pl)"
proof -
  show ip: "keeps net_inv (receive_ipv4_packet p)" for p
    unfolding receive_ipv4_packet_def by (intro keeps_intros)
  show "keeps net_inv (receive_eth_payload pl)"
    by (cases pl) (auto simp: receive_eth_payload_def intro!: keeps_intros ip)
qed

subsection \<open>The network as a transition system\<close>

text \<open>Every method of the manager as a step, whatever its arguments and its outcome, besides the
  environment: time passes, the driver takes frames and the locks are taken and released.\<close>

inductive net_step :: "net \<Rightarrow> net \<Rightarrow> bool" where
  step_set_mac: "net_step s (snd (set_my_mac_addr mac s))"
| step_create: "net_step s (snd (create_new_socket k s))"
| step_bind: "net_step s (snd (bind_socket_v4 i a port s))"
| step_listen: "net_step s (snd (listen_tcp_v4 i s))"
| step_accept: "net_step s (snd (accept_tcp_v4 i s))"
| step_connect: "net_step s (snd (connect_tcp_v4 i dst dp s))"
| step_send_syn: "net_step s (snd (send_tcp_syn i s))"
| step_send_tcp: "net_step s (snd (send_tcp_packet i bs s))"
| step_recv_tcp: "net_step s (snd (recv_tcp_packet i n s))"
| step_is_established: "net_step s (snd (is_tcp_established i s))"
| step_sendto: "net_step s (snd (sendto_udp_v4 i dst dp bs s))"
| step_recvfrom: "net_step s (snd (recvfrom_udp_v4 i n s))"
| step_close_socket: "net_step s (snd (close_socket i s))"
| step_resolve: "net_step s (snd (resolve_mac_addr ip s))"
| step_receive: "net_step s (snd (receive_eth_payload pl s))"
| step_env: "net_step s (s\<lparr>tx_queue := q, uptime := t, rtl8139_locked := l, network_locked := l'\<rparr>)"

definition boot_net :: net where
  "boot_net = NetworkManager.extend (network_new LOCAL_ADDR)
     \<lparr>tx_queue = [], rtl8139_locked = False, uptime = 0, network_locked = False\<rparr>"

definition net_reachable :: "net \<Rightarrow> bool" where
  "net_reachable s = net_step\<^sup>*\<^sup>* boot_net s"

lemmas net_keeps = keeps_env(2) [THEN keepsD] keeps_socket_ops [THEN keepsD] keeps_bind_socket [THEN keepsD]
  keeps_connect [THEN keepsD] keeps_resolve [THEN keepsD] keeps_receive_eth(2) [THEN keepsD]

lemma net_inv_env:
  "net_inv s \<Longrightarrow> net_inv (s\<lparr>tx_queue := q, uptime := t, rtl8139_locked := l, network_locked := l'\<rparr>)"
  by (simp add: net_inv_def)

lemma net_step_inv: "net_step s s' \<Longrightarrow> net_inv s \<Longrightarrow> net_inv s'"
  by (erule net_step.cases) (simp_all only: net_keeps net_inv_env)

lemma net_inv_boot: "net_inv boot_net"
  by (simp add: net_inv_def boot_net_def network_new_def NetworkManager.defs)

lemma net_reachable_inv: "net_reachable s \<Longrightarrow> net_inv s"
  unfolding net_reachable_def
  by (induction rule: rtranclp_induct) (auto intro: net_inv_boot net_step_inv)

text \<open>C32: In every state the network can reach, by whatever calls and packets, the socket table is
  consistent: ids are fresh, a registered port leads to a live socket of that protocol bound to that
  port, every bound UDP socket is registered, no socket of one kind holds the other kind's state, and
  every TCP socket that is past the listening state knows its peer.\<close>

theorem network_consistent:
  assumes "net_reachable s"
  shows "table_inv (socket_table s)"
  using net_reachable_inv [OF assms] by (simp add: net_inv_def)

theorem network_consistent_witness:
  "table_inv (socket_table (snd (bind_socket_v4 4096 None (Some 80) (snd (create_new_socket Stream boot_net)))))"
proof (rule network_consistent, unfold net_reachable_def, rule rtranclp.rtrancl_into_rtrancl)
  show "net_step\<^sup>*\<^sup>* boot_net (snd (create_new_socket Stream boot_net))"
    by (rule r_into_rtranclp) (rule step_create)
qed (rule step_bind)

end
