(* ===== verification/Network_Correct.thy ===== *)
theory Network_Correct
  imports Network
begin

text \<open>
  What the network manager does from packet to packet: address resolution, the echo reply, the
  three-way handshake between two managers, the segment that a send puts on the wire, and what
  closing and reading do to connections.
\<close>

subsection \<open>Address resolution\<close>

text \<open>Receiving an ARP packet with a valid operation teaches the sender's address: a later
  resolution returns it at once and sends nothing. A request for this host's address is answered,
  with the two addresses exchanged, and nothing else is.\<close>

theorem arp_learn_and_reply:
  assumes "arp_op packet = Ok op_ty" and "nm_mac_addr s = Some mac"
  shows "\<exists>r s'. receive_arp_packet packet s = (Ok r, s') \<and>
    resolve_mac_addr (sender_ipv4_addr packet) s' = (Ok (Some (sender_eth_addr packet)), s') \<and>
    (\<forall>ip. ip \<noteq> sender_ipv4_addr packet \<longrightarrow> bt_get (arp_table s') ip = bt_get (arp_table s) ip) \<and>
    r = (if op_ty = ArpRequest \<and> target_ipv4_addr packet = my_ipv4_addr s
         then Some (arp_new_with ArpReply mac (my_ipv4_addr s) (sender_eth_addr packet) (sender_ipv4_addr packet))
         else None)"
  using assms
  by (auto simp: receive_arp_packet_def bind_act_def my_mac_addr_def resolve_mac_addr_def)

theorem arp_learn_and_reply_witness:
  "\<exists>r s'. receive_arp_packet
      (arp_new_with ArpRequest (EthernetAddress 9 9 9 9 9 9) (Ipv4Addr 10 0 2 2) broadcast LOCAL_ADDR)
      (boot_net\<lparr>nm_mac_addr := Some (EthernetAddress 1 2 3 4 5 6)\<rparr>) = (Ok (Some r), s') \<and>
    arp_op r = Ok ArpReply \<and> sender_eth_addr r = EthernetAddress 1 2 3 4 5 6"
proof -
  let ?p = "arp_new_with ArpRequest (EthernetAddress 9 9 9 9 9 9) (Ipv4Addr 10 0 2 2) broadcast LOCAL_ADDR"
  have fields: "target_ipv4_addr ?p = LOCAL_ADDR" by (simp add: arp_new_with_def)
  show ?thesis
    using arp_learn_and_reply [of ?p ArpRequest "boot_net\<lparr>nm_mac_addr := Some (EthernetAddress 1 2 3 4 5 6)\<rparr>"
        "EthernetAddress 1 2 3 4 5 6"] fields
    by (auto simp: boot_net_def network_new_def NetworkManager.defs) (simp add: arp_new_with_def)
qed

text \<open>While an address is unanswered, at most one ARP request goes out per second: the first
  resolution queues exactly one broadcast request, and every resolution less than 1000 ms after it, if no
  reply has come, queues nothing.\<close>

theorem arp_request_rate:
  assumes "bt_get (arp_table s) ip = None" and "nm_mac_addr s = Some mac" and "\<not> rtl8139_locked s"
    and "uptime s \<le> t" and "t < uptime s + 1000"
  shows "\<exists>s1. resolve_mac_addr ip s = (Ok None, s1) \<and>
    tx_queue s1 = tx_queue s @ [eth_new_with broadcast mac EtArp
      (arp_to_vec (arp_new_with ArpRequest mac (my_ipv4_addr s) broadcast ip))] \<and>
    resolve_mac_addr ip (s1\<lparr>uptime := t\<rparr>) = (Ok None, s1\<lparr>uptime := t\<rparr>)"
  using assms
  by (simp add: resolve_mac_addr_def bind_act_def my_mac_addr_def send_arp_packet_def send_eth_payload_def
      push_eth_frame_to_tx_queue_def Let_def)

theorem arp_request_rate_witness:
  "\<exists>s1. resolve_mac_addr GATEWAY_ADDR (boot_net\<lparr>nm_mac_addr := Some broadcast\<rparr>) = (Ok None, s1) \<and>
     length (tx_queue s1) = 1 \<and> resolve_mac_addr GATEWAY_ADDR (s1\<lparr>uptime := 999\<rparr>) = (Ok None, s1\<lparr>uptime := 999\<rparr>)"
  using arp_request_rate [of "boot_net\<lparr>nm_mac_addr := Some broadcast\<rparr>" GATEWAY_ADDR broadcast 999]
  by (auto simp: boot_net_def network_new_def NetworkManager.defs)

definition net_ready :: "net \<Rightarrow> bool" where
  "net_ready s \<longleftrightarrow> \<not> network_locked s \<and> \<not> rtl8139_locked s \<and> nm_mac_addr s \<noteq> None"

lemma resolve_ready:
  assumes "net_ready s"
  shows "\<exists>r s'. resolve_mac_addr ip s = (Ok r, s') \<and> net_ready s'"
  using assms
  by (auto simp: net_ready_def resolve_mac_addr_def bind_act_def my_mac_addr_def send_arp_packet_def send_eth_payload_def
      push_eth_frame_to_tx_queue_def Let_def split: option.split prod.split)

text \<open>A blocking resolution ends as soon as an ARP packet from the wanted address has arrived: if one of
  the interrupts during the wait delivers it, the call returns a MAC address, whatever came before and comes
  after, provided the locks are free and the interface is set up.\<close>

theorem resolve_blocking_returns:
  assumes "net_ready s" and "\<forall>irq \<in> set before. \<forall>s. net_ready s \<longrightarrow> net_ready (irq s)"
    and "arp_op packet = Ok op_ty" and "sender_ipv4_addr packet = ip"
  shows "\<exists>mac s'. resolve_blocking ip (before @ (\<lambda>s. snd (receive_arp_packet packet s)) # after) s = (Ok (Some mac), s')"
  using assms(1,2)
proof (induction before arbitrary: s)
  case Nil
  obtain r s1 where r: "resolve_mac_addr ip s = (Ok r, s1)" "net_ready s1" using resolve_ready [OF Nil(1)] by blast
  let ?s2 = "snd (receive_arp_packet packet s1)"
  have get: "bt_get (arp_table ?s2) ip = Some (Some (sender_eth_addr packet), uptime s1)" and unlocked: "\<not> network_locked ?s2"
    using assms(3,4) r(2) by (auto simp: receive_arp_packet_def bind_act_def my_mac_addr_def net_ready_def)
  then have "try_lock (resolve_mac_addr ip) ?s2 = (Ok (Some (sender_eth_addr packet)), ?s2)"
    by (simp add: try_lock_def resolve_mac_addr_def)
  then have "resolve_blocking ip after ?s2 = (Ok (Some (sender_eth_addr packet)), ?s2)"
    by (cases after) simp_all
  then show ?case
    using r Nil(1) by (cases r) (simp_all add: try_lock_def net_ready_def bind_act_def)
next
  case (Cons irq before)
  obtain r s1 where r: "resolve_mac_addr ip s = (Ok r, s1)" "net_ready s1" using resolve_ready [OF Cons.prems(1)] by blast
  have "net_ready (irq s1)" using r(2) Cons.prems(2) by simp
  then show ?case
    using Cons.IH [of "irq s1"] Cons.prems r by (cases r) (simp_all add: try_lock_def net_ready_def bind_act_def)
qed

theorem resolve_blocking_returns_witness:
  "\<exists>mac s'. resolve_blocking GATEWAY_ADDR
     ([\<lambda>s. s\<lparr>uptime := uptime s + 10\<rparr>] @ (\<lambda>s. snd (receive_arp_packet
        (arp_new_with ArpReply (EthernetAddress 9 9 9 9 9 9) GATEWAY_ADDR broadcast LOCAL_ADDR) s)) # [])
     (boot_net\<lparr>nm_mac_addr := Some broadcast\<rparr>) = (Ok (Some mac), s')"
  by (rule resolve_blocking_returns [where op_ty = ArpReply])
    (simp_all add: net_ready_def boot_net_def network_new_def NetworkManager.defs, simp add: arp_new_with_def)

subsection \<open>The echo reply\<close>

lemma icmp_checksum_total:
  assumes "length (icmp_data p) \<le> 65000"
  shows "word_total (icmp_to_vec (icmp_calc_checksum p)) mod 65535 = 0"
proof -
  let ?z = "icmp_to_vec (p\<lparr>icmp_checksum := 0\<rparr>)"
  let ?c = "fold_checksum (checksum_words ?z)"
  have m: "(0xff :: u16) = mask 8" by (simp add: mask_eq_exp_minus_1)
  have lo: "ucast (w AND 0xff) = (ucast w :: u8)" for w :: u16
    unfolding m by (rule bit_word_eqI) (auto simp: bit_simps)
  have q: "icmp_calc_checksum p = p\<lparr>icmp_checksum := ?c\<rparr>"
    by (simp add: icmp_calc_checksum_def fold_checksum_def checksum_words_def icmp_to_vec_def to_be16_def lo be16_def)
  have "word_total (icmp_to_vec (p\<lparr>icmp_checksum := ?c\<rparr>)) = word_total ?z + unat ?c"
    by (simp add: icmp_to_vec_def to_be16_def unat_be16)
  moreover have "unat ?c = 65535 - ones_fold (word_total ?z)"
    using assms by (simp add: unat_fold_checksum unat_checksum_words icmp_to_vec_def)
  ultimately show ?thesis using checksum_completes [of "word_total ?z"] q by metis
qed

lemma add_u16_total: "unat a + unat b < 65536 \<Longrightarrow> add_u16 a b = Ok (a + b)"
  using no_olen_add_nat [of a b] by (simp add: add_u16_def)

lemma ip_new_with_Ok:
  assumes "length (ipv4_payload_vec pl) \<le> 65515"
  shows "\<exists>p. ip_new_with v dscp ident flags proto src dst pl = Ok p \<and> version_ihl p = v \<and> ip_ttl p = 64 \<and>
    ip_protocol p = proto \<and> src_addr p = src \<and> dst_addr p = dst \<and> ip_data p = ipv4_payload_vec pl"
proof -
  have "add_u16 20 (of_nat (length (ipv4_payload_vec pl))) = Ok (20 + of_nat (length (ipv4_payload_vec pl)))"
    using assms by (intro add_u16_total) simp
  then show ?thesis by (simp add: ip_new_with_def Let_def)
qed

lemma ip_calc_checksum_fields [simp]:
  "version_ihl (ip_calc_checksum p) = version_ihl p" "src_addr (ip_calc_checksum p) = src_addr p"
  "dst_addr (ip_calc_checksum p) = dst_addr p" "ip_payload (ip_calc_checksum p) = ip_payload p"
  by (simp_all add: ip_calc_checksum_def ip_payload_def Let_def split: Protocol.split)

text \<open>A valid echo request to this host, in a packet without options, is answered by an echo reply
  with the same identifier, sequence number, code and data, to the address it came from, in a
  well-formed packet with correct checksums, and no state changes.\<close>

theorem ping_reply:
  assumes "ip_validate p = Ok ()" and "dst_addr p = my_ipv4_addr s"
    and "ip_payload p = Ok (IpIcmp c)" and "icmp_ty c = EchoRequest"
    and "ihl_bytes (version_ihl p) = 20" and "length (icmp_data c) \<le> 65000"
  shows "\<exists>r c'. receive_ipv4_packet p s = (Ok (Some r), s) \<and>
    ip_wf r \<and> src_addr r = my_ipv4_addr s \<and> dst_addr r = src_addr p \<and>
    word_total (take 20 (ip_to_vec r)) mod 65535 = 0 \<and>
    ip_payload r = Ok (IpIcmp c') \<and> icmp_ty c' = EchoReply \<and>
    icmp_id c' = icmp_id c \<and> icmp_seq c' = icmp_seq c \<and> icmp_code c' = icmp_code c \<and> icmp_data c' = icmp_data c \<and>
    word_total (icmp_to_vec c') mod 65535 = 0"
proof -
  define c' where "c' = icmp_calc_checksum (c\<lparr>icmp_ty := EchoReply\<rparr>)"
  have c': "icmp_ty c' = EchoReply" "icmp_id c' = icmp_id c" "icmp_seq c' = icmp_seq c" "icmp_code c' = icmp_code c"
    "icmp_data c' = icmp_data c"
    by (simp_all add: c'_def icmp_calc_checksum_def Let_def)
  have len: "length (icmp_to_vec c') \<le> 65515" using assms(6) c' by (simp add: icmp_to_vec_def)
  have proto: "ip_protocol p = PIcmp"
    using assms(3) by (auto simp: ip_payload_def map_ok_Ok_iff split: Protocol.splits)
  obtain r where r: "ip_new_with (version_ihl p) (dscp_ecn p) (ip_id p) (ip_flags p) PIcmp (my_ipv4_addr s) (src_addr p)
      (IpIcmp c') = Ok r" "version_ihl r = version_ihl p" "ip_protocol r = PIcmp" "src_addr r = my_ipv4_addr s"
      "dst_addr r = src_addr p" "ip_data r = icmp_to_vec c'"
    using ip_new_with_Ok [of "IpIcmp c'"] len by fastforce
  have wf: "ip_wf r" using ip_wf_new_with [OF r(1)] len assms(5) by simp
  have "icmp_wf c'" using c'(1) by (simp add: icmp_wf_def icmp_type_of_def)
  then have "ip_payload r = Ok (IpIcmp c')" using r by (simp add: ip_payload_def icmp_decode_encode)
  moreover have "receive_ipv4_packet p s = (Ok (Some (ip_calc_checksum r)), s)"
    using assms(1-4) r(1) proto
    by (simp add: receive_ipv4_packet_def receive_ipv4_payload_def receive_icmp_packet_def bind_act_def c'_def)
  moreover have "word_total (take 20 (ip_to_vec (ip_calc_checksum r))) mod 65535 = 0"
    using assms(5) r(2) by (intro ip_header_total) simp
  moreover have "word_total (icmp_to_vec c') mod 65535 = 0"
    unfolding c'_def using assms(6) by (intro icmp_checksum_total) simp
  ultimately show ?thesis using wf c' r by (intro exI [of _ "ip_calc_checksum r"] exI [of _ c']) simp
qed

theorem ping_reply_witness:
  "\<exists>r. receive_ipv4_packet
     \<lparr>version_ihl = 0x45, dscp_ecn = 0, ip_len = 29, ip_id = 1, ip_flags = 0, ip_ttl = 64, ip_protocol = PIcmp,
      ip_checksum = 0, src_addr = GATEWAY_ADDR, dst_addr = LOCAL_ADDR, ip_data = [8, 0, 0, 0, 0, 1, 0, 7, 42]\<rparr>
     boot_net = (Ok (Some r), boot_net) \<and> dst_addr r = GATEWAY_ADDR"
proof -
  let ?p = "\<lparr>version_ihl = 0x45, dscp_ecn = 0, ip_len = 29, ip_id = 1, ip_flags = 0, ip_ttl = 64, ip_protocol = PIcmp,
      ip_checksum = 0, src_addr = GATEWAY_ADDR, dst_addr = LOCAL_ADDR, ip_data = [8, 0, 0, 0, 0, 1, 0, 7, 42]\<rparr>"
  let ?c = "\<lparr>icmp_ty = EchoRequest, icmp_code = 0, icmp_checksum = be16 0 0, icmp_id = be16 0 1, icmp_seq = be16 0 7,
      icmp_data = [42]\<rparr>"
  have "ip_payload ?p = Ok (IpIcmp ?c)"
    by (simp add: ip_payload_def icmp_try_from_def icmp_type_of_def)
  moreover have "ip_validate ?p = Ok ()" by code_simp
  ultimately show ?thesis
    using ping_reply [of ?p boot_net ?c]
    by (auto simp: ihl_bytes_def boot_net_def network_new_def NetworkManager.defs)
qed

subsection \<open>The three-way handshake\<close>

lemma flags_of_new:
  assumes "tcp_flags p AND 0x0fff = f AND 0x0fff"
  shows "flags_syn p \<longleftrightarrow> f AND FLAGS_SYN \<noteq> 0" "flags_ack p \<longleftrightarrow> f AND FLAGS_ACK \<noteq> 0"
    "flags_fin p \<longleftrightarrow> f AND FLAGS_FIN \<noteq> 0"
proof -
  have "x AND m = (x AND 0x0fff) AND m" if "0x0fff AND m = m" for x m :: u16
    using that by (simp add: and.assoc)
  then have "tcp_flags p AND m = f AND m" if "0x0fff AND m = m" for m
    using that assms by metis
  then show "flags_syn p \<longleftrightarrow> f AND FLAGS_SYN \<noteq> 0" "flags_ack p \<longleftrightarrow> f AND FLAGS_ACK \<noteq> 0"
    "flags_fin p \<longleftrightarrow> f AND FLAGS_FIN \<noteq> 0"
    by (simp_all add: flags_tests flags_defs)
qed

text \<open>A TCP socket in the table, and what running a method on it does.\<close>

definition tcp_at :: "net \<Rightarrow> SocketId \<Rightarrow> u16 \<Rightarrow> TcpSocket \<Rightarrow> bool" where
  "tcp_at s i port t \<longleftrightarrow>
     (\<exists>so. bt_get (table (socket_table s)) i = Some so \<and> so_kind so = Stream \<and> so_port so = port \<and> so_inner so = InnerTcp t)"

definition put_tcp :: "net \<Rightarrow> SocketId \<Rightarrow> TcpSocket \<Rightarrow> net" where
  "put_tcp s i t = (case bt_get (table (socket_table s)) i of
      None \<Rightarrow> s
    | Some so \<Rightarrow> s\<lparr>socket_table := (socket_table s)\<lparr>table := bt_insert i (so\<lparr>so_inner := InnerTcp t\<rparr>) (table (socket_table s))\<rparr>\<rparr>)"

lemma on_tcp_run: "tcp_at s i port t \<Longrightarrow> on_tcp i m s = (fst (m t), put_tcp s i (snd (m t)))"
  by (cases "m t") (auto simp: tcp_at_def put_tcp_def with_table_def with_socket_def inner_tcp_mut_def)

lemma tcp_at_put [simp]: "tcp_at s i port t \<Longrightarrow> tcp_at (put_tcp s i t') i port t'"
  by (auto simp: tcp_at_def put_tcp_def)

lemma put_tcp_other:
  "j \<noteq> i \<Longrightarrow> tcp_at (put_tcp s i t) j port u = tcp_at s j port u"
  by (auto simp: tcp_at_def put_tcp_def split: option.split)

lemma put_tcp_same: "net_inv s \<Longrightarrow> tcp_at s i port t \<Longrightarrow> put_tcp s i t = s"
proof -
  assume "net_inv s" "tcp_at s i port t"
  then obtain so where so: "bt_get (table (socket_table s)) i = Some so" "so_inner so = InnerTcp t"
    and inv: "bt_inv (table (socket_table s))"
    using table_invD(1) by (auto simp: tcp_at_def net_inv_def)
  have "so\<lparr>so_inner := InnerTcp t\<rparr> = so" using so(2) by (cases so) simp
  then show "put_tcp s i t = s" using so inv by (simp add: put_tcp_def bt_insert_same)
qed

lemma on_tcp_read: "net_inv s \<Longrightarrow> tcp_at s i port t \<Longrightarrow> on_tcp i (\<lambda>t. (f t, t)) s = (f t, s)"
  by (simp add: on_tcp_run put_tcp_same)

lemma on_tcp_gets: "net_inv s \<Longrightarrow> tcp_at s i port t \<Longrightarrow> on_tcp i (gets f) s = (Ok (f t), s)"
  using on_tcp_read [of s i port t "\<lambda>t. Ok (f t)"] by (simp add: gets_def)

lemma on_tcp_return: "net_inv s \<Longrightarrow> tcp_at s i port t \<Longrightarrow> on_tcp i (return_act x) s = (Ok x, s)"
  using on_tcp_read [of s i port t "\<lambda>_. Ok x"] by (simp add: return_act_def)

lemma so_port_run: "net_inv s \<Longrightarrow> tcp_at s i port t \<Longrightarrow> with_table (with_socket i (gets so_port)) s = (Ok port, s)"
  using table_invD(1) by (auto simp: tcp_at_def net_inv_def with_table_def with_socket_def bt_insert_same)

text \<open>How a packet finds its socket: by its connection, or else by the port.\<close>

lemma tcp_socket_by_connection:
  assumes "net_inv s" and "find_tcp_socket_by_port_and_addr lp ra rp (socket_table s) = Some i" and "tcp_at s i lp t"
  shows "tcp_socket_mut_by_port lp ra rp s = (Ok i, s)"
  using assms on_tcp_return [OF assms(1,3), of "()"] by (simp add: tcp_socket_mut_by_port_def bind_act_def)

lemma tcp_socket_by_listener:
  assumes "net_inv s" and "find_tcp_socket_by_port_and_addr lp ra rp (socket_table s) = None"
    and "bt_get (tcp_port_socket_id_map (socket_table s)) lp = Some i" and "tcp_at s i lp t"
  shows "tcp_socket_mut_by_port lp ra rp s = (Ok i, s)"
proof -
  have "socket_of_port Stream PTcp lp s = (Ok i, s)"
    using assms(3) by (simp add: socket_of_port_def catch_def with_table_def socket_id_by_port_and_type_def)
  then show ?thesis using assms on_tcp_return [OF assms(1,4), of "()"] by (simp add: tcp_socket_mut_by_port_def bind_act_def)
qed

lemma receive_tcp_packet_run:
  assumes "net_inv s" and "tcp_socket_mut_by_port (tcp_dst_port p) ra (tcp_src_port p) s = (Ok i, s)"
    and "tcp_at s i port t"
  shows "receive_tcp_packet p ra s = (case sock_state t of
           Closed \<Rightarrow> return_act None
         | Listen \<Rightarrow> receive_tcp_listen p ra
         | SynSent \<Rightarrow> receive_tcp_syn_sent i p
         | SynReceived \<Rightarrow>
             if \<not> flags_ack p then return_act None
             else bind_act (on_tcp i receive_ack) (\<lambda>_. return_act None)
         | Established \<Rightarrow> receive_tcp_established i p
         | _ \<Rightarrow> return_act None) s"
  using assms(2) on_tcp_gets [OF assms(1,3), of sock_state]
  by (simp add: receive_tcp_packet_def)

text \<open>The SYN at the listener, the SYN-ACK at the client, the ACK at the new socket.\<close>

lemma handshake_syn:
  assumes inv: "net_inv s" and listener: "bt_get (tcp_port_socket_id_map (socket_table s)) sp = Some l" "tcp_at s l sp lt"
      "sock_state lt = Listen"
    and new: "find_tcp_socket_by_port_and_addr sp cip cp (socket_table s) = None"
    and syn: "flags_syn syn" "tcp_src_port syn = cp" "tcp_dst_port syn = sp"
  obtains synack where
    "receive_tcp_packet syn cip s = (Ok (Some synack), s\<lparr>socket_table := spawn_child syn cip (socket_table s)\<rparr>)"
    "flags_syn synack" "flags_ack synack" "tcp_src_port synack = sp" "tcp_dst_port synack = cp"
    "tcp_seq_num synack = 0" "tcp_ack_num synack = tcp_seq_num syn + 1" "tcp_wf synack" "tcp_data synack = []"
proof -
  obtain synack where sa: "tcp_new_with sp cp 0 (tcp_seq_num syn + 1) (FLAGS_SYN OR FLAGS_ACK) 0xffff 0 mss_options [] = Ok synack"
    "tcp_wf synack" "tcp_src_port synack = sp" "tcp_dst_port synack = cp" "tcp_seq_num synack = 0"
    "tcp_ack_num synack = tcp_seq_num syn + 1" "tcp_data synack = []"
    and fl: "tcp_flags synack AND 0x0fff = (FLAGS_SYN OR FLAGS_ACK) AND 0x0fff"
    by (rule tcp_new_with_Ok [where options = mss_options and src = sp and dst = cp and seq = 0
          and ack = "tcp_seq_num syn + 1" and f = "FLAGS_SYN OR FLAGS_ACK" and window = "0xffff" and urgent = 0 and bs = "[]"])
      (auto simp: mss_options_def)
  have "receive_tcp_packet syn cip s = receive_tcp_listen syn cip s"
    using receive_tcp_packet_run [OF inv _ listener(2), of syn cip] tcp_socket_by_listener [OF inv new listener(1,2)] syn listener(3)
    by simp
  then have "receive_tcp_packet syn cip s = (Ok (Some synack), s\<lparr>socket_table := spawn_child syn cip (socket_table s)\<rparr>)"
    using receive_tcp_listen_run [OF syn(1)] sa(1) syn(2,3) by simp
  then show thesis using that sa flags_of_new [OF fl] by (simp add: flags_defs)
qed

lemma handshake_syn_ack:
  assumes inv: "net_inv c" and conn: "find_tcp_socket_by_port_and_addr cp sip sp (socket_table c) = Some i"
      "tcp_at c i cp ct" "sock_state ct = SynSent"
    and sa: "flags_syn synack" "flags_ack synack" "tcp_src_port synack = sp" "tcp_dst_port synack = cp"
  obtains ack where
    "receive_tcp_packet synack sip c = (Ok (Some ack), put_tcp c i (ct\<lparr>sock_state := Established,
       sock_next_recv_seq := tcp_seq_num synack + 1, sock_seq_num := sock_seq_num ct + 1\<rparr>))"
    "flags_ack ack" "tcp_src_port ack = cp" "tcp_dst_port ack = sp" "tcp_seq_num ack = sock_seq_num ct + 1"
    "tcp_ack_num ack = tcp_seq_num synack + 1" "tcp_wf ack" "tcp_data ack = []"
proof -
  let ?t = "ct\<lparr>sock_state := Established, sock_next_recv_seq := tcp_seq_num synack + 1, sock_seq_num := sock_seq_num ct + 1\<rparr>"
  obtain ack where a: "tcp_new_with cp sp (sock_seq_num ct + 1) (tcp_seq_num synack + 1) FLAGS_ACK 0xffff 0 [] [] = Ok ack"
    "tcp_wf ack" "tcp_src_port ack = cp" "tcp_dst_port ack = sp" "tcp_seq_num ack = sock_seq_num ct + 1"
    "tcp_ack_num ack = tcp_seq_num synack + 1" "tcp_data ack = []"
    and fl: "tcp_flags ack AND 0x0fff = FLAGS_ACK AND 0x0fff"
    by (rule tcp_new_with_Ok [where options = "[]" and src = cp and dst = sp and seq = "sock_seq_num ct + 1"
          and ack = "tcp_seq_num synack + 1" and f = FLAGS_ACK and window = "0xffff" and urgent = 0 and bs = "[]"]) auto
  have ack: "on_tcp i (receive_syn_ack (tcp_seq_num synack)) c = (Ok (), put_tcp c i ?t)"
    using conn(3) by (simp add: on_tcp_run [OF conn(2)] receive_syn_ack_def)
  have k: "keeps net_inv (on_tcp i (receive_syn_ack (tcp_seq_num synack)))" by (intro keeps_intros)
  have inv': "net_inv (put_tcp c i ?t)" by (rule keepsD_eq [OF k inv ack])
  have "receive_tcp_packet synack sip c = receive_tcp_syn_sent i synack c"
    using receive_tcp_packet_run [OF inv _ conn(2), of synack sip] tcp_socket_by_connection [OF inv conn(1,2)] sa conn(3) by simp
  also have "\<dots> = (Ok (Some ack), put_tcp c i ?t)"
    using sa a(1) on_tcp_gets [OF inv' tcp_at_put [OF conn(2)], of "\<lambda>t. (sock_seq_num t, sock_next_recv_seq t)"]
    by (simp add: receive_tcp_syn_sent_def bind_act_def ack reply_tcp_def)
  finally show thesis using that a flags_of_new [OF fl] by (simp add: flags_defs)
qed

lemma spawn_child_at:
  "tcp_at (s\<lparr>socket_table := spawn_child p ra (socket_table s)\<rparr>) (next_socket_id (socket_table s)) (tcp_dst_port p)
     \<lparr>sock_state = SynReceived, sock_src_port = Some (tcp_dst_port p), sock_dst_ipv4_addr = Some ra,
      sock_dst_port = Some (tcp_src_port p), sock_seq_num = 1, sock_next_recv_seq = tcp_seq_num p + 1, sock_buf = []\<rparr>"
  by (simp add: tcp_at_def spawn_child_def child_socket_def)

lemma spawn_child_found:
  assumes "table_inv st" and "find_tcp_socket_by_port_and_addr (tcp_dst_port p) ra (tcp_src_port p) st = None"
  shows "find_tcp_socket_by_port_and_addr (tcp_dst_port p) ra (tcp_src_port p) (spawn_child p ra st) = Some (next_socket_id st)"
proof -
  let ?conn = "is_connection (tcp_dst_port p) ra (tcp_src_port p)"
  have others: "\<not> ?conn s" if "bt_get (table st) j = Some s" for j s
    using find_connection_least [OF assms(1), of "tcp_dst_port p" ra "tcp_src_port p"] assms(2) that by simp
  have child: "?conn (child_socket p ra)" by (simp add: is_connection_def child_socket_def)
  have get: "bt_get (table (spawn_child p ra st)) j =
      (if j = next_socket_id st then Some (child_socket p ra) else bt_get (table st) j)" for j
    by (simp add: spawn_child_def)
  show ?thesis
    using find_connection_least [OF table_inv_spawn [OF assms(1), of p ra], of "tcp_dst_port p" ra "tcp_src_port p"] others child
    by (auto simp: get split: option.splits if_splits)
qed

lemma handshake_ack:
  assumes inv: "net_inv s" and conn: "find_tcp_socket_by_port_and_addr sp cip cp (socket_table s) = Some j" "tcp_at s j sp u"
      "sock_state u = SynReceived"
    and ack: "flags_ack ack" "tcp_src_port ack = cp" "tcp_dst_port ack = sp"
  shows "receive_tcp_packet ack cip s = (Ok None, put_tcp s j (u\<lparr>sock_state := Established\<rparr>))"
proof -
  have "on_tcp j receive_ack s = (Ok (), put_tcp s j (u\<lparr>sock_state := Established\<rparr>))"
    using conn(3) by (simp add: on_tcp_run [OF conn(2)] receive_ack_def)
  then show ?thesis
    using receive_tcp_packet_run [OF inv _ conn(2), of ack cip] tcp_socket_by_connection [OF inv conn(1,2)] ack conn(3)
    by simp
qed

lemma accept_established:
  assumes inv: "net_inv s" and listener: "tcp_at s l sp lt" "sock_state lt = Listen"
    and conn: "tcp_at s j sp u" "sock_state u = Established"
  shows "\<exists>k. accept_tcp_v4 l s = (Ok k, s) \<and> k \<le> j"
proof -
  obtain so where so: "bt_get (table (socket_table s)) j = Some so" "is_established sp so"
    using conn by (auto simp: tcp_at_def is_established_def)
  have bt: "bt_inv (table (socket_table s))" using inv table_invD(1) by (simp add: net_inv_def)
  note port = so_port_run [OF inv listener(1)]
  obtain k v where k: "find (\<lambda>(_, s). is_established sp s) (table (socket_table s)) = Some (k, v)"
    using bt.find_none [OF bt, of "\<lambda>_. is_established sp"] so by (metis option.exhaust surj_pair)
  then have "k \<le> j" using bt.find_least [OF bt, of "\<lambda>_. is_established sp"] so by blast
  then show ?thesis
    using k on_tcp_gets [OF inv listener(1), of sock_state] listener(2) port
    by (simp add: accept_tcp_v4_def bind_act_def) (simp add: with_table_def find_tcp_established_socket_def)
qed


text \<open>A server that listens on port 80 and a client that connects to it.\<close>

definition demo_listener :: TcpSocket where
  "demo_listener = tcp_socket_new\<lparr>sock_state := Listen, sock_src_port := Some 80\<rparr>"

definition demo_server :: net where
  "demo_server = boot_net\<lparr>socket_table :=
     \<lparr>table = [(4096, \<lparr>so_port = 80, so_addr = None, so_inner = InnerTcp demo_listener, so_kind = Stream\<rparr>)],
      udp_port_socket_id_map = [], tcp_port_socket_id_map = [(80, 4096)], next_socket_id = 4097\<rparr>\<rparr>"

definition demo_connecting :: TcpSocket where
  "demo_connecting = tcp_socket_new\<lparr>sock_state := SynSent, sock_dst_ipv4_addr := Some LOCAL_ADDR, sock_dst_port := Some 80\<rparr>"

definition demo_client :: net where
  "demo_client = boot_net\<lparr>socket_table :=
     \<lparr>table = [(4096, \<lparr>so_port = 49152, so_addr = None, so_inner = InnerTcp demo_connecting, so_kind = Stream\<rparr>)],
      udp_port_socket_id_map = [], tcp_port_socket_id_map = [(49152, 4096)], next_socket_id = 4097\<rparr>\<rparr>"

lemmas demo_defs = demo_listener_def demo_server_def demo_connecting_def demo_client_def boot_net_def network_new_def
  NetworkManager.defs tcp_socket_new_def

lemma demo_server_inv: "net_inv demo_server" and demo_client_inv: "net_inv demo_client"
  by (simp_all add: net_inv_def demo_defs table_inv_def bt_inv_Cons socket_ok_def tcp_ok_def tcp_socket_inv_def)


subsection \<open>Sending a segment\<close>

lemma tcp_calc_checksum_fields:
  "tcp_calc_checksum_with_ipv4 src dst p = Ok p' \<Longrightarrow> \<exists>c. p' = p\<lparr>tcp_checksum := c\<rparr>"
  by (auto simp: tcp_calc_checksum_with_ipv4_def Let_def map_ok_Ok_iff)

lemma tcp_wf_checksum [simp]: "tcp_wf (p\<lparr>tcp_checksum := c\<rparr>) = tcp_wf p"
  by (simp add: tcp_wf_def flags_header_len_def)

text \<open>The send of a packet to a resolved next hop: one frame, whose payload decodes to the packet.\<close>

lemma send_tcp_run:
  assumes wf: "tcp_wf p" and len: "length (tcp_to_vec p) \<le> 65515"
    and arp: "bt_get (arp_table s) (target_ip (my_ipv4_addr s) dst) = Some (Some mac, when)"
    and drv: "nm_mac_addr s = Some my" "\<not> rtl8139_locked s"
  obtains f q p' where "send_tcp dst (Ok p) s = (Ok (), s\<lparr>tx_queue := tx_queue s @ [f]\<rparr>)"
    "dst_mac_addr f = mac" "src_mac_addr f = my" "eth_payload f = Ok (EpIpv4 q)"
    "ip_wf q" "src_addr q = my_ipv4_addr s" "dst_addr q = dst" "ip_payload q = Ok (IpTcp p')"
    "p'\<lparr>tcp_checksum := tcp_checksum p\<rparr> = p" "tcp_verify_checksum_with_ipv4 (my_ipv4_addr s) dst p' = Ok True"
proof -
  obtain p' where p': "tcp_calc_checksum_with_ipv4 (my_ipv4_addr s) dst p = Ok p'" "p'\<lparr>tcp_checksum := tcp_checksum p\<rparr> = p"
    "tcp_verify_checksum_with_ipv4 (my_ipv4_addr s) dst p' = Ok True"
  proof -
    have "length (tcp_to_vec p) \<le> 65535" using len by simp
    from tcp_calc_checksum_Ok [OF this] show thesis using that by blast
  qed
  obtain c where c: "p' = p\<lparr>tcp_checksum := c\<rparr>" using tcp_calc_checksum_fields [OF p'(1)] by blast
  have len': "length (tcp_to_vec p') \<le> 65515" and wf': "tcp_wf p'" using len wf by (simp_all add: c tcp_to_vec_def)
  obtain q where q: "ip_new_with 0x45 0 0 0 PTcp (my_ipv4_addr s) dst (IpTcp p') = Ok q" "version_ihl q = 0x45"
    "ip_protocol q = PTcp" "src_addr q = my_ipv4_addr s" "dst_addr q = dst" "ip_data q = tcp_to_vec p'"
    using ip_new_with_Ok [of "IpTcp p'"] len' by fastforce
  let ?q = "ip_calc_checksum q"
  have "ip_wf q" using ip_wf_new_with [OF q(1)] len' by (simp add: ihl_bytes_def)
  moreover from this have "eth_payload (eth_new_with mac my EtIpv4 (ip_to_vec ?q)) = Ok (EpIpv4 ?q)"
    using ip.roundtrip [of ?q] by (simp add: eth_payload_def eth_new_with_def)
  moreover have "ip_payload q = Ok (IpTcp p')" using q wf' by (simp add: ip_payload_def tcp_decode_encode)
  moreover have "send_tcp dst (Ok p) s =
      (Ok (), s\<lparr>tx_queue := tx_queue s @ [eth_new_with mac my EtIpv4 (ip_to_vec ?q)]\<rparr>)"
    using p'(1) q(1) arp drv
    by (simp add: send_tcp_def bind_act_def make_ipv4_def send_ipv4_def resolve_mac_addr_def send_eth_payload_def
        my_mac_addr_def push_eth_frame_to_tx_queue_def)
  ultimately show thesis
    using that [of "eth_new_with mac my EtIpv4 (ip_to_vec ?q)" ?q p'] p' q by (simp add: eth_new_with_def)
qed

lemma tcp_at_tx_queue [simp]: "tcp_at (s\<lparr>tx_queue := q\<rparr>) i port t = tcp_at s i port t"
  by (simp add: tcp_at_def)

text \<open>C36: Sending data on an established connection whose next hop is resolved queues exactly one
  frame, addressed to the next hop, and advances the sequence number by the length of the data. The frame's
  payload decodes to a well-formed IPv4 packet from this host to the peer that carries the data, with the
  ports of the connection, the sequence number from before, the acknowledgement of everything received and a
  checksum that verifies.\<close>

theorem send_tcp_packet_on_the_wire:
  assumes "net_inv s" and "tcp_at s i port t" and "sock_state t = Established"
    and "sock_dst_ipv4_addr t = Some dst" and "sock_dst_port t = Some dp"
    and "bt_get (arp_table s) (target_ip (my_ipv4_addr s) dst) = Some (Some mac, when)"
    and "nm_mac_addr s = Some my" and "\<not> rtl8139_locked s" and "length bs \<le> 65455" and "bs \<noteq> []"
  shows "\<exists>s' f q p. send_tcp_packet i bs s = (Ok (), s') \<and> tx_queue s' = tx_queue s @ [f] \<and>
    tcp_at s' i port (t\<lparr>sock_seq_num := sock_seq_num t + of_nat (length bs)\<rparr>) \<and>
    dst_mac_addr f = mac \<and> eth_payload f = Ok (EpIpv4 q) \<and> ip_wf q \<and>
    src_addr q = my_ipv4_addr s \<and> dst_addr q = dst \<and> ip_payload q = Ok (IpTcp p) \<and>
    tcp_src_port p = port \<and> tcp_dst_port p = dp \<and> tcp_data p = bs \<and>
    tcp_seq_num p = sock_seq_num t \<and> tcp_ack_num p = sock_next_recv_seq t \<and> flags_ack p \<and>
    tcp_verify_checksum_with_ipv4 (my_ipv4_addr s) dst p = Ok True"
proof -
  obtain p where p: "tcp_new_with port dp (sock_seq_num t) (sock_next_recv_seq t) (FLAGS_ACK OR FLAGS_PSH) 0xffff 0 [] bs = Ok p"
    "tcp_wf p" "tcp_src_port p = port" "tcp_dst_port p = dp" "tcp_seq_num p = sock_seq_num t"
    "tcp_ack_num p = sock_next_recv_seq t" "tcp_data p = bs" "length (tcp_options p) \<le> 40"
    and fl: "tcp_flags p AND 0x0fff = (FLAGS_ACK OR FLAGS_PSH) AND 0x0fff"
    by (rule tcp_new_with_Ok [where options = "[]" and src = port and dst = dp and seq = "sock_seq_num t"
          and ack = "sock_next_recv_seq t" and f = "FLAGS_ACK OR FLAGS_PSH" and window = "0xffff" and urgent = 0 and bs = bs]) auto
  have len: "length (tcp_to_vec p) \<le> 65515" using p(7,8) assms(9) by (simp add: tcp_to_vec_def)
  obtain f q p' where sent: "send_tcp dst (Ok p) s = (Ok (), s\<lparr>tx_queue := tx_queue s @ [f]\<rparr>)"
    and f: "dst_mac_addr f = mac" "eth_payload f = Ok (EpIpv4 q)"
    "ip_wf q" "src_addr q = my_ipv4_addr s" "dst_addr q = dst" "ip_payload q = Ok (IpTcp p')"
    "p'\<lparr>tcp_checksum := tcp_checksum p\<rparr> = p" "tcp_verify_checksum_with_ipv4 (my_ipv4_addr s) dst p' = Ok True"
    by (rule send_tcp_run [OF p(2) len assms(6-8)])
  have same: "tcp_src_port p' = tcp_src_port p" "tcp_dst_port p' = tcp_dst_port p" "tcp_data p' = tcp_data p"
    "tcp_seq_num p' = tcp_seq_num p" "tcp_ack_num p' = tcp_ack_num p" "tcp_flags p' = tcp_flags p"
    using f(7) by (metis TcpPacket.select_convs TcpPacket.surjective TcpPacket.update_convs(7))+
  let ?s = "put_tcp (s\<lparr>tx_queue := tx_queue s @ [f]\<rparr>) i (t\<lparr>sock_seq_num := sock_seq_num t + of_nat (length bs)\<rparr>)"
  have at: "tcp_at (s\<lparr>tx_queue := tx_queue s @ [f]\<rparr>) i port t" using assms(2) by simp
  have "send_tcp_packet i bs s = (Ok (), ?s)"
    using assms(3-5,10) p(1) sent on_tcp_run [OF at, of "add_seq_num (of_nat (length bs))"]
      on_tcp_read [OF assms(1,2), of "\<lambda>t. if sock_state t \<noteq> Established then err_ctx InvalidData ''socket state'' else peer_of t"]
    by (simp add: send_tcp_packet_def bind_act_def so_port_run [OF assms(1,2)] peer_of_def add_seq_num_def)
  moreover have "tx_queue ?s = tx_queue s @ [f]" by (simp add: put_tcp_def split: option.split)
  moreover have "flags_ack p'" using flags_of_new(2) [of p' "FLAGS_ACK OR FLAGS_PSH"] fl same(6)
    by (simp add: flags_defs)
  ultimately show ?thesis using f same p tcp_at_put [OF at] by (intro exI [of _ ?s] exI [of _ f] exI [of _ q] exI [of _ p']) simp
qed

definition demo_connected :: TcpSocket where
  "demo_connected = demo_connecting\<lparr>sock_state := Established, sock_seq_num := 1, sock_next_recv_seq := 1, sock_buf := [5, 6, 7]\<rparr>"

definition demo_peer :: net where
  "demo_peer = boot_net\<lparr>nm_mac_addr := Some (EthernetAddress 1 2 3 4 5 6),
     arp_table := [(LOCAL_ADDR, (Some (EthernetAddress 6 5 4 3 2 1), 0))], socket_table :=
     \<lparr>table = [(4096, \<lparr>so_port = 49152, so_addr = None, so_inner = InnerTcp demo_connected, so_kind = Stream\<rparr>)],
      udp_port_socket_id_map = [], tcp_port_socket_id_map = [(49152, 4096)], next_socket_id = 4097\<rparr>\<rparr>"

lemma demo_peer_inv: "net_inv demo_peer"
  by (simp add: net_inv_def demo_defs demo_connected_def demo_peer_def table_inv_def bt_inv_Cons socket_ok_def tcp_ok_def
      tcp_socket_inv_def)

lemma demo_peer_at: "tcp_at demo_peer 4096 49152 demo_connected"
  by (simp add: demo_peer_def tcp_at_def)

theorem send_tcp_packet_on_the_wire_witness:
  "\<exists>s' f q p. send_tcp_packet 4096 [1, 2, 3] demo_peer = (Ok (), s') \<and> tx_queue s' = [f] \<and>
     eth_payload f = Ok (EpIpv4 q) \<and> ip_payload q = Ok (IpTcp p) \<and> tcp_data p = [1, 2, 3]"
proof -
  have "target_ip (my_ipv4_addr demo_peer) LOCAL_ADDR = LOCAL_ADDR"
    by (simp add: demo_peer_def demo_defs target_ip_def list_all_iff)
  then have "bt_get (arp_table demo_peer) (target_ip (my_ipv4_addr demo_peer) LOCAL_ADDR) =
      Some (Some (EthernetAddress 6 5 4 3 2 1), 0)"
    by (simp add: demo_peer_def)
  from send_tcp_packet_on_the_wire [OF demo_peer_inv demo_peer_at _ _ _ this, where dp = 80 and bs = "[1, 2, 3]"]
  show ?thesis by (auto simp: demo_connected_def demo_peer_def demo_defs)
qed

subsection \<open>Receiving data, reading and closing\<close>

text \<open>A segment that arrives at an established connection in order is appended to the socket's
  buffer and acknowledged up to its last byte; one out of order changes nothing and is answered with the
  acknowledgement of what is still expected.\<close>

theorem receive_tcp_data:
  assumes "net_inv s" and "tcp_at s i port t" and "sock_state t = Established"
    and "find_tcp_socket_by_port_and_addr port ra (tcp_src_port p) (socket_table s) = Some i"
    and "tcp_dst_port p = port" and "tcp_data p \<noteq> []" and "\<not> flags_fin p"
  shows "\<exists>s' ack t'. receive_tcp_packet p ra s = (Ok (Some ack), s') \<and> tcp_at s' i port t' \<and>
    flags_ack ack \<and> tcp_ack_num ack = sock_next_recv_seq t' \<and> tcp_seq_num ack = sock_seq_num t \<and>
    t' = (if tcp_seq_num p = sock_next_recv_seq t
          then t\<lparr>sock_buf := sock_buf t @ tcp_data p, sock_next_recv_seq := sock_next_recv_seq t + of_nat (length (tcp_data p))\<rparr>
          else t)"
proof -
  define t' where "t' = snd (receive_data (tcp_data p) (tcp_seq_num p) t)"
  have t': "t' = (if tcp_seq_num p = sock_next_recv_seq t
      then t\<lparr>sock_buf := sock_buf t @ tcp_data p, sock_next_recv_seq := sock_next_recv_seq t + of_nat (length (tcp_data p))\<rparr>
      else t)" "fst (receive_data (tcp_data p) (tcp_seq_num p) t) = Ok ()"
    using assms(3,6) by (auto simp: t'_def receive_data_def)
  have "receive_ack t = (Ok (), t)" using assms(3) by (cases t) (simp add: receive_ack_def)
  then have ack: "on_tcp i receive_ack s = (Ok (), s)"
    using put_tcp_same [OF assms(1,2)] by (simp add: on_tcp_run [OF assms(2)])
  have data: "on_tcp i (receive_data (tcp_data p) (tcp_seq_num p)) s = (Ok (), put_tcp s i t')"
    using t'(2) by (simp add: on_tcp_run [OF assms(2)] t'_def)
  have k: "keeps net_inv (on_tcp i (receive_data (tcp_data p) (tcp_seq_num p)))" by (intro keeps_intros)
  have inv': "net_inv (put_tcp s i t')" by (rule keepsD_eq [OF k assms(1) data])
  have nums: "on_tcp i (gets (\<lambda>t. (sock_seq_num t, sock_next_recv_seq t))) (put_tcp s i t') =
      (Ok (sock_seq_num t', sock_next_recv_seq t'), put_tcp s i t')"
    by (rule on_tcp_gets [OF inv' tcp_at_put [OF assms(2)]])
  obtain a where a: "tcp_new_with port (tcp_src_port p) (sock_seq_num t') (sock_next_recv_seq t') FLAGS_ACK 0xffff 0 [] [] = Ok a"
    "tcp_seq_num a = sock_seq_num t'" "tcp_ack_num a = sock_next_recv_seq t'"
    and fl: "tcp_flags a AND 0x0fff = FLAGS_ACK AND 0x0fff"
    by (rule tcp_new_with_Ok [where options = "[]" and src = port and dst = "tcp_src_port p" and seq = "sock_seq_num t'"
          and ack = "sock_next_recv_seq t'" and f = FLAGS_ACK and window = "0xffff" and urgent = 0 and bs = "[]"]) auto
  have "receive_tcp_packet p ra s = receive_tcp_established i p s"
    using receive_tcp_packet_run [OF assms(1) _ assms(2), of p ra] tcp_socket_by_connection [OF assms(1,4,2)] assms(3,5) by simp
  also have "\<dots> = (Ok (Some a), put_tcp s i t')"
    using assms(5-7) a(1) ack data nums by (simp add: receive_tcp_established_def bind_act_def reply_tcp_def)
  moreover have "flags_ack a" using flags_of_new(2) [OF fl] by (simp add: flags_defs)
  moreover have "sock_seq_num t' = sock_seq_num t" by (simp add: t'(1))
  ultimately show ?thesis using a tcp_at_put [OF assms(2), of t'] t'(1)
    by (intro exI [of _ "put_tcp s i t'"] exI [of _ a] exI [of _ t']) simp
qed

theorem receive_tcp_data_witness:
  "\<exists>s' ack t'. receive_tcp_packet
      \<lparr>tcp_src_port = 80, tcp_dst_port = 49152, tcp_seq_num = 1, tcp_ack_num = 1, tcp_flags = 0x5018,
       tcp_window_size = 0xffff, tcp_checksum = 0, tcp_urgent_ptr = 0, tcp_options = [], tcp_data = [8, 9]\<rparr>
      LOCAL_ADDR demo_peer = (Ok (Some ack), s') \<and> tcp_at s' 4096 49152 t' \<and> sock_buf t' = [5, 6, 7, 8, 9] \<and> tcp_ack_num ack = 3"
proof -
  let ?p = "\<lparr>tcp_src_port = 80, tcp_dst_port = 49152, tcp_seq_num = 1, tcp_ack_num = 1, tcp_flags = 0x5018,
       tcp_window_size = 0xffff, tcp_checksum = 0, tcp_urgent_ptr = 0, tcp_options = [], tcp_data = [8, 9]\<rparr>"
  have conn: "find_tcp_socket_by_port_and_addr 49152 LOCAL_ADDR (tcp_src_port ?p) (socket_table demo_peer) = Some 4096"
    by (simp add: demo_peer_def demo_connected_def demo_defs find_tcp_socket_by_port_and_addr_def is_connection_def)
  have st: "sock_state demo_connected = Established" by (simp add: demo_connected_def)
  have "\<not> flags_fin ?p" by (simp add: flags_fin_def FLAGS_FIN_def)
  with receive_tcp_data [OF demo_peer_inv demo_peer_at st conn] show ?thesis
    by (fastforce simp: demo_connected_def demo_connecting_def tcp_socket_new_def)
qed

text \<open>A read from a TCP socket empties its buffer whatever the size of the caller's: the bytes
  beyond that size are lost, and the next read returns nothing.\<close>

theorem recv_tcp_loses_the_rest:
  assumes "net_inv s" and "tcp_at s i port t" and "sock_state t = Established"
  shows "\<exists>s'. recv_tcp_packet i n s = (Ok (take n (sock_buf t)), s') \<and>
    recv_tcp_packet i m s' = (Ok [], s')"
proof -
  let ?m = "\<lambda>n. bind_act (gets sock_state) (\<lambda>state.
       if state \<notin> {Established, FinWait1, FinWait2, CloseWait, TimeWait, LastAck, Closing}
       then fail (with_context InvalidData ''socket state'')
       else bind_act reset_buf (\<lambda>bs. if bs = [] then return_act [] else return_act (take (min n (length bs)) bs)))"
  have run: "?m n u = (Ok (take n (sock_buf u)), u\<lparr>sock_buf := []\<rparr>)" if "sock_state u = Established" for n u
    using that by (simp add: bind_act_def reset_buf_def min_def)
  let ?t = "t\<lparr>sock_buf := []\<rparr>"
  have first: "recv_tcp_packet i n s = (Ok (take n (sock_buf t)), put_tcp s i ?t)"
    unfolding recv_tcp_packet_def on_tcp_run [OF assms(2)] run [OF assms(3)] by simp
  have inv': "net_inv (put_tcp s i ?t)"
    by (rule keepsD_eq [OF keeps_socket_ops(9) assms(1) first])
  have "recv_tcp_packet i m (put_tcp s i ?t) = (Ok [], put_tcp (put_tcp s i ?t) i (?t\<lparr>sock_buf := []\<rparr>))"
    unfolding recv_tcp_packet_def on_tcp_run [OF tcp_at_put [OF assms(2)]] using run [of ?t m] assms(3) by simp
  then show ?thesis using first put_tcp_same [OF inv' tcp_at_put [OF assms(2)]] by auto
qed

theorem recv_tcp_loses_the_rest_witness:
  "\<exists>s'. recv_tcp_packet 4096 2 demo_peer = (Ok [5, 6], s') \<and> recv_tcp_packet 4096 2 s' = (Ok [], s')"
  using recv_tcp_loses_the_rest [OF demo_peer_inv demo_peer_at, of 2 2] by (simp add: demo_connected_def)

text \<open>Closing an accepted connection unregisters the port of the listener it came from: the
  listener is still in the table, bound and listening, but its port no longer leads to it.\<close>

theorem close_connection_unregisters_listener:
  assumes "table_inv st" and "bt_get (tcp_port_socket_id_map st) p = Some l"
    and "bt_get (table st) j = Some s" and "so_kind s = Stream" and "so_port s = p" and "j \<noteq> l"
  shows "\<exists>st'. remove_socket j st = (Ok (), st') \<and>
    bt_get (table st') l = bt_get (table st) l \<and> bt_get (table st) l \<noteq> None \<and>
    socket_id_by_port_and_type p Stream st' = (err_ctx NotFound ''port'', st')"
  using assms table_invD(1,2) [OF assms(1)] table_invD(6) [OF assms(1,2)]
  by (auto simp: remove_socket_def socket_id_by_port_and_type_def Let_def)

theorem close_connection_unregisters_listener_witness:
  "\<exists>st'. remove_socket 4097 (spawn_child
      \<lparr>tcp_src_port = 49152, tcp_dst_port = 80, tcp_seq_num = 0, tcp_ack_num = 0, tcp_flags = 0x5002,
       tcp_window_size = 0xffff, tcp_checksum = 0, tcp_urgent_ptr = 0, tcp_options = [], tcp_data = []\<rparr>
      GATEWAY_ADDR (socket_table demo_server)) = (Ok (), st') \<and>
     socket_id_by_port_and_type 80 Stream st' = (err_ctx NotFound ''port'', st')"
proof -
  let ?syn = "\<lparr>tcp_src_port = 49152, tcp_dst_port = 80, tcp_seq_num = 0, tcp_ack_num = 0, tcp_flags = 0x5002,
       tcp_window_size = 0xffff, tcp_checksum = 0, tcp_urgent_ptr = 0, tcp_options = [], tcp_data = []\<rparr>"
  let ?st = "spawn_child ?syn GATEWAY_ADDR (socket_table demo_server)"
  have inv: "table_inv ?st" using demo_server_inv table_inv_spawn by (simp add: net_inv_def)
  have "bt_get (tcp_port_socket_id_map ?st) 80 = Some 4096"
    "bt_get (table ?st) 4097 = Some (child_socket ?syn GATEWAY_ADDR)"
    by (simp_all add: spawn_child_def demo_server_def)
  from close_connection_unregisters_listener [OF inv this] show ?thesis by (auto simp: child_socket_def)
qed

end
