(* ===== verification/Vfs.thy ===== *)
theory Vfs
  imports Path BTree_Map
begin

text \<open>
  The virtual file system, kernel/src/fs/vfs.rs: a tree of directories, files and device files kept in a
  map from file ids, a table of open file descriptors, pipes, and file systems mounted on directories.

  What lies behind the table is a parameter: the type \<open>'w\<close> is the state of the devices and of the mounted
  file systems, a trait object \<open>dyn FileSystem\<close> is the record of its methods and a device file the record
  of its driver's functions. They return a \<open>Result\<close>, here \<open>kerror + 'a\<close>. Reading methods of a mounted file system do not
  change \<open>'w\<close>; \<open>write_file\<close> and the driver functions may. The record \<open>VirtualFileSystem\<close> is the struct; \<open>vfs\<close>
  adds the two static counters and \<open>'w\<close>. The structure is locked for each method, so a method is one step.
  Logging is left out, and so is the exhaustion of the heap, but not a vector longer than \<open>isize::MAX\<close>.
\<close>

type_synonym VfsFileId = nat
type_synonym FileDescriptorNumber = nat

record DeviceDriverInfo =
  driver_name :: string
  attached :: bool

record 'w DeviceFileDescriptor =
  device_driver_info :: "'w \<Rightarrow> kerror + DeviceDriverInfo"
  dev_open :: "'w \<Rightarrow> (kerror + unit) \<times> 'w"
  dev_close :: "'w \<Rightarrow> (kerror + unit) \<times> 'w"
  dev_read :: "nat \<Rightarrow> nat \<Rightarrow> 'w \<Rightarrow> (kerror + u8 list) \<times> 'w"
  dev_write :: "u8 list \<Rightarrow> 'w \<Rightarrow> (kerror + unit) \<times> 'w"

datatype 'w ReadOutcome = ReadData "u8 list" | ReadDevice "'w DeviceFileDescriptor" nat

datatype 'w WriteOutcome = WriteDone | WriteDevice "'w DeviceFileDescriptor"

record PipeBuffer =
  pipe_bytes :: "u8 list"
  write_closed :: bool

definition pipe_default :: PipeBuffer where
  "pipe_default = \<lparr>pipe_bytes = [], write_closed = False\<rparr>"

datatype PipeEnd = ReadEnd | WriteEnd

datatype FileBacking = BackVfs VfsFileId | BackFs VfsFileId path

datatype SeekFrom = SeekStart int | SeekCurrent int | SeekEnd int

record FileDescriptor =
  fd_num :: FileDescriptorNumber
  fd_backing :: FileBacking
  fd_offset :: nat
  fd_pipe_end :: "PipeEnd option"
  fd_cache :: "u8 list option"

datatype 'w VfsFileType =
    is_VirtualFile: VirtualFile
  | is_DeviceFile: DeviceFile (device_of: "'w DeviceFileDescriptor")
  | is_Pipe: Pipe
  | is_Directory: Directory

datatype FsFileType = FsFile | FsDirectory

record FsMetaData =
  meta_type :: FsFileType
  meta_size :: nat

record 'w FileSystem =
  fs_read_entry_names :: "'w \<Rightarrow> path \<Rightarrow> kerror + string list"
  fs_read_file :: "'w \<Rightarrow> path \<Rightarrow> nat \<Rightarrow> nat \<Rightarrow> kerror + u8 list"
  fs_write_file :: "path \<Rightarrow> nat \<Rightarrow> u8 list \<Rightarrow> 'w \<Rightarrow> (kerror + unit) \<times> 'w"
  fs_metadata :: "'w \<Rightarrow> path \<Rightarrow> kerror + FsMetaData"

record 'w FileInfo =
  f_ty :: "'w VfsFileType"
  f_name :: string
  f_fs :: "'w FileSystem option"
  f_parent :: VfsFileId
  f_children :: "VfsFileId list"
  f_buf :: "u8 list option"
  f_pipe :: "PipeBuffer option"

record 'w VirtualFileSystem =
  cwd_path :: "path option"
  root_id :: "VfsFileId option"
  files :: "(VfsFileId, 'w FileInfo) btree"
  fds :: "FileDescriptor list"

record 'w vfs = "'w VirtualFileSystem" +
  next_file_id :: nat
  next_fd :: nat
  world :: 'w

abbreviation vfs_err :: "VirtualFileSystemError \<Rightarrow> 'a outcome" where
  "vfs_err e \<equiv> err (VfsError e)"

abbreviation USIZE_MAX :: nat where "USIZE_MAX \<equiv> 18446744073709551615"
abbreviation ISIZE_MAX :: nat where "ISIZE_MAX \<equiv> 9223372036854775807"

text \<open>A \<open>Result\<close> of foreign code, and \<open>Option::ok_or\<close> with an error of this module.\<close>

fun of_result :: "kerror + 'a \<Rightarrow> 'a outcome" where
  "of_result (Inl e) = Err e"
| "of_result (Inr x) = Ok x"

abbreviation ok_or_vfs :: "'a option \<Rightarrow> VirtualFileSystemError \<Rightarrow> 'a outcome" where
  "ok_or_vfs x e \<equiv> ok_or x (from_error (VfsError e))"

subsection \<open>Ids, numbers and nodes\<close>

text \<open>\<open>fetch_add\<close> on an \<open>AtomicUsize\<close> wraps around.\<close>

definition file_id_new :: "('w vfs, VfsFileId) act" where
  "file_id_new = (\<lambda>v. (Ok (next_file_id v), v\<lparr>next_file_id := (next_file_id v + 1) mod 2 ^ 64\<rparr>))"

definition fd_number_new :: "('w vfs, FileDescriptorNumber) act" where
  "fd_number_new = (\<lambda>v. (Ok (next_fd v), v\<lparr>next_fd := (next_fd v + 1) mod 2 ^ 64\<rparr>))"

definition fd_number_try_new :: "int \<Rightarrow> FileDescriptorNumber outcome" where
  "fd_number_try_new n = (if n < 0 then vfs_err InvalidFileDescriptorNumber else Ok (nat n))"

definition file_info_new :: "'w VfsFileType \<Rightarrow> string \<Rightarrow> VfsFileId \<Rightarrow> 'w FileInfo" where
  "file_info_new t nm p = \<lparr>f_ty = t, f_name = nm, f_fs = None, f_parent = p, f_children = [],
     f_buf = None, f_pipe = None\<rparr>"

definition check_integrity :: "'w FileInfo \<Rightarrow> unit outcome" where
  "check_integrity f =
     (if \<not> is_Directory (f_ty f) \<and> (f_children f \<noteq> [] \<or> \<not> Option.is_none (f_fs f))
      then vfs_err (NotDirectory None)
      else if f_name f = [] \<or> f_name f \<in> set [CURRENT_DIR, PARENT_DIR]
      then vfs_err InvalidFileName
      else Ok ())"

subsection \<open>Resolving paths\<close>

datatype 'w Resolved = ResVfs VfsFileId "'w FileInfo" | ResFs VfsFileId "'w FileSystem" path FsMetaData

fun fs_file_type_as_vfs :: "FsFileType \<Rightarrow> 'w VfsFileType" where
  "fs_file_type_as_vfs FsDirectory = Directory"
| "fs_file_type_as_vfs FsFile = VirtualFile"

fun resolved_type :: "'w Resolved \<Rightarrow> 'w VfsFileType" where
  "resolved_type (ResVfs i f) = f_ty f"
| "resolved_type (ResFs m fs p md) = fs_file_type_as_vfs (meta_type md)"

fun resolved_backing :: "'w Resolved \<Rightarrow> FileBacking" where
  "resolved_backing (ResVfs i f) = BackVfs i"
| "resolved_backing (ResFs m fs p md) = BackFs m p"

definition resolve_mount :: "'w \<Rightarrow> VfsFileId \<Rightarrow> 'w FileSystem \<Rightarrow> path \<Rightarrow> 'w Resolved option" where
  "resolve_mount w m fs rel =
     (if rel = ROOT then Some (ResFs m fs rel \<lparr>meta_type = FsDirectory, meta_size = 0\<rparr>)
      else (case fs_metadata fs w rel of Inl e \<Rightarrow> None | Inr md \<Rightarrow> Some (ResFs m fs rel md)))"

definition find_file :: "'w vfs \<Rightarrow> VfsFileId \<Rightarrow> 'w FileInfo option" where
  "find_file v i = bt_get (files v) i"

text \<open>Writing through \<open>find_file_mut\<close>: the entry of the map is replaced, if there is one.\<close>

definition upd_file :: "VfsFileId \<Rightarrow> ('w FileInfo \<Rightarrow> 'w FileInfo) \<Rightarrow> 'w vfs \<Rightarrow> 'w vfs" where
  "upd_file i g v = (case find_file v i of None \<Rightarrow> v | Some f \<Rightarrow> v\<lparr>files := bt_insert i (g f) (files v)\<rparr>)"

definition absolutize :: "'w vfs \<Rightarrow> path \<Rightarrow> path option" where
  "absolutize v p =
     (if is_abs p then Some (normalize p) else map_option (\<lambda>c. path_join c p) (cwd_path v))"

fun find_child :: "'w vfs \<Rightarrow> VfsFileId list \<Rightarrow> string \<Rightarrow> (VfsFileId \<times> 'w FileInfo) option" where
  "find_child v [] nm = None"
| "find_child v (c # cs) nm =
     (case find_file v c of
        None \<Rightarrow> None
      | Some f \<Rightarrow> if f_name f = nm then Some (c, f) else find_child v cs nm)"

fun resolve_names :: "'w vfs \<Rightarrow> VfsFileId \<Rightarrow> 'w FileInfo \<Rightarrow> string list \<Rightarrow> 'w Resolved option" where
  "resolve_names v i f [] =
     (case f_fs f of Some fs \<Rightarrow> resolve_mount (world v) i fs root | None \<Rightarrow> Some (ResVfs i f))"
| "resolve_names v i f (n # ns) =
     (case f_fs f of
        Some fs \<Rightarrow> resolve_mount (world v) i fs (ROOT @ join_with [SEPARATOR] (n # ns))
      | None \<Rightarrow>
          (case find_child v (f_children f) n of
             None \<Rightarrow> None
           | Some (c, g) \<Rightarrow> resolve_names v c g ns))"

definition find_file_by_path :: "'w vfs \<Rightarrow> path \<Rightarrow> 'w Resolved option" where
  "find_file_by_path v p =
     Option.bind (absolutize v p) (\<lambda>abs_path.
     Option.bind (root_id v) (\<lambda>r.
     Option.bind (find_file v r) (\<lambda>f. resolve_names v r f (names abs_path))))"

definition find_file_by_path_mut :: "'w vfs \<Rightarrow> path \<Rightarrow> (VfsFileId \<times> 'w FileInfo) option" where
  "find_file_by_path_mut v p =
     (case find_file_by_path v p of
        Some (ResVfs i f) \<Rightarrow> map_option (\<lambda>g. (i, g)) (find_file v i)
      | _ \<Rightarrow> None)"

subsection \<open>The directory tree\<close>

definition insert_file :: "VfsFileId \<Rightarrow> 'w FileInfo \<Rightarrow> ('w vfs, unit) act" where
  "insert_file i info =
     bind_act (lift_outcome (check_integrity info)) (\<lambda>_.
     bind_act (modify (\<lambda>v. if i = f_parent info then v\<lparr>root_id := Some i, cwd_path := Some root\<rparr> else v)) (\<lambda>_.
     modify (\<lambda>v. v\<lparr>files := bt_insert i info (files v)\<rparr>)))"

definition entry_names :: "path \<Rightarrow> 'w vfs \<Rightarrow> string list outcome" where
  "entry_names p v =
     and_then (ok_or_vfs (find_file_by_path v p) (NoSuchFileOrDirectory (Some p))) (\<lambda>res.
     if \<not> is_Directory (resolved_type res) then vfs_err (NotDirectory (Some p))
     else
       map_ok (filter (\<lambda>n. n \<noteq> CURRENT_DIR \<and> n \<noteq> PARENT_DIR))
         (case res of
            ResVfs i f \<Rightarrow> Ok (map f_name (List.map_filter (find_file v) (f_children f)))
          | ResFs m fs rel md \<Rightarrow> of_result (fs_read_entry_names fs (world v) rel)))"

definition chdir :: "path \<Rightarrow> ('w vfs, unit) act" where
  "chdir p v =
     (case absolutize v p of
        None \<Rightarrow> (err NotInitialized, v)
      | Some abs_path \<Rightarrow>
          (case find_file_by_path v abs_path of
             None \<Rightarrow> (vfs_err (NoSuchFileOrDirectory (Some p)), v)
           | Some res \<Rightarrow>
               if \<not> is_Directory (resolved_type res) then (vfs_err (NotDirectory (Some p)), v)
               else (Ok (), v\<lparr>cwd_path := Some abs_path\<rparr>)))"

text \<open>\<open>add_file\<close> finds the parent a second time after the insertion and unwraps it.\<close>

definition push_child :: "path \<Rightarrow> VfsFileId \<Rightarrow> ('w vfs, unit) act" where
  "push_child parent_path i v =
     (case find_file_by_path_mut v parent_path of
        None \<Rightarrow> (Panic, v)
      | Some (p, _) \<Rightarrow> (Ok (), upd_file p (\<lambda>f. f\<lparr>f_children := f_children f @ [i]\<rparr>) v))"

definition add_file :: "path \<Rightarrow> 'w VfsFileType \<Rightarrow> ('w vfs, unit) act" where
  "add_file p t v =
     (if Option.is_none (root_id v) then (err NotInitialized, v)
      else
        (case find_file_by_path_mut v (parent p) of
           None \<Rightarrow> (vfs_err (NoSuchFileOrDirectory (Some p)), v)
         | Some (parent_id, parent_ref) \<Rightarrow>
             if \<not> is_Directory (f_ty parent_ref) then (vfs_err (NotDirectory (Some p)), v)
             else if list_ex (\<lambda>i. case find_file v i of None \<Rightarrow> False | Some f \<Rightarrow> f_name f = path_name p)
                       (f_children parent_ref)
             then (vfs_err (FileOrDirectoryAlreadyExists p), v)
             else
               bind_act file_id_new (\<lambda>file_id.
               bind_act (insert_file file_id (file_info_new t (path_name p) parent_id)) (\<lambda>_.
               push_child (parent p) file_id)) v))"

definition mkdir :: "path \<Rightarrow> ('w vfs, unit) act" where
  "mkdir p = add_file p Directory"

definition create_file :: "path \<Rightarrow> ('w vfs, unit) act" where
  "create_file p = add_file p VirtualFile"

definition add_dev_file :: "'w DeviceFileDescriptor \<Rightarrow> string \<Rightarrow> ('w vfs, unit) act" where
  "add_dev_file desc file_name = add_file (path_join (path_join root ''dev'') file_name) (DeviceFile desc)"

definition mount_fs :: "path \<Rightarrow> 'w FileSystem \<Rightarrow> ('w vfs, unit) act" where
  "mount_fs p fs v =
     (case find_file_by_path_mut v p of
        None \<Rightarrow> (vfs_err (NoSuchFileOrDirectory (Some p)), v)
      | Some (i, f) \<Rightarrow>
          if \<not> is_Directory (f_ty f) then (vfs_err (NotDirectory (Some p)), v)
          else (Ok (), upd_file i (\<lambda>f. f\<lparr>f_fs := Some fs\<rparr>) v))"

definition vfs_new :: "'w \<Rightarrow> 'w vfs" where
  "vfs_new w = \<lparr>cwd_path = None, root_id = None, files = [], fds = [], next_file_id = 0, next_fd = 3, world = w\<rparr>"

definition vfs_init :: "('w vfs, unit) act" where
  "vfs_init =
     bind_act file_id_new (\<lambda>r.
     bind_act (insert_file r (file_info_new Directory (path_name root) r)) (\<lambda>_.
     bind_act (mkdir (path_join root ''mnt'')) (\<lambda>_.
     bind_act (mkdir (path_join (path_join root ''mnt'') ''initramfs'')) (\<lambda>_.
     bind_act (mkdir (path_join root ''dev'')) (\<lambda>_.
     mkdir (path_join root ''proc''))))))"

text \<open>The loop of \<open>abs_path_by_file\<close> climbs the parent links. The outer option is \<open>None\<close> when it does
  not end; \<open>Some None\<close> is the \<open>?\<close> that leaves the function.\<close>

partial_function (option) climb :: "'w vfs \<Rightarrow> string \<Rightarrow> VfsFileId \<Rightarrow> string option option" where
  "climb v s i =
     (case root_id v of
        None \<Rightarrow> Some None
      | Some r \<Rightarrow>
          if i = r then Some (Some s)
          else (case find_file v i of
                  None \<Rightarrow> Some None
                | Some p \<Rightarrow> climb v (f_name p @ [SEPARATOR] @ s) (f_parent p)))"

declare climb.simps [code]

definition abs_path_by_file :: "'w vfs \<Rightarrow> 'w FileInfo \<Rightarrow> path option option" where
  "abs_path_by_file v f =
     map_option (map_option (\<lambda>s. normalize (ROOT @ s))) (climb v (f_name f) (f_parent f))"

text \<open>A caller never hears again from a call that does not end, no more than from one that panics.\<close>

definition with_path :: "path option option \<Rightarrow> (path option \<Rightarrow> 'a outcome) \<Rightarrow> 'a outcome" where
  "with_path p k = (case p of None \<Rightarrow> Panic | Some q \<Rightarrow> k q)"
subsection \<open>Descriptors\<close>

text \<open>\<open>iter_mut().find\<close> and \<open>position\<close> with \<open>remove\<close>: the first match is changed or taken out.\<close>

fun drop_first :: "('a \<Rightarrow> bool) \<Rightarrow> 'a list \<Rightarrow> 'a list" where
  "drop_first P [] = []"
| "drop_first P (x # xs) = (if P x then xs else x # drop_first P xs)"

definition file_desc :: "'w vfs \<Rightarrow> FileDescriptorNumber \<Rightarrow> FileDescriptor outcome" where
  "file_desc v n = ok_or_vfs (find (\<lambda>d. fd_num d = n) (fds v)) (ReleasedFileResource n)"

definition file_desc_mut :: "FileDescriptorNumber \<Rightarrow> (FileDescriptor \<Rightarrow> FileDescriptor) \<Rightarrow> ('w vfs, unit) act" where
  "file_desc_mut n g v =
     (map_ok (\<lambda>_. ()) (file_desc v n), v\<lparr>fds := update_first (\<lambda>d. fd_num d = n) g (fds v)\<rparr>)"

definition file_ref :: "'w vfs \<Rightarrow> VfsFileId \<Rightarrow> 'w FileInfo outcome" where
  "file_ref v i = ok_or_vfs (find_file v i) (NoSuchFileOrDirectory None)"

definition mount_fs_ref :: "'w vfs \<Rightarrow> VfsFileId \<Rightarrow> 'w FileSystem outcome" where
  "mount_fs_ref v m =
     and_then (file_ref v m) (\<lambda>f. ok_or_vfs (f_fs f) (NoSuchFileOrDirectory None))"

definition new_descriptor :: "FileDescriptorNumber \<Rightarrow> FileBacking \<Rightarrow> PipeEnd option \<Rightarrow> FileDescriptor" where
  "new_descriptor n b e = \<lparr>fd_num = n, fd_backing = b, fd_offset = 0, fd_pipe_end = e, fd_cache = None\<rparr>"

definition push_fd :: "FileDescriptor \<Rightarrow> 'w vfs \<Rightarrow> 'w vfs" where
  "push_fd d v = v\<lparr>fds := fds v @ [d]\<rparr>"

text \<open>The first half of \<open>open_file\<close>: what the descriptor will be backed by, and the driver to tell.\<close>

definition open_backing ::
  "path \<Rightarrow> bool \<Rightarrow> ('w vfs, FileBacking \<times> 'w DeviceFileDescriptor option) act" where
  "open_backing p create v =
     (case find_file_by_path v p of
        Some (ResVfs file_id f) \<Rightarrow>
          if \<not> is_VirtualFile (f_ty f) \<and> \<not> is_DeviceFile (f_ty f) then (vfs_err (NotFile (Some p)), v)
          else
            (case find (\<lambda>d. fd_backing d = BackVfs file_id) (fds v) of
               Some d \<Rightarrow> (vfs_err (BlockingFileResource (fd_num d)), v)
             | None \<Rightarrow>
                 (Ok (BackVfs file_id, case f_ty f of DeviceFile desc \<Rightarrow> Some desc | _ \<Rightarrow> None), v))
      | Some (ResFs m fs rel md) \<Rightarrow>
          if \<not> is_VirtualFile (resolved_type (ResFs m fs rel md)) then (vfs_err (NotFile (Some p)), v)
          else (Ok (resolved_backing (ResFs m fs rel md), None), v)
      | None \<Rightarrow>
          if create then
            bind_act (add_file p VirtualFile) (\<lambda>_ u.
              (case find_file_by_path u p of
                 Some (ResVfs file_id f) \<Rightarrow> (Ok (BackVfs file_id, None), u)
               | _ \<Rightarrow> (vfs_err (NoSuchFileOrDirectory (Some p)), u))) v
          else (vfs_err (NoSuchFileOrDirectory (Some p)), v))"

definition vfs_open_file ::
  "path \<Rightarrow> bool \<Rightarrow> ('w vfs, FileDescriptorNumber \<times> 'w DeviceFileDescriptor option) act" where
  "vfs_open_file p create =
     bind_act (open_backing p create) (\<lambda>(b, dev).
     bind_act fd_number_new (\<lambda>n.
     bind_act (modify (push_fd (new_descriptor n b None))) (\<lambda>_.
     return_act (n, dev))))"

definition remaining :: "'w vfs \<Rightarrow> VfsFileId \<Rightarrow> FileDescriptor list" where
  "remaining v i = filter (\<lambda>d. fd_backing d = BackVfs i) (fds v)"

definition release_pipe_end :: "VfsFileId \<Rightarrow> PipeEnd option \<Rightarrow> 'w vfs \<Rightarrow> 'w vfs" where
  "release_pipe_end i e v =
     (case find_file v i of
        None \<Rightarrow> v
      | Some f \<Rightarrow>
          if \<not> is_Pipe (f_ty f) then v
          else if remaining v i = [] then v\<lparr>files := bt_remove i (files v)\<rparr>
          else if e = Some WriteEnd \<and> filter (\<lambda>d. fd_pipe_end d = Some WriteEnd) (remaining v i) = []
          then upd_file i (\<lambda>f. f\<lparr>f_pipe := map_option (\<lambda>p. p\<lparr>write_closed := True\<rparr>) (f_pipe f)\<rparr>) v
          else v)"

definition vfs_close_file :: "FileDescriptorNumber \<Rightarrow> ('w vfs, 'w DeviceFileDescriptor option) act" where
  "vfs_close_file n v =
     (case find (\<lambda>d. fd_num d = n) (fds v) of
        None \<Rightarrow> (vfs_err (ReleasedFileResource n), v)
      | Some d \<Rightarrow>
          (let v' = v\<lparr>fds := drop_first (\<lambda>d. fd_num d = n) (fds v)\<rparr> in
           case fd_backing d of
             BackFs m rel \<Rightarrow> (Ok None, v')
           | BackVfs i \<Rightarrow>
               (Ok (case find_file v' i of
                      Some f \<Rightarrow> (case f_ty f of DeviceFile desc \<Rightarrow> Some desc | _ \<Rightarrow> None)
                    | None \<Rightarrow> None),
                release_pipe_end i (fd_pipe_end d) v')))"

subsection \<open>Reading, writing and seeking\<close>

text \<open>\<open>&buf[start..end]\<close> with \<open>start\<close> and \<open>end\<close> cut to the length, and the new offset.\<close>

definition window :: "u8 list \<Rightarrow> nat \<Rightarrow> nat \<Rightarrow> nat \<times> nat" where
  "window b offset max_len =
     (let start = min offset (length b) in (start, min (min (start + max_len) USIZE_MAX) (length b)))"

definition read_window :: "FileDescriptorNumber \<Rightarrow> u8 list \<Rightarrow> nat \<Rightarrow> nat \<Rightarrow> ('w vfs, 'w ReadOutcome) act" where
  "read_window n b offset max_len =
     (case window b offset max_len of
        (start, stop) \<Rightarrow>
          bind_act (lift_outcome (slice b start stop)) (\<lambda>bytes.
          bind_act (file_desc_mut n (\<lambda>d. d\<lparr>fd_offset := stop\<rparr>)) (\<lambda>_.
          return_act (ReadData bytes))))"

text \<open>The whole file is read from the mounted file system once and kept with the descriptor.\<close>

definition fill_cache :: "FileDescriptorNumber \<Rightarrow> VfsFileId \<Rightarrow> path \<Rightarrow> ('w vfs, u8 list) act" where
  "fill_cache n m rel v =
     (case file_desc v n of
        Ok d \<Rightarrow>
          (case fd_cache d of
             Some content \<Rightarrow> (Ok content, v)
           | None \<Rightarrow>
               (case and_then (mount_fs_ref v m) (\<lambda>fs. of_result (fs_read_file fs (world v) rel 0 USIZE_MAX)) of
                  Ok content \<Rightarrow>
                    (Ok content, snd (file_desc_mut n (\<lambda>d. d\<lparr>fd_cache := Some content\<rparr>) v))
                | Err e \<Rightarrow> (Err e, v)
                | Panic \<Rightarrow> (Panic, v)))
      | Err e \<Rightarrow> (Err e, v)
      | Panic \<Rightarrow> (Panic, v))"

definition read_pipe :: "VfsFileId \<Rightarrow> nat \<Rightarrow> ('w vfs, 'w ReadOutcome) act" where
  "read_pipe i max_len v =
     (case and_then (file_ref v i) (\<lambda>f. ok_or_vfs (f_pipe f) (NoSuchFileOrDirectory None)) of
        Ok pipe \<Rightarrow>
          if pipe_bytes pipe = [] then
            (if write_closed pipe then (Ok (ReadData []), v) else (err BufferEmpty, v))
          else
            (let len = min max_len (length (pipe_bytes pipe)) in
             (Ok (ReadData (take len (pipe_bytes pipe))),
              upd_file i (\<lambda>f. f\<lparr>f_pipe := Some (pipe\<lparr>pipe_bytes := drop len (pipe_bytes pipe)\<rparr>)\<rparr>) v))
      | Err e \<Rightarrow> (Err e, v)
      | Panic \<Rightarrow> (Panic, v))"

definition vfs_read_file :: "FileDescriptorNumber \<Rightarrow> nat \<Rightarrow> ('w vfs, 'w ReadOutcome) act" where
  "vfs_read_file n max_len v =
     bind_act (lift_outcome (file_desc v n)) (\<lambda>d.
       case fd_backing d of
         BackFs m rel \<Rightarrow>
           bind_act (fill_cache n m rel) (\<lambda>content. read_window n content (fd_offset d) max_len)
       | BackVfs i \<Rightarrow>
           bind_act (lift_outcome (file_ref v i)) (\<lambda>f.
             case f_ty f of
               Pipe \<Rightarrow> read_pipe i max_len
             | DeviceFile desc \<Rightarrow> return_act (ReadDevice desc (fd_offset d))
             | VirtualFile \<Rightarrow>
                 read_window n (case f_buf f of None \<Rightarrow> [] | Some b \<Rightarrow> b) (fd_offset d) max_len
             | Directory \<Rightarrow>
                 lift_outcome (with_path (abs_path_by_file v f) (\<lambda>q. vfs_err (NotFile q))))) v"

text \<open>\<open>Vec::resize\<close> to more than \<open>isize::MAX\<close> bytes panics; \<open>copy_from_slice\<close> overwrites the range.\<close>

definition vec_resize :: "u8 list \<Rightarrow> nat \<Rightarrow> u8 list outcome" where
  "vec_resize b n = (if n > ISIZE_MAX then Panic else Ok (take n b @ replicate (n - length b) 0))"

definition overwrite :: "u8 list \<Rightarrow> nat \<Rightarrow> u8 list \<Rightarrow> u8 list outcome" where
  "overwrite b offset data =
     and_then (uadd offset (length data)) (\<lambda>stop.
     and_then (if stop > length b then vec_resize b stop else Ok b) (\<lambda>b'.
       Ok (take offset b' @ data @ drop stop b')))"

definition write_buf :: "FileDescriptorNumber \<Rightarrow> VfsFileId \<Rightarrow> nat \<Rightarrow> u8 list \<Rightarrow> ('w vfs, 'w WriteOutcome) act" where
  "write_buf n i offset data v =
     bind_act (lift_outcome (file_ref v i)) (\<lambda>f.
     bind_act (lift_outcome (overwrite (case f_buf f of None \<Rightarrow> [] | Some b \<Rightarrow> b) offset data)) (\<lambda>b'.
     bind_act (modify (upd_file i (\<lambda>f. f\<lparr>f_buf := Some b'\<rparr>))) (\<lambda>_.
     bind_act (file_desc_mut n (\<lambda>d. d\<lparr>fd_offset := offset + length data\<rparr>)) (\<lambda>_.
     return_act WriteDone)))) v"

definition write_pipe :: "VfsFileId \<Rightarrow> u8 list \<Rightarrow> ('w vfs, 'w WriteOutcome) act" where
  "write_pipe i data v =
     (case and_then (file_ref v i) (\<lambda>f. ok_or_vfs (f_pipe f) (NoSuchFileOrDirectory None)) of
        Ok pipe \<Rightarrow>
          (Ok WriteDone,
           upd_file i (\<lambda>f. f\<lparr>f_pipe := Some (pipe\<lparr>pipe_bytes := pipe_bytes pipe @ data\<rparr>)\<rparr>) v)
      | Err e \<Rightarrow> (Err e, v)
      | Panic \<Rightarrow> (Panic, v))"

definition forget_cache :: "VfsFileId \<Rightarrow> path \<Rightarrow> 'w vfs \<Rightarrow> 'w vfs" where
  "forget_cache m rel v =
     v\<lparr>fds := map (\<lambda>d. if fd_backing d = BackFs m rel then d\<lparr>fd_cache := None\<rparr> else d) (fds v)\<rparr>"

text \<open>The call of a mounted file system's \<open>write_file\<close> changes the state behind it.\<close>

definition call_world :: "('w \<Rightarrow> (kerror + 'a) \<times> 'w) \<Rightarrow> ('w vfs, 'a) act" where
  "call_world f v = (case f (world v) of (r, w) \<Rightarrow> (of_result r, v\<lparr>world := w\<rparr>))"

definition vfs_write_file :: "FileDescriptorNumber \<Rightarrow> u8 list \<Rightarrow> ('w vfs, 'w WriteOutcome) act" where
  "vfs_write_file n data v =
     bind_act (lift_outcome (file_desc v n)) (\<lambda>d.
       case fd_backing d of
         BackFs m rel \<Rightarrow>
           bind_act (lift_outcome (mount_fs_ref v m)) (\<lambda>fs.
           bind_act (call_world (fs_write_file fs rel (fd_offset d) data)) (\<lambda>_.
           bind_act (modify (forget_cache m rel)) (\<lambda>_.
           bind_act (lift_outcome (uadd (fd_offset d) (length data))) (\<lambda>stop.
           bind_act (file_desc_mut n (\<lambda>d. d\<lparr>fd_offset := stop\<rparr>)) (\<lambda>_.
           return_act WriteDone)))))
       | BackVfs i \<Rightarrow>
           bind_act (lift_outcome (file_ref v i)) (\<lambda>f.
             case f_ty f of
               VirtualFile \<Rightarrow>
                 bind_act (lift_outcome (with_path (abs_path_by_file v f) (\<lambda>q. Ok ()))) (\<lambda>_.
                   write_buf n i (fd_offset d) data)
             | DeviceFile desc \<Rightarrow> return_act (WriteDevice desc)
             | Pipe \<Rightarrow> write_pipe i data
             | Directory \<Rightarrow>
                 lift_outcome (with_path (abs_path_by_file v f) (\<lambda>q. vfs_err (NotFile q))))) v"

definition file_size :: "FileDescriptorNumber \<Rightarrow> 'w vfs \<Rightarrow> nat outcome" where
  "file_size n v =
     and_then (file_desc v n) (\<lambda>d.
       case fd_backing d of
         BackFs m rel \<Rightarrow>
           and_then (mount_fs_ref v m) (\<lambda>fs. map_ok meta_size (of_result (fs_metadata fs (world v) rel)))
       | BackVfs i \<Rightarrow>
           and_then (file_ref v i) (\<lambda>f.
             case f_ty f of
               VirtualFile \<Rightarrow> Ok (case f_buf f of None \<Rightarrow> 0 | Some b \<Rightarrow> length b)
             | DeviceFile desc \<Rightarrow> Ok 0
             | _ \<Rightarrow> with_path (abs_path_by_file v f) (\<lambda>q. vfs_err (InvalidFileType q))))"

text \<open>\<open>as i64\<close> reinterprets a \<open>usize\<close>; \<open>saturating_add\<close> of \<open>i64\<close> stops at the ends of its range.\<close>

definition as_i64 :: "nat \<Rightarrow> int" where
  "as_i64 n = (if n < 2 ^ 63 then int n else int n - 2 ^ 64)"

definition i64_saturating_add :: "int \<Rightarrow> int \<Rightarrow> int" where
  "i64_saturating_add a b = max (- (2 ^ 63)) (min (2 ^ 63 - 1) (a + b))"

definition seek :: "FileDescriptorNumber \<Rightarrow> SeekFrom \<Rightarrow> ('w vfs, nat) act" where
  "seek n pos v =
     bind_act (lift_outcome (file_desc v n)) (\<lambda>d.
     bind_act (lift_outcome
       (case pos of
          SeekStart k \<Rightarrow> Ok k
        | SeekCurrent k \<Rightarrow> Ok (i64_saturating_add (as_i64 (fd_offset d)) k)
        | SeekEnd k \<Rightarrow> map_ok (\<lambda>sz. i64_saturating_add (as_i64 sz) k) (file_size n v))) (\<lambda>target.
     if target < 0 then fail (with_context InvalidData ''seek target'')
     else
       bind_act (file_desc_mut n (\<lambda>d. d\<lparr>fd_offset := nat target\<rparr>)) (\<lambda>_.
       return_act (nat target)))) v"

fun show_nat :: "nat \<Rightarrow> string" where
  "show_nat n =
     (if n < 10 then [char_of (48 + n)] else show_nat (n div 10) @ [char_of (48 + n mod 10)])"

declare show_nat.simps [simp del]

definition create_pipe :: "('w vfs, FileDescriptorNumber \<times> FileDescriptorNumber) act" where
  "create_pipe =
     bind_act (\<lambda>v. (ok_or (root_id v) (from_error NotInitialized), v)) (\<lambda>r.
     bind_act file_id_new (\<lambda>i.
     bind_act (modify (\<lambda>v. v\<lparr>files := bt_insert i
        ((file_info_new Pipe (''pipe:'' @ show_nat i) r)\<lparr>f_pipe := Some pipe_default\<rparr>) (files v)\<rparr>)) (\<lambda>_.
     bind_act fd_number_new (\<lambda>rd.
     bind_act fd_number_new (\<lambda>wr.
     bind_act (modify (push_fd (new_descriptor rd (BackVfs i) (Some ReadEnd)))) (\<lambda>_.
     bind_act (modify (push_fd (new_descriptor wr (BackVfs i) (Some WriteEnd)))) (\<lambda>_.
     return_act (rd, wr))))))))"

subsection \<open>The public functions\<close>

text \<open>The drivers are called after the lock is released.\<close>

definition open_file :: "path \<Rightarrow> bool \<Rightarrow> ('w vfs, FileDescriptorNumber) act" where
  "open_file p create =
     bind_act (vfs_open_file p create) (\<lambda>(n, dev).
       case dev of
         None \<Rightarrow> return_act n
       | Some desc \<Rightarrow>
           catch (call_world (dev_open desc)) (\<lambda>r.
             case r of
               Err e \<Rightarrow> bind_act (vfs_close_file n) (\<lambda>_. fail e)
             | _ \<Rightarrow> return_act n))"

definition close_file :: "FileDescriptorNumber \<Rightarrow> ('w vfs, unit) act" where
  "close_file n =
     bind_act (vfs_close_file n) (\<lambda>dev.
       case dev of None \<Rightarrow> return_act () | Some desc \<Rightarrow> call_world (dev_close desc))"

definition read_file :: "FileDescriptorNumber \<Rightarrow> nat \<Rightarrow> ('w vfs, u8 list) act" where
  "read_file n buf_len =
     bind_act (vfs_read_file n buf_len) (\<lambda>r.
       case r of
         ReadData bytes \<Rightarrow> return_act bytes
       | ReadDevice desc offset \<Rightarrow>
           bind_act (call_world (dev_read desc offset buf_len)) (\<lambda>bytes.
           bind_act (modify (\<lambda>v. snd (file_desc_mut n
             (\<lambda>d. d\<lparr>fd_offset := min (offset + length bytes) USIZE_MAX\<rparr>) v))) (\<lambda>_.
           return_act bytes)))"

definition write_file :: "FileDescriptorNumber \<Rightarrow> u8 list \<Rightarrow> ('w vfs, unit) act" where
  "write_file n data =
     bind_act (vfs_write_file n data) (\<lambda>r.
       case r of WriteDone \<Rightarrow> return_act () | WriteDevice desc \<Rightarrow> call_world (dev_write desc data))"

definition get_cwd_path :: "'w vfs \<Rightarrow> path outcome" where
  "get_cwd_path v = ok_or (cwd_path v) (from_error NotInitialized)"

end
