(* ===== verification/Fat.thy ===== *)
theory Fat
  imports Vfs
begin

text \<open>
  The FAT32 driver for the initial RAM disk, kernel/src/fs/fat: the boot sector, directory entries, cluster chains
  and the lookup of files. The volume lies in memory at a virtual address; the model reads it from a memory \<open>'m\<close>,
  a function from addresses to bytes. The structs of boot_sector.rs consist of bytes only, so their layout has no
  padding and reading one is reading its bytes. Products of the boot sector's fields stay below \<open>2 ^ 64\<close> by
  their widths; differences, quotients and addresses are checked. A loop over a cluster chain need not end: the outer option is \<open>None\<close> then.
\<close>

type_synonym mem = "nat \<Rightarrow> u8"

definition read_bytes :: "mem \<Rightarrow> nat \<Rightarrow> nat \<Rightarrow> u8 list" where
  "read_bytes m a n = map (\<lambda>i. m (a + i)) [0..<n]"

text \<open>\<open>from_le_bytes\<close> on arrays of two and four bytes.\<close>

fun from_le_bytes :: "u8 list \<Rightarrow> nat" where
  "from_le_bytes [] = 0"
| "from_le_bytes (b # bs) = unat b + 256 * from_le_bytes bs"

definition udiv :: "nat \<Rightarrow> nat \<Rightarrow> nat outcome" where
  "udiv a b = (if b = 0 then Panic else Ok (a div b))"

subsection \<open>The boot sector\<close>

datatype FatType = Fat12 | Fat16 | Fat32

record BootSectorFat32OtherField =
  fat_size32 :: "u8 list"
  ext_flags :: "u8 list"
  fs_version :: "u8 list"
  root_cluster :: "u8 list"
  fs_info :: "u8 list"

record BootSector =
  bs_bytes_per_sector :: "u8 list"
  bs_sectors_per_cluster :: u8
  bs_reserved_sector_count :: "u8 list"
  bs_num_fats :: u8
  bs_root_entry_count :: "u8 list"
  bs_total_sector16 :: "u8 list"
  bs_fat_size16 :: "u8 list"
  bs_total_sector32 :: "u8 list"
  bs_other_field :: "u8 list"

text \<open>The struct seen through a pointer: 512 bytes. The fields that no operation reads are left out.\<close>

definition boot_sector_of :: "u8 list \<Rightarrow> BootSector" where
  "boot_sector_of b = \<lparr>
     bs_bytes_per_sector = take 2 (drop 11 b), bs_sectors_per_cluster = b ! 13,
     bs_reserved_sector_count = take 2 (drop 14 b), bs_num_fats = b ! 16,
     bs_root_entry_count = take 2 (drop 17 b), bs_total_sector16 = take 2 (drop 19 b),
     bs_fat_size16 = take 2 (drop 22 b), bs_total_sector32 = take 4 (drop 32 b),
     bs_other_field = take 476 (drop 36 b)\<rparr>"

definition other_field_of :: "u8 list \<Rightarrow> BootSectorFat32OtherField" where
  "other_field_of b = \<lparr>fat_size32 = take 4 b, ext_flags = take 2 (drop 4 b), fs_version = take 2 (drop 6 b),
     root_cluster = take 4 (drop 8 b), fs_info = take 2 (drop 12 b)\<rparr>"

definition fs_info_sector_num :: "BootSectorFat32OtherField \<Rightarrow> nat" where
  "fs_info_sector_num f = from_le_bytes (fs_info f)"

definition fat_size :: "BootSectorFat32OtherField \<Rightarrow> nat" where
  "fat_size f = from_le_bytes (fat_size32 f)"

definition other_root_cluster_num :: "BootSectorFat32OtherField \<Rightarrow> nat" where
  "other_root_cluster_num f = from_le_bytes (root_cluster f)"

definition bytes_per_sector :: "BootSector \<Rightarrow> nat" where
  "bytes_per_sector b = from_le_bytes (bs_bytes_per_sector b)"

definition sectors_per_cluster :: "BootSector \<Rightarrow> nat" where
  "sectors_per_cluster b = unat (bs_sectors_per_cluster b)"

definition num_fats :: "BootSector \<Rightarrow> nat" where
  "num_fats b = unat (bs_num_fats b)"

definition fat_size16 :: "BootSector \<Rightarrow> nat" where
  "fat_size16 b = from_le_bytes (bs_fat_size16 b)"

definition root_entry_count :: "BootSector \<Rightarrow> nat" where
  "root_entry_count b = from_le_bytes (bs_root_entry_count b)"

definition reserved_sectors :: "BootSector \<Rightarrow> nat" where
  "reserved_sectors b = from_le_bytes (bs_reserved_sector_count b)"

definition total_sectors :: "BootSector \<Rightarrow> nat" where
  "total_sectors b =
     (if from_le_bytes (bs_total_sector16 b) = 0 then from_le_bytes (bs_total_sector32 b)
      else from_le_bytes (bs_total_sector16 b))"

definition fat_sectors16 :: "BootSector \<Rightarrow> nat" where
  "fat_sectors16 b = fat_size16 b * num_fats b"

definition root_dir_start_sector16 :: "BootSector \<Rightarrow> nat" where
  "root_dir_start_sector16 b = reserved_sectors b + fat_sectors16 b"

definition root_dir_sectors16 :: "BootSector \<Rightarrow> nat outcome" where
  "root_dir_sectors16 b =
     and_then (usub (root_entry_count b * 32 + bytes_per_sector b) 1) (\<lambda>n. udiv n (bytes_per_sector b))"

definition data_start_sector16 :: "BootSector \<Rightarrow> nat outcome" where
  "data_start_sector16 b = map_ok (\<lambda>n. root_dir_start_sector16 b + n) (root_dir_sectors16 b)"

definition data_sectors16 :: "BootSector \<Rightarrow> nat outcome" where
  "data_sectors16 b = and_then (data_start_sector16 b) (\<lambda>n. usub (total_sectors b) n)"

definition data_clusters :: "BootSector \<Rightarrow> nat outcome" where
  "data_clusters b = and_then (data_sectors16 b) (\<lambda>n. udiv n (sectors_per_cluster b))"

definition fat_type :: "BootSector \<Rightarrow> FatType outcome" where
  "fat_type b =
     map_ok (\<lambda>n. if n \<le> 4085 then Fat12 else if n \<le> 65525 then Fat16 else Fat32) (data_clusters b)"

definition fat32_other_field :: "BootSector \<Rightarrow> BootSectorFat32OtherField option outcome" where
  "fat32_other_field b =
     map_ok (\<lambda>t. if t \<noteq> Fat32 then None else Some (other_field_of (bs_other_field b))) (fat_type b)"

definition fat_sectors32 :: "BootSector \<Rightarrow> nat option outcome" where
  "fat_sectors32 b = map_ok (map_option (\<lambda>f. fat_size f * num_fats b)) (fat32_other_field b)"

definition data_start_sector32 :: "BootSector \<Rightarrow> nat option outcome" where
  "data_start_sector32 b = map_ok (map_option (\<lambda>n. reserved_sectors b + n)) (fat_sectors32 b)"

definition data_sectors32 :: "BootSector \<Rightarrow> nat option outcome" where
  "data_sectors32 b =
     and_then (data_start_sector32 b) (\<lambda>x.
       case x of None \<Rightarrow> Ok None | Some n \<Rightarrow> map_ok Some (usub (total_sectors b) n))"

subsection \<open>Directory entries\<close>

datatype Attribute = ReadOnlyAttr | Hidden | System | VolumeLabel | LongFileNameAttr | DirectoryAttr | Archive | DeviceAttr

datatype EntryType = NullEntry | UnusedEntry | LongFileNameEntry | DataEntry

text \<open>A \<open>DirectoryEntry\<close> is 32 bytes.\<close>

type_synonym DirectoryEntry = "u8 list"

definition entry_attr :: "DirectoryEntry \<Rightarrow> Attribute option" where
  "entry_attr e =
     (if e ! 11 = 0x01 then Some ReadOnlyAttr
      else if e ! 11 = 0x02 then Some Hidden
      else if e ! 11 = 0x04 then Some System
      else if e ! 11 = 0x08 then Some VolumeLabel
      else if e ! 11 = 0x0f then Some LongFileNameAttr
      else if e ! 11 = 0x10 then Some DirectoryAttr
      else if e ! 11 = 0x20 then Some Archive
      else if e ! 11 = 0x40 then Some DeviceAttr
      else None)"

definition entry_type :: "DirectoryEntry \<Rightarrow> EntryType" where
  "entry_type e =
     (if e ! 0 = 0x00 then NullEntry
      else if e ! 0 = 0xe5 then UnusedEntry
      else if e ! 10 = 0x0f then LongFileNameEntry
      else DataEntry)"

definition first_cluster_num :: "DirectoryEntry \<Rightarrow> nat" where
  "first_cluster_num e = from_le_bytes [e ! 20, e ! 21] * 2 ^ 16 + from_le_bytes [e ! 26, e ! 27]"

definition entry_file_size :: "DirectoryEntry \<Rightarrow> nat" where
  "entry_file_size e = from_le_bytes [e ! 28, e ! 29, e ! 30, e ! 31]"

definition is_lf_name_entry :: "DirectoryEntry \<Rightarrow> bool" where
  "is_lf_name_entry e \<longleftrightarrow> entry_attr e = Some LongFileNameAttr"

subsection \<open>Names\<close>

text \<open>\<open>String::from_utf8_lossy\<close>: each maximal invalid piece becomes U+FFFD.\<close>

definition continuation :: "u8 \<Rightarrow> bool" where
  "continuation b \<longleftrightarrow> 0x80 \<le> b \<and> b \<le> 0xbf"

definition second_byte :: "u8 \<Rightarrow> u8 \<Rightarrow> bool" where
  "second_byte b c \<longleftrightarrow>
     (if b = 0xe0 then 0xa0 \<le> c \<and> c \<le> 0xbf
      else if b = 0xed then 0x80 \<le> c \<and> c \<le> 0x9f
      else if b = 0xf0 then 0x90 \<le> c \<and> c \<le> 0xbf
      else if b = 0xf4 then 0x80 \<le> c \<and> c \<le> 0x8f
      else continuation c)"

abbreviation REPLACEMENT :: "u8 list" where "REPLACEMENT \<equiv> [0xef, 0xbf, 0xbd]"

fun utf8_lossy :: "u8 list \<Rightarrow> u8 list" where
  "utf8_lossy [] = []"
| "utf8_lossy (b # bs) =
     (if b < 0x80 then b # utf8_lossy bs
      else if 0xc2 \<le> b \<and> b \<le> 0xdf then
        (case bs of
           c # cs \<Rightarrow> if continuation c then b # c # utf8_lossy cs else REPLACEMENT @ utf8_lossy bs
         | [] \<Rightarrow> REPLACEMENT)
      else if 0xe0 \<le> b \<and> b \<le> 0xef then
        (case bs of
           c # cs \<Rightarrow>
             if second_byte b c then
               (case cs of
                  d # ds \<Rightarrow> if continuation d then b # c # d # utf8_lossy ds else REPLACEMENT @ utf8_lossy cs
                | [] \<Rightarrow> REPLACEMENT)
             else REPLACEMENT @ utf8_lossy bs
         | [] \<Rightarrow> REPLACEMENT)
      else if 0xf0 \<le> b \<and> b \<le> 0xf4 then
        (case bs of
           c # cs \<Rightarrow>
             if second_byte b c then
               (case cs of
                  d # ds \<Rightarrow>
                    if continuation d then
                      (case ds of
                         e # es \<Rightarrow> if continuation e then b # c # d # e # utf8_lossy es else REPLACEMENT @ utf8_lossy ds
                       | [] \<Rightarrow> REPLACEMENT)
                    else REPLACEMENT @ utf8_lossy cs
                | [] \<Rightarrow> REPLACEMENT)
             else REPLACEMENT @ utf8_lossy bs
         | [] \<Rightarrow> REPLACEMENT)
      else REPLACEMENT @ utf8_lossy bs)"

definition to_string :: "u8 list \<Rightarrow> string" where
  "to_string b = map (\<lambda>x. char_of (unat x)) b"

definition sf_name :: "DirectoryEntry \<Rightarrow> string option" where
  "sf_name e =
     (if entry_attr e \<in> {Some DirectoryAttr, Some Archive, Some VolumeLabel}
      then Some (to_string (utf8_lossy (take 11 e))) else None)"

definition lfn_entry_index :: "DirectoryEntry \<Rightarrow> nat option" where
  "lfn_entry_index e = (if is_lf_name_entry e then Some (unat (e ! 0)) else None)"

text \<open>The code ORs the two bytes of a unit, so a unit is below 256 and \<open>from_utf16_lossy\<close> encodes a
  Latin-1 character.\<close>

definition lfn_positions :: "nat list" where
  "lfn_positions = [1, 3, 5, 7, 9] @ [14, 16, 18, 20, 22, 24] @ [28, 30]"

definition push_unit :: "DirectoryEntry \<Rightarrow> u8 list \<Rightarrow> nat \<Rightarrow> u8 list" where
  "push_unit e buf i = (if 0 \<in> set buf then buf else buf @ [or (e ! i) (e ! (i + 1))])"

definition utf8_of_unit :: "u8 \<Rightarrow> u8 list" where
  "utf8_of_unit c = (if c < 0x80 then [c] else [or 0xc0 (drop_bit 6 c), or 0x80 (and c 0x3f)])"

definition lf_name :: "DirectoryEntry \<Rightarrow> string option" where
  "lf_name e =
     (if is_lf_name_entry e
      then Some (to_string (filter (\<lambda>b. b \<noteq> 0) (concat (map utf8_of_unit (foldl (push_unit e) [] lfn_positions)))))
      else None)"

text \<open>\<open>str::trim\<close> takes Unicode white space off both ends; here in UTF-8.\<close>

definition white_space :: "u8 list list" where
  "white_space = [[0x09], [0x0a], [0x0b], [0x0c], [0x0d], [0x20], [0xc2, 0x85], [0xc2, 0xa0], [0xe1, 0x9a, 0x80]] @
     map (\<lambda>c. [0xe2, 0x80, c]) [0x80, 0x81, 0x82, 0x83, 0x84, 0x85, 0x86, 0x87, 0x88, 0x89, 0x8a, 0xa8, 0xa9, 0xaf] @
     [[0xe2, 0x81, 0x9f], [0xe3, 0x80, 0x80]]"

function trim_start :: "string \<Rightarrow> string" where
  "trim_start s =
     (case find (\<lambda>w. take (length w) s = to_string w) white_space of
        None \<Rightarrow> s
      | Some w \<Rightarrow> trim_start (drop (length w) s))"
  by pat_completeness auto

lemma white_space_match:
  "find (\<lambda>w. take (length w) s = to_string w) white_space = Some w \<Longrightarrow> 0 < length w \<and> length w \<le> length s"
proof -
  assume "find (\<lambda>w. take (length w) s = to_string w) white_space = Some w"
  then have w: "w \<in> set white_space" "take (length w) s = to_string w" by (auto simp: find_Some_iff)
  have "length (take (length w) s) = length w" using w(2) by (simp add: to_string_def)
  moreover have "w \<noteq> []" using w(1) by (auto simp: white_space_def)
  ultimately show ?thesis by simp
qed

termination trim_start
proof (relation "measure length")
  fix s :: string and w
  assume "find (\<lambda>w. take (length w) s = to_string w) white_space = Some w"
  then have "length s - length w < length s" using white_space_match [of s w] by linarith
  then show "(drop (length w) s, s) \<in> measure length" by simp
qed simp

declare trim_start.simps [simp del]

function trim_end :: "string \<Rightarrow> string" where
  "trim_end s =
     (case find (\<lambda>w. drop (length s - length w) s = to_string w) white_space of
        None \<Rightarrow> s
      | Some w \<Rightarrow> trim_end (take (length s - length w) s))"
  by pat_completeness auto

lemma white_space_match_end:
  "find (\<lambda>w. drop (length s - length w) s = to_string w) white_space = Some w \<Longrightarrow> 0 < length w \<and> length w \<le> length s"
proof -
  assume "find (\<lambda>w. drop (length s - length w) s = to_string w) white_space = Some w"
  then have w: "w \<in> set white_space" "drop (length s - length w) s = to_string w" by (auto simp: find_Some_iff)
  have "length (drop (length s - length w) s) = length w" using w(2) by (simp add: to_string_def)
  moreover have "w \<noteq> []" using w(1) by (auto simp: white_space_def)
  ultimately show ?thesis by (cases w) auto
qed

termination trim_end
proof (relation "measure length")
  fix s :: string and w
  assume "find (\<lambda>w. drop (length s - length w) s = to_string w) white_space = Some w"
  then have "length s - length w < length s" using white_space_match_end [of s w] by linarith
  then show "(take (length s - length w) s, s) \<in> measure length" by simp
qed simp

declare trim_end.simps [simp del]

definition trim :: "string \<Rightarrow> string" where
  "trim s = trim_end (trim_start s)"

subsection \<open>The volume\<close>

record FatVolume =
  volume_start_virt_addr :: nat

datatype ClusterType = FreeCluster | ReservedCluster | DataCluster nat | BadCluster nat | EndOfChain

definition boot_sector :: "FatVolume \<Rightarrow> mem \<Rightarrow> BootSector" where
  "boot_sector v m = boot_sector_of (read_bytes m (volume_start_virt_addr v) 512)"

definition volume_root_cluster_num :: "FatVolume \<Rightarrow> mem \<Rightarrow> nat outcome" where
  "volume_root_cluster_num v m =
     and_then (fat_type (boot_sector v m)) (\<lambda>t.
     if t \<noteq> Fat32 then Panic
     else and_then (fat32_other_field (boot_sector v m)) (\<lambda>f.
       case f of None \<Rightarrow> Panic | Some f \<Rightarrow> Ok (other_root_cluster_num f)))"

definition next_cluster_num :: "FatVolume \<Rightarrow> mem \<Rightarrow> nat \<Rightarrow> ClusterType option outcome" where
  "next_cluster_num v m c =
     (let b = boot_sector v m in
      and_then (fat_type b) (\<lambda>t.
      if t \<noteq> Fat32 then Panic
      else and_then (uadd (volume_start_virt_addr v) (reserved_sectors b * bytes_per_sector b + 4 * c)) (\<lambda>a.
        let val = from_le_bytes (read_bytes m a 4) in
        Ok (Some (if 0xffffff8 \<le> val then EndOfChain
                  else if 0xffffff7 \<le> val then BadCluster val
                  else if 0xffffff0 \<le> val then ReservedCluster
                  else if 2 \<le> val then DataCluster val
                  else if val = 1 then ReservedCluster
                  else FreeCluster)))))"

definition dir_entries_per_cluster :: "FatVolume \<Rightarrow> mem \<Rightarrow> nat" where
  "dir_entries_per_cluster v m =
     bytes_per_sector (boot_sector v m) * sectors_per_cluster (boot_sector v m) div 32"

definition max_dir_entry_num :: "FatVolume \<Rightarrow> mem \<Rightarrow> nat outcome" where
  "max_dir_entry_num v m =
     (let b = boot_sector v m in
      and_then (fat_type b) (\<lambda>t.
      and_then (if t = Fat32 then and_then (data_sectors32 b) (\<lambda>x. case x of None \<Rightarrow> Panic | Some n \<Rightarrow> Ok n)
                else data_sectors16 b) (\<lambda>n.
      Ok (n * bytes_per_sector b div 32))))"

definition clusters_cnt :: "FatVolume \<Rightarrow> mem \<Rightarrow> nat outcome" where
  "clusters_cnt v m = data_clusters (boot_sector v m)"

fun collect :: "('i \<Rightarrow> 'a outcome) \<Rightarrow> 'i list \<Rightarrow> 'a list outcome" where
  "collect f [] = Ok []"
| "collect f (i # is) = and_then (f i) (\<lambda>x. map_ok ((#) x) (collect f is))"

definition dir_entry_at :: "FatVolume \<Rightarrow> mem \<Rightarrow> nat \<Rightarrow> nat \<Rightarrow> DirectoryEntry outcome" where
  "dir_entry_at v m c i =
     (let b = boot_sector v m in
      and_then (data_start_sector32 b) (\<lambda>x.
        case x of
          None \<Rightarrow> Panic
        | Some ds \<Rightarrow>
            map_ok (\<lambda>a. read_bytes m a 32)
              (uadd (volume_start_virt_addr v)
                (ds * bytes_per_sector b + bytes_per_sector b * sectors_per_cluster b * (c - 2) + 32 * i))))"

definition dir_entries :: "FatVolume \<Rightarrow> mem \<Rightarrow> nat \<Rightarrow> DirectoryEntry list outcome" where
  "dir_entries v m c =
     and_then (if c < 2 then Ok True else map_ok (\<lambda>n. n \<le> c) (clusters_cnt v m)) (\<lambda>outside.
     if outside then Ok []
     else and_then (fat_type (boot_sector v m)) (\<lambda>t.
       if t \<noteq> Fat32 then Panic
       else collect (dir_entry_at v m c) [0..<dir_entries_per_cluster v m]))"

partial_function (option) chain_loop ::
  "FatVolume \<Rightarrow> mem \<Rightarrow> nat \<Rightarrow> ClusterType option \<Rightarrow> DirectoryEntry list \<Rightarrow> DirectoryEntry list outcome option" where
  "chain_loop v m cur nx acc =
     (case dir_entries v m cur of
        Ok es \<Rightarrow>
          (case nx of
             Some (DataCluster c) \<Rightarrow>
               (case next_cluster_num v m c of
                  Ok nx' \<Rightarrow> chain_loop v m c nx' (acc @ es)
                | Err e \<Rightarrow> Some (Err e)
                | Panic \<Rightarrow> Some Panic)
           | _ \<Rightarrow> Some (Ok (acc @ es)))
      | Err e \<Rightarrow> Some (Err e)
      | Panic \<Rightarrow> Some Panic)"

declare chain_loop.simps [code]

definition read_chained_dir_entries :: "FatVolume \<Rightarrow> mem \<Rightarrow> nat \<Rightarrow> DirectoryEntry list outcome option" where
  "read_chained_dir_entries v m start =
     (case next_cluster_num v m start of
        Ok nx \<Rightarrow> chain_loop v m start nx []
      | Err e \<Rightarrow> Some (Err e)
      | Panic \<Rightarrow> Some Panic)"

subsection \<open>Files and directories\<close>

record FileMetaData =
  fm_name :: string
  fm_attr :: Attribute
  fm_size :: nat
  fm_target_cluster_num :: nat

record Fat =
  fat_volume :: FatVolume
  fat_root_cluster_num :: nat

text \<open>The \<open>?\<close> of code that may also not return.\<close>

fun chain_then :: "'a outcome option \<Rightarrow> ('a \<Rightarrow> 'b outcome option) \<Rightarrow> 'b outcome option" where
  "chain_then None f = None"
| "chain_then (Some (Ok x)) f = f x"
| "chain_then (Some (Err e)) f = Some (Err e)"
| "chain_then (Some Panic) f = Some Panic"

definition fat_new :: "FatVolume \<Rightarrow> mem \<Rightarrow> Fat outcome" where
  "fat_new v m = map_ok (\<lambda>r. \<lparr>fat_volume = v, fat_root_cluster_num = r\<rparr>) (volume_root_cluster_num v m)"

text \<open>The loop of \<open>scan_dir\<close>: \<open>lf_name_buf\<close> holds the parts of a long name, the latest in front.\<close>

definition long_name_part :: "DirectoryEntry \<Rightarrow> string option" where
  "long_name_part e =
     (case (lf_name e, lfn_entry_index e) of (Some lf, Some i) \<Rightarrow> if i \<ge> 1 then Some lf else None | _ \<Rightarrow> None)"

definition entry_metadata :: "DirectoryEntry \<Rightarrow> Attribute \<Rightarrow> string list \<Rightarrow> FileMetaData" where
  "entry_metadata e a buf =
     \<lparr>fm_name = (if buf \<noteq> [] then concat buf else the (sf_name e)), fm_attr = a, fm_size = entry_file_size e,
      fm_target_cluster_num = first_cluster_num e\<rparr>"

fun scan_loop :: "DirectoryEntry list \<Rightarrow> string list \<Rightarrow> FileMetaData list" where
  "scan_loop [] buf = []"
| "scan_loop (e # es) buf =
     (if entry_type e = NullEntry \<and> entry_attr e = None then []
      else
        (case long_name_part e of
           Some lf \<Rightarrow> scan_loop es (lf # buf)
         | None \<Rightarrow>
             (case entry_attr e of
                Some Archive \<Rightarrow> entry_metadata e Archive buf # scan_loop es []
              | Some DirectoryAttr \<Rightarrow> entry_metadata e DirectoryAttr buf # scan_loop es []
              | _ \<Rightarrow> scan_loop es buf)))"

definition scan_dir :: "Fat \<Rightarrow> mem \<Rightarrow> nat option \<Rightarrow> FileMetaData list outcome option" where
  "scan_dir f m c =
     chain_then (read_chained_dir_entries (fat_volume f) m
       (case c of Some c \<Rightarrow> c | None \<Rightarrow> fat_root_cluster_num f)) (\<lambda>es. Some (Ok (scan_loop es [])))"

definition cluster_num :: "Fat \<Rightarrow> mem \<Rightarrow> string \<Rightarrow> nat option \<Rightarrow> nat outcome option" where
  "cluster_num f m dir_name cur =
     (if (cur = None \<or> cur = Some (fat_root_cluster_num f)) \<and> (dir_name = ''.'' \<or> dir_name = ''..'')
      then Some (Ok (fat_root_cluster_num f))
      else chain_then (scan_dir f m cur) (\<lambda>fs.
        Some (map_ok fm_target_cluster_num
          (ok_or (find (\<lambda>x. fm_attr x = DirectoryAttr \<and> trim (fm_name x) = dir_name) fs)
            (with_context NotFound ''directory'')))))"

definition entry_in_dir :: "Fat \<Rightarrow> mem \<Rightarrow> string \<Rightarrow> nat option \<Rightarrow> bool \<Rightarrow> FileMetaData outcome option" where
  "entry_in_dir f m nm cur include_dirs =
     chain_then (scan_dir f m cur) (\<lambda>fs.
       Some (ok_or (find (\<lambda>x. (fm_attr x = Archive \<or> (include_dirs \<and> fm_attr x = DirectoryAttr)) \<and> trim (fm_name x) = nm) fs)
         (with_context NotFound ''entry'')))"

text \<open>The loop over the components of a directory path.\<close>

fun walk_dirs :: "Fat \<Rightarrow> mem \<Rightarrow> string list \<Rightarrow> nat option \<Rightarrow> nat option outcome option" where
  "walk_dirs f m [] cur = Some (Ok cur)"
| "walk_dirs f m (n # ns) cur = chain_then (cluster_num f m n cur) (\<lambda>c. walk_dirs f m ns (Some c))"

definition metadata_by_abs_path :: "Fat \<Rightarrow> mem \<Rightarrow> path \<Rightarrow> FileMetaData outcome option" where
  "metadata_by_abs_path f m p =
     (let q = normalize p in
      chain_then (walk_dirs f m (names (parent q)) (Some (fat_root_cluster_num f))) (\<lambda>c.
        entry_in_dir f m (path_name q) c True))"

definition fat_file :: "Fat \<Rightarrow> mem \<Rightarrow> string \<Rightarrow> nat option \<Rightarrow> (FileMetaData \<times> u8 list) outcome option" where
  "fat_file f m nm cur =
     chain_then (entry_in_dir f m nm cur False) (\<lambda>x.
     chain_then (read_chained_dir_entries (fat_volume f) m (fm_target_cluster_num x)) (\<lambda>es.
       Some (Ok (x, take (fm_size x) (concat es) @ replicate (fm_size x - length (concat es)) 0))))"

definition file_by_abs_path :: "Fat \<Rightarrow> mem \<Rightarrow> path \<Rightarrow> (FileMetaData \<times> u8 list) outcome option" where
  "file_by_abs_path f m p =
     (let q = normalize p in
      chain_then (walk_dirs f m (names (parent q)) (Some (fat_root_cluster_num f))) (\<lambda>c.
        fat_file f m (path_name q) c))"

subsection \<open>The file system's interface\<close>

definition fat_read_entry_names :: "Fat \<Rightarrow> mem \<Rightarrow> path \<Rightarrow> string list outcome option" where
  "fat_read_entry_names f m p =
     chain_then (walk_dirs f m (names (normalize p)) None) (\<lambda>c.
     chain_then (scan_dir f m c) (\<lambda>fs. Some (Ok (map (\<lambda>x. trim (fm_name x)) fs))))"

definition fat_read_file :: "Fat \<Rightarrow> mem \<Rightarrow> path \<Rightarrow> nat \<Rightarrow> nat \<Rightarrow> u8 list outcome option" where
  "fat_read_file f m p offset max_len =
     chain_then (file_by_abs_path f m p) (\<lambda>(_, bytes).
       case window bytes offset max_len of (start, stop) \<Rightarrow> Some (slice bytes start stop))"

definition fat_write_file :: "path \<Rightarrow> nat \<Rightarrow> u8 list \<Rightarrow> unit outcome" where
  "fat_write_file p offset data = err (VfsError (ReadOnly (Some p)))"

definition fat_metadata :: "Fat \<Rightarrow> mem \<Rightarrow> path \<Rightarrow> FsMetaData outcome option" where
  "fat_metadata f m p =
     chain_then (metadata_by_abs_path f m p) (\<lambda>x.
       Some (Ok \<lparr>meta_type = (if fm_attr x = DirectoryAttr then FsDirectory else FsFile), meta_size = fm_size x\<rparr>))"

text \<open>
  The trait object: what the virtual file system sees of the methods. A method that panics or does not return ends
  the run of the kernel: such a call has no result, and the theorems speak of calls that return.
\<close>

fun returned :: "'a outcome option \<Rightarrow> kerror + 'a" where
  "returned (Some (Ok x)) = Inr x"
| "returned (Some (Err e)) = Inl e"
| "returned _ = Inl (from_error NotSupported)"

definition fat_file_system :: "Fat \<Rightarrow> ('w \<Rightarrow> mem) \<Rightarrow> 'w FileSystem" where
  "fat_file_system f mem_of = \<lparr>
     fs_read_entry_names = (\<lambda>w p. returned (fat_read_entry_names f (mem_of w) p)),
     fs_read_file = (\<lambda>w p offset max_len. returned (fat_read_file f (mem_of w) p offset max_len)),
     fs_write_file = (\<lambda>p offset data w. (returned (Some (fat_write_file p offset data)), w)),
     fs_metadata = (\<lambda>w p. returned (fat_metadata f (mem_of w) p))\<rparr>"

end
