(* ===== verification/Fat_Chain.thy ===== *)
theory Fat_Chain
  imports Fat
begin

text \<open>
  Cluster chains on a FAT32 volume: the addresses of the driver stay below the end of the address space, reading a
  chain ends exactly when the chain does, and yields the bytes of its clusters in order.
\<close>

subsection \<open>Sizes\<close>

lemma from_le_bytes_bound: "from_le_bytes bs < 256 ^ length bs"
proof (induction bs)
  case (Cons b bs)
  have "unat b < 256" using unat_bound [of b] by simp
  then show ?case using Cons by simp
qed simp

lemma from_le_bytes_take: "from_le_bytes (take n bs) < 256 ^ n"
proof -
  have "from_le_bytes (take n bs) < 256 ^ length (take n bs)" by (rule from_le_bytes_bound)
  also have "\<dots> \<le> 256 ^ n" by (rule power_increasing) simp_all
  finally show ?thesis .
qed

lemma boot_sector_bounds:
  "reserved_sectors (boot_sector v m) < 2 ^ 16" "bytes_per_sector (boot_sector v m) < 2 ^ 16"
  "sectors_per_cluster (boot_sector v m) < 2 ^ 8" "num_fats (boot_sector v m) < 2 ^ 8"
  "fat_size (other_field_of (bs_other_field (boot_sector v m))) < 2 ^ 32"
  "other_root_cluster_num (other_field_of (bs_other_field (boot_sector v m))) < 2 ^ 32"
  using from_le_bytes_take [of 2] from_le_bytes_take [of 4] unat_bound [where 'a = 8]
  by (simp_all add: boot_sector_def boot_sector_of_def other_field_of_def reserved_sectors_def bytes_per_sector_def
      sectors_per_cluster_def num_fats_def fat_size_def other_root_cluster_num_def del: take_take)

text \<open>A FAT32 volume that does not reach the end of the address space.\<close>

definition fat32_volume :: "FatVolume \<Rightarrow> mem \<Rightarrow> bool" where
  "fat32_volume v m \<longleftrightarrow> fat_type (boot_sector v m) = Ok Fat32 \<and> volume_start_virt_addr v + 2 ^ 58 \<le> 2 ^ 64"

definition fat_entry_addr :: "FatVolume \<Rightarrow> mem \<Rightarrow> nat \<Rightarrow> nat" where
  "fat_entry_addr v m c = volume_start_virt_addr v +
     (reserved_sectors (boot_sector v m) * bytes_per_sector (boot_sector v m) + 4 * c)"

definition data_start :: "FatVolume \<Rightarrow> mem \<Rightarrow> nat" where
  "data_start v m = reserved_sectors (boot_sector v m) +
     fat_size (other_field_of (bs_other_field (boot_sector v m))) * num_fats (boot_sector v m)"

definition cluster_size :: "FatVolume \<Rightarrow> mem \<Rightarrow> nat" where
  "cluster_size v m = bytes_per_sector (boot_sector v m) * sectors_per_cluster (boot_sector v m)"

definition cluster_addr :: "FatVolume \<Rightarrow> mem \<Rightarrow> nat \<Rightarrow> nat" where
  "cluster_addr v m c = volume_start_virt_addr v +
     (data_start v m * bytes_per_sector (boot_sector v m) + cluster_size v m * (c - 2))"

lemma mult_bound: "a < 2 ^ i \<Longrightarrow> b < 2 ^ j \<Longrightarrow> a * b < (2 :: nat) ^ (i + j)"
  by (simp add: power_add mult_strict_mono)

lemma fat_entry_addr_fits:
  assumes "fat32_volume v m" and "c < 2 ^ 32"
  shows "fat_entry_addr v m c < 2 ^ 64"
proof -
  have "reserved_sectors (boot_sector v m) * bytes_per_sector (boot_sector v m) < 2 ^ 32"
    using mult_bound [OF boot_sector_bounds(1,2) [of v m]] by simp
  then show ?thesis using assms by (simp add: fat32_volume_def fat_entry_addr_def)
qed

lemma cluster_addr_fits:
  assumes "fat32_volume v m" and "c < 2 ^ 32" and "k \<le> cluster_size v m"
  shows "cluster_addr v m c + k < 2 ^ 64"
proof -
  have cs: "cluster_size v m < 2 ^ 24"
    using mult_bound [OF boot_sector_bounds(2,3) [of v m]] by (simp add: cluster_size_def)
  have "fat_size (other_field_of (bs_other_field (boot_sector v m))) * num_fats (boot_sector v m) < 2 ^ 40"
    using mult_bound [OF boot_sector_bounds(5,4) [of v m]] by simp
  then have "data_start v m < 2 ^ 41" using boot_sector_bounds(1) [of v m] by (simp add: data_start_def)
  then have "data_start v m * bytes_per_sector (boot_sector v m) < 2 ^ 57"
    using mult_bound [OF _ boot_sector_bounds(2) [of v m], of "data_start v m" 41] by simp
  moreover have "cluster_size v m * (c - 2) < 2 ^ 56"
    using mult_bound [OF cs, of "c - 2" 32] assms(2) by simp
  ultimately show ?thesis using assms cs by (simp add: fat32_volume_def cluster_addr_def)
qed

subsection \<open>Cluster chains\<close>

text \<open>The reference: what the file allocation table says about cluster \<open>c\<close>, and the bytes of the cluster.\<close>

definition fat_link :: "FatVolume \<Rightarrow> mem \<Rightarrow> nat \<Rightarrow> nat" where
  "fat_link v m c = from_le_bytes (read_bytes m (fat_entry_addr v m c) 4)"

definition links_to :: "FatVolume \<Rightarrow> mem \<Rightarrow> nat \<Rightarrow> nat option" where
  "links_to v m c = (if 2 \<le> fat_link v m c \<and> fat_link v m c < 0xffffff0 then Some (fat_link v m c) else None)"

definition in_volume :: "FatVolume \<Rightarrow> mem \<Rightarrow> nat \<Rightarrow> bool" where
  "in_volume v m c \<longleftrightarrow> 2 \<le> c \<and> (\<exists>n. data_clusters (boot_sector v m) = Ok n \<and> c < n)"

definition cluster_bytes :: "FatVolume \<Rightarrow> mem \<Rightarrow> nat \<Rightarrow> u8 list" where
  "cluster_bytes v m c =
     (if in_volume v m c then read_bytes m (cluster_addr v m c) (cluster_size v m div 32 * 32) else [])"

inductive chain :: "FatVolume \<Rightarrow> mem \<Rightarrow> nat \<Rightarrow> nat list \<Rightarrow> bool" where
  ends: "links_to v m c = None \<Longrightarrow> chain v m c [c]"
| goes_on: "links_to v m c = Some d \<Longrightarrow> chain v m d cs \<Longrightarrow> chain v m c (c # cs)"

lemma next_cluster_run:
  assumes "fat32_volume v m" and "c < 2 ^ 32"
  shows "\<exists>t. next_cluster_num v m c = Ok (Some t) \<and>
    (case t of DataCluster d \<Rightarrow> links_to v m c = Some d | _ \<Rightarrow> links_to v m c = None)"
proof -
  have "uadd (volume_start_virt_addr v) (reserved_sectors (boot_sector v m) * bytes_per_sector (boot_sector v m) + 4 * c)
      = Ok (fat_entry_addr v m c)"
    using fat_entry_addr_fits [OF assms] by (simp add: fat_entry_addr_def)
  then show ?thesis using assms(1)
    by (simp add: next_cluster_num_def fat32_volume_def Let_def links_to_def fat_link_def)
qed

lemma links_to_bound: "links_to v m c = Some d \<Longrightarrow> d < 2 ^ 32"
  by (auto simp: links_to_def split: if_splits)

lemma collect_Ok: "(\<And>i. i \<in> set is \<Longrightarrow> f i = Ok (g i)) \<Longrightarrow> collect f is = Ok (map g is)"
  by (induction "is") auto

lemma read_bytes_split: "read_bytes m a (n + k) = read_bytes m a n @ read_bytes m (a + n) k"
  by (rule nth_equalityI) (auto simp: read_bytes_def nth_append add.assoc)

lemma concat_entries: "concat (map (\<lambda>i. read_bytes m (a + 32 * i) 32) [0..<n]) = read_bytes m a (n * 32)"
proof (induction n)
  case (Suc n)
  then show ?case using read_bytes_split [of m a "n * 32" 32] by (simp add: ac_simps)
qed (simp add: read_bytes_def)

lemma fat32_data_start:
  assumes "fat32_volume v m"
  shows "data_start_sector32 (boot_sector v m) = Ok (Some (data_start v m))"
  using assms by (simp add: fat32_volume_def data_start_sector32_def fat_sectors32_def fat32_other_field_def data_start_def)

text \<open>Reading a cluster entry by entry reads its bytes.\<close>

lemma dir_entries_run:
  assumes vol: "fat32_volume v m" and c: "c < 2 ^ 32"
  shows "dir_entries v m c = Ok (if in_volume v m c
    then map (\<lambda>i. read_bytes m (cluster_addr v m c + 32 * i) 32) [0..<cluster_size v m div 32] else [])"
proof -
  obtain n where n: "data_clusters (boot_sector v m) = Ok n"
    using vol by (cases "data_clusters (boot_sector v m)") (simp_all add: fat32_volume_def fat_type_def)
  show ?thesis
  proof (cases "in_volume v m c")
    case True
    let ?k = "dir_entries_per_cluster v m"
    have k: "?k = cluster_size v m div 32" by (simp add: dir_entries_per_cluster_def cluster_size_def)
    have at: "dir_entry_at v m c i = Ok (read_bytes m (cluster_addr v m c + 32 * i) 32)" if "i \<in> set [0..<?k]" for i
    proof -
      have "32 * i \<le> cluster_size v m" using that k by auto
      then have "cluster_addr v m c + 32 * i < 2 ^ 64" by (rule cluster_addr_fits [OF vol c])
      then have "uadd (volume_start_virt_addr v) (data_start v m * bytes_per_sector (boot_sector v m) +
          bytes_per_sector (boot_sector v m) * sectors_per_cluster (boot_sector v m) * (c - 2) + 32 * i) =
          Ok (cluster_addr v m c + 32 * i)"
        by (simp add: cluster_addr_def cluster_size_def add.assoc)
      then show ?thesis using fat32_data_start [OF vol] by (simp add: dir_entry_at_def Let_def)
    qed
    have all: "collect (dir_entry_at v m c) [0..<?k] = Ok (map (\<lambda>i. read_bytes m (cluster_addr v m c + 32 * i) 32) [0..<?k])"
      by (rule collect_Ok) (rule at)
    then show ?thesis using True vol n
      by (auto simp: dir_entries_def clusters_cnt_def in_volume_def fat32_volume_def k)
  next
    case False
    then show ?thesis using n by (auto simp: dir_entries_def clusters_cnt_def in_volume_def)
  qed
qed

definition cluster_entries :: "FatVolume \<Rightarrow> mem \<Rightarrow> nat \<Rightarrow> DirectoryEntry list" where
  "cluster_entries v m c = (case dir_entries v m c of Ok es \<Rightarrow> es | _ \<Rightarrow> [])"

lemma dir_entries_eq:
  assumes "fat32_volume v m" and "c < 2 ^ 32"
  shows "dir_entries v m c = Ok (cluster_entries v m c)" and "concat (cluster_entries v m c) = cluster_bytes v m c"
  using dir_entries_run [OF assms] by (simp_all add: cluster_entries_def cluster_bytes_def concat_entries)

lemma chain_loop_reads:
  assumes "chain v m c cs" and "c < 2 ^ 32" and "next_cluster_num v m c = Ok nx" and "fat32_volume v m"
  shows "chain_loop v m c nx acc = Some (Ok (acc @ concat (map (cluster_entries v m) cs)))"
  using assms
proof (induction arbitrary: nx acc rule: chain.induct)
  case (ends v m c)
  obtain t where "nx = Some t" "case t of DataCluster d \<Rightarrow> links_to v m c = Some d | _ \<Rightarrow> links_to v m c = None"
    using next_cluster_run [OF ends.prems(3,1)] ends.prems(2) by auto
  then show ?case using ends.hyps dir_entries_eq(1) [OF ends.prems(3,1)]
    by (subst chain_loop.simps) (auto split: ClusterType.splits)
next
  case (goes_on v m c d cs)
  obtain t where t: "nx = Some t" "case t of DataCluster d \<Rightarrow> links_to v m c = Some d | _ \<Rightarrow> links_to v m c = None"
    using next_cluster_run [OF goes_on.prems(3,1)] goes_on.prems(2) by auto
  then have td: "t = DataCluster d" using goes_on.hyps(1) by (cases t) auto
  have d: "d < 2 ^ 32" by (rule links_to_bound [OF goes_on.hyps(1)])
  obtain t' where t': "next_cluster_num v m d = Ok (Some t')" using next_cluster_run [OF goes_on.prems(3) d] by blast
  show ?case using t(1) td t' goes_on.IH [OF d t' goes_on.prems(3)] dir_entries_eq(1) [OF goes_on.prems(3,1)]
    by (subst chain_loop.simps) simp
qed

lemma chain_loop_only_if:
  assumes "chain_loop v m c nx acc = Some r" and "fat32_volume v m" and "c < 2 ^ 32"
    and "next_cluster_num v m c = Ok nx"
  shows "\<exists>cs. chain v m c cs"
proof -
  have "fat32_volume v m \<longrightarrow> c < 2 ^ 32 \<longrightarrow> next_cluster_num v m c = Ok nx \<longrightarrow> (\<exists>cs. chain v m c cs)"
  proof (rule chain_loop.raw_induct [OF _ assms(1), where P = "\<lambda>v m c nx acc r. fat32_volume v m \<longrightarrow> c < 2 ^ 32 \<longrightarrow>
      next_cluster_num v m c = Ok nx \<longrightarrow> (\<exists>cs. chain v m c cs)"])
    fix loop v m c nx acc r
    assume 1: "\<And>v m c nx acc r. loop v m c nx acc = Some r \<Longrightarrow> fat32_volume v m \<longrightarrow> c < 2 ^ 32 \<longrightarrow>
        next_cluster_num v m c = Ok nx \<longrightarrow> (\<exists>cs. chain v m c cs)"
      "(case dir_entries v m c of
        Ok es \<Rightarrow>
          (case nx of
             Some (DataCluster c) \<Rightarrow>
               (case next_cluster_num v m c of
                  Ok nx' \<Rightarrow> loop v m c nx' (acc @ es)
                | Err e \<Rightarrow> Some (Err e)
                | Panic \<Rightarrow> Some Panic)
           | _ \<Rightarrow> Some (Ok (acc @ es)))
      | Err e \<Rightarrow> Some (Err e)
      | Panic \<Rightarrow> Some Panic) = Some r"
    show "fat32_volume v m \<longrightarrow> c < 2 ^ 32 \<longrightarrow> next_cluster_num v m c = Ok nx \<longrightarrow> (\<exists>cs. chain v m c cs)"
    proof (intro impI)
      assume vol: "fat32_volume v m" and c: "c < 2 ^ 32" and nx: "next_cluster_num v m c = Ok nx"
      obtain t where t: "nx = Some t" "case t of DataCluster d \<Rightarrow> links_to v m c = Some d | _ \<Rightarrow> links_to v m c = None"
        using next_cluster_run [OF vol c] nx by auto
      show "\<exists>cs. chain v m c cs"
      proof (cases t)
        case (DataCluster d)
        then have l: "links_to v m c = Some d" using t(2) by simp
        have d: "d < 2 ^ 32" by (rule links_to_bound [OF l])
        obtain t' where t': "next_cluster_num v m d = Ok (Some t')" using next_cluster_run [OF vol d] by blast
        have "loop v m d (Some t') (acc @ cluster_entries v m c) = Some r"
          using 1(2) t(1) DataCluster t' dir_entries_eq(1) [OF vol c] by simp
        then obtain cs where "chain v m d cs" using 1(1) vol d t' by blast
        then show ?thesis using chain.goes_on [OF l] by blast
      qed (use t(2) chain.ends in auto)
    qed
  qed
  then show ?thesis using assms(2-) by blast
qed

subsection \<open>Chains and cycles\<close>

definition link_rel :: "FatVolume \<Rightarrow> mem \<Rightarrow> (nat \<times> nat) set" where
  "link_rel v m = {(c, d). links_to v m c = Some d}"

lemma read_chained_chain:
  assumes vol: "fat32_volume v m" and c: "c < 2 ^ 32" and ch: "chain v m c cs"
  shows "read_chained_dir_entries v m c = Some (Ok (concat (map (cluster_entries v m) cs)))"
proof -
  obtain t where "next_cluster_num v m c = Ok (Some t)" using next_cluster_run [OF vol c] by blast
  then show ?thesis using chain_loop_reads [OF ch c _ vol, of _ "[]"] by (simp add: read_chained_dir_entries_def)
qed

lemma read_chained_returns:
  assumes vol: "fat32_volume v m" and c: "c < 2 ^ 32" and ret: "read_chained_dir_entries v m c \<noteq> None"
  shows "\<exists>cs. chain v m c cs"
proof -
  obtain t where t: "next_cluster_num v m c = Ok (Some t)" using next_cluster_run [OF vol c] by blast
  then obtain r where "chain_loop v m c (Some t) [] = Some r" using ret by (auto simp: read_chained_dir_entries_def)
  then show ?thesis by (rule chain_loop_only_if [OF _ vol c t])
qed

lemma chain_entries_bytes:
  "chain v m c cs \<Longrightarrow> fat32_volume v m \<Longrightarrow> c < 2 ^ 32 \<Longrightarrow>
   concat (concat (map (cluster_entries v m) cs)) = concat (map (cluster_bytes v m) cs)"
  by (induction rule: chain.induct) (auto simp: dir_entries_eq(2) dest: links_to_bound)

lemma chain_no_cycle:
  "chain v m c cs \<Longrightarrow> (c, d) \<in> (link_rel v m)\<^sup>* \<Longrightarrow> (d, d) \<notin> (link_rel v m)\<^sup>+"
proof (induction arbitrary: d rule: chain.induct)
  case (ends v m c)
  then have "d = c" by (auto simp: link_rel_def elim: converse_rtranclE)
  then show ?case using ends.hyps by (auto simp: link_rel_def dest: tranclD)
next
  case (goes_on v m c e cs)
  have only: "(c, x) \<in> link_rel v m \<Longrightarrow> x = e" for x using goes_on.hyps(1) by (auto simp: link_rel_def)
  show ?case
  proof (cases "d = c")
    case True
    show ?thesis
    proof
      assume loop: "(d, d) \<in> (link_rel v m)\<^sup>+"
      then have "(e, c) \<in> (link_rel v m)\<^sup>*" using True only by (blast dest: tranclD)
      then show False using goes_on.IH loop True by blast
    qed
  next
    case False
    then have "(e, d) \<in> (link_rel v m)\<^sup>*" using goes_on.prems only by (blast elim: converse_rtranclE)
    then show ?thesis by (rule goes_on.IH)
  qed
qed

text \<open>Table entries are bounded, so a chain without a cycle ends.\<close>

lemma acyclic_chain_ends:
  assumes acy: "\<And>d. (c, d) \<in> (link_rel v m)\<^sup>* \<Longrightarrow> (d, d) \<notin> (link_rel v m)\<^sup>+"
  shows "\<exists>cs. chain v m c cs"
proof -
  define S where "S = (link_rel v m)\<^sup>* `` {c}"
  define Q where "Q = link_rel v m \<inter> S \<times> S"
  have "(c, d) \<in> (link_rel v m)\<^sup>* \<Longrightarrow> d = c \<or> d < 2 ^ 32" for d
    by (induction rule: rtrancl_induct) (auto simp: link_rel_def dest: links_to_bound)
  then have "S \<subseteq> insert c {..<2 ^ 32}" by (auto simp: S_def)
  then have "finite S" by (rule finite_subset) simp
  then have fin: "finite Q" by (simp add: Q_def)
  have "(d, d) \<notin> Q\<^sup>+" for d
  proof
    assume d: "(d, d) \<in> Q\<^sup>+"
    then have "d \<in> S" by (auto simp: Q_def dest: tranclD)
    moreover have "(d, d) \<in> (link_rel v m)\<^sup>+" using d trancl_mono [of "(d, d)" Q "link_rel v m"] by (auto simp: Q_def)
    ultimately show False using acy by (simp add: S_def)
  qed
  then have "wf (Q\<inverse>)" by (intro finite_acyclic_wf_converse [OF fin]) (simp add: acyclic_def)
  then have "d \<in> S \<Longrightarrow> \<exists>cs. chain v m d cs" for d
  proof (induction d rule: wf_induct_rule)
    case (less d)
    show ?case
    proof (cases "links_to v m d")
      case (Some e)
      then have "(d, e) \<in> link_rel v m" by (simp add: link_rel_def)
      moreover from this have "e \<in> S" using less.prems by (auto simp: S_def intro: rtrancl_into_rtrancl)
      ultimately have "\<exists>cs. chain v m e cs" using less.IH less.prems by (simp add: Q_def)
      then show ?thesis using chain.goes_on [OF Some] by blast
    qed (auto intro: chain.ends)
  qed
  then show ?thesis by (simp add: S_def)
qed

subsection \<open>A small volume\<close>

text \<open>
  A volume for the witnesses: 512-byte sectors, one per cluster, one reserved sector, one table of 520 sectors;
  cluster 2 is the root directory with the file \<open>A\<close>, whose 600 bytes lie in the clusters 4 and 3. Cluster 5
  links to itself.
\<close>

definition put :: "nat \<Rightarrow> u8 list \<Rightarrow> mem \<Rightarrow> mem" where
  "put a bs m = (\<lambda>x. if a \<le> x \<and> x < a + length bs then bs ! (x - a) else m x)"

definition demo_mem :: mem where
  "demo_mem =
     put 11 [0, 2, 1, 1, 0, 1, 0, 0, 0, 0, 0, 0] (
     put 32 [0xa0, 0x86, 1, 0, 8, 2, 0, 0, 0, 0, 0, 0, 2, 0, 0, 0] (
     put 520 [0xff, 0xff, 0xff, 0x0f, 0xff, 0xff, 0xff, 0x0f, 3, 0, 0, 0, 5, 0, 0, 0] (
     put 266752 ([0x41, 0x20, 0x20, 0x20, 0x20, 0x20, 0x20, 0x20, 0x20, 0x20, 0x20, 0x20] @ replicate 14 0 @ [4, 0, 0x58, 2, 0, 0]) (
     (\<lambda>x. if 267264 \<le> x \<and> x < 267776 then 7 else if 267776 \<le> x \<and> x < 268288 then 8 else 0)))))"

definition demo_volume :: FatVolume where
  "demo_volume = \<lparr>volume_start_virt_addr = 0\<rparr>"

lemma read_bytes_window: "j + k \<le> n \<Longrightarrow> take k (drop j (read_bytes m a n)) = read_bytes m (a + j) k"
  by (rule nth_equalityI) (auto simp: read_bytes_def add.assoc)

lemma read_bytes_nth: "i < n \<Longrightarrow> read_bytes m a n ! i = m (a + i)"
  by (simp add: read_bytes_def)

lemma boot_sector_fields:
  "boot_sector v m = (let a = volume_start_virt_addr v in \<lparr>
     bs_bytes_per_sector = read_bytes m (a + 11) 2, bs_sectors_per_cluster = m (a + 13),
     bs_reserved_sector_count = read_bytes m (a + 14) 2, bs_num_fats = m (a + 16),
     bs_root_entry_count = read_bytes m (a + 17) 2, bs_total_sector16 = read_bytes m (a + 19) 2,
     bs_fat_size16 = read_bytes m (a + 22) 2, bs_total_sector32 = read_bytes m (a + 32) 4,
     bs_other_field = read_bytes m (a + 36) 476\<rparr>)"
  by (simp add: boot_sector_def boot_sector_of_def read_bytes_window read_bytes_nth Let_def)

lemma read_bytes_numeral: "read_bytes m a (numeral k) = m a # read_bytes m (Suc a) (pred_numeral k)"
  by (simp add: read_bytes_def upt_conv_Cons map_Suc_upt [symmetric] numeral_eq_Suc comp_def del: upt_Suc)

lemma read_bytes_Suc: "read_bytes m a (Suc k) = m a # read_bytes m (Suc a) k" "read_bytes m a 0 = []"
  by (simp_all add: read_bytes_def upt_conv_Cons map_Suc_upt [symmetric] comp_def del: upt_Suc)

lemma put_apply:
  "put a bs m x = (if a \<le> x \<and> x < a + length bs then bs ! (x - a) else m x)"
  by (simp add: put_def)

lemmas demo_bytes = demo_mem_def put_apply read_bytes_numeral read_bytes_Suc

lemma boot_sector_demo:
  "bytes_per_sector (boot_sector demo_volume demo_mem) = 512"
  "sectors_per_cluster (boot_sector demo_volume demo_mem) = 1"
  "reserved_sectors (boot_sector demo_volume demo_mem) = 1"
  "num_fats (boot_sector demo_volume demo_mem) = 1"
  by (simp_all add: boot_sector_fields demo_volume_def bytes_per_sector_def sectors_per_cluster_def reserved_sectors_def
    num_fats_def Let_def) (simp_all add: demo_bytes)

lemma data_clusters_demo: "data_clusters (boot_sector demo_volume demo_mem) = Ok 99999"
  by (simp add: boot_sector_fields demo_volume_def data_clusters_def data_sectors16_def data_start_sector16_def
    root_dir_sectors16_def root_dir_start_sector16_def fat_sectors16_def fat_size16_def root_entry_count_def
    total_sectors_def udiv_def
    bytes_per_sector_def sectors_per_cluster_def reserved_sectors_def num_fats_def Let_def)
    (simp add: demo_bytes)

lemma other_field_demo:
  "fat_size (other_field_of (bs_other_field (boot_sector demo_volume demo_mem))) = 520"
  "other_root_cluster_num (other_field_of (bs_other_field (boot_sector demo_volume demo_mem))) = 2"
  using read_bytes_window [of 0 4 476 demo_mem 36] read_bytes_window [of 8 4 476 demo_mem 36]
  by (simp_all add: boot_sector_fields demo_volume_def fat_size_def other_root_cluster_num_def other_field_of_def Let_def)
    (simp_all add: demo_bytes)

lemma fat32_demo: "fat32_volume demo_volume demo_mem"
  by (simp add: fat32_volume_def fat_type_def data_clusters_demo) (simp add: demo_volume_def)

lemma links_demo:
  "links_to demo_volume demo_mem 2 = None" "links_to demo_volume demo_mem 3 = None"
  "links_to demo_volume demo_mem 4 = Some 3" "links_to demo_volume demo_mem 5 = Some 5"
  by (simp_all add: links_to_def fat_link_def fat_entry_addr_def boot_sector_demo)
    (simp_all add: demo_volume_def demo_bytes)

lemma chain_demo: "chain demo_volume demo_mem 2 [2]" "chain demo_volume demo_mem 4 [4, 3]"
  by (rule chain.ends, rule links_demo, rule chain.goes_on [OF links_demo(3)], rule chain.ends, rule links_demo)

lemma read_bytes_constant: "(\<And>i. i < n \<Longrightarrow> m (a + i) = x) \<Longrightarrow> read_bytes m a n = replicate n x"
  by (rule nth_equalityI) (simp_all add: read_bytes_def)

lemma cluster_bytes_demo:
  "cluster_bytes demo_volume demo_mem 3 = replicate 512 7" "cluster_bytes demo_volume demo_mem 4 = replicate 512 8"
proof -
  have start: "volume_start_virt_addr demo_volume = 0" by (simp add: demo_volume_def)
  note fields = cluster_bytes_def in_volume_def data_clusters_demo cluster_addr_def cluster_size_def data_start_def
    boot_sector_demo other_field_demo start
  have "read_bytes demo_mem 267264 512 = replicate 512 7" "read_bytes demo_mem 267776 512 = replicate 512 8"
    by (rule read_bytes_constant, simp add: demo_bytes)+
  then show "cluster_bytes demo_volume demo_mem 3 = replicate 512 7" "cluster_bytes demo_volume demo_mem 4 = replicate 512 8"
    by (simp_all add: fields)
qed

lemma root_entries_demo:
  "\<exists>es. cluster_entries demo_volume demo_mem 2 = read_bytes demo_mem 266752 32 # read_bytes demo_mem 266784 32 # es"
  using dir_entries_run [OF fat32_demo, of 2]
  by (simp add: cluster_entries_def in_volume_def data_clusters_demo cluster_addr_def cluster_size_def data_start_def
    boot_sector_demo other_field_demo upt_conv_Cons) (simp add: demo_volume_def)

subsection \<open>Reading a chain\<close>

text \<open>C30: reading a cluster chain. The loop that follows the file allocation table from a cluster runs forever
  exactly if the links lead from there into a cycle; otherwise it returns the bytes of the chain's clusters, in the
  order of the links and with nothing of any other cluster. There is no bound on the number of links followed, so a
  damaged volume stops the kernel.\<close>

theorem chain_reading_ends:
  assumes "fat32_volume v m" and "c < 2 ^ 32"
  shows "(read_chained_dir_entries v m c = None \<longleftrightarrow>
      (\<exists>d. (c, d) \<in> (link_rel v m)\<^sup>* \<and> (d, d) \<in> (link_rel v m)\<^sup>+)) \<and>
    (\<forall>cs. chain v m c cs \<longrightarrow> (\<exists>es. read_chained_dir_entries v m c = Some (Ok es) \<and>
      concat es = concat (map (cluster_bytes v m) cs)))"
proof (intro conjI allI impI iffI)
  show "\<exists>d. (c, d) \<in> (link_rel v m)\<^sup>* \<and> (d, d) \<in> (link_rel v m)\<^sup>+" if "read_chained_dir_entries v m c = None"
    using acyclic_chain_ends [of c v m] read_chained_chain [OF assms] that by fastforce
  show "read_chained_dir_entries v m c = None" if "\<exists>d. (c, d) \<in> (link_rel v m)\<^sup>* \<and> (d, d) \<in> (link_rel v m)\<^sup>+"
    using that read_chained_returns [OF assms] chain_no_cycle by blast
  fix cs assume "chain v m c cs"
  then show "\<exists>es. read_chained_dir_entries v m c = Some (Ok es) \<and> concat es = concat (map (cluster_bytes v m) cs)"
    using read_chained_chain [OF assms] chain_entries_bytes [OF _ assms] by blast
qed

theorem chain_reading_ends_witness:
  "read_chained_dir_entries demo_volume demo_mem 5 = None \<and>
   (\<exists>es. read_chained_dir_entries demo_volume demo_mem 4 = Some (Ok es) \<and> concat es = replicate 512 8 @ replicate 512 7)"
proof
  have "(5, 5) \<in> link_rel demo_volume demo_mem" by (simp add: link_rel_def links_demo)
  then have "\<exists>d. (5, d) \<in> (link_rel demo_volume demo_mem)\<^sup>* \<and> (d, d) \<in> (link_rel demo_volume demo_mem)\<^sup>+" by blast
  then show "read_chained_dir_entries demo_volume demo_mem 5 = None"
    using chain_reading_ends [OF fat32_demo, of 5] by simp
  show "\<exists>es. read_chained_dir_entries demo_volume demo_mem 4 = Some (Ok es) \<and> concat es = replicate 512 8 @ replicate 512 7"
    using chain_reading_ends [OF fat32_demo, of 4] chain_demo(2) cluster_bytes_demo by fastforce
qed

end
