(* ===== verification/Fat_Names.thy ===== *)
theory Fat_Names
  imports Fat
begin

text \<open>
  Long names in FAT directories: the layout that the format prescribes, and that the scan of a directory reads a
  name back from it.
\<close>

subsection \<open>Trimming\<close>

text \<open>Short names are padded with spaces, which \<open>trim\<close> takes off.\<close>

definition graphic :: "char \<Rightarrow> bool" where
  "graphic c \<longleftrightarrow> 33 \<le> (of_char c :: nat) \<and> (of_char c :: nat) \<le> 126"

lemma white_space_bytes:
  "w \<in> set white_space \<Longrightarrow> w \<noteq> [] \<and> \<not> graphic (char_of (unat (hd w))) \<and> \<not> graphic (char_of (unat (last w)))"
  by (auto simp: white_space_def graphic_def)

lemma trim_start_graphic:
  assumes "s \<noteq> []" and "graphic (hd s)"
  shows "trim_start s = s"
proof -
  have "take (length w) s \<noteq> to_string w" if "w \<in> set white_space" for w
  proof
    assume "take (length w) s = to_string w"
    moreover have "w \<noteq> []" "\<not> graphic (char_of (unat (hd w)))" using white_space_bytes [OF that] by auto
    ultimately have "hd s = char_of (unat (hd w))" using assms(1) by (cases w; cases s) (auto simp: to_string_def)
    then show False using assms(2) \<open>\<not> graphic (char_of (unat (hd w)))\<close> by simp
  qed
  then have "find (\<lambda>w. take (length w) s = to_string w) white_space = None" by (simp add: find_None_iff)
  then show ?thesis by (simp add: trim_start.simps [of s])
qed

lemma trim_end_graphic:
  assumes "s \<noteq> []" and "graphic (last s)"
  shows "trim_end s = s"
proof -
  have "drop (length s - length w) s \<noteq> to_string w" if "w \<in> set white_space" for w
  proof
    assume eq: "drop (length s - length w) s = to_string w"
    have w: "w \<noteq> []" "\<not> graphic (char_of (unat (last w)))" using white_space_bytes [OF that] by auto
    then have "last (to_string w) = char_of (unat (last w))" by (simp add: to_string_def last_map)
    moreover have "length s - length w < length s" using w(1) assms(1) by simp
    then have "last (drop (length s - length w) s) = last s" by (rule last_drop)
    ultimately show False using assms(2) w(2) eq by simp
  qed
  then have "find (\<lambda>w. drop (length s - length w) s = to_string w) white_space = None" by (simp add: find_None_iff)
  then show ?thesis by (simp add: trim_end.simps [of s])
qed

lemma char_of_space: "CHR '' '' = char_of (32 :: nat)"
  by code_simp

lemma trim_end_space: "trim_end (s @ '' '') = trim_end s"
proof -
  have "find (\<lambda>w. drop (length (s @ '' '') - length w) (s @ '' '') = to_string w) white_space = Some [0x20]"
    by (simp add: white_space_def to_string_def char_of_space)
  then show ?thesis by (simp add: trim_end.simps [of "s @ '' ''"])
qed

lemma trim_padded:
  assumes "s \<noteq> []" and "graphic (hd s)" and "graphic (last s)"
  shows "trim (s @ replicate n CHR '' '') = s"
proof -
  have "trim_end (s @ replicate n CHR '' '') = s"
  proof (induction n)
    case (Suc n)
    then show ?case using trim_end_space [of "s @ replicate n CHR '' ''"] by (simp add: replicate_append_same)
  qed (use trim_end_graphic assms in simp)
  then show ?thesis using trim_start_graphic [of "s @ replicate n CHR '' ''"] assms by (simp add: trim_def)
qed

subsection \<open>Long names\<close>

text \<open>
  The reference: how a long name is laid out in a directory. A name is cut into pieces of thirteen characters,
  UTF-16 with the low byte first; a short piece is closed by a zero and filled up with ones. The pieces stand in
  reverse order in front of the entry they name, numbered from 1 up, and the last piece is marked.
\<close>

definition lfn_units :: "u8 list \<Rightarrow> u8 list list" where
  "lfn_units cs = map (\<lambda>c. [c, 0]) cs @ (if length cs < 13 then [0, 0] # replicate (12 - length cs) [0xff, 0xff] else [])"

definition lfn_entry :: "u8 \<Rightarrow> u8 \<Rightarrow> u8 list \<Rightarrow> DirectoryEntry" where
  "lfn_entry seq check cs =
     [seq] @ concat (take 5 (lfn_units cs)) @ [0x0f, 0, check] @ concat (take 6 (drop 5 (lfn_units cs))) @ [0, 0] @
     concat (drop 11 (lfn_units cs))"

function lfn_encode :: "u8 \<Rightarrow> nat \<Rightarrow> u8 list \<Rightarrow> DirectoryEntry list" where
  "lfn_encode check k s =
     (if s = [] then []
      else lfn_encode check (k + 1) (drop 13 s) @
        [lfn_entry (word_of_nat k + (if length s \<le> 13 then 0x40 else 0)) check (take 13 s)])"
  by pat_completeness auto

termination lfn_encode by (relation "measure (\<lambda>(check, k, s). length s)") auto

declare lfn_encode.simps [simp del]

fun upto_zero :: "u8 list \<Rightarrow> u8 list" where
  "upto_zero [] = []"
| "upto_zero (u # us) = u # (if u = 0 then [] else upto_zero us)"

lemma push_units:
  "foldl (push_unit e) buf ps = (if 0 \<in> set buf then buf else buf @ upto_zero (map (\<lambda>i. or (e ! i) (e ! (i + 1))) ps))"
  by (induction ps arbitrary: buf) (auto simp: push_unit_def)

lemma length_13:
  assumes "length us = 13"
  obtains u1 u2 u3 u4 u5 u6 u7 u8 u9 u10 u11 u12 u13 where "us = [u1, u2, u3, u4, u5, u6, u7, u8, u9, u10, u11, u12, u13]"
  using assms by (auto simp: numeral_eq_Suc length_Suc_conv)

text \<open>The units of an entry, read back.\<close>

lemma lfn_entry_read:
  assumes "length cs \<le> 13"
  shows "map (\<lambda>i. or (lfn_entry q k cs ! i) (lfn_entry q k cs ! (i + 1))) lfn_positions =
      map (\<lambda>u. or (u ! 0) (u ! 1)) (lfn_units cs)"
    and "lfn_entry q k cs ! 0 = q" and "lfn_entry q k cs ! 11 = 0x0f"
proof -
  define ps :: "(u8 \<times> u8) list" where
    "ps = map (\<lambda>c. (c, 0)) cs @ (if length cs < 13 then (0, 0) # replicate (12 - length cs) (0xff, 0xff) else [])"
  have units: "lfn_units cs = map (\<lambda>p. [fst p, snd p]) ps" by (simp add: lfn_units_def ps_def comp_def)
  have "length ps = 13" using assms by (simp add: ps_def)
  then obtain p1 p2 p3 p4 p5 p6 p7 p8 p9 p10 p11 p12 p13
    where p: "ps = [p1, p2, p3, p4, p5, p6, p7, p8, p9, p10, p11, p12, p13]" by (rule length_13)
  show "map (\<lambda>i. or (lfn_entry q k cs ! i) (lfn_entry q k cs ! (i + 1))) lfn_positions =
      map (\<lambda>u. or (u ! 0) (u ! 1)) (lfn_units cs)" "lfn_entry q k cs ! 0 = q" "lfn_entry q k cs ! 11 = 0x0f"
    by (simp_all add: lfn_entry_def units p lfn_positions_def)
qed

lemma upto_zero_plain: "0 \<notin> set cs \<Longrightarrow> upto_zero (cs @ 0 # rest) = cs @ [0]" "0 \<notin> set cs \<Longrightarrow> upto_zero cs = cs"
  by (induction cs) auto

definition ascii :: "u8 list \<Rightarrow> bool" where
  "ascii s \<longleftrightarrow> (\<forall>c\<in>set s. 0 < c \<and> c < 0x80)"

lemma ascii_utf8: "ascii cs \<Longrightarrow> concat (map utf8_of_unit cs) = cs"
  by (induction cs) (auto simp: ascii_def utf8_of_unit_def)

lemma ascii_no_zero: "ascii cs \<Longrightarrow> 0 \<notin> set cs"
  by (auto simp: ascii_def)

lemma lf_name_entry:
  assumes len: "length cs \<le> 13" and asc: "ascii cs"
  shows "lf_name (lfn_entry q k cs) = Some (to_string cs)"
proof -
  note z = ascii_no_zero [OF asc]
  have "is_lf_name_entry (lfn_entry q k cs)"
    using lfn_entry_read(3) [OF len, of q k] by (simp add: is_lf_name_entry_def entry_attr_def)
  moreover have "foldl (push_unit (lfn_entry q k cs)) [] lfn_positions = cs @ (if length cs < 13 then [0] else [])"
    using lfn_entry_read(1) [OF len, of q k] z
    by (simp add: push_units lfn_units_def upto_zero_plain comp_def)
  moreover have "filter (\<lambda>b. b \<noteq> 0) cs = cs" using z by (auto simp: filter_id_conv)
  ultimately show ?thesis using ascii_utf8 [OF asc] by (simp add: lf_name_def utf8_of_unit_def)
qed

lemma long_name_part_entry:
  assumes "length cs \<le> 13" and "ascii cs" and "q \<noteq> 0"
  shows "long_name_part (lfn_entry q k cs) = Some (to_string cs)" "entry_type (lfn_entry q k cs) \<noteq> NullEntry"
proof -
  have "is_lf_name_entry (lfn_entry q k cs)"
    using lfn_entry_read(3) [OF assms(1), of q k] by (simp add: is_lf_name_entry_def entry_attr_def)
  moreover have "1 \<le> unat q" using assms(3) by (simp add: Suc_le_eq unat_gt_0)
  ultimately show "long_name_part (lfn_entry q k cs) = Some (to_string cs)"
    using lf_name_entry [OF assms(1,2)] lfn_entry_read(2) [OF assms(1), of q k]
    by (simp add: long_name_part_def lfn_entry_index_def)
  show "entry_type (lfn_entry q k cs) \<noteq> NullEntry"
    using lfn_entry_read(2) [OF assms(1), of q k] assms(3) by (simp add: entry_type_def)
qed

lemma small_word_nonzero: "0 < n \<Longrightarrow> n < 256 \<Longrightarrow> (word_of_nat n :: u8) \<noteq> 0"
  by (auto simp: word_of_nat_eq_0_iff dest: dvd_imp_le)

lemma seq_nonzero:
  assumes "1 \<le> k" and "k \<le> 20"
  shows "word_of_nat k + (if b then 0x40 else 0) \<noteq> (0 :: u8)"
  using assms small_word_nonzero [of k] small_word_nonzero [of "k + 64"] by simp

lemma scan_lfn:
  "ascii s \<Longrightarrow> 1 \<le> k \<Longrightarrow> 13 * k + length s \<le> 273 \<Longrightarrow>
   \<exists>parts. scan_loop (lfn_encode check k s @ es) buf = scan_loop es (parts @ buf) \<and> concat parts = to_string s \<and> (s \<noteq> [] \<longrightarrow> parts \<noteq> [])"
proof (induction check k s arbitrary: es rule: lfn_encode.induct)
  case (1 check k s)
  show ?case
  proof (cases "s = []")
    case False
    let ?e = "lfn_entry (word_of_nat k + (if length s \<le> 13 then 0x40 else 0)) check (take 13 s)"
    have asc: "ascii (take 13 s)" "ascii (drop 13 s)" using "1.prems"(1) by (auto simp: ascii_def dest: in_set_takeD in_set_dropD)
    have "k \<le> 20" using "1.prems"(2,3) False by (cases s) auto
    note part = long_name_part_entry [OF _ asc(1) seq_nonzero [OF "1.prems"(2) this], of "length s \<le> 13" check]
    have step: "scan_loop (?e # es) b = scan_loop es (to_string (take 13 s) # b)" for b using part by simp
    have "13 * (k + 1) + length (drop 13 s) \<le> 273 \<or> drop 13 s = []" using "1.prems"(3) by auto
    then obtain parts where parts: "scan_loop (lfn_encode check (k + 1) (drop 13 s) @ ?e # es) buf = scan_loop (?e # es) (parts @ buf)"
      "concat parts = to_string (drop 13 s)"
    proof
      assume "13 * (k + 1) + length (drop 13 s) \<le> 273"
      then show thesis using "1.IH" [OF False asc(2), of "?e # es"] that by auto
    next
      assume "drop 13 s = []"
      then show thesis using that [of "[]"] by (simp add: lfn_encode.simps to_string_def)
    qed
    have "to_string s = to_string (take 13 s) @ to_string (drop 13 s)" by (simp add: to_string_def flip: map_append)
    then show ?thesis using parts step
      by (intro exI [of _ "to_string (take 13 s) # parts"]) (simp add: lfn_encode.simps [of check k s] False)
  next
    case True
    then show ?thesis by (intro exI [of _ "[]"]) (simp add: lfn_encode.simps to_string_def)
  qed
qed

text \<open>Long file names are read back as they were written. For every ASCII name of up to 255 characters, laid
  out in front of a file's or a directory's entry as the format prescribes, the scan of the directory lists the entry
  under this name with its size and first cluster, and goes on behind it.\<close>

theorem long_name_roundtrip:
  assumes "ascii s" and "s \<noteq> []" and "length s \<le> 255" and "entry_attr e = Some a" and "a = Archive \<or> a = DirectoryAttr"
  shows "scan_loop (lfn_encode check 1 s @ e # rest) [] =
    \<lparr>fm_name = to_string s, fm_attr = a, fm_size = entry_file_size e, fm_target_cluster_num = first_cluster_num e\<rparr> #
    scan_loop rest []"
proof -
  obtain parts where parts: "scan_loop (lfn_encode check 1 s @ e # rest) [] = scan_loop (e # rest) parts"
    "concat parts = to_string s" "parts \<noteq> []"
    using scan_lfn [OF assms(1), of 1 check "e # rest" "[]"] assms(2,3) by auto
  moreover have "long_name_part e = None"
    using assms(4,5) by (auto simp: long_name_part_def lf_name_def is_lf_name_entry_def)
  ultimately show ?thesis using assms(4,5) by (auto simp: entry_metadata_def)
qed

definition demo_entry :: DirectoryEntry where
  "demo_entry = [0x4c, 0x4f, 0x4e, 0x47, 0x7e, 0x31, 0x20, 0x20, 0x20, 0x20, 0x20, 0x20] @ replicate 14 0 @ [4, 0, 0x58, 2, 0, 0]"

lemmas demo_entry_run = demo_entry_def entry_attr_def entry_file_size_def first_cluster_num_def nth_append

theorem long_name_roundtrip_witness:
  "scan_loop (lfn_encode 7 1 (replicate 200 0x61) @ [demo_entry]) [] =
    [\<lparr>fm_name = replicate 200 CHR ''a'', fm_attr = Archive, fm_size = 600, fm_target_cluster_num = 4\<rparr>]"
proof -
  have "entry_attr demo_entry = Some Archive" "entry_file_size demo_entry = 600" "first_cluster_num demo_entry = 4"
    by (simp_all add: demo_entry_run)
  moreover have "to_string (replicate 200 0x61) = replicate 200 CHR ''a''"
  proof -
    have "char_of (unat (0x61 :: u8)) = CHR ''a''" by code_simp
    then show ?thesis by (simp only: to_string_def map_replicate)
  qed
  moreover have "ascii (replicate 200 0x61)" by (simp add: ascii_def)
  ultimately show ?thesis using long_name_roundtrip [of "replicate 200 0x61" demo_entry Archive 7 "[]"] by simp
qed

text \<open>
  Two departures from the format. A deleted entry, its first byte \<open>0xe5\<close>, is listed like any other: \<open>entry_type\<close> tells
  it apart but \<open>scan_dir\<close> does not ask for it.
\<close>

lemma deleted_entry_listed:
  "let e = demo_entry[0 := 0xe5] in entry_type e = UnusedEntry \<and> map fm_target_cluster_num (scan_loop [e] []) = [4]"
  by (simp add: demo_entry_def Let_def entry_type_def entry_attr_def long_name_part_def lf_name_def is_lf_name_entry_def
      entry_metadata_def first_cluster_num_def nth_append)

text \<open>A unit above \<open>0xff\<close> loses its upper byte into the lower one: U+0141 is read as \<open>A\<close>.\<close>

lemma wide_unit_folded:
  "lf_name ([0x41, 0x41, 0x01, 0, 0] @ replicate 6 0xff @ [0x0f, 0, 7] @ replicate 18 0xff) = Some ''A''"
  by code_simp

end
