(* ===== verification/Vfs_Tree.thy ===== *)
theory Vfs_Tree
  imports Vfs
begin

text \<open>
  The invariant of the virtual file system and that every operation keeps it. \<open>tree_ok\<close>: the files form a
  tree of directories under the root, parent and child links agree, ids grow from parent to child, siblings
  have different names, pipes hang outside of the tree. \<open>fds_ok\<close>: descriptor numbers are unique, every
  descriptor is backed by something that exists, a file is open at most once, and a pipe is kept exactly as long as one
  of its ends is open and reports end-of-file exactly when no write end is.
\<close>

named_theorems vfs_defs

definition valid_name :: "string \<Rightarrow> bool" where
  "valid_name s \<longleftrightarrow> s \<noteq> CURRENT_DIR \<and> s \<noteq> PARENT_DIR \<and> (component s \<or> s = ROOT)"

definition kids_ok :: "(VfsFileId \<Rightarrow> 'w FileInfo option) \<Rightarrow> VfsFileId \<Rightarrow> 'w FileInfo \<Rightarrow> bool" where
  "kids_ok F i f \<longleftrightarrow> distinct (f_children f) \<and> inj_on (\<lambda>c. map_option f_name (F c)) (set (f_children f)) \<and>
     (\<forall>c\<in>set (f_children f). \<exists>g. F c = Some g \<and> f_parent g = i \<and> i < c \<and> \<not> is_Pipe (f_ty g))"

definition up_ok :: "(VfsFileId \<Rightarrow> 'w FileInfo option) \<Rightarrow> VfsFileId \<Rightarrow> VfsFileId \<Rightarrow> 'w FileInfo \<Rightarrow> bool" where
  "up_ok F r i f \<longleftrightarrow> (if i = r then f_parent f = r \<and> is_Directory (f_ty f) \<and> f_name f = ROOT
     else \<exists>p. F (f_parent f) = Some p \<and> f_parent f < i \<and>
       (if is_Pipe (f_ty f) then f_parent f = r else i \<in> set (f_children p)))"

definition shape_ok :: "'w FileInfo \<Rightarrow> bool" where
  "shape_ok f \<longleftrightarrow> (is_Directory (f_ty f) \<or> f_children f = [] \<and> f_fs f = None) \<and>
     (is_Pipe (f_ty f) \<longleftrightarrow> f_pipe f \<noteq> None) \<and> (is_Pipe (f_ty f) \<or> valid_name (f_name f)) \<and>
     (\<forall>b. f_buf f = Some b \<longrightarrow> length b \<le> ISIZE_MAX)"

definition tree_ok :: "(VfsFileId \<Rightarrow> 'w FileInfo option) \<Rightarrow> VfsFileId \<Rightarrow> nat \<Rightarrow> bool" where
  "tree_ok F r n \<longleftrightarrow> F r \<noteq> None \<and>
     (\<forall>i f. F i = Some f \<longrightarrow> i < n \<and> kids_ok F i f \<and> up_ok F r i f \<and> shape_ok f)"

definition backing_ok :: "(VfsFileId \<Rightarrow> 'w FileInfo option) \<Rightarrow> FileDescriptor \<Rightarrow> bool" where
  "backing_ok F d \<longleftrightarrow>
     (case fd_backing d of
        BackVfs i \<Rightarrow> (\<exists>f. F i = Some f \<and> \<not> is_Directory (f_ty f) \<and> (is_Pipe (f_ty f) \<longleftrightarrow> fd_pipe_end d \<noteq> None))
      | BackFs m rel \<Rightarrow> fd_pipe_end d = None \<and> (\<exists>f. F m = Some f \<and> f_fs f \<noteq> None))"

definition pipe_ok :: "FileDescriptor list \<Rightarrow> VfsFileId \<Rightarrow> 'w FileInfo \<Rightarrow> bool" where
  "pipe_ok ds i f \<longleftrightarrow> (\<forall>pipe. f_pipe f = Some pipe \<longrightarrow>
     (\<exists>d\<in>set ds. fd_backing d = BackVfs i) \<and>
     (write_closed pipe \<longleftrightarrow> \<not> (\<exists>d\<in>set ds. fd_backing d = BackVfs i \<and> fd_pipe_end d = Some WriteEnd)))"

definition fds_base :: "(VfsFileId \<Rightarrow> 'w FileInfo option) \<Rightarrow> FileDescriptor list \<Rightarrow> nat \<Rightarrow> bool" where
  "fds_base F ds n \<longleftrightarrow> distinct (map fd_num ds) \<and> (\<forall>d\<in>set ds. 3 \<le> fd_num d \<and> fd_num d < n \<and> backing_ok F d) \<and>
     (\<forall>d\<in>set ds. \<forall>e\<in>set ds. \<forall>i. fd_backing d = BackVfs i \<longrightarrow> fd_backing e = BackVfs i \<longrightarrow>
        fd_pipe_end d = None \<longrightarrow> fd_num d = fd_num e)"

definition pipes_ok :: "(VfsFileId \<Rightarrow> 'w FileInfo option) \<Rightarrow> FileDescriptor list \<Rightarrow> bool" where
  "pipes_ok F ds \<longleftrightarrow> (\<forall>i f. F i = Some f \<longrightarrow> pipe_ok ds i f)"

definition fds_ok :: "(VfsFileId \<Rightarrow> 'w FileInfo option) \<Rightarrow> FileDescriptor list \<Rightarrow> nat \<Rightarrow> bool" where
  "fds_ok F ds n \<longleftrightarrow> fds_base F ds n \<and> pipes_ok F ds"

definition vfs_inv :: "'w vfs \<Rightarrow> bool" where
  "vfs_inv v \<longleftrightarrow> bt_inv (files v) \<and>
     (\<exists>r c. root_id v = Some r \<and> cwd_path v = Some c \<and> is_abs c \<and> normalize c = c \<and>
        tree_ok (find_file v) r (next_file_id v)) \<and>
     3 \<le> next_fd v \<and> fds_ok (find_file v) (fds v) (next_fd v)"

subsection \<open>Changing nodes\<close>

definition same_place :: "'w FileInfo \<Rightarrow> 'w FileInfo \<Rightarrow> bool" where
  "same_place f g \<longleftrightarrow> f_ty g = f_ty f \<and> f_name g = f_name f \<and> f_parent g = f_parent f \<and>
     f_children g = f_children f \<and> (is_Directory (f_ty f) \<or> f_fs g = f_fs f) \<and>
     (f_pipe g = None \<longleftrightarrow> f_pipe f = None) \<and>
     (f_buf g = f_buf f \<or> (\<exists>b. f_buf g = Some b \<and> length b \<le> ISIZE_MAX))"

lemma find_file_upd [simp]:
  "find_file (upd_file i g v) = (\<lambda>j. if j = i then map_option g (find_file v i) else find_file v j)"
  by (rule ext) (simp add: upd_file_def find_file_def split: option.splits)

lemma upd_file_fields [simp]:
  "root_id (upd_file i g v) = root_id v" "cwd_path (upd_file i g v) = cwd_path v"
  "fds (upd_file i g v) = fds v" "next_file_id (upd_file i g v) = next_file_id v"
  "next_fd (upd_file i g v) = next_fd v" "world (upd_file i g v) = world v"
  by (simp_all add: upd_file_def split: option.splits)

lemma upd_file_bt [simp]: "bt_inv (files v) \<Longrightarrow> bt_inv (files (upd_file i g v))"
  by (simp add: upd_file_def split: option.splits)

lemma find_file_fields [simp]:
  "find_file (v\<lparr>fds := x\<rparr>) = find_file v" "find_file (v\<lparr>world := w\<rparr>) = find_file v"
  "find_file (v\<lparr>cwd_path := c\<rparr>) = find_file v" "find_file (v\<lparr>next_fd := n\<rparr>) = find_file v"
  "find_file (v\<lparr>next_file_id := n\<rparr>) = find_file v"
  by (simp_all add: fun_eq_iff find_file_def)

lemma find_file_insert [simp]:
  "find_file (v\<lparr>files := bt_insert i f (files v)\<rparr>) = (find_file v)(i \<mapsto> f)"
  by (rule ext) (simp add: find_file_def)

lemma find_file_remove [simp]:
  "bt_inv (files v) \<Longrightarrow> find_file (v\<lparr>files := bt_remove i (files v)\<rparr>) = (find_file v)(i := None)"
  by (rule ext) (simp add: find_file_def)

lemma tree_okD:
  "tree_ok F r n \<Longrightarrow> F i = Some f \<Longrightarrow> i < n \<and> kids_ok F i f \<and> up_ok F r i f \<and> shape_ok f"
  by (simp add: tree_ok_def)

lemma tree_root: "tree_ok F r n \<Longrightarrow> \<exists>f. F r = Some f \<and> is_Directory (f_ty f)"
  by (auto simp: tree_ok_def up_ok_def)

lemma tree_okI:
  "F r \<noteq> None \<Longrightarrow> (\<And>i f. F i = Some f \<Longrightarrow> i < n) \<Longrightarrow> (\<And>i f. F i = Some f \<Longrightarrow> kids_ok F i f) \<Longrightarrow>
   (\<And>i f. F i = Some f \<Longrightarrow> up_ok F r i f) \<Longrightarrow> (\<And>i f. F i = Some f \<Longrightarrow> shape_ok f) \<Longrightarrow> tree_ok F r n"
  by (simp add: tree_ok_def)

lemma tree_same_place:
  assumes "tree_ok F r n" and "F i = Some f" and "same_place f g"
  shows "tree_ok (F(i \<mapsto> g)) r n"
proof (rule tree_okI)
  have at: "\<exists>y. F j = Some y \<and> same_place y x" if "(F(i \<mapsto> g)) j = Some x" for j x
    using that assms(2,3) by (cases "j = i") (auto simp: same_place_def)
  have to: "\<exists>x. (F(i \<mapsto> g)) j = Some x \<and> same_place y x" if "F j = Some y" for j y
    using that assms(2,3) by (cases "j = i") (auto simp: same_place_def)
  have nm: "map_option f_name ((F(i \<mapsto> g)) c) = map_option f_name (F c)" for c
    using assms(2,3) by (simp add: same_place_def)
  show "(F(i \<mapsto> g)) r \<noteq> None" using assms(1) by (simp add: tree_ok_def)
  fix j x assume x: "(F(i \<mapsto> g)) j = Some x"
  then obtain y where y: "F j = Some y" "same_place y x" using at by blast
  note old = tree_okD [OF assms(1) y(1)]
  show "j < n" using old by simp
  show "shape_ok x" using old y(2) by (auto simp: shape_ok_def same_place_def)
  show "kids_ok (F(i \<mapsto> g)) j x" unfolding kids_ok_def nm
  proof (intro conjI ballI)
    have ch: "f_children x = f_children y" using y(2) by (simp add: same_place_def)
    show "distinct (f_children x)" "inj_on (\<lambda>c. map_option f_name (F c)) (set (f_children x))"
      using old by (simp_all add: kids_ok_def ch)
    fix c assume "c \<in> set (f_children x)"
    then obtain z where "F c = Some z" "f_parent z = j" "j < c" "\<not> is_Pipe (f_ty z)"
      using old ch by (auto simp: kids_ok_def)
    then show "\<exists>z. (F(i \<mapsto> g)) c = Some z \<and> f_parent z = j \<and> j < c \<and> \<not> is_Pipe (f_ty z)"
      using to [of c z] by (auto simp: same_place_def)
  qed
  show "up_ok (F(i \<mapsto> g)) r j x"
  proof (cases "j = r")
    case False
    then obtain p where p: "F (f_parent y) = Some p" "f_parent y < j"
      "if is_Pipe (f_ty y) then f_parent y = r else j \<in> set (f_children p)"
      using old by (auto simp: up_ok_def)
    then obtain q where "(F(i \<mapsto> g)) (f_parent y) = Some q" "same_place p q" using to by blast
    then show ?thesis using p y(2) False by (auto simp: up_ok_def same_place_def)
  qed (use old y(2) in \<open>auto simp: up_ok_def same_place_def\<close>)
qed

lemma tree_add_child:
  assumes tree: "tree_ok F r n" and p: "F p = Some pf" "is_Directory (f_ty pf)"
    and new: "n \<le> i" "i < m" "f_parent info = p" "f_children info = []" "\<not> is_Pipe (f_ty info)" "shape_ok info"
    and name: "\<And>c g. c \<in> set (f_children pf) \<Longrightarrow> F c = Some g \<Longrightarrow> f_name g \<noteq> f_name info"
  shows "tree_ok (F(i \<mapsto> info, p \<mapsto> pf\<lparr>f_children := f_children pf @ [i]\<rparr>)) r m" (is "tree_ok ?G r m")
proof -
  define G where "G = ?G"
  have p_lt: "p < n" using tree_okD [OF tree p(1)] by simp
  have fresh: "F i = None" using tree_okD [OF tree] new(1) by (metis leD not_Some_eq)
  have Gp: "G p = Some (pf\<lparr>f_children := f_children pf @ [i]\<rparr>)" by (simp add: G_def)
  have Gi: "G i = Some info" using p_lt new(1) by (simp add: G_def)
  have Gj: "G j = F j" if "j \<noteq> i" "j \<noteq> p" for j using that by (simp add: G_def)
  have r_i: "r \<noteq> i" using tree fresh by (auto simp: tree_ok_def)
  have in_pf: "i \<notin> set (f_children pf)"
    using tree_okD [OF tree p(1)] fresh by (auto simp: kids_ok_def)
  have to: "\<exists>x. G j = Some x \<and> f_ty x = f_ty y \<and> f_parent x = f_parent y \<and> set (f_children y) \<subseteq> set (f_children x)"
    if "F j = Some y" for j y
    using that p fresh p_lt new(1) Gp Gj [of j] by (cases "j = p"; cases "j = i") auto
  have nm: "map_option f_name (G c) = map_option f_name (F c)" if "c \<noteq> i" for c
    using that p(1) Gp Gj [of c] by (cases "c = p") auto
  have old_kids: "kids_ok G j y" if y: "F j = Some y" for j y
    unfolding kids_ok_def
  proof (intro conjI ballI)
    note old = tree_okD [OF tree y]
    have noti: "i \<notin> set (f_children y)" using old fresh by (auto simp: kids_ok_def)
    show "distinct (f_children y)" using old by (simp add: kids_ok_def)
    show "inj_on (\<lambda>c. map_option f_name (G c)) (set (f_children y))"
      using old noti nm unfolding kids_ok_def inj_on_def by metis
    fix c assume "c \<in> set (f_children y)"
    then obtain z where "F c = Some z" "f_parent z = j" "j < c" "\<not> is_Pipe (f_ty z)"
      using old by (auto simp: kids_ok_def)
    then show "\<exists>z. G c = Some z \<and> f_parent z = j \<and> j < c \<and> \<not> is_Pipe (f_ty z)"
      using to [of c z] by auto
  qed
  have new_kids: "kids_ok G p (pf\<lparr>f_children := f_children pf @ [i]\<rparr>)"
    unfolding kids_ok_def
  proof (intro conjI ballI)
    note old = old_kids [OF p(1), unfolded kids_ok_def]
    let ?pf = "pf\<lparr>f_children := f_children pf @ [i]\<rparr>"
    show "distinct (f_children ?pf)" using old in_pf by simp
    have ne: "map_option f_name (G c) \<noteq> map_option f_name (G i)" if ch: "c \<in> set (f_children pf)" for c
    proof -
      obtain z where z: "F c = Some z" using ch tree_okD [OF tree p(1)] by (auto simp: kids_ok_def)
      have "c \<noteq> i" using ch in_pf by auto
      then have "map_option f_name (G c) = Some (f_name z)" using nm z by simp
      moreover have "map_option f_name (G i) = Some (f_name info)" by (simp add: Gi)
      ultimately show ?thesis using name [OF ch z] by (simp only: option.inject not_False_eq_True)
    qed
    have kids: "set (f_children ?pf) = insert i (set (f_children pf))" by simp
    show "inj_on (\<lambda>c. map_option f_name (G c)) (set (f_children ?pf))"
      unfolding kids inj_on_insert
    proof
      show "inj_on (\<lambda>c. map_option f_name (G c)) (set (f_children pf))" using old by blast
      show "map_option f_name (G i) \<notin> (\<lambda>c. map_option f_name (G c)) ` (set (f_children pf) - {i})"
      proof
        assume "map_option f_name (G i) \<in> (\<lambda>c. map_option f_name (G c)) ` (set (f_children pf) - {i})"
        then obtain c where "c \<in> set (f_children pf)" "map_option f_name (G c) = map_option f_name (G i)" by force
        then show False using ne by blast
      qed
    qed
    fix c assume c: "c \<in> set (f_children ?pf)"
    show "\<exists>z. G c = Some z \<and> f_parent z = p \<and> p < c \<and> \<not> is_Pipe (f_ty z)"
    proof (cases "c = i")
      case True
      then show ?thesis using Gi new p_lt by simp
    next
      case False
      then show ?thesis using c old by auto
    qed
  qed
  have "tree_ok G r m"
  proof (rule tree_okI)
    show "G r \<noteq> None" using tree Gp Gj [OF r_i] by (cases "r = p") (auto simp: tree_ok_def)
    fix j x assume x: "G j = Some x"
    consider "j = p" "x = pf\<lparr>f_children := f_children pf @ [i]\<rparr>" | "j = i" "j \<noteq> p" "x = info" | "j \<noteq> i" "F j = Some x" "j \<noteq> p"
      using x Gp Gi Gj [of j] by (cases "j = p"; cases "j = i") auto
    note cases = this
    show "j < m" using cases tree_okD [OF tree] p_lt new by (metis le_less_trans order.strict_trans1 less_imp_le)
    have "shape_ok (pf\<lparr>f_children := f_children pf @ [i]\<rparr>)"
      using tree_okD [OF tree p(1)] p(2) by (auto simp: shape_ok_def)
    then show "shape_ok x" using cases tree_okD [OF tree] new(6) by metis
    show "kids_ok G j x"
    proof (rule cases)
      assume "j = i" "j \<noteq> p" "x = info"
      then show ?thesis using new(4) by (simp add: kids_ok_def)
    qed (use new_kids old_kids in auto)
    show "up_ok G r j x"
    proof (rule cases)
      assume "j = i" "j \<noteq> p" "x = info"
      then show ?thesis using new p_lt r_i Gp by (simp add: up_ok_def)
    next
      assume j: "j = p" "x = pf\<lparr>f_children := f_children pf @ [i]\<rparr>"
      then show ?thesis using tree_okD [OF tree p(1)] to p(2) unfolding up_ok_def by (fastforce split: if_splits)
    next
      assume j: "j \<noteq> i" "F j = Some x" "j \<noteq> p"
      then show ?thesis using tree_okD [OF tree j(2)] to unfolding up_ok_def by (fastforce split: if_splits)
    qed
qed
  then show ?thesis by (simp add: G_def)
qed

lemma tree_add_pipe:
  assumes tree: "tree_ok F r n" and new: "n \<le> i" "i < m" "f_parent info = r" "f_children info = []"
    "is_Pipe (f_ty info)" "shape_ok info"
  shows "tree_ok (F(i \<mapsto> info)) r m"
proof (rule tree_okI)
  obtain rf where rf: "F r = Some rf" using tree by (auto simp: tree_ok_def)
  have r_lt: "r < n" using tree_okD [OF tree rf] by simp
  have fresh: "F i = None" using tree_okD [OF tree] new(1) by (metis leD not_Some_eq)
  have to: "(F(i \<mapsto> info)) j = Some y" if "F j = Some y" for j y using that fresh by auto
  show "(F(i \<mapsto> info)) r \<noteq> None" using rf by simp
  fix j x assume x: "(F(i \<mapsto> info)) j = Some x"
  show "j < m" using x tree_okD [OF tree, of j] new by (fastforce split: if_splits)
  show "shape_ok x" using x tree_okD [OF tree, of j] new by (auto split: if_splits)
  show "kids_ok (F(i \<mapsto> info)) j x"
  proof (cases "j = i")
    case False
    then have old: "F j = Some x" using x by simp
    have "c \<noteq> i" if "c \<in> set (f_children x)" for c
      using that tree_okD [OF tree old] fresh by (auto simp: kids_ok_def)
    then have "inj_on (\<lambda>c. map_option f_name ((F(i \<mapsto> info)) c)) (set (f_children x))
        = inj_on (\<lambda>c. map_option f_name (F c)) (set (f_children x))"
      by (intro inj_on_cong) auto
    then show ?thesis using tree_okD [OF tree old] to unfolding kids_ok_def by fastforce
  qed (use x new(4) in \<open>simp add: kids_ok_def\<close>)
  show "up_ok (F(i \<mapsto> info)) r j x"
  proof (cases "j = i")
    case True
    then show ?thesis using x new r_lt rf by (auto simp: up_ok_def)
  next
    case False
    then have "up_ok F r j x" using x tree_okD [OF tree, of j x] by simp
    then show ?thesis using to unfolding up_ok_def by (fastforce split: if_splits)
  qed
qed

lemma tree_remove_pipe:
  assumes tree: "tree_ok F r n" and p: "F i = Some f" "is_Pipe (f_ty f)"
  shows "tree_ok (F(i := None)) r n"
proof (rule tree_okI)
  have no_dir: "\<not> is_Directory (f_ty f)" using p(2) by (cases "f_ty f") auto
  have r_i: "r \<noteq> i" using tree_okD [OF tree p(1)] no_dir by (auto simp: up_ok_def)
  have no_kid: "i \<notin> set (f_children y)" if "F j = Some y" for j y
    using tree_okD [OF tree that] p by (auto simp: kids_ok_def)
  show "(F(i := None)) r \<noteq> None" using tree r_i by (simp add: tree_ok_def)
  fix j x assume "(F(i := None)) j = Some x"
  then have x: "F j = Some x" "j \<noteq> i" by (auto split: if_splits)
  note old = tree_okD [OF tree x(1)]
  show "j < n" "shape_ok x" using old by simp_all
  have "inj_on (\<lambda>c. map_option f_name ((F(i := None)) c)) (set (f_children x))
      = inj_on (\<lambda>c. map_option f_name (F c)) (set (f_children x))"
    using no_kid [OF x(1)] by (intro inj_on_cong) auto
  then show "kids_ok (F(i := None)) j x" using old no_kid [OF x(1)] unfolding kids_ok_def
    by (metis fun_upd_other)
  have "f_parent x \<noteq> i" if "j \<noteq> r"
  proof
    assume "f_parent x = i"
    then have "if is_Pipe (f_ty x) then i = r else j \<in> set (f_children f)"
      using old that p(1) by (auto simp: up_ok_def)
    then show False using r_i old tree_okD [OF tree p(1)] no_dir
      by (auto simp: shape_ok_def split: if_splits)
  qed
  then show "up_ok (F(i := None)) r j x" using old by (auto simp: up_ok_def)
qed

subsection \<open>The descriptor table\<close>

lemma fds_baseD:
  assumes "fds_base F ds n"
  shows "distinct (map fd_num ds)" and "d \<in> set ds \<Longrightarrow> 3 \<le> fd_num d" and "d \<in> set ds \<Longrightarrow> fd_num d < n"
    and "d \<in> set ds \<Longrightarrow> backing_ok F d"
    and "d \<in> set ds \<Longrightarrow> e \<in> set ds \<Longrightarrow> fd_backing d = BackVfs i \<Longrightarrow> fd_backing e = BackVfs i \<Longrightarrow>
      fd_pipe_end d = None \<Longrightarrow> fd_num d = fd_num e"
  using assms unfolding fds_base_def by blast+

lemma update_first_map:
  "distinct (map fd_num ds) \<Longrightarrow>
   update_first (\<lambda>d. fd_num d = n) g ds = map (\<lambda>d. if fd_num d = n then g d else d) ds"
  by (induction ds) (auto simp: image_iff intro!: map_idI [symmetric])

lemma drop_first_filter:
  "distinct (map fd_num ds) \<Longrightarrow> drop_first (\<lambda>d. fd_num d = n) ds = filter (\<lambda>d. fd_num d \<noteq> n) ds"
  by (induction ds) (auto simp: image_iff intro!: filter_True [symmetric])

definition fd_key :: "FileDescriptor \<Rightarrow> nat \<times> FileBacking \<times> PipeEnd option" where
  "fd_key d = (fd_num d, fd_backing d, fd_pipe_end d)"

lemma update_first_fd_key:
  "(\<And>d. fd_key (g d) = fd_key d) \<Longrightarrow> map fd_key (update_first P g ds) = map fd_key ds"
  by (induction ds) auto

lemma same_keys_mem:
  assumes "map fd_key ds = map fd_key es" and "d \<in> set ds"
  shows "\<exists>e\<in>set es. fd_num e = fd_num d \<and> fd_backing e = fd_backing d \<and> fd_pipe_end e = fd_pipe_end d"
proof -
  have "fd_key d \<in> set (map fd_key es)" using assms by (metis image_eqI list.set_map)
  then show ?thesis by (auto simp: fd_key_def)
qed

lemma fds_ok_same_keys:
  assumes "fds_ok F ds n" and keys: "map fd_key ds = map fd_key es"
  shows "fds_ok F es n"
proof -
  note there = same_keys_mem [OF keys] and back_again = same_keys_mem [OF keys [symmetric]]
  have nums: "map fd_num es = map fd_num ds"
    using arg_cong [OF keys, of "map fst"] by (simp add: comp_def fd_key_def)
  have base: "fds_base F ds n" and pipes: "pipes_ok F ds" using assms(1) by (simp_all add: fds_ok_def)
  have "3 \<le> fd_num e \<and> fd_num e < n \<and> backing_ok F e" if mem: "e \<in> set es" for e
  proof -
    obtain d where d: "d \<in> set ds" "fd_num d = fd_num e" "fd_backing d = fd_backing e" "fd_pipe_end d = fd_pipe_end e"
      using back_again [OF mem] by metis
    then show ?thesis using fds_baseD(2,3,4) [OF base d(1)] by (simp add: backing_ok_def split: FileBacking.splits)
  qed
  moreover have "fd_num e = fd_num e'" if e: "e \<in> set es" "e' \<in> set es" "fd_backing e = BackVfs i"
    "fd_backing e' = BackVfs i" "fd_pipe_end e = None" for e e' i
  proof -
    obtain d d' where "d \<in> set ds" "fd_num d = fd_num e" "fd_backing d = BackVfs i" "fd_pipe_end d = None"
      "d' \<in> set ds" "fd_num d' = fd_num e'" "fd_backing d' = BackVfs i"
      using back_again [OF e(1)] back_again [OF e(2)] e(3,4,5) by metis
    then show ?thesis using fds_baseD(5) [OF base] by metis
  qed
  moreover have "pipe_ok es i f" if "F i = Some f" for i f
  proof -
    have "pipe_ok ds i f" using that pipes by (simp add: pipes_ok_def)
    then show ?thesis using there back_again unfolding pipe_ok_def by metis
  qed
  ultimately show ?thesis using base nums unfolding fds_ok_def fds_base_def pipes_ok_def by simp
qed

lemma fds_ok_grow:
  assumes "fds_ok F ds n"
    and "\<And>i f. F i = Some f \<Longrightarrow> \<exists>g. G i = Some g \<and> f_ty g = f_ty f \<and> (f_fs f \<noteq> None \<longrightarrow> f_fs g \<noteq> None)"
    and "\<And>i g. G i = Some g \<Longrightarrow> pipe_ok ds i g"
  shows "fds_ok G ds n"
proof -
  have "backing_ok G d" if "backing_ok F d" for d
    using that assms(2) unfolding backing_ok_def by (fastforce split: FileBacking.splits)
  then show ?thesis using assms(1,3) by (simp add: fds_ok_def fds_base_def pipes_ok_def)
qed

lemma pipe_ok_D: "fds_ok F ds n \<Longrightarrow> F i = Some f \<Longrightarrow> pipe_ok ds i f"
  by (simp add: fds_ok_def pipes_ok_def)

lemma fds_ok_same_place:
  assumes "fds_ok F ds n" and "F i = Some f" and "same_place f g" and "f_fs f \<noteq> None \<longrightarrow> f_fs g \<noteq> None"
    and "map_option write_closed (f_pipe g) = map_option write_closed (f_pipe f)"
  shows "fds_ok (F(i \<mapsto> g)) ds n"
proof (rule fds_ok_grow [OF assms(1)])
  fix j y assume "F j = Some y"
  then show "\<exists>z. (F(i \<mapsto> g)) j = Some z \<and> f_ty z = f_ty y \<and> (f_fs y \<noteq> None \<longrightarrow> f_fs z \<noteq> None)"
    using assms(2,3,4) by (auto simp: same_place_def)
next
  fix j z assume z: "(F(i \<mapsto> g)) j = Some z"
  show "pipe_ok ds j z"
  proof (cases "j = i")
    case True
    then show ?thesis using z pipe_ok_D [OF assms(1,2)] assms(5) by (auto simp: pipe_ok_def map_option_case split: option.splits)
  qed (use z pipe_ok_D [OF assms(1)] in auto)
qed

lemma fds_ok_add_node:
  assumes "fds_ok F ds n" and "F i = None" and "f_pipe g = None"
  shows "fds_ok (F(i \<mapsto> g)) ds n"
  by (rule fds_ok_grow [OF assms(1)])
    (use assms pipe_ok_D [OF assms(1)] in \<open>auto simp: pipe_ok_def split: if_splits\<close>)

lemma fds_ok_push:
  assumes ok: "fds_ok F ds n" and shape: "\<And>i f. F i = Some f \<Longrightarrow> shape_ok f"
    and d: "fd_num d = n" "fd_pipe_end d = None" "backing_ok F d" "3 \<le> n" "n < m"
    and free: "\<And>e i. e \<in> set ds \<Longrightarrow> fd_backing d = BackVfs i \<Longrightarrow> fd_backing e \<noteq> BackVfs i"
  shows "fds_ok F (ds @ [d]) m"
proof -
  have base: "fds_base F ds n" using ok by (simp add: fds_ok_def)
  have "pipe_ok (ds @ [d]) i f" if f: "F i = Some f" for i f
  proof -
    have "fd_backing d \<noteq> BackVfs i" if "f_pipe f \<noteq> None"
      using d(2,3) that f shape [OF f] by (auto simp: backing_ok_def shape_ok_def)
    then show ?thesis using pipe_ok_D [OF ok f] d(2) by (auto simp: pipe_ok_def)
  qed
  moreover have "fds_base F (ds @ [d]) m" unfolding fds_base_def
  proof (intro conjI)
    show "distinct (map fd_num (ds @ [d]))" using fds_baseD(1,3) [OF base] d(1) by fastforce
    show "\<forall>e\<in>set (ds @ [d]). 3 \<le> fd_num e \<and> fd_num e < m \<and> backing_ok F e"
      using fds_baseD(2,3,4) [OF base] d by fastforce
    show "\<forall>e\<in>set (ds @ [d]). \<forall>e'\<in>set (ds @ [d]). \<forall>i. fd_backing e = BackVfs i \<longrightarrow> fd_backing e' = BackVfs i \<longrightarrow>
        fd_pipe_end e = None \<longrightarrow> fd_num e = fd_num e'"
    proof (intro ballI allI impI)
      fix e e' i assume e: "e \<in> set (ds @ [d])" "e' \<in> set (ds @ [d])" "fd_backing e = BackVfs i"
        "fd_backing e' = BackVfs i" "fd_pipe_end e = None"
      then show "fd_num e = fd_num e'"
        using fds_baseD(5) [OF base, of e e' i] free [of e i] free [of e' i] by (cases "e = d"; cases "e' = d") simp_all
    qed
  qed
  ultimately show ?thesis by (simp add: fds_ok_def pipes_ok_def)
qed

lemma fds_base_filter: "fds_base F ds n \<Longrightarrow> fds_base F (filter P ds) n"
  by (simp add: fds_base_def distinct_map_filter)
subsection \<open>The invariant of the whole state\<close>

lemma vfs_invI:
  "bt_inv (files v) \<Longrightarrow> root_id v = Some r \<Longrightarrow> cwd_path v = Some c \<Longrightarrow> is_abs c \<Longrightarrow> normalize c = c \<Longrightarrow>
   tree_ok (find_file v) r (next_file_id v) \<Longrightarrow> 3 \<le> next_fd v \<Longrightarrow> fds_ok (find_file v) (fds v) (next_fd v) \<Longrightarrow> vfs_inv v"
  by (auto simp: vfs_inv_def)

lemma vfs_invE:
  assumes "vfs_inv v"
  obtains r c where "root_id v = Some r" "cwd_path v = Some c" "is_abs c" "normalize c = c"
    "tree_ok (find_file v) r (next_file_id v)"
  using assms by (auto simp: vfs_inv_def)

lemma vfs_invD:
  assumes "vfs_inv v"
  shows "bt_inv (files v)" and "fds_ok (find_file v) (fds v) (next_fd v)" and "3 \<le> next_fd v"
  using assms by (auto simp: vfs_inv_def)

lemma vfs_inv_node:
  assumes "vfs_inv v" and "find_file v i = Some f"
  shows "i < next_file_id v \<and> kids_ok (find_file v) i f \<and> shape_ok f"
  using assms by (auto elim!: vfs_invE dest: tree_okD)

lemma vfs_inv_fresh:
  assumes "vfs_inv v" shows "find_file v (next_file_id v) = None"
  using vfs_inv_node [OF assms] by (metis less_irrefl not_Some_eq)

lemma vfs_inv_upd_file:
  assumes inv: "vfs_inv v"
    and "\<And>f. find_file v i = Some f \<Longrightarrow> same_place f (g f) \<and> (f_fs f \<noteq> None \<longrightarrow> f_fs (g f) \<noteq> None) \<and>
      map_option write_closed (f_pipe (g f)) = map_option write_closed (f_pipe f)"
  shows "vfs_inv (upd_file i g v)"
proof (cases "find_file v i")
  case None
  then show ?thesis using inv by (simp add: upd_file_def)
next
  case (Some f)
  have F: "find_file (upd_file i g v) = (find_file v)(i \<mapsto> g f)" using Some by (simp add: fun_eq_iff)
  from inv obtain r c where rc: "root_id v = Some r" "cwd_path v = Some c" "is_abs c" "normalize c = c"
    "tree_ok (find_file v) r (next_file_id v)" by (rule vfs_invE)
  show ?thesis
    by (rule vfs_invI [of _ r c], unfold F)
      (use assms(2) [OF Some] rc vfs_invD [OF inv] tree_same_place [OF rc(5) Some]
        fds_ok_same_place [OF vfs_invD(2) [OF inv] Some] in simp_all)
qed

lemma vfs_inv_upd_fds:
  "vfs_inv v \<Longrightarrow> map fd_key ds = map fd_key (fds v) \<Longrightarrow> vfs_inv (v\<lparr>fds := ds\<rparr>)"
  using fds_ok_same_keys [of "find_file v" "fds v" "next_fd v" ds] by (simp add: vfs_inv_def)

lemma vfs_inv_world [simp]: "vfs_inv (v\<lparr>world := w\<rparr>) = vfs_inv v"
  by (simp add: vfs_inv_def)

lemma vfs_inv_next_id: "vfs_inv v \<Longrightarrow> next_file_id v \<le> k \<Longrightarrow> vfs_inv (v\<lparr>next_file_id := k\<rparr>)"
  by (fastforce simp: vfs_inv_def tree_ok_def)

subsection \<open>Lookup\<close>

lemma find_child_Some:
  "find_child v cs nm = Some (c, g) \<Longrightarrow> c \<in> set cs \<and> find_file v c = Some g \<and> f_name g = nm"
  by (induction cs) (auto split: option.splits if_splits)

lemma find_child_cong:
  "(\<And>c. c \<in> set cs \<Longrightarrow> find_file u c = find_file v c) \<Longrightarrow> find_child u cs nm = find_child v cs nm"
  by (induction cs) (auto split: option.splits)

lemma find_child_hit:
  assumes "\<forall>d\<in>set cs. find_file v d \<noteq> None"
    and "inj_on (\<lambda>c. map_option f_name (find_file v c)) (set cs)"
    and "c \<in> set cs" and "find_file v c = Some g"
  shows "find_child v cs (f_name g) = Some (c, g)"
  using assms
proof (induction cs)
  case (Cons d cs)
  then obtain h where h: "find_file v d = Some h" by fastforce
  show ?case
  proof (cases "d = c")
    case False
    then have c: "c \<in> set cs" using Cons.prems(3) by simp
    then have "f_name h \<noteq> f_name g" using inj_on_eq_iff [OF Cons.prems(2), of d c] Cons.prems(4) h False by auto
    moreover have "find_child v cs (f_name g) = Some (c, g)"
      using Cons.IH [OF _ _ c Cons.prems(4)] Cons.prems(1,2) by (auto simp: inj_on_insert)
    ultimately show ?thesis using h by simp
  qed (use Cons.prems(4) in simp)
qed simp

lemma find_child_None:
  "find_child v cs nm = None \<Longrightarrow> \<forall>d\<in>set cs. find_file v d \<noteq> None \<Longrightarrow>
   c \<in> set cs \<Longrightarrow> find_file v c = Some g \<Longrightarrow> f_name g \<noteq> nm"
  by (induction cs) (auto split: option.splits if_splits)

lemma find_child_append:
  "\<forall>d\<in>set cs. find_file v d \<noteq> None \<Longrightarrow>
   find_child v (cs @ ds) nm = (case find_child v cs nm of None \<Rightarrow> find_child v ds nm | Some x \<Rightarrow> Some x)"
  by (induction cs) (auto split: option.splits)

lemma vfs_inv_child:
  assumes "vfs_inv v" and "find_file v i = Some f" and "c \<in> set (f_children f)"
  shows "\<exists>g. find_file v c = Some g \<and> f_parent g = i \<and> i < c \<and> \<not> is_Pipe (f_ty g)"
  using vfs_inv_node [OF assms(1,2)] assms(3) by (auto simp: kids_ok_def)

lemma resolve_names_sound:
  assumes "vfs_inv v" and "find_file v i = Some f" and "\<not> is_Pipe (f_ty f)" and "resolve_names v i f ns = Some res"
  shows "case res of ResVfs j g \<Rightarrow> find_file v j = Some g \<and> f_fs g = None \<and> \<not> is_Pipe (f_ty g)
    | ResFs m fs rel md \<Rightarrow> \<exists>g. find_file v m = Some g \<and> f_fs g = Some fs"
  using assms(2-)
proof (induction ns arbitrary: i f)
  case Nil
  then show ?case by (auto simp: resolve_mount_def split: option.splits if_splits sum.splits)
next
  case (Cons n ns)
  show ?case
  proof (cases "f_fs f")
    case (Some fs)
    then show ?thesis using Cons.prems by (auto simp: resolve_mount_def split: if_splits sum.splits)
  next
    case None
    then obtain c g where cg: "find_child v (f_children f) n = Some (c, g)" "resolve_names v c g ns = Some res"
      using Cons.prems(3) by (auto split: option.splits)
    then have "c \<in> set (f_children f)" "find_file v c = Some g" using find_child_Some by blast+
    then show ?thesis using Cons.IH [OF _ _ cg(2)] vfs_inv_child [OF assms(1) Cons.prems(1)] by fastforce
  qed
qed

lemma vfs_inv_root:
  assumes "vfs_inv v"
  obtains r f where "root_id v = Some r" "find_file v r = Some f" "is_Directory (f_ty f)"
  using assms by (auto elim!: vfs_invE dest!: tree_root)

lemma find_file_by_path_sound:
  assumes "vfs_inv v" and "find_file_by_path v p = Some res"
  shows "case res of ResVfs j g \<Rightarrow> find_file v j = Some g \<and> f_fs g = None \<and> \<not> is_Pipe (f_ty g)
    | ResFs m fs rel md \<Rightarrow> \<exists>g. find_file v m = Some g \<and> f_fs g = Some fs"
proof -
  obtain r f where r: "root_id v = Some r" "find_file v r = Some f" "is_Directory (f_ty f)"
    using assms(1) by (rule vfs_inv_root)
  then have "\<not> is_Pipe (f_ty f)" by (cases "f_ty f") auto
  moreover obtain ns where "resolve_names v r f ns = Some res"
    using assms(2) r by (auto simp: find_file_by_path_def split: Option.bind_splits)
  ultimately show ?thesis using resolve_names_sound [OF assms(1) r(2)] by blast
qed

lemma find_by_path_mut_sound:
  assumes "vfs_inv v" and "find_file_by_path_mut v p = Some (i, f)"
  shows "find_file v i = Some f \<and> f_fs f = None \<and> find_file_by_path v p = Some (ResVfs i f)"
  using assms(2) find_file_by_path_sound [OF assms(1), of p]
  by (auto simp: find_file_by_path_mut_def split: option.splits Resolved.splits)

text \<open>Lookup depends on the nodes below the root only.\<close>

lemma resolve_names_cong:
  assumes "vfs_inv v" and "world u = world v" and "\<And>j x. find_file v j = Some x \<Longrightarrow> find_file u j = Some x"
    and "find_file v i = Some f"
  shows "resolve_names u i f ns = resolve_names v i f ns"
  using assms(4)
proof (induction ns arbitrary: i f)
  case Nil
  then show ?case by (simp add: assms(2) split: option.splits)
next
  case (Cons n ns)
  have "find_child u (f_children f) n = find_child v (f_children f) n"
    by (rule find_child_cong) (use vfs_inv_child [OF assms(1) Cons.prems] assms(3) in fastforce)
  then show ?case using Cons.IH find_child_Some [of v "f_children f" n] assms(2)
    by (auto split: option.splits)
qed

lemma find_file_by_path_insert:
  assumes "vfs_inv v" and "find_file v i = None"
  shows "find_file_by_path (v\<lparr>next_file_id := k, files := bt_insert i info (files v)\<rparr>) p = find_file_by_path v p"
proof -
  let ?u = "v\<lparr>next_file_id := k, files := bt_insert i info (files v)\<rparr>"
  have F: "find_file ?u = (find_file v)(i \<mapsto> info)"
    using find_file_insert [where v = "v\<lparr>next_file_id := k\<rparr>"] by simp
  obtain r f where r: "root_id v = Some r" "find_file v r = Some f" using assms(1) by (rule vfs_inv_root)
  have "resolve_names ?u r f ns = resolve_names v r f ns" for ns
    by (rule resolve_names_cong [OF assms(1) _ _ r(2)]) (use F assms(2) in auto)
  then show ?thesis using r F assms(2) by (auto simp: find_file_by_path_def absolutize_def)
qed
subsection \<open>Adding files\<close>

lemma path_name_valid:
  "path_name p \<noteq> [] \<and> (path_name p \<noteq> CURRENT_DIR \<longrightarrow> path_name p \<noteq> PARENT_DIR \<longrightarrow> valid_name (path_name p))"
  using names_component [of "last (names p)" p] by (auto simp: path_name_def valid_name_def component_def)

definition add_node :: "VfsFileId \<Rightarrow> 'w FileInfo \<Rightarrow> 'w FileInfo \<Rightarrow> 'w vfs \<Rightarrow> 'w vfs" where
  "add_node pid pf info v =
     v\<lparr>next_file_id := next_file_id v + 1,
       files := bt_insert pid (pf\<lparr>f_children := f_children pf @ [next_file_id v]\<rparr>)
         (bt_insert (next_file_id v) info (files v))\<rparr>"

lemma add_node_fields [simp]:
  "root_id (add_node pid pf info v) = root_id v" "cwd_path (add_node pid pf info v) = cwd_path v"
  "fds (add_node pid pf info v) = fds v" "next_file_id (add_node pid pf info v) = next_file_id v + 1"
  "next_fd (add_node pid pf info v) = next_fd v" "world (add_node pid pf info v) = world v"
  "find_file (add_node pid pf info v) = (find_file v)
     (next_file_id v \<mapsto> info, pid \<mapsto> pf\<lparr>f_children := f_children pf @ [next_file_id v]\<rparr>)"
  by (simp_all add: add_node_def find_file_def fun_eq_iff)

lemma vfs_inv_add_node:
  assumes inv: "vfs_inv v" and p: "find_file v pid = Some pf" "is_Directory (f_ty pf)"
    and new: "f_parent info = pid" "f_children info = []" "\<not> is_Pipe (f_ty info)" "shape_ok info"
    and name: "\<And>c g. c \<in> set (f_children pf) \<Longrightarrow> find_file v c = Some g \<Longrightarrow> f_name g \<noteq> f_name info"
  shows "vfs_inv (add_node pid pf info v)"
proof -
  let ?n = "next_file_id v"
  from inv obtain r c where rc: "root_id v = Some r" "cwd_path v = Some c" "is_abs c" "normalize c = c"
    "tree_ok (find_file v) r ?n" by (rule vfs_invE)
  have neq: "pid \<noteq> ?n" using vfs_inv_fresh [OF inv] p(1) by auto
  have shape: "shape_ok pf" using vfs_inv_node [OF inv p(1)] by simp
  have "fds_ok ((find_file v)(?n \<mapsto> info)) (fds v) (next_fd v)"
    using fds_ok_add_node [OF vfs_invD(2) [OF inv] vfs_inv_fresh [OF inv]] new(3,4) by (simp add: shape_ok_def)
  then have "fds_ok ((find_file v)(?n \<mapsto> info, pid \<mapsto> pf\<lparr>f_children := f_children pf @ [?n]\<rparr>)) (fds v) (next_fd v)"
  proof (rule fds_ok_grow)
    fix j y assume "((find_file v)(?n \<mapsto> info)) j = Some y"
    then show "\<exists>z. ((find_file v)(?n \<mapsto> info, pid \<mapsto> pf\<lparr>f_children := f_children pf @ [?n]\<rparr>)) j = Some z \<and>
        f_ty z = f_ty y \<and> (f_fs y \<noteq> None \<longrightarrow> f_fs z \<noteq> None)"
      using p(1) neq by auto
  next
    fix j y assume y: "((find_file v)(?n \<mapsto> info, pid \<mapsto> pf\<lparr>f_children := f_children pf @ [?n]\<rparr>)) j = Some y"
    have "f_pipe pf = None" using p(2) shape by (cases "f_ty pf") (auto simp: shape_ok_def)
    then show "pipe_ok (fds v) j y"
      using y pipe_ok_D [OF vfs_invD(2) [OF inv], of j y] new(3,4) by (auto simp: pipe_ok_def shape_ok_def split: if_splits)
  qed
  moreover have "tree_ok ((find_file v)(?n \<mapsto> info, pid \<mapsto> pf\<lparr>f_children := f_children pf @ [?n]\<rparr>)) r (?n + 1)"
    by (rule tree_add_child [OF rc(5) p]) (use new name in simp_all)
  moreover have "bt_inv (files (add_node pid pf info v))" using vfs_invD(1) [OF inv] by (simp add: add_node_def)
  ultimately show ?thesis using rc vfs_invD(3) [OF inv] by (intro vfs_invI [of _ r c]) simp_all
qed

lemma add_file_success:
  assumes inv: "vfs_inv v" and bound: "next_file_id v + 1 < 2 ^ 64"
    and m: "find_file_by_path_mut v (parent p) = Some (pid, pf)" and dir: "is_Directory (f_ty pf)"
    and new: "\<not> list_ex (\<lambda>i. case find_file v i of None \<Rightarrow> False | Some f \<Rightarrow> f_name f = path_name p) (f_children pf)"
    and plain: "path_name p \<notin> {CURRENT_DIR, PARENT_DIR}"
  shows "add_file p t v = (Ok (), add_node pid pf (file_info_new t (path_name p) pid) v)"
proof -
  obtain r where r: "root_id v = Some r" using inv by (rule vfs_invE)
  let ?n = "next_file_id v"
  note pid = find_by_path_mut_sound [OF inv m]
  let ?info = "file_info_new t (path_name p) pid"
  let ?w = "v\<lparr>next_file_id := ?n + 1, files := bt_insert ?n ?info (files v)\<rparr>"
  have neq: "?n \<noteq> pid" using vfs_inv_fresh [OF inv] pid by auto
  have ok: "check_integrity ?info = Ok ()"
    using plain path_name_valid [of p] by (auto simp: check_integrity_def file_info_new_def)
  have F: "find_file ?w pid = Some pf" using pid neq by (simp add: find_file_def)
  have "find_file_by_path ?w (parent p) = Some (ResVfs pid pf)"
    using find_file_by_path_insert [OF inv vfs_inv_fresh [OF inv]] pid by simp
  then have again: "find_file_by_path_mut ?w (parent p) = Some (pid, pf)"
    using F by (simp add: find_file_by_path_mut_def)
  show ?thesis
    using r m dir new bound ok neq again F
    by (simp add: add_file_def insert_file_def file_id_new_def bind_act_def push_child_def add_node_def
        upd_file_def file_info_new_def)
qed

lemma add_file_result:
  assumes inv: "vfs_inv v" and t: "\<not> is_Pipe t" and bound: "next_file_id v + 1 < 2 ^ 64"
  shows "(\<exists>e k. add_file p t v = (Err e, v\<lparr>next_file_id := k\<rparr>) \<and> next_file_id v \<le> k) \<or>
    (\<exists>pid pf. find_file_by_path_mut v (parent p) = Some (pid, pf) \<and> is_Directory (f_ty pf) \<and>
       (\<forall>c\<in>set (f_children pf). \<forall>g. find_file v c = Some g \<longrightarrow> f_name g \<noteq> path_name p) \<and>
       valid_name (path_name p) \<and>
       add_file p t v = (Ok (), add_node pid pf (file_info_new t (path_name p) pid) v))"
proof -
  obtain r where r: "root_id v = Some r" using inv by (rule vfs_invE)
  let ?n = "next_file_id v"
  show ?thesis
  proof (cases "find_file_by_path_mut v (parent p)")
    case None
    then have "add_file p t v = (vfs_err (NoSuchFileOrDirectory (Some p)), v\<lparr>next_file_id := ?n\<rparr>)"
      using r by (simp add: add_file_def)
    then show ?thesis by blast
  next
    case (Some a)
    then obtain pid pf where m: "find_file_by_path_mut v (parent p) = Some (pid, pf)" by (cases a) auto
    note pid = find_by_path_mut_sound [OF inv m]
    let ?ex = "list_ex (\<lambda>i. case find_file v i of None \<Rightarrow> False | Some f \<Rightarrow> f_name f = path_name p) (f_children pf)"
    let ?info = "file_info_new t (path_name p) pid"
    let ?u = "v\<lparr>next_file_id := ?n + 1\<rparr>"
    consider "\<not> is_Directory (f_ty pf) \<or> ?ex" | "is_Directory (f_ty pf)" "\<not> ?ex" "path_name p \<in> {CURRENT_DIR, PARENT_DIR}"
      | "is_Directory (f_ty pf)" "\<not> ?ex" "path_name p \<notin> {CURRENT_DIR, PARENT_DIR}" by blast
    then show ?thesis
    proof cases
      case 1
      then have "\<exists>e. add_file p t v = (Err e, v\<lparr>next_file_id := ?n\<rparr>)" using r m by (auto simp: add_file_def)
      then show ?thesis by blast
    next
      case 2
      then have "check_integrity ?info = vfs_err InvalidFileName" by (auto simp: check_integrity_def file_info_new_def)
      then have "add_file p t v = (vfs_err InvalidFileName, ?u)"
        using r m 2(1,2) bound by (simp add: add_file_def insert_file_def file_id_new_def bind_act_def)
      then show ?thesis by (intro disjI1 exI [of _ "from_error (VfsError InvalidFileName)"] exI [of _ "?n + 1"]) simp
    next
      case 3
      then have "add_file p t v = (Ok (), add_node pid pf ?info v)"
        using add_file_success [OF inv bound m] by simp
      moreover have "\<forall>c\<in>set (f_children pf). \<forall>g. find_file v c = Some g \<longrightarrow> f_name g \<noteq> path_name p"
        using 3(2) by (auto simp: list_ex_iff split: option.splits)
      ultimately show ?thesis using m 3 path_name_valid [of p] by blast
    qed
  qed
qed

lemma add_file_inv:
  assumes inv: "vfs_inv v" and t: "\<not> is_Pipe t" and bound: "next_file_id v + 1 < 2 ^ 64"
  shows "vfs_inv (snd (add_file p t v)) \<and> fst (add_file p t v) \<noteq> Panic"
  using add_file_result [OF assms, of p]
proof
  assume "\<exists>e k. add_file p t v = (Err e, v\<lparr>next_file_id := k\<rparr>) \<and> next_file_id v \<le> k"
  then show ?thesis using vfs_inv_next_id [OF inv] by auto
next
  assume "\<exists>pid pf. find_file_by_path_mut v (parent p) = Some (pid, pf) \<and> is_Directory (f_ty pf) \<and>
       (\<forall>c\<in>set (f_children pf). \<forall>g. find_file v c = Some g \<longrightarrow> f_name g \<noteq> path_name p) \<and>
       valid_name (path_name p) \<and>
       add_file p t v = (Ok (), add_node pid pf (file_info_new t (path_name p) pid) v)"
  then obtain pid pf where r: "find_file_by_path_mut v (parent p) = Some (pid, pf)" "is_Directory (f_ty pf)"
    "\<forall>c\<in>set (f_children pf). \<forall>g. find_file v c = Some g \<longrightarrow> f_name g \<noteq> path_name p" "valid_name (path_name p)"
    "add_file p t v = (Ok (), add_node pid pf (file_info_new t (path_name p) pid) v)" by blast
  have "vfs_inv (add_node pid pf (file_info_new t (path_name p) pid) v)"
    by (rule vfs_inv_add_node [OF inv])
      (use find_by_path_mut_sound [OF inv r(1)] r(2,3,4) t in \<open>auto simp: file_info_new_def shape_ok_def\<close>)
  then show ?thesis using r(5) by simp
qed
subsection \<open>Operations that create nothing\<close>

lemma keeps_case_FileBacking [keeps_intros]:
  "(\<And>i. x = BackVfs i \<Longrightarrow> keeps I (f i)) \<Longrightarrow> (\<And>m rel. x = BackFs m rel \<Longrightarrow> keeps I (g m rel)) \<Longrightarrow>
   keeps I (case x of BackVfs i \<Rightarrow> f i | BackFs m rel \<Rightarrow> g m rel)"
  by (simp split: FileBacking.split)

lemma keeps_case_VfsFileType [keeps_intros]:
  "keeps I a \<Longrightarrow> (\<And>d. keeps I (b d)) \<Longrightarrow> keeps I c \<Longrightarrow> keeps I e \<Longrightarrow>
   keeps I (case x of VirtualFile \<Rightarrow> a | DeviceFile d \<Rightarrow> b d | Pipe \<Rightarrow> c | Directory \<Rightarrow> e)"
  by (simp split: VfsFileType.split)

lemma keeps_case_ReadOutcome [keeps_intros]:
  "(\<And>b. keeps I (f b)) \<Longrightarrow> (\<And>d k. keeps I (g d k)) \<Longrightarrow>
   keeps I (case x of ReadData b \<Rightarrow> f b | ReadDevice d k \<Rightarrow> g d k)"
  by (simp split: ReadOutcome.split)

lemma keeps_case_WriteOutcome [keeps_intros]:
  "keeps I f \<Longrightarrow> (\<And>d. keeps I (g d)) \<Longrightarrow> keeps I (case x of WriteDone \<Rightarrow> f | WriteDevice d \<Rightarrow> g d)"
  by (simp split: WriteOutcome.split)

lemma keeps_at: "(\<And>v. keeps I (m v)) \<Longrightarrow> keeps I (\<lambda>v. m v v)"
  by (simp add: keeps_def spec_def)

lemma keeps_file_desc_mut [keeps_intros]:
  assumes "\<And>d. fd_key (g d) = fd_key d"
  shows "keeps vfs_inv (file_desc_mut n g)"
  by (rule keepsI) (simp add: file_desc_mut_def vfs_inv_upd_fds update_first_fd_key assms)

lemma fd_key_upd [simp]: "fd_key (d\<lparr>fd_offset := k\<rparr>) = fd_key d" "fd_key (d\<lparr>fd_cache := c\<rparr>) = fd_key d"
  by (simp_all add: fd_key_def)

lemma keeps_call_world [keeps_intros]: "keeps vfs_inv (call_world f)"
  by (rule keepsI) (simp add: call_world_def split: prod.splits)

lemma keeps_read_window [keeps_intros]: "keeps vfs_inv (read_window n b k m)"
  unfolding read_window_def by (intro keeps_intros) simp

lemma keeps_fill_cache [keeps_intros]: "keeps vfs_inv (fill_cache n m rel)"
  by (rule keepsI) (auto simp: fill_cache_def keepsD keeps_file_desc_mut split: outcome.splits option.splits)

lemma keeps_read_pipe [keeps_intros]: "keeps vfs_inv (read_pipe i k)"
proof (rule keepsI)
  fix v :: "'a vfs" assume "vfs_inv v"
  then show "vfs_inv (snd (read_pipe i k v))"
    by (auto simp: read_pipe_def file_ref_def and_then_Ok_iff ok_or_def same_place_def Let_def
        intro!: vfs_inv_upd_file split: outcome.splits option.splits)
qed

lemma keeps_write_pipe [keeps_intros]: "keeps vfs_inv (write_pipe i data)"
proof (rule keepsI)
  fix v :: "'a vfs" assume "vfs_inv v"
  then show "vfs_inv (snd (write_pipe i data v))"
    by (auto simp: write_pipe_def file_ref_def and_then_Ok_iff ok_or_def same_place_def
        intro!: vfs_inv_upd_file split: outcome.splits option.splits)
qed

lemma overwrite_length:
  assumes "overwrite b k data = Ok b'" and "length b \<le> ISIZE_MAX"
  shows "length b' = max (length b) (k + length data) \<and> length b' \<le> ISIZE_MAX"
proof (cases "k + length data > length b")
  case True
  then have "k + length data \<le> ISIZE_MAX \<and> b' = take k (b @ replicate (k + length data - length b) 0) @ data"
    using assms(1) by (auto simp: overwrite_def vec_resize_def and_then_Ok_iff uadd_def split: if_splits)
  then show ?thesis using True by (auto simp: min_def)
next
  case False
  then show ?thesis using assms by (auto simp: overwrite_def and_then_Ok_iff uadd_def split: if_splits)
qed

lemma keeps_write_buf [keeps_intros]: "keeps vfs_inv (write_buf n i k data)"
proof (rule keepsI)
  fix v :: "'a vfs" assume inv: "vfs_inv v"
  let ?old = "\<lambda>f. case f_buf f of None \<Rightarrow> [] | Some b \<Rightarrow> b"
  show "vfs_inv (snd (write_buf n i k data v))"
  proof (cases "find_file v i")
    case None
    then show ?thesis using inv by (simp add: write_buf_def file_ref_def)
  next
    case (Some f)
    have "shape_ok f" using vfs_inv_node [OF inv Some] by simp
    then have len: "length (?old f) \<le> ISIZE_MAX" by (simp add: shape_ok_def split: option.split)
    show ?thesis
    proof (cases "overwrite (?old f) k data")
      case (Ok b')
      let ?set = "file_desc_mut n (\<lambda>d. d\<lparr>fd_offset := k + length data\<rparr>)"
      have upd: "vfs_inv (upd_file i (\<lambda>f. f\<lparr>f_buf := Some b'\<rparr>) v)"
        using overwrite_length [OF Ok len] by (intro vfs_inv_upd_file [OF inv]) (auto simp: same_place_def)
      have "keeps vfs_inv (bind_act ?set (\<lambda>_. return_act (WriteDone :: 'a WriteOutcome)))"
        by (intro keeps_intros) simp
      from keepsD [OF this upd] show ?thesis using Some Ok by (simp add: write_buf_def file_ref_def)
    qed (use inv Some in \<open>simp_all add: write_buf_def file_ref_def bind_act_def\<close>)
  qed
qed

lemma vfs_inv_forget_cache: "vfs_inv v \<Longrightarrow> vfs_inv (forget_cache m rel v)"
  unfolding forget_cache_def by (rule vfs_inv_upd_fds) (auto simp: fd_key_def)

lemma keeps_vfs_read_file [keeps_intros]: "keeps vfs_inv (vfs_read_file n k)"
  unfolding vfs_read_file_def by (rule keeps_at, intro keeps_intros)

lemma keeps_vfs_write_file [keeps_intros]: "keeps vfs_inv (vfs_write_file n data)"
  unfolding vfs_write_file_def by (rule keeps_at, intro keeps_intros) (simp_all add: vfs_inv_forget_cache)

lemma keeps_read_file: "keeps vfs_inv (read_file n k)"
  unfolding read_file_def by (intro keeps_intros) (simp add: keepsD keeps_file_desc_mut)

lemma keeps_write_file: "keeps vfs_inv (write_file n data)"
  unfolding write_file_def by (intro keeps_intros)

lemma keeps_seek: "keeps vfs_inv (seek n pos)"
  unfolding seek_def by (rule keeps_at, intro keeps_intros) simp

lemma absolutize_normal:
  assumes "vfs_inv v"
  shows "\<exists>q. absolutize v p = Some q \<and> is_abs q \<and> normalize q = q"
proof -
  obtain c where "cwd_path v = Some c" "is_abs c" using assms by (rule vfs_invE)
  then show ?thesis using join_names [of c p]
    by (auto simp: absolutize_def is_abs_normalize normalize_idempotent_aux path_join_def)
qed

lemma keeps_chdir: "keeps vfs_inv (chdir p)"
proof (rule keepsI)
  fix v :: "'a vfs" assume inv: "vfs_inv v"
  obtain q where q: "absolutize v p = Some q" "is_abs q" "normalize q = q" using absolutize_normal [OF inv] by blast
  then have "vfs_inv (v\<lparr>cwd_path := Some q\<rparr>)" using inv by (auto simp: vfs_inv_def)
  then show "vfs_inv (snd (chdir p v))" using q(1) inv by (simp add: chdir_def split: option.split)
qed

lemma keeps_mount_fs: "keeps vfs_inv (mount_fs p fs)"
proof (rule keepsI)
  fix v :: "'a vfs" assume inv: "vfs_inv v"
  show "vfs_inv (snd (mount_fs p fs v))"
  proof (cases "find_file_by_path_mut v p")
    case (Some a)
    obtain i f where a: "a = (i, f)" by (cases a)
    have "find_file v i = Some f" using find_by_path_mut_sound [OF inv] Some a by blast
    then have "vfs_inv (upd_file i (\<lambda>f. f\<lparr>f_fs := Some fs\<rparr>) v)" if "is_Directory (f_ty f)"
      by (intro vfs_inv_upd_file [OF inv]) (use that in \<open>auto simp: same_place_def\<close>)
    then show ?thesis using inv by (simp add: mount_fs_def Some a)
  qed (simp add: mount_fs_def inv)
qed

subsection \<open>Opening and closing\<close>

lemma vfs_inv_push:
  assumes inv: "vfs_inv v" 
    and d: "fd_num d = next_fd v" "fd_pipe_end d = None" "backing_ok (find_file v) d"
    and "\<And>e i. e \<in> set (fds v) \<Longrightarrow> fd_backing d = BackVfs i \<Longrightarrow> fd_backing e \<noteq> BackVfs i"
  shows "vfs_inv (v\<lparr>next_fd := next_fd v + 1, fds := fds v @ [d]\<rparr>)"
proof -
  have "fds_ok (find_file v) (fds v @ [d]) (next_fd v + 1)"
    by (rule fds_ok_push [OF vfs_invD(2) [OF inv]]) (use assms vfs_invD(3) [OF inv] vfs_inv_node [OF inv] in auto)
  then show ?thesis using inv by (simp add: vfs_inv_def)
qed

lemma fds_distinct: "vfs_inv v \<Longrightarrow> distinct (map fd_num (fds v))"
  using vfs_invD(2) fds_baseD(1) by (auto simp: fds_ok_def)

lemma find_fd:
  assumes "vfs_inv v"
  shows "find (\<lambda>d. fd_num d = n) (fds v) = Some d \<longleftrightarrow> d \<in> set (fds v) \<and> fd_num d = n"
proof
  show "find (\<lambda>d. fd_num d = n) (fds v) = Some d \<Longrightarrow> d \<in> set (fds v) \<and> fd_num d = n"
    by (auto simp: find_Some_iff)
  assume d: "d \<in> set (fds v) \<and> fd_num d = n"
  then obtain e where e: "find (\<lambda>d. fd_num d = n) (fds v) = Some e"
    by (cases "find (\<lambda>d. fd_num d = n) (fds v)") (auto simp: find_None_iff)
  then have "e \<in> set (fds v)" "fd_num e = n" by (auto simp: find_Some_iff)
  moreover have "inj_on fd_num (set (fds v))" using fds_distinct [OF assms] by (simp add: distinct_map)
  ultimately have "e = d" using d inj_onD [of fd_num "set (fds v)" e d] by simp
  then show "find (\<lambda>d. fd_num d = n) (fds v) = Some d" using e by simp
qed

lemma pipe_ok_other:
  assumes "pipe_ok es j g" and "fd_backing d \<noteq> BackVfs j" and "\<And>e. e \<in> set ds \<longleftrightarrow> e \<in> set es \<and> e \<noteq> d"
  shows "pipe_ok ds j g"
proof -
  have "e \<in> set ds \<and> fd_backing e = BackVfs j \<longleftrightarrow> e \<in> set es \<and> fd_backing e = BackVfs j" for e
    using assms(2,3) by auto
  then show ?thesis using assms(1) unfolding pipe_ok_def by blast
qed

text \<open>Closing descriptor \<open>d\<close> of a pipe: \<open>?ds\<close> are the descriptors left.\<close>

lemma vfs_inv_release:
  assumes inv: "vfs_inv v" and f: "find_file v i = Some f" "is_Pipe (f_ty f)"
    and d: "d \<in> set (fds v)" "fd_backing d = BackVfs i"
    and rest: "\<And>e. e \<in> set ds \<longleftrightarrow> e \<in> set (fds v) \<and> e \<noteq> d"
    and base: "fds_base (find_file v) ds (next_fd v)"
  shows "vfs_inv (release_pipe_end i (fd_pipe_end d) (v\<lparr>fds := ds\<rparr>))"
proof -
  from inv obtain r c where rc: "root_id v = Some r" "cwd_path v = Some c" "is_abs c" "normalize c = c"
    "tree_ok (find_file v) r (next_file_id v)" by (rule vfs_invE)
  have shape: "f_fs f = None" "f_pipe f \<noteq> None" using vfs_inv_node [OF inv f(1)] f(2)
    by (cases "f_ty f"; auto simp: shape_ok_def)+
  then obtain pipe where pipe: "f_pipe f = Some pipe" by blast
  note was = pipe_ok_D [OF vfs_invD(2) [OF inv] f(1), unfolded pipe_ok_def, rule_format, OF pipe]
  have other: "pipe_ok ds j g" if "find_file v j = Some g" "j \<noteq> i" for j g
    by (rule pipe_ok_other [OF pipe_ok_D [OF vfs_invD(2) [OF inv] that(1)] _ rest]) (use that(2) d(2) in simp)
  have rem: "remaining (v\<lparr>fds := ds\<rparr>) i = filter (\<lambda>d. fd_backing d = BackVfs i) ds" by (simp add: remaining_def)
  consider (gone) "filter (\<lambda>d. fd_backing d = BackVfs i) ds = []"
    | (eof) "filter (\<lambda>d. fd_backing d = BackVfs i) ds \<noteq> []" "fd_pipe_end d = Some WriteEnd"
        "filter (\<lambda>d. fd_pipe_end d = Some WriteEnd) (filter (\<lambda>d. fd_backing d = BackVfs i) ds) = []"
    | (stays) "filter (\<lambda>d. fd_backing d = BackVfs i) ds \<noteq> []"
        "\<not> (fd_pipe_end d = Some WriteEnd \<and> filter (\<lambda>d. fd_pipe_end d = Some WriteEnd) (filter (\<lambda>d. fd_backing d = BackVfs i) ds) = [])"
    by blast
  then show ?thesis
  proof cases
    case gone
    then have none: "fd_backing e \<noteq> BackVfs i" if "e \<in> set ds" for e using that by (auto simp: filter_empty_conv)
    have "backing_ok ((find_file v)(i := None)) e" if "e \<in> set ds" for e
      using fds_baseD(4) [OF base that] none [OF that] shape(1) f(1)
      by (auto simp: backing_ok_def split: FileBacking.splits)
    then have "fds_ok ((find_file v)(i := None)) ds (next_fd v)"
      using base other by (auto simp: fds_ok_def fds_base_def pipes_ok_def)
    then show ?thesis using rc tree_remove_pipe [OF rc(5) f] vfs_invD(1,3) [OF inv] f gone
      by (intro vfs_invI [of _ r c]) (simp_all add: release_pipe_end_def rem find_file_remove [of "v\<lparr>fds := ds\<rparr>", simplified])
  next
    case eof
    define g where "g = f\<lparr>f_pipe := Some (pipe\<lparr>write_closed := True\<rparr>)\<rparr>"
    have place: "same_place f g" using pipe by (simp add: g_def same_place_def)
    have "pipe_ok ds i g" unfolding pipe_ok_def g_def using eof(1,3) by (auto simp: filter_empty_conv)
    moreover have "backing_ok ((find_file v)(i \<mapsto> g)) e" if "e \<in> set ds" for e
      using fds_baseD(4) [OF base that] place shape(1) f(1)
      by (auto simp: backing_ok_def same_place_def split: FileBacking.splits)
    ultimately have ok: "fds_ok ((find_file v)(i \<mapsto> g)) ds (next_fd v)"
      using base other by (auto simp: fds_ok_def fds_base_def pipes_ok_def)
    have rel: "release_pipe_end i (fd_pipe_end d) (v\<lparr>fds := ds\<rparr>) = v\<lparr>fds := ds, files := bt_insert i g (files v)\<rparr>"
      using f eof pipe by (simp add: release_pipe_end_def rem upd_file_def g_def)
    have F: "find_file (v\<lparr>fds := ds, files := bt_insert i g (files v)\<rparr>) = (find_file v)(i \<mapsto> g)"
      by (simp add: find_file_def fun_eq_iff)
    show ?thesis unfolding rel
      by (rule vfs_invI [of _ r c], unfold F)
        (use rc ok tree_same_place [OF rc(5) f(1) place] vfs_invD(1,3) [OF inv] in simp_all)
  next
    case stays
    have open_end: "(fd_pipe_end d = Some WriteEnd \<and>
        filter (\<lambda>d. fd_pipe_end d = Some WriteEnd) (filter (\<lambda>d. fd_backing d = BackVfs i) ds) = []) = False"
      using stays(2) by blast
    have "pipe_ok ds i f" unfolding pipe_ok_def
    proof (intro allI impI conjI)
      fix pb assume "f_pipe f = Some pb"
      then have pb: "pb = pipe" using pipe by simp
      show "\<exists>e\<in>set ds. fd_backing e = BackVfs i" using stays(1) by (auto simp: filter_empty_conv)
      show "write_closed pb \<longleftrightarrow> \<not> (\<exists>e\<in>set ds. fd_backing e = BackVfs i \<and> fd_pipe_end e = Some WriteEnd)"
        unfolding pb using was rest stays(2) d unfolding filter_empty_conv filter_filter by (metis mem_Collect_eq set_filter)
    qed
    then have "fds_ok (find_file v) ds (next_fd v)"
      using base other by (metis f(1) fds_ok_def option.inject pipes_ok_def)
    moreover have "release_pipe_end i (fd_pipe_end d) (v\<lparr>fds := ds\<rparr>) = v\<lparr>fds := ds\<rparr>"
      using f stays(1) unfolding release_pipe_end_def rem open_end by simp
    ultimately show ?thesis using inv by (simp add: vfs_inv_def)
  qed
qed

lemma vfs_close_inv: "keeps vfs_inv (vfs_close_file n)"
proof (rule keepsI)
  fix v :: "'a vfs" assume inv: "vfs_inv v"
  show "vfs_inv (snd (vfs_close_file n v))"
  proof (cases "find (\<lambda>d. fd_num d = n) (fds v)")
    case None
    then show ?thesis using inv by (simp add: vfs_close_file_def)
  next
    case (Some d)
    then have d: "d \<in> set (fds v)" "fd_num d = n" by (simp_all add: find_fd [OF inv])
    let ?ds = "filter (\<lambda>d. fd_num d \<noteq> n) (fds v)"
    let ?v = "v\<lparr>fds := ?ds\<rparr>"
    have rest: "e \<in> set ?ds \<longleftrightarrow> e \<in> set (fds v) \<and> e \<noteq> d" for e
      using d fds_distinct [OF inv] by (auto dest: inj_onD simp: distinct_map)
    have base: "fds_base (find_file v) ?ds (next_fd v)"
      using vfs_invD(2) [OF inv] by (simp add: fds_ok_def fds_base_filter)
    have v': "v\<lparr>fds := drop_first (\<lambda>d. fd_num d = n) (fds v)\<rparr> = ?v"
      by (simp add: drop_first_filter [OF fds_distinct [OF inv]])
    have other: "pipe_ok ?ds j f" if "find_file v j = Some f" "fd_backing d \<noteq> BackVfs j" for j f
      using pipe_ok_D [OF vfs_invD(2) [OF inv] that(1)] that(2) by (rule pipe_ok_other) (simp only: rest)
    have same: "vfs_inv ?v" if "\<And>j f. fd_backing d = BackVfs j \<Longrightarrow> find_file v j = Some f \<Longrightarrow> pipe_ok ?ds j f"
      using inv base other that by (auto simp: vfs_inv_def fds_ok_def pipes_ok_def)
    show ?thesis
    proof (cases "fd_backing d")
      case (BackFs m rel)
      then show ?thesis using Some same by (simp add: vfs_close_file_def v')
    next
      case (BackVfs i)
      then obtain f where f: "find_file v i = Some f" "is_Pipe (f_ty f) \<longleftrightarrow> fd_pipe_end d \<noteq> None"
        using fds_baseD(4) [OF _ d(1), of "find_file v" "next_fd v"] vfs_invD(2) [OF inv]
        by (auto simp: fds_ok_def backing_ok_def)
      have "vfs_inv (release_pipe_end i (fd_pipe_end d) ?v)"
      proof (cases "is_Pipe (f_ty f)")
        case True
        then show ?thesis by (rule vfs_inv_release [OF inv f(1) _ d(1) BackVfs rest base])
      next
        case False
        then have "f_pipe f = None" using vfs_inv_node [OF inv f(1)] by (simp add: shape_ok_def)
        then have "vfs_inv ?v" by (intro same) (use BackVfs f(1) in \<open>simp add: pipe_ok_def\<close>)
        then show ?thesis using False f(1) by (simp add: release_pipe_end_def)
      qed
      then show ?thesis using Some BackVfs by (simp add: vfs_close_file_def v')
    qed
  qed
qed
subsection \<open>Lookup after a file was added\<close>

definition start_dir :: "'w vfs \<Rightarrow> path \<Rightarrow> string list" where
  "start_dir v p = (if is_abs p then [] else (case cwd_path v of None \<Rightarrow> [] | Some c \<Rightarrow> names c))"

text \<open>The names followed from the root: the path as the reference semantics \<open>walk\<close> reads it.\<close>

definition abs_names :: "'w vfs \<Rightarrow> path \<Rightarrow> string list" where
  "abs_names v p = walk (start_dir v p) (names p)"

lemma absolutize_names:
  assumes "vfs_inv v"
  shows "\<exists>q. absolutize v p = Some q \<and> names q = abs_names v p"
proof -
  obtain c where c: "cwd_path v = Some c" "is_abs c" "normalize c = c" using assms by (rule vfs_invE)
  then have "walk [] (names c) = names c" using walk_normal [of c] by simp
  then show ?thesis using c join_names [of c p]
    by (simp add: absolutize_def abs_names_def start_dir_def names_normalize norm_parts_walk)
qed

lemma find_file_by_path_walk:
  assumes "vfs_inv v" and "root_id v = Some r" and "find_file v r = Some f"
  shows "find_file_by_path v p = resolve_names v r f (abs_names v p)"
  using absolutize_names [OF assms(1), of p] assms(2,3) by (auto simp: find_file_by_path_def)

lemma abs_names_parent:
  assumes "names p = ns @ [n]" and "plain_name n"
  shows "abs_names v p = abs_names v (parent p) @ [n]"
proof -
  have w: "is_abs (parent p) = is_abs p \<and> walk (start_dir v p) (names (parent p)) = walk (start_dir v p) ns"
    by (rule parent_walk [OF assms]) (simp add: start_dir_def)
  then have "start_dir v (parent p) = start_dir v p" by (simp add: start_dir_def)
  then show ?thesis using w assms
    by (simp add: abs_names_def walk_append) (simp add: walk_def cd_def plain_name_def)
qed

lemma abs_names_parent_empty: "names p = [] \<Longrightarrow> abs_names v (parent p) = abs_names v p"
  using parent_walk_empty [of p "start_dir v p"] by (auto simp: abs_names_def start_dir_def walk_def)

lemma kids_find_child:
  assumes "vfs_inv v" and "find_file v i = Some f" and "c \<in> set (f_children f)" and "find_file v c = Some g"
  shows "find_child v (f_children f) (f_name g) = Some (c, g)"
  by (rule find_child_hit [OF _ _ assms(3,4)])
    (use vfs_inv_node [OF assms(1,2)] in \<open>auto simp: kids_ok_def\<close>)

lemma resolve_names_append:
  assumes "resolve_names v i f ks = Some (ResVfs j g)"
  shows "resolve_names v i f (ks @ ls) = resolve_names v j g ls"
  using assms
proof (induction ks arbitrary: i f)
  case Nil
  then show ?case by (auto simp: resolve_mount_def split: option.splits if_splits sum.splits)
next
  case (Cons k ks)
  then have "f_fs f = None" by (auto simp: resolve_mount_def split: option.splits if_splits sum.splits)
  then show ?case using Cons by (auto split: option.splits)
qed

lemma resolve_names_front:
  assumes "resolve_names v i f (ks @ ls) = Some (ResVfs j g)"
  shows "\<exists>c h. resolve_names v i f ks = Some (ResVfs c h)"
  using assms
proof (induction ks arbitrary: i f)
  case Nil
  then have "f_fs f = None" by (cases ls) (auto simp: resolve_mount_def split: option.splits if_splits sum.splits)
  then show ?case by simp
next
  case (Cons k ks)
  then have "f_fs f = None" by (auto simp: resolve_mount_def split: option.splits if_splits sum.splits)
  then show ?case using Cons by (auto split: option.splits)
qed

lemma resolve_names_snoc:
  assumes inv: "vfs_inv v" and f: "find_file v i = Some f" "\<not> is_Pipe (f_ty f)"
    and res: "resolve_names v i f (ks @ [k]) = Some (ResVfs j g)"
  shows "\<exists>h. resolve_names v i f ks = Some (ResVfs (f_parent g) h) \<and> f_name g = k \<and> f_parent g < j"
proof -
  obtain c h where c: "resolve_names v i f ks = Some (ResVfs c h)" using resolve_names_front [OF res] by blast
  then have h: "find_file v c = Some h" "f_fs h = None" using resolve_names_sound [OF inv f c] by auto
  have "resolve_names v c h [k] = Some (ResVfs j g)" using res resolve_names_append [OF c, of "[k]"] by simp
  then have "find_child v (f_children h) k = Some (j, g)"
    using h(2) by (auto simp: resolve_mount_def split: option.splits if_splits sum.splits)
  then have "j \<in> set (f_children h)" "find_file v j = Some g" "f_name g = k" using find_child_Some by blast+
  then show ?thesis using vfs_inv_child [OF inv h(1), of j] c by auto
qed

lemma resolve_names_le:
  assumes "vfs_inv v" and "find_file v i = Some f" "\<not> is_Pipe (f_ty f)"
  shows "resolve_names v i f ns = Some (ResVfs j g) \<Longrightarrow> i \<le> j \<and> (ns \<noteq> [] \<longrightarrow> i < j)"
proof (induction ns arbitrary: j g rule: rev_induct)
  case Nil
  then show ?case by (auto simp: resolve_mount_def split: option.splits if_splits sum.splits)
next
  case (snoc k ks)
  obtain h where h: "resolve_names v i f ks = Some (ResVfs (f_parent g) h)" "f_parent g < j"
    using resolve_names_snoc [OF assms snoc.prems] by blast
  then show ?case using snoc.IH [OF h(1)] by simp
qed

text \<open>A file has one path only.\<close>

lemma resolve_names_inj:
  assumes "vfs_inv v" and "find_file v i = Some f" "\<not> is_Pipe (f_ty f)"
  shows "resolve_names v i f ns = Some (ResVfs j g) \<Longrightarrow> resolve_names v i f ms = Some (ResVfs j g) \<Longrightarrow> ns = ms"
proof (induction ns arbitrary: j g ms rule: rev_induct)
  case Nil
  then have "j = i" by (auto simp: resolve_mount_def split: option.splits if_splits sum.splits)
  then show ?case using resolve_names_le [OF assms Nil.prems(2)] by auto
next
  case (snoc k ks)
  obtain h where h: "resolve_names v i f ks = Some (ResVfs (f_parent g) h)" "f_name g = k"
    using resolve_names_snoc [OF assms snoc.prems(1)] by blast
  have "ms \<noteq> []"
  proof
    assume "ms = []"
    then have "j = i" using snoc.prems(2) by (auto simp: resolve_mount_def split: option.splits if_splits sum.splits)
    then show False using resolve_names_le [OF assms snoc.prems(1)] by simp
  qed
  then obtain m ms' where ms: "ms = ms' @ [m]" by (metis rev_exhaust)
  obtain h' where h': "resolve_names v i f ms' = Some (ResVfs (f_parent g) h')" "f_name g = m"
    using resolve_names_snoc [OF assms, of ms' m j g] snoc.prems(2) ms by blast
  have "h' = h" using resolve_names_sound [OF assms h(1)] resolve_names_sound [OF assms h'(1)] by simp
  then show ?case using snoc.IH [OF h(1)] h' h(2) ms by simp
qed

text \<open>What adding a node below the directory \<open>pid\<close> assumes.\<close>

definition node_added :: "'w vfs \<Rightarrow> VfsFileId \<Rightarrow> 'w FileInfo \<Rightarrow> 'w FileInfo \<Rightarrow> bool" where
  "node_added v pid pf info \<longleftrightarrow> vfs_inv v \<and> vfs_inv (add_node pid pf info v) \<and> find_file v pid = Some pf \<and>
     f_fs pf = None \<and> f_fs info = None \<and> f_children info = []"

lemma node_addedD:
  assumes "node_added v pid pf info"
  shows "vfs_inv v" and "vfs_inv (add_node pid pf info v)" and "find_file v pid = Some pf" and "f_fs pf = None"
    and "f_fs info = None" and "f_children info = []"
  using assms by (simp_all add: node_added_def)

lemma new_found:
  assumes loc: "node_added v pid pf info"
  shows "find_file (add_node pid pf info v) (next_file_id v) = Some info"
  using vfs_inv_fresh [OF node_addedD(1) [OF loc]] node_addedD(3) [OF loc] by auto

lemma new_parent: "find_file (add_node pid pf info v) pid = Some (pf\<lparr>f_children := f_children pf @ [next_file_id v]\<rparr>)"
  by simp

lemma old_found:
  assumes loc: "node_added v pid pf info" and "find_file v i = Some f"
  shows "\<exists>f'. find_file (add_node pid pf info v) i = Some f' \<and> f_name f' = f_name f \<and> f_fs f' = f_fs f \<and>
    f_children f' = f_children f @ (if i = pid then [next_file_id v] else [])"
  using assms(2) vfs_inv_fresh [OF node_addedD(1) [OF loc]] node_addedD(3) [OF loc] by (cases "i = pid") auto

lemma child_kept:
  assumes loc: "node_added v pid pf info" and "find_file v i = Some f" and "find_file (add_node pid pf info v) i = Some f'" and "find_child v (f_children f) n = Some (c, g)"
  shows "\<exists>g'. find_file (add_node pid pf info v) c = Some g' \<and> find_child (add_node pid pf info v) (f_children f') n = Some (c, g')"
proof -
  have c: "c \<in> set (f_children f)" "find_file v c = Some g" "f_name g = n" using find_child_Some [OF assms(4)] by auto
  obtain g' where g': "find_file (add_node pid pf info v) c = Some g'" "f_name g' = n" using old_found [OF loc c(2)] c(3) by auto
  have "c \<in> set (f_children f')" using c(1) old_found [OF loc assms(2)] assms(3) by auto
  then show ?thesis using kids_find_child [OF node_addedD(2) [OF loc] assms(3) _ g'(1)] g' by auto
qed

lemma resolve_new:
  assumes loc: "node_added v pid pf info" and "find_file v i = Some f" and "find_file (add_node pid pf info v) i = Some f'" and "resolve_names v i f ns = Some (ResVfs pid pf)"
  shows "resolve_names (add_node pid pf info v) i f' (ns @ [f_name info]) = Some (ResVfs (next_file_id v) info)"
  using assms(2-)
proof (induction ns arbitrary: i f f')
  case Nil
  then have i: "i = pid" "f = pf" by (auto simp: resolve_mount_def split: option.splits if_splits sum.splits)
  then have f': "f' = pf\<lparr>f_children := f_children pf @ [next_file_id v]\<rparr>" using Nil.prems(2) new_parent by simp
  have "find_child (add_node pid pf info v) (f_children f') (f_name info) = Some (next_file_id v, info)"
    by (rule kids_find_child [OF node_addedD(2) [OF loc] Nil.prems(2) _ new_found [OF loc]]) (simp add: f')
  then show ?case using  node_addedD(4,5,6) [OF loc] by (simp add: f')
next
  case (Cons n ns)
  have fs: "f_fs f = None" using Cons.prems(3)
    by (auto simp: resolve_mount_def split: option.splits if_splits sum.splits)
  then obtain c g where cg: "find_child v (f_children f) n = Some (c, g)"
    "resolve_names v c g ns = Some (ResVfs pid pf)" using Cons.prems(3) by (auto split: option.splits)
  obtain g' where g': "find_file (add_node pid pf info v) c = Some g'" "find_child (add_node pid pf info v) (f_children f') n = Some (c, g')"
    using child_kept [OF loc Cons.prems(1,2) cg(1)] by blast
  have "f_fs f' = None" using old_found [OF loc Cons.prems(1)] Cons.prems(2) fs by auto
  then show ?case using Cons.IH [OF _ g'(1) cg(2)] find_child_Some [OF cg(1)] g'(2) by simp
qed

lemma resolve_other:
  assumes loc: "node_added v pid pf info" and "find_file v i = Some f" and "find_file (add_node pid pf info v) i = Some f'"
    and "\<And>ms. ns = ms @ [f_name info] \<Longrightarrow> resolve_names v i f ms \<noteq> Some (ResVfs pid pf)"
  shows "map_option resolved_backing (resolve_names (add_node pid pf info v) i f' ns) = map_option resolved_backing (resolve_names v i f ns)"
  using assms(2-)
proof (induction ns arbitrary: i f f')
  case Nil
  then show ?case using old_found [OF loc Nil.prems(1)] Nil.prems(2) by (auto split: option.splits)
next
  case (Cons n ns)
  have f': "f_fs f' = f_fs f" "f_children f' = f_children f @ (if i = pid then [next_file_id v] else [])"
    using old_found [OF loc Cons.prems(1)] Cons.prems(2) by auto
  show ?case
  proof (cases "f_fs f")
    case fs: None
    show ?thesis
    proof (cases "find_child v (f_children f) n")
      case (Some a)
      then obtain c g where cg: "find_child v (f_children f) n = Some (c, g)" by (cases a) auto
      obtain g' where g': "find_file (add_node pid pf info v) c = Some g'" "find_child (add_node pid pf info v) (f_children f') n = Some (c, g')"
        using child_kept [OF loc Cons.prems(1,2) cg] by blast
      have "ns = ms @ [f_name info] \<Longrightarrow> resolve_names v c g ms \<noteq> Some (ResVfs pid pf)" for ms
        using Cons.prems(3) [of "n # ms"] cg fs by simp
      then show ?thesis using Cons.IH [OF _ g'(1)] find_child_Some [OF cg] cg g'(2) f'(1) fs by simp
    next
      case none: None
      have no_old: "f_name g \<noteq> n" if "c \<in> set (f_children f)" "find_file v c = Some g" for c g
        using find_child_None [OF none _ that] vfs_inv_child [OF node_addedD(1) [OF loc] Cons.prems(1)] by auto
      have "map_option resolved_backing (resolve_names (add_node pid pf info v) i f' (n # ns)) = None"
      proof (cases "find_child (add_node pid pf info v) (f_children f') n")
        case (Some a)
        then obtain c g where cg: "find_child (add_node pid pf info v) (f_children f') n = Some (c, g)" by (cases a) auto
        note hit = find_child_Some [OF cg]
        have new: "i = pid" "c = next_file_id v"
        proof -
          have "c \<notin> set (f_children f)"
          proof
            assume c: "c \<in> set (f_children f)"
            then obtain h where h: "find_file v c = Some h" using vfs_inv_child [OF node_addedD(1) [OF loc] Cons.prems(1)] by blast
            then show False using no_old [OF c h] old_found [OF loc h] hit by auto
          qed
          then show "i = pid" "c = next_file_id v" using hit f'(2) by (auto split: if_splits)
        qed
        then have g: "g = info" using hit new_found [OF loc] by simp
        then have n: "n = f_name info" using hit by simp
        have "f = pf" using Cons.prems(1) new(1) node_addedD(3) [OF loc] by simp
        then have "ns \<noteq> []" using Cons.prems(3) [of "[]"] n new(1) node_addedD(4) [OF loc] by auto
        then obtain k ks where "ns = k # ks" by (cases ns) auto
        then show ?thesis using cg g node_addedD(5,6) [OF loc] f'(1) fs by simp
      qed (simp add: f'(1) fs)
      then show ?thesis using none fs by simp
    qed
  qed (simp add: f'(1))
qed

lemma add_node_lookup:
  assumes inv: "vfs_inv v" and inv': "vfs_inv (add_node pid pf info v)"
    and pid: "find_file_by_path_mut v (parent p) = Some (pid, pf)"
    and bare: "f_fs info = None" "f_children info = []"
    and p: "names p = ns @ [f_name info]" "plain_name (f_name info)"
  shows "find_file_by_path (add_node pid pf info v) p = Some (ResVfs (next_file_id v) info)"
    and "abs_names v q \<noteq> abs_names v p \<Longrightarrow>
      map_option resolved_backing (find_file_by_path (add_node pid pf info v) q) =
      map_option resolved_backing (find_file_by_path v q)"
proof -
  note sound = find_by_path_mut_sound [OF inv pid]
  have loc: "node_added v pid pf info" using inv inv' bare sound by (simp add: node_added_def)
  obtain r f where r: "root_id v = Some r" "find_file v r = Some f" and dir: "is_Directory (f_ty f)"
    using inv by (rule vfs_inv_root)
  then have np: "\<not> is_Pipe (f_ty f)" by (cases "f_ty f") auto
  obtain f' where f': "find_file (add_node pid pf info v) r = Some f'"
    using old_found [OF loc r(2)] by blast
  have abs: "abs_names (add_node pid pf info v) x = abs_names v x" for x by (simp add: abs_names_def start_dir_def)
  have r': "root_id (add_node pid pf info v) = Some r" using r by simp
  have par: "resolve_names v r f (abs_names v (parent p)) = Some (ResVfs pid pf)"
    using sound find_file_by_path_walk [OF inv r] by simp
  show "find_file_by_path (add_node pid pf info v) p = Some (ResVfs (next_file_id v) info)"
    using resolve_new [OF loc r(2) f' par] find_file_by_path_walk [OF inv' r' f']
    by (simp only: abs abs_names_parent [OF p])
  show "map_option resolved_backing (find_file_by_path (add_node pid pf info v) q) =
      map_option resolved_backing (find_file_by_path v q)" if "abs_names v q \<noteq> abs_names v p"
    unfolding find_file_by_path_walk [OF inv' r' f'] find_file_by_path_walk [OF inv r] abs
  proof (rule resolve_other [OF loc r(2) f'])
    fix ms assume ms: "abs_names v q = ms @ [f_name info]"
    then have "ms \<noteq> abs_names v (parent p)" using that abs_names_parent [OF p, of v] by auto
    then show "resolve_names v r f ms \<noteq> Some (ResVfs pid pf)"
      using resolve_names_inj [OF inv r(2) np _ par] by blast
  qed
qed

end
