(* ===== verification/Vfs_Correct.thy ===== *)
theory Vfs_Correct
  imports Vfs_Tree
begin

text \<open>
  What the virtual file system promises: every state reached by its operations is consistent, a file that is
  created is found again and disturbs no other path, files are byte arrays under reading, writing and seeking,
  pipes are queues, and no operation gets stuck.
\<close>

subsection \<open>Opening\<close>

lemma add_file_Ok:
  assumes inv: "vfs_inv v" and t: "\<not> is_Pipe t" and bound: "next_file_id v + 1 < 2 ^ 64"
    and ok: "add_file p t v = (Ok (), u)"
  shows "\<exists>pid pf. find_file_by_path_mut v (parent p) = Some (pid, pf) \<and> is_Directory (f_ty pf) \<and>
    valid_name (path_name p) \<and> u = add_node pid pf (file_info_new t (path_name p) pid) v \<and> vfs_inv u"
  using add_file_result [OF inv t bound, of p] add_file_inv [OF inv t bound, of p] ok by auto

text \<open>If a path leads nowhere but its parent does, the path ends in a file name.\<close>

lemma missing_name:
  assumes inv: "vfs_inv v" and none: "find_file_by_path v p = None"
    and par: "find_file_by_path_mut v (parent p) = Some (pid, pf)" and valid: "valid_name (path_name p)"
  shows "\<exists>ns. names p = ns @ [path_name p] \<and> plain_name (path_name p)"
proof -
  obtain r f where r: "root_id v = Some r" "find_file v r = Some f" using inv by (rule vfs_inv_root)
  have "find_file_by_path v (parent p) \<noteq> None" using find_by_path_mut_sound [OF inv par] by simp
  then have "names p \<noteq> []"
    using none abs_names_parent_empty [of p v] by (auto simp: find_file_by_path_walk [OF inv r])
  then show ?thesis using valid
    by (intro exI [of _ "butlast (names p)"]) (auto simp: path_name_def valid_name_def plain_name_def)
qed

lemma created_lookup:
  assumes inv: "vfs_inv v" and t: "\<not> is_Pipe t" and bound: "next_file_id v + 1 < 2 ^ 64"
    and none: "find_file_by_path v p = None" and ok: "add_file p t v = (Ok (), u)"
  shows "\<exists>pid. find_file_by_path u p = Some (ResVfs (next_file_id v) (file_info_new t (path_name p) pid))"
    and "abs_names v q \<noteq> abs_names v p \<Longrightarrow>
      map_option resolved_backing (find_file_by_path u q) = map_option resolved_backing (find_file_by_path v q)"
proof -
  obtain pid pf where a: "find_file_by_path_mut v (parent p) = Some (pid, pf)" "valid_name (path_name p)"
    "u = add_node pid pf (file_info_new t (path_name p) pid) v" "vfs_inv u"
    using add_file_Ok [OF inv t bound ok] by blast
  obtain ns where ns: "names p = ns @ [path_name p]" "plain_name (path_name p)"
    using missing_name [OF inv none a(1,2)] by blast
  note look = add_node_lookup [OF inv, of pid pf "file_info_new t (path_name p) pid" p ns]
  show "\<exists>pid. find_file_by_path u p = Some (ResVfs (next_file_id v) (file_info_new t (path_name p) pid))"
    using look(1) a ns by (auto simp: file_info_new_def)
  show "abs_names v q \<noteq> abs_names v p \<Longrightarrow>
      map_option resolved_backing (find_file_by_path u q) = map_option resolved_backing (find_file_by_path v q)"
    using look(2) a ns by (auto simp: file_info_new_def)
qed

lemma open_backing_result:
  assumes inv: "vfs_inv v" and bound: "next_file_id v + 1 < 2 ^ 64" and run: "open_backing p create v = (r, u)"
  shows "vfs_inv u \<and> next_fd u = next_fd v \<and> fds u = fds v \<and> r \<noteq> Panic \<and>
    (\<forall>b dev. r = Ok (b, dev) \<longrightarrow> (\<forall>n. backing_ok (find_file u) (new_descriptor n b None)) \<and>
       (\<forall>i e. b = BackVfs i \<longrightarrow> e \<in> set (fds u) \<longrightarrow> fd_backing e \<noteq> BackVfs i))"
proof (cases "find_file_by_path v p")
  case (Some res)
  show ?thesis
  proof (cases res)
    case (ResVfs i f)
    then have f: "find_file v i = Some f" "\<not> is_Pipe (f_ty f)" using find_file_by_path_sound [OF inv Some] by auto
    have no_dir: "\<not> is_Directory (f_ty f)" if "is_VirtualFile (f_ty f) \<or> is_DeviceFile (f_ty f)"
      using that by (cases "f_ty f") auto
    show ?thesis using run inv f no_dir
      by (auto simp: open_backing_def Some ResVfs backing_ok_def new_descriptor_def find_None_iff
          split: if_splits option.splits)
  next
    case (ResFs m fs rel md)
    then obtain g where g: "find_file v m = Some g" "f_fs g = Some fs" using find_file_by_path_sound [OF inv Some] by auto
    then show ?thesis using run inv
      by (auto simp: open_backing_def Some ResFs backing_ok_def new_descriptor_def split: if_splits)
  qed
next
  case None
  show ?thesis
  proof (cases create)
    case True
    obtain ra ua where ra: "add_file p VirtualFile v = (ra, ua)" by (cases "add_file p VirtualFile v")
    have ua: "vfs_inv ua" "ra \<noteq> Panic" using add_file_inv [OF inv _ bound, of VirtualFile p] ra by auto
    have same: "next_fd ua = next_fd v" "fds ua = fds v"
      using add_file_result [OF inv _ bound, of VirtualFile p] ra by auto
    show ?thesis
    proof (cases ra)
      case (Ok x)
      then obtain pid where f: "find_file_by_path ua p =
          Some (ResVfs (next_file_id v) (file_info_new VirtualFile (path_name p) pid))"
        using created_lookup(1) [OF inv _ bound None, of VirtualFile ua] ra by auto
      have "find_file ua (next_file_id v) = Some (file_info_new VirtualFile (path_name p) pid)"
        using find_file_by_path_sound [OF ua(1) f] by simp
      moreover have "fd_backing e \<noteq> BackVfs (next_file_id v)" if "e \<in> set (fds v)" for e
        using fds_baseD(4) [OF _ that, of "find_file v" "next_fd v"] vfs_invD(2) [OF inv] vfs_inv_fresh [OF inv]
        by (auto simp: fds_ok_def backing_ok_def)
      ultimately show ?thesis using run True ra Ok f ua same
        by (auto simp: open_backing_def None backing_ok_def new_descriptor_def file_info_new_def)
    qed (use run True ra ua same in \<open>auto simp: open_backing_def None\<close>)
  qed (use run inv in \<open>auto simp: open_backing_def None\<close>)
qed

definition room :: "'w vfs \<Rightarrow> bool" where
  "room v \<longleftrightarrow> next_file_id v + 1 < 2 ^ 64 \<and> next_fd v + 2 < 2 ^ 64"

lemma vfs_open_result:
  assumes inv: "vfs_inv v" and room: "room v" and run: "vfs_open_file p create v = (r, u)"
  shows "vfs_inv u \<and> r \<noteq> Panic"
proof -
  obtain rb w where rb: "open_backing p create v = (rb, w)" by (cases "open_backing p create v")
  note res = open_backing_result [OF inv _ rb]
  show ?thesis
  proof (cases rb)
    case (Ok x)
    obtain b dev where x: "x = (b, dev)" by (cases x)
    have w: "vfs_inv w" "next_fd w + 1 < 2 ^ 64" "backing_ok (find_file w) (new_descriptor (next_fd w) b None)"
      "\<And>i e. b = BackVfs i \<Longrightarrow> e \<in> set (fds w) \<Longrightarrow> fd_backing e \<noteq> BackVfs i"
      using res room Ok x by (auto simp: room_def)
    have "vfs_inv (w\<lparr>next_fd := next_fd w + 1, fds := fds w @ [new_descriptor (next_fd w) b None]\<rparr>)"
      by (rule vfs_inv_push [OF w(1)]) (use w(3,4) in \<open>auto simp: new_descriptor_def\<close>)
    then show ?thesis using run rb Ok x w(2)
      by (auto simp: vfs_open_file_def bind_act_def fd_number_new_def push_fd_def)
  qed (use run rb res room in \<open>auto simp: vfs_open_file_def room_def\<close>)
qed

lemma open_file_inv:
  assumes inv: "vfs_inv v" and room: "room v"
  shows "vfs_inv (snd (open_file p create v))"
proof -
  obtain r u where r: "vfs_open_file p create v = (r, u)" by (cases "vfs_open_file p create v")
  have u: "vfs_inv u" using vfs_open_result [OF inv room r] by simp
  have rest: "keeps vfs_inv (case dev of None \<Rightarrow> return_act n
       | Some desc \<Rightarrow>
           catch (call_world (dev_open desc)) (\<lambda>r.
             case r of
               Ok x \<Rightarrow> return_act n
             | Err e \<Rightarrow> bind_act (vfs_close_file n) (\<lambda>_. fail e)
             | Panic \<Rightarrow> return_act n))" for dev n
    by (intro keeps_intros vfs_close_inv)
  show ?thesis unfolding open_file_def
    by (rule bind_act_invariant [where m = "vfs_open_file p create", OF r])
      (auto simp: u intro: keepsD [OF rest u] split: prod.split)
qed

lemma keeps_close_file: "keeps vfs_inv (close_file n)"
  unfolding close_file_def by (intro keeps_intros vfs_close_inv)


subsection \<open>Pipes\<close>

lemma fds_ok_new_pipe:
  assumes ok: "fds_ok F ds n" and fresh: "F i = None" and f: "is_Pipe (f_ty f)" "f_pipe f = Some pipe_default"
    and n: "3 \<le> n"
  shows "fds_ok (F(i \<mapsto> f)) (ds @ [new_descriptor n (BackVfs i) (Some ReadEnd),
    new_descriptor (n + 1) (BackVfs i) (Some WriteEnd)]) (n + 2)" (is "fds_ok ?G (ds @ [?r, ?w]) _")
proof -
  have base: "fds_base F ds n" using ok by (simp add: fds_ok_def)
  have no_dir: "\<not> is_Directory (f_ty f)" using f(1) by (cases "f_ty f") auto
  have not_i: "fd_backing d \<noteq> BackVfs i" if "d \<in> set ds" for d
    using fds_baseD(4) [OF base that] fresh by (auto simp: backing_ok_def)
  have backs: "backing_ok ?G d" if "d \<in> set ds" for d
    using fds_baseD(4) [OF base that] fresh by (auto simp: backing_ok_def split: FileBacking.splits)
  have new: "backing_ok ?G ?r" "backing_ok ?G ?w" using f no_dir by (simp_all add: backing_ok_def new_descriptor_def)
  have "fds_base ?G (ds @ [?r, ?w]) (n + 2)" unfolding fds_base_def
  proof (intro conjI)
    show "distinct (map fd_num (ds @ [?r, ?w]))"
      using fds_baseD(1) [OF base] fds_baseD(3) [OF base] by (fastforce simp: new_descriptor_def)
    show "\<forall>d\<in>set (ds @ [?r, ?w]). 3 \<le> fd_num d \<and> fd_num d < n + 2 \<and> backing_ok ?G d"
      using fds_baseD(2,3) [OF base] backs new n by (fastforce simp: new_descriptor_def)
    show "\<forall>d\<in>set (ds @ [?r, ?w]). \<forall>e\<in>set (ds @ [?r, ?w]). \<forall>j. fd_backing d = BackVfs j \<longrightarrow>
        fd_backing e = BackVfs j \<longrightarrow> fd_pipe_end d = None \<longrightarrow> fd_num d = fd_num e"
    proof (intro ballI allI impI)
      fix d e j assume d: "d \<in> set (ds @ [?r, ?w])" "e \<in> set (ds @ [?r, ?w])" "fd_backing d = BackVfs j"
        "fd_backing e = BackVfs j" "fd_pipe_end d = None"
      then have "d \<in> set ds" by (auto simp: new_descriptor_def)
      moreover then have "e \<in> set ds" using d not_i by (auto simp: new_descriptor_def)
      ultimately show "fd_num d = fd_num e" using fds_baseD(5) [OF base] d by blast
    qed
  qed
  moreover have "pipe_ok (ds @ [?r, ?w]) j g" if g: "?G j = Some g" for j g
  proof (cases "j = i")
    case True
    then show ?thesis using g f by (auto simp: pipe_ok_def pipe_default_def new_descriptor_def)
  next
    case False
    then have "pipe_ok ds j g" using g pipe_ok_D [OF ok] by simp
    then show ?thesis using False by (auto simp: pipe_ok_def new_descriptor_def)
  qed
  ultimately show ?thesis by (simp add: fds_ok_def pipes_ok_def)
qed

definition new_pipe :: "VfsFileId \<Rightarrow> 'w vfs \<Rightarrow> 'w vfs" where
  "new_pipe r v = v\<lparr>next_file_id := next_file_id v + 1, next_fd := next_fd v + 2,
     files := bt_insert (next_file_id v)
       ((file_info_new Pipe (''pipe:'' @ show_nat (next_file_id v)) r)\<lparr>f_pipe := Some pipe_default\<rparr>) (files v),
     fds := fds v @ [new_descriptor (next_fd v) (BackVfs (next_file_id v)) (Some ReadEnd),
       new_descriptor (next_fd v + 1) (BackVfs (next_file_id v)) (Some WriteEnd)]\<rparr>"

lemma create_pipe_run:
  assumes "root_id v = Some r" and "room v"
  shows "create_pipe v = (Ok (next_fd v, next_fd v + 1), new_pipe r v)"
  using assms by (simp add: create_pipe_def bind_act_def file_id_new_def fd_number_new_def push_fd_def new_pipe_def room_def)

lemma new_pipe_inv:
  assumes inv: "vfs_inv v" and r: "root_id v = Some r"
  shows "vfs_inv (new_pipe r v)"
proof -
  from inv obtain c where rc: "cwd_path v = Some c" "is_abs c" "normalize c = c"
    "tree_ok (find_file v) r (next_file_id v)" using r by (auto elim!: vfs_invE)
  let ?f = "(file_info_new Pipe (''pipe:'' @ show_nat (next_file_id v)) r)\<lparr>f_pipe := Some pipe_default\<rparr>"
  have F: "find_file (new_pipe r v) = (find_file v)(next_file_id v \<mapsto> ?f)"
    by (simp add: new_pipe_def find_file_def fun_eq_iff)
  have tree: "tree_ok ((find_file v)(next_file_id v \<mapsto> ?f)) r (next_file_id v + 1)"
    by (rule tree_add_pipe [OF rc(4)]) (simp_all add: file_info_new_def shape_ok_def)
  have ok: "fds_ok ((find_file v)(next_file_id v \<mapsto> ?f)) (fds (new_pipe r v)) (next_fd v + 2)"
    unfolding new_pipe_def
    using fds_ok_new_pipe [OF vfs_invD(2) [OF inv] vfs_inv_fresh [OF inv], of ?f] vfs_invD(3) [OF inv]
    by (simp add: file_info_new_def)
  show ?thesis
    by (rule vfs_invI [of _ r c], unfold F)
      (use r rc tree ok vfs_invD(1,3) [OF inv] in \<open>simp_all add: new_pipe_def\<close>)
qed

subsection \<open>Reachable states\<close>

lemma boot_paths:
  "path_join root ''mnt'' = ''/mnt''" "path_join root ''dev'' = ''/dev''" "path_join root ''proc'' = ''/proc''"
  "path_join ''/mnt'' ''initramfs'' = ''/mnt/initramfs''" "parent ''/mnt'' = ''/''" "parent ''/dev'' = ''/''"
  "parent ''/proc'' = ''/''" "parent ''/mnt/initramfs'' = ''/mnt''" "path_name ''/mnt'' = ''mnt''"
  "path_name ''/dev'' = ''dev''" "path_name ''/proc'' = ''proc''" "path_name ''/mnt/initramfs'' = ''initramfs''"
  "path_name root = ''/''" "names ''/mnt'' = [''mnt'']" "normalize ''/mnt'' = ''/mnt''" "normalize ''/'' = ''/''"
  "is_abs ''/mnt''" "is_abs ''/''"
  by code_simp+

lemmas vfs_run = bind_act_def file_id_new_def fd_number_new_def insert_file_def mkdir_def add_file_def push_child_def
  find_file_by_path_mut_def find_file_by_path_def absolutize_def find_file_def upd_file_def file_info_new_def
  check_integrity_def

lemma vfs_init_run: "\<exists>v. vfs_init (vfs_new w) = (Ok (), v) \<and> next_file_id v = 5 \<and> next_fd v = 3 \<and> fds v = []"
  by (simp add: vfs_init_def boot_paths vfs_new_def vfs_run)

lemma add_file_counts:
  assumes "vfs_inv v \<and> next_file_id v \<le> k" and "k + 1 < 2 ^ 64"
  shows "vfs_inv (snd (mkdir p v)) \<and> next_file_id (snd (mkdir p v)) \<le> k + 1"
proof -
  have b: "next_file_id v + 1 < 2 ^ 64" using assms by simp
  have "next_file_id (snd (add_file p Directory v)) \<le> next_file_id v + 1"
    by (auto simp: add_file_def file_id_new_def insert_file_def bind_act_def push_child_def split: option.splits prod.splits outcome.splits)
  then show ?thesis using assms add_file_inv [OF _ _ b, of Directory p] by (auto simp: mkdir_def)
qed

lemma mkdir_then:
  assumes v: "vfs_inv v \<and> next_file_id v \<le> k" "k + 1 < 2 ^ 64"
    and rest: "\<And>u. vfs_inv u \<and> next_file_id u \<le> k + 1 \<Longrightarrow> vfs_inv (snd (m u))"
  shows "vfs_inv (snd (bind_act (mkdir p) (\<lambda>_. m) v))"
proof (rule bind_act_invariant [where m = "mkdir p"])
  show "mkdir p v = (fst (mkdir p v), snd (mkdir p v))" by simp
qed (use add_file_counts [OF v, of p] rest in simp_all)

lemma vfs_inv_root_only:
  "vfs_inv \<lparr>cwd_path = Some root, root_id = Some 0, files = [(0, file_info_new Directory ''/'' 0)], fds = [],
     next_file_id = 1, next_fd = 3, world = (w :: 'w)\<rparr>" (is "vfs_inv ?v")
proof -
  have F: "find_file ?v = [0 \<mapsto> file_info_new Directory ''/'' 0]" by (simp add: find_file_def fun_eq_iff)
  have "tree_ok (find_file ?v) 0 1" unfolding F
    by (rule tree_okI) (auto simp: file_info_new_def kids_ok_def up_ok_def shape_ok_def valid_name_def split: if_splits)
  moreover have "fds_ok (find_file ?v) [] 3" unfolding F
    by (simp add: fds_ok_def fds_base_def pipes_ok_def pipe_ok_def file_info_new_def)
  ultimately show ?thesis
    by (intro vfs_invI [of _ 0 root]) (simp_all add: bt_inv_def is_abs_def root_def normalize_def norm_parts_def)
qed


lemma vfs_init_inv: "vfs_inv (snd (vfs_init (vfs_new (w :: 'w))))"
proof -
  let ?v = "\<lparr>cwd_path = Some root, root_id = Some 0, files = [(0, file_info_new Directory ''/'' 0)], fds = [],
     next_file_id = 1, next_fd = 3, world = w\<rparr> :: 'w vfs"
  define ms :: "('w vfs, unit) act" where "ms = bind_act (mkdir (path_join root ''mnt'')) (\<lambda>_.
     bind_act (mkdir (path_join (path_join root ''mnt'') ''initramfs'')) (\<lambda>_.
     bind_act (mkdir (path_join root ''dev'')) (\<lambda>_.
     mkdir (path_join root ''proc''))))"
  have "vfs_init (vfs_new w) = ms ?v"
    by (simp add: vfs_init_def ms_def vfs_new_def file_id_new_def insert_file_def check_integrity_def boot_paths
        file_info_new_def bind_act_def)
  moreover have "vfs_inv (snd (ms ?v))" unfolding ms_def
  proof (rule mkdir_then [of _ 1])
    fix u :: "'w vfs" assume u: "vfs_inv u \<and> next_file_id u \<le> 1 + 1"
    show "vfs_inv (snd (bind_act (mkdir (path_join (path_join root ''mnt'') ''initramfs''))
        (\<lambda>_. bind_act (mkdir (path_join root ''dev'')) (\<lambda>_. mkdir (path_join root ''proc''))) u))"
    proof (rule mkdir_then [OF u])
      fix u' :: "'w vfs" assume u': "vfs_inv u' \<and> next_file_id u' \<le> 1 + 1 + 1"
      show "vfs_inv (snd (bind_act (mkdir (path_join root ''dev'')) (\<lambda>_. mkdir (path_join root ''proc'')) u'))"
        by (rule mkdir_then [OF u']) (use add_file_counts in fastforce)+
    qed simp
  qed (use vfs_inv_root_only [of w] in simp_all)
  ultimately show ?thesis by simp
qed

text \<open>Everything the kernel does with its file system after boot; the devices and mounted file systems may
  change by themselves.\<close>

inductive quiet_step :: "'w vfs \<Rightarrow> 'w vfs \<Rightarrow> bool" where
  chdirs: "quiet_step v (snd (chdir p v))"
| mounts: "quiet_step v (snd (mount_fs p fs v))"
| creates: "room v \<Longrightarrow> quiet_step v (snd (create_file p v))"
| mkdirs: "room v \<Longrightarrow> quiet_step v (snd (mkdir p v))"
| devices: "room v \<Longrightarrow> quiet_step v (snd (add_dev_file desc nm v))"
| opens: "room v \<Longrightarrow> quiet_step v (snd (open_file p create v))"
| closes: "quiet_step v (snd (close_file n v))"
| seeks: "quiet_step v (snd (seek n pos v))"
| pipes: "room v \<Longrightarrow> quiet_step v (snd (create_pipe v))"
| moves: "quiet_step v (v\<lparr>world := w\<rparr>)"

inductive vfs_step :: "'w vfs \<Rightarrow> 'w vfs \<Rightarrow> bool" where
  quiet: "quiet_step v u \<Longrightarrow> vfs_step v u"
| reads: "vfs_step v (snd (read_file n k v))"
| writes: "vfs_step v (snd (write_file n data v))"

inductive vfs_reachable :: "'w vfs \<Rightarrow> bool" where
  boot: "vfs_init (vfs_new w) = (Ok (), v) \<Longrightarrow> vfs_reachable v"
| step: "vfs_reachable v \<Longrightarrow> vfs_step v u \<Longrightarrow> vfs_reachable u"

lemma quiet_step_inv: "quiet_step v u \<Longrightarrow> vfs_inv v \<Longrightarrow> vfs_inv u"
proof (induction rule: quiet_step.induct)
  case (pipes v)
  then obtain r where "root_id v = Some r" by (auto elim: vfs_invE)
  then show ?case using create_pipe_run new_pipe_inv pipes by fastforce
qed (auto simp: create_file_def mkdir_def add_dev_file_def room_def
    intro: keepsD [OF keeps_chdir] keepsD [OF keeps_mount_fs] keepsD [OF keeps_close_file]
      keepsD [OF keeps_seek] open_file_inv conjunct1 [OF add_file_inv])

lemma vfs_step_inv: "vfs_step v u \<Longrightarrow> vfs_inv v \<Longrightarrow> vfs_inv u"
  by (induction rule: vfs_step.induct)
    (auto intro: quiet_step_inv keepsD [OF keeps_read_file] keepsD [OF keeps_write_file])

lemma vfs_reachable_inv: "vfs_reachable v \<Longrightarrow> vfs_inv v"
proof (induction rule: vfs_reachable.induct)
  case (boot w v)
  then show ?case using vfs_init_inv [of w] by simp
qed (rule vfs_step_inv)
subsection \<open>Properties: consistency and paths\<close>

definition demo_vfs :: "unit vfs" where
  "demo_vfs = snd (vfs_init (vfs_new ()))"

lemma demo_vfs_eq: "demo_vfs = \<lparr>cwd_path = Some root, root_id = Some 0,
    files = [(0, \<lparr>f_ty = Directory, f_name = ''/'', f_fs = None, f_parent = 0, f_children = [1, 3, 4], f_buf = None, f_pipe = None\<rparr>),
      (1, \<lparr>f_ty = Directory, f_name = ''mnt'', f_fs = None, f_parent = 0, f_children = [2], f_buf = None, f_pipe = None\<rparr>),
      (2, \<lparr>f_ty = Directory, f_name = ''initramfs'', f_fs = None, f_parent = 1, f_children = [], f_buf = None, f_pipe = None\<rparr>),
      (3, \<lparr>f_ty = Directory, f_name = ''dev'', f_fs = None, f_parent = 0, f_children = [], f_buf = None, f_pipe = None\<rparr>),
      (4, \<lparr>f_ty = Directory, f_name = ''proc'', f_fs = None, f_parent = 0, f_children = [], f_buf = None, f_pipe = None\<rparr>)],
    fds = [], next_file_id = 5, next_fd = 3, world = ()\<rparr>"
  by (simp add: demo_vfs_def vfs_init_def boot_paths vfs_new_def vfs_run)

lemma demo_vfs_reachable: "vfs_reachable demo_vfs"
  using vfs_init_run [of "()"] by (auto simp: demo_vfs_def intro: vfs_reachable.boot)

lemma demo_room: "room demo_vfs"
  by (simp add: demo_vfs_eq room_def)

text \<open>C25: the virtual file system is consistent in every state the kernel reaches by creating, opening,
  reading, writing, seeking, closing, mounting and piping, whatever the devices and mounted file systems do:
  the files form a tree under the root whose links agree and whose siblings have different names; descriptor
  numbers are unique and above those of the standard streams; every descriptor is backed by an existing file
  or mount; a file is open at most once; a pipe exists exactly as long as an end of it is open, and is marked closed for writing
  exactly when no write end is.\<close>

theorem vfs_consistent:
  assumes "vfs_reachable v"
  shows "\<exists>r. root_id v = Some r \<and> tree_ok (find_file v) r (next_file_id v) \<and>
    fds_ok (find_file v) (fds v) (next_fd v)"
  using vfs_reachable_inv [OF assms] by (auto simp: vfs_inv_def)

theorem vfs_consistent_witness:
  "\<exists>r. root_id demo_vfs = Some r \<and> tree_ok (find_file demo_vfs) r (next_file_id demo_vfs) \<and>
    fds_ok (find_file demo_vfs) (fds demo_vfs) (next_fd demo_vfs)"
  by (rule vfs_consistent [OF demo_vfs_reachable])

lemma find_file_by_path_same:
  assumes "find_file u = find_file v" and "world u = world v" and "root_id u = root_id v" and "cwd_path u = cwd_path v"
  shows "find_file_by_path u q = find_file_by_path v q"
proof -
  have kids: "find_child u cs n = find_child v cs n" for cs n
    by (rule find_child_cong) (simp add: assms(1))
  have "resolve_names u i f ns = resolve_names v i f ns" for i f ns
    by (induction ns arbitrary: i f) (simp_all add: assms(2) kids split: option.splits)
  then show ?thesis using assms by (simp add: find_file_by_path_def absolutize_def)
qed

lemma add_missing_file:
  assumes inv: "vfs_inv v" and t: "\<not> is_Pipe t" and bound: "next_file_id v + 1 < 2 ^ 64"
    and none: "find_file_by_path v p = None"
    and par: "find_file_by_path v (parent p) = Some (ResVfs pid pf)" "is_Directory (f_ty pf)"
    and name: "path_name p \<noteq> CURRENT_DIR" "path_name p \<noteq> PARENT_DIR"
  shows "add_file p t v = (Ok (), add_node pid pf (file_info_new t (path_name p) pid) v)"
proof -
  have pf: "find_file v pid = Some pf" "f_fs pf = None" using find_file_by_path_sound [OF inv par(1)] by simp_all
  then have m: "find_file_by_path_mut v (parent p) = Some (pid, pf)" using par(1) by (simp add: find_file_by_path_mut_def)
  have valid: "valid_name (path_name p)" using path_name_valid [of p] name by blast
  obtain ns where ns: "names p = ns @ [path_name p]" "plain_name (path_name p)"
    using missing_name [OF inv none m valid] by blast
  obtain r f where r: "root_id v = Some r" "find_file v r = Some f" using inv by (rule vfs_inv_root)
  have "resolve_names v r f (abs_names v (parent p)) = Some (ResVfs pid pf)"
    using par(1) find_file_by_path_walk [OF inv r] by simp
  then have "find_file_by_path v p = resolve_names v pid pf [path_name p]"
    using find_file_by_path_walk [OF inv r, of p] abs_names_parent [OF ns, of v] resolve_names_append by metis
  then have miss: "find_child v (f_children pf) (path_name p) = None"
    using none pf(2) by (auto simp: resolve_mount_def root_def split: option.splits if_splits)
  have "f_name g \<noteq> path_name p" if "c \<in> set (f_children pf)" "find_file v c = Some g" for c g
    using find_child_None [OF miss _ that] vfs_inv_child [OF inv pf(1)] by auto
  then have "\<not> list_ex (\<lambda>i. case find_file v i of None \<Rightarrow> False | Some f \<Rightarrow> f_name f = path_name p) (f_children pf)"
    by (auto simp: list_ex_iff split: option.splits)
  then show ?thesis using add_file_success [OF inv bound m par(2)] name by simp
qed

text \<open>C26: a file that is created is found. When a path leads nowhere, its parent is a directory kept in
  memory and its last component is a proper name, \<open>open_file\<close> with \<open>create\<close> succeeds with the next free
  descriptor number; afterwards the path leads to the new, empty file, and every path that does not name it
  leads where it led before.\<close>

theorem open_creates_file:
  assumes "vfs_reachable v" and "room v" and "find_file_by_path v p = None"
    and "find_file_by_path v (parent p) = Some (ResVfs d g)" and "is_Directory (f_ty g)"
    and "path_name p \<noteq> CURRENT_DIR" and "path_name p \<noteq> PARENT_DIR"
  shows "\<exists>u f. open_file p True v = (Ok (next_fd v), u) \<and>
    find_file_by_path u p = Some (ResVfs (next_file_id v) f) \<and> f_ty f = VirtualFile \<and> f_name f = path_name p \<and>
    file_size (next_fd v) u = Ok 0 \<and>
    (\<forall>q. abs_names v q \<noteq> abs_names v p \<longrightarrow>
       map_option resolved_backing (find_file_by_path u q) = map_option resolved_backing (find_file_by_path v q))"
proof -
  have inv: "vfs_inv v" and b: "next_file_id v + 1 < 2 ^ 64" "next_fd v + 1 < 2 ^ 64"
    using vfs_reachable_inv [OF assms(1)] assms(2) by (simp_all add: room_def)
  let ?f = "file_info_new VirtualFile (path_name p) d"
  let ?w = "add_node d g ?f v"
  let ?fd = "new_descriptor (next_fd v) (BackVfs (next_file_id v)) None"
  let ?u = "?w\<lparr>next_fd := next_fd v + 1, fds := fds v @ [?fd]\<rparr>"
  have add: "add_file p VirtualFile v = (Ok (), ?w)"
    using add_missing_file [OF inv _ b(1) assms(3-)] by simp
  note look = created_lookup [OF inv _ b(1) assms(3) add]
  have same: "find_file_by_path ?u q = find_file_by_path ?w q" for q
    by (rule find_file_by_path_same) (simp_all add: find_file_def)
  have "find_file v d = Some g" using find_file_by_path_sound [OF inv assms(4)] by simp
  then have new: "find_file ?w (next_file_id v) = Some ?f" using vfs_inv_fresh [OF inv] by auto
  have "vfs_inv ?w" using add_file_inv [OF inv _ b(1), of VirtualFile p] add by simp
  then have at: "find_file_by_path ?w p = Some (ResVfs (next_file_id v) ?f)"
    using look(1) find_file_by_path_sound [of ?w p] new by fastforce
  have "find (\<lambda>d. fd_num d = next_fd v) (fds v) = None"
    using vfs_invD(2) [OF inv] fds_baseD(3) by (fastforce simp: find_None_iff fds_ok_def)
  then have "find (\<lambda>d. fd_num d = next_fd v) (fds v @ [?fd]) = Some ?fd"
    by (simp add: find_append new_descriptor_def)
  then have sz: "file_size (next_fd v) ?u = Ok 0"
    using new by (simp add: file_size_def file_desc_def file_ref_def new_descriptor_def file_info_new_def)
  have "open_file p True v = (Ok (next_fd v), ?u)"
    using add at assms(3) b(2)
    by (simp add: open_file_def vfs_open_file_def open_backing_def bind_act_def fd_number_new_def push_fd_def)
  then show ?thesis using same at look(2) sz
    by (intro exI [of _ ?u] exI [of _ ?f]) (simp add: file_info_new_def)
qed
theorem open_creates_file_witness:
  "\<exists>u f. open_file ''/a'' True demo_vfs = (Ok 3, u) \<and>
    find_file_by_path u ''/a'' = Some (ResVfs 5 f) \<and> f_ty f = VirtualFile \<and> f_name f = ''a'' \<and> file_size 3 u = Ok 0"
proof -
  have n: "path_name ''/a'' = ''a''" "parent ''/a'' = ''/''" "names ''/a'' = [''a'']" "normalize ''/a'' = ''/a''" "is_abs ''/a''"
    by code_simp+
  have "\<exists>g. find_file_by_path demo_vfs ''/'' = Some (ResVfs 0 g) \<and> is_Directory (f_ty g)"
    by (simp add: demo_vfs_eq vfs_run boot_paths)
  then obtain g where g: "find_file_by_path demo_vfs (parent ''/a'') = Some (ResVfs 0 g)" "is_Directory (f_ty g)"
    by (auto simp: n)
  have none: "find_file_by_path demo_vfs ''/a'' = None" by (simp add: demo_vfs_eq vfs_run n)
  obtain u f where "open_file ''/a'' True demo_vfs = (Ok (next_fd demo_vfs), u)"
    "find_file_by_path u ''/a'' = Some (ResVfs (next_file_id demo_vfs) f)" "f_ty f = VirtualFile" "f_name f = path_name ''/a''"
    "file_size (next_fd demo_vfs) u = Ok 0"
    using open_creates_file [OF demo_vfs_reachable demo_room none g] n(1) by auto
  then show ?thesis using n(1) by (auto simp: demo_vfs_eq)
qed

subsection \<open>The path of a file\<close>

lemma climb_unfold:
  "root_id v = Some r \<Longrightarrow> climb v s i = (if i = r then Some (Some s)
     else (case find_file v i of None \<Rightarrow> Some None | Some p \<Rightarrow> climb v (f_name p @ [SEPARATOR] @ s) (f_parent p)))"
  by (subst climb.simps) simp

lemma climb_ends:
  assumes inv: "vfs_inv v" and "find_file v i = Some f"
  shows "\<exists>t. climb v s i = Some (Some t)"
  using assms(2)
proof (induction i arbitrary: f s rule: less_induct)
  case (less i)
  obtain r where r: "root_id v = Some r" "tree_ok (find_file v) r (next_file_id v)" using inv by (auto elim: vfs_invE)
  show ?case
  proof (cases "i = r")
    case False
    then obtain p where "find_file v (f_parent f) = Some p" "f_parent f < i"
      using tree_okD [OF r(2) less.prems] by (auto simp: up_ok_def)
    then show ?thesis using less.IH False less.prems by (simp add: climb_unfold [OF r(1)])
  qed (simp add: climb_unfold [OF r(1)])
qed

lemma climb_path:
  assumes inv: "vfs_inv v" and r: "root_id v = Some r" "find_file v r = Some rf" "\<not> is_Pipe (f_ty rf)"
  shows "resolve_names v r rf ns = Some (ResVfs i f) \<Longrightarrow>
    climb v s i = Some (Some (concat (map (\<lambda>n. n @ [SEPARATOR]) ns) @ s))"
proof (induction ns arbitrary: i f s rule: rev_induct)
  case Nil
  then have "i = r" by (auto simp: resolve_mount_def split: option.splits if_splits sum.splits)
  then show ?case by (simp add: climb_unfold [OF r(1)])
next
  case (snoc k ks)
  obtain h where h: "resolve_names v r rf ks = Some (ResVfs (f_parent f) h)" "f_name f = k"
    using resolve_names_snoc [OF inv r(2,3) snoc.prems] by blast
  have "i \<noteq> r" using resolve_names_le [OF inv r(2,3) snoc.prems] by auto
  moreover have "find_file v i = Some f" using resolve_names_sound [OF inv r(2,3) snoc.prems] by simp
  ultimately show ?case using snoc.IH [OF h(1)] h(2) by (simp add: climb_unfold [OF r(1)])
qed

lemma names_of_steps:
  "\<forall>n\<in>set ns. component n \<Longrightarrow> component k \<Longrightarrow>
   names (ROOT @ concat (map (\<lambda>n. n @ [SEPARATOR]) ns) @ k) = ns @ [k]"
  by (induction ns) (simp_all add: names_sep_Cons names_component_single names_append_sep)

lemma walk_plain: "\<forall>n\<in>set ns. plain_name n \<Longrightarrow> walk dir ns = dir @ ns"
  by (induction ns arbitrary: dir) (simp_all add: walk_def cd_def plain_name_def)

lemma resolved_names_plain:
  assumes inv: "vfs_inv v" and f: "find_file v i = Some f" "\<not> is_Pipe (f_ty f)"
  shows "resolve_names v i f ns = Some (ResVfs j g) \<Longrightarrow> n \<in> set ns \<Longrightarrow> plain_name n"
proof (induction ns arbitrary: j g rule: rev_induct)
  case (snoc k ks)
  obtain h where h: "resolve_names v i f ks = Some (ResVfs (f_parent g) h)" "f_name g = k"
    using resolve_names_snoc [OF inv f snoc.prems(1)] by blast
  have "find_file v j = Some g" "\<not> is_Pipe (f_ty g)" using resolve_names_sound [OF inv f snoc.prems(1)] by simp_all
  then have "plain_name k" using vfs_inv_node [OF inv] h(2) by (fastforce simp: shape_ok_def valid_name_def plain_name_def)
  then show ?case using snoc.IH [OF h(1)] snoc.prems(2) by auto
qed simp

lemma walk_components:
  "\<forall>n\<in>set dir. component n \<Longrightarrow> \<forall>n\<in>set ns. component n \<Longrightarrow> \<forall>n\<in>set (walk dir ns). component n"
proof (induction ns arbitrary: dir)
  case (Cons n ns)
  have "\<forall>x\<in>set (cd dir n). component x" using Cons.prems by (auto simp: cd_def dest: in_set_butlastD)
  then show ?case using Cons.IH [of "cd dir n"] Cons.prems by (simp add: walk_def)
qed (simp add: walk_def)

lemma abs_names_components: "n \<in> set (abs_names v p) \<Longrightarrow> component n"
  using walk_components [of "start_dir v p" "names p"] names_component
  by (fastforce simp: abs_names_def start_dir_def split: option.splits if_splits)

text \<open>\<open>abs_path_by_file\<close> ends and inverts lookup. For a file found under some path, absolute or relative,
  climbing the parent links ends with an absolute path whose components are those that the lookup followed
  from the root, and looking that path up finds the same file.\<close>

theorem abs_path_roundtrip:
  assumes "vfs_reachable v" and "find_file_by_path v p = Some (ResVfs i f)"
  shows "\<exists>q. abs_path_by_file v f = Some (Some q) \<and> is_abs q \<and> names q = abs_names v p \<and>
    find_file_by_path v q = Some (ResVfs i f)"
proof -
  have inv: "vfs_inv v" by (rule vfs_reachable_inv [OF assms(1)])
  obtain r rf where r: "root_id v = Some r" "find_file v r = Some rf" "is_Directory (f_ty rf)"
    using inv by (rule vfs_inv_root)
  have np: "\<not> is_Pipe (f_ty rf)" using r(3) by (cases "f_ty rf") auto
  let ?ns = "abs_names v p"
  have res: "resolve_names v r rf ?ns = Some (ResVfs i f)"
    using assms(2) find_file_by_path_walk [OF inv r(1,2)] by simp
  have plain: "\<forall>n\<in>set ?ns. plain_name n" using resolved_names_plain [OF inv r(2) np res] by blast
  have "\<exists>s. climb v (f_name f) (f_parent f) = Some (Some s) \<and> names (ROOT @ s) = ?ns"
  proof (cases ?ns rule: rev_cases)
    case Nil
    then have "i = r" "f = rf" using res by (auto simp: resolve_mount_def split: option.splits if_splits sum.splits)
    moreover have "f_parent rf = r" "f_name rf = ROOT"
      using inv r(1,2) by (auto elim!: vfs_invE dest!: tree_okD simp: up_ok_def)
    ultimately show ?thesis using Nil by (simp add: climb_unfold [OF r(1)] names_sep_Cons names_Nil)
  next
    case (snoc ks k)
    obtain h where h: "resolve_names v r rf ks = Some (ResVfs (f_parent f) h)" "f_name f = k"
      using resolve_names_snoc [OF inv r(2) np] res snoc by metis
    have "names (ROOT @ concat (map (\<lambda>n. n @ [SEPARATOR]) ks) @ k) = ks @ [k]"
      by (rule names_of_steps) (use abs_names_components [of _ v p] snoc in auto)
    then show ?thesis using climb_path [OF inv r(1,2) np h(1), of k] h(2) snoc by simp
  qed
  then obtain s where s: "climb v (f_name f) (f_parent f) = Some (Some s)" "names (ROOT @ s) = ?ns" by blast
  have ab: "is_abs (ROOT @ s)" by (simp add: is_abs_Cons)
  let ?q = "normalize (ROOT @ s)"
  have q: "is_abs ?q" "names ?q = ?ns"
    using ab s(2) walk_plain [OF plain, of "[]"] by (simp_all add: is_abs_normalize names_normalize norm_parts_walk)
  have "abs_names v ?q = ?ns" using q walk_plain [OF plain, of "[]"] by (simp add: abs_names_def start_dir_def)
  then have "find_file_by_path v ?q = Some (ResVfs i f)" using res find_file_by_path_walk [OF inv r(1,2)] by simp
  then show ?thesis using s(1) q by (intro exI [of _ ?q]) (simp add: abs_path_by_file_def)
qed


theorem abs_path_roundtrip_witness:
  "\<exists>i f q. find_file_by_path demo_vfs ''mnt/../mnt/initramfs'' = Some (ResVfs i f) \<and>
    abs_path_by_file demo_vfs f = Some (Some q) \<and> names q = [''mnt'', ''initramfs'']"
proof -
  have n: "path_join root ''mnt/../mnt/initramfs'' = ''/mnt/initramfs''" "\<not> is_abs ''mnt/../mnt/initramfs''"
    "names ''/mnt/initramfs'' = [''mnt'', ''initramfs'']" "walk [] (names ''mnt/../mnt/initramfs'') = [''mnt'', ''initramfs'']"
    by code_simp+
  have "\<exists>f. find_file_by_path demo_vfs ''mnt/../mnt/initramfs'' = Some (ResVfs 2 f)"
    by (simp add: demo_vfs_eq vfs_run n)
  then obtain f where f: "find_file_by_path demo_vfs ''mnt/../mnt/initramfs'' = Some (ResVfs 2 f)" by blast
  have "abs_names demo_vfs ''mnt/../mnt/initramfs'' = [''mnt'', ''initramfs'']"
    using n(2,4) by (simp add: abs_names_def start_dir_def demo_vfs_eq root_def)
  then show ?thesis using abs_path_roundtrip [OF demo_vfs_reachable f] f by auto
qed
subsection \<open>Files are byte arrays\<close>

text \<open>The reference: writing \<open>data\<close> at position \<open>k\<close> of a byte array; a gap is filled with zeros.\<close>

definition patch :: "u8 list \<Rightarrow> nat \<Rightarrow> u8 list \<Rightarrow> u8 list" where
  "patch b k data = map (\<lambda>j. if k \<le> j \<and> j < k + length data then data ! (j - k)
     else if j < length b then b ! j else 0) [0..<max (length b) (k + length data)]"

lemma patch_length [simp]: "length (patch b k data) = max (length b) (k + length data)"
  by (simp add: patch_def)

lemma patch_nth:
  "j < max (length b) (k + length data) \<Longrightarrow> patch b k data ! j =
     (if k \<le> j \<and> j < k + length data then data ! (j - k) else if j < length b then b ! j else 0)"
  by (simp add: patch_def)

lemma patch_read_back: "take (length data) (drop k (patch b k data)) = data"
  by (rule nth_equalityI) (simp_all add: patch_nth)

lemma overwrite_patch:
  assumes "k + length data \<le> ISIZE_MAX"
  shows "overwrite b k data = Ok (patch b k data)"
proof -
  define b' where "b' = (if k + length data > length b then take (k + length data) b @ replicate (k + length data - length b) 0 else b)"
  have len: "length b' = max (length b) (k + length data)" by (simp add: b'_def)
  have at: "b' ! j = (if j < length b then b ! j else 0)" if "j < max (length b) (k + length data)" for j
    using that by (auto simp: b'_def nth_append)
  have lk: "length (take k b') = k" using len by simp
  have "overwrite b k data = Ok (take k b' @ data @ drop (k + length data) b')"
    using assms by (simp add: overwrite_def vec_resize_def b'_def)
  also have "take k b' @ data @ drop (k + length data) b' = patch b k data"
  proof (rule nth_equalityI)
    show l: "length (take k b' @ data @ drop (k + length data) b') = length (patch b k data)" using len by simp
    fix j assume j: "j < length (take k b' @ data @ drop (k + length data) b')"
    then have jm: "j < max (length b) (k + length data)" using l by simp
    consider "j < k" | "k \<le> j" "j < k + length data" | "k + length data \<le> j" by linarith
    then show "(take k b' @ data @ drop (k + length data) b') ! j = patch b k data ! j"
    proof cases
      case 3
      then have "j < length b" "\<not> j - k < length data" using jm by auto
      then show ?thesis using 3 jm len at [OF jm] lk by (simp add: nth_append patch_nth)
    next
      case 2
      then have "j - k < length data" by linarith
      then show ?thesis using 2 jm len lk by (simp add: nth_append patch_nth)
    qed (use jm len at [OF jm] lk in \<open>simp_all add: nth_append patch_nth\<close>)
  qed
  finally show ?thesis .
qed

datatype file_op = FileRead nat | FileWrite "u8 list" | FileSeek nat

text \<open>The abstract file of a descriptor: an offset and a byte array.\<close>

fun byte_step :: "file_op \<Rightarrow> nat \<times> u8 list \<Rightarrow> u8 list \<times> nat \<times> u8 list" where
  "byte_step (FileRead m) (k, b) = (take m (drop k b), min (min k (length b) + m) (length b), b)"
| "byte_step (FileWrite data) (k, b) = ([], k + length data, patch b k data)"
| "byte_step (FileSeek p) (k, b) = ([], p, b)"

fun byte_run :: "file_op list \<Rightarrow> nat \<times> u8 list \<Rightarrow> u8 list list \<times> nat \<times> u8 list" where
  "byte_run [] s = ([], s)"
| "byte_run (x # xs) s = (case byte_step x s of (y, s') \<Rightarrow> case byte_run xs s' of (ys, t) \<Rightarrow> (y # ys, t))"

text \<open>The positions a run may use: every write and every seek stays within \<open>isize::MAX\<close>.\<close>

fun in_range :: "file_op list \<Rightarrow> nat \<times> u8 list \<Rightarrow> bool" where
  "in_range [] s = True"
| "in_range (x # xs) s =
     ((case x of FileRead m \<Rightarrow> m \<le> USIZE_MAX | FileWrite data \<Rightarrow> fst s + length data \<le> ISIZE_MAX | FileSeek p \<Rightarrow> p \<le> ISIZE_MAX) \<and>
      in_range xs (snd (byte_step x s)))"

text \<open>A sequence of calls, each started in the state the one before left, with the values returned.\<close>

fun run_ops :: "('i \<Rightarrow> ('s, 'a) act) \<Rightarrow> 'i list \<Rightarrow> ('s, 'a list) act" where
  "run_ops f [] = return_act []"
| "run_ops f (x # xs) = bind_act (f x) (\<lambda>y. bind_act (run_ops f xs) (\<lambda>ys. return_act (y # ys)))"

text \<open>What a descriptor of a file promises: \<open>holds s a\<close> says that the descriptor's file is \<open>a\<close> in state \<open>s\<close>.\<close>

locale byte_file =
  fixes call :: "'d \<Rightarrow> file_op \<Rightarrow> ('s, u8 list) act"
    and holds :: "'s \<Rightarrow> 'd \<Rightarrow> nat \<times> u8 list \<Rightarrow> bool"
  assumes call_ok: "holds s d a \<Longrightarrow> in_range [x] a \<Longrightarrow>
      \<exists>t. call d x s = (Ok (fst (byte_step x a)), t) \<and> holds t d (snd (byte_step x a))"
begin

lemma run_refines:
  "holds s d a \<Longrightarrow> in_range xs a \<Longrightarrow>
   \<exists>t. run_ops (call d) xs s = (Ok (fst (byte_run xs a)), t) \<and> holds t d (snd (byte_run xs a))"
proof (induction xs arbitrary: s a)
  case (Cons x xs)
  obtain t where t: "call d x s = (Ok (fst (byte_step x a)), t)" "holds t d (snd (byte_step x a))"
    using call_ok [OF Cons.prems(1), of x] Cons.prems(2) by auto
  obtain u where u: "run_ops (call d) xs t = (Ok (fst (byte_run xs (snd (byte_step x a)))), u)"
    "holds u d (snd (byte_run xs (snd (byte_step x a))))"
    using Cons.IH [OF t(2)] Cons.prems(2) by auto
  have "byte_run (x # xs) a = (fst (byte_step x a) # fst (byte_run xs (snd (byte_step x a))), snd (byte_run xs (snd (byte_step x a))))"
    by (simp add: case_prod_beta)
  then show ?case using t(1) u by simp
qed simp

lemma write_read_back:
  assumes "holds s d (k, b)" and "k + length data \<le> ISIZE_MAX"
  shows "\<exists>t. run_ops (call d) [FileWrite data, FileSeek k, FileRead (length data)] s = (Ok [[], [], data], t)"
  using run_refines [OF assms(1), of "[FileWrite data, FileSeek k, FileRead (length data)]"] assms(2) patch_read_back [of data k b]
  by auto

end

text \<open>The calls on one descriptor.\<close>

fun file_call :: "FileDescriptorNumber \<Rightarrow> file_op \<Rightarrow> ('w vfs, u8 list) act" where
  "file_call n (FileRead m) = read_file n m"
| "file_call n (FileWrite data) = bind_act (write_file n data) (\<lambda>_. return_act [])"
| "file_call n (FileSeek p) = bind_act (seek n (SeekStart (int p))) (\<lambda>_. return_act [])"

definition open_virtual :: "'w vfs \<Rightarrow> FileDescriptorNumber \<Rightarrow> VfsFileId \<Rightarrow> nat \<times> u8 list \<Rightarrow> bool" where
  "open_virtual v n i kb \<longleftrightarrow> (\<exists>d f. find (\<lambda>d. fd_num d = n) (fds v) = Some d \<and> fd_backing d = BackVfs i \<and>
     fd_offset d = fst kb \<and> find_file v i = Some f \<and> f_ty f = VirtualFile \<and>
     snd kb = (case f_buf f of None \<Rightarrow> [] | Some b \<Rightarrow> b))"

lemma find_update_first:
  assumes "\<And>d. fd_num (g d) = fd_num d"
  shows "find (\<lambda>d. fd_num d = m) (update_first (\<lambda>d. fd_num d = n) g ds) =
    (if m = n then map_option g (find (\<lambda>d. fd_num d = n) ds) else find (\<lambda>d. fd_num d = m) ds)"
  using assms by (induction ds) auto

lemma open_virtual_len:
  assumes "vfs_inv v" and "open_virtual v n i (k, b)"
  shows "length b \<le> ISIZE_MAX"
  using assms vfs_inv_node by (fastforce simp: open_virtual_def shape_ok_def split: option.splits)

lemma file_desc_mut_run:
  assumes "find (\<lambda>d. fd_num d = n) (fds v) = Some d"
  shows "file_desc_mut n g v = (Ok (), v\<lparr>fds := update_first (\<lambda>d. fd_num d = n) g (fds v)\<rparr>)"
  using assms by (simp add: file_desc_mut_def file_desc_def)

lemma read_virtual:
  assumes inv: "vfs_inv v" and op: "open_virtual v n i (k, b)" and m: "m \<le> USIZE_MAX"
  shows "\<exists>u. read_file n m v = (Ok (take m (drop k b)), u) \<and> open_virtual u n i (min (min k (length b) + m) (length b), b)"
proof -
  obtain d f where d: "find (\<lambda>d. fd_num d = n) (fds v) = Some d" "fd_backing d = BackVfs i" "fd_offset d = k"
    and f: "find_file v i = Some f" "f_ty f = VirtualFile" "b = (case f_buf f of None \<Rightarrow> [] | Some b \<Rightarrow> b)"
    using op by (auto simp: open_virtual_def)
  have len: "length b \<le> ISIZE_MAX" by (rule open_virtual_len [OF inv op])
  let ?stop = "min (min k (length b) + m) (length b)"
  let ?u = "v\<lparr>fds := update_first (\<lambda>d. fd_num d = n) (\<lambda>d. d\<lparr>fd_offset := ?stop\<rparr>) (fds v)\<rparr>"
  have win: "window b k m = (min k (length b), ?stop)" using len by (simp add: window_def Let_def min_def)
  have sl: "slice b (min k (length b)) ?stop = Ok (take m (drop k b))"
  proof -
    have "take (?stop - min k (length b)) (drop (min k (length b)) b) = take m (drop k b)"
      by (cases "k \<le> length b") (auto simp: min_def take_all_iff)
    then show ?thesis by (simp add: slice_def)
  qed
  have "vfs_read_file n m v = (Ok (ReadData (take m (drop k b))), ?u)"
    using d f(1,2) win sl file_desc_mut_run [OF d(1)]
    by (simp add: vfs_read_file_def file_desc_def file_ref_def read_window_def f(3) [symmetric])
  then have "read_file n m v = (Ok (take m (drop k b)), ?u)" by (simp add: read_file_def)
  moreover have "open_virtual ?u n i (?stop, b)"
    using d f by (auto simp: open_virtual_def find_update_first)
  ultimately show ?thesis by blast
qed

lemma write_virtual:
  assumes inv: "vfs_inv v" and op: "open_virtual v n i (k, b)" and m: "k + length data \<le> ISIZE_MAX"
  shows "\<exists>u. write_file n data v = (Ok (), u) \<and> open_virtual u n i (k + length data, patch b k data)"
proof -
  obtain d f where d: "find (\<lambda>d. fd_num d = n) (fds v) = Some d" "fd_backing d = BackVfs i" "fd_offset d = k"
    and f: "find_file v i = Some f" "f_ty f = VirtualFile" "b = (case f_buf f of None \<Rightarrow> [] | Some b \<Rightarrow> b)"
    using op by (auto simp: open_virtual_def)
  let ?w = "upd_file i (\<lambda>f. f\<lparr>f_buf := Some (patch b k data)\<rparr>) v"
  let ?u = "?w\<lparr>fds := update_first (\<lambda>d. fd_num d = n) (\<lambda>d. d\<lparr>fd_offset := k + length data\<rparr>) (fds v)\<rparr>"
  obtain r rf where r: "root_id v = Some r" "tree_ok (find_file v) r (next_file_id v)" using inv by (auto elim: vfs_invE)
  have "\<exists>p. find_file v (f_parent f) = Some p" using tree_okD [OF r(2) f(1)] f by (auto simp: up_ok_def split: if_splits)
  then obtain s where "climb v (f_name f) (f_parent f) = Some (Some s)" using climb_ends [OF inv] by blast
  then have path: "\<exists>q. abs_path_by_file v f = Some q" by (auto simp: abs_path_by_file_def)
  have "write_buf n i k data v = (Ok WriteDone, ?u)"
    using f(1) d overwrite_patch [OF m, of b] file_desc_mut_run [of n ?w d]
    by (simp add: write_buf_def file_ref_def f(3) [symmetric])
  then have "vfs_write_file n data v = (Ok WriteDone, ?u)"
    using d f(1,2) path by (auto simp: vfs_write_file_def file_desc_def file_ref_def with_path_def)
  then have "write_file n data v = (Ok (), ?u)" by (simp add: write_file_def)
  moreover have "open_virtual ?u n i (k + length data, patch b k data)"
    using d f by (auto simp: open_virtual_def find_update_first)
  ultimately show ?thesis by blast
qed

lemma seek_virtual:
  assumes "open_virtual v n i (k, b)"
  shows "\<exists>u. seek n (SeekStart (int p)) v = (Ok p, u) \<and> open_virtual u n i (p, b)"
proof -
  obtain d f where d: "find (\<lambda>d. fd_num d = n) (fds v) = Some d" "fd_backing d = BackVfs i" "fd_offset d = k"
    and f: "find_file v i = Some f" "f_ty f = VirtualFile" "b = (case f_buf f of None \<Rightarrow> [] | Some b \<Rightarrow> b)"
    using assms by (auto simp: open_virtual_def)
  let ?u = "v\<lparr>fds := update_first (\<lambda>d. fd_num d = n) (\<lambda>d. d\<lparr>fd_offset := p\<rparr>) (fds v)\<rparr>"
  have "seek n (SeekStart (int p)) v = (Ok p, ?u)"
    using d(1) file_desc_mut_run [OF d(1)] by (simp add: seek_def file_desc_def)
  moreover have "open_virtual ?u n i (p, b)" using d f by (auto simp: open_virtual_def find_update_first)
  ultimately show ?thesis by blast
qed

lemma file_call_refines:
  assumes inv: "vfs_inv v" and op: "open_virtual v n i a" and r: "in_range [x] a"
  shows "\<exists>u. file_call n x v = (Ok (fst (byte_step x a)), u) \<and> vfs_inv u \<and> open_virtual u n i (snd (byte_step x a))"
proof -
  obtain k b where a: "a = (k, b)" by (cases a)
  show ?thesis
  proof (cases x)
    case (FileRead m)
    then show ?thesis using read_virtual [OF inv, of n i k b m] op r keepsD_eq [OF keeps_read_file inv] by (auto simp: a)
  next
    case (FileWrite data)
    then show ?thesis using write_virtual [OF inv, of n i k b data] op r keepsD_eq [OF keeps_write_file inv] by (auto simp: a)
  next
    case (FileSeek p)
    then show ?thesis using seek_virtual [of v n i k b p] op keepsD_eq [OF keeps_seek inv] by (auto simp: a)
  qed
qed

interpretation vfile: byte_file "\<lambda>(n, i). file_call n" "\<lambda>v (n, i) a. vfs_inv v \<and> open_virtual v n i a"
  by unfold_locales (auto dest: file_call_refines)


definition demo_open :: "unit vfs" where
  "demo_open = snd (open_file ''/a'' True demo_vfs)"

lemma demo_paths:
  "path_name ''/a'' = ''a''" "parent ''/a'' = ''/''" "names ''/a'' = [''a'']" "normalize ''/a'' = ''/a''" "is_abs ''/a''"
  by code_simp+

lemma demo_open_reachable: "vfs_reachable demo_open"
  unfolding demo_open_def
  by (intro vfs_reachable.step [OF demo_vfs_reachable] vfs_step.quiet quiet_step.opens demo_room)

lemma demo_open_virtual: "open_virtual demo_open 3 5 (0, [])"
  by (simp add: demo_open_def demo_vfs_eq open_file_def vfs_open_file_def open_backing_def vfs_run demo_paths boot_paths
      push_fd_def open_virtual_def new_descriptor_def)

subsection \<open>Pipes are queues\<close>

text \<open>Pipe \<open>i\<close>, as long as it exists, holds the bytes \<open>x\<close>.\<close>

definition pipe_holds :: "VfsFileId \<Rightarrow> u8 list \<Rightarrow> 'w vfs \<Rightarrow> bool" where
  "pipe_holds i x v \<longleftrightarrow> i < next_file_id v \<and>
     (\<forall>f. find_file v i = Some f \<longrightarrow> map_option pipe_bytes (f_pipe f) = Some x)"

lemma pipe_holds_fields [simp]:
  "pipe_holds i x (v\<lparr>fds := ds\<rparr>) = pipe_holds i x v" "pipe_holds i x (v\<lparr>world := w\<rparr>) = pipe_holds i x v"
  "pipe_holds i x (v\<lparr>cwd_path := c\<rparr>) = pipe_holds i x v" "pipe_holds i x (v\<lparr>next_fd := n\<rparr>) = pipe_holds i x v"
  by (simp_all add: pipe_holds_def)

lemma pipe_holds_upd:
  "pipe_holds i x v \<Longrightarrow> (\<And>f. map_option pipe_bytes (f_pipe (g f)) = map_option pipe_bytes (f_pipe f)) \<Longrightarrow>
   pipe_holds i x (upd_file j g v)"
  unfolding pipe_holds_def find_file_upd by (metis (no_types, lifting) map_option_eq_Some upd_file_fields(4))

lemma pipe_holds_other:
  "pipe_holds i x v \<Longrightarrow> j \<noteq> i \<Longrightarrow> pipe_holds i x (upd_file j g v)"
  by (auto simp: pipe_holds_def)

lemma keeps_pipe_file_desc_mut: "keeps (pipe_holds i x) (file_desc_mut n g)"
  by (rule keepsI) (simp add: file_desc_mut_def)

lemma keeps_pipe_call_world: "keeps (pipe_holds i x) (call_world f)"
  by (rule keepsI) (simp add: call_world_def split: prod.splits)

lemma keeps_pipe_read_window: "keeps (pipe_holds i x) (read_window n b k m)"
  unfolding read_window_def by (intro keeps_intros keeps_pipe_file_desc_mut)

lemma keeps_pipe_fill_cache: "keeps (pipe_holds i x) (fill_cache n m rel)"
  by (rule keepsI)
    (auto simp: fill_cache_def keepsD keeps_pipe_file_desc_mut split: outcome.splits option.splits)

lemma keeps_pipe_write_buf: "keeps (pipe_holds i x) (write_buf n j k data)"
  unfolding write_buf_def
  by (rule keeps_at, intro keeps_intros keeps_pipe_file_desc_mut) (simp add: pipe_holds_upd)

lemma read_pipe_other: "j \<noteq> i \<Longrightarrow> pipe_holds i x v \<Longrightarrow> pipe_holds i x (snd (read_pipe j k v))"
  by (auto simp: read_pipe_def Let_def pipe_holds_other split: outcome.splits)

lemma write_pipe_other: "j \<noteq> i \<Longrightarrow> pipe_holds i x v \<Longrightarrow> pipe_holds i x (snd (write_pipe j data v))"
  by (auto simp: write_pipe_def pipe_holds_other split: outcome.splits)

definition backed_by :: "'w vfs \<Rightarrow> FileDescriptorNumber \<Rightarrow> VfsFileId \<Rightarrow> bool" where
  "backed_by v n i \<longleftrightarrow> (\<exists>d. find (\<lambda>d. fd_num d = n) (fds v) = Some d \<and> fd_backing d = BackVfs i)"

lemmas keeps_pipe = keeps_pipe_file_desc_mut keeps_pipe_call_world keeps_pipe_read_window
  keeps_pipe_fill_cache keeps_pipe_write_buf

lemma vfs_read_other:
  assumes "pipe_holds i x v" and "\<not> backed_by v n i"
  shows "pipe_holds i x (snd (vfs_read_file n k v))"
proof (cases "find (\<lambda>d. fd_num d = n) (fds v)")
  case (Some d)
  show ?thesis
  proof (cases "fd_backing d")
    case (BackFs m rel)
    have "keeps (pipe_holds i x) (bind_act (fill_cache n m rel)
        (\<lambda>content. read_window n content (fd_offset d) k :: ('a vfs, 'a ReadOutcome) act))"
      by (intro keeps_intros keeps_pipe)
    then show ?thesis using Some BackFs assms(1) by (simp add: vfs_read_file_def file_desc_def keepsD)
  next
    case (BackVfs j)
    then have "j \<noteq> i" using assms(2) Some by (auto simp: backed_by_def)
    then show ?thesis using Some BackVfs assms(1)
      by (cases "find_file v j")
        (auto simp: vfs_read_file_def file_desc_def file_ref_def read_pipe_other keepsD [OF keeps_pipe_read_window]
          split: VfsFileType.split)
  qed
qed (simp add: vfs_read_file_def file_desc_def assms(1))

lemma read_file_other:
  assumes "pipe_holds i x v" and "\<not> backed_by v n i"
  shows "pipe_holds i x (snd (read_file n k v))"
proof -
  obtain r u where r: "vfs_read_file n k v = (r, u)" by (cases "vfs_read_file n k v")
  have u: "pipe_holds i x u" using vfs_read_other [OF assms, of k] r by simp
  have rest: "keeps (pipe_holds i x) (case out of
         ReadData bytes \<Rightarrow> return_act bytes
       | ReadDevice desc offset \<Rightarrow>
           bind_act (call_world (dev_read desc offset k)) (\<lambda>bytes.
           bind_act (modify (\<lambda>v. snd (file_desc_mut n
             (\<lambda>d. d\<lparr>fd_offset := min (offset + length bytes) USIZE_MAX\<rparr>) v))) (\<lambda>_.
           return_act bytes)))" for out :: "'a ReadOutcome"
    by (intro keeps_intros keeps_pipe) (simp add: keepsD keeps_pipe)
  show ?thesis unfolding read_file_def
    by (rule bind_act_invariant [where I = "pipe_holds i x" and m = "vfs_read_file n k", OF r]) (intro u keepsD [OF rest u])+
qed

lemma vfs_write_other:
  assumes "pipe_holds i x v" and "\<not> backed_by v n i"
  shows "pipe_holds i x (snd (vfs_write_file n data v))"
proof (cases "find (\<lambda>d. fd_num d = n) (fds v)")
  case (Some d)
  show ?thesis
  proof (cases "fd_backing d")
    case (BackFs m rel)
    have "keeps (pipe_holds i x) (bind_act (lift_outcome (mount_fs_ref v m)) (\<lambda>fs.
           bind_act (call_world (fs_write_file fs rel (fd_offset d) data)) (\<lambda>_.
           bind_act (modify (forget_cache m rel)) (\<lambda>_.
           bind_act (lift_outcome (uadd (fd_offset d) (length data))) (\<lambda>stop.
           bind_act (file_desc_mut n (\<lambda>d. d\<lparr>fd_offset := stop\<rparr>)) (\<lambda>_.
           return_act (WriteDone :: 'a WriteOutcome)))))))"
      by (intro keeps_intros keeps_pipe) (simp add: forget_cache_def)
    then show ?thesis using Some BackFs assms(1) by (simp add: vfs_write_file_def file_desc_def keepsD)
  next
    case (BackVfs j)
    then have "j \<noteq> i" using assms(2) Some by (auto simp: backed_by_def)
    moreover have buf: "keeps (pipe_holds i x) (bind_act (lift_outcome p) (\<lambda>_. write_buf n j k data))" for p :: "unit outcome" and k
      by (intro keeps_intros keeps_pipe)
    ultimately show ?thesis using Some BackVfs assms(1)
      by (cases "find_file v j")
        (auto simp: vfs_write_file_def file_desc_def file_ref_def write_pipe_other keepsD [OF buf] split: VfsFileType.split)
  qed
qed (simp add: vfs_write_file_def file_desc_def assms(1))

lemma write_file_other:
  assumes "pipe_holds i x v" and "\<not> backed_by v n i"
  shows "pipe_holds i x (snd (write_file n data v))"
proof -
  obtain r u where r: "vfs_write_file n data v = (r, u)" by (cases "vfs_write_file n data v")
  have u: "pipe_holds i x u" using vfs_write_other [OF assms, of data] r by simp
  have rest: "keeps (pipe_holds i x) (case out of WriteDone \<Rightarrow> return_act ()
      | WriteDevice desc \<Rightarrow> call_world (dev_write desc data))" for out :: "'a WriteOutcome"
    by (intro keeps_intros keeps_pipe)
  show ?thesis unfolding write_file_def
    by (rule bind_act_invariant [where I = "pipe_holds i x" and m = "vfs_write_file n data", OF r]) (intro u keepsD [OF rest u])+
qed

lemma pipe_holds_release:
  assumes "bt_inv (files v)" and "pipe_holds i x v"
  shows "pipe_holds i x (release_pipe_end j e v)"
proof -
  have gone: "pipe_holds i x (v\<lparr>files := bt_remove j (files v)\<rparr>)"
    using assms by (simp add: pipe_holds_def)
  have eof: "pipe_holds i x (upd_file j (\<lambda>f. f\<lparr>f_pipe := map_option (\<lambda>p. p\<lparr>write_closed := True\<rparr>) (f_pipe f)\<rparr>) v)"
    using assms(2) by (rule pipe_holds_upd) (simp add: option.map_comp comp_def)
  show ?thesis using assms gone eof by (simp add: release_pipe_end_def split: option.split)
qed

lemma vfs_close_other: "vfs_inv v \<Longrightarrow> pipe_holds i x v \<Longrightarrow> pipe_holds i x (snd (vfs_close_file n v))"
  using vfs_invD(1) [of v]
  by (auto simp: vfs_close_file_def Let_def pipe_holds_release split: option.splits FileBacking.splits)

lemma keeps_pipe_close: "keeps (\<lambda>v. vfs_inv v \<and> pipe_holds i x v) (vfs_close_file n)"
  by (rule keepsI) (auto intro: vfs_close_other keepsD [OF vfs_close_inv])

lemma keeps_inv_pipe_world: "keeps (\<lambda>v. vfs_inv v \<and> pipe_holds i x v) (call_world f)"
  by (rule keepsI) (auto intro: keepsD [OF keeps_call_world] keepsD [OF keeps_pipe_call_world])

lemma keeps_pipe_close_file: "keeps (\<lambda>v. vfs_inv v \<and> pipe_holds i x v) (close_file n)"
  unfolding close_file_def by (intro keeps_intros keeps_pipe_close keeps_inv_pipe_world)

lemma add_file_other:
  assumes "vfs_inv v" and "room v" and "\<not> is_Pipe t" and "pipe_holds i x v"
  shows "pipe_holds i x (snd (add_file p t v))"
proof -
  have b: "next_file_id v + 1 < 2 ^ 64" using assms(2) by (simp add: room_def)
  have "find_file_by_path_mut v q = Some (pid, pf) \<Longrightarrow> find_file v pid = Some pf" for q pid pf
    using find_by_path_mut_sound [OF assms(1)] by blast
  then show ?thesis using add_file_result [OF assms(1,3) b, of p] assms(4)
    by (auto simp: pipe_holds_def split: if_splits)
qed

lemma open_backing_other:
  assumes "vfs_inv v" and "room v" and "pipe_holds i x v"
  shows "pipe_holds i x (snd (open_backing p create v))"
proof -
  obtain r u where r: "add_file p VirtualFile v = (r, u)" by (cases "add_file p VirtualFile v")
  have u: "pipe_holds i x u" using add_file_other [OF assms(1,2) _ assms(3), of VirtualFile p] r by simp
  then show ?thesis using assms(3) r
    by (cases r) (auto simp: open_backing_def split: option.split Resolved.split)
qed

lemma open_file_other:
  assumes "vfs_inv v" and "room v" and "pipe_holds i x v"
  shows "pipe_holds i x (snd (open_file p create v))"
proof -
  obtain rb w where rb: "open_backing p create v = (rb, w)" by (cases "open_backing p create v")
  have w: "pipe_holds i x w" using open_backing_other [OF assms, of p create] rb by simp
  obtain r u where r: "vfs_open_file p create v = (r, u)" by (cases "vfs_open_file p create v")
  have u: "vfs_inv u" using vfs_open_result [OF assms(1,2) r] by simp
  have pu: "pipe_holds i x u" using r rb w
    by (cases rb) (auto simp: vfs_open_file_def bind_act_def fd_number_new_def push_fd_def split: prod.splits)
  have rest: "keeps (\<lambda>v. vfs_inv v \<and> pipe_holds i x v) (case dev of None \<Rightarrow> return_act n
       | Some desc \<Rightarrow>
           catch (call_world (dev_open desc)) (\<lambda>r.
             case r of
               Ok x \<Rightarrow> return_act n
             | Err e \<Rightarrow> bind_act (vfs_close_file n) (\<lambda>_. fail e)
             | Panic \<Rightarrow> return_act n))" for dev n
    by (intro keeps_intros keeps_pipe_close keeps_inv_pipe_world)
  have "(\<lambda>v. vfs_inv v \<and> pipe_holds i x v) (snd (open_file p create v))" unfolding open_file_def
    by (rule bind_act_invariant [where I = "\<lambda>v. vfs_inv v \<and> pipe_holds i x v" and m = "vfs_open_file p create", OF r])
      (use u pu keepsD [OF rest conjI [OF u pu]] in \<open>auto split: prod.split\<close>)
  then show ?thesis by simp
qed

lemma keeps_pipe_mount: "pipe_holds i x v \<Longrightarrow> pipe_holds i x (snd (mount_fs p fs v))"
  by (auto simp: mount_fs_def pipe_holds_upd split: option.split)

lemma keeps_pipe_seek: "keeps (pipe_holds i x) (seek n pos)"
  unfolding seek_def by (rule keeps_at, intro keeps_intros keeps_pipe)

lemma keeps_pipe_chdir: "pipe_holds i x v \<Longrightarrow> pipe_holds i x (snd (chdir p v))"
  by (auto simp: chdir_def split: option.split)

lemma quiet_step_other: "quiet_step v u \<Longrightarrow> vfs_inv v \<Longrightarrow> pipe_holds i x v \<Longrightarrow> pipe_holds i x u"
proof (induction rule: quiet_step.induct)
  case (pipes v)
  obtain r where r: "root_id v = Some r" using pipes.prems(1) by (auto elim: vfs_invE)
  have "pipe_holds i x (new_pipe r v)"
    using pipes.prems(2) by (auto simp: pipe_holds_def new_pipe_def find_file_def split: if_splits)
  then show ?case using create_pipe_run [OF r pipes.hyps] by simp
next
  case (closes v n)
  then show ?case using keepsD [OF keeps_pipe_close_file [of i x n], of v] by simp
qed (auto simp: create_file_def mkdir_def add_dev_file_def
    intro: add_file_other open_file_other keeps_pipe_mount keepsD [OF keeps_pipe_seek] keeps_pipe_chdir)

text \<open>The history of pipe \<open>i\<close>: the bytes written to it and read from it through any of its descriptors, while
  everything else the file system does goes on around it.\<close>

inductive pipe_history :: "VfsFileId \<Rightarrow> u8 list \<Rightarrow> u8 list \<Rightarrow> 'w vfs \<Rightarrow> bool" where
  made: "vfs_reachable v \<Longrightarrow> room v \<Longrightarrow> create_pipe v = (Ok ns, u) \<Longrightarrow> pipe_history (next_file_id v) [] [] u"
| wrote: "pipe_history i wr rd v \<Longrightarrow> backed_by v n i \<Longrightarrow> write_file n data v = (Ok (), u) \<Longrightarrow>
    pipe_history i (wr @ data) rd u"
| got: "pipe_history i wr rd v \<Longrightarrow> backed_by v n i \<Longrightarrow> read_file n k v = (Ok bytes, u) \<Longrightarrow>
    pipe_history i wr (rd @ bytes) u"
| got_none: "pipe_history i wr rd v \<Longrightarrow> backed_by v n i \<Longrightarrow> read_file n k v = (Err e, u) \<Longrightarrow>
    pipe_history i wr rd u"
| other_write: "pipe_history i wr rd v \<Longrightarrow> \<not> backed_by v n i \<Longrightarrow> pipe_history i wr rd (snd (write_file n data v))"
| other_read: "pipe_history i wr rd v \<Longrightarrow> \<not> backed_by v n i \<Longrightarrow> pipe_history i wr rd (snd (read_file n k v))"
| other: "pipe_history i wr rd v \<Longrightarrow> quiet_step v u \<Longrightarrow> pipe_history i wr rd u"

lemma backed_pipe:
  assumes inv: "vfs_inv v" and h: "pipe_holds i x v" and b: "backed_by v n i"
  obtains d f p where "find (\<lambda>d. fd_num d = n) (fds v) = Some d" "fd_backing d = BackVfs i"
    "find_file v i = Some f" "f_ty f = Pipe" "f_pipe f = Some p" "pipe_bytes p = x"
proof -
  obtain d where d: "find (\<lambda>d. fd_num d = n) (fds v) = Some d" "fd_backing d = BackVfs i" using b by (auto simp: backed_by_def)
  then have "d \<in> set (fds v)" by (simp add: find_fd [OF inv])
  then obtain f where f: "find_file v i = Some f"
    using fds_baseD(4) [of "find_file v" "fds v" "next_fd v" d] vfs_invD(2) [OF inv] d(2) by (auto simp: fds_ok_def backing_ok_def)
  then obtain p where p: "f_pipe f = Some p" "pipe_bytes p = x" using h by (auto simp: pipe_holds_def)
  then have "is_Pipe (f_ty f)" using vfs_inv_node [OF inv f] by (simp add: shape_ok_def)
  then have "f_ty f = Pipe" by (cases "f_ty f") auto
  then show ?thesis using that d f p by blast
qed

lemma pipe_read_run:
  assumes d: "find (\<lambda>d. fd_num d = n) (fds v) = Some d" "fd_backing d = BackVfs i"
    and f: "find_file v i = Some f" "f_ty f = Pipe" "f_pipe f = Some p"
  shows "read_file n k v = (if pipe_bytes p = [] then (if write_closed p then (Ok [], v) else (err BufferEmpty, v))
    else (Ok (take k (pipe_bytes p)),
      upd_file i (\<lambda>f. f\<lparr>f_pipe := Some (p\<lparr>pipe_bytes := drop k (pipe_bytes p)\<rparr>)\<rparr>) v))"
proof -
  have "take (min k (length b)) b = take k b" "drop (min k (length b)) b = drop k b" for b :: "u8 list"
    by (auto simp: min_def)
  then show ?thesis using assms
    by (simp add: read_file_def vfs_read_file_def file_desc_def file_ref_def read_pipe_def Let_def bind_act_def)
qed

lemma pipe_write_run:
  assumes d: "find (\<lambda>d. fd_num d = n) (fds v) = Some d" "fd_backing d = BackVfs i"
    and f: "find_file v i = Some f" "f_ty f = Pipe" "f_pipe f = Some p"
  shows "write_file n data v = (Ok (),
    upd_file i (\<lambda>f. f\<lparr>f_pipe := Some (p\<lparr>pipe_bytes := pipe_bytes p @ data\<rparr>)\<rparr>) v)"
  using assms by (simp add: write_file_def vfs_write_file_def file_desc_def file_ref_def write_pipe_def)

lemma pipe_history_inv: "pipe_history i wr rd v \<Longrightarrow> vfs_inv v \<and> (\<exists>x. pipe_holds i x v \<and> wr = rd @ x)"
proof (induction rule: pipe_history.induct)
  case (made v ns u)
  have inv: "vfs_inv v" by (rule vfs_reachable_inv [OF made(1)])
  then obtain r where r: "root_id v = Some r" by (auto elim: vfs_invE)
  have u: "u = new_pipe r v" using create_pipe_run [OF r made(2)] made(3) by simp
  have "pipe_holds (next_file_id v) [] u" by (simp add: u pipe_holds_def new_pipe_def find_file_def pipe_default_def)
  then show ?case using new_pipe_inv [OF inv r] u by simp
next
  case (wrote i wr rd v n data u)
  then obtain x where x: "pipe_holds i x v" "wr = rd @ x" and inv: "vfs_inv v" by blast
  from backed_pipe [OF inv x(1) wrote(2)] obtain d f p where p: "find (\<lambda>d. fd_num d = n) (fds v) = Some d"
    "fd_backing d = BackVfs i" "find_file v i = Some f" "f_ty f = Pipe" "f_pipe f = Some p" "pipe_bytes p = x" by metis
  have "pipe_holds i (x @ data) u" using pipe_write_run [OF p(1-5), of data] wrote(3) x(1) p(6) by (auto simp: pipe_holds_def)
  then show ?case using x(2) keepsD_eq [OF keeps_write_file inv wrote(3)] by auto
next
  case (got i wr rd v n k bytes u)
  then obtain x where x: "pipe_holds i x v" "wr = rd @ x" and inv: "vfs_inv v" by blast
  from backed_pipe [OF inv x(1) got(2)] obtain d f p where p: "find (\<lambda>d. fd_num d = n) (fds v) = Some d"
    "fd_backing d = BackVfs i" "find_file v i = Some f" "f_ty f = Pipe" "f_pipe f = Some p" "pipe_bytes p = x" by metis
  have "pipe_holds i (drop k x) u \<and> bytes = take k x"
    using pipe_read_run [OF p(1-5), of k] got(3) x(1) p(6) by (auto simp: pipe_holds_def split: if_splits)
  then show ?case using x(2) keepsD_eq [OF keeps_read_file inv got(3)] by auto
next
  case (got_none i wr rd v n k e u)
  then obtain x where x: "pipe_holds i x v" "wr = rd @ x" and inv: "vfs_inv v" by blast
  from backed_pipe [OF inv x(1) got_none(2)] obtain d f p where p: "find (\<lambda>d. fd_num d = n) (fds v) = Some d"
    "fd_backing d = BackVfs i" "find_file v i = Some f" "f_ty f = Pipe" "f_pipe f = Some p" "pipe_bytes p = x" by metis
  then have "u = v" using pipe_read_run [OF p(1-5), of k] got_none(3) by (auto split: if_splits)
  then show ?case using x inv by blast
next
  case (other_write i wr rd v n data)
  then show ?case using write_file_other keepsD [OF keeps_write_file] by blast
next
  case (other_read i wr rd v n k)
  then show ?case using read_file_other keepsD [OF keeps_read_file] by blast
next
  case (other i wr rd v u)
  then show ?case using quiet_step_other quiet_step_inv by blast
qed
text \<open>C28: a pipe is a first-in first-out channel. Whatever else happens in the file system, the bytes read
  from a pipe so far are a prefix of the bytes written to it, and while the pipe exists the bytes it still holds are
  the rest: nothing is lost, duplicated or reordered.\<close>

theorem pipe_is_fifo:
  assumes "pipe_history i wr rd v"
  shows "\<exists>rest. wr = rd @ rest \<and>
    (\<forall>f. find_file v i = Some f \<longrightarrow> (\<exists>p. f_pipe f = Some p \<and> pipe_bytes p = rest))"
proof -
  obtain x where x: "pipe_holds i x v" "wr = rd @ x" using pipe_history_inv [OF assms] by blast
  show ?thesis by (rule exI [of _ x]) (use x in \<open>auto simp: pipe_holds_def\<close>)
qed

lemma demo_pipe_run: "create_pipe demo_vfs = (Ok (3, 4), new_pipe 0 demo_vfs)"
  using create_pipe_run [of demo_vfs 0] demo_room by (simp add: demo_vfs_eq)

lemma demo_pipe_ends: "backed_by (new_pipe 0 demo_vfs) 4 5"
  by (simp add: backed_by_def new_pipe_def demo_vfs_eq new_descriptor_def)

theorem pipe_is_fifo_witness:
  "\<exists>v u :: unit vfs. read_file 3 1 v = (Ok [7], u) \<and> pipe_history 5 [7, 8] [7] u \<and>
    (\<exists>rest. [7, 8] = [7 :: u8] @ rest)"
proof -
  let ?p = "new_pipe 0 demo_vfs"
  have made: "pipe_history 5 [] [] ?p"
    using pipe_history.made [OF demo_vfs_reachable demo_room demo_pipe_run] by (simp add: demo_vfs_eq)
  have inv: "vfs_inv ?p" by (rule new_pipe_inv [OF vfs_reachable_inv [OF demo_vfs_reachable]]) (simp add: demo_vfs_eq)
  have ends: "find (\<lambda>d. fd_num d = 4) (fds ?p) = Some (new_descriptor 4 (BackVfs 5) (Some WriteEnd))"
    "find (\<lambda>d. fd_num d = 3) (fds ?p) = Some (new_descriptor 3 (BackVfs 5) (Some ReadEnd))"
    by (simp_all add: new_pipe_def demo_vfs_eq new_descriptor_def)
  obtain f where f: "find_file ?p 5 = Some f" "f_ty f = Pipe" "f_pipe f = Some pipe_default"
    by (simp add: new_pipe_def demo_vfs_eq find_file_def file_info_new_def)
  let ?w = "snd (write_file 4 [7, 8] ?p)"
  have w: "write_file 4 [7, 8] ?p = (Ok (), ?w)"
    using pipe_write_run [OF ends(1) _ f, of "[7, 8]"] by (simp add: new_descriptor_def)
  have hw: "pipe_history 5 [7, 8] [] ?w"
    using pipe_history.wrote [OF made _ w] demo_pipe_ends by simp
  have "?w = upd_file 5 (\<lambda>f. f\<lparr>f_pipe := Some (pipe_default\<lparr>pipe_bytes := [7, 8]\<rparr>)\<rparr>) ?p"
    using pipe_write_run [OF ends(1) _ f, of "[7, 8]"] by (simp add: new_descriptor_def pipe_default_def)
  then have g: "find_file ?w 5 = Some (f\<lparr>f_pipe := Some (pipe_default\<lparr>pipe_bytes := [7, 8]\<rparr>)\<rparr>)" and fd: "fds ?w = fds ?p"
    using f(1) by simp_all
  let ?u = "snd (read_file 3 1 ?w)"
  have r: "read_file 3 1 ?w = (Ok [7], ?u)"
    using pipe_read_run [of 3 ?w _ 5, OF _ _ g] ends(2) fd f(2) by (simp add: new_descriptor_def)
  have "pipe_history 5 [7, 8] [7] ?u"
    using pipe_history.got [OF hw _ r] ends(2) fd by (simp add: backed_by_def new_descriptor_def)
  then show ?thesis using r pipe_is_fifo by blast
qed

text \<open>End of file on a pipe. A read from a pipe returns the oldest bytes if it holds any; from an empty
  pipe it fails with \<open>BufferEmpty\<close> as long as some write end is open, and returns no bytes, the end of file,
  exactly when none is.\<close>

theorem pipe_end_of_file:
  assumes "vfs_reachable v" and "d \<in> set (fds v)" and "fd_backing d = BackVfs i"
    and "find_file v i = Some f" and "f_pipe f = Some p"
  shows "fst (read_file (fd_num d) k v) =
    (if pipe_bytes p \<noteq> [] then Ok (take k (pipe_bytes p))
     else if \<exists>e\<in>set (fds v). fd_backing e = BackVfs i \<and> fd_pipe_end e = Some WriteEnd then err BufferEmpty
     else Ok [])"
proof -
  have inv: "vfs_inv v" by (rule vfs_reachable_inv [OF assms(1)])
  have fd: "find (\<lambda>e. fd_num e = fd_num d) (fds v) = Some d" using assms(2) by (simp add: find_fd [OF inv])
  have "is_Pipe (f_ty f)" using vfs_inv_node [OF inv assms(4)] assms(5) by (simp add: shape_ok_def)
  then have ty: "f_ty f = Pipe" by (cases "f_ty f") auto
  have "write_closed p \<longleftrightarrow> \<not> (\<exists>e\<in>set (fds v). fd_backing e = BackVfs i \<and> fd_pipe_end e = Some WriteEnd)"
    using pipe_ok_D [OF vfs_invD(2) [OF inv] assms(4)] assms(5) by (simp add: pipe_ok_def)
  then show ?thesis using pipe_read_run [OF fd assms(3,4) ty assms(5), of k] by auto
qed

theorem pipe_end_of_file_witness:
  "fst (read_file 3 9 (new_pipe 0 demo_vfs)) = err BufferEmpty"
proof -
  let ?p = "new_pipe 0 demo_vfs" and ?d = "new_descriptor 3 (BackVfs 5) (Some ReadEnd)"
  have reach: "vfs_reachable ?p"
    using vfs_reachable.step [OF demo_vfs_reachable vfs_step.quiet [OF quiet_step.pipes [OF demo_room]]] demo_pipe_run
    by simp
  have d: "?d \<in> set (fds ?p)" "fd_backing ?d = BackVfs 5" "fd_num ?d = 3"
    by (simp_all add: new_pipe_def demo_vfs_eq new_descriptor_def)
  obtain f where f: "find_file ?p 5 = Some f" "f_pipe f = Some pipe_default"
    by (simp add: new_pipe_def demo_vfs_eq find_file_def file_info_new_def)
  have w: "\<exists>e\<in>set (fds ?p). fd_backing e = BackVfs 5 \<and> fd_pipe_end e = Some WriteEnd"
    by (simp add: new_pipe_def demo_vfs_eq new_descriptor_def)
  have "pipe_bytes pipe_default = []" by (simp add: pipe_default_def)
  then show ?thesis using pipe_end_of_file [OF reach d(1,2) f, of 9] w d(3) by simp
qed

subsection \<open>Properties: exclusive opening, and writing past the largest vector\<close>

lemma open_file_virtual_run:
  assumes "find_file_by_path v p = Some (ResVfs i f)" and "f_ty f = VirtualFile"
    and "\<And>d. d \<in> set (fds v) \<Longrightarrow> fd_backing d \<noteq> BackVfs i"
  shows "fst (open_file p c v) = Ok (next_fd v)"
proof -
  have "find (\<lambda>d. fd_backing d = BackVfs i) (fds v) = None" using assms(3) by (auto simp: find_None_iff)
  then show ?thesis using assms(1,2)
    by (simp add: open_file_def vfs_open_file_def open_backing_def bind_act_def fd_number_new_def)
qed

text \<open>An in-memory file is open at most once. While a descriptor for it is open, opening it under any of its
  paths fails, names that descriptor and changes nothing; after the descriptor is closed the file can be opened again.\<close>

theorem open_is_exclusive:
  assumes "vfs_reachable v" and "find_file_by_path v p = Some (ResVfs i f)" and "f_ty f = VirtualFile"
    and "d \<in> set (fds v)" and "fd_backing d = BackVfs i"
  shows "open_file p c v = (vfs_err (BlockingFileResource (fd_num d)), v) \<and>
    (\<exists>u. close_file (fd_num d) v = (Ok (), u) \<and> fst (open_file p c u) = Ok (next_fd v))"
proof
  have inv: "vfs_inv v" by (rule vfs_reachable_inv [OF assms(1)])
  have base: "fds_base (find_file v) (fds v) (next_fd v)" using vfs_invD(2) [OF inv] by (simp add: fds_ok_def)
  have f: "find_file v i = Some f" using find_file_by_path_sound [OF inv assms(2)] by simp
  have "fd_pipe_end d = None" using fds_baseD(4) [OF base assms(4)] assms(3,5) f by (simp add: backing_ok_def)
  then have only: "fd_num e = fd_num d" if "e \<in> set (fds v)" "fd_backing e = BackVfs i" for e
    using fds_baseD(5) [OF base assms(4) that(1) assms(5) that(2)] by simp
  obtain e where e: "find (\<lambda>d. fd_backing d = BackVfs i) (fds v) = Some e"
    using assms(4,5) by (cases "find (\<lambda>d. fd_backing d = BackVfs i) (fds v)") (auto simp: find_None_iff)
  then have "fd_num e = fd_num d" using only by (auto simp: find_Some_iff)
  then show "open_file p c v = (vfs_err (BlockingFileResource (fd_num d)), v)"
    using e assms(2,3) by (simp add: open_file_def vfs_open_file_def open_backing_def)
  let ?u = "v\<lparr>fds := filter (\<lambda>e. fd_num e \<noteq> fd_num d) (fds v)\<rparr>"
  have "find (\<lambda>e. fd_num e = fd_num d) (fds v) = Some d" using assms(4) by (simp add: find_fd [OF inv])
  then have close: "close_file (fd_num d) v = (Ok (), ?u)"
    using assms(3,5) f drop_first_filter [OF fds_distinct [OF inv]]
    by (simp add: close_file_def vfs_close_file_def Let_def release_pipe_end_def)
  have "find_file_by_path ?u p = Some (ResVfs i f)"
    using assms(2) find_file_by_path_same [of ?u v p] by simp
  then have "fst (open_file p c ?u) = Ok (next_fd ?u)"
    by (rule open_file_virtual_run [OF _ assms(3)]) (use only in auto)
  then show "\<exists>u. close_file (fd_num d) v = (Ok (), u) \<and> fst (open_file p c u) = Ok (next_fd v)" using close by auto
qed

theorem open_is_exclusive_witness:
  "open_file ''/a'' True demo_open = (vfs_err (BlockingFileResource 3), demo_open)"
proof -
  let ?d = "new_descriptor 3 (BackVfs 5) None"
  have "\<exists>f. find_file_by_path demo_open ''/a'' = Some (ResVfs 5 f) \<and> f_ty f = VirtualFile"
    by (simp add: demo_open_def demo_vfs_eq open_file_def vfs_open_file_def open_backing_def vfs_run demo_paths boot_paths
        push_fd_def)
  then obtain f where f: "find_file_by_path demo_open ''/a'' = Some (ResVfs 5 f)" "f_ty f = VirtualFile" by blast
  have "?d \<in> set (fds demo_open)"
    by (simp add: demo_open_def demo_vfs_eq open_file_def vfs_open_file_def open_backing_def vfs_run demo_paths boot_paths
        push_fd_def)
  then show ?thesis using open_is_exclusive [OF demo_open_reachable f, of ?d True] by (simp add: new_descriptor_def)
qed

text \<open>A write after a far seek panics. \<open>seek\<close> accepts every position up to \<open>i64::MAX\<close>, and a write
  there asks for a vector longer than \<open>isize::MAX\<close>: the kernel panics on a sequence of calls that any user
  program can make.\<close>

theorem seek_then_write_panics:
  assumes "vfs_reachable v" and "open_virtual v n i a" and "data \<noteq> []" and "length data \<le> ISIZE_MAX"
  shows "\<exists>u. seek n (SeekStart (2 ^ 63 - 1)) v = (Ok (2 ^ 63 - 1), u) \<and> fst (write_file n data u) = Panic"
proof -
  have inv: "vfs_inv v" by (rule vfs_reachable_inv [OF assms(1)])
  obtain k b where a: "a = (k, b)" by (cases a)
  let ?k = "2 ^ 63 - 1 :: nat"
  obtain u where u: "seek n (SeekStart (int ?k)) v = (Ok ?k, u)" "open_virtual u n i (?k, b)"
    using seek_virtual [of v n i k b ?k] assms(2) a by blast
  have inv': "vfs_inv u" using keepsD_eq [OF keeps_seek inv u(1)] .
  obtain d f where d: "find (\<lambda>d. fd_num d = n) (fds u) = Some d" "fd_backing d = BackVfs i" "fd_offset d = ?k"
    and f: "find_file u i = Some f" "f_ty f = VirtualFile" "b = (case f_buf f of None \<Rightarrow> [] | Some b \<Rightarrow> b)"
    using u(2) by (auto simp: open_virtual_def)
  have pos: "length data > 0" using assms(3) by simp
  have "length b \<le> ISIZE_MAX" by (rule open_virtual_len [OF inv' u(2)])
  then have "length b < ISIZE_MAX + length data" using pos by linarith
  then have "overwrite b ?k data = Panic"
    using assms(4) pos by (simp add: overwrite_def uadd_def vec_resize_def)
  then have "fst (write_buf n i ?k data u) = Panic"
    using f(1) by (simp add: write_buf_def file_ref_def f(3) [symmetric])
  then have "fst (vfs_write_file n data u) = Panic"
    using d f(1,2) by (cases "abs_path_by_file u f") (simp_all add: vfs_write_file_def file_desc_def file_ref_def with_path_def)
  then have "fst (write_file n data u) = Panic"
    by (cases "vfs_write_file n data u") (simp add: write_file_def)
  then show ?thesis using u(1) by (intro exI [of _ u]) simp
qed

theorem seek_then_write_panics_witness:
  "\<exists>u. seek 3 (SeekStart (2 ^ 63 - 1)) demo_open = (Ok (2 ^ 63 - 1), u) \<and> fst (write_file 3 [1] u) = Panic"
  by (rule seek_then_write_panics [OF demo_open_reachable demo_open_virtual]) simp_all

end
