(* ===== verification/Mounted.thy ===== *)
theory Mounted
  imports Vfs_Correct
begin

text \<open>
  Files of mounted file systems. What the drivers under kernel/src/fs promise to the virtual file system is the
  locale \<open>read_only_fs\<close>; its client lemmas say what opening, reading, seeking and writing such a file do.
\<close>

text \<open>The window that a driver cuts out of a file's contents (\<open>window\<close> and \<open>slice\<close>).\<close>

lemma window_slice_whole:
  "(case window b 0 USIZE_MAX of (start, stop) \<Rightarrow> slice b start stop) = Ok (take USIZE_MAX b)"
  by (auto simp: window_def Let_def slice_def min_def)

lemma read_window_run:
  assumes d: "find (\<lambda>d. fd_num d = n) (fds v) = Some d" and len: "length b \<le> USIZE_MAX" and m: "m \<le> USIZE_MAX"
  shows "read_window n b k m v = (Ok (ReadData (take m (drop k b))), v\<lparr>fds := update_first (\<lambda>d. fd_num d = n)
    (\<lambda>d. d\<lparr>fd_offset := min (min k (length b) + m) (length b)\<rparr>) (fds v)\<rparr>)"
proof -
  let ?stop = "min (min k (length b) + m) (length b)"
  have win: "window b k m = (min k (length b), ?stop)" using len by (simp add: window_def Let_def min_def)
  have "take (?stop - min k (length b)) (drop (min k (length b)) b) = take m (drop k b)"
    by (cases "k \<le> length b") (auto simp: min_def take_all_iff)
  then have "slice b (min k (length b)) ?stop = Ok (take m (drop k b))" by (simp add: slice_def)
  then show ?thesis using win file_desc_mut_run [OF d] by (simp add: read_window_def)
qed

text \<open>Descriptor \<open>n\<close> is open on file \<open>rel\<close> of the file system mounted at node \<open>i\<close>, at position \<open>k\<close>; the
  file's contents are \<open>b\<close>, kept with the descriptor or still to be read from the file system.\<close>

definition open_mounted :: "'w FileSystem \<Rightarrow> 'w vfs \<Rightarrow> FileDescriptorNumber \<Rightarrow> VfsFileId \<Rightarrow> path \<Rightarrow> nat \<times> u8 list \<Rightarrow> bool" where
  "open_mounted fs v n i rel kb \<longleftrightarrow> mount_fs_ref v i = Ok fs \<and>
     (\<exists>d. find (\<lambda>d. fd_num d = n) (fds v) = Some d \<and> fd_backing d = BackFs i rel \<and> fd_offset d = fst kb \<and>
       (case fd_cache d of
          Some c \<Rightarrow> c = snd kb
        | None \<Rightarrow> fs_read_file fs (world v) rel 0 USIZE_MAX = Inr (snd kb)))"

lemma open_mountedE:
  assumes "open_mounted fs v n i rel (k, b)"
  obtains d where "mount_fs_ref v i = Ok fs" "find (\<lambda>d. fd_num d = n) (fds v) = Some d" "fd_backing d = BackFs i rel"
    "fd_offset d = k" "fd_cache d = Some b \<or> fd_cache d = None \<and> fs_read_file fs (world v) rel 0 USIZE_MAX = Inr b"
proof -
  from assms obtain d where d: "mount_fs_ref v i = Ok fs" "find (\<lambda>d. fd_num d = n) (fds v) = Some d" "fd_backing d = BackFs i rel"
    "fd_offset d = k" "case fd_cache d of Some c \<Rightarrow> c = b | None \<Rightarrow> fs_read_file fs (world v) rel 0 USIZE_MAX = Inr b"
    unfolding open_mounted_def fst_conv snd_conv by blast
  then show thesis by (intro that) (auto split: option.splits)
qed

lemma mount_fs_ref_fds [simp]: "mount_fs_ref (v\<lparr>fds := ds\<rparr>) i = mount_fs_ref v i"
  by (simp add: mount_fs_ref_def file_ref_def)

definition reads_only :: "file_op list \<Rightarrow> bool" where
  "reads_only xs \<longleftrightarrow> (\<forall>x\<in>set xs. case x of FileRead m \<Rightarrow> m \<le> USIZE_MAX | FileWrite data \<Rightarrow> False | FileSeek p \<Rightarrow> p \<le> ISIZE_MAX)"

locale read_only_fs =
  fixes fs :: "'w FileSystem"
  assumes write_refused: "\<exists>e. fs_write_file fs p k data w = (Inl e, w)"
    and read_bounded: "fs_read_file fs w p 0 USIZE_MAX = Inr b \<Longrightarrow> length b \<le> USIZE_MAX"
begin

lemma fill_cache_run:
  assumes "open_mounted fs v n i rel (k, b)"
  shows "\<exists>u. fill_cache n i rel v = (Ok b, u) \<and> open_mounted fs u n i rel (k, b) \<and>
    (\<exists>d. find (\<lambda>d. fd_num d = n) (fds u) = Some d \<and> fd_cache d = Some b)"
proof -
  obtain d where d: "mount_fs_ref v i = Ok fs" "find (\<lambda>d. fd_num d = n) (fds v) = Some d" "fd_backing d = BackFs i rel"
    "fd_offset d = k" "fd_cache d = Some b \<or> fd_cache d = None \<and> fs_read_file fs (world v) rel 0 USIZE_MAX = Inr b"
    using assms by (rule open_mountedE)
  show ?thesis
  proof (cases "fd_cache d")
    case None
    let ?u = "v\<lparr>fds := update_first (\<lambda>d. fd_num d = n) (\<lambda>d. d\<lparr>fd_cache := Some b\<rparr>) (fds v)\<rparr>"
    have "fill_cache n i rel v = (Ok b, ?u)"
      using d None file_desc_mut_run [OF d(2)] by (simp add: fill_cache_def file_desc_def)
    moreover have "find (\<lambda>d. fd_num d = n) (fds ?u) = Some (d\<lparr>fd_cache := Some b\<rparr>)" using d(2) by (simp add: find_update_first)
    ultimately show ?thesis using d by (auto simp: open_mounted_def)
  next
    case (Some c)
    then show ?thesis using d assms by (auto simp: fill_cache_def file_desc_def)
  qed
qed

lemma read_mounted:
  assumes op: "open_mounted fs v n i rel (k, b)" and len: "length b \<le> USIZE_MAX" and m: "m \<le> USIZE_MAX"
  shows "\<exists>u. read_file n m v = (Ok (take m (drop k b)), u) \<and>
    open_mounted fs u n i rel (min (min k (length b) + m) (length b), b)"
proof -
  obtain d where d: "find (\<lambda>d. fd_num d = n) (fds v) = Some d" "fd_backing d = BackFs i rel" "fd_offset d = k"
    using op by (rule open_mountedE)
  obtain u e where u: "fill_cache n i rel v = (Ok b, u)" "open_mounted fs u n i rel (k, b)"
    and e: "find (\<lambda>d. fd_num d = n) (fds u) = Some e" "fd_cache e = Some b"
    using fill_cache_run [OF op] by blast
  let ?u = "u\<lparr>fds := update_first (\<lambda>d. fd_num d = n)
    (\<lambda>d. d\<lparr>fd_offset := min (min k (length b) + m) (length b)\<rparr>) (fds u)\<rparr>"
  have "vfs_read_file n m v = (Ok (ReadData (take m (drop k b))), ?u)"
    using d u(1) read_window_run [OF e(1) len m, of k] by (simp add: vfs_read_file_def file_desc_def bind_act_def)
  then have "read_file n m v = (Ok (take m (drop k b)), ?u)" by (simp add: read_file_def)
  moreover have "open_mounted fs ?u n i rel (min (min k (length b) + m) (length b), b)"
    using u(2) e by (auto simp: open_mounted_def find_update_first)
  ultimately show ?thesis by blast
qed

lemma seek_mounted:
  assumes op: "open_mounted fs v n i rel (k, b)"
  shows "\<exists>u. seek n (SeekStart (int p)) v = (Ok p, u) \<and> open_mounted fs u n i rel (p, b)"
proof -
  obtain d where d: "mount_fs_ref v i = Ok fs" "find (\<lambda>d. fd_num d = n) (fds v) = Some d" "fd_backing d = BackFs i rel"
    "fd_cache d = Some b \<or> fd_cache d = None \<and> fs_read_file fs (world v) rel 0 USIZE_MAX = Inr b"
    using op by (rule open_mountedE)
  let ?u = "v\<lparr>fds := update_first (\<lambda>d. fd_num d = n) (\<lambda>d. d\<lparr>fd_offset := p\<rparr>) (fds v)\<rparr>"
  have "seek n (SeekStart (int p)) v = (Ok p, ?u)"
    using d(2) file_desc_mut_run [OF d(2)] by (simp add: seek_def file_desc_def)
  moreover have "open_mounted fs ?u n i rel (p, b)" using d by (auto simp: open_mounted_def find_update_first)
  ultimately show ?thesis by blast
qed

text \<open>Reads and seeks behave as on the byte array \<open>b\<close>.\<close>

lemma runs_mounted:
  "open_mounted fs v n i rel a \<Longrightarrow> length (snd a) \<le> USIZE_MAX \<Longrightarrow> reads_only xs \<Longrightarrow>
   \<exists>u. run_ops (file_call n) xs v = (Ok (fst (byte_run xs a)), u) \<and> open_mounted fs u n i rel (snd (byte_run xs a))"
proof (induction xs arbitrary: v a)
  case (Cons x xs)
  obtain k b where a: "a = (k, b)" by (cases a)
  have step: "\<exists>u. file_call n x v = (Ok (fst (byte_step x a)), u) \<and> open_mounted fs u n i rel (snd (byte_step x a))"
  proof (cases x)
    case (FileRead m)
    then show ?thesis using read_mounted [of v n i rel k b m] Cons.prems by (auto simp: a reads_only_def)
  next
    case (FileSeek p)
    then show ?thesis using seek_mounted [of v n i rel k b p] Cons.prems by (auto simp: a)
  qed (use Cons.prems(3) in \<open>simp add: reads_only_def\<close>)
  then obtain t where t: "file_call n x v = (Ok (fst (byte_step x a)), t)" "open_mounted fs t n i rel (snd (byte_step x a))"
    by blast
  have "snd (snd (byte_step x a)) = b" using Cons.prems(3) by (cases x) (auto simp: a reads_only_def)
  then have "length (snd (snd (byte_step x a))) \<le> USIZE_MAX" using Cons.prems(2) by (simp add: a)
  moreover have "reads_only xs" using Cons.prems(3) by (simp add: reads_only_def)
  ultimately obtain u where "run_ops (file_call n) xs t = (Ok (fst (byte_run xs (snd (byte_step x a)))), u)"
    "open_mounted fs u n i rel (snd (byte_run xs (snd (byte_step x a))))"
    using Cons.IH [OF t(2)] by blast
  then show ?case using t(1) by (simp add: case_prod_beta)
qed simp

text \<open>A write fails and changes nothing.\<close>

lemma write_mounted:
  assumes "open_mounted fs v n i rel a"
  shows "\<exists>e. write_file n data v = (Err e, v)"
proof -
  obtain d where d: "mount_fs_ref v i = Ok fs" "find (\<lambda>d. fd_num d = n) (fds v) = Some d" "fd_backing d = BackFs i rel"
    using assms by (cases a) (auto elim: open_mountedE)
  obtain e where "fs_write_file fs rel (fd_offset d) data (world v) = (Inl e, world v)" using write_refused by blast
  then have "vfs_write_file n data v = (Err e, v)"
    using d by (simp add: vfs_write_file_def file_desc_def call_world_def bind_act_def)
  then show ?thesis by (simp add: write_file_def)
qed

lemma open_mounted_file:
  assumes inv: "vfs_inv v" and room: "room v" and path: "find_file_by_path v p = Some (ResFs i fs rel md)"
    and ty: "meta_type md = FsFile" and b: "fs_read_file fs (world v) rel 0 USIZE_MAX = Inr b"
  shows "\<exists>u. open_file p c v = (Ok (next_fd v), u) \<and> open_mounted fs u (next_fd v) i rel (0, b)"
proof -
  let ?u = "v\<lparr>next_fd := next_fd v + 1, fds := fds v @ [new_descriptor (next_fd v) (BackFs i rel) None]\<rparr>"
  have run: "open_file p c v = (Ok (next_fd v), ?u)"
    using path ty room by (simp add: open_file_def vfs_open_file_def open_backing_def bind_act_def fd_number_new_def push_fd_def room_def)
  have "find (\<lambda>d. fd_num d = next_fd v) (fds v) = None"
    using vfs_invD(2) [OF inv] by (fastforce simp: find_None_iff fds_ok_def dest: fds_baseD)
  moreover obtain g where "find_file v i = Some g" "f_fs g = Some fs" using find_file_by_path_sound [OF inv path] by auto
  ultimately have "open_mounted fs ?u (next_fd v) i rel (0, b)"
    using b by (simp add: open_mounted_def new_descriptor_def find_append mount_fs_ref_def file_ref_def find_file_def)
  then show ?thesis using run by blast
qed

text \<open>Opening a mounted file and reading it.\<close>

lemma open_and_run:
  assumes "vfs_inv v" and "room v" and "find_file_by_path v p = Some (ResFs i fs rel md)"
    and "meta_type md = FsFile" and b: "fs_read_file fs (world v) rel 0 USIZE_MAX = Inr b" and "reads_only xs"
  shows "\<exists>u w. open_file p c v = (Ok (next_fd v), u) \<and>
    run_ops (file_call (next_fd v)) xs u = (Ok (fst (byte_run xs (0, b))), w) \<and>
    (\<forall>data. \<exists>e. write_file (next_fd v) data w = (Err e, w))"
proof -
  obtain u where u: "open_file p c v = (Ok (next_fd v), u)" "open_mounted fs u (next_fd v) i rel (0, b)"
    using open_mounted_file [OF assms(1-5)] by blast
  obtain w where "run_ops (file_call (next_fd v)) xs u = (Ok (fst (byte_run xs (0, b))), w)"
    "open_mounted fs w (next_fd v) i rel (snd (byte_run xs (0, b)))"
    using runs_mounted [OF u(2) _ assms(6)] read_bounded [OF b] by auto
  then show ?thesis using u(1) write_mounted by blast
qed

end

end
