(* ===== verification/Fat_Correct.thy ===== *)
theory Fat_Correct
  imports Fat_Chain Fat_Names Mounted
begin

text \<open>
  Files of a FAT32 volume: what the driver returns for a path, and what a program sees that opens the path in the
  virtual file system.
\<close>

lemma first_cluster_bound: "first_cluster_num e < 2 ^ 32"
proof -
  have "from_le_bytes [e ! 20, e ! 21] < 2 ^ 16" "from_le_bytes [e ! 26, e ! 27] < 2 ^ 16"
    using from_le_bytes_bound [of "[e ! 20, e ! 21]"] from_le_bytes_bound [of "[e ! 26, e ! 27]"] by simp_all
  then show ?thesis by (simp add: first_cluster_num_def)
qed

lemma entry_size_bound: "entry_file_size e < 2 ^ 32"
  using from_le_bytes_bound [of "[e ! 28, e ! 29, e ! 30, e ! 31]"] by (simp add: entry_file_size_def)

lemma scan_loop_bounds: "x \<in> set (scan_loop es buf) \<Longrightarrow> fm_target_cluster_num x < 2 ^ 32 \<and> fm_size x < 2 ^ 32"
  using first_cluster_bound entry_size_bound
  by (induction es buf rule: scan_loop.induct)
    (auto simp: entry_metadata_def split: if_splits option.splits Attribute.splits)

lemma chain_then_Ok: "chain_then r g = Some (Ok y) \<longleftrightarrow> (\<exists>x. r = Some (Ok x) \<and> g x = Some (Ok y))"
  by (cases "(r, g)" rule: chain_then.cases) auto

lemma ok_or_Ok: "ok_or r e = Ok x \<longleftrightarrow> r = Some x"
  by (cases r) auto

lemma entry_in_dir_bounds:
  assumes "entry_in_dir f m nm cur b = Some (Ok x)"
  shows "fm_target_cluster_num x < 2 ^ 32 \<and> fm_size x < 2 ^ 32"
  using assms scan_loop_bounds
  by (auto simp: entry_in_dir_def scan_dir_def chain_then_Ok ok_or_Ok find_Some_iff dest: nth_mem)

text \<open>The reference for a file's contents: the bytes of its clusters, cut or filled with zeros to the size in the
  directory.\<close>

definition file_contents :: "Fat \<Rightarrow> mem \<Rightarrow> FileMetaData \<Rightarrow> nat list \<Rightarrow> u8 list" where
  "file_contents f m x cs =
     (let b = concat (map (cluster_bytes (fat_volume f) m) cs) in take (fm_size x) (b @ replicate (fm_size x) 0))"

lemma file_contents_length: "length (file_contents f m x cs) = fm_size x"
  by (simp add: file_contents_def Let_def)

lemma fat_file_run:
  assumes vol: "fat32_volume (fat_volume f) m" and e: "entry_in_dir f m nm cur False = Some (Ok x)"
    and ch: "chain (fat_volume f) m (fm_target_cluster_num x) cs"
  shows "fat_file f m nm cur = Some (Ok (x, file_contents f m x cs))"
proof -
  have c: "fm_target_cluster_num x < 2 ^ 32" using entry_in_dir_bounds [OF e] by simp
  show ?thesis
    using read_chained_chain [OF vol c ch] chain_entries_bytes [OF ch vol c]
    by (simp add: fat_file_def e file_contents_def Let_def min_def)
qed

lemma file_by_abs_path_run:
  assumes vol: "fat32_volume (fat_volume f) m"
    and d: "walk_dirs f m (names (parent (normalize p))) (Some (fat_root_cluster_num f)) = Some (Ok d)"
    and e: "entry_in_dir f m (path_name (normalize p)) d False = Some (Ok x)"
    and ch: "chain (fat_volume f) m (fm_target_cluster_num x) cs"
  shows "file_by_abs_path f m p = Some (Ok (x, file_contents f m x cs))"
  using fat_file_run [OF vol e ch] d by (simp add: file_by_abs_path_def Let_def)

subsection \<open>The mounted volume\<close>

interpretation fat_fs: read_only_fs "fat_file_system f mem_of"
proof
  show "\<exists>e. fs_write_file (fat_file_system f mem_of) p k data w = (Inl e, w)" for p k data w
    by (simp add: fat_file_system_def fat_write_file_def)
  show "length b \<le> USIZE_MAX" if "fs_read_file (fat_file_system f mem_of) w p 0 USIZE_MAX = Inr b" for w p b
  proof -
    from that obtain x c where "file_by_abs_path f (mem_of w) p = Some (Ok (x, c))" "b = take USIZE_MAX c"
      using window_slice_whole
      by (cases "file_by_abs_path f (mem_of w) p" rule: returned.cases)
        (auto simp: fat_file_system_def fat_read_file_def case_prod_beta)
    then show ?thesis by simp
  qed
qed

text \<open>C29: reading a file of the initial RAM disk. If a path leads to a mounted FAT32 volume, the directories on it
  are found and the last one holds the file, then opening the path succeeds, and every sequence of reads and seeks
  on the descriptor returns what it returns on the contents of the file's cluster chain, cut or filled with zeros to
  the size that the directory gives; writing fails and changes nothing.\<close>

theorem vfs_reads_fat_file:
  fixes f mem_of v
  defines "m \<equiv> mem_of (world v)"
  assumes "vfs_reachable v" and "room v" and "find_file_by_path v p = Some (ResFs i (fat_file_system f mem_of) rel md)"
    and "meta_type md = FsFile" and vol: "fat32_volume (fat_volume f) m"
    and d: "walk_dirs f m (names (parent (normalize rel))) (Some (fat_root_cluster_num f)) = Some (Ok d)"
    and e: "entry_in_dir f m (path_name (normalize rel)) d False = Some (Ok x)"
    and ch: "chain (fat_volume f) m (fm_target_cluster_num x) cs"
    and xs: "reads_only xs"
  shows "\<exists>u w. open_file p create v = (Ok (next_fd v), u) \<and>
    run_ops (file_call (next_fd v)) xs u = (Ok (fst (byte_run xs (0, file_contents f m x cs))), w) \<and>
    (\<forall>data. \<exists>e. write_file (next_fd v) data w = (Err e, w))"
proof -
  have "fs_read_file (fat_file_system f mem_of) (world v) rel 0 USIZE_MAX = Inr (file_contents f m x cs)"
  proof -
    have "length (file_contents f m x cs) \<le> USIZE_MAX"
      using entry_in_dir_bounds [OF e] file_contents_length [of f m x cs] by simp
    then show ?thesis using file_by_abs_path_run [OF vol d e ch] window_slice_whole [of "file_contents f m x cs"]
      by (simp add: fat_file_system_def fat_read_file_def m_def case_prod_beta)
  qed
  then show ?thesis using fat_fs.open_and_run [OF vfs_reachable_inv [OF assms(2)] assms(3-5) _ xs] by blast
qed

definition demo_fat :: Fat where
  "demo_fat = \<lparr>fat_volume = demo_volume, fat_root_cluster_num = 2\<rparr>"

lemma demo_fat_new: "fat_new demo_volume demo_mem = Ok demo_fat"
  using fat32_demo
  by (simp add: fat_new_def volume_root_cluster_num_def fat32_other_field_def fat32_volume_def other_field_demo demo_fat_def)

lemma demo_scan: "\<exists>fs. scan_dir demo_fat demo_mem (Some 2) =
    Some (Ok (\<lparr>fm_name = ''A          '', fm_attr = Archive, fm_size = 600, fm_target_cluster_num = 4\<rparr> # fs))"
proof -
  obtain es where es: "cluster_entries demo_volume demo_mem 2 =
      read_bytes demo_mem 266752 32 # read_bytes demo_mem 266784 32 # es" using root_entries_demo by blast
  let ?e = "[0x41, 0x20, 0x20, 0x20, 0x20, 0x20, 0x20, 0x20, 0x20, 0x20, 0x20, 0x20] @ replicate 14 0 @ [4, 0, 0x58, 2, 0, 0] :: u8 list"
  have e: "read_bytes demo_mem 266752 32 = ?e" by (rule nth_equalityI) (simp_all add: read_bytes_def demo_mem_def put_apply nth_append)
  have attr: "entry_attr ?e = Some Archive" and ty: "entry_type ?e = DataEntry"
    by (simp_all add: entry_attr_def entry_type_def nth_append)
  have nums: "first_cluster_num ?e = 4" "entry_file_size ?e = 600"
    by (simp_all add: first_cluster_num_def entry_file_size_def nth_append)
  have "char_of (65 :: nat) = CHR ''A''" "char_of (32 :: nat) = CHR '' ''" by code_simp+
  then have "sf_name ?e = Some ''A          ''"
    using attr by (simp add: sf_name_def to_string_def)
  then have "\<exists>fs. scan_loop (?e # read_bytes demo_mem 266784 32 # es) [] =
      \<lparr>fm_name = ''A          '', fm_attr = Archive, fm_size = 600, fm_target_cluster_num = 4\<rparr> # fs"
    using attr ty nums by (simp add: entry_metadata_def long_name_part_def lf_name_def is_lf_name_entry_def)
  then show ?thesis using read_chained_chain [OF fat32_demo _ chain_demo(1)] es e
    by (simp add: scan_dir_def demo_fat_def)
qed

lemma demo_trim: "trim ''A          '' = ''A''"
proof -
  have "graphic CHR ''A''" "replicate 10 CHR '' '' = ''          ''" by code_simp+
  then show ?thesis using trim_padded [of "''A''" 10] by simp
qed

lemma demo_entry_A:
  "entry_in_dir demo_fat demo_mem ''A'' (Some 2) b =
    Some (Ok \<lparr>fm_name = ''A          '', fm_attr = Archive, fm_size = 600, fm_target_cluster_num = 4\<rparr>)"
  using demo_scan by (auto simp: entry_in_dir_def demo_trim)

lemma demo_contents:
  "file_contents demo_fat demo_mem \<lparr>fm_name = ''A          '', fm_attr = Archive, fm_size = 600, fm_target_cluster_num = 4\<rparr>
    [4, 3] = replicate 512 8 @ replicate 88 7"
  by (simp add: file_contents_def demo_fat_def cluster_bytes_demo)

definition demo_mnt :: "unit vfs" where
  "demo_mnt = snd (mount_fs ''/mnt/initramfs'' (fat_file_system demo_fat (\<lambda>_. demo_mem)) demo_vfs)"

lemma demo_mnt_paths:
  "names ''/mnt/initramfs/A'' = [''mnt'', ''initramfs'', ''A'']" "normalize ''/mnt/initramfs/A'' = ''/mnt/initramfs/A''"
  "is_abs ''/mnt/initramfs/A''" "names ''/mnt/initramfs'' = [''mnt'', ''initramfs'']"
  "normalize ''/mnt/initramfs'' = ''/mnt/initramfs''" "is_abs ''/mnt/initramfs''"
  "normalize ''/A'' = ''/A''" "names (parent ''/A'') = []" "path_name ''/A'' = ''A''"
  by code_simp+

lemma demo_metadata: "fat_metadata demo_fat demo_mem ''/A'' = Some (Ok \<lparr>meta_type = FsFile, meta_size = 600\<rparr>)"
  using demo_entry_A by (simp add: fat_metadata_def metadata_by_abs_path_def Let_def demo_mnt_paths) (simp add: demo_fat_def)

lemma demo_mnt_lookup:
  "find_file_by_path demo_mnt ''/mnt/initramfs/A'' =
    Some (ResFs 2 (fat_file_system demo_fat (\<lambda>_. demo_mem)) ''/A'' \<lparr>meta_type = FsFile, meta_size = 600\<rparr>)"
proof -
  have "ROOT @ join_with [SEPARATOR] [''A''] = ''/A''" "''/A'' \<noteq> ROOT" by code_simp+
  moreover have "fs_metadata (fat_file_system demo_fat (\<lambda>_. demo_mem)) w ''/A'' = Inr \<lparr>meta_type = FsFile, meta_size = 600\<rparr>" for w :: unit
    using demo_metadata by (simp add: fat_file_system_def)
  ultimately show ?thesis
    by (simp add: demo_mnt_def mount_fs_def demo_vfs_eq vfs_run demo_mnt_paths resolve_mount_def)
qed

theorem vfs_reads_fat_file_witness:
  "\<exists>u w. open_file ''/mnt/initramfs/A'' False demo_mnt = (Ok 3, u) \<and>
    run_ops (file_call 3) [FileSeek 500, FileRead 100] u = (Ok [[], replicate 12 8 @ replicate 88 7], w)"
proof -
  have mnt: "world demo_mnt = ()" "next_fd demo_mnt = 3" "room demo_mnt"
    by (simp_all add: demo_mnt_def mount_fs_def demo_vfs_eq vfs_run demo_mnt_paths room_def)
  have reach: "vfs_reachable demo_mnt" unfolding demo_mnt_def
    by (intro vfs_reachable.step [OF demo_vfs_reachable] vfs_step.quiet quiet_step.mounts)
  let ?x = "\<lparr>fm_name = ''A          '', fm_attr = Archive, fm_size = 600, fm_target_cluster_num = 4\<rparr>"
  let ?xs = "[FileSeek 500, FileRead 100]"
  have vol: "fat_volume demo_fat = demo_volume" "fat_root_cluster_num demo_fat = 2" by (simp_all add: demo_fat_def)
  have "\<exists>u w. open_file ''/mnt/initramfs/A'' False demo_mnt = (Ok (next_fd demo_mnt), u) \<and>
    run_ops (file_call (next_fd demo_mnt)) ?xs u = (Ok (fst (byte_run ?xs (0, file_contents demo_fat demo_mem ?x [4, 3]))), w) \<and>
    (\<forall>data. \<exists>e. write_file (next_fd demo_mnt) data w = (Err e, w))"
    by (rule vfs_reads_fat_file [OF reach mnt(3) demo_mnt_lookup, where d = "Some 2"])
      (simp_all add: vol fat32_demo demo_mnt_paths demo_entry_A chain_demo reads_only_def)
  moreover have "fst (byte_run ?xs (0, replicate 512 8 @ replicate 88 7)) = [[], replicate 12 (8 :: u8) @ replicate 88 7]" by simp
  ultimately show ?thesis by (auto simp: mnt demo_contents)
qed

end
