(* ===== verification/Task.thy ===== *)
theory Task
  imports Frame_Allocator
begin

text \<open>
  Tasks: the saved CPU context (kernel/src/arch/x86_64/context.rs), the resources a task owns and the
  task itself (kernel/src/task/mod.rs). A register is a 64-bit word. What the code reads from the CPU
  in the timer interrupt (CR3, the segment registers, the image that \<open>fxsave64\<close> stores) is the record
  \<open>cpu\<close>. Loading a program (the ELF image, the page tables, the argument block) is modelled in the theory
  \<open>Loader\<close>: its results are the arguments of \<open>task_build\<close>. The debug information of a task is not
  modelled, only whether there is one.
\<close>

type_synonym i32 = "32 word"
type_synonym TaskId = nat

abbreviation KERNEL :: TaskId where "KERNEL \<equiv> 0"

subsection \<open>The context\<close>

datatype ContextMode = Kernel | User

record Context =
  ctx_cr3 :: u64
  ctx_rip :: u64
  ctx_rflags :: u64
  ctx_reserved :: u64
  ctx_cs :: u64
  ctx_ss :: u64
  ctx_fs :: u64
  ctx_gs :: u64
  ctx_rax :: u64
  ctx_rbx :: u64
  ctx_rcx :: u64
  ctx_rdx :: u64
  ctx_rdi :: u64
  ctx_rsi :: u64
  ctx_rsp :: u64
  ctx_rbp :: u64
  ctx_r8 :: u64
  ctx_r9 :: u64
  ctx_r10 :: u64
  ctx_r11 :: u64
  ctx_r12 :: u64
  ctx_r13 :: u64
  ctx_r14 :: u64
  ctx_r15 :: u64
  ctx_fpu_context :: "u8 list"

record InterruptedContext =
  int_r15 :: u64
  int_r14 :: u64
  int_r13 :: u64
  int_r12 :: u64
  int_r11 :: u64
  int_r10 :: u64
  int_r9 :: u64
  int_r8 :: u64
  int_rbp :: u64
  int_rdi :: u64
  int_rsi :: u64
  int_rdx :: u64
  int_rcx :: u64
  int_rbx :: u64
  int_rax :: u64
  int_rip :: u64
  int_cs :: u64
  int_rflags :: u64
  int_rsp :: u64
  int_ss :: u64

record cpu =
  cpu_cr3 :: u64
  cpu_fs :: u16
  cpu_gs :: u16
  cpu_fxsave :: "u8 list"

definition rflags_default :: u64 where
  "rflags_default = push_bit 1 1"

definition set_tf :: "bool \<Rightarrow> u64 \<Rightarrow> u64" where
  "set_tf v r = (r AND NOT (push_bit 8 1)) OR push_bit 8 (if v then 1 else 0)"

definition set_if :: "bool \<Rightarrow> u64 \<Rightarrow> u64" where
  "set_if v r = (r AND NOT (push_bit 9 1)) OR push_bit 9 (if v then 1 else 0)"

definition context_new :: Context where
  "context_new = \<lparr>ctx_cr3 = 0, ctx_rip = 0, ctx_rflags = rflags_default, ctx_reserved = 0, ctx_cs = 0,
     ctx_ss = 0, ctx_fs = 0, ctx_gs = 0, ctx_rax = 0, ctx_rbx = 0, ctx_rcx = 0, ctx_rdx = 0, ctx_rdi = 0,
     ctx_rsi = 0, ctx_rsp = 0, ctx_rbp = 0, ctx_r8 = 0, ctx_r9 = 0, ctx_r10 = 0, ctx_r11 = 0, ctx_r12 = 0,
     ctx_r13 = 0, ctx_r14 = 0, ctx_r15 = 0, ctx_fpu_context = replicate 512 0\<rparr>"

fun mode_segments :: "ContextMode \<Rightarrow> u64 \<times> u64" where
  "mode_segments Kernel = (push_bit 3 1, push_bit 3 2)"
| "mode_segments User = (push_bit 3 4 OR 3, push_bit 3 3 OR 3)"

text \<open>\<open>cr3\<close> is what \<open>Cr3::read\<close> returns.\<close>

definition context_init ::
  "u64 \<Rightarrow> u64 \<Rightarrow> u64 \<Rightarrow> u64 \<Rightarrow> u64 \<Rightarrow> ContextMode \<Rightarrow> bool \<Rightarrow> Context \<Rightarrow> Context" where
  "context_init cr3 rip rdi rsi rsp mode trap_flag c =
     (case mode_segments mode of (cs, ss) \<Rightarrow>
        c\<lparr>ctx_rip := rip, ctx_rdi := rdi, ctx_rsi := rsi, ctx_rsp := rsp, ctx_rbp := rsp, ctx_cr3 := cr3,
          ctx_rflags := set_tf trap_flag (set_if True rflags_default), ctx_cs := cs, ctx_ss := ss\<rparr>)"

text \<open>What \<open>preempt_sched\<close> stores in the context of the interrupted task.\<close>

definition save_context :: "InterruptedContext \<Rightarrow> cpu \<Rightarrow> Context \<Rightarrow> Context" where
  "save_context i p c =
     c\<lparr>ctx_rip := int_rip i, ctx_rflags := int_rflags i, ctx_cs := int_cs i, ctx_ss := int_ss i,
       ctx_rsp := int_rsp i, ctx_rax := int_rax i, ctx_rbx := int_rbx i, ctx_rcx := int_rcx i,
       ctx_rdx := int_rdx i, ctx_rdi := int_rdi i, ctx_rsi := int_rsi i, ctx_rbp := int_rbp i,
       ctx_r8 := int_r8 i, ctx_r9 := int_r9 i, ctx_r10 := int_r10 i, ctx_r11 := int_r11 i,
       ctx_r12 := int_r12 i, ctx_r13 := int_r13 i, ctx_r14 := int_r14 i, ctx_r15 := int_r15 i,
       ctx_cr3 := cpu_cr3 p, ctx_fs := ucast (cpu_fs p), ctx_gs := ucast (cpu_gs p),
       ctx_fpu_context := cpu_fxsave p\<rparr>"

subsection \<open>Tasks and what they own\<close>

datatype TaskState = Running | Ready | Sleeping | Exited i32

text \<open>The frames of a user page table: its root and the tables below it.\<close>

record UserPageTable =
  pml4_frame :: "MemoryFrame option"
  allocated_frames :: "MemoryFrame list"

record TaskResource =
  page_table :: UserPageTable
  args_frame :: "MemoryFrame option"
  stack_frame :: "MemoryFrame option"
  program_frames :: "MemoryFrame list"
  alloc_frames :: "MemoryFrame list"
  created_layer_ids :: "nat list"
  fd_nums :: "nat list"
  pipe_fd :: "nat option list"

record Task =
  task_id :: TaskId
  task_name :: string
  task_state :: TaskState
  task_context :: Context
  task_resource :: TaskResource
  waiting_for :: "TaskId option"
  task_parent :: "TaskId option"
  task_children :: "TaskId list"

record TaskSnapshot =
  snap_id :: TaskId
  snap_name :: string
  snap_state :: TaskState
  snap_parent :: "TaskId option"

definition resource_new ::
  "UserPageTable \<Rightarrow> MemoryFrame option \<Rightarrow> MemoryFrame option \<Rightarrow> MemoryFrame list \<Rightarrow> nat option list \<Rightarrow>
   TaskResource" where
  "resource_new pt args stack prog pipe =
     \<lparr>page_table = pt, args_frame = args, stack_frame = stack, program_frames = prog, alloc_frames = [],
      created_layer_ids = [], fd_nums = [], pipe_fd = pipe\<rparr>"

text \<open>The end of \<open>Task::new\<close>: the value that is built once the program is loaded.\<close>

definition task_build ::
  "TaskId \<Rightarrow> TaskId option \<Rightarrow> string \<Rightarrow> Context \<Rightarrow> TaskResource \<Rightarrow> Task" where
  "task_build i parent name ctx res =
     \<lparr>task_id = i, task_name = name, task_state = Ready, task_context = ctx, task_resource = res,
      waiting_for = None, task_parent = parent, task_children = []\<rparr>"

subsection \<open>Dropping a task\<close>

text \<open>\<open>dealloc_mem_frame(frame).unwrap()\<close>: an error is a panic.\<close>

definition dealloc_unwrap :: "MemoryFrame \<Rightarrow> (BitmapMemoryManager, unit) act" where
  "dealloc_unwrap f = catch (dealloc_mem_frame f)
     (\<lambda>r. case r of Ok _ \<Rightarrow> return_act () | _ \<Rightarrow> lift_outcome Panic)"

definition dealloc_opt :: "MemoryFrame option \<Rightarrow> (BitmapMemoryManager, unit) act" where
  "dealloc_opt f = (case f of None \<Rightarrow> return_act () | Some f \<Rightarrow> dealloc_unwrap f)"

definition drop_page_table :: "UserPageTable \<Rightarrow> (BitmapMemoryManager, unit) act" where
  "drop_page_table pt =
     bind_act (for_each (allocated_frames pt) dealloc_unwrap) (\<lambda>_. dealloc_opt (pml4_frame pt))"

text \<open>The memory that \<open>Drop for TaskResource\<close> gives back, followed by the drop of its page table.\<close>

definition release_frames :: "TaskResource \<Rightarrow> (BitmapMemoryManager, unit) act" where
  "release_frames r =
     bind_act (dealloc_opt (args_frame r)) (\<lambda>_.
     bind_act (dealloc_opt (stack_frame r)) (\<lambda>_.
     bind_act (for_each (program_frames r) dealloc_unwrap) (\<lambda>_.
     bind_act (for_each (alloc_frames r) dealloc_unwrap) (\<lambda>_.
     drop_page_table (page_table r)))))"

fun opt_list :: "'a option \<Rightarrow> 'a list" where
  "opt_list None = []"
| "opt_list (Some x) = [x]"

definition resource_frames :: "TaskResource \<Rightarrow> MemoryFrame list" where
  "resource_frames r = opt_list (args_frame r) @ opt_list (stack_frame r) @ program_frames r @
     alloc_frames r @ allocated_frames (page_table r) @ opt_list (pml4_frame (page_table r))"

definition pages_of :: "MemoryFrame list \<Rightarrow> nat set" where
  "pages_of xs = \<Union> (frame_indices ` set xs)"

lemma pages_of_simps [simp]:
  "pages_of [] = {}" "pages_of (f # xs) = frame_indices f \<union> pages_of xs"
  "pages_of (xs @ ys) = pages_of xs \<union> pages_of ys"
  by (auto simp: pages_of_def)

lemma dealloc_opt_for_each: "dealloc_opt f = for_each (opt_list f) dealloc_unwrap"
proof (cases f)
  case (Some x)
  have "bind_act (dealloc_unwrap x) (\<lambda>_. return_act ()) s = dealloc_unwrap x s" for s
    by (cases "dealloc_unwrap x s"; cases "fst (dealloc_unwrap x s)") (auto simp: bind_act_def)
  then show ?thesis using Some by (auto simp: dealloc_opt_def)
qed (simp add: dealloc_opt_def)

lemma for_each_append_act: "for_each (xs @ ys) body = bind_act (for_each xs body) (\<lambda>_. for_each ys body)"
  by (rule ext) (rule for_each_append)

text \<open>The drop is one loop over everything the task owns.\<close>

lemma release_frames_loop: "release_frames r = for_each (resource_frames r) dealloc_unwrap"
  by (simp add: release_frames_def drop_page_table_def resource_frames_def dealloc_opt_for_each
      for_each_append_act)

lemma dealloc_all_live:
  "bmm_pool.live s (xs @ ys) \<Longrightarrow>
   \<exists>t. for_each xs dealloc_unwrap s = (Ok (), t) \<and> bmm_pool.live t ys \<and>
     free_frames t = free_frames s \<union> pages_of xs"
proof (induction xs arbitrary: s)
  case Nil
  then show ?case by simp
next
  case (Cons f xs)
  obtain u where u: "dealloc_mem_frame f s = (Ok (), u)" "bmm_pool.live u (xs @ ys)"
    "free_frames u = free_frames s \<union> frame_indices f"
    using bmm_pool.live_dealloc [of s "[]" f "xs @ ys"] Cons.prems by auto
  then have "dealloc_unwrap f s = (Ok (), u)" by (simp add: dealloc_unwrap_def)
  then show ?case using Cons.IH [OF u(2)] u(3) by (auto simp: ac_simps)
qed

text \<open>Writing one flag leaves the others as they are.\<close>

lemma bit_write_flag:
  "n < 64 \<Longrightarrow> bit ((r AND NOT (push_bit k 1)) OR push_bit k (if v then 1 else 0)) n =
     (if n = k then v else bit r n)" for r :: u64
  by (auto simp: bit_simps)

lemma bit_set_tf: "n < 64 \<Longrightarrow> bit (set_tf v r) n = (if n = 8 then v else bit r n)"
  unfolding set_tf_def by (rule bit_write_flag)

lemma bit_set_if: "n < 64 \<Longrightarrow> bit (set_if v r) n = (if n = 9 then v else bit r n)"
  unfolding set_if_def by (rule bit_write_flag)

lemma rflags_default_bits: "bit rflags_default n \<longleftrightarrow> n = 1"
  by (auto simp: rflags_default_def bit_simps)

text \<open>A fresh context starts at the given instruction with the given arguments and stack, in the
  segments and the privilege level of its mode, with interrupts enabled, the trap flag set only on
  request, every other flag but the reserved bit 1 clear, and every other register zero.\<close>

theorem context_init_correct:
  "let c = context_init cr3 rip rdi rsi rsp mode trap context_new in
   ctx_rip c = rip \<and> ctx_rdi c = rdi \<and> ctx_rsi c = rsi \<and> ctx_rsp c = rsp \<and> ctx_rbp c = rsp \<and>
   ctx_cr3 c = cr3 \<and>
   (bit (ctx_rflags c) n = (n = 1 \<or> n = 9 \<or> n = 8 \<and> trap)) \<and>
   take_bit 2 (ctx_cs c) = (if mode = User then 3 else 0) \<and>
   take_bit 2 (ctx_ss c) = (if mode = User then 3 else 0) \<and> ctx_cs c \<noteq> ctx_ss c \<and>
   {ctx_rax c, ctx_rbx c, ctx_rcx c, ctx_rdx c, ctx_r8 c, ctx_r9 c, ctx_r10 c, ctx_r11 c, ctx_r12 c,
    ctx_r13 c, ctx_r14 c, ctx_r15 c} = {0}"
proof -
  have "bit (set_tf trap (set_if True rflags_default)) n = (n = 1 \<or> n = 9 \<or> n = 8 \<and> trap)"
  proof (cases "n < 64")
    case True
    then show ?thesis by (auto simp: bit_set_tf bit_set_if rflags_default_bits)
  next
    case False
    then show ?thesis using bit_imp_le_length [of "set_tf trap (set_if True rflags_default)" n] by auto
  qed
  then show ?thesis
    by (cases mode) (simp_all add: context_init_def context_new_def)
qed

end
