(* ===== verification/Scheduler.thy ===== *)
theory Scheduler
  imports Task BTree_Map
begin

text \<open>
  The scheduler, kernel/src/task/scheduler.rs. \<open>TaskScheduler\<close> is the state behind the lock
  \<open>TASK_SCHED\<close>, with the static counter of \<open>TaskId::new\<close> beside it. A pointer to a task that an
  operation returns is the task it points to. Where the code switches contexts, the operation returns
  the two tasks of the switch; where it drops tasks, it returns the dropped ones, whose frames
  \<open>release_frames\<close> gives back. A method that panics returns \<open>Panic\<close>.
\<close>

record TaskScheduler =
  ready_queue :: "Task list"
  current_task :: "Task option"
  exited_tasks :: "Task list"
  sleeping_tasks :: "Task list"
  exit_codes :: "(TaskId, i32) btree"
  next_task_id :: TaskId

definition scheduler_new :: TaskScheduler where
  "scheduler_new = \<lparr>ready_queue = [], current_task = None, exited_tasks = [], sleeping_tasks = [],
     exit_codes = [], next_task_id = 0\<rparr>"

subsection \<open>Finding a task\<close>

text \<open>\<open>current_task_mut\<close> gives access to the current task, here to read it and to change it.\<close>

definition current_task_mut :: "(Task \<Rightarrow> 'a \<times> Task) \<Rightarrow> (TaskScheduler, 'a) act" where
  "current_task_mut f s =
     (case current_task s of
        None \<Rightarrow> (err_ctx NotInitialized ''current task'', s)
      | Some t \<Rightarrow> (case f t of (x, t') \<Rightarrow> (Ok x, s\<lparr>current_task := Some t'\<rparr>)))"

definition has_id :: "TaskId \<Rightarrow> Task \<Rightarrow> bool" where
  "has_id i t = (task_id t = i)"

definition find_task :: "TaskId \<Rightarrow> TaskScheduler \<Rightarrow> Task option" where
  "find_task i s =
     (case find (has_id i) (opt_list (current_task s)) of
        Some t \<Rightarrow> Some t
      | None \<Rightarrow>
          (case find (has_id i) (ready_queue s) of
             Some t \<Rightarrow> Some t
           | None \<Rightarrow> find (has_id i) (sleeping_tasks s)))"

text \<open>\<open>if let Some(task) = self.find_task_mut(id) { .. }\<close>, where the block changes the task by \<open>f\<close>.\<close>

definition find_task_mut :: "TaskId \<Rightarrow> (Task \<Rightarrow> Task) \<Rightarrow> TaskScheduler \<Rightarrow> TaskScheduler" where
  "find_task_mut i f s =
     (if list_ex (has_id i) (opt_list (current_task s))
        then s\<lparr>current_task := map_option f (current_task s)\<rparr>
      else if list_ex (has_id i) (ready_queue s)
        then s\<lparr>ready_queue := update_first (has_id i) f (ready_queue s)\<rparr>
      else if list_ex (has_id i) (sleeping_tasks s)
        then s\<lparr>sleeping_tasks := update_first (has_id i) f (sleeping_tasks s)\<rparr>
      else s)"

subsection \<open>Switching\<close>

definition sched_spawn :: "Task \<Rightarrow> TaskScheduler \<Rightarrow> TaskScheduler" where
  "sched_spawn t s = s\<lparr>ready_queue := ready_queue s @ [t]\<rparr>"

definition pick_next_task :: "TaskScheduler \<Rightarrow> (Task \<times> Task) option \<times> TaskScheduler" where
  "pick_next_task s =
     (case current_task s of
        None \<Rightarrow> (None, s)
      | Some prev \<Rightarrow>
          (case ready_queue s of
             nxt # rest \<Rightarrow>
               (let prev' = prev\<lparr>task_state := Ready\<rparr>; nxt' = nxt\<lparr>task_state := Running\<rparr> in
                (Some (prev', nxt'), s\<lparr>ready_queue := rest @ [prev'], current_task := Some nxt'\<rparr>))
           | [] \<Rightarrow> (None, s)))"

text \<open>One round of the loop over the children of an exiting task.\<close>

definition adopt :: "TaskId \<Rightarrow> TaskId \<Rightarrow> TaskScheduler \<Rightarrow> TaskScheduler" where
  "adopt new_parent child s =
     find_task_mut new_parent (\<lambda>t. t\<lparr>task_children := task_children t @ [child]\<rparr>)
       (find_task_mut child (\<lambda>t. t\<lparr>task_parent := Some new_parent\<rparr>) s)"

text \<open>The first sleeper that waits for the task moves to the front of the ready queue.\<close>

fun take_waiter :: "TaskId \<Rightarrow> Task list \<Rightarrow> (Task \<times> Task list) option" where
  "take_waiter i [] = None"
| "take_waiter i (t # ts) =
     (if waiting_for t = Some i then Some (t, ts)
      else map_option (\<lambda>(w, rest). (w, t # rest)) (take_waiter i ts))"

definition wake_waiter :: "TaskId \<Rightarrow> TaskScheduler \<Rightarrow> TaskScheduler" where
  "wake_waiter i s =
     (case take_waiter i (sleeping_tasks s) of
        None \<Rightarrow> s
      | Some (w, rest) \<Rightarrow>
          s\<lparr>sleeping_tasks := rest,
            ready_queue := w\<lparr>task_state := Ready, waiting_for := None\<rparr> # ready_queue s\<rparr>)"

text \<open>\<open>self.ready_queue.pop_front().expect(..)\<close> and the new current task.\<close>

definition run_next :: "(TaskScheduler, Task) act" where
  "run_next s =
     (case ready_queue s of
        [] \<Rightarrow> (Panic, s)
      | nxt # rest \<Rightarrow>
          (let nxt' = nxt\<lparr>task_state := Running\<rparr> in
           (Ok nxt', s\<lparr>ready_queue := rest, current_task := Some nxt'\<rparr>)))"

text \<open>What an exit does to the family of the exiting task, which is no longer the current task.\<close>

definition leave_family :: "Task \<Rightarrow> TaskScheduler \<Rightarrow> TaskScheduler" where
  "leave_family current s =
     (let s' = (case task_parent current of
                  None \<Rightarrow> s
                | Some p \<Rightarrow> find_task_mut p
                    (\<lambda>t. t\<lparr>task_children := filter (\<lambda>c. c \<noteq> task_id current) (task_children t)\<rparr>) s);
          new_parent = (case task_parent current of None \<Rightarrow> KERNEL | Some p \<Rightarrow> p)
      in fold (adopt new_parent) (task_children current) s')"

definition pick_next_task_on_exit :: "i32 \<Rightarrow> (TaskScheduler, Task \<times> Task \<times> Task list) act" where
  "pick_next_task_on_exit exit_code s =
     (case current_task s of
        None \<Rightarrow> (Panic, s)
      | Some current \<Rightarrow>
          (let s1 = leave_family current (s\<lparr>current_task := None\<rparr>);
               gone = current\<lparr>task_state := Exited exit_code, task_children := []\<rparr>;
               old = exited_tasks s1;
               s2 = s1\<lparr>exited_tasks := [gone],
                 exit_codes := bt_insert (task_id current) exit_code (exit_codes s1)\<rparr>
           in bind_act run_next (\<lambda>nxt. return_act (gone, nxt, old)) (wake_waiter (task_id current) s2)))"

definition sleep_current_waiting_for :: "TaskId \<Rightarrow> (TaskScheduler, Task \<times> Task) act" where
  "sleep_current_waiting_for child s =
     (case current_task s of
        None \<Rightarrow> (Panic, s)
      | Some current \<Rightarrow>
          (let slp = current\<lparr>waiting_for := Some child, task_state := Sleeping\<rparr> in
           bind_act run_next (\<lambda>nxt. return_act (slp, nxt))
             (s\<lparr>current_task := None, sleeping_tasks := sleeping_tasks s @ [slp]\<rparr>)))"

definition try_sleep_current_waiting_for :: "TaskId \<Rightarrow> (TaskScheduler, (Task \<times> Task) option) act" where
  "try_sleep_current_waiting_for child s =
     (if bt_contains_key (exit_codes s) child then (Ok None, s)
      else bind_act (sleep_current_waiting_for child) (\<lambda>p. return_act (Some p)) s)"

subsection \<open>The module's functions\<close>

text \<open>\<open>TaskId::new\<close>: \<open>fetch_add\<close> wraps.\<close>

definition task_id_new :: "(TaskScheduler, TaskId) act" where
  "task_id_new s = (Ok (next_task_id s), s\<lparr>next_task_id := (next_task_id s + 1) mod 2 ^ 64\<rparr>)"

text \<open>\<open>init\<close>, given what \<open>Task::new\<close> has set up for the kernel task.\<close>

definition sched_init :: "string \<Rightarrow> Context \<Rightarrow> TaskResource \<Rightarrow> (TaskScheduler, unit) act" where
  "sched_init name ctx res =
     bind_act task_id_new (\<lambda>i.
       if i = KERNEL
       then modify (\<lambda>s. s\<lparr>current_task :=
              Some ((task_build i None name ctx res)\<lparr>task_state := Running\<rparr>)\<rparr>)
       else lift_outcome Panic)"

definition current_task_id :: "TaskScheduler \<Rightarrow> TaskId option" where
  "current_task_id s = map_option task_id (current_task s)"

text \<open>\<open>spawn_user_task\<close>, given what \<open>Task::new\<close> has loaded.\<close>

definition spawn_user_task :: "string \<Rightarrow> Context \<Rightarrow> TaskResource \<Rightarrow> (TaskScheduler, TaskId) act" where
  "spawn_user_task name ctx res =
     bind_act (\<lambda>s. (ok_or (current_task_id s) (with_context NotFound ''current task''), s)) (\<lambda>parent_id.
     bind_act task_id_new (\<lambda>i.
     bind_act (modify (sched_spawn (task_build i (Some parent_id) name ctx res))) (\<lambda>_.
     bind_act (current_task_mut (\<lambda>t. ((), t\<lparr>task_children := task_children t @ [i]\<rparr>))) (\<lambda>_.
     return_act i))))"

definition sleep_waiting_for :: "TaskId \<Rightarrow> (TaskScheduler, (Task \<times> Task) option) act" where
  "sleep_waiting_for child = try_sleep_current_waiting_for child"

text \<open>\<open>sched\<close> drops the exited tasks, then switches; with no other task it panics.\<close>

definition sched :: "TaskScheduler \<Rightarrow> Task list \<times> (Task \<times> Task) outcome \<times> TaskScheduler" where
  "sched s =
     (case pick_next_task s of
        (pair, s') \<Rightarrow>
          (exited_tasks s', case pair of Some p \<Rightarrow> Ok p | None \<Rightarrow> Panic, s'\<lparr>exited_tasks := []\<rparr>))"

definition exit_current :: "i32 \<Rightarrow> (TaskScheduler, Task \<times> Task \<times> Task list) act" where
  "exit_current exit_code = pick_next_task_on_exit exit_code"

definition take_exit_code :: "TaskId \<Rightarrow> TaskScheduler \<Rightarrow> i32 option \<times> TaskScheduler" where
  "take_exit_code i s = (bt_get (exit_codes s) i, s\<lparr>exit_codes := bt_remove i (exit_codes s)\<rparr>)"

definition upd_resource :: "(TaskResource \<Rightarrow> TaskResource) \<Rightarrow> (TaskScheduler, unit) act" where
  "upd_resource f = current_task_mut (\<lambda>t. ((), t\<lparr>task_resource := f (task_resource t)\<rparr>))"

definition current_add_layer_id :: "nat \<Rightarrow> (TaskScheduler, unit) act" where
  "current_add_layer_id l = upd_resource (\<lambda>r. r\<lparr>created_layer_ids := created_layer_ids r @ [l]\<rparr>)"

definition current_remove_layer_id :: "nat \<Rightarrow> (TaskScheduler, unit) act" where
  "current_remove_layer_id l =
     upd_resource (\<lambda>r. r\<lparr>created_layer_ids := filter (\<lambda>x. x \<noteq> l) (created_layer_ids r)\<rparr>)"

definition current_add_fd :: "nat \<Rightarrow> (TaskScheduler, unit) act" where
  "current_add_fd fd = upd_resource (\<lambda>r. r\<lparr>fd_nums := fd_nums r @ [fd]\<rparr>)"

definition current_remove_fd :: "nat \<Rightarrow> (TaskScheduler, unit) act" where
  "current_remove_fd fd = upd_resource (\<lambda>r. r\<lparr>fd_nums := filter (\<lambda>x. x \<noteq> fd) (fd_nums r)\<rparr>)"

definition current_add_mem_frame :: "MemoryFrame \<Rightarrow> (TaskScheduler, unit) act" where
  "current_add_mem_frame f = upd_resource (\<lambda>r. r\<lparr>alloc_frames := alloc_frames r @ [f]\<rparr>)"

text \<open>Virtual addresses of frames are their physical addresses.\<close>

definition current_mem_frame_size :: "nat \<Rightarrow> (TaskScheduler, nat option) act" where
  "current_mem_frame_size addr = current_task_mut (\<lambda>t.
     (map_option frame_size
        (find (\<lambda>f. frame_start_phys_addr f = addr) (alloc_frames (task_resource t))), t))"

fun remove_first :: "('a \<Rightarrow> bool) \<Rightarrow> 'a list \<Rightarrow> ('a \<times> 'a list) option" where
  "remove_first p [] = None"
| "remove_first p (x # xs) =
     (if p x then Some (x, xs) else map_option (\<lambda>(y, rest). (y, x # rest)) (remove_first p xs))"

definition current_remove_mem_frame :: "nat \<Rightarrow> (TaskScheduler, MemoryFrame) act" where
  "current_remove_mem_frame addr =
     bind_act (current_task_mut (\<lambda>t.
       case remove_first (\<lambda>f. frame_start_phys_addr f = addr) (alloc_frames (task_resource t)) of
         None \<Rightarrow> (None, t)
       | Some (f, rest) \<Rightarrow> (Some f, t\<lparr>task_resource := (task_resource t)\<lparr>alloc_frames := rest\<rparr>\<rparr>)))
     (\<lambda>r. case r of Some f \<Rightarrow> return_act f
                  | None \<Rightarrow> fail (with_context InvalidData ''virtual address''))"

definition current_pipe_fd :: "TaskScheduler \<Rightarrow> nat option list option" where
  "current_pipe_fd s = map_option (\<lambda>t. pipe_fd (task_resource t)) (current_task s)"

text \<open>The timer interrupt: save the registers of the current task, pick the next one, and hand the
  context to restore to the interrupt's exit path (a null pointer is \<open>None\<close>).\<close>

definition preempt_sched ::
  "InterruptedContext \<Rightarrow> cpu \<Rightarrow> TaskScheduler \<Rightarrow> Task list \<times> Context option \<times> TaskScheduler" where
  "preempt_sched i p s =
     (let s1 = s\<lparr>current_task := map_option
                   (\<lambda>t. t\<lparr>task_context := save_context i p (task_context t)\<rparr>) (current_task s)\<rparr>
      in case pick_next_task s1 of
           (pair, s2) \<Rightarrow>
             (exited_tasks s2, map_option (\<lambda>(_, nxt). task_context nxt) pair, s2\<lparr>exited_tasks := []\<rparr>))"

definition task_ids :: "TaskScheduler \<Rightarrow> TaskId list" where
  "task_ids s = map task_id (ready_queue s) @ map task_id (opt_list (current_task s)) @
     map task_id (sleeping_tasks s)"

definition task_snapshot :: "TaskId \<Rightarrow> TaskScheduler \<Rightarrow> TaskSnapshot option" where
  "task_snapshot i s = map_option (\<lambda>t. \<lparr>snap_id = task_id t, snap_name = task_name t,
     snap_state = task_state t, snap_parent = task_parent t\<rparr>) (find_task i s)"

subsection \<open>Lists of tasks\<close>

text \<open>The scheduling part of a task: what the queues depend on. The family part is \<open>kin\<close>.\<close>

definition key :: "Task \<Rightarrow> TaskId \<times> TaskState \<times> TaskId option" where
  "key t = (task_id t, task_state t, waiting_for t)"

definition kin :: "Task \<Rightarrow> TaskId option \<times> TaskId list" where
  "kin t = (task_parent t, task_children t)"

definition live_tasks :: "TaskScheduler \<Rightarrow> Task list" where
  "live_tasks s = opt_list (current_task s) @ ready_queue s @ sleeping_tasks s"

definition kin_of :: "Task list \<Rightarrow> TaskId \<Rightarrow> (TaskId option \<times> TaskId list) option" where
  "kin_of ts = map_of (map (\<lambda>t. (task_id t, kin t)) ts)"

text \<open>The abstract view of the table: who is alive, with which parent and which children.\<close>

definition family :: "TaskScheduler \<Rightarrow> TaskId \<Rightarrow> (TaskId option \<times> TaskId list) option" where
  "family s = kin_of (live_tasks s)"

lemma kin_of_simps [simp]:
  "kin_of [] = Map.empty" "kin_of (t # ts) = (kin_of ts)(task_id t \<mapsto> kin t)"
  "kin_of (xs @ ys) = kin_of ys ++ kin_of xs"
  by (simp_all add: kin_of_def)

lemma kin_of_dom: "kin_of ts i \<noteq> None \<longleftrightarrow> list_ex (has_id i) ts"
  by (induction ts) (auto simp: has_id_def)

lemma kin_of_None: "kin_of ts i = None \<longleftrightarrow> i \<notin> task_id ` set ts"
  by (induction ts) auto

lemma kin_of_set:
  "distinct (map task_id xs) \<Longrightarrow> set (map (\<lambda>t. (task_id t, kin t)) xs) = set (map (\<lambda>t. (task_id t, kin t)) ys) \<Longrightarrow>
   distinct (map task_id ys) \<Longrightarrow> kin_of xs = kin_of ys"
  unfolding kin_of_def by (subst map_of_inject_set) (simp_all add: comp_def)

text \<open>Changing the family part of one task.\<close>

locale kin_update =
  fixes f :: "Task \<Rightarrow> Task" and g :: "TaskId option \<times> TaskId list \<Rightarrow> TaskId option \<times> TaskId list"
  assumes key_f: "key (f t) = key t" and kin_f: "kin (f t) = g (kin t)"
    and rest_f: "task_resource (f t) = task_resource t \<and> task_context (f t) = task_context t"
begin

lemma id_f: "task_id (f t) = task_id t"
  using key_f [of t] by (simp add: key_def)

lemma update_first_key: "map key (update_first p f xs) = map key xs"
  by (induction xs) (auto simp: key_f)

lemma update_first_resource:
  "map task_resource (update_first p f xs) = map task_resource xs"
  "map task_context (update_first p f xs) = map task_context xs"
  by (induction xs) (auto simp: rest_f)

lemma update_first_kin:
  "kin_of (update_first (has_id i) f xs) =
     (case kin_of xs i of None \<Rightarrow> kin_of xs | Some k \<Rightarrow> (kin_of xs)(i \<mapsto> g k))"
  by (induction xs) (auto simp: has_id_def id_f kin_f fun_eq_iff split: option.splits)

lemma queues:
  "map key (ready_queue (find_task_mut i f s)) = map key (ready_queue s)"
  "map key (sleeping_tasks (find_task_mut i f s)) = map key (sleeping_tasks s)"
  "map key (opt_list (current_task (find_task_mut i f s))) = map key (opt_list (current_task s))"
  "exited_tasks (find_task_mut i f s) = exited_tasks s"
  "exit_codes (find_task_mut i f s) = exit_codes s"
  "next_task_id (find_task_mut i f s) = next_task_id s"
  by (cases "current_task s"; simp add: find_task_mut_def update_first_key key_f)+

lemma resources:
  "map task_resource (live_tasks (find_task_mut i f s)) = map task_resource (live_tasks s)"
  "map task_context (sleeping_tasks (find_task_mut i f s)) = map task_context (sleeping_tasks s)"
  by (cases "current_task s"; simp add: find_task_mut_def live_tasks_def update_first_resource rest_f)+

lemma no_current: "current_task s = None \<Longrightarrow> current_task (find_task_mut i f s) = None"
  by (simp add: find_task_mut_def)

lemma family_update:
  "family (find_task_mut i f s) =
     (case family s i of None \<Rightarrow> family s | Some k \<Rightarrow> (family s)(i \<mapsto> g k))"
proof -
  have ex: "list_ex (has_id i) xs = (kin_of xs i \<noteq> None)" for xs by (simp only: kin_of_dom)
  show ?thesis
    by (cases "current_task s")
      (auto simp: find_task_mut_def family_def live_tasks_def ex update_first_kin has_id_def id_f kin_f
        map_add_def fun_eq_iff split: option.splits if_splits)
qed

end

interpretation set_parent: kin_update "\<lambda>t. t\<lparr>task_parent := Some p\<rparr>" "\<lambda>(_, cs). (Some p, cs)"
  by unfold_locales (simp_all add: key_def kin_def)

interpretation add_child: kin_update "\<lambda>t. t\<lparr>task_children := task_children t @ [c]\<rparr>"
  "\<lambda>(p, cs). (p, cs @ [c])"
  by unfold_locales (simp_all add: key_def kin_def)

interpretation del_child:
  kin_update "\<lambda>t. t\<lparr>task_children := filter (\<lambda>c. c \<noteq> i) (task_children t)\<rparr>"
  "\<lambda>(p, cs). (p, filter (\<lambda>c. c \<noteq> i) cs)"
  by unfold_locales (simp_all add: key_def kin_def)

subsection \<open>The family tree\<close>

lemmas kin_queues = set_parent.queues add_child.queues del_child.queues
lemmas kin_families = set_parent.family_update add_child.family_update del_child.family_update
lemmas kin_resources = set_parent.resources add_child.resources del_child.resources

lemma adopt_queues [simp]:
  "map key (ready_queue (adopt p c s)) = map key (ready_queue s)"
  "map key (sleeping_tasks (adopt p c s)) = map key (sleeping_tasks s)"
  "map key (opt_list (current_task (adopt p c s))) = map key (opt_list (current_task s))"
  "exited_tasks (adopt p c s) = exited_tasks s"
  "exit_codes (adopt p c s) = exit_codes s"
  "next_task_id (adopt p c s) = next_task_id s"
  "map task_resource (live_tasks (adopt p c s)) = map task_resource (live_tasks s)"
  "map task_context (sleeping_tasks (adopt p c s)) = map task_context (sleeping_tasks s)"
  by (simp_all add: adopt_def kin_queues kin_resources)

lemma adopts_queues [simp]:
  "map key (ready_queue (fold (adopt p) cs s)) = map key (ready_queue s)"
  "map key (sleeping_tasks (fold (adopt p) cs s)) = map key (sleeping_tasks s)"
  "map key (opt_list (current_task (fold (adopt p) cs s))) = map key (opt_list (current_task s))"
  "exited_tasks (fold (adopt p) cs s) = exited_tasks s"
  "exit_codes (fold (adopt p) cs s) = exit_codes s"
  "next_task_id (fold (adopt p) cs s) = next_task_id s"
  "map task_resource (live_tasks (fold (adopt p) cs s)) = map task_resource (live_tasks s)"
  "map task_context (sleeping_tasks (fold (adopt p) cs s)) = map task_context (sleeping_tasks s)"
  by (induction cs arbitrary: s) simp_all

lemma leave_queues [simp]:
  "map key (ready_queue (leave_family t s)) = map key (ready_queue s)"
  "map key (sleeping_tasks (leave_family t s)) = map key (sleeping_tasks s)"
  "map key (opt_list (current_task (leave_family t s))) = map key (opt_list (current_task s))"
  "exited_tasks (leave_family t s) = exited_tasks s"
  "exit_codes (leave_family t s) = exit_codes s"
  "next_task_id (leave_family t s) = next_task_id s"
  "map task_resource (live_tasks (leave_family t s)) = map task_resource (live_tasks s)"
  "map task_context (sleeping_tasks (leave_family t s)) = map task_context (sleeping_tasks s)"
  by (simp_all add: leave_family_def Let_def kin_queues kin_resources split: option.split)

text \<open>The effect of adopting a list of children, on the abstract view.\<close>

definition adopted :: "TaskId \<Rightarrow> TaskId list \<Rightarrow> TaskId \<Rightarrow> TaskId option \<times> TaskId list \<Rightarrow>
    TaskId option \<times> TaskId list" where
  "adopted p cs i k = (if i \<in> set cs then Some p else fst k, if i = p then snd k @ cs else snd k)"

lemma adopt_family: "p \<noteq> c \<Longrightarrow> family (adopt p c s) i = map_option (adopted p [c] i) (family s i)"
  by (cases "family s c"; cases "family s p"; cases "family s i")
    (auto simp: adopt_def kin_families adopted_def split: option.splits)

lemma adopted_Cons: "adopted p cs i (adopted p [c] i k) = adopted p (c # cs) i k"
  by (simp add: adopted_def)

lemma adopts_family:
  "p \<notin> set cs \<Longrightarrow> family (fold (adopt p) cs s) i = map_option (adopted p cs i) (family s i)"
proof (induction cs arbitrary: s)
  case Nil
  then show ?case by (cases "family s i") (simp_all add: adopted_def)
next
  case (Cons c cs)
  then show ?case by (cases "family s i") (simp_all add: adopt_family adopted_Cons)
qed

definition family_ok :: "(TaskId \<Rightarrow> (TaskId option \<times> TaskId list) option) \<Rightarrow> bool" where
  "family_ok F \<longleftrightarrow>
     (\<forall>i p cs. F i = Some (p, cs) \<longrightarrow>
        distinct cs \<and> (\<forall>c. c \<in> set cs \<longleftrightarrow> (\<exists>ds. F c = Some (Some i, ds))) \<and>
        (case p of None \<Rightarrow> i = KERNEL
         | Some q \<Rightarrow> q < i \<and> (F KERNEL \<noteq> None \<longrightarrow> F q \<noteq> None)))"

lemma family_okD:
  assumes "family_ok F" and "F i = Some (p, cs)"
  shows "distinct cs" "c \<in> set cs \<longleftrightarrow> (\<exists>ds. F c = Some (Some i, ds))" "p = None \<Longrightarrow> i = KERNEL"
    "p = Some q \<Longrightarrow> q < i" "p = Some q \<Longrightarrow> F KERNEL \<noteq> None \<Longrightarrow> F q \<noteq> None"
  using assms unfolding family_ok_def by (auto split: option.splits)

lemma family_okI:
  assumes "\<And>i p cs. F i = Some (p, cs) \<Longrightarrow> distinct cs"
    and "\<And>i p cs c. F i = Some (p, cs) \<Longrightarrow> c \<in> set cs \<longleftrightarrow> (\<exists>ds. F c = Some (Some i, ds))"
    and "\<And>i cs. F i = Some (None, cs) \<Longrightarrow> i = KERNEL"
    and "\<And>i q cs. F i = Some (Some q, cs) \<Longrightarrow> q < i"
    and "\<And>i q cs. F i = Some (Some q, cs) \<Longrightarrow> F KERNEL \<noteq> None \<Longrightarrow> F q \<noteq> None"
  shows "family_ok F"
  unfolding family_ok_def using assms by (auto split: option.splits)

text \<open>The tree without \<open>e\<close>, whose children go to its parent.\<close>

definition without :: "TaskId \<Rightarrow> TaskId option \<Rightarrow> TaskId list \<Rightarrow>
    (TaskId \<Rightarrow> (TaskId option \<times> TaskId list) option) \<Rightarrow>
    TaskId \<Rightarrow> (TaskId option \<times> TaskId list) option" where
  "without e q cs F i =
     (if i = e then None
      else map_option (\<lambda>(p, ds). (if i \<in> set cs then Some (case q of None \<Rightarrow> KERNEL | Some q \<Rightarrow> q) else p,
             if Some i = q then filter (\<lambda>c. c \<noteq> e) ds @ cs else ds)) (F i))"

lemma without_Some:
  "without e q cs F i = Some (p, ds) \<longleftrightarrow> i \<noteq> e \<and> (\<exists>p' ds'. F i = Some (p', ds') \<and>
     p = (if i \<in> set cs then Some (case q of None \<Rightarrow> KERNEL | Some q \<Rightarrow> q) else p') \<and>
     ds = (if Some i = q then filter (\<lambda>c. c \<noteq> e) ds' @ cs else ds'))"
proof (cases "F i")
  case (Some k)
  obtain a b where "k = (a, b)" by (cases k)
  with Some show ?thesis by (cases "i \<in> set cs"; cases "Some i = q") (auto simp: without_def)
qed (simp add: without_def)

lemma leave_family_table:
  assumes fam: "family s = F(e := None)" and ok: "family_ok F" and e: "F e = Some (task_parent t, task_children t)"
    and id: "task_id t = e"
  shows "family (leave_family t s) i = without e (task_parent t) (task_children t) F i"
proof (cases "task_parent t")
  case None
  then have "e = KERNEL" using family_okD(3) [OF ok e] by blast
  moreover have "c \<noteq> KERNEL" if "c \<in> set (task_children t)" for c
    using that family_okD(2) [OF ok e, of c] family_okD(4) [OF ok, of c] by auto
  then have np: "KERNEL \<notin> set (task_children t)" by blast
  ultimately show ?thesis using None fam
    by (cases "F i") (auto simp: leave_family_def Let_def adopts_family without_def adopted_def)
next
  case (Some q)
  have "q < c" if "c \<in> set (task_children t)" for c
    using that family_okD(2) [OF ok e, of c] family_okD(4) [OF ok, of c]
      family_okD(4) [OF ok e Some] by fastforce
  then have np: "q \<notin> set (task_children t)" by blast
  moreover have "q \<noteq> e" using family_okD(4) [OF ok e Some] by simp
  ultimately show ?thesis using Some fam id
    by (cases "F q"; cases "F i"; cases "i = q")
      (simp_all add: leave_family_def Let_def adopts_family kin_families without_def adopted_def
        split: prod.split)
qed


lemma family_ok_without:
  assumes ok: "family_ok F" and e: "F e = Some (q, cs)"
  shows "family_ok (without e q cs F)"
proof -
  define np where "np = (case q of None \<Rightarrow> KERNEL | Some q \<Rightarrow> q)"
  let ?W = "without e q cs F"
  have child: "c \<in> set cs \<longleftrightarrow> (\<exists>ds. F c = Some (Some e, ds))" for c by (rule family_okD(2) [OF ok e])
  have W: "?W i = (if i = e then None else map_option (\<lambda>(p, ds).
      (if i \<in> set cs then Some np else p, if Some i = q then filter (\<lambda>c. c \<noteq> e) ds @ cs else ds)) (F i))" for i
    by (simp only: without_def np_def)
  have q: "q = None \<Longrightarrow> e = KERNEL" "q = Some j \<Longrightarrow> j < e" for j
    using family_okD(3,4) [OF ok e] by blast+
  have younger: "e < c" if "c \<in> set cs" for c
    using that child [of c] family_okD(4) [OF ok, of c _ _ e] by blast
  show ?thesis
  proof (rule family_okI)
    fix i p ds assume "?W i = Some (p, ds)"
    then obtain p' ds' where i: "i \<noteq> e" "F i = Some (p', ds')"
      "p = (if i \<in> set cs then Some np else p')"
      "ds = (if Some i = q then filter (\<lambda>c. c \<noteq> e) ds' @ cs else ds')"
      using without_Some [of e q cs F i p ds] np_def by blast
    have sons: "c \<in> set ds' \<longleftrightarrow> (\<exists>es. F c = Some (Some i, es))" for c by (rule family_okD(2) [OF ok i(2)])
    show "distinct ds"
      using i(1,4) family_okD(1) [OF ok i(2)] family_okD(1) [OF ok e] sons child by auto
    show "c \<in> set ds \<longleftrightarrow> (\<exists>es. ?W c = Some (Some i, es))" for c
    proof (cases "F c")
      case None
      then show ?thesis using i sons child [of c] by (auto simp: W)
    next
      case (Some k)
      then show ?thesis
        using i(1,4) sons [of c] child [of c] e q np_def by (cases k) (auto simp: W split: option.splits)
    qed
  next
    fix i ds assume "?W i = Some (None, ds)"
    then show "i = KERNEL" using family_okD(3) [OF ok] by (auto simp: W split: if_splits)
  next
    fix i j ds assume "?W i = Some (Some j, ds)"
    then obtain p' ds' where i: "i \<noteq> e" "F i = Some (p', ds')" "Some j = (if i \<in> set cs then Some np else p')"
      using without_Some [of e q cs F i "Some j" ds] np_def by blast
    show "j < i"
    proof (cases "i \<in> set cs")
      case True
      have "np \<le> e" using q by (cases q) (auto simp: np_def intro: less_imp_le)
      then show ?thesis using True i(3) younger [OF True] by simp
    next
      case False
      then show ?thesis using i family_okD(4) [OF ok i(2)] by simp
    qed
  next
    fix i j ds assume W1: "?W i = Some (Some j, ds)" and W0: "?W KERNEL \<noteq> None"
    then obtain p' ds' where i: "i \<noteq> e" "F i = Some (p', ds')" "Some j = (if i \<in> set cs then Some np else p')"
      using without_Some [of e q cs F i "Some j" ds] np_def by blast
    have "e \<noteq> KERNEL" "F KERNEL \<noteq> None" using W0 by (auto simp: W split: if_splits)
    then obtain r where r: "q = Some r" "F r \<noteq> None" "np = r"
      using q(1) family_okD(5) [OF ok e] by (cases q) (auto simp: np_def)
    have "p' = Some e \<Longrightarrow> i \<in> set cs" using child [of i] i(2) by blast
    then have "F j \<noteq> None \<and> j \<noteq> e"
      using i r q family_okD(5) [OF ok i(2) _ \<open>F KERNEL \<noteq> None\<close>] by (cases "i \<in> set cs") auto
    then show "?W j \<noteq> None" by (simp add: W)
  qed
qed

lemma family_ok_spawn:
  assumes ok: "family_ok F" and fresh: "F n = None" and e: "F e = Some (p, cs)" and "e < n"
    and new: "\<And>i q ds. F i = Some (q, ds) \<Longrightarrow> i < n"
  shows "family_ok (F(e \<mapsto> (p, cs @ [n]), n \<mapsto> (Some e, [])))"
proof -
  let ?G = "F(e \<mapsto> (p, cs @ [n]), n \<mapsto> (Some e, []))"
  have n: "n \<notin> set ds" "q \<noteq> Some n" if "F i = Some (q, ds)" for i q ds
    using that fresh family_okD(2,4) [OF ok that] new [OF that] by fastforce+
  show ?thesis
  proof (rule family_okI)
    fix i q ds assume i: "?G i = Some (q, ds)"
    show "distinct ds"
      using i family_okD(1) [OF ok] n e \<open>e < n\<close> by (auto split: if_splits)
    show "c \<in> set ds \<longleftrightarrow> (\<exists>es. ?G c = Some (Some i, es))" for c
    proof (cases "i = n")
      case True
      then have "ds = []" "\<nexists>es. ?G c = Some (Some i, es)" using i n(2) e \<open>e < n\<close> by (auto split: if_splits)
      then show ?thesis by simp
    next
      case False
      then obtain ds' where ds': "F i = Some (q, ds')" "ds = (if i = e then ds' @ [n] else ds')"
        using i e by (auto split: if_splits)
      then show ?thesis using family_okD(2) [OF ok ds'(1), of c] n(1) [OF ds'(1)] e \<open>e < n\<close> fresh by auto
    qed
  next
    fix i ds assume "?G i = Some (None, ds)"
    then show "i = KERNEL" using family_okD(3) [OF ok] e by (auto split: if_splits)
  next
    fix i j ds assume "?G i = Some (Some j, ds)"
    then show "j < i" using family_okD(4) [OF ok] e \<open>e < n\<close> by (auto split: if_splits)
  next
    fix i j ds assume G: "?G i = Some (Some j, ds)" and "?G KERNEL \<noteq> None"
    then have "F KERNEL \<noteq> None" using e \<open>e < n\<close> by (auto split: if_splits)
    then show "?G j \<noteq> None" using G family_okD(5) [OF ok] e by (auto split: if_splits)
  qed
qed

subsection \<open>The invariant\<close>

definition all_tasks :: "TaskScheduler \<Rightarrow> Task list" where
  "all_tasks s = live_tasks s @ exited_tasks s"

text \<open>Each queue holds tasks in the matching state, only sleepers wait, no id is used twice, and an exit
  code belongs to a task that is gone.\<close>

definition queues_ok ::
  "(TaskId \<times> TaskState \<times> TaskId option) list \<Rightarrow> (TaskId \<times> TaskState \<times> TaskId option) list \<Rightarrow>
   (TaskId \<times> TaskState \<times> TaskId option) list \<Rightarrow> (TaskId \<times> TaskState \<times> TaskId option) list \<Rightarrow>
   (TaskId, i32) btree \<Rightarrow> TaskId \<Rightarrow> bool" where
  "queues_ok cur ready slp gone codes n \<longleftrightarrow>
     distinct (map fst (cur @ ready @ slp @ gone)) \<and>
     (\<forall>k\<in>set (cur @ ready @ slp @ gone). fst k < n) \<and>
     (\<forall>(i, st, w)\<in>set cur. st = Running \<and> w = None) \<and>
     (\<forall>(i, st, w)\<in>set ready. st = Ready \<and> w = None) \<and>
     (\<forall>(i, st, w)\<in>set slp. st = Sleeping \<and> w \<noteq> None) \<and>
     (\<forall>(i, st, w)\<in>set gone. \<exists>c. st = Exited c) \<and>
     bt_inv codes \<and>
     (\<forall>i c. bt_get codes i = Some c \<longrightarrow> i < n \<and> i \<notin> fst ` set (cur @ ready @ slp))"

definition queue_inv :: "TaskScheduler \<Rightarrow> bool" where
  "queue_inv s \<longleftrightarrow> queues_ok (map key (opt_list (current_task s))) (map key (ready_queue s))
     (map key (sleeping_tasks s)) (map key (exited_tasks s)) (exit_codes s) (next_task_id s)"

definition sched_inv :: "TaskScheduler \<Rightarrow> bool" where
  "sched_inv s \<longleftrightarrow> queue_inv s \<and> family_ok (family s)"

lemma fst_key [simp]: "fst (key t) = task_id t"
  by (simp add: key_def)

lemma key_fields: "key t = key u \<longleftrightarrow>
    task_id t = task_id u \<and> task_state t = task_state u \<and> waiting_for t = waiting_for u"
  by (simp add: key_def)

lemma queue_inv_iff:
  "queue_inv s \<longleftrightarrow>
     distinct (map task_id (live_tasks s @ exited_tasks s)) \<and>
     (\<forall>t\<in>set (live_tasks s @ exited_tasks s). task_id t < next_task_id s) \<and>
     (\<forall>t\<in>set (opt_list (current_task s)). task_state t = Running \<and> waiting_for t = None) \<and>
     (\<forall>t\<in>set (ready_queue s). task_state t = Ready \<and> waiting_for t = None) \<and>
     (\<forall>t\<in>set (sleeping_tasks s). task_state t = Sleeping \<and> waiting_for t \<noteq> None) \<and>
     (\<forall>t\<in>set (exited_tasks s). \<exists>c. task_state t = Exited c) \<and>
     bt_inv (exit_codes s) \<and>
     (\<forall>i c. bt_get (exit_codes s) i = Some c \<longrightarrow> i < next_task_id s \<and> i \<notin> task_id ` set (live_tasks s))"
  unfolding queue_inv_def queues_ok_def live_tasks_def
  by (simp only: map_append [symmetric] map_map comp_def set_map set_append ball_Un Un_assoc append_assoc
      image_Un image_image ball_simps fst_key key_def prod.case fst_conv bex_simps)

lemma queue_inv_ids:
  assumes "queue_inv s"
  shows "distinct (map task_id (all_tasks s))" "distinct (map task_id (live_tasks s))"
    "t \<in> set (all_tasks s) \<Longrightarrow> task_id t < next_task_id s"
    "t \<in> set (live_tasks s) \<Longrightarrow> bt_get (exit_codes s) (task_id t) = None"
proof -
  show "distinct (map task_id (all_tasks s))" "distinct (map task_id (live_tasks s))"
    "t \<in> set (all_tasks s) \<Longrightarrow> task_id t < next_task_id s"
    using assms unfolding queue_inv_iff all_tasks_def by auto
  show "t \<in> set (live_tasks s) \<Longrightarrow> bt_get (exit_codes s) (task_id t) = None"
    using assms unfolding queue_inv_iff by (metis imageI not_Some_eq)
qed

text \<open>Reordering the live tasks and changing their state keeps the family.\<close>

lemma family_perm:
  assumes "queue_inv s" and "queue_inv s'"
    and "set (map (\<lambda>t. (task_id t, kin t)) (live_tasks s')) = set (map (\<lambda>t. (task_id t, kin t)) (live_tasks s))"
  shows "family s' = family s"
  unfolding family_def
  by (rule kin_of_set) (use assms queue_inv_ids(2) in auto)

lemma kin_simps [simp]:
  "kin (t\<lparr>task_state := x\<rparr>) = kin t" "kin (t\<lparr>waiting_for := y\<rparr>) = kin t"
  "kin (t\<lparr>task_context := c\<rparr>) = kin t" "kin (t\<lparr>task_resource := r\<rparr>) = kin t"
  by (simp_all add: kin_def)

lemma key_simps [simp]:
  "key (t\<lparr>task_state := x\<rparr>) = (task_id t, x, waiting_for t)"
  "key (t\<lparr>waiting_for := y\<rparr>) = (task_id t, task_state t, y)"
  "key (t\<lparr>task_context := c\<rparr>) = key t" "key (t\<lparr>task_resource := r\<rparr>) = key t"
  "key (t\<lparr>task_children := cs\<rparr>) = key t" "key (t\<lparr>task_parent := p\<rparr>) = key t"
  by (simp_all add: key_def)

text \<open>The current task goes to the back of the ready queue and the next one runs: also the shape of the
  first-come-first-served order.\<close>

lemma pick_next_task_inv:
  assumes "sched_inv s" and "pick_next_task s = (r, s')"
  shows "sched_inv s'"
proof (cases "current_task s")
  case None
  then show ?thesis using assms by (simp add: pick_next_task_def)
next
  case (Some c)
  show ?thesis
  proof (cases "ready_queue s")
    case Nil
    then show ?thesis using assms Some by (simp add: pick_next_task_def)
  next
    case (Cons n q)
    have s': "s' = s\<lparr>ready_queue := q @ [c\<lparr>task_state := Ready\<rparr>], current_task := Some (n\<lparr>task_state := Running\<rparr>)\<rparr>"
      using assms(2) Some Cons by (auto simp: pick_next_task_def Let_def)
    have inv: "queue_inv s" "family_ok (family s)" using assms(1) by (auto simp: sched_inv_def)
    have q: "queue_inv s'"
      using inv(1) Some Cons unfolding s' queue_inv_iff live_tasks_def by auto
    have "family s' = family s"
      by (rule family_perm [OF inv(1) q]) (auto simp: s' live_tasks_def Some Cons)
    then show ?thesis using q inv(2) by (simp add: sched_inv_def)
  qed
qed

text \<open>States that differ in the family part only have the same queues.\<close>

lemma queue_inv_key:
  assumes "queue_inv s" and "map key (opt_list (current_task t)) = map key (opt_list (current_task s))"
    and "map key (ready_queue t) = map key (ready_queue s)"
    and "map key (sleeping_tasks t) = map key (sleeping_tasks s)"
    and "exited_tasks t = exited_tasks s" "exit_codes t = exit_codes s" "next_task_id t = next_task_id s"
  shows "queue_inv t"
  using assms by (simp add: queue_inv_def)

lemma take_waiter_Some:
  "take_waiter i ts = Some (w, rest) \<Longrightarrow>
   \<exists>xs ys. ts = xs @ w # ys \<and> rest = xs @ ys \<and> waiting_for w = Some i \<and> (\<forall>t\<in>set xs. waiting_for t \<noteq> Some i)"
proof (induction ts arbitrary: rest)
  case (Cons t ts)
  show ?case
  proof (cases "waiting_for t = Some i")
    case True
    then show ?thesis using Cons.prems by (intro exI [of _ "[]"] exI [of _ ts]) simp
  next
    case False
    then obtain rest' where r: "take_waiter i ts = Some (w, rest')" "rest = t # rest'"
      using Cons.prems by auto
    from Cons.IH [OF r(1)] obtain xs ys where "ts = xs @ w # ys" "rest' = xs @ ys"
      "waiting_for w = Some i" "\<forall>t\<in>set xs. waiting_for t \<noteq> Some i" by blast
    then show ?thesis using False r(2) by (intro exI [of _ "t # xs"] conjI exI [of _ ys]) auto
  qed
qed simp

lemma take_waiter_None: "take_waiter i ts = None \<longleftrightarrow> (\<forall>t\<in>set ts. waiting_for t \<noteq> Some i)"
  by (induction ts) auto

lemma wake_waiter_inv: "sched_inv s \<Longrightarrow> sched_inv (wake_waiter i s)"
proof (cases "take_waiter i (sleeping_tasks s)")
  case (Some p)
  assume inv: "sched_inv s"
  obtain w rest where p: "p = (w, rest)" by (cases p)
  then obtain xs ys where sl: "sleeping_tasks s = xs @ w # ys" "rest = xs @ ys"
    using take_waiter_Some Some by blast
  let ?s = "s\<lparr>sleeping_tasks := rest, ready_queue := w\<lparr>task_state := Ready, waiting_for := None\<rparr> # ready_queue s\<rparr>"
  have q: "queue_inv s" "family_ok (family s)" using inv by (auto simp: sched_inv_def)
  have q': "queue_inv ?s" using q(1) unfolding queue_inv_iff live_tasks_def by (auto simp: sl)
  have "family ?s = family s" by (rule family_perm [OF q(1) q']) (auto simp: live_tasks_def sl)
  then show ?thesis using q q' Some p by (simp add: wake_waiter_def sched_inv_def)
qed (simp add: wake_waiter_def)

lemma run_next_inv:
  assumes "sched_inv s" and "current_task s = None"
  shows "sched_inv (snd (run_next s))"
proof (cases "ready_queue s")
  case (Cons n q)
  let ?s = "s\<lparr>ready_queue := q, current_task := Some (n\<lparr>task_state := Running\<rparr>)\<rparr>"
  have i: "queue_inv s" "family_ok (family s)" using assms(1) by (auto simp: sched_inv_def)
  have q': "queue_inv ?s" using i(1) assms(2) Cons unfolding queue_inv_iff live_tasks_def by auto
  have "family ?s = family s" by (rule family_perm [OF i(1) q']) (auto simp: live_tasks_def Cons assms(2))
  then show ?thesis using i q' Cons by (simp add: run_next_def sched_inv_def Let_def)
qed (use assms in \<open>simp add: run_next_def\<close>)

lemma bind_return_snd: "snd (bind_act m (\<lambda>x. return_act (f x)) s) = snd (m s)"
  by (cases "m s"; cases "fst (m s)") (auto simp: bind_act_def)

lemma no_current_queues:
  "current_task (leave_family t s) = None \<longleftrightarrow> current_task s = None"
proof -
  have "opt_list x = [] \<longleftrightarrow> x = None" for x :: "Task option" by (cases x) auto
  then show ?thesis
    using leave_queues(3) [of t s] by (metis map_is_Nil_conv)
qed

lemma wake_waiter_current [simp]: "current_task (wake_waiter i s) = current_task s"
  by (simp add: wake_waiter_def split: option.split prod.split)

lemma exit_inv:
  assumes inv: "sched_inv s"
  shows "sched_inv (snd (pick_next_task_on_exit code s))"
proof (cases "current_task s")
  case None
  then show ?thesis using inv by (simp add: pick_next_task_on_exit_def)
next
  case (Some c)
  define s0 where "s0 = s\<lparr>current_task := None\<rparr>"
  define s1 where "s1 = leave_family c s0"
  define s2 where "s2 = s1\<lparr>exited_tasks := [c\<lparr>task_state := Exited code, task_children := []\<rparr>],
    exit_codes := bt_insert (task_id c) code (exit_codes s1)\<rparr>"
  have q: "queue_inv s" and ok: "family_ok (family s)" using inv by (auto simp: sched_inv_def)
  have cur: "current_task s1 = None" using no_current_queues [of c s0] by (simp add: s1_def s0_def)
  have keys: "map key (ready_queue s1) = map key (ready_queue s)"
    "map key (sleeping_tasks s1) = map key (sleeping_tasks s)" "exited_tasks s1 = exited_tasks s"
    "exit_codes s1 = exit_codes s" "next_task_id s1 = next_task_id s"
    by (simp_all add: s1_def s0_def)
  have s2: "queue_inv s2"
  proof -
    have "queue_inv (s\<lparr>current_task := None, exited_tasks := [c\<lparr>task_state := Exited code, task_children := []\<rparr>],
        exit_codes := bt_insert (task_id c) code (exit_codes s)\<rparr>)"
      using q Some unfolding queue_inv_iff live_tasks_def by (auto simp: bt_inv_insert split: if_splits)
    then show ?thesis
      by (rule queue_inv_key) (simp_all add: s2_def keys cur)
  qed
  have fresh: "task_id c \<notin> task_id ` set (live_tasks s0)"
    using queue_inv_ids(2) [OF q] Some by (simp add: live_tasks_def s0_def image_Un)
  have "family s = (family s0)(task_id c \<mapsto> kin c)" by (simp add: family_def live_tasks_def s0_def Some)
  moreover have "family s0 (task_id c) = None" using fresh by (simp add: family_def kin_of_None)
  ultimately have "family s0 = (family s)(task_id c := None)" "family s (task_id c) = Some (task_parent c, task_children c)"
    by (auto simp: kin_def fun_eq_iff)
  then have fam: "family s1 = without (task_id c) (task_parent c) (task_children c) (family s)"
    unfolding s1_def by (intro ext leave_family_table [OF _ ok]) auto
  have "family s2 = family s1" by (simp add: family_def live_tasks_def s2_def)
  then have "sched_inv s2"
    using s2 family_ok_without [OF ok \<open>family s (task_id c) = _\<close>] fam by (simp add: sched_inv_def)
  then have "sched_inv (wake_waiter (task_id c) s2)" by (rule wake_waiter_inv)
  then have "sched_inv (snd (run_next (wake_waiter (task_id c) s2)))"
    by (rule run_next_inv) (simp add: s2_def cur)
  then show ?thesis
    by (simp add: pick_next_task_on_exit_def Some Let_def bind_return_snd s2_def s1_def s0_def)
qed

lemma sleep_inv:
  assumes inv: "sched_inv s"
  shows "sched_inv (snd (sleep_current_waiting_for child s))"
proof (cases "current_task s")
  case None
  then show ?thesis using inv by (simp add: sleep_current_waiting_for_def)
next
  case (Some c)
  let ?slp = "c\<lparr>waiting_for := Some child, task_state := Sleeping\<rparr>"
  let ?s = "s\<lparr>current_task := None, sleeping_tasks := sleeping_tasks s @ [?slp]\<rparr>"
  have i: "queue_inv s" "family_ok (family s)" using inv by (auto simp: sched_inv_def)
  have q: "queue_inv ?s" using i(1) Some unfolding queue_inv_iff live_tasks_def by auto
  have "family ?s = family s" by (rule family_perm [OF i(1) q]) (auto simp: live_tasks_def Some)
  then have "sched_inv ?s" using q i(2) by (simp add: sched_inv_def)
  then have "sched_inv (snd (run_next ?s))" by (rule run_next_inv) simp
  then show ?thesis by (simp add: sleep_current_waiting_for_def Some Let_def bind_return_snd)
qed

lemma try_sleep_inv: "sched_inv s \<Longrightarrow> sched_inv (snd (sleep_waiting_for child s))"
  by (simp add: sleep_waiting_for_def try_sleep_current_waiting_for_def bind_return_snd sleep_inv)

lemma drop_exited_inv: "sched_inv s \<Longrightarrow> sched_inv (s\<lparr>exited_tasks := []\<rparr>)"
proof -
  have "live_tasks (s\<lparr>exited_tasks := []\<rparr>) = live_tasks s" by (simp add: live_tasks_def)
  then show "sched_inv s \<Longrightarrow> ?thesis" by (simp add: sched_inv_def family_def queue_inv_iff)
qed

lemma take_exit_code_inv: "sched_inv s \<Longrightarrow> sched_inv (snd (take_exit_code i s))"
proof -
  assume "sched_inv s"
  moreover from this have "bt_get (bt_remove i (exit_codes s)) j = (if j = i then None else bt_get (exit_codes s) j)" for j
    by (simp add: sched_inv_def queue_inv_iff bt.get_remove)
  ultimately show ?thesis
    by (auto simp: sched_inv_def queue_inv_iff take_exit_code_def family_def live_tasks_def split: if_splits)
qed

text \<open>Changing anything but the id, the state, what it waits for and the family of the current task.\<close>

lemma current_update_inv:
  assumes "sched_inv s" and "\<And>t. key (f t) = key t \<and> kin (f t) = kin t"
  shows "sched_inv (s\<lparr>current_task := map_option f (current_task s)\<rparr>)" (is "sched_inv ?s")
proof -
  have "queue_inv ?s"
    by (rule queue_inv_key [of s]; cases "current_task s") (use assms in \<open>simp_all add: sched_inv_def\<close>)
  moreover have "task_id (f t) = task_id t" for t using assms(2) [of t] by (simp add: key_def)
  then have "family ?s = family s"
    by (cases "current_task s") (simp_all add: family_def live_tasks_def assms(2))
  ultimately show ?thesis using assms(1) by (simp add: sched_inv_def)
qed

lemma current_task_mut_snd:
  "snd (current_task_mut f s) = s\<lparr>current_task := map_option (\<lambda>t. snd (f t)) (current_task s)\<rparr>"
  by (cases "current_task s") (simp_all add: current_task_mut_def split: prod.split)

lemma resource_inv:
  assumes "sched_inv s" and "\<And>t. \<exists>r. snd (f t) = t\<lparr>task_resource := r\<rparr>"
  shows "sched_inv (snd (current_task_mut f s))"
  unfolding current_task_mut_snd
proof (rule current_update_inv [OF assms(1)])
  fix t
  obtain r where "snd (f t) = t\<lparr>task_resource := r\<rparr>" using assms(2) by blast
  then show "key (snd (f t)) = key t \<and> kin (snd (f t)) = kin t" by simp
qed

lemma upd_resource_inv: "sched_inv s \<Longrightarrow> sched_inv (snd (upd_resource f s))"
  unfolding upd_resource_def by (rule resource_inv) auto

lemma remove_mem_frame_snd:
  "snd (current_remove_mem_frame a s) =
     snd (current_task_mut (\<lambda>t.
       case remove_first (\<lambda>f. frame_start_phys_addr f = a) (alloc_frames (task_resource t)) of
         None \<Rightarrow> (None, t)
       | Some (f, rest) \<Rightarrow> (Some f, t\<lparr>task_resource := (task_resource t)\<lparr>alloc_frames := rest\<rparr>\<rparr>)) s)"
  (is "_ = snd (?m s)")
  by (cases "?m s"; cases "fst (?m s)")
    (auto simp: current_remove_mem_frame_def bind_act_def split: option.split)

lemma remove_mem_frame_inv: "sched_inv s \<Longrightarrow> sched_inv (snd (current_remove_mem_frame a s))"
  unfolding remove_mem_frame_snd
proof (rule resource_inv)
  fix t :: Task
  show "\<exists>r. snd (case remove_first (\<lambda>f. frame_start_phys_addr f = a) (alloc_frames (task_resource t)) of
         None \<Rightarrow> (None, t)
       | Some (f, rest) \<Rightarrow> (Some f, t\<lparr>task_resource := (task_resource t)\<lparr>alloc_frames := rest\<rparr>\<rparr>)) =
       t\<lparr>task_resource := r\<rparr>" (is "\<exists>r. snd (case ?x of None \<Rightarrow> _ | Some p \<Rightarrow> _ p) = _")
  proof (cases ?x)
    case None
    then show ?thesis by (intro exI [of _ "task_resource t"]) simp
  next
    case (Some p)
    then show ?thesis by (cases p) auto
  qed
qed

text \<open>The counter does not wrap before \<open>2 ^ 64\<close> tasks have been created.\<close>

lemma spawn_run:
  assumes "current_task s = Some c" and "next_task_id s + 1 < 2 ^ 64"
  shows "spawn_user_task name ctx res s =
    (Ok (next_task_id s), s\<lparr>next_task_id := next_task_id s + 1,
       ready_queue := ready_queue s @ [task_build (next_task_id s) (Some (task_id c)) name ctx res],
       current_task := Some (c\<lparr>task_children := task_children c @ [next_task_id s]\<rparr>)\<rparr>)"
  using assms by (simp add: spawn_user_task_def bind_act_def current_task_id_def task_id_new_def
      sched_spawn_def current_task_mut_def)

lemma spawn_inv:
  assumes inv: "sched_inv s" and "next_task_id s + 1 < 2 ^ 64"
  shows "sched_inv (snd (spawn_user_task name ctx res s))"
proof (cases "current_task s")
  case None
  then show ?thesis using inv by (simp add: spawn_user_task_def bind_act_def current_task_id_def)
next
  case (Some c)
  let ?n = "next_task_id s"
  let ?new = "task_build ?n (Some (task_id c)) name ctx res"
  define s' where "s' = snd (spawn_user_task name ctx res s)"
  have s': "s' = s\<lparr>next_task_id := ?n + 1, ready_queue := ready_queue s @ [?new],
      current_task := Some (c\<lparr>task_children := task_children c @ [?n]\<rparr>)\<rparr>"
    using spawn_run [OF Some assms(2)] by (simp add: s'_def)
  have q: "queue_inv s" and ok: "family_ok (family s)" using inv by (auto simp: sched_inv_def)
  have ids: "\<forall>t\<in>set (all_tasks s). task_id t < ?n" using queue_inv_ids(3) [OF q] by blast
  have old: "?n \<notin> task_id ` set (all_tasks s)" using ids by auto
  have q': "queue_inv s'" unfolding queue_inv_iff
  proof (intro conjI)
    have "all_tasks s = c # ready_queue s @ sleeping_tasks s @ exited_tasks s"
      by (simp add: all_tasks_def live_tasks_def Some)
    then show "distinct (map task_id (live_tasks s' @ exited_tasks s'))"
      using queue_inv_ids(1) [OF q] old by (simp add: s' live_tasks_def task_build_def image_Un)
  qed (use q Some ids in \<open>auto simp: queue_inv_iff s' live_tasks_def all_tasks_def task_build_def less_Suc_eq\<close>)
  have lt: "task_id c < ?n" using ids Some by (simp add: all_tasks_def live_tasks_def)
  have dom: "family s i = Some k \<Longrightarrow> i < ?n" for i k
    using ids kin_of_None [of "live_tasks s" i] by (auto simp: family_def all_tasks_def)
  have "family s' = (family s)(task_id c \<mapsto> (task_parent c, task_children c @ [?n]), ?n \<mapsto> (Some (task_id c), []))"
  proof -
    have "kin_of (ready_queue s) ?n = None" "kin_of (sleeping_tasks s) ?n = None"
      using ids by (auto simp: kin_of_None all_tasks_def live_tasks_def)
    then show ?thesis using lt Some
      by (auto simp: family_def live_tasks_def s' task_build_def kin_def fun_eq_iff map_add_def
          split: option.split)
  qed
  moreover have "family s ?n = None" using dom [of ?n] by (cases "family s ?n") auto
  moreover have "family s (task_id c) = Some (task_parent c, task_children c)"
    by (simp add: family_def live_tasks_def Some kin_def)
  ultimately have "family_ok (family s')" using family_ok_spawn [OF ok _ _ lt] dom by metis
  then show ?thesis using q' by (simp add: sched_inv_def s'_def)
qed

lemma preempt_inv: "sched_inv s \<Longrightarrow> preempt_sched i p s = (old, c, s') \<Longrightarrow> sched_inv s'"
proof -
  let ?f = "\<lambda>t. t\<lparr>task_context := save_context i p (task_context t)\<rparr>"
  let ?s = "s\<lparr>current_task := map_option ?f (current_task s)\<rparr>"
  assume inv: "sched_inv s" and run: "preempt_sched i p s = (old, c, s')"
  have "sched_inv ?s" by (rule current_update_inv [OF inv]) simp
  then have "sched_inv (snd (pick_next_task ?s))" using pick_next_task_inv by (metis prod.collapse)
  then show ?thesis using run drop_exited_inv
    by (auto simp: preempt_sched_def Let_def split: prod.splits)
qed

lemma sched_op_inv: "sched_inv s \<Longrightarrow> sched s = (old, r, s') \<Longrightarrow> sched_inv s'"
  using pick_next_task_inv drop_exited_inv by (auto simp: sched_def split: prod.splits)

lemma sched_init_inv:
  "sched_init name ctx res scheduler_new = (Ok (), s) \<Longrightarrow> sched_inv s"
  by (auto simp: sched_init_def scheduler_new_def bind_act_def task_id_new_def sched_inv_def queue_inv_iff
      family_def live_tasks_def task_build_def bt_get_def kin_def intro!: family_okI split: if_splits)

subsection \<open>Reachable states\<close>

inductive sched_step :: "TaskScheduler \<Rightarrow> TaskScheduler \<Rightarrow> bool" where
  spawns: "next_task_id s + 1 < 2 ^ 64 \<Longrightarrow> spawn_user_task name ctx res s = (Ok i, t) \<Longrightarrow> sched_step s t"
| switches: "sched s = (old, Ok p, t) \<Longrightarrow> sched_step s t"
| preempts: "preempt_sched i p s = (old, c, t) \<Longrightarrow> sched_step s t"
| waits: "sleep_waiting_for child s = (Ok p, t) \<Longrightarrow> sched_step s t"
| exits: "exit_current code s = (Ok p, t) \<Longrightarrow> sched_step s t"
| collects: "take_exit_code i s = (c, t) \<Longrightarrow> sched_step s t"
| changes: "upd_resource f s = (Ok (), t) \<Longrightarrow> sched_step s t"
| frees: "current_remove_mem_frame a s = (Ok x, t) \<Longrightarrow> sched_step s t"

inductive sched_reachable :: "TaskScheduler \<Rightarrow> bool" where
  boot: "sched_init name ctx res scheduler_new = (Ok (), s) \<Longrightarrow> sched_reachable s"
| step: "sched_reachable s \<Longrightarrow> sched_step s t \<Longrightarrow> sched_reachable t"

lemma sched_step_inv: "sched_step s t \<Longrightarrow> sched_inv s \<Longrightarrow> sched_inv t"
proof (induction rule: sched_step.induct)
  case (spawns s name ctx res i t)
  then show ?case using spawn_inv [of s name ctx res] by simp
next
  case (waits child s p t)
  then show ?case using try_sleep_inv [of s child] by simp
next
  case (exits code s p t)
  then show ?case using exit_inv [of s code] by (simp add: exit_current_def)
next
  case (collects i s c t)
  then show ?case using take_exit_code_inv [of s i] by simp
next
  case (changes f s t)
  then show ?case using upd_resource_inv [of s f] by simp
next
  case (frees a s x t)
  then show ?case using remove_mem_frame_inv [of s a] by simp
qed (auto intro: sched_op_inv preempt_inv)

lemma sched_reachable_inv: "sched_reachable s \<Longrightarrow> sched_inv s"
  by (induction rule: sched_reachable.induct) (auto intro: sched_init_inv sched_step_inv)

subsection \<open>Order of execution\<close>

definition run_order :: "TaskScheduler \<Rightarrow> Task list" where
  "run_order s = opt_list (current_task s) @ ready_queue s"

definition picks :: "nat \<Rightarrow> TaskScheduler \<Rightarrow> TaskScheduler" where
  "picks n s = ((\<lambda>s. snd (pick_next_task s)) ^^ n) s"

lemma pick_current: "current_task (snd (pick_next_task s)) = None \<longleftrightarrow> current_task s = None"
  by (simp add: pick_next_task_def Let_def split: option.split list.split)

lemma pick_rotates:
  "current_task s \<noteq> None \<Longrightarrow>
   map task_id (run_order (snd (pick_next_task s))) = rotate1 (map task_id (run_order s))"
  by (auto simp: pick_next_task_def run_order_def Let_def split: option.split list.split)

lemma picks_rotate:
  "current_task s \<noteq> None \<Longrightarrow> map task_id (run_order (picks n s)) = rotate n (map task_id (run_order s)) \<and>
     current_task (picks n s) \<noteq> None"
  by (induction n) (simp_all add: picks_def pick_rotates pick_current del: not_None_eq)

fun preempt_all :: "(InterruptedContext \<times> cpu) list \<Rightarrow> TaskScheduler \<Rightarrow> Context option \<times> TaskScheduler" where
  "preempt_all [] s = (None, s)"
| "preempt_all [(i, p)] s = (case preempt_sched i p s of (_, c, t) \<Rightarrow> (c, t))"
| "preempt_all ((i, p) # x # xs) s = (case preempt_sched i p s of (_, _, t) \<Rightarrow> preempt_all (x # xs) t)"

definition saved :: "Task \<Rightarrow> TaskId \<times> Context" where
  "saved t = (task_id t, task_context t)"

lemma preempt_run:
  assumes "run_order s = t # n # q" and "current_task s = Some t"
  shows "\<exists>old u. preempt_sched i p s = (old, Some (task_context n), u) \<and> current_task u = Some (n\<lparr>task_state := Running\<rparr>) \<and>
    map saved (run_order u) = map saved (n # q) @ [(task_id t, save_context i p (task_context t))]"
  using assms by (auto simp: preempt_sched_def pick_next_task_def run_order_def Let_def saved_def)

lemma preempt_all_runs:
  assumes "map saved (run_order s) = xs @ y # ys" and "current_task s \<noteq> None" and "length is = length xs"
    and "xs \<noteq> []"
  shows "\<exists>u t. preempt_all is s = (Some (snd y), u) \<and> current_task u = Some t \<and> saved t = y"
  using assms
proof (induction "is" s arbitrary: xs ys rule: preempt_all.induct)
  case (1 s)
  then show ?case by simp
next
  case (2 i p s)
  obtain t where t: "current_task s = Some t" using 2(2) by auto
  obtain x where xs: "xs = [x]" using 2(3) by (cases xs) auto
  then obtain n q where ro: "run_order s = t # n # q" "saved n = y"
    using 2(1) t by (cases "ready_queue s") (auto simp: run_order_def)
  from preempt_run [OF ro(1) t, of i p] ro(2) show ?case by (auto simp: saved_def)
next
  case (3 i p b bs s)
  obtain t where t: "current_task s = Some t" using 3(3) by auto
  obtain x1 x2 xs' where xs: "xs = x1 # x2 # xs'" using 3(4) by (cases xs; cases "tl xs") auto
  then obtain n q where ro: "run_order s = t # n # q" "map saved (n # q) = (x2 # xs') @ y # ys"
    using 3(2) t by (cases "ready_queue s") (auto simp: run_order_def)
  from preempt_run [OF ro(1) t, of i p] obtain old u where
    u: "preempt_sched i p s = (old, Some (task_context n), u)" "current_task u \<noteq> None"
      "map saved (run_order u) = (x2 # xs') @ y # (ys @ [(task_id t, save_context i p (task_context t))])"
    using ro(2) by auto
  have "\<exists>v t. preempt_all (b # bs) u = (Some (snd y), v) \<and> current_task v = Some t \<and> saved t = y"
    by (rule 3(1) [OF u(1) [symmetric] refl u(3,2)]) (use 3(4) xs in auto)
  then show ?case using u(1) by simp
qed

subsection \<open>Waiting\<close>

text \<open>The states an exit passes through: the family without the task, then the waiter woken.\<close>

definition after_exit :: "i32 \<Rightarrow> Task \<Rightarrow> TaskScheduler \<Rightarrow> TaskScheduler" where
  "after_exit code c s =
     (let s1 = leave_family c (s\<lparr>current_task := None\<rparr>) in
      s1\<lparr>exited_tasks := [c\<lparr>task_state := Exited code, task_children := []\<rparr>],
         exit_codes := bt_insert (task_id c) code (exit_codes s1)\<rparr>)"

lemma exit_run:
  "current_task s = Some c \<Longrightarrow>
   exit_current code s = bind_act run_next
     (\<lambda>nxt. return_act (c\<lparr>task_state := Exited code, task_children := []\<rparr>, nxt, exited_tasks s))
     (wake_waiter (task_id c) (after_exit code c s))"
  by (simp add: exit_current_def pick_next_task_on_exit_def after_exit_def Let_def)

lemma after_exit_queues [simp]:
  "map key (ready_queue (after_exit code c s)) = map key (ready_queue s)"
  "map key (sleeping_tasks (after_exit code c s)) = map key (sleeping_tasks s)"
  "map task_context (sleeping_tasks (after_exit code c s)) = map task_context (sleeping_tasks s)"
  "exit_codes (after_exit code c s) = bt_insert (task_id c) code (exit_codes s)"
  "next_task_id (after_exit code c s) = next_task_id s"
  by (simp_all add: after_exit_def Let_def)

lemma map_key_ids: "map key xs = map key ys \<Longrightarrow> map task_id xs = map task_id ys"
proof -
  have "map task_id zs = map fst (map key zs)" for zs by simp
  then show "map key xs = map key ys \<Longrightarrow> ?thesis" by metis
qed

lemma take_waiter_found:
  "\<forall>t\<in>set xs. waiting_for t \<noteq> Some i \<Longrightarrow> waiting_for w = Some i \<Longrightarrow>
   take_waiter i (xs @ w # ys) = Some (w, xs @ ys)"
  by (induction xs) auto

lemma map_eq_split:
  "map f zs = map f xs @ f w # map f ys \<Longrightarrow>
   \<exists>xs' w' ys'. zs = xs' @ w' # ys' \<and> map f xs' = map f xs \<and> f w' = f w \<and> map f ys' = map f ys"
proof -
  assume "map f zs = map f xs @ f w # map f ys"
  then obtain us vs where u: "zs = us @ vs" "map f us = map f xs" "map f vs = f w # map f ys"
    by (metis map_eq_append_conv)
  then obtain z vs' where "vs = z # vs'" by (cases vs) auto
  then show ?thesis using u by (intro exI [of _ us] exI [of _ z] exI [of _ vs']) simp
qed

text \<open>The exit with a waiter: it is taken off the sleepers and runs at once.\<close>

lemma exit_with_waiter:
  assumes cur: "current_task s = Some c" and sl: "sleeping_tasks s = xs @ w # ys"
    and w: "waiting_for w = Some (task_id c)" and first: "\<forall>t\<in>set xs. waiting_for t \<noteq> Some (task_id c)"
  shows "\<exists>gone nxt t. exit_current code s = (Ok (gone, nxt, exited_tasks s), t) \<and>
    current_task t = Some nxt \<and> key nxt = (task_id w, Running, None) \<and> task_context nxt = task_context w \<and>
    map key (ready_queue t) = map key (ready_queue s) \<and> map key (sleeping_tasks t) = map key (xs @ ys) \<and>
    exit_codes t = bt_insert (task_id c) code (exit_codes s)"
proof -
  define f where "f t = (key t, task_context t)" for t
  let ?s = "after_exit code c s"
  have "map f (sleeping_tasks ?s) = map f (sleeping_tasks s)"
  proof -
    have "map f zs = zip (map key zs) (map task_context zs)" for zs by (induction zs) (simp_all add: f_def)
    then show ?thesis by simp
  qed
  then have "map f (sleeping_tasks ?s) = map f xs @ f w # map f ys" by (simp add: sl)
  from map_eq_split [OF this] obtain xs' w' ys' where
    sl': "sleeping_tasks ?s = xs' @ w' # ys'" "map f xs' = map f xs" "f w' = f w" "map f ys' = map f ys"
    by blast
  have keys: "map key xs' = map key xs" "map key ys' = map key ys" "key w' = key w" "task_context w' = task_context w"
  proof -
    have k: "map key zs = map fst (map f zs)" for zs by (simp add: f_def comp_def)
    show "map key xs' = map key xs" "map key ys' = map key ys" by (simp_all only: k sl')
    show "key w' = key w" "task_context w' = task_context w" using sl'(3) by (simp_all add: f_def)
  qed
  have w': "waiting_for w' = Some (task_id c)" using keys(3) w by (simp add: key_def)
  have "\<forall>k\<in>set (map key xs'). snd (snd k) \<noteq> Some (task_id c)"
    using first unfolding keys(1) by (simp add: key_def)
  then have first': "\<forall>t\<in>set xs'. waiting_for t \<noteq> Some (task_id c)" by (simp add: key_def)
  show ?thesis
    using keys by (auto simp: exit_run [OF cur] wake_waiter_def sl' take_waiter_found [OF first' w'] run_next_def
        bind_act_def Let_def key_def)
qed

text \<open>A sleeper that waits for a task that is gone: nothing wakes it any more.\<close>

definition lost :: "TaskId \<Rightarrow> TaskId \<Rightarrow> TaskScheduler \<Rightarrow> bool" where
  "lost w c s \<longleftrightarrow> c \<notin> task_id ` set (live_tasks s) \<and> c < next_task_id s \<and>
     (w, Sleeping, Some c) \<in> key ` set (sleeping_tasks s)"

lemma lost_mono:
  "lost w c s \<Longrightarrow> task_id ` set (live_tasks t) \<subseteq> insert (next_task_id s) (task_id ` set (live_tasks s)) \<Longrightarrow>
   next_task_id s \<le> next_task_id t \<Longrightarrow> key ` set (sleeping_tasks s) \<subseteq> key ` set (sleeping_tasks t) \<Longrightarrow> lost w c t"
  unfolding lost_def by auto

lemma pick_live:
  "task_id ` set (live_tasks (snd (pick_next_task s))) = task_id ` set (live_tasks s)"
  "sleeping_tasks (snd (pick_next_task s)) = sleeping_tasks s"
  "next_task_id (snd (pick_next_task s)) = next_task_id s"
  by (auto simp: pick_next_task_def live_tasks_def Let_def image_Un split: option.split list.split)

lemma current_update_live:
  "(\<And>t. task_id (f t) = task_id t) \<Longrightarrow>
   task_id ` set (live_tasks (s\<lparr>current_task := map_option f (current_task s)\<rparr>)) = task_id ` set (live_tasks s)"
  by (cases "current_task s") (simp_all add: live_tasks_def)

lemma run_next_live:
  "task_id ` set (live_tasks (snd (run_next s))) \<subseteq> task_id ` set (live_tasks s)"
  "sleeping_tasks (snd (run_next s)) = sleeping_tasks s"
  "next_task_id (snd (run_next s)) = next_task_id s"
  by (auto simp: run_next_def live_tasks_def Let_def image_Un split: list.split)

lemma exit_lost:
  assumes lost: "lost w c s" and run: "exit_current code s = (Ok p, t)"
  shows "lost w c t"
proof -
  obtain e where e: "current_task s = Some e"
    using run by (cases "current_task s") (auto simp: exit_current_def pick_next_task_on_exit_def)
  let ?a = "after_exit code e s"
  let ?b = "wake_waiter (task_id e) ?a"
  have t: "t = snd (run_next ?b)"
    using arg_cong [OF run, of snd] by (simp add: exit_run [OF e] bind_return_snd)
  have ids: "task_id ` set (ready_queue ?a) = task_id ` set (ready_queue s)"
    "task_id ` set (sleeping_tasks ?a) = task_id ` set (sleeping_tasks s)"
    using arg_cong [OF map_key_ids, of _ _ set] after_exit_queues(1,2) [of code e s] by (metis list.set_map)+
  have "current_task ?a = None" using no_current_queues [of e "s\<lparr>current_task := None\<rparr>"]
    by (simp add: after_exit_def Let_def)
  then have live: "task_id ` set (live_tasks ?a) \<subseteq> task_id ` set (live_tasks s)"
    using ids e by (auto simp: live_tasks_def image_Un)
  have ne: "task_id e \<noteq> c" using lost e by (auto simp: lost_def live_tasks_def)
  have keys: "key ` set (sleeping_tasks ?a) = key ` set (sleeping_tasks s)"
    using after_exit_queues(2) [of code e s] by (metis list.set_map)
  have b: "task_id ` set (live_tasks ?b) \<subseteq> task_id ` set (live_tasks ?a) \<and> next_task_id ?b = next_task_id s \<and>
     (w, Sleeping, Some c) \<in> key ` set (sleeping_tasks ?b)"
  proof (cases "take_waiter (task_id e) (sleeping_tasks ?a)")
    case None
    then show ?thesis using lost keys by (simp add: wake_waiter_def lost_def)
  next
    case (Some q)
    obtain v rest where q: "q = (v, rest)" by (cases q)
    obtain xs ys where v: "sleeping_tasks ?a = xs @ v # ys" "rest = xs @ ys" "waiting_for v = Some (task_id e)"
      using take_waiter_Some Some unfolding q by blast
    have "key v \<noteq> (w, Sleeping, Some c)" using v(3) ne by (simp add: key_def)
    moreover have "(w, Sleeping, Some c) \<in> key ` set (sleeping_tasks ?a)" using lost keys by (simp add: lost_def)
    ultimately have "(w, Sleeping, Some c) \<in> key ` set rest" using v(1,2) by auto
    then show ?thesis using Some q v(1,2) by (auto simp: wake_waiter_def live_tasks_def)
  qed
  have "c \<notin> task_id ` set (live_tasks s)" "c < next_task_id s" using lost by (simp_all add: lost_def)
  then have "c \<notin> task_id ` set (live_tasks (snd (run_next ?b)))"
    using subsetD [OF order_trans [OF run_next_live(1) order_trans [OF conjunct1 [OF b] live]]] by metis
  then show ?thesis unfolding t lost_def run_next_live(2,3) using b \<open>c < next_task_id s\<close> by simp
qed

lemma step_lost: "sched_step s t \<Longrightarrow> lost w c s \<Longrightarrow> lost w c t"
proof (induction rule: sched_step.induct)
  case (spawns s name ctx res i t)
  then obtain e where e: "current_task s = Some e"
    by (cases "current_task s") (auto simp: spawn_user_task_def bind_act_def current_task_id_def)
  have "t = s\<lparr>next_task_id := next_task_id s + 1,
       ready_queue := ready_queue s @ [task_build (next_task_id s) (Some (task_id e)) name ctx res],
       current_task := Some (e\<lparr>task_children := task_children e @ [next_task_id s]\<rparr>)\<rparr>"
    using spawns(2) by (auto simp: spawn_run [OF e spawns(1)])
  then show ?case using e by (intro lost_mono [OF spawns(3)]) (auto simp: live_tasks_def task_build_def)
next
  case (switches s old p t)
  then have "t = (snd (pick_next_task s))\<lparr>exited_tasks := []\<rparr>" by (auto simp: sched_def split: prod.splits)
  then show ?case using pick_live [of s]
    by (intro lost_mono [OF switches(2)]) (auto simp: live_tasks_def)
next
  case (preempts i p s old ctx t)
  let ?s = "s\<lparr>current_task := map_option (\<lambda>t. t\<lparr>task_context := save_context i p (task_context t)\<rparr>) (current_task s)\<rparr>"
  have t: "t = (snd (pick_next_task ?s))\<lparr>exited_tasks := []\<rparr>"
    using preempts(1) by (auto simp: preempt_sched_def Let_def split: prod.splits)
  have "task_id ` set (live_tasks ?s) = task_id ` set (live_tasks s)"
    by (rule current_update_live) simp
  then show ?case using pick_live [of ?s] t
    by (intro lost_mono [OF preempts(2)]) (auto simp: live_tasks_def)
next
  case (waits child s p t)
  show ?case
  proof (cases "bt_contains_key (exit_codes s) child")
    case True
    then show ?thesis using waits by (simp add: sleep_waiting_for_def try_sleep_current_waiting_for_def)
  next
    case False
    then obtain e where e: "current_task s = Some e" using waits(1)
      by (cases "current_task s") (auto simp: sleep_waiting_for_def try_sleep_current_waiting_for_def
          sleep_current_waiting_for_def bind_act_def)
    let ?s = "s\<lparr>current_task := None, sleeping_tasks := sleeping_tasks s @ [e\<lparr>waiting_for := Some child, task_state := Sleeping\<rparr>]\<rparr>"
    have t: "t = snd (run_next ?s)"
      using arg_cong [OF waits(1), of snd] False
      by (simp add: sleep_waiting_for_def try_sleep_current_waiting_for_def sleep_current_waiting_for_def
          e Let_def bind_return_snd)
    have "task_id ` set (live_tasks ?s) = task_id ` set (live_tasks s)" using e by (auto simp: live_tasks_def)
    then show ?thesis
      unfolding t using run_next_live [of ?s] by (intro lost_mono [OF waits(2)]) auto
  qed
next
  case (exits code s p t)
  then show ?case using exit_lost by blast
next
  case (collects i s x t)
  then show ?case by (auto simp: take_exit_code_def lost_def live_tasks_def)
next
  case (changes f s t)
  have "t = snd (upd_resource f s)" using changes(1) by simp
  then show ?case
    using current_update_live [of "\<lambda>t. t\<lparr>task_resource := f (task_resource t)\<rparr>" s]
    by (intro lost_mono [OF changes(2)]) (auto simp: upd_resource_def current_task_mut_snd)
next
  case (frees a s x t)
  let ?f = "\<lambda>t. snd (case remove_first (\<lambda>f. frame_start_phys_addr f = a) (alloc_frames (task_resource t)) of
       None \<Rightarrow> (None, t)
     | Some (f, rest) \<Rightarrow> (Some f, t\<lparr>task_resource := (task_resource t)\<lparr>alloc_frames := rest\<rparr>\<rparr>))"
  have t: "t = s\<lparr>current_task := map_option ?f (current_task s)\<rparr>"
    using arg_cong [OF frees(1), of snd] by (simp add: remove_mem_frame_snd current_task_mut_snd)
  have "task_id ` set (live_tasks t) = task_id ` set (live_tasks s)"
    unfolding t by (rule current_update_live) (simp split: option.split prod.split)
  then show ?case by (intro lost_mono [OF frees(2)]) (auto simp: t)
qed

lemma steps_lost: "sched_step\<^sup>*\<^sup>* s t \<Longrightarrow> lost w c s \<Longrightarrow> lost w c t"
  by (induction rule: rtranclp_induct) (auto intro: step_lost)

lemma exited_is_lost:
  assumes inv: "sched_inv s" and cur: "current_task s = Some c" and sl: "sleeping_tasks s = xs @ w # ys"
    and w: "waiting_for w = Some (task_id c)" and first: "\<forall>t\<in>set xs. waiting_for t \<noteq> Some (task_id c)"
    and v: "v \<in> set ys" "waiting_for v = Some (task_id c)" and run: "exit_current code s = (Ok p, t)"
  shows "lost (task_id v) (task_id c) t"
proof -
  obtain nxt where t: "map key (sleeping_tasks t) = map key (xs @ ys)"
      "exit_codes t = bt_insert (task_id c) code (exit_codes s)"
    using exit_with_waiter [OF cur sl w first, of code] run by auto
  have q: "queue_inv t" using exit_inv [OF inv, of code] run by (simp add: exit_current_def sched_inv_def)
  have "bt_get (exit_codes t) (task_id c) = Some code" by (simp add: t(2))
  then have c: "task_id c < next_task_id t" "task_id c \<notin> task_id ` set (live_tasks t)"
    using q by (simp_all add: queue_inv_iff)
  have "task_state v = Sleeping"
    using inv sl v(1) by (auto simp: sched_inv_def queue_inv_iff)
  then have "key v = (task_id v, Sleeping, Some (task_id c))" using v(2) by (simp add: key_def)
  moreover have "key v \<in> key ` set (sleeping_tasks t)" using t(1) v(1) by (metis Un_iff imageI list.set_map set_append)
  ultimately show ?thesis using c by (simp add: lost_def)
qed

subsection \<open>A small run\<close>

text \<open>The kernel task spawns two tasks; it and the second one wait for the first.\<close>

definition demo_res :: TaskResource where
  "demo_res = resource_new \<lparr>pml4_frame = None, allocated_frames = []\<rparr> None None [] [None, None, None]"

definition demo_task :: "TaskId \<Rightarrow> TaskId option \<Rightarrow> TaskState \<Rightarrow> TaskId option \<Rightarrow> TaskId list \<Rightarrow> Task" where
  "demo_task i p st w cs = \<lparr>task_id = i, task_name = ''t'', task_state = st, task_context = context_new,
     task_resource = demo_res, waiting_for = w, task_parent = p, task_children = cs\<rparr>"

definition demo_sched :: "Task list \<Rightarrow> Task \<Rightarrow> Task list \<Rightarrow> TaskId \<Rightarrow> TaskScheduler" where
  "demo_sched r c sl n = \<lparr>ready_queue = r, current_task = Some c, exited_tasks = [], sleeping_tasks = sl,
     exit_codes = [], next_task_id = n\<rparr>"

lemmas demo_simps = Let_def demo_task_def demo_sched_def bind_act_def task_build_def

lemma demo_boot:
  "sched_init ''t'' context_new demo_res scheduler_new = (Ok (), demo_sched [] (demo_task 0 None Running None []) [] 1)"
  by (simp add: sched_init_def demo_simps scheduler_new_def task_id_new_def)

definition demo_ready :: TaskScheduler where
  "demo_ready = demo_sched [demo_task 1 (Some 0) Ready None [], demo_task 2 (Some 0) Ready None []]
     (demo_task 0 None Running None [1, 2]) [] 3"

lemma demo_ready_reachable: "sched_reachable demo_ready"
proof -
  let ?s1 = "demo_sched [demo_task 1 (Some 0) Ready None []] (demo_task 0 None Running None [1]) [] 2"
  have "sched_reachable (demo_sched [] (demo_task 0 None Running None []) [] 1)"
    by (rule sched_reachable.boot [OF demo_boot])
  moreover have "sched_step (demo_sched [] (demo_task 0 None Running None []) [] 1) ?s1"
    by (rule sched_step.spawns [of _ "''t''" context_new demo_res])
      (simp_all add: demo_simps spawn_user_task_def current_task_id_def task_id_new_def sched_spawn_def
        current_task_mut_def)
  ultimately have "sched_reachable ?s1" by (rule sched_reachable.step)
  moreover have "sched_step ?s1 demo_ready"
    by (rule sched_step.spawns [of _ "''t''" context_new demo_res])
      (simp_all add: demo_simps demo_ready_def spawn_user_task_def current_task_id_def task_id_new_def
        sched_spawn_def current_task_mut_def)
  ultimately show ?thesis by (rule sched_reachable.step)
qed

definition demo_waiting :: TaskScheduler where
  "demo_waiting = demo_sched [] (demo_task 1 (Some 0) Running None [])
     [demo_task 0 None Sleeping (Some 1) [1, 2], demo_task 2 (Some 0) Sleeping (Some 1) []] 3"

lemma demo_waiting_reachable: "sched_reachable demo_waiting"
proof -
  let ?s1 = "demo_sched [demo_task 2 (Some 0) Ready None []] (demo_task 1 (Some 0) Running None [])
    [demo_task 0 None Sleeping (Some 1) [1, 2]] 3"
  let ?s2 = "demo_sched [demo_task 1 (Some 0) Ready None []] (demo_task 2 (Some 0) Running None [])
    [demo_task 0 None Sleeping (Some 1) [1, 2]] 3"
  note sleeping = sleep_waiting_for_def try_sleep_current_waiting_for_def sleep_current_waiting_for_def
    run_next_def bt_contains_key_def bt_get_def
  have "sched_step demo_ready ?s1"
    by (rule sched_step.waits [of 1]) (simp add: sleeping demo_simps demo_ready_def)
  then have "sched_reachable ?s1" using demo_ready_reachable sched_reachable.step by blast
  moreover have "sched_step ?s1 ?s2"
    by (rule sched_step.switches) (simp add: sched_def pick_next_task_def demo_simps)
  ultimately have "sched_reachable ?s2" by (rule sched_reachable.step)
  moreover have "sched_step ?s2 demo_waiting"
    by (rule sched_step.waits [of 1]) (simp add: sleeping demo_simps demo_waiting_def)
  ultimately show ?thesis by (rule sched_reachable.step)
qed

subsection \<open>Properties\<close>

text \<open>C17: In every state the scheduler reaches, no task id occurs twice, every task is in the queue of its
  state (one running task at most, ready tasks in the ready queue, sleepers among the sleeping tasks, and
  only these wait for a task), an id below the counter is never used again, and no task that is alive has
  an exit code.\<close>

theorem scheduler_consistent:
  assumes "sched_reachable s"
  shows "distinct (task_ids s @ map task_id (exited_tasks s)) \<and>
    (\<forall>t\<in>set (opt_list (current_task s)). task_state t = Running \<and> waiting_for t = None) \<and>
    (\<forall>t\<in>set (ready_queue s). task_state t = Ready \<and> waiting_for t = None) \<and>
    (\<forall>t\<in>set (sleeping_tasks s). task_state t = Sleeping \<and> waiting_for t \<noteq> None) \<and>
    (\<forall>t\<in>set (exited_tasks s). \<exists>c. task_state t = Exited c) \<and>
    (\<forall>i\<in>set (task_ids s). i < next_task_id s \<and> fst (take_exit_code i s) = None)"
proof -
  have q: "queue_inv s" using sched_reachable_inv [OF assms] by (simp add: sched_inv_def)
  have "set (task_ids s) = task_id ` set (live_tasks s)" by (auto simp: task_ids_def live_tasks_def)
  moreover have "distinct (task_ids s @ map task_id (exited_tasks s))"
    using queue_inv_ids(1) [OF q] by (auto simp: task_ids_def all_tasks_def live_tasks_def)
  ultimately show ?thesis
    using q queue_inv_ids(3,4) [OF q] unfolding queue_inv_iff take_exit_code_def all_tasks_def by auto
qed

theorem scheduler_consistent_witness: "distinct (task_ids demo_waiting @ map task_id (exited_tasks demo_waiting))"
  using scheduler_consistent [OF demo_waiting_reachable] by blast



text \<open>C19: Scheduling is round robin: after \<open>n\<close> switches the running task followed by the ready queue is the
  old order rotated by \<open>n\<close>. So after as many switches as there are runnable tasks each of them has run
  exactly once and the order is the one before.\<close>

theorem round_robin:
  assumes "current_task s \<noteq> None"
  shows "map task_id (run_order (picks n s)) = rotate n (map task_id (run_order s)) \<and>
    map task_id (run_order (picks (length (run_order s)) s)) = map task_id (run_order s) \<and>
    (i < length (run_order s) \<longrightarrow> current_task_id (picks i s) = Some (task_id (run_order s ! i)))"
proof -
  have "current_task_id (picks i s) = Some (task_id (run_order s ! i))" if "i < length (run_order s)"
  proof -
    obtain t where t: "current_task (picks i s) = Some t" using picks_rotate [OF assms, of i] by auto
    then have "task_id t = hd (map task_id (run_order (picks i s)))" by (simp add: run_order_def)
    also have "\<dots> = map task_id (run_order s) ! i"
      using picks_rotate [OF assms, of i] that hd_rotate_conv_nth [of "map task_id (run_order s)" i] by (cases "run_order s") auto
    finally show ?thesis using t that by (simp add: current_task_id_def)
  qed
  then show ?thesis using picks_rotate [OF assms] by (metis length_map rotate_id mod_self)
qed

theorem round_robin_witness: "current_task_id (picks 2 demo_ready) = Some 2"
  using round_robin [of demo_ready 0 2]
  by (simp add: demo_ready_def demo_sched_def run_order_def) (simp add: demo_task_def)

text \<open>C20: A task that the timer interrupts gets its registers back: when as many further interrupts have
  passed as there were ready tasks, the context to restore is the one saved for that task, with every
  general register, the flags, the segments, the page table and the floating-point state it had.\<close>

theorem preempted_task_resumes:
  assumes "current_task s = Some t" and "length ints = length (ready_queue s)" and "ready_queue s \<noteq> []"
  shows "\<exists>u v. preempt_all ((i, p) # ints) s = (Some (save_context i p (task_context t)), u) \<and>
    current_task u = Some v \<and> task_id v = task_id t"
proof -
  obtain n q where q: "ready_queue s = n # q" using assms(3) by (cases "ready_queue s") auto
  have ro: "run_order s = t # n # q" by (simp add: run_order_def assms(1) q)
  obtain old u where u: "preempt_sched i p s = (old, Some (task_context n), u)"
    "current_task u = Some (n\<lparr>task_state := Running\<rparr>)"
    "map saved (run_order u) = map saved (n # q) @ [(task_id t, save_context i p (task_context t))]"
    using preempt_run [OF ro assms(1)] by blast
  have "\<exists>v w. preempt_all ints u = (Some (snd (task_id t, save_context i p (task_context t))), v) \<and>
      current_task v = Some w \<and> saved w = (task_id t, save_context i p (task_context t))"
    by (rule preempt_all_runs [OF u(3)]) (use assms q u(2) in auto)
  then obtain v w where v: "preempt_all ints u = (Some (save_context i p (task_context t)), v)"
    "current_task v = Some w" "saved w = (task_id t, save_context i p (task_context t))" by auto
  obtain b bs where "ints = b # bs" using assms(2) q by (cases ints) auto
  then show ?thesis using u(1) v by (simp add: saved_def)
qed

theorem preempted_task_resumes_witness:
  "\<forall>i j k p. \<exists>u v. preempt_all [(i, p), (j, p), (k, p)] demo_ready = (Some (save_context i p context_new), u) \<and>
     current_task u = Some v \<and> task_id v = 0"
proof (intro allI)
  fix i j k p
  show "\<exists>u v. preempt_all [(i, p), (j, p), (k, p)] demo_ready = (Some (save_context i p context_new), u) \<and>
     current_task u = Some v \<and> task_id v = 0"
    using preempted_task_resumes [of demo_ready "demo_task 0 None Running None [1, 2]" "[(j, p), (k, p)]" i p]
    by (simp add: demo_ready_def demo_sched_def) (simp add: demo_task_def)
qed

text \<open>C21: When a task exits that another waits for, the first waiter in the sleeping order is woken and runs
  next, with the context it slept with and ahead of every ready task, and finds the exit code; a task
  that starts to wait later does not sleep but finds the code at once.\<close>

theorem exit_wakes_waiter:
  assumes "current_task s = Some c" and "sleeping_tasks s = xs @ w # ys"
    and "waiting_for w = Some (task_id c)" and "\<forall>t\<in>set xs. waiting_for t \<noteq> Some (task_id c)"
  shows "\<exists>gone nxt t. exit_current code s = (Ok (gone, nxt, exited_tasks s), t) \<and>
    current_task t = Some nxt \<and> task_id nxt = task_id w \<and> task_state nxt = Running \<and>
    task_context nxt = task_context w \<and> map task_id (ready_queue t) = map task_id (ready_queue s) \<and>
    fst (take_exit_code (task_id c) t) = Some code \<and> sleep_waiting_for (task_id c) t = (Ok None, t)"
proof -
  obtain gone nxt t where t: "exit_current code s = (Ok (gone, nxt, exited_tasks s), t)"
    "current_task t = Some nxt" "key nxt = (task_id w, Running, None)" "task_context nxt = task_context w"
    "map key (ready_queue t) = map key (ready_queue s)"
    "exit_codes t = bt_insert (task_id c) code (exit_codes s)"
    using exit_with_waiter [OF assms, of code] by blast
  have "bt_get (exit_codes t) (task_id c) = Some code" by (simp add: t(6))
  then have "fst (take_exit_code (task_id c) t) = Some code" "sleep_waiting_for (task_id c) t = (Ok None, t)"
    by (simp_all add: take_exit_code_def sleep_waiting_for_def try_sleep_current_waiting_for_def bt_contains_key_def)
  then show ?thesis using t map_key_ids [OF t(5)] by (auto simp: key_def)
qed

theorem exit_wakes_waiter_witness:
  "\<exists>gone nxt t. exit_current 7 demo_waiting = (Ok (gone, nxt, []), t) \<and> current_task t = Some nxt \<and>
     task_id nxt = 0 \<and> fst (take_exit_code 1 t) = Some 7"
  using exit_wakes_waiter [of demo_waiting "demo_task 1 (Some 0) Running None []" "[]"
      "demo_task 0 None Sleeping (Some 1) [1, 2]" "[demo_task 2 (Some 0) Sleeping (Some 1) []]" 7]
  by (auto simp: demo_waiting_def demo_sched_def demo_task_def)

text \<open>Only one waiter is woken. A second task that waits for the same child is still asleep in every
  state the scheduler reaches after the exit.\<close>

theorem second_waiter_never_wakes:
  assumes "sched_reachable s" and "current_task s = Some c" and "sleeping_tasks s = xs @ w # ys"
    and "waiting_for w = Some (task_id c)" and "\<forall>t\<in>set xs. waiting_for t \<noteq> Some (task_id c)"
    and "v \<in> set ys" and "waiting_for v = Some (task_id c)"
    and "exit_current code s = (Ok p, t)" and "sched_step\<^sup>*\<^sup>* t u"
  shows "task_id v \<in> task_id ` set (sleeping_tasks u)"
proof -
  have "lost (task_id v) (task_id c) u"
    using steps_lost [OF assms(9) exited_is_lost [OF sched_reachable_inv [OF assms(1)] assms(2-8)]] .
  then show ?thesis by (force simp: lost_def key_def)
qed

theorem second_waiter_never_wakes_witness:
  "\<exists>p t. exit_current 7 demo_waiting = (Ok p, t) \<and> (\<forall>u. sched_step\<^sup>*\<^sup>* t u \<longrightarrow> 2 \<in> task_id ` set (sleeping_tasks u))"
proof -
  let ?c = "demo_task 1 (Some 0) Running None []" and ?w = "demo_task 0 None Sleeping (Some 1) [1, 2]"
  let ?v = "demo_task 2 (Some 0) Sleeping (Some 1) []"
  have s: "current_task demo_waiting = Some ?c" "sleeping_tasks demo_waiting = [] @ ?w # [?v]"
    "waiting_for ?w = Some (task_id ?c)" "\<forall>t\<in>set []. waiting_for t \<noteq> Some (task_id ?c)"
    "?v \<in> set [?v]" "waiting_for ?v = Some (task_id ?c)"
    by (simp_all add: demo_waiting_def demo_sched_def) (simp_all add: demo_task_def)
  obtain p t where t: "exit_current 7 demo_waiting = (Ok p, t)"
    using exit_with_waiter [OF s(1-4)] by blast
  moreover have "task_id ?v = 2" by (simp add: demo_task_def)
  ultimately show ?thesis
    using second_waiter_never_wakes [OF demo_waiting_reachable s t] by metis
qed

end
