(* ===== verification/Procfs.thy ===== *)
theory Procfs
  imports Mounted Scheduler
begin

text \<open>
  The process file system, kernel/src/fs/procfs.rs, mounted at \<open>/proc\<close>. Its files are made from the scheduler's
  state and the time since start when they are read; both are part of the state \<open>'w\<close> behind the file system and
  are given by two functions. Strings are UTF-8 bytes, as in the paths.
\<close>

datatype ProcNode = ProcRoot | Uptime | TaskDir TaskId | TaskStatus TaskId

abbreviation no_such :: "path option \<Rightarrow> kerror" where
  "no_such p \<equiv> from_error (VfsError (NoSuchFileOrDirectory p))"

definition as_bytes :: "string \<Rightarrow> u8 list" where
  "as_bytes s = map (\<lambda>c. word_of_nat (of_char c)) s"

text \<open>\<open>{:02}\<close> and the \<open>Display\<close> of an \<open>i32\<close>.\<close>

definition show_02 :: "nat \<Rightarrow> string" where
  "show_02 n = (let s = show_nat n in replicate (2 - length s) CHR ''0'' @ s)"

definition show_i32 :: "i32 \<Rightarrow> string" where
  "show_i32 c = (if sint c < 0 then ''-'' @ show_nat (nat (- sint c)) else show_nat (nat (sint c)))"

fun show_state :: "TaskState \<Rightarrow> string" where
  "show_state Running = ''Running''"
| "show_state Ready = ''Ready''"
| "show_state Sleeping = ''Sleeping''"
| "show_state (Exited code) = ''Exited('' @ show_i32 code @ '')''"

abbreviation TAB :: string where "TAB \<equiv> [CHR 0x09]"
abbreviation NEWLINE :: string where "NEWLINE \<equiv> [CHR 0x0A]"

definition uptime_text :: "nat \<Rightarrow> string" where
  "uptime_text ms = show_nat (ms div 1000) @ ''.'' @ show_02 (ms mod 1000 div 10) @ NEWLINE"

definition status_text :: "TaskSnapshot \<Rightarrow> string" where
  "status_text t =
     ''Name:'' @ TAB @ snap_name t @ NEWLINE @
     ''Pid:'' @ TAB @ show_nat (snap_id t) @ NEWLINE @
     ''PPid:'' @ TAB @ (case snap_parent t of None \<Rightarrow> ''-'' | Some p \<Rightarrow> show_nat p) @ NEWLINE @
     ''State:'' @ TAB @ show_state (snap_state t) @ NEWLINE"

definition node_read :: "TaskScheduler \<Rightarrow> nat \<Rightarrow> ProcNode \<Rightarrow> kerror + u8 list" where
  "node_read s ms node =
     (case node of
        ProcRoot \<Rightarrow> Inl (from_error (VfsError (NotFile None)))
      | Uptime \<Rightarrow> Inr (as_bytes (uptime_text ms))
      | TaskDir i \<Rightarrow> Inl (from_error (VfsError (NotFile None)))
      | TaskStatus i \<Rightarrow>
          (case task_snapshot i s of
             None \<Rightarrow> Inl (no_such None)
           | Some t \<Rightarrow> Inr (as_bytes (status_text t))))"

definition node_write :: "ProcNode \<Rightarrow> u8 list \<Rightarrow> kerror + unit" where
  "node_write node data = Inl (from_error (VfsError (ReadOnly None)))"

definition node_metadata :: "ProcNode \<Rightarrow> FsMetaData" where
  "node_metadata node =
     (case node of
        ProcRoot \<Rightarrow> \<lparr>meta_type = FsDirectory, meta_size = 0\<rparr>
      | Uptime \<Rightarrow> \<lparr>meta_type = FsFile, meta_size = 0\<rparr>
      | TaskDir i \<Rightarrow> \<lparr>meta_type = FsDirectory, meta_size = 0\<rparr>
      | TaskStatus i \<Rightarrow> \<lparr>meta_type = FsFile, meta_size = 0\<rparr>)"

text \<open>\<open>str::parse::<usize>\<close>: digits, with an optional plus sign in front; no more than 64 bits.\<close>

definition digit :: "char \<Rightarrow> bool" where
  "digit c \<longleftrightarrow> 48 \<le> (of_char c :: nat) \<and> (of_char c :: nat) \<le> 57"

definition digits_value :: "string \<Rightarrow> nat" where
  "digits_value s = foldl (\<lambda>n c. n * 10 + (of_char c - 48)) 0 s"

definition parse_usize :: "string \<Rightarrow> nat option" where
  "parse_usize s =
     (let ds = (if s \<noteq> [] \<and> hd s = CHR ''+'' then tl s else s) in
      if ds = [] \<or> \<not> list_all digit ds \<or> USIZE_MAX < digits_value ds then None else Some (digits_value ds))"

definition resolve_task_id :: "TaskScheduler \<Rightarrow> string \<Rightarrow> path \<Rightarrow> kerror + TaskId" where
  "resolve_task_id sch s p =
     (if s = ''self'' then (case current_task_id sch of Some i \<Rightarrow> Inr i | None \<Rightarrow> Inl (no_such (Some p)))
      else
        (case parse_usize s of
           None \<Rightarrow> Inl (no_such (Some p))
         | Some i \<Rightarrow> if task_snapshot i sch = None then Inl (no_such (Some p)) else Inr i))"

fun result_then :: "kerror + 'a \<Rightarrow> ('a \<Rightarrow> kerror + 'b) \<Rightarrow> kerror + 'b" where
  "result_then (Inl e) f = Inl e"
| "result_then (Inr x) f = f x"

definition path_to_node :: "TaskScheduler \<Rightarrow> path \<Rightarrow> kerror + ProcNode" where
  "path_to_node sch p =
     (case names p of
        [] \<Rightarrow> Inr ProcRoot
      | [pid] \<Rightarrow>
          if pid = ''uptime'' then Inr Uptime
          else result_then (resolve_task_id sch pid p) (\<lambda>i. Inr (TaskDir i))
      | [pid, n] \<Rightarrow>
          if n = ''status'' then result_then (resolve_task_id sch pid p) (\<lambda>i. Inr (TaskStatus i))
          else Inl (no_such (Some p))
      | _ \<Rightarrow> Inl (no_such (Some p)))"

definition proc_read_entry_names :: "TaskScheduler \<Rightarrow> path \<Rightarrow> kerror + string list" where
  "proc_read_entry_names sch p =
     result_then (path_to_node sch (normalize p)) (\<lambda>node.
       case node of
         ProcRoot \<Rightarrow> Inr ([''uptime'', ''self''] @ map show_nat (sort (task_ids sch)))
       | TaskDir i \<Rightarrow> Inr [''status'']
       | _ \<Rightarrow> Inl (from_error (VfsError (NotDirectory (Some p)))))"

text \<open>The slice of \<open>read_file\<close> has its bounds cut to the length and cannot fail.\<close>

definition proc_read_file :: "TaskScheduler \<Rightarrow> nat \<Rightarrow> path \<Rightarrow> nat \<Rightarrow> nat \<Rightarrow> kerror + u8 list" where
  "proc_read_file sch ms p offset max_len =
     result_then (path_to_node sch (normalize p)) (\<lambda>node.
     result_then (node_read sch ms node) (\<lambda>bytes.
       case window bytes offset max_len of (start, stop) \<Rightarrow> Inr (take (stop - start) (drop start bytes))))"

definition proc_write_file :: "TaskScheduler \<Rightarrow> path \<Rightarrow> u8 list \<Rightarrow> kerror + unit" where
  "proc_write_file sch p data = result_then (path_to_node sch (normalize p)) (\<lambda>node. node_write node data)"

definition proc_metadata :: "TaskScheduler \<Rightarrow> path \<Rightarrow> kerror + FsMetaData" where
  "proc_metadata sch p = result_then (path_to_node sch (normalize p)) (\<lambda>node. Inr (node_metadata node))"

definition proc_fs :: "('w \<Rightarrow> TaskScheduler) \<Rightarrow> ('w \<Rightarrow> nat) \<Rightarrow> 'w FileSystem" where
  "proc_fs sched_of uptime_of = \<lparr>
     fs_read_entry_names = (\<lambda>w p. proc_read_entry_names (sched_of w) p),
     fs_read_file = (\<lambda>w p offset max_len. proc_read_file (sched_of w) (uptime_of w) p offset max_len),
     fs_write_file = (\<lambda>p offset data w. (proc_write_file (sched_of w) p data, w)),
     fs_metadata = (\<lambda>w p. proc_metadata (sched_of w) p)\<rparr>"

subsection \<open>Numbers as names\<close>

lemma of_char_digit: "n < 10 \<Longrightarrow> of_char (char_of (48 + n) :: char) = 48 + (n :: nat)"
  by simp

lemma digits_value_snoc: "digits_value (s @ [c]) = digits_value s * 10 + (of_char c - 48)"
  by (simp add: digits_value_def)

lemma show_nat_digits: "show_nat n \<noteq> [] \<and> list_all digit (show_nat n) \<and> digits_value (show_nat n) = n"
proof (induction n rule: show_nat.induct)
  case (1 n)
  show ?case
  proof (cases "n < 10")
    case True
    then have "of_char (char_of (48 + n) :: char) = 48 + n" by (rule of_char_digit)
    then show ?thesis using True by (simp add: show_nat.simps [of n] digit_def digits_value_def)
  next
    case False
    have "of_char (char_of (48 + n mod 10) :: char) = 48 + n mod 10" by (rule of_char_digit) simp
    then show ?thesis using False 1 by (simp add: show_nat.simps [of n] digit_def digits_value_snoc)
  qed
qed

lemma parse_show: "n \<le> USIZE_MAX \<Longrightarrow> parse_usize (show_nat n) = Some n"
proof -
  assume n: "n \<le> USIZE_MAX"
  have "hd (show_nat n) \<noteq> CHR ''+''" using show_nat_digits [of n] by (cases "show_nat n") (auto simp: digit_def)
  then show ?thesis using show_nat_digits [of n] n by (auto simp: parse_usize_def Let_def)
qed

lemma digit_chars: "digit c \<Longrightarrow> c \<noteq> SEPARATOR \<and> c \<noteq> CHR ''.'' \<and> c \<noteq> CHR ''s'' \<and> c \<noteq> CHR ''u''"
  by (auto simp: digit_def)

lemma show_nat_name: "component (show_nat n) \<and> plain_name (show_nat n) \<and> show_nat n \<noteq> ''self'' \<and> show_nat n \<noteq> ''uptime''"
proof -
  obtain c cs where s: "show_nat n = c # cs" "digit c" "list_all digit cs" using show_nat_digits [of n] by (cases "show_nat n") auto
  then have "SEPARATOR \<notin> set (show_nat n)" using digit_chars by (auto simp: list_all_iff)
  then show ?thesis using s digit_chars [OF s(2)] by (auto simp: component_def plain_name_def)
qed

subsection \<open>The files\<close>

lemma names_plain_path:
  assumes "\<forall>n\<in>set ns. component n \<and> plain_name n"
  shows "names (normalize (ROOT @ join_with ROOT ns)) = ns"
proof -
  have "names (ROOT @ join_with ROOT ns) = ns" using assms by (intro names_join_root) blast
  then show ?thesis using norm_parts_walk [of "ROOT @ join_with ROOT ns"] walk_plain [of ns "[]"] assms
    by (simp add: names_normalize is_abs_Cons)
qed

definition snapshot_of :: "Task \<Rightarrow> TaskSnapshot" where
  "snapshot_of t = \<lparr>snap_id = task_id t, snap_name = task_name t, snap_state = task_state t, snap_parent = task_parent t\<rparr>"

lemma find_task_find: "find_task i s = find (has_id i) (live_tasks s)"
  by (simp add: find_task_def live_tasks_def find_append split: option.splits)

lemma task_snapshot_live:
  assumes "queue_inv s" and "t \<in> set (live_tasks s)"
  shows "task_snapshot (task_id t) s = Some (snapshot_of t)"
proof -
  obtain u where u: "find (has_id (task_id t)) (live_tasks s) = Some u"
    using assms(2) by (cases "find (has_id (task_id t)) (live_tasks s)") (auto simp: find_None_iff has_id_def)
  then have "u \<in> set (live_tasks s)" "task_id u = task_id t" by (auto simp: find_Some_iff has_id_def)
  then have "u = t" using queue_inv_ids(2) [OF assms(1)] assms(2) by (auto simp: distinct_map dest: inj_onD)
  then show ?thesis using u by (simp add: task_snapshot_def find_task_find snapshot_of_def)
qed

lemma task_snapshot_gone: "i \<notin> task_id ` set (live_tasks s) \<Longrightarrow> task_snapshot i s = None"
  by (auto simp: task_snapshot_def find_task_find find_None_iff has_id_def)

lemma task_ids_live:
  "set (task_ids s) = task_id ` set (live_tasks s)" "queue_inv s \<Longrightarrow> distinct (task_ids s)"
  using queue_inv_ids(2) [of s] by (auto simp: task_ids_def live_tasks_def)

abbreviation status_path :: "TaskId \<Rightarrow> path" where
  "status_path i \<equiv> ROOT @ join_with ROOT [show_nat i, ''status'']"

lemma status_node:
  assumes "task_snapshot i s \<noteq> None" and "i \<le> USIZE_MAX"
  shows "path_to_node s (normalize (status_path i)) = Inr (TaskStatus i)"
proof -
  have "names (normalize (status_path i)) = [show_nat i, ''status'']"
    by (rule names_plain_path) (use show_nat_name in \<open>auto simp: component_def plain_name_def\<close>)
  then show ?thesis using assms parse_show show_nat_name [of i] by (simp add: path_to_node_def resolve_task_id_def)
qed

lemma status_node_gone:
  assumes "task_snapshot i s = None" and "i \<le> USIZE_MAX"
  shows "path_to_node s (normalize (status_path i)) = Inl (no_such (Some (normalize (status_path i))))"
proof -
  have "names (normalize (status_path i)) = [show_nat i, ''status'']"
    by (rule names_plain_path) (use show_nat_name in \<open>auto simp: component_def plain_name_def\<close>)
  then show ?thesis using assms parse_show show_nat_name [of i] by (simp add: path_to_node_def resolve_task_id_def)
qed

interpretation proc: read_only_fs "proc_fs sched_of uptime_of"
proof
  show "\<exists>e. fs_write_file (proc_fs sched_of uptime_of) p k data w = (Inl e, w)" for p k data w
    by (cases "path_to_node (sched_of w) (normalize p)") (simp_all add: proc_fs_def proc_write_file_def node_write_def)
  show "length b \<le> USIZE_MAX" if "fs_read_file (proc_fs sched_of uptime_of) w p 0 USIZE_MAX = Inr b" for w p b
    using that
    by (cases "path_to_node (sched_of w) (normalize p)")
      (auto simp: proc_fs_def proc_read_file_def window_def Let_def min_def
        elim!: result_then.elims split: if_splits)
qed

lemma status_read:
  assumes inv: "queue_inv (sched_of w)" and t: "t \<in> set (live_tasks (sched_of w))"
    and bounds: "task_id t \<le> USIZE_MAX" "length (status_text (snapshot_of t)) \<le> USIZE_MAX"
  shows "fs_metadata (proc_fs sched_of uptime_of) w (status_path (task_id t)) = Inr \<lparr>meta_type = FsFile, meta_size = 0\<rparr>"
    and "fs_read_file (proc_fs sched_of uptime_of) w (status_path (task_id t)) 0 USIZE_MAX =
      Inr (as_bytes (status_text (snapshot_of t)))"
proof -
  note snap = task_snapshot_live [OF inv t]
  have node: "path_to_node (sched_of w) (normalize (status_path (task_id t))) = Inr (TaskStatus (task_id t))"
    by (rule status_node) (use snap bounds in auto)
  then show "fs_metadata (proc_fs sched_of uptime_of) w (status_path (task_id t)) = Inr \<lparr>meta_type = FsFile, meta_size = 0\<rparr>"
    by (simp add: proc_fs_def proc_metadata_def node_metadata_def)
  show "fs_read_file (proc_fs sched_of uptime_of) w (status_path (task_id t)) 0 USIZE_MAX =
      Inr (as_bytes (status_text (snapshot_of t)))"
    using node snap bounds
    by (simp add: proc_fs_def proc_read_file_def node_read_def window_def Let_def as_bytes_def)
qed

text \<open>What \<open>/proc\<close> shows. In every state the scheduler reaches, the root of the process file system lists
  \<open>uptime\<close>, \<open>self\<close> and the ids of the live tasks, each once and in ascending order; the status file of an id is that of
  the live task with the id, and an error if there is none.\<close>

theorem proc_lists_tasks:
  fixes sched_of :: "'w \<Rightarrow> TaskScheduler" and w :: 'w
  defines "s \<equiv> sched_of w"
  assumes reach: "sched_reachable s"
  shows "(\<exists>js. fs_read_entry_names (proc_fs sched_of uptime_of) w ROOT = Inr (''uptime'' # ''self'' # map show_nat js) \<and>
      sorted js \<and> distinct js \<and> set js = task_id ` set (live_tasks s)) \<and>
    (\<forall>i \<le> USIZE_MAX. fs_read_file (proc_fs sched_of uptime_of) w (status_path i) 0 USIZE_MAX =
      (case find (has_id i) (live_tasks s) of
         None \<Rightarrow> Inl (no_such (Some (normalize (status_path i))))
       | Some t \<Rightarrow> Inr (take USIZE_MAX (as_bytes (status_text (snapshot_of t))))))"
proof (intro conjI allI impI)
  have inv: "queue_inv s" using sched_reachable_inv [OF reach] by (simp add: sched_inv_def)
  have "names (normalize ROOT) = []" by code_simp
  then have "fs_read_entry_names (proc_fs sched_of uptime_of) w ROOT = Inr (''uptime'' # ''self'' # map show_nat (sort (task_ids s)))"
    by (simp add: proc_fs_def proc_read_entry_names_def path_to_node_def s_def)
  then show "\<exists>js. fs_read_entry_names (proc_fs sched_of uptime_of) w ROOT = Inr (''uptime'' # ''self'' # map show_nat js) \<and>
      sorted js \<and> distinct js \<and> set js = task_id ` set (live_tasks s)"
    using task_ids_live [of s] inv by (intro exI [of _ "sort (task_ids s)"]) simp
  fix i assume i: "i \<le> USIZE_MAX"
  show "fs_read_file (proc_fs sched_of uptime_of) w (status_path i) 0 USIZE_MAX =
      (case find (has_id i) (live_tasks s) of
         None \<Rightarrow> Inl (no_such (Some (normalize (status_path i))))
       | Some t \<Rightarrow> Inr (take USIZE_MAX (as_bytes (status_text (snapshot_of t)))))"
  proof (cases "find (has_id i) (live_tasks s)")
    case None
    then have "task_snapshot i s = None" by (simp add: task_snapshot_def find_task_find)
    then show ?thesis using None status_node_gone [OF _ i, of s] by (simp add: proc_fs_def proc_read_file_def s_def)
  next
    case (Some t)
    then have t: "t \<in> set (live_tasks s)" "task_id t = i" by (auto simp: find_Some_iff has_id_def)
    then have snap: "task_snapshot i s = Some (snapshot_of t)" using task_snapshot_live [OF inv t(1)] by simp
    then have "path_to_node s (normalize (status_path i)) = Inr (TaskStatus i)" by (intro status_node [OF _ i]) simp
    then show ?thesis using Some snap
      by (auto simp: proc_fs_def proc_read_file_def node_read_def window_def Let_def s_def min_def)
  qed
qed

theorem proc_lists_tasks_witness:
  "fs_read_entry_names (proc_fs (\<lambda>_ :: unit. demo_ready) (\<lambda>_. 0)) () ROOT = Inr [''uptime'', ''self'', ''0'', ''1'', ''2''] \<and>
   fs_read_file (proc_fs (\<lambda>_ :: unit. demo_ready) (\<lambda>_. 0)) () (status_path 1) 0 USIZE_MAX =
     Inr (as_bytes (status_text \<lparr>snap_id = 1, snap_name = ''t'', snap_state = Ready, snap_parent = Some 0\<rparr>))"
proof -
  let ?fs = "proc_fs (\<lambda>_ :: unit. demo_ready) (\<lambda>_. 0)"
  have live: "live_tasks demo_ready = [demo_task 0 None Running None [1, 2], demo_task 1 (Some 0) Ready None [], demo_task 2 (Some 0) Ready None []]"
    by (simp add: live_tasks_def demo_ready_def demo_sched_def)
  note shown = proc_lists_tasks [of "\<lambda>_ :: unit. demo_ready" "()" "\<lambda>_. 0", OF demo_ready_reachable]
  obtain js where js: "fs_read_entry_names ?fs () ROOT = Inr (''uptime'' # ''self'' # map show_nat js)"
    "sorted js" "distinct js" "set js = {0, 1, 2}" using shown by (auto simp: live demo_task_def)
  then have "js = [0, 1, 2]" using sorted_distinct_set_unique [of js "[0, 1, 2]"] by simp
  moreover have "show_nat 0 = ''0''" "show_nat 1 = ''1''" "show_nat 2 = ''2''" by code_simp+
  moreover have "snapshot_of (demo_task 1 (Some 0) Ready None []) = \<lparr>snap_id = 1, snap_name = ''t'', snap_state = Ready, snap_parent = Some 0\<rparr>"
    by (simp add: snapshot_of_def demo_task_def)
  moreover have "length (status_text \<lparr>snap_id = 1, snap_name = ''t'', snap_state = Ready, snap_parent = Some 0\<rparr>) = 36"
    using calculation by (simp add: status_text_def)
  moreover have "find (has_id 1) (live_tasks demo_ready) = Some (demo_task 1 (Some 0) Ready None [])"
    by (simp add: live has_id_def demo_task_def)
  moreover have "fs_read_file ?fs () (status_path 1) 0 USIZE_MAX =
      (case find (has_id 1) (live_tasks demo_ready) of
         None \<Rightarrow> Inl (no_such (Some (normalize (status_path 1))))
       | Some t \<Rightarrow> Inr (take USIZE_MAX (as_bytes (status_text (snapshot_of t)))))"
    using conjunct2 [OF shown, rule_format, of 1] by simp
  ultimately show ?thesis using js(1) by (simp add: as_bytes_def)
qed

end
