(* ===== verification/File_Systems.thy ===== *)
theory File_Systems
  imports Fat_Correct Procfs
begin

text \<open>
  The start of the file systems, \<open>fs::init\<close> of kernel/src/fs/mod.rs: the virtual file system is set up, the RAM disk
  and the process file system are mounted, and the working directory is set. What the drivers read, physical
  memory, the scheduler's state and the clock, are parts of the state \<open>'w\<close>.
\<close>

definition fs_init :: "('w \<Rightarrow> mem) \<Rightarrow> ('w \<Rightarrow> TaskScheduler) \<Rightarrow> ('w \<Rightarrow> nat) \<Rightarrow> nat \<Rightarrow> path \<Rightarrow> ('w vfs, unit) act" where
  "fs_init mem_of sched_of uptime_of initramfs_virt_addr init_cwd_path =
     bind_act vfs_init (\<lambda>_.
     bind_act (\<lambda>v. (fat_new \<lparr>volume_start_virt_addr = initramfs_virt_addr\<rparr> (mem_of (world v)), v)) (\<lambda>fat.
     bind_act (mount_fs ''/mnt/initramfs'' (fat_file_system fat mem_of)) (\<lambda>_.
     bind_act (mount_fs ''/proc'' (proc_fs sched_of uptime_of)) (\<lambda>_.
     chdir init_cwd_path))))"

lemma vfs_init_eq: "vfs_init (vfs_new w) = (Ok (), \<lparr>cwd_path = Some root, root_id = Some 0,
    files = [(0, \<lparr>f_ty = Directory, f_name = ''/'', f_fs = None, f_parent = 0, f_children = [1, 3, 4], f_buf = None, f_pipe = None\<rparr>),
      (1, \<lparr>f_ty = Directory, f_name = ''mnt'', f_fs = None, f_parent = 0, f_children = [2], f_buf = None, f_pipe = None\<rparr>),
      (2, \<lparr>f_ty = Directory, f_name = ''initramfs'', f_fs = None, f_parent = 1, f_children = [], f_buf = None, f_pipe = None\<rparr>),
      (3, \<lparr>f_ty = Directory, f_name = ''dev'', f_fs = None, f_parent = 0, f_children = [], f_buf = None, f_pipe = None\<rparr>),
      (4, \<lparr>f_ty = Directory, f_name = ''proc'', f_fs = None, f_parent = 0, f_children = [], f_buf = None, f_pipe = None\<rparr>)],
    fds = [], next_file_id = 5, next_fd = 3, world = w\<rparr>)"
  by (simp add: vfs_init_def boot_paths vfs_new_def vfs_run)

definition booted :: "'w FileSystem \<Rightarrow> 'w FileSystem \<Rightarrow> path \<Rightarrow> 'w \<Rightarrow> 'w vfs" where
  "booted fat proc cwd w = \<lparr>cwd_path = Some cwd, root_id = Some 0,
    files = [(0, \<lparr>f_ty = Directory, f_name = ''/'', f_fs = None, f_parent = 0, f_children = [1, 3, 4], f_buf = None, f_pipe = None\<rparr>),
      (1, \<lparr>f_ty = Directory, f_name = ''mnt'', f_fs = None, f_parent = 0, f_children = [2], f_buf = None, f_pipe = None\<rparr>),
      (2, \<lparr>f_ty = Directory, f_name = ''initramfs'', f_fs = Some fat, f_parent = 1, f_children = [], f_buf = None, f_pipe = None\<rparr>),
      (3, \<lparr>f_ty = Directory, f_name = ''dev'', f_fs = None, f_parent = 0, f_children = [], f_buf = None, f_pipe = None\<rparr>),
      (4, \<lparr>f_ty = Directory, f_name = ''proc'', f_fs = Some proc, f_parent = 0, f_children = [], f_buf = None, f_pipe = None\<rparr>)],
    fds = [], next_file_id = 5, next_fd = 3, world = w\<rparr>"

lemma mount_paths:
  "names ''/mnt/initramfs'' = [''mnt'', ''initramfs'']" "normalize ''/mnt/initramfs'' = ''/mnt/initramfs''"
  "is_abs ''/mnt/initramfs''" "names ''/proc'' = [''proc'']" "normalize ''/proc'' = ''/proc''" "is_abs ''/proc''"
  by code_simp+

text \<open>The run up to the change of directory.\<close>

lemma fs_init_run:
  assumes "fat_new \<lparr>volume_start_virt_addr = a\<rparr> (mem_of w) = Ok fat"
  shows "fs_init mem_of sched_of uptime_of a cwd (vfs_new w) =
    chdir cwd (booted (fat_file_system fat mem_of) (proc_fs sched_of uptime_of) root w)"
  by (simp add: fs_init_def vfs_init_eq bind_act_def assms mount_fs_def vfs_run mount_paths booted_def)

lemma mount_reachable: "vfs_reachable v \<Longrightarrow> vfs_reachable (snd (mount_fs p fs v))"
  by (rule vfs_reachable.step, assumption, rule vfs_step.quiet, rule quiet_step.mounts)

lemma booted_reachable: "vfs_reachable (booted fat proc root w)"
proof -
  have "vfs_reachable (snd (vfs_init (vfs_new w)))" by (rule vfs_reachable.boot [of w]) (simp add: vfs_init_eq)
  then have "vfs_reachable (snd (mount_fs ''/proc'' proc (snd (mount_fs ''/mnt/initramfs'' fat (snd (vfs_init (vfs_new w)))))))"
    by (rule mount_reachable [OF mount_reachable])
  also have "snd (mount_fs ''/proc'' proc (snd (mount_fs ''/mnt/initramfs'' fat (snd (vfs_init (vfs_new w)))))) = booted fat proc root w"
    by (simp add: vfs_init_eq mount_fs_def vfs_run mount_paths booted_def)
  finally show ?thesis .
qed

text \<open>Paths below the two mount points go to the file system mounted there.\<close>

lemma booted_lookup:
  assumes "\<forall>n\<in>set ns. component n \<and> plain_name n" and "ns \<noteq> []"
  shows "find_file_by_path (booted fat proc cwd w) (ROOT @ join_with ROOT ([''mnt'', ''initramfs''] @ ns)) =
      resolve_mount w 2 fat (ROOT @ join_with ROOT ns)" (is ?fat)
    and "find_file_by_path (booted fat proc cwd w) (ROOT @ join_with ROOT ([''proc''] @ ns)) =
      resolve_mount w 4 proc (ROOT @ join_with ROOT ns)" (is ?proc)
proof -
  have names: "names (normalize (ROOT @ join_with ROOT (ms @ ns))) = ms @ ns" if "\<forall>n\<in>set ms. component n \<and> plain_name n" for ms
    by (rule names_plain_path) (use that assms in auto)
  have abs: "is_abs (ROOT @ q)" for q by (simp add: is_abs_Cons)
  obtain n ns' where ns: "ns = n # ns'" using assms(2) by (cases ns) auto
  have "names (normalize (ROOT @ join_with ROOT ([''mnt'', ''initramfs''] @ ns))) = [''mnt'', ''initramfs''] @ ns"
    by (rule names) (auto simp: component_def plain_name_def)
  then show ?fat using abs by (simp add: find_file_by_path_def absolutize_def booted_def find_file_def ns del: join_with.simps)
  have "names (normalize (ROOT @ join_with ROOT ([''proc''] @ ns))) = [''proc''] @ ns"
    by (rule names) (auto simp: component_def plain_name_def)
  then show ?proc using abs by (simp add: find_file_by_path_def absolutize_def booted_def find_file_def ns del: join_with.simps)
qed

lemma fs_init_Ok:
  assumes "fs_init mem_of sched_of uptime_of a cwd (vfs_new w) = (Ok (), v)"
  shows "\<exists>fat dir. fat_new \<lparr>volume_start_virt_addr = a\<rparr> (mem_of w) = Ok fat \<and>
    v = booted (fat_file_system fat mem_of) (proc_fs sched_of uptime_of) dir w \<and> vfs_reachable v"
proof (cases "fat_new \<lparr>volume_start_virt_addr = a\<rparr> (mem_of w)")
  case (Ok fat)
  let ?b = "booted (fat_file_system fat mem_of) (proc_fs sched_of uptime_of) root w"
  have ch: "chdir cwd ?b = (Ok (), v)" using assms fs_init_run [where mem_of = mem_of, OF Ok] by simp
  have "vfs_reachable (snd (chdir cwd ?b))"
    by (rule vfs_reachable.step [OF booted_reachable], rule vfs_step.quiet, rule quiet_step.chdirs)
  then have "vfs_reachable v" using ch by simp
  moreover obtain dir where "v = ?b\<lparr>cwd_path := Some dir\<rparr>"
    using ch by (auto simp: chdir_def split: option.splits if_splits)
  ultimately show ?thesis using Ok by (auto simp: booted_def)
qed (use assms in \<open>simp_all add: fs_init_def vfs_init_eq bind_act_def\<close>)


definition demo_boot_vfs :: "unit vfs" where
  "demo_boot_vfs = snd (fs_init (\<lambda>_. demo_mem) (\<lambda>_. demo_ready) (\<lambda>_. 0) 0 ''/proc'' (vfs_new ()))"

lemma demo_boot_run:
  "fs_init (\<lambda>_. demo_mem) (\<lambda>_. demo_ready) (\<lambda>_. 0) 0 ''/proc'' (vfs_new ()) = (Ok (), demo_boot_vfs)"
proof -
  have "fat_new \<lparr>volume_start_virt_addr = 0\<rparr> demo_mem = Ok demo_fat"
    using demo_fat_new by (simp add: demo_volume_def)
  note run = fs_init_run [where mem_of = "\<lambda>_ :: unit. demo_mem", OF this, of "\<lambda>_. demo_ready" "\<lambda>_. 0" "''/proc''"]
  have "fst (chdir ''/proc'' (booted fat proc root ())) = Ok ()" for fat proc
    by (simp add: chdir_def absolutize_def mount_paths find_file_by_path_def booted_def find_file_def resolve_mount_def root_def)
  then show ?thesis using run by (simp add: demo_boot_vfs_def prod_eq_iff)
qed


end
