(* ===== verification/Elf.thy ===== *)
theory Elf
  imports Fat_Chain
begin

text \<open>
  ELF images, common/src/elf.rs. An image is a slice: a pointer and a length. The code casts the pointer to a header and walks from it to the
  tables without looking at the length, so \<open>elf_mem\<close> gives the bytes from the pointer on, the ones behind the slice too. The structs are
  \<open>repr(C)\<close>; their fields are read at the offsets that layout gives them, in little-endian order. Offsets lie below \<open>2 ^ 63\<close>, so that
  they are the same number as \<open>isize\<close>. Strings are their bytes.
\<close>

datatype Class = Bit32 | Bit64 | OtherClass u8

datatype Data = LittleEndian | BigEndian | OtherData u8

datatype ElfType = Relocatable | Executable | Shared | Core | OtherType nat

datatype Machine = NoMachine | Sparc | X86 | Mips | PowerPc | Arm | SuperH | Ia64 | X8664 | Aarch64 | RiscV | OtherMachine nat

definition class_of :: "u8 \<Rightarrow> Class" where
  "class_of v = (if v = 1 then Bit32 else if v = 2 then Bit64 else OtherClass v)"

definition data_of :: "u8 \<Rightarrow> Data" where
  "data_of v = (if v = 1 then LittleEndian else if v = 2 then BigEndian else OtherData v)"

definition type_of :: "nat \<Rightarrow> ElfType" where
  "type_of v = (if v = 1 then Relocatable else if v = 2 then Executable else if v = 3 then Shared else if v = 4 then Core
     else OtherType v)"

definition machine_of :: "nat \<Rightarrow> Machine" where
  "machine_of v =
     (if v = 0x00 then NoMachine else if v = 0x02 then Sparc else if v = 0x03 then X86 else if v = 0x08 then Mips
      else if v = 0x14 then PowerPc else if v = 0x28 then Arm else if v = 0x2a then SuperH else if v = 0x32 then Ia64
      else if v = 0x3e then X8664 else if v = 0xb7 then Aarch64 else if v = 0xf3 then RiscV else OtherMachine v)"

definition MAGIC :: "u8 list" where "MAGIC = [0x7f, 0x45, 0x4c, 0x46]"

record Elf64Header =
  eh_magic :: "u8 list"
  eh_class :: u8
  eh_data :: u8
  eh_version0 :: u8
  eh_os_abi :: u8
  eh_abi_version :: u8
  eh_reserved :: "u8 list"
  eh_type :: nat
  eh_machine :: nat
  eh_version1 :: u8
  eh_entry_point :: nat
  eh_ph_offset :: nat
  eh_sh_offset :: nat
  eh_flags :: nat
  eh_eh_size :: nat
  eh_ph_entry_size :: nat
  eh_ph_num :: nat
  eh_sh_entry_size :: nat
  eh_sh_num :: nat
  eh_sh_str_index :: nat

definition header_is_valid :: "Elf64Header \<Rightarrow> bool" where
  "header_is_valid h \<longleftrightarrow> eh_magic h = MAGIC"

definition header_class :: "Elf64Header \<Rightarrow> Class" where "header_class h = class_of (eh_class h)"
definition header_data :: "Elf64Header \<Rightarrow> Data" where "header_data h = data_of (eh_data h)"
definition elf_type :: "Elf64Header \<Rightarrow> ElfType" where "elf_type h = type_of (eh_type h)"
definition header_machine :: "Elf64Header \<Rightarrow> Machine" where "header_machine h = machine_of (eh_machine h)"

datatype SegmentType =
    NullSegment | Load | Dynamic | Interpreter | Note | ReservedSegment | ProgramHeader | ThreadLocalStorage
  | OsSpecLow | OsSpecHigh | ProcSpecLow | ProcSpecHigh | OtherSegment nat

definition segment_type_of :: "nat \<Rightarrow> SegmentType" where
  "segment_type_of v =
     (if v = 0x00000000 then NullSegment else if v = 0x00000001 then Load else if v = 0x00000002 then Dynamic
      else if v = 0x00000003 then Interpreter else if v = 0x00000004 then Note else if v = 0x00000005 then ReservedSegment
      else if v = 0x00000006 then ProgramHeader else if v = 0x00000007 then ThreadLocalStorage
      else if v = 0x60000000 then OsSpecLow else if v = 0x6fffffff then OsSpecHigh
      else if v = 0x70000000 then ProcSpecLow else if v = 0x7fffffff then ProcSpecHigh else OtherSegment v)"

datatype SegmentFlags = ExecutableFlag | Writable | Readable | OtherFlags nat

definition segment_flags_of :: "nat \<Rightarrow> SegmentFlags" where
  "segment_flags_of v = (if v = 1 then ExecutableFlag else if v = 2 then Writable else if v = 4 then Readable else OtherFlags v)"

record Elf64ProgramHeader =
  ph_segment_type :: nat
  ph_flags :: nat
  ph_offset :: nat
  ph_virt_addr :: nat
  ph_phys_addr :: nat
  ph_file_size :: nat
  ph_mem_size :: nat
  ph_align :: nat

definition segment_type :: "Elf64ProgramHeader \<Rightarrow> SegmentType" where
  "segment_type ph = segment_type_of (ph_segment_type ph)"

definition segment_flags :: "Elf64ProgramHeader \<Rightarrow> SegmentFlags" where
  "segment_flags ph = segment_flags_of (ph_flags ph)"

datatype SectionHeaderType =
    NullSection | Program | SymbolTable | StringTable | RelocationEntriesWithAddends | SymbolHashTable | DynamicLinkInfo
  | Notes | Bss | RelocationEntries | ReservedSection | DynamicLinkSymbolTable | Constructors | Destructors | PreConstructors
  | Group | SymbolTableSectionHeaderIndex | NumberOfDefinedTypes | OsSpec | OtherSection nat

definition header_type_of :: "nat \<Rightarrow> SectionHeaderType" where
  "header_type_of v =
     (if v = 0x00 then NullSection else if v = 0x01 then Program else if v = 0x02 then SymbolTable
      else if v = 0x03 then StringTable else if v = 0x04 then RelocationEntriesWithAddends else if v = 0x05 then SymbolHashTable
      else if v = 0x06 then DynamicLinkInfo else if v = 0x07 then Notes else if v = 0x08 then Bss
      else if v = 0x09 then RelocationEntries else if v = 0x0a then ReservedSection else if v = 0x0b then DynamicLinkSymbolTable
      else if v = 0x0e then Constructors else if v = 0x0f then Destructors else if v = 0x10 then PreConstructors
      else if v = 0x11 then Group else if v = 0x12 then SymbolTableSectionHeaderIndex else if v = 0x13 then NumberOfDefinedTypes
      else if v = 0x60000000 then OsSpec else OtherSection v)"

record Elf64SectionHeader =
  sh_name :: nat
  sh_header_type :: nat
  sh_flags :: nat
  sh_addr :: nat
  sh_offset :: nat
  sh_size :: nat
  sh_link :: nat
  sh_info :: nat
  sh_addr_align :: nat
  sh_entry_size :: nat

definition header_type :: "Elf64SectionHeader \<Rightarrow> SectionHeaderType" where
  "header_type sh = header_type_of (sh_header_type sh)"

subsection \<open>The image\<close>

record Elf64 =
  elf_mem :: mem
  elf_len :: nat

definition le_at :: "mem \<Rightarrow> nat \<Rightarrow> nat \<Rightarrow> nat" where
  "le_at m a n = from_le_bytes (read_bytes m a n)"

definition elf_header :: "Elf64 \<Rightarrow> Elf64Header" where
  "elf_header e = (let m = elf_mem e in
     \<lparr>eh_magic = read_bytes m 0 4, eh_class = m 4, eh_data = m 5, eh_version0 = m 6, eh_os_abi = m 7, eh_abi_version = m 8,
      eh_reserved = read_bytes m 9 7, eh_type = le_at m 16 2, eh_machine = le_at m 18 2, eh_version1 = m 20,
      eh_entry_point = le_at m 24 8, eh_ph_offset = le_at m 32 8, eh_sh_offset = le_at m 40 8, eh_flags = le_at m 48 4,
      eh_eh_size = le_at m 52 2, eh_ph_entry_size = le_at m 54 2, eh_ph_num = le_at m 56 2, eh_sh_entry_size = le_at m 58 2,
      eh_sh_num = le_at m 60 2, eh_sh_str_index = le_at m 62 2\<rparr>)"

definition elf_new :: "Elf64 \<Rightarrow> Elf64 outcome" where
  "elf_new e = (if header_is_valid (elf_header e) then Ok e else err (ElfError InvalidMagicNumber))"

definition program_header_at :: "mem \<Rightarrow> nat \<Rightarrow> Elf64ProgramHeader" where
  "program_header_at m a =
     \<lparr>ph_segment_type = le_at m a 4, ph_flags = le_at m (a + 4) 4, ph_offset = le_at m (a + 8) 8,
      ph_virt_addr = le_at m (a + 16) 8, ph_phys_addr = le_at m (a + 24) 8, ph_file_size = le_at m (a + 32) 8,
      ph_mem_size = le_at m (a + 40) 8, ph_align = le_at m (a + 48) 8\<rparr>"

definition program_headers :: "Elf64 \<Rightarrow> Elf64ProgramHeader list" where
  "program_headers e =
     map (\<lambda>i. program_header_at (elf_mem e) (eh_ph_offset (elf_header e) + 56 * i)) [0..<eh_ph_num (elf_header e)]"

definition section_header_at :: "mem \<Rightarrow> nat \<Rightarrow> Elf64SectionHeader" where
  "section_header_at m a =
     \<lparr>sh_name = le_at m a 4, sh_header_type = le_at m (a + 4) 4, sh_flags = le_at m (a + 8) 8, sh_addr = le_at m (a + 16) 8,
      sh_offset = le_at m (a + 24) 8, sh_size = le_at m (a + 32) 8, sh_link = le_at m (a + 40) 4, sh_info = le_at m (a + 44) 4,
      sh_addr_align = le_at m (a + 48) 8, sh_entry_size = le_at m (a + 56) 8\<rparr>"

definition section_headers :: "Elf64 \<Rightarrow> Elf64SectionHeader list" where
  "section_headers e =
     map (\<lambda>i. section_header_at (elf_mem e) (eh_sh_offset (elf_header e) + 64 * i)) [0..<eh_sh_num (elf_header e)]"

definition data_by_section_header :: "Elf64SectionHeader \<Rightarrow> Elf64 \<Rightarrow> u8 list option outcome" where
  "data_by_section_header sh e =
     (if sh_offset sh = 0 \<or> sh_size sh = 0 then Ok None
      else and_then (uadd (sh_offset sh) (sh_size sh)) (\<lambda>stop.
        if elf_len e < stop then Ok None else Ok (Some (read_bytes (elf_mem e) (sh_offset sh) (sh_size sh)))))"

definition data_by_program_header :: "Elf64ProgramHeader \<Rightarrow> Elf64 \<Rightarrow> u8 list option outcome" where
  "data_by_program_header ph e =
     (if segment_type ph \<noteq> Load then Ok None
      else if ph_file_size ph = 0 \<or> ph_mem_size ph = 0 then Ok None
      else and_then (uadd (ph_offset ph) (ph_file_size ph)) (\<lambda>stop.
        if elf_len e < stop then Ok None else Ok (Some (read_bytes (elf_mem e) (ph_offset ph) (ph_file_size ph)))))"

definition string_table :: "Elf64 \<Rightarrow> u8 list option outcome" where
  "string_table e =
     (case find (\<lambda>h. header_type h = StringTable) (section_headers e) of
        None \<Rightarrow> Ok None
      | Some h \<Rightarrow> data_by_section_header h e)"

definition no_name :: "u8 list" where
  "no_name = [0x3c, 0x4e, 0x4f, 0x20, 0x4e, 0x41, 0x4d, 0x45, 0x3e]"

definition section_name_from_string_table :: "Elf64SectionHeader \<Rightarrow> Elf64 \<Rightarrow> u8 list outcome" where
  "section_name_from_string_table sh e =
     map_ok (\<lambda>t. case t of
         None \<Rightarrow> no_name
       | Some t \<Rightarrow> if length t < sh_name sh then no_name else utf8_lossy (takeWhile (\<lambda>c. c \<noteq> 0) (drop (sh_name sh) t)))
       (string_table e)"

fun find_section :: "u8 list \<Rightarrow> Elf64SectionHeader list \<Rightarrow> Elf64 \<Rightarrow> Elf64SectionHeader option outcome" where
  "find_section name [] e = Ok None"
| "find_section name (sh # shs) e =
     and_then (section_name_from_string_table sh e) (\<lambda>n. if n = name then Ok (Some sh) else find_section name shs e)"

definition section_header_by_name :: "u8 list \<Rightarrow> Elf64 \<Rightarrow> Elf64SectionHeader option outcome" where
  "section_header_by_name name e = find_section name (section_headers e) e"

end
