(* ===== verification/Paging.thy ===== *)
theory Paging
  imports Task
begin

unbundle bit_operations_syntax

text \<open>
  Page tables, kernel/src/arch/x86_64/paging.rs and the address arithmetic of kernel/src/arch/mod.rs. The kernel
  reaches physical memory at identical virtual addresses, so a table is the page at its physical address: \<open>tables\<close>
  gives the 512 entries of the page at an address, the view of physical memory (outside the allocator's bitmap)
  that this code has. The state also holds the frame allocator, the static \<open>KERNEL_PML4_PHYS\<close>, the register CR3 and,
  as \<open>user_pt\<close>, the \<open>UserPageTable\<close> whose method runs. The flush of the TLB is left out.
\<close>

datatype ReadWrite = ReadAccess | WriteAccess
datatype EntryMode = Supervisor | User
datatype PageWriteThroughLevel = WriteBack | WriteThrough

subsection \<open>Entries\<close>

type_synonym PageTableEntry = u64

definition ADDR_MASK :: u64 where "ADDR_MASK = 0x0000007ffffff000"

fun rw_bit :: "ReadWrite \<Rightarrow> u64" where
  "rw_bit ReadAccess = 0"
| "rw_bit WriteAccess = 1"

fun us_bit :: "EntryMode \<Rightarrow> u64" where
  "us_bit Supervisor = 0"
| "us_bit User = 1"

fun pwt_bit :: "PageWriteThroughLevel \<Rightarrow> u64" where
  "pwt_bit WriteBack = 0"
| "pwt_bit WriteThrough = 1"

fun rw_less :: "ReadWrite \<Rightarrow> ReadWrite \<Rightarrow> bool" where
  "rw_less a b \<longleftrightarrow> a = ReadAccess \<and> b = WriteAccess"

fun us_less :: "EntryMode \<Rightarrow> EntryMode \<Rightarrow> bool" where
  "us_less a b \<longleftrightarrow> a = Supervisor \<and> b = User"

definition set_p :: "bool \<Rightarrow> PageTableEntry \<Rightarrow> PageTableEntry" where
  "set_p v e = (e AND NOT 0x1) OR (if v then 1 else 0)"

definition pte_p :: "PageTableEntry \<Rightarrow> bool" where
  "pte_p e \<longleftrightarrow> e AND 0x1 \<noteq> 0"

definition set_rw :: "ReadWrite \<Rightarrow> PageTableEntry \<Rightarrow> PageTableEntry" where
  "set_rw v e = (e AND NOT 0x2) OR push_bit 1 (rw_bit v)"

definition pte_rw :: "PageTableEntry \<Rightarrow> ReadWrite" where
  "pte_rw e = (if e AND 0x2 \<noteq> 0 then WriteAccess else ReadAccess)"

definition set_us :: "EntryMode \<Rightarrow> PageTableEntry \<Rightarrow> PageTableEntry" where
  "set_us v e = (e AND NOT 0x4) OR push_bit 2 (us_bit v)"

definition pte_us :: "PageTableEntry \<Rightarrow> EntryMode" where
  "pte_us e = (if e AND 0x4 \<noteq> 0 then User else Supervisor)"

definition set_pwt :: "PageWriteThroughLevel \<Rightarrow> PageTableEntry \<Rightarrow> PageTableEntry" where
  "set_pwt v e = (e AND NOT 0x8) OR push_bit 3 (pwt_bit v)"

definition pte_pwt :: "PageTableEntry \<Rightarrow> PageWriteThroughLevel" where
  "pte_pwt e = (if e AND 0x8 \<noteq> 0 then WriteThrough else WriteBack)"

definition set_pcd :: "bool \<Rightarrow> PageTableEntry \<Rightarrow> PageTableEntry" where
  "set_pcd v e = (e AND NOT 0x10) OR push_bit 4 (if v then 1 else 0)"

definition pte_pcd :: "PageTableEntry \<Rightarrow> bool" where
  "pte_pcd e \<longleftrightarrow> e AND 0x10 \<noteq> 0"

definition pte_accessed :: "PageTableEntry \<Rightarrow> bool" where
  "pte_accessed e \<longleftrightarrow> e AND 0x20 \<noteq> 0"

definition pte_dirty :: "PageTableEntry \<Rightarrow> bool" where
  "pte_dirty e \<longleftrightarrow> e AND 0x40 \<noteq> 0"

definition pte_page_size :: "PageTableEntry \<Rightarrow> bool" where
  "pte_page_size e \<longleftrightarrow> e AND 0x80 \<noteq> 0"

definition set_addr :: "nat \<Rightarrow> PageTableEntry \<Rightarrow> PageTableEntry" where
  "set_addr a e = (e AND NOT ADDR_MASK) OR (word_of_nat a AND ADDR_MASK)"

definition pte_addr :: "PageTableEntry \<Rightarrow> nat" where
  "pte_addr e = unat (e AND ADDR_MASK)"

definition pte_exec_disable :: "PageTableEntry \<Rightarrow> bool" where
  "pte_exec_disable e \<longleftrightarrow> e AND push_bit 63 1 \<noteq> 0"

definition entry_page_table :: "PageTableEntry \<Rightarrow> nat option" where
  "entry_page_table e = (if pte_page_size e then None else Some (pte_addr e))"

definition set_entry ::
  "nat \<Rightarrow> ReadWrite \<Rightarrow> EntryMode \<Rightarrow> PageWriteThroughLevel \<Rightarrow> bool \<Rightarrow> PageTableEntry \<Rightarrow> PageTableEntry" where
  "set_entry a r u w c e = set_addr a (set_pcd c (set_pwt w (set_us u (set_rw r (set_p True e)))))"

subsection \<open>Addresses\<close>

definition pml4_entry_index :: "nat \<Rightarrow> nat" where
  "pml4_entry_index a = drop_bit 39 a AND 0x1ff"

definition pml3_entry_index :: "nat \<Rightarrow> nat" where
  "pml3_entry_index a = drop_bit 30 a AND 0x1ff"

definition pml2_entry_index :: "nat \<Rightarrow> nat" where
  "pml2_entry_index a = drop_bit 21 a AND 0x1ff"

definition pml1_entry_index :: "nat \<Rightarrow> nat" where
  "pml1_entry_index a = drop_bit 12 a AND 0x1ff"

definition page_offset :: "nat \<Rightarrow> nat" where
  "page_offset a = a AND 0xfff"

text \<open>\<open>(start..end).step_by(PAGE_SIZE)\<close>\<close>

definition page_steps :: "nat \<Rightarrow> nat \<Rightarrow> nat list" where
  "page_steps start stop = map (\<lambda>k. start + k * PAGE_SIZE) [0..<(stop - start + (PAGE_SIZE - 1)) div PAGE_SIZE]"

subsection \<open>The state\<close>

type_synonym table_mem = "nat \<Rightarrow> nat \<Rightarrow> PageTableEntry"

record paging =
  pg_frames :: BitmapMemoryManager
  tables :: table_mem
  kernel_pml4_phys :: nat
  cr3_reg :: nat
  user_pt :: UserPageTable

definition alloc_one :: "(paging, MemoryFrame) act" where
  "alloc_one s = (case alloc_multi_mem_frame 1 (pg_frames s) of (r, b) \<Rightarrow> (r, s\<lparr>pg_frames := b\<rparr>))"

definition entry_of :: "nat \<Rightarrow> nat \<Rightarrow> (paging, PageTableEntry) act" where
  "entry_of t i = gets (\<lambda>s. tables s t i)"

definition write_entry :: "nat \<Rightarrow> nat \<Rightarrow> PageTableEntry \<Rightarrow> (paging, unit) act" where
  "write_entry t i e = modify (\<lambda>s. s\<lparr>tables := (tables s)(t := (tables s t)(i := e))\<rparr>)"

text \<open>\<open>zero_out\<close> of a one-page frame, and the copy of all entries of a table.\<close>

definition zero_table :: "MemoryFrame \<Rightarrow> (paging, unit) act" where
  "zero_table f = modify (\<lambda>s. s\<lparr>tables := (tables s)(frame_start_phys_addr f := (\<lambda>_. 0))\<rparr>)"

definition copy_table :: "nat \<Rightarrow> MemoryFrame \<Rightarrow> (paging, unit) act" where
  "copy_table src f = modify (\<lambda>s. s\<lparr>tables := (tables s)(frame_start_phys_addr f := tables s src)\<rparr>)"

subsection \<open>Mapping for the kernel\<close>

text \<open>\<open>ensure_pte\<close> returns the frame it allocated, if any, and the entry, here its value.\<close>

definition raise_entry :: "ReadWrite \<Rightarrow> EntryMode \<Rightarrow> PageTableEntry \<Rightarrow> PageTableEntry" where
  "raise_entry r u e =
     (let e1 = (if rw_less (pte_rw e) r then set_rw r e else e) in if us_less (pte_us e1) u then set_us u e1 else e1)"

definition ensure_pte ::
  "nat \<Rightarrow> nat \<Rightarrow> ReadWrite \<Rightarrow> EntryMode \<Rightarrow> PageWriteThroughLevel \<Rightarrow> bool \<Rightarrow> (paging, MemoryFrame) act \<Rightarrow>
   (paging, MemoryFrame option \<times> PageTableEntry) act" where
  "ensure_pte t i r u w c alloc =
     bind_act (entry_of t i) (\<lambda>e.
     bind_act
       (if \<not> pte_p e then
          bind_act alloc (\<lambda>f.
          bind_act (zero_table f) (\<lambda>_.
          bind_act (entry_of t i) (\<lambda>e.
          bind_act (write_entry t i (set_entry (frame_start_phys_addr f) r u w c e)) (\<lambda>_.
          return_act (Some f)))))
        else return_act None) (\<lambda>frame.
     bind_act (entry_of t i) (\<lambda>e.
     bind_act (write_entry t i (raise_entry r u e)) (\<lambda>_.
     return_act (frame, raise_entry r u e)))))"

fun walk_ensure ::
  "nat list \<Rightarrow> nat \<Rightarrow> ReadWrite \<Rightarrow> EntryMode \<Rightarrow> PageWriteThroughLevel \<Rightarrow> bool \<Rightarrow> (paging, MemoryFrame) act \<Rightarrow>
   (MemoryFrame \<Rightarrow> (paging, unit) act) \<Rightarrow> (paging, nat) act" where
  "walk_ensure [] t r u w c alloc allocated = return_act t"
| "walk_ensure (i # is) t r u w c alloc allocated =
     bind_act (ensure_pte t i r u w c alloc) (\<lambda>(frame, e).
     bind_act (case frame of Some f \<Rightarrow> allocated f | None \<Rightarrow> return_act ()) (\<lambda>_.
     case entry_page_table e of
       None \<Rightarrow> lift_outcome Panic
     | Some t' \<Rightarrow> walk_ensure is t' r u w c alloc allocated))"

definition map_page ::
  "nat \<Rightarrow> nat \<Rightarrow> nat \<Rightarrow> nat \<Rightarrow> ReadWrite \<Rightarrow> EntryMode \<Rightarrow> PageWriteThroughLevel \<Rightarrow> bool \<Rightarrow> (paging, MemoryFrame) act \<Rightarrow>
   (MemoryFrame \<Rightarrow> (paging, unit) act) \<Rightarrow> (paging, unit) act" where
  "map_page pml4 start phys_addr i r u w c alloc allocated =
     bind_act (walk_ensure [pml4_entry_index i, pml3_entry_index i, pml2_entry_index i] pml4 r u w c alloc allocated) (\<lambda>t.
     bind_act (lift_outcome (uadd phys_addr (i - start))) (\<lambda>a.
     bind_act (entry_of t (pml1_entry_index i)) (\<lambda>e.
     write_entry t (pml1_entry_index i) (set_entry a r u w c e))))"

definition map_range ::
  "nat \<Rightarrow> nat \<Rightarrow> nat \<Rightarrow> nat \<Rightarrow> ReadWrite \<Rightarrow> EntryMode \<Rightarrow> PageWriteThroughLevel \<Rightarrow> bool \<Rightarrow> (paging, MemoryFrame) act \<Rightarrow>
   (MemoryFrame \<Rightarrow> (paging, unit) act) \<Rightarrow> (paging, unit) act" where
  "map_range pml4 start stop phys_addr r u w c alloc allocated =
     (if start mod PAGE_SIZE \<noteq> 0 then fail (from_error (PagingError (AddressNotAlignedByPageSize start)))
      else if stop mod PAGE_SIZE \<noteq> 0 then fail (from_error (PagingError (AddressNotAlignedByPageSize stop)))
      else if phys_addr mod PAGE_SIZE \<noteq> 0 then fail (from_error (PagingError (AddressNotAlignedByPageSize phys_addr)))
      else for_each (page_steps start stop) (\<lambda>i.
        map_page pml4 start phys_addr i r u w c alloc allocated))"

definition leak_frame :: "MemoryFrame \<Rightarrow> (paging, unit) act" where
  "leak_frame f = return_act ()"

text \<open>When \<open>map\<close> fails, \<open>?\<close> drops the root's frame, which is not marked deallocated.\<close>

definition kernel_init :: "nat \<Rightarrow> nat \<Rightarrow> (paging, unit) act" where
  "kernel_init start stop =
     bind_act alloc_one (\<lambda>f.
     bind_act (zero_table f) (\<lambda>_.
     catch (map_range (frame_start_phys_addr f) start stop start WriteAccess Supervisor WriteBack False alloc_one leak_frame) (\<lambda>r.
       case r of
         Ok _ \<Rightarrow> modify (\<lambda>s. s\<lparr>cr3_reg := frame_start_phys_addr f, kernel_pml4_phys := frame_start_phys_addr f\<rparr>)
       | Err e \<Rightarrow> lift_outcome (and_then (drop_frame f) (\<lambda>_. Err e))
       | Panic \<Rightarrow> lift_outcome Panic)))"

definition kernel_map :: "nat \<Rightarrow> nat \<Rightarrow> ReadWrite \<Rightarrow> PageWriteThroughLevel \<Rightarrow> bool \<Rightarrow> (paging, unit) act" where
  "kernel_map start stop r w c =
     bind_act (gets kernel_pml4_phys) (\<lambda>pml4.
       map_range pml4 start stop start r Supervisor w c alloc_one leak_frame)"

subsection \<open>Lookup\<close>

definition lookup_step :: "table_mem \<Rightarrow> nat \<Rightarrow> nat \<Rightarrow> nat option" where
  "lookup_step T t i = (if \<not> pte_p (T t i) then None else entry_page_table (T t i))"

definition lookup_pte :: "table_mem \<Rightarrow> nat \<Rightarrow> nat \<Rightarrow> PageTableEntry option" where
  "lookup_pte T pml4 va =
     Option.bind (lookup_step T pml4 (pml4_entry_index va)) (\<lambda>pml3.
     Option.bind (lookup_step T pml3 (pml3_entry_index va)) (\<lambda>pml2.
     Option.bind (lookup_step T pml2 (pml2_entry_index va)) (\<lambda>pml1.
       if \<not> pte_p (T pml1 (pml1_entry_index va)) then None else Some (T pml1 (pml1_entry_index va)))))"

definition calc_phys_addr :: "table_mem \<Rightarrow> nat \<Rightarrow> nat \<Rightarrow> nat option" where
  "calc_phys_addr T pml4 va = map_option (\<lambda>e. pte_addr e OR (va AND 0xfff)) (lookup_pte T pml4 va)"

definition virt_phys_addr :: "paging \<Rightarrow> nat \<Rightarrow> nat outcome" where
  "virt_phys_addr s va =
     ok_or (calc_phys_addr (tables s) (kernel_pml4_phys s) va) (from_error (PagingError (AddressNotMapped va)))"

subsection \<open>Page tables of tasks\<close>

definition push_owned :: "MemoryFrame \<Rightarrow> (paging, unit) act" where
  "push_owned f = modify (\<lambda>s. s\<lparr>user_pt := (user_pt s)\<lparr>allocated_frames := allocated_frames (user_pt s) @ [f]\<rparr>\<rparr>)"

definition clone_table_entries :: "nat \<Rightarrow> (paging, MemoryFrame) act" where
  "clone_table_entries src =
     bind_act alloc_one (\<lambda>f. bind_act (copy_table src f) (\<lambda>_. return_act f))"

definition update_entry :: "nat \<Rightarrow> nat \<Rightarrow> (PageTableEntry \<Rightarrow> PageTableEntry) \<Rightarrow> (paging, unit) act" where
  "update_entry t i g = bind_act (entry_of t i) (\<lambda>e. write_entry t i (g e))"

definition ensure_task_table ::
  "nat \<Rightarrow> nat \<Rightarrow> ReadWrite \<Rightarrow> PageWriteThroughLevel \<Rightarrow> bool \<Rightarrow> (paging, unit) act" where
  "ensure_task_table t i r w c =
     bind_act (entry_of t i) (\<lambda>e.
     if \<not> pte_p e then
       bind_act alloc_one (\<lambda>f.
       bind_act (zero_table f) (\<lambda>_.
       bind_act (update_entry t i (set_entry (frame_start_phys_addr f) r User w c)) (\<lambda>_.
       push_owned f)))
     else
       bind_act (gets (\<lambda>s. list_ex (\<lambda>f. frame_start_phys_addr f = pte_addr e) (allocated_frames (user_pt s)))) (\<lambda>is_owned.
       bind_act
         (if \<not> is_owned then
            bind_act (clone_table_entries (pte_addr e)) (\<lambda>f.
            bind_act (update_entry t i (set_addr (frame_start_phys_addr f))) (\<lambda>_.
            push_owned f))
          else return_act ()) (\<lambda>_.
       update_entry t i (raise_entry r User))))"

definition user_pt_new :: "(paging, unit) act" where
  "user_pt_new =
     bind_act alloc_one (\<lambda>f.
     bind_act (zero_table f) (\<lambda>_.
     modify (\<lambda>s. s\<lparr>user_pt := \<lparr>pml4_frame = Some f, allocated_frames = []\<rparr>\<rparr>)))"

definition pml4_phys_addr :: "(paging, nat) act" where
  "pml4_phys_addr s =
     (case pml4_frame (user_pt s) of Some f \<Rightarrow> (Ok (frame_start_phys_addr f), s) | None \<Rightarrow> (Panic, s))"

definition new_cloned_from_kernel :: "(paging, unit) act" where
  "new_cloned_from_kernel =
     bind_act user_pt_new (\<lambda>_.
     bind_act pml4_phys_addr (\<lambda>pml4.
     modify (\<lambda>s. s\<lparr>tables := (tables s)(pml4 := tables s (kernel_pml4_phys s))\<rparr>)))"

definition unmap_page :: "nat \<Rightarrow> nat \<Rightarrow> paging \<Rightarrow> paging" where
  "unmap_page pml4 i s =
     (let T = tables s; e4 = T pml4 (pml4_entry_index i) in
      if \<not> pte_p e4 then s
      else let e3 = T (pte_addr e4) (pml3_entry_index i) in
      if \<not> pte_p e3 then s
      else let e2 = T (pte_addr e3) (pml2_entry_index i) in
      if \<not> pte_p e2 then s
      else s\<lparr>tables := T(pte_addr e2 := (T (pte_addr e2))(pml1_entry_index i := 0))\<rparr>)"

definition user_unmap :: "nat \<Rightarrow> nat \<Rightarrow> (paging, unit) act" where
  "user_unmap start stop =
     bind_act pml4_phys_addr (\<lambda>pml4. modify (fold (unmap_page pml4) (page_steps start stop)))"

definition user_map_page :: "nat \<Rightarrow> nat \<Rightarrow> nat \<Rightarrow> ReadWrite \<Rightarrow> PageWriteThroughLevel \<Rightarrow> bool \<Rightarrow> (paging, unit) act" where
  "user_map_page pml4 i page_phys r w c =
     bind_act (ensure_task_table pml4 (pml4_entry_index i) r w c) (\<lambda>_.
     bind_act (entry_of pml4 (pml4_entry_index i)) (\<lambda>e4.
     bind_act (ensure_task_table (pte_addr e4) (pml3_entry_index i) r w c) (\<lambda>_.
     bind_act (entry_of (pte_addr e4) (pml3_entry_index i)) (\<lambda>e3.
     bind_act (ensure_task_table (pte_addr e3) (pml2_entry_index i) r w c) (\<lambda>_.
     bind_act (entry_of (pte_addr e3) (pml2_entry_index i)) (\<lambda>e2.
     update_entry (pte_addr e2) (pml1_entry_index i) (set_entry page_phys r User w c)))))))"

definition user_map ::
  "nat \<Rightarrow> nat \<Rightarrow> nat \<Rightarrow> ReadWrite \<Rightarrow> PageWriteThroughLevel \<Rightarrow> bool \<Rightarrow> (paging, unit) act" where
  "user_map start stop phys_addr r w c =
     bind_act pml4_phys_addr (\<lambda>pml4.
     for_each (page_steps start stop) (\<lambda>i.
       bind_act (lift_outcome (uadd phys_addr (i - start))) (\<lambda>page_phys.
       user_map_page pml4 i page_phys r w c)))"

end
