(* ===== verification/Paging_Walk.thy ===== *)
theory Paging_Walk
  imports Paging
begin

unbundle bit_operations_syntax

text \<open>
  What the page tables promise. The reference is the translation of an address space, a partial function from a
  path of four indices to an entry. The tables of a space hang together by \<open>follow\<close>; the space owns some of them,
  each reached by one path only, and shares the others. Writing an owned table changes only what lies below the written entry:
  hanging a fresh table there changes no translation, and writing a leaf changes one.
\<close>

subsection \<open>Bits of entries\<close>

lemma bit_push_one: "bit (push_bit k 1 :: u64) n \<longleftrightarrow> n = k \<and> k < 64"
  by (auto simp: bit_exp_iff)

lemma single_bits:
  "bit (1 :: u64) n \<longleftrightarrow> n = 0" "bit (2 :: u64) n \<longleftrightarrow> n = 1" "bit (4 :: u64) n \<longleftrightarrow> n = 2"
  "bit (8 :: u64) n \<longleftrightarrow> n = 3" "bit (16 :: u64) n \<longleftrightarrow> n = 4" "bit (128 :: u64) n \<longleftrightarrow> n = 7"
  using bit_push_one [of 0 n] bit_push_one [of 1 n] bit_push_one [of 2 n] bit_push_one [of 3 n] bit_push_one [of 4 n] bit_push_one [of 7 n]
  by simp_all

lemma mask_bits: "bit (0x0000007ffffff000 :: u64) n \<longleftrightarrow> 12 \<le> n \<and> n < 39"
proof -
  have "bit (0x0000007ffffff000 :: u64) n = bit (mask 39 AND NOT (mask 12) :: u64) n" by (simp add: mask_eq_exp_minus_1)
  then show ?thesis by (simp only: bit_and_iff bit_not_iff bit_mask_iff) auto
qed

lemma and_single:
  fixes m e :: u64
  assumes "\<And>n. bit m n \<longleftrightarrow> n = k"
  shows "e AND m \<noteq> 0 \<longleftrightarrow> bit e k"
proof
  assume nz: "e AND m \<noteq> 0"
  show "bit e k"
  proof (rule ccontr)
    assume "\<not> bit e k"
    then have "e AND m = 0" by (intro bit_eqI) (auto simp: bit_and_iff assms)
    then show False using nz by simp
  qed
next
  assume "bit e k"
  then have "bit (e AND m) k" using assms by (simp add: bit_and_iff)
  then show "e AND m \<noteq> 0" by auto
qed

lemma pte_bits:
  "pte_p e \<longleftrightarrow> bit e 0" "pte_rw e = (if bit e 1 then WriteAccess else ReadAccess)"
  "pte_us e = (if bit e 2 then User else Supervisor)" "pte_page_size e \<longleftrightarrow> bit e 7"
  using and_single [OF single_bits(1)] and_single [OF single_bits(2)] and_single [OF single_bits(3)] and_single [OF single_bits(6)]
  by (auto simp: pte_p_def pte_rw_def pte_us_def pte_page_size_def)

lemma flag_bits:
  "bit (push_bit k (rw_bit r)) n \<longleftrightarrow> n = k \<and> k < 64 \<and> r = WriteAccess"
  "bit (push_bit k (us_bit u)) n \<longleftrightarrow> n = k \<and> k < 64 \<and> u = User"
  "bit (push_bit k (pwt_bit w)) n \<longleftrightarrow> n = k \<and> k < 64 \<and> w = WriteThrough"
  "bit (push_bit k (if c then 1 else 0) :: u64) n \<longleftrightarrow> n = k \<and> k < 64 \<and> c"
  using bit_push_one [of k n] by (cases r; cases u; cases w; simp)+

lemma bit_if_one: "bit (if v then 1 else 0 :: u64) n \<longleftrightarrow> n = 0 \<and> v"
  by (simp add: single_bits)

lemma bit_setters:
  assumes "n < 64"
  shows "bit (set_p v e) n = (if n = 0 then v else bit e n)"
    and "bit (set_rw r e) n = (if n = 1 then r = WriteAccess else bit e n)"
    and "bit (set_us u e) n = (if n = 2 then u = User else bit e n)"
    and "bit (set_pwt w e) n = (if n = 3 then w = WriteThrough else bit e n)"
    and "bit (set_pcd c e) n = (if n = 4 then c else bit e n)"
    and "bit (set_addr a e) n = (if 12 \<le> n \<and> n < 39 then bit a n else bit e n)"
  using assms unfolding set_p_def set_rw_def set_us_def set_pwt_def set_pcd_def set_addr_def ADDR_MASK_def bit_or_iff
    bit_and_iff bit_not_iff mask_bits single_bits flag_bits bit_of_nat_iff bit_if_one
  by auto

lemma pte_addr_bits: "bit (pte_addr e) n \<longleftrightarrow> 12 \<le> n \<and> n < 39 \<and> bit e n"
  unfolding pte_addr_def ADDR_MASK_def bit_unsigned_iff bit_and_iff mask_bits by auto

lemma page_addr_bits:
  fixes a :: nat
  assumes "4096 dvd a" and "a < 2 ^ 39" and b: "bit a n"
  shows "12 \<le> n \<and> n < 39"
proof -
  have "take_bit 12 a = 0" using assms(1) by (simp add: take_bit_eq_mod dvd_eq_mod_eq_0)
  then have "\<not> bit (take_bit 12 a) n" by simp
  then have "\<not> (n < 12)" using b by (simp add: bit_take_bit_iff)
  moreover have "take_bit 39 a = a" using assms(2) by (simp add: take_bit_nat_eq_self)
  then have "n < 39" using b by (metis bit_take_bit_iff)
  ultimately show ?thesis by simp
qed

lemma pte_addr_set:
  assumes "4096 dvd a" and "a < 2 ^ 39"
  shows "pte_addr (set_addr a e) = a"
proof (rule bit_eqI)
  fix n show "bit (pte_addr (set_addr a e)) n = bit a n"
    using page_addr_bits [OF assms, of n] by (cases "n < 64") (auto simp: pte_addr_bits bit_setters)
qed

lemma pte_addr_flags [simp]:
  "pte_addr (set_p v e) = pte_addr e" "pte_addr (set_rw r e) = pte_addr e" "pte_addr (set_us u e) = pte_addr e"
  "pte_addr (set_pwt w e) = pte_addr e" "pte_addr (set_pcd c e) = pte_addr e"
  by (rule bit_eqI, auto simp: pte_addr_bits bit_setters)+

lemma set_entry_fields:
  "pte_p (set_entry a r u w c e)" "pte_rw (set_entry a r u w c e) = r" "pte_us (set_entry a r u w c e) = u"
  "pte_page_size (set_entry a r u w c e) = pte_page_size e"
  "4096 dvd a \<Longrightarrow> a < 2 ^ 39 \<Longrightarrow> pte_addr (set_entry a r u w c e) = a"
  by (cases r; cases u; simp add: set_entry_def pte_bits bit_setters pte_addr_set)+

lemma raise_entry_fields:
  "pte_p (raise_entry r u e) = pte_p e" "pte_page_size (raise_entry r u e) = pte_page_size e"
  "pte_addr (raise_entry r u e) = pte_addr e"
  by (auto simp: raise_entry_def Let_def pte_bits bit_setters)

lemma set_addr_fields:
  "pte_p (set_addr a e) = pte_p e" "pte_page_size (set_addr a e) = pte_page_size e"
  by (auto simp: pte_bits bit_setters)

lemma zero_entry [simp]: "\<not> pte_p 0" "\<not> pte_page_size 0"
  by (simp_all add: pte_bits)

subsection \<open>Following tables\<close>

text \<open>The table that a path of indices leads to, and the present entry at the end of one more index.\<close>

fun follow :: "table_mem \<Rightarrow> nat \<Rightarrow> nat list \<Rightarrow> nat option" where
  "follow T t [] = Some t"
| "follow T t (i # is) = Option.bind (lookup_step T t i) (\<lambda>t'. follow T t' is)"

definition entry_at :: "table_mem \<Rightarrow> nat \<Rightarrow> nat list \<Rightarrow> nat \<Rightarrow> PageTableEntry option" where
  "entry_at T r q i = Option.bind (follow T r q) (\<lambda>t. if pte_p (T t i) then Some (T t i) else None)"

lemma follow_snoc: "follow T r (q @ [i]) = Option.bind (follow T r q) (\<lambda>t. lookup_step T t i)"
  by (induction q arbitrary: r) (auto split: Option.bind_splits)

definition va_path :: "nat \<Rightarrow> nat list" where
  "va_path va = [pml4_entry_index va, pml3_entry_index va, pml2_entry_index va]"

lemma va_path_length [simp]: "length (va_path va) = 3"
  by (simp add: va_path_def)

lemma lookup_pte_entry: "lookup_pte T r va = entry_at T r (va_path va) (pml1_entry_index va)"
  by (simp add: lookup_pte_def entry_at_def va_path_def bind_assoc if_distrib split: Option.bind_splits cong: if_cong)

text \<open>An address space: the tables below the root \<open>r\<close>. It owns the tables \<open>own\<close>, each of which has one path; no table
  is a free page of the set \<open>free\<close>, and there are no large pages.\<close>

definition space :: "table_mem \<Rightarrow> nat \<Rightarrow> nat set \<Rightarrow> nat set \<Rightarrow> bool" where
  "space T r own free \<longleftrightarrow> r \<in> own \<and>
     (\<forall>q q' a. length q \<le> 3 \<longrightarrow> length q' \<le> 3 \<longrightarrow> follow T r q = Some a \<longrightarrow> follow T r q' = Some a \<longrightarrow> a \<in> own \<longrightarrow> q = q') \<and>
     (\<forall>q a. length q \<le> 3 \<longrightarrow> follow T r q = Some a \<longrightarrow> a div PAGE_SIZE \<notin> free) \<and>
     (\<forall>q a i. length q \<le> 2 \<longrightarrow> follow T r q = Some a \<longrightarrow> \<not> pte_page_size (T a i)) \<and>
     (\<forall>a\<in>own. a div PAGE_SIZE \<notin> free)"

lemma spaceD:
  assumes "space T r own free"
  shows "r \<in> own"
    and "length q \<le> 3 \<Longrightarrow> length q' \<le> 3 \<Longrightarrow> follow T r q = Some a \<Longrightarrow> follow T r q' = Some a \<Longrightarrow> a \<in> own \<Longrightarrow> q = q'"
    and "length q \<le> 3 \<Longrightarrow> follow T r q = Some a \<Longrightarrow> a div PAGE_SIZE \<notin> free"
    and "length q \<le> 2 \<Longrightarrow> follow T r q = Some a \<Longrightarrow> \<not> pte_page_size (T a i)"
    and "a \<in> own \<Longrightarrow> a div PAGE_SIZE \<notin> free"
  using assms unfolding space_def by blast+

lemma spaceI:
  assumes "r \<in> own"
    and "\<And>q q' a. length q \<le> 3 \<Longrightarrow> length q' \<le> 3 \<Longrightarrow> follow T r q = Some a \<Longrightarrow> follow T r q' = Some a \<Longrightarrow> a \<in> own \<Longrightarrow> q = q'"
    and "\<And>q a. length q \<le> 3 \<Longrightarrow> follow T r q = Some a \<Longrightarrow> a div PAGE_SIZE \<notin> free"
    and "\<And>q a i. length q \<le> 2 \<Longrightarrow> follow T r q = Some a \<Longrightarrow> \<not> pte_page_size (T a i)"
    and "\<And>a. a \<in> own \<Longrightarrow> a div PAGE_SIZE \<notin> free"
  shows "space T r own free"
  using assms unfolding space_def by blast

text \<open>Hanging the fresh page \<open>c\<close>, which looks as what was there before, below entry \<open>i\<close> of an owned table.\<close>

definition graft :: "table_mem \<Rightarrow> nat \<Rightarrow> (nat \<Rightarrow> PageTableEntry) \<Rightarrow> nat \<Rightarrow> nat \<Rightarrow> PageTableEntry \<Rightarrow> table_mem" where
  "graft T c X t i e = (T(c := X))(t := (T t)(i := e))"

lemma graft_tables:
  "c \<noteq> t \<Longrightarrow> graft T c X t i e c = X" "graft T c X t i e t = (T t)(i := e)" "a \<noteq> c \<Longrightarrow> a \<noteq> t \<Longrightarrow> graft T c X t i e a = T a"
  by (simp_all add: graft_def)

lemma graft_follow:
  assumes sp: "space T r own free" and path: "follow T r path = Some t" "t \<in> own" "length path \<le> 2"
    and c: "c div PAGE_SIZE \<in> free" and e: "pte_p e" "\<not> pte_page_size e" "pte_addr e = c"
    and X: "\<And>j. (if pte_p (X j) then entry_page_table (X j) else None) = Option.bind (lookup_step T t i) (\<lambda>b. lookup_step T b j)"
  shows "length q \<le> 4 \<Longrightarrow> follow (graft T c X t i e) r q = (if q = path @ [i] then Some c else follow T r q)"
proof (induction q rule: rev_induct)
  case (snoc j q)
  have ct: "c \<noteq> t" using spaceD(5) [OF sp path(2)] c by auto
  have IH: "follow (graft T c X t i e) r q = (if q = path @ [i] then Some c else follow T r q)" using snoc by simp
  show ?case
  proof (cases "q = path @ [i]")
    case True
    then have "follow (graft T c X t i e) r (q @ [j]) = lookup_step (graft T c X t i e) c j"
      using IH unfolding follow_snoc [of _ r q j] by simp
    also have "\<dots> = (if pte_p (X j) then entry_page_table (X j) else None)" using ct by (simp add: lookup_step_def graft_tables)
    also have "\<dots> = follow T r (q @ [j])" using True X path(1) unfolding follow_snoc [of _ r q j] by (simp add: follow_snoc)
    finally show ?thesis using True by simp
  next
    case False
    then have q: "follow (graft T c X t i e) r (q @ [j]) = Option.bind (follow T r q) (\<lambda>a. lookup_step (graft T c X t i e) a j)"
      using IH by (simp add: follow_snoc)
    show ?thesis
    proof (cases "follow T r q")
      case None
      then show ?thesis using q path(1) by (auto simp: follow_snoc)
    next
      case (Some a)
      have "a \<noteq> c" using spaceD(3) [OF sp _ Some] snoc.prems c by auto
      show ?thesis
      proof (cases "a = t")
        case True
        then have "q = path" using spaceD(2) [OF sp _ _ Some] path snoc.prems by simp
        moreover have "lookup_step (graft T c X t i e) t j = (if j = i then Some c else lookup_step T t j)"
          using e by (simp add: lookup_step_def graft_tables entry_page_table_def)
        ultimately show ?thesis using q Some True path(1) unfolding follow_snoc [of T r q j] by simp
      next
        case ne: False
        then have "q \<noteq> path" using Some path(1) by auto
        moreover have "lookup_step (graft T c X t i e) a j = lookup_step T a j"
          using ne \<open>a \<noteq> c\<close> by (simp add: lookup_step_def graft_tables)
        ultimately show ?thesis using q Some unfolding follow_snoc [of T r q j] by simp
      qed
    qed
  qed
qed simp

lemma graft_entry:
  assumes sp: "space T r own free" and path: "follow T r path = Some t" "t \<in> own" "length path \<le> 2"
    and c: "c div PAGE_SIZE \<in> free" and e: "pte_p e" "\<not> pte_page_size e" "pte_addr e = c"
    and X: "\<And>j. (if pte_p (X j) then entry_page_table (X j) else None) = Option.bind (lookup_step T t i) (\<lambda>b. lookup_step T b j)"
    and leaf: "\<And>j. (if pte_p (X j) then Some (X j) else None) = entry_at T r (path @ [i]) j"
    and q: "length q \<le> 3"
  shows "entry_at (graft T c X t i e) r q j = (if q = path \<and> j = i then Some e else entry_at T r q j)"
proof -
  have ct: "c \<noteq> t" using spaceD(5) [OF sp path(2)] c by auto
  note fol = graft_follow [OF sp path c e X, of q]
  show ?thesis
  proof (cases "q = path @ [i]")
    case True
    then have "entry_at (graft T c X t i e) r q j = (if pte_p (X j) then Some (X j) else None)"
      using fol q ct by (simp add: entry_at_def graft_tables)
    then show ?thesis using leaf True q by simp
  next
    case False
    show ?thesis
    proof (cases "follow T r q")
      case (Some a)
      have "a \<noteq> c" using spaceD(3) [OF sp _ Some] q c by auto
      moreover have "a = t \<longleftrightarrow> q = path" using spaceD(2) [OF sp _ _ Some, of path] path q Some by auto
      ultimately show ?thesis using fol False Some q e by (cases "a = t") (auto simp: entry_at_def graft_tables)
    qed (use fol False q path(1) in \<open>auto simp: entry_at_def\<close>)
  qed
qed

lemma graft_space:
  assumes sp: "space T r own free" and path: "follow T r path = Some t" "t \<in> own" "length path \<le> 2"
    and c: "c div PAGE_SIZE \<in> free" and e: "pte_p e" "\<not> pte_page_size e" "pte_addr e = c"
    and X: "\<And>j. (if pte_p (X j) then entry_page_table (X j) else None) = Option.bind (lookup_step T t i) (\<lambda>b. lookup_step T b j)"
    and huge: "\<And>j. length path \<le> 1 \<Longrightarrow> \<not> pte_page_size (X j)"
    and free': "free' = free - {c div PAGE_SIZE}"
  shows "space (graft T c X t i e) r (insert c own) free'"
proof (rule spaceI)
  note fol = graft_follow [OF sp path c e X]
  have new: "follow T r q \<noteq> Some c" if "length q \<le> 3" for q using spaceD(3) [OF sp that] c by blast
  show "r \<in> insert c own" using spaceD(1) [OF sp] by simp
  show "q = q'" if "length q \<le> 3" "length q' \<le> 3" "follow (graft T c X t i e) r q = Some a"
    "follow (graft T c X t i e) r q' = Some a" "a \<in> insert c own" for q q' a
  proof (cases "a = c")
    case True
    then show ?thesis using that new [of q] new [of q'] fol [of q] fol [of q'] by (simp split: if_splits)
  next
    case False
    then show ?thesis using that fol [of q] fol [of q'] spaceD(2) [OF sp, of q q' a] by (auto split: if_splits)
  qed
  show "a div PAGE_SIZE \<notin> free'" if "length q \<le> 3" "follow (graft T c X t i e) r q = Some a" for q a
    using that fol [of q] spaceD(3) [OF sp, of q a] by (auto simp: free' split: if_splits)
  show "\<not> pte_page_size (graft T c X t i e a j)" if "length q \<le> 2" "follow (graft T c X t i e) r q = Some a" for q a j
  proof (cases "q = path @ [i]")
    case True
    moreover have "c \<noteq> t" using spaceD(5) [OF sp path(2)] c by auto
    ultimately show ?thesis using that fol [of q] huge by (auto simp: graft_tables)
  next
    case False
    then have "follow T r q = Some a" using that fol [of q] by simp
    then show ?thesis using that new [of q] spaceD(4) [OF sp, of q a] e by (cases "a = t") (auto simp: graft_tables)
  qed
  show "a div PAGE_SIZE \<notin> free'" if "a \<in> insert c own" for a
    using that spaceD(5) [OF sp] by (auto simp: free')
qed

text \<open>Changing the access bits of an upper entry, and writing an entry of the lowest level.\<close>

lemma same_steps_follow:
  "(\<And>a j. lookup_step T' a j = lookup_step T a j) \<Longrightarrow> follow T' r q = follow T r q"
  by (induction q arbitrary: r) (simp_all split: Option.bind_splits)

lemma flags_write:
  assumes sp: "space T r own free" and path: "follow T r path = Some t" "t \<in> own" "length path \<le> 2"
    and e: "pte_p e = pte_p (T t i)" "pte_page_size e = pte_page_size (T t i)" "pte_addr e = pte_addr (T t i)"
  defines "T' \<equiv> T(t := (T t)(i := e))"
  shows "follow T' r q = follow T r q"
    and "length q \<le> 3 \<Longrightarrow> entry_at T' r q j = (if q = path \<and> j = i \<and> pte_p e then Some e else entry_at T r q j)"
    and "space T' r own free"
proof -
  have "lookup_step T' a j = lookup_step T a j" for a j
    using e by (auto simp: T'_def lookup_step_def entry_page_table_def)
  then show fol: "follow T' r q = follow T r q" for q by (rule same_steps_follow)
  show "entry_at T' r q j = (if q = path \<and> j = i \<and> pte_p e then Some e else entry_at T r q j)" if q: "length q \<le> 3"
  proof (cases "follow T r q")
    case (Some a)
    have "a = t \<longleftrightarrow> q = path" using spaceD(2) [OF sp _ _ Some, of path] path q Some by auto
    then show ?thesis using fol Some e by (cases "a = t") (auto simp: entry_at_def T'_def)
  qed (use fol path(1) in \<open>auto simp: entry_at_def\<close>)
  have "\<not> pte_page_size (T' a j)" if "length q \<le> 2" "follow T r q = Some a" for q a j
    using that e spaceD(4) [OF sp, of q a] by (auto simp: T'_def)
  then show "space T' r own free" using sp unfolding space_def fol by blast
qed

lemma leaf_write:
  fixes e :: PageTableEntry and i :: nat
  assumes sp: "space T r own free" and path: "follow T r path = Some t" "t \<in> own" "length path = 3"
  defines "T' \<equiv> T(t := (T t)(i := e))"
  shows "length q \<le> 3 \<Longrightarrow> follow T' r q = follow T r q"
    and "length q \<le> 3 \<Longrightarrow> entry_at T' r q j =
      (if q = path \<and> j = i then (if pte_p e then Some e else None) else entry_at T r q j)"
    and "space T' r own free"
proof -
  have up: "a \<noteq> t" if "length q \<le> 2" "follow T r q = Some a" for q a
    using that spaceD(2) [OF sp _ _ that(2), of path] path by auto
  show fol: "follow T' r q = follow T r q" if "length q \<le> 3" for q
    using that
  proof (induction q rule: rev_induct)
    case (snoc k q)
    then show ?case using up [of q] by (cases "follow T r q") (auto simp: follow_snoc T'_def lookup_step_def)
  qed simp
  show "entry_at T' r q j = (if q = path \<and> j = i then (if pte_p e then Some e else None) else entry_at T r q j)" if q: "length q \<le> 3"
  proof (cases "follow T r q")
    case (Some a)
    have "a = t \<longleftrightarrow> q = path" using spaceD(2) [OF sp _ _ Some, of path] path q Some by auto
    then show ?thesis using fol q Some by (auto simp: entry_at_def T'_def)
  next
    case None
    then show ?thesis using fol q path(1) by (auto simp: entry_at_def)
  qed
  show "space T' r own free"
  proof (rule spaceI)
    show "\<not> pte_page_size (T' a j)" if "length q \<le> 2" "follow T' r q = Some a" for q a j
      using that fol [of q] up [of q a] spaceD(4) [OF sp, of q a] by (auto simp: T'_def)
    show "q = q'" if "length q \<le> 3" "length q' \<le> 3" "follow T' r q = Some a" "follow T' r q' = Some a" "a \<in> own" for q q' a
      using that fol [of q] fol [of q'] spaceD(2) [OF sp, of q q' a] by simp
    show "a div PAGE_SIZE \<notin> free" if "length q \<le> 3" "follow T' r q = Some a" for q a
      using that fol [of q] spaceD(3) [OF sp, of q a] by simp
  qed (use spaceD(1,5) [OF sp] in auto)
qed

subsection \<open>Allocating tables\<close>

text \<open>The allocator works and its frames have addresses that fit into an entry.\<close>

definition pool_ok :: "BitmapMemoryManager \<Rightarrow> bool" where
  "pool_ok b \<longleftrightarrow> bmm_inv b \<and> total_frame_len b * PAGE_SIZE \<le> 2 ^ 39"

lemma alloc_one_cases:
  assumes "pool_ok (pg_frames s)"
  obtains (found) f b where "alloc_one s = (Ok f, s\<lparr>pg_frames := b\<rparr>)" "pool_ok b"
      "frame_start_phys_addr f div PAGE_SIZE \<in> free_frames (pg_frames s)"
      "free_frames b = free_frames (pg_frames s) - {frame_start_phys_addr f div PAGE_SIZE}"
      "PAGE_SIZE dvd frame_start_phys_addr f" "frame_start_phys_addr f < 2 ^ 39"
    | (failed) e where "alloc_one s = (Err e, s)"
proof -
  have inv: "bmm_inv (pg_frames s)" using assms by (simp add: pool_ok_def)
  show thesis
  proof (cases rule: alloc_multi_cases [OF inv, of 1, case_names found failed])
    case (found f b)
    then obtain a where a: "f = frame_at a 1" "a \<in> free_frames (pg_frames s)" "free_frames b = free_frames (pg_frames s) - {a}"
      "bmm_inv b" "same_layout (pg_frames s) b"
      by (auto simp: alloc_post_def)
    have "a < total_frame_len (pg_frames s)" using inv a(2) by (auto simp: bmm_inv_def)
    then have "a * PAGE_SIZE < total_frame_len (pg_frames s) * PAGE_SIZE" by simp
    then have "a * PAGE_SIZE < 2 ^ 39" using assms unfolding pool_ok_def by linarith
    moreover have "pool_ok b" using assms a(4,5) by (simp add: pool_ok_def same_layout_def)
    ultimately show thesis using that(1) [of f b] found(1) a by (simp add: alloc_one_def frame_at_def)
  next
    case (failed e)
    then show thesis using that(2) by (simp add: alloc_one_def)
  qed
qed

subsection \<open>The next table on a path\<close>

text \<open>Access bits of upper entries only ever grow.\<close>

definition at_least :: "ReadWrite \<Rightarrow> EntryMode \<Rightarrow> PageTableEntry \<Rightarrow> bool" where
  "at_least w u e \<longleftrightarrow> (w = WriteAccess \<longrightarrow> pte_rw e = WriteAccess) \<and> (u = User \<longrightarrow> pte_us e = User)"

definition access_grows :: "table_mem \<Rightarrow> table_mem \<Rightarrow> nat \<Rightarrow> bool" where
  "access_grows T T' r \<longleftrightarrow> (\<forall>q j e. length q \<le> 2 \<longrightarrow> entry_at T r q j = Some e \<longrightarrow>
     (\<exists>e'. entry_at T' r q j = Some e' \<and> at_least (pte_rw e) (pte_us e) e'))"

lemma at_least_refl [simp]: "at_least (pte_rw e) (pte_us e) e"
  by (simp add: at_least_def)

lemma at_least_trans: "at_least w u e \<Longrightarrow> at_least (pte_rw e) (pte_us e) e' \<Longrightarrow> at_least w u e'"
  by (auto simp: at_least_def)

lemma access_grows_refl [simp]: "access_grows T T r"
  by (simp add: access_grows_def)

lemma access_grows_trans: "access_grows T T' r \<Longrightarrow> access_grows T' T'' r \<Longrightarrow> access_grows T T'' r"
  unfolding access_grows_def by (meson at_least_trans)

lemma raise_at_least: "at_least w u (raise_entry w u e)" "at_least (pte_rw e) (pte_us e) (raise_entry w u e)"
  by (cases w; cases u; auto simp: at_least_def raise_entry_def Let_def pte_bits bit_setters)+

lemma set_entry_at_least: "at_least w u (set_entry a w u pw c e)"
  by (simp add: at_least_def set_entry_fields)

text \<open>What making sure of the table below entry \<open>i\<close> of table \<open>t\<close> does to the space below root \<open>r\<close>.\<close>

definition hung ::
  "nat \<Rightarrow> nat list \<Rightarrow> nat \<Rightarrow> nat \<Rightarrow> ReadWrite \<Rightarrow> EntryMode \<Rightarrow> nat set \<Rightarrow> nat set \<Rightarrow> paging \<Rightarrow> paging \<Rightarrow> bool" where
  "hung r path t i w u own own' s s' \<longleftrightarrow>
     pool_ok (pg_frames s') \<and> space (tables s') r own' (free_frames (pg_frames s')) \<and> own \<subseteq> own' \<and>
     (\<forall>a\<in>own' - own. a div PAGE_SIZE \<in> free_frames (pg_frames s)) \<and>
     free_frames (pg_frames s') \<subseteq> free_frames (pg_frames s) \<and>
     (\<forall>a. a \<notin> own' \<longrightarrow> tables s' a = tables s a) \<and>
     (\<forall>q j. length q = 3 \<longrightarrow> entry_at (tables s') r q j = entry_at (tables s) r q j) \<and>
     access_grows (tables s) (tables s') r \<and>
     (\<forall>q. length q \<le> 3 \<longrightarrow> q \<noteq> path @ [i] \<longrightarrow> follow (tables s') r q = follow (tables s) r q) \<and>
     (\<exists>e. tables s' t i = e \<and> entry_at (tables s') r path i = Some e \<and> at_least w u e \<and> entry_page_table e = Some (pte_addr e) \<and>
       follow (tables s') r (path @ [i]) = Some (pte_addr e) \<and> pte_addr e \<in> own')"

lemma hung_trans:
  assumes "hung r path t i w0 u0 own own1 s s1" and "hung r path t i w u own1 own2 s1 s2"
  shows "hung r path t i w u own own2 s s2"
proof -
  have a: "own \<subseteq> own1" "\<forall>a\<in>own1 - own. a div PAGE_SIZE \<in> free_frames (pg_frames s)"
    "free_frames (pg_frames s1) \<subseteq> free_frames (pg_frames s)" "\<forall>a. a \<notin> own1 \<longrightarrow> tables s1 a = tables s a"
    "\<forall>q j. length q = 3 \<longrightarrow> entry_at (tables s1) r q j = entry_at (tables s) r q j" "access_grows (tables s) (tables s1) r"
    "\<forall>q. length q \<le> 3 \<longrightarrow> q \<noteq> path @ [i] \<longrightarrow> follow (tables s1) r q = follow (tables s) r q"
    using assms(1) by (simp_all add: hung_def)
  have b: "own1 \<subseteq> own2" "\<forall>a\<in>own2 - own1. a div PAGE_SIZE \<in> free_frames (pg_frames s1)"
    "free_frames (pg_frames s2) \<subseteq> free_frames (pg_frames s1)" "\<forall>a. a \<notin> own2 \<longrightarrow> tables s2 a = tables s1 a"
    "\<forall>q j. length q = 3 \<longrightarrow> entry_at (tables s2) r q j = entry_at (tables s1) r q j" "access_grows (tables s1) (tables s2) r"
    "\<forall>q. length q \<le> 3 \<longrightarrow> q \<noteq> path @ [i] \<longrightarrow> follow (tables s2) r q = follow (tables s1) r q"
    using assms(2) by (simp_all add: hung_def)
  have "\<forall>a\<in>own2 - own. a div PAGE_SIZE \<in> free_frames (pg_frames s)" using a(2,3) b(2) by blast
  moreover have "\<forall>a. a \<notin> own2 \<longrightarrow> tables s2 a = tables s a" using a(4) b(1,4) by (metis subsetD)
  moreover have "access_grows (tables s) (tables s2) r" by (rule access_grows_trans [OF a(6) b(6)])
  moreover have "own \<subseteq> own2" "free_frames (pg_frames s2) \<subseteq> free_frames (pg_frames s)" using a(1,3) b(1,3) by blast+
  moreover have "\<forall>q j. length q = 3 \<longrightarrow> entry_at (tables s2) r q j = entry_at (tables s) r q j"
    "\<forall>q. length q \<le> 3 \<longrightarrow> q \<noteq> path @ [i] \<longrightarrow> follow (tables s2) r q = follow (tables s) r q"
    using a(5,7) b(5,7) by simp_all
  ultimately show ?thesis using assms(2) by (simp add: hung_def)
qed

lemma hung_raise:
  assumes pool: "pool_ok (pg_frames s)" and sp: "space (tables s) r own (free_frames (pg_frames s))"
    and path: "follow (tables s) r path = Some t" "t \<in> own" "length path \<le> 2"
    and here: "pte_p (tables s t i)" "pte_addr (tables s t i) \<in> own"
  shows "hung r path t i w u own own s (s\<lparr>tables := (tables s)(t := (tables s t)(i := raise_entry w u (tables s t i)))\<rparr>)"
proof -
  let ?e = "raise_entry w u (tables s t i)" and ?T = "(tables s)(t := (tables s t)(i := raise_entry w u (tables s t i)))"
  note e = raise_entry_fields [of w u "tables s t i"]
  note wr = flags_write [OF sp path e]
  have huge: "\<not> pte_page_size (tables s t i)" using spaceD(4) [OF sp] path by blast
  have old: "entry_at (tables s) r path i = Some (tables s t i)" using path(1) here(1) by (simp add: entry_at_def)
  have "access_grows (tables s) ?T r" unfolding access_grows_def
  proof (intro allI impI)
    fix q j e0 assume "length q \<le> 2" "entry_at (tables s) r q j = Some e0"
    then show "\<exists>e'. entry_at ?T r q j = Some e' \<and> at_least (pte_rw e0) (pte_us e0) e'"
      using wr(2) [of q j] old raise_at_least(2) here(1) e(1) by (cases "q = path \<and> j = i") auto
  qed
  moreover have "follow ?T r (path @ [i]) = Some (pte_addr ?e)"
    using wr(1) path(1) here(1) huge e by (simp add: follow_snoc lookup_step_def entry_page_table_def)
  moreover have "entry_at ?T r path i = Some ?e" using wr(2) [of path i] path(3) here(1) e(1) by simp
  moreover have "entry_at ?T r q j = entry_at (tables s) r q j" if "length q = 3" for q j using wr(2) [of q j] that path(3) by auto
  ultimately show ?thesis using pool wr(1,3) here(2) huge e raise_at_least(1) [of w u "tables s t i"] path(2)
    unfolding hung_def by (intro conjI) (auto simp: entry_page_table_def)
qed

lemma hung_graft:
  assumes sp: "space (tables s) r own (free_frames (pg_frames s))"
    and path: "follow (tables s) r path = Some t" "t \<in> own" "length path \<le> 2"
    and c: "c div PAGE_SIZE \<in> free_frames (pg_frames s)" and e: "pte_p e" "\<not> pte_page_size e" "pte_addr e = c"
    and X: "\<And>j. (if pte_p (X j) then entry_page_table (X j) else None) =
        Option.bind (lookup_step (tables s) t i) (\<lambda>b. lookup_step (tables s) b j)"
    and leaf: "\<And>j. (if pte_p (X j) then Some (X j) else None) = entry_at (tables s) r (path @ [i]) j"
    and huge: "\<And>j. length path \<le> 1 \<Longrightarrow> \<not> pte_page_size (X j)"
    and acc: "at_least w u e" "pte_p (tables s t i) \<Longrightarrow> at_least (pte_rw (tables s t i)) (pte_us (tables s t i)) e"
    and s': "pool_ok (pg_frames s')" "free_frames (pg_frames s') = free_frames (pg_frames s) - {c div PAGE_SIZE}"
      "tables s' = graft (tables s) c X t i e"
  shows "hung r path t i w u own (insert c own) s s'"
proof -
  note fol = graft_follow [OF sp path c e X]
  note ent = graft_entry [OF sp path c e X leaf]
  have sp': "space (tables s') r (insert c own) (free_frames (pg_frames s'))"
    unfolding s'(3) by (rule graft_space [OF sp path c e X huge s'(2)])
  have "access_grows (tables s) (tables s') r" unfolding access_grows_def
  proof (intro allI impI)
    fix q j e0 assume q: "length q \<le> 2" "entry_at (tables s) r q j = Some e0"
    then have "q = path \<and> j = i \<Longrightarrow> e0 = tables s t i \<and> pte_p e0"
      using path(1) by (auto simp: entry_at_def split: if_splits)
    then show "\<exists>e'. entry_at (tables s') r q j = Some e' \<and> at_least (pte_rw e0) (pte_us e0) e'"
      using ent [of q j] q acc(2) by (cases "q = path \<and> j = i") (auto simp: s'(3))
  qed
  moreover have "entry_at (tables s') r q j = entry_at (tables s) r q j" if "length q = 3" for q j
    using ent [of q j] that path(3) by (auto simp: s'(3))
  moreover have "tables s' a = tables s a" if "a \<notin> insert c own" for a
    using that path(2) graft_tables(3) [of a c t] by (auto simp: s'(3))
  moreover have "c \<noteq> t" using spaceD(5) [OF sp path(2)] c by auto
  ultimately show ?thesis using s' sp' fol ent [of path i] e acc(1) path(3) c
    unfolding hung_def by (intro conjI) (auto simp: entry_page_table_def graft_tables)
qed

lemma hung_new:
  assumes sp: "space (tables s) r own (free_frames (pg_frames s))"
    and path: "follow (tables s) r path = Some t" "t \<in> own" "length path \<le> 2" and none: "\<not> pte_p (tables s t i)"
    and c: "c div PAGE_SIZE \<in> free_frames (pg_frames s)" "PAGE_SIZE dvd c" "c < 2 ^ 39"
    and s': "pool_ok (pg_frames s')" "free_frames (pg_frames s') = free_frames (pg_frames s) - {c div PAGE_SIZE}"
      "tables s' = graft (tables s) c (\<lambda>_. 0) t i (set_entry c w u pw cd (tables s t i))"
  shows "hung r path t i w u own (insert c own) s s'"
proof (rule hung_graft [OF sp path c(1) _ _ _ _ _ _ set_entry_at_least _ s'])
  have "\<not> pte_page_size (tables s t i)" using spaceD(4) [OF sp _ path(1)] path(3) by simp
  then show "\<not> pte_page_size (set_entry c w u pw cd (tables s t i))" by (simp add: set_entry_fields)
  show "pte_addr (set_entry c w u pw cd (tables s t i)) = c" using c(2,3) by (simp add: set_entry_fields)
  show "(if pte_p 0 then entry_page_table 0 else None) = Option.bind (lookup_step (tables s) t i) (\<lambda>b. lookup_step (tables s) b j)" for j
    using none by (simp add: lookup_step_def)
  show "(if pte_p 0 then Some 0 else None) = entry_at (tables s) r (path @ [i]) j" for j
    using none path(1) by (simp add: entry_at_def follow_snoc lookup_step_def)
qed (use none in \<open>simp_all add: set_entry_fields\<close>)

lemma hung_clone:
  assumes sp: "space (tables s) r own (free_frames (pg_frames s))"
    and path: "follow (tables s) r path = Some t" "t \<in> own" "length path \<le> 2" and pres: "pte_p (tables s t i)"
    and c: "c div PAGE_SIZE \<in> free_frames (pg_frames s)" "PAGE_SIZE dvd c" "c < 2 ^ 39"
    and s': "pool_ok (pg_frames s')" "free_frames (pg_frames s') = free_frames (pg_frames s) - {c div PAGE_SIZE}"
      "tables s' = graft (tables s) c (tables s (pte_addr (tables s t i))) t i (set_addr c (tables s t i))"
  shows "hung r path t i ReadAccess Supervisor own (insert c own) s s'"
proof (rule hung_graft [OF sp path c(1) _ _ _ _ _ _ _ _ s'])
  let ?b = "pte_addr (tables s t i)"
  have huge: "\<not> pte_page_size (tables s t i)" using spaceD(4) [OF sp _ path(1)] path(3) by simp
  then have step: "lookup_step (tables s) t i = Some ?b" using pres by (simp add: lookup_step_def entry_page_table_def)
  have fol: "follow (tables s) r (path @ [i]) = Some ?b" using path(1) step by (simp add: follow_snoc)
  show "pte_p (set_addr c (tables s t i))" "\<not> pte_page_size (set_addr c (tables s t i))"
    using pres huge by (simp_all add: set_addr_fields)
  show "pte_addr (set_addr c (tables s t i)) = c" using c(2,3) by (simp add: pte_addr_set)
  show "(if pte_p (tables s ?b j) then entry_page_table (tables s ?b j) else None) =
      Option.bind (lookup_step (tables s) t i) (\<lambda>b. lookup_step (tables s) b j)" for j
    by (simp add: step) (simp add: lookup_step_def)
  show "(if pte_p (tables s ?b j) then Some (tables s ?b j) else None) = entry_at (tables s) r (path @ [i]) j" for j
    by (simp add: entry_at_def fol)
  show "\<not> pte_page_size (tables s ?b j)" if "length path \<le> 1" for j using spaceD(4) [OF sp _ fol] that by simp
qed (auto simp: at_least_def pte_bits bit_setters)

subsection \<open>Tables of a task\<close>

definition own_tables :: "nat \<Rightarrow> paging \<Rightarrow> nat set" where
  "own_tables r s = insert r (frame_start_phys_addr ` set (allocated_frames (user_pt s)))"

definition fixed_part :: "paging \<Rightarrow> (nat \<times> nat \<times> MemoryFrame option)" where
  "fixed_part s = (kernel_pml4_phys s, cr3_reg s, pml4_frame (user_pt s))"

lemma own_tables_fields [simp]: "own_tables r (s\<lparr>tables := T\<rparr>) = own_tables r s" "own_tables r (s\<lparr>pg_frames := b\<rparr>) = own_tables r s"
  "fixed_part (s\<lparr>tables := T\<rparr>) = fixed_part s" "fixed_part (s\<lparr>pg_frames := b\<rparr>) = fixed_part s"
  by (simp_all add: own_tables_def fixed_part_def)

lemma ensure_task_table_run:
  assumes pool: "pool_ok (pg_frames s)" and sp: "space (tables s) r (own_tables r s) (free_frames (pg_frames s))"
    and path: "follow (tables s) r path = Some t" "t \<in> own_tables r s" "length path \<le> 2"
  shows "(\<exists>e. ensure_task_table t i w pw c s = (Err e, s)) \<or>
    (\<exists>s'. ensure_task_table t i w pw c s = (Ok (), s') \<and> hung r path t i w User (own_tables r s) (own_tables r s') s s' \<and>
      fixed_part s' = fixed_part s)"
proof (cases "pte_p (tables s t i)")
  case False
  show ?thesis
  proof (cases rule: alloc_one_cases [OF pool, case_names found failed])
    case (found f b)
    let ?c = "frame_start_phys_addr f"
    have ct: "?c \<noteq> t" using spaceD(5) [OF sp path(2)] found(3) by auto
    define s1 where "s1 = s\<lparr>pg_frames := b, tables := graft (tables s) ?c (\<lambda>_. 0) t i (set_entry ?c w User pw c (tables s t i)),
      user_pt := (user_pt s)\<lparr>allocated_frames := allocated_frames (user_pt s) @ [f]\<rparr>\<rparr>"
    have run: "ensure_task_table t i w pw c s = (Ok (), s1)"
      using False found(1) ct
      by (simp add: ensure_task_table_def entry_of_def gets_def bind_act_def zero_table_def update_entry_def write_entry_def
          modify_def push_owned_def s1_def graft_def fun_upd_twist)
    have own: "own_tables r s1 = insert ?c (own_tables r s)" by (auto simp: own_tables_def s1_def)
    have "hung r path t i w User (own_tables r s) (insert ?c (own_tables r s)) s s1"
      by (rule hung_new [OF sp path False found(3,5,6), where s' = s1]) (use found(2,4) in \<open>simp_all add: s1_def\<close>)
    moreover have "fixed_part s1 = fixed_part s" by (simp add: s1_def fixed_part_def)
    ultimately show ?thesis using run own by auto
  next
    case (failed e)
    then show ?thesis using False by (simp add: ensure_task_table_def entry_of_def gets_def bind_act_def)
  qed
next
  case True
  let ?b = "pte_addr (tables s t i)"
  define s2 where "s2 u = u\<lparr>tables := (tables u)(t := (tables u t)(i := raise_entry w User (tables u t i)))\<rparr>" for u :: paging
  show ?thesis
  proof (cases "list_ex (\<lambda>f. frame_start_phys_addr f = ?b) (allocated_frames (user_pt s))")
    case owned: True
    have run: "ensure_task_table t i w pw c s = (Ok (), s2 s)"
      using True owned
      by (simp add: ensure_task_table_def entry_of_def gets_def bind_act_def update_entry_def write_entry_def modify_def
          s2_def return_act_def)
    have "?b \<in> own_tables r s" using owned by (force simp: own_tables_def list_ex_iff image_iff)
    then show ?thesis using run hung_raise [OF pool sp path True, of w User] by (auto simp: s2_def)
  next
    case shared: False
    show ?thesis
    proof (cases rule: alloc_one_cases [OF pool, case_names found failed])
      case (found f b)
      let ?c = "frame_start_phys_addr f"
      have ct: "?c \<noteq> t" using spaceD(5) [OF sp path(2)] found(3) by auto
      define s1 where "s1 = s\<lparr>pg_frames := b, tables := graft (tables s) ?c (tables s ?b) t i (set_addr ?c (tables s t i)),
        user_pt := (user_pt s)\<lparr>allocated_frames := allocated_frames (user_pt s) @ [f]\<rparr>\<rparr>"
      have run: "ensure_task_table t i w pw c s = (Ok (), s2 s1)"
        using True shared found(1) ct
        by (simp add: ensure_task_table_def entry_of_def gets_def bind_act_def update_entry_def write_entry_def modify_def
            clone_table_entries_def copy_table_def return_act_def push_owned_def s1_def s2_def graft_def fun_upd_twist)
      have own: "own_tables r s1 = insert ?c (own_tables r s)" by (auto simp: own_tables_def s1_def)
      have h1: "hung r path t i ReadAccess Supervisor (own_tables r s) (own_tables r s1) s s1"
        unfolding own by (rule hung_clone [OF sp path True found(3,5,6), where s' = s1]) (use found(2,4) in \<open>simp_all add: s1_def\<close>)
      have "hung r path t i w User (own_tables r s1) (own_tables r s1) s1 (s2 s1)"
      proof -
        have "path \<noteq> path @ [i]" by simp
        then have "follow (tables s1) r path = Some t" using h1 path unfolding hung_def by auto
        moreover have "pte_p (tables s1 t i)" "pte_addr (tables s1 t i) \<in> own_tables r s1"
          using h1 unfolding hung_def by (auto simp: entry_at_def split: if_splits Option.bind_splits)
        moreover have "t \<in> own_tables r s1" using path(2) own by simp
        ultimately show ?thesis unfolding s2_def
          by (intro hung_raise) (use h1 path(3) in \<open>auto simp: hung_def\<close>)
      qed
      then have "hung r path t i w User (own_tables r s) (own_tables r (s2 s1)) s (s2 s1)"
        using hung_trans [OF h1] by (simp add: s2_def)
      moreover have "fixed_part (s2 s1) = fixed_part s" by (simp add: s1_def s2_def fixed_part_def)
      ultimately show ?thesis using run by blast
    next
      case (failed e)
      then show ?thesis using True shared
        by (simp add: ensure_task_table_def entry_of_def gets_def bind_act_def clone_table_entries_def)
    qed
  qed
qed

subsection \<open>Mapping a page for a task\<close>

definition user_space :: "nat \<Rightarrow> paging \<Rightarrow> bool" where
  "user_space r s \<longleftrightarrow> pool_ok (pg_frames s) \<and> space (tables s) r (own_tables r s) (free_frames (pg_frames s))"

text \<open>The table at the end of a path is the task's own.\<close>

definition owned_path :: "nat \<Rightarrow> paging \<Rightarrow> nat list \<Rightarrow> bool" where
  "owned_path r s q \<longleftrightarrow> (\<exists>a. follow (tables s) r q = Some a \<and> a \<in> own_tables r s)"

text \<open>From \<open>s\<close> to \<open>s'\<close> the space may have got more tables, out of free frames, and nothing but its own tables
  has been written.\<close>

definition extends :: "nat \<Rightarrow> paging \<Rightarrow> paging \<Rightarrow> bool" where
  "extends r s s' \<longleftrightarrow> user_space r s' \<and> own_tables r s \<subseteq> own_tables r s' \<and>
     (\<forall>a\<in>own_tables r s' - own_tables r s. a div PAGE_SIZE \<in> free_frames (pg_frames s)) \<and>
     free_frames (pg_frames s') \<subseteq> free_frames (pg_frames s) \<and>
     (\<forall>a. a \<notin> own_tables r s' \<longrightarrow> tables s' a = tables s a) \<and>
     access_grows (tables s) (tables s') r \<and> (\<forall>q. length q \<le> 3 \<longrightarrow> owned_path r s q \<longrightarrow> owned_path r s' q) \<and>
     fixed_part s' = fixed_part s"

lemma extends_refl: "user_space r s \<Longrightarrow> extends r s s"
  by (simp add: extends_def)

lemma extends_trans:
  assumes "extends r s s1" and "extends r s1 s2"
  shows "extends r s s2"
proof -
  have "\<forall>a\<in>own_tables r s2 - own_tables r s. a div PAGE_SIZE \<in> free_frames (pg_frames s)"
    using assms unfolding extends_def by blast
  moreover have "\<forall>a. a \<notin> own_tables r s2 \<longrightarrow> tables s2 a = tables s a"
    using assms unfolding extends_def by (metis subsetD)
  moreover have "access_grows (tables s) (tables s2) r"
    using assms access_grows_trans unfolding extends_def by blast
  moreover have "own_tables r s \<subseteq> own_tables r s2" "free_frames (pg_frames s2) \<subseteq> free_frames (pg_frames s)"
    using assms unfolding extends_def by blast+
  ultimately show ?thesis using assms by (simp add: extends_def)
qed

definition same_leaves :: "nat \<Rightarrow> paging \<Rightarrow> paging \<Rightarrow> bool" where
  "same_leaves r s s' \<longleftrightarrow> (\<forall>q j. length q = 3 \<longrightarrow> entry_at (tables s') r q j = entry_at (tables s) r q j)"

lemma hung_extends:
  assumes "hung r path t i w User (own_tables r s) (own_tables r s') s s'" and "fixed_part s' = fixed_part s"
  shows "extends r s s'" "same_leaves r s s'"
proof -
  have "owned_path r s' q" if "length q \<le> 3" "owned_path r s q" for q
    using assms(1) that unfolding hung_def owned_path_def by (cases "q = path @ [i]") auto
  then show "extends r s s'" "same_leaves r s s'"
    using assms by (simp_all add: hung_def extends_def user_space_def same_leaves_def)
qed

text \<open>One level of the walk: what the caller of \<open>ensure_task_table\<close> gets.\<close>

lemma ensure_level:
  assumes us: "user_space r s" and path: "follow (tables s) r path = Some t" "t \<in> own_tables r s" "length path \<le> 2"
  obtains (failed) e where "ensure_task_table t i w pw c s = (Err e, s)"
    | (ready) s' e where "ensure_task_table t i w pw c s = (Ok (), s')" "extends r s s'" "same_leaves r s s'"
      "tables s' t i = e" "entry_at (tables s') r path i = Some e" "at_least w User e"
      "follow (tables s') r (path @ [i]) = Some (pte_addr e)" "pte_addr e \<in> own_tables r s'"
proof -
  have "pool_ok (pg_frames s)" "space (tables s) r (own_tables r s) (free_frames (pg_frames s))"
    using us by (simp_all add: user_space_def)
  from ensure_task_table_run [OF this path, of i w pw c] show thesis
  proof (elim disjE exE conjE)
    fix s' assume run: "ensure_task_table t i w pw c s = (Ok (), s')"
      "hung r path t i w User (own_tables r s) (own_tables r s') s s'" "fixed_part s' = fixed_part s"
    note ext = hung_extends [OF run(2,3)]
    show thesis using ready [OF run(1) ext] run(2) unfolding hung_def by auto
  qed (rule failed)
qed

definition page_mapped :: "table_mem \<Rightarrow> nat \<Rightarrow> nat \<Rightarrow> nat \<Rightarrow> ReadWrite \<Rightarrow> EntryMode \<Rightarrow> bool" where
  "page_mapped T r va a w u \<longleftrightarrow>
     (\<exists>e. lookup_pte T r va = Some e \<and> pte_addr e = a \<and> pte_rw e = w \<and> pte_us e = u) \<and>
     (\<forall>k<3. \<exists>e. entry_at T r (take k (va_path va)) (va_path va ! k) = Some e \<and> at_least w u e)"

definition task_page :: "nat \<Rightarrow> paging \<Rightarrow> nat \<Rightarrow> nat \<Rightarrow> ReadWrite \<Rightarrow> bool" where
  "task_page r s va a w \<longleftrightarrow> page_mapped (tables s) r va a w User \<and> owned_path r s (va_path va)"

lemma user_leaf:
  fixes e :: PageTableEntry and i :: nat
  assumes us: "user_space r s" and path: "follow (tables s) r path = Some t" "t \<in> own_tables r s" "length path = 3"
  defines "s' \<equiv> s\<lparr>tables := (tables s)(t := (tables s t)(i := e))\<rparr>"
  shows "extends r s s'" "length q \<le> 3 \<Longrightarrow> entry_at (tables s') r q j =
      (if q = path \<and> j = i then (if pte_p e then Some e else None) else entry_at (tables s) r q j)"
proof -
  have sp: "space (tables s) r (own_tables r s) (free_frames (pg_frames s))" using us by (simp add: user_space_def)
  note wr = leaf_write [OF sp path, where i = i and e = e]
  show ent: "length q \<le> 3 \<Longrightarrow> entry_at (tables s') r q j =
      (if q = path \<and> j = i then (if pte_p e then Some e else None) else entry_at (tables s) r q j)" for q j
    using wr(2) [of q j] by (simp add: s'_def)
  have "access_grows (tables s) (tables s') r" unfolding access_grows_def using ent path(3) by (auto simp: s'_def)
  moreover have "user_space r s'" using us wr(3) by (simp add: user_space_def s'_def)
  moreover have "owned_path r s' q" if "length q \<le> 3" "owned_path r s q" for q
    using that wr(1) [of q] by (simp add: owned_path_def s'_def)
  ultimately show "extends r s s'" using path(2) by (auto simp: extends_def s'_def)
qed

lemma extends_entry:
  assumes "extends r s s'" and "entry_at (tables s) r q j = Some e" and "length q \<le> 2" and "at_least w u e"
  shows "\<exists>e'. entry_at (tables s') r q j = Some e' \<and> at_least w u e'"
  using assms at_least_trans unfolding extends_def access_grows_def by blast

lemma user_map_page_run:
  assumes us: "user_space r s" and a: "PAGE_SIZE dvd a" "a < 2 ^ 39"
  shows "(\<exists>e s'. user_map_page r i a w pw c s = (Err e, s') \<and> extends r s s' \<and> same_leaves r s s') \<or>
    (\<exists>s'. user_map_page r i a w pw c s = (Ok (), s') \<and> extends r s s' \<and> task_page r s' i a w \<and>
      (\<forall>q j. length q = 3 \<longrightarrow> (q, j) \<noteq> (va_path i, pml1_entry_index i) \<longrightarrow>
        entry_at (tables s') r q j = entry_at (tables s) r q j))"
proof -
  let ?i4 = "pml4_entry_index i" and ?i3 = "pml3_entry_index i" and ?i2 = "pml2_entry_index i" and ?i1 = "pml1_entry_index i"
  note run = user_map_page_def bind_act_def entry_of_def gets_def
  have r: "follow (tables s) r [] = Some r" "r \<in> own_tables r s" "length ([] :: nat list) \<le> 2" by (simp_all add: own_tables_def)
  show ?thesis
  proof (cases rule: ensure_level [OF us r, of ?i4 w pw c, case_names failed ready])
    case (failed e)
    then show ?thesis using extends_refl [OF us] by (simp add: run same_leaves_def)
  next
    case one: (ready s1 e4)
    have us1: "user_space r s1" using one(2) by (simp add: extends_def)
    have p1: "follow (tables s1) r [?i4] = Some (pte_addr e4)" "length [?i4] \<le> 2" using one(7) by simp_all
    show ?thesis
    proof (cases rule: ensure_level [OF us1 p1(1) one(8) p1(2), of ?i3 w pw c, case_names failed ready])
      case (failed e)
      then show ?thesis using one by (simp add: run)
    next
      case two: (ready s2 e3)
      have us2: "user_space r s2" using two(2) by (simp add: extends_def)
      have p2: "follow (tables s2) r [?i4, ?i3] = Some (pte_addr e3)" "length [?i4, ?i3] \<le> 2" using two(7) by simp_all
      have x2: "extends r s s2" by (rule extends_trans [OF one(2) two(2)])
      have l2: "same_leaves r s s2" using one(3) two(3) by (simp add: same_leaves_def)
      show ?thesis
      proof (cases rule: ensure_level [OF us2 p2(1) two(8) p2(2), of ?i2 w pw c, case_names failed ready])
        case (failed e)
        then show ?thesis using one two x2 l2 by (simp add: run)
      next
        case three: (ready s3 e2)
        have us3: "user_space r s3" using three(2) by (simp add: extends_def)
        have p3: "follow (tables s3) r (va_path i) = Some (pte_addr e2)" "length (va_path i) = 3"
          using three(7) by (simp_all add: va_path_def)
        have x3: "extends r s s3" by (rule extends_trans [OF x2 three(2)])
        let ?e1 = "set_entry a w User pw c (tables s3 (pte_addr e2) ?i1)"
        define s4 where "s4 = s3\<lparr>tables := (tables s3)(pte_addr e2 := (tables s3 (pte_addr e2))(?i1 := ?e1))\<rparr>"
        note leaf = user_leaf [OF us3 p3(1) three(8) p3(2), where i = ?i1 and e = ?e1, folded s4_def]
        have go: "user_map_page r i a w pw c s = (Ok (), s4)"
          using one(1,4) two(1,4) three(1,4) by (simp add: run update_entry_def write_entry_def modify_def s4_def)
        have x4: "extends r s s4" by (rule extends_trans [OF x3 leaf(1)])
        have "lookup_pte (tables s4) r i = Some ?e1" using leaf(2) [of "va_path i"] by (simp add: lookup_pte_entry set_entry_fields)
        moreover have "\<forall>k<3. \<exists>e. entry_at (tables s4) r (take k (va_path i)) (va_path i ! k) = Some e \<and> at_least w User e"
        proof (intro allI impI)
          fix k :: nat assume "k < 3"
          then consider "k = 0" | "k = 1" | "k = 2" by linarith
          then show "\<exists>e. entry_at (tables s4) r (take k (va_path i)) (va_path i ! k) = Some e \<and> at_least w User e"
          proof cases
            case 1
            then show ?thesis
              using extends_entry [OF extends_trans [OF two(2) extends_trans [OF three(2) leaf(1)]] one(5) _ one(6)]
              by (simp add: va_path_def)
          next
            case 2
            then show ?thesis using extends_entry [OF extends_trans [OF three(2) leaf(1)] two(5) _ two(6)] by (simp add: va_path_def)
          next
            case 3
            then show ?thesis using extends_entry [OF leaf(1) three(5) _ three(6)] by (simp add: va_path_def)
          qed
        qed
        ultimately have "page_mapped (tables s4) r i a w User" using a by (simp add: page_mapped_def set_entry_fields)
        moreover have "owned_path r s3 (va_path i)" using p3(1) three(8) by (simp add: owned_path_def)
        then have "owned_path r s4 (va_path i)" using leaf(1) by (simp add: extends_def)
        ultimately have "task_page r s4 i a w" by (simp add: task_page_def)
        moreover have "entry_at (tables s4) r q j = entry_at (tables s) r q j"
          if "length q = 3" "(q, j) \<noteq> (va_path i, ?i1)" for q j
          using that leaf(2) [of q j] l2 three(3) by (auto simp: same_leaves_def)
        ultimately show ?thesis using go x4 by blast
      qed
    qed
  qed
qed

subsection \<open>Pages and their paths\<close>

definition page_key :: "nat \<Rightarrow> nat list \<times> nat" where
  "page_key va = (va_path va, pml1_entry_index va)"

lemma index_digits:
  "pml4_entry_index va = va div PAGE_SIZE div 512 div 512 div 512 mod 512" "pml3_entry_index va = va div PAGE_SIZE div 512 div 512 mod 512"
  "pml2_entry_index va = va div PAGE_SIZE div 512 mod 512" "pml1_entry_index va = va div PAGE_SIZE mod 512"
proof -
  have m: "x AND 0x1ff = x mod 512" for x :: nat
    using take_bit_eq_mask [of 9 x] by (simp add: mask_eq_exp_minus_1 take_bit_eq_mod)
  show "pml4_entry_index va = va div PAGE_SIZE div 512 div 512 div 512 mod 512" "pml3_entry_index va = va div PAGE_SIZE div 512 div 512 mod 512"
    "pml2_entry_index va = va div PAGE_SIZE div 512 mod 512" "pml1_entry_index va = va div PAGE_SIZE mod 512"
    by (simp_all add: pml4_entry_index_def pml3_entry_index_def pml2_entry_index_def pml1_entry_index_def m drop_bit_eq_div
        div_mult2_eq [symmetric])
qed

text \<open>The addresses that the processor accepts: bit 47 is repeated in the bits above it.\<close>

definition canonical :: "nat \<Rightarrow> bool" where
  "canonical va \<longleftrightarrow> va < 2 ^ 47 \<or> 2 ^ 64 - 2 ^ 47 \<le> va \<and> va < 2 ^ 64"

definition canonical_range :: "nat \<Rightarrow> nat \<Rightarrow> bool" where
  "canonical_range start stop \<longleftrightarrow> stop \<le> 2 ^ 47 \<or> 2 ^ 64 - 2 ^ 47 \<le> start \<and> stop \<le> 2 ^ 64"

lemma canonical_rangeD: "canonical_range start stop \<Longrightarrow> start \<le> va \<Longrightarrow> va < stop \<Longrightarrow> canonical va"
  by (auto simp: canonical_range_def canonical_def)

lemma page_key_inj:
  assumes "page_key va = page_key vb" and "canonical va" and "canonical vb"
  shows "va div PAGE_SIZE = vb div PAGE_SIZE"
proof -
  define x y where "x = va div PAGE_SIZE" and "y = vb div PAGE_SIZE"
  have half: "n div PAGE_SIZE < 2 ^ 35 \<or> 2 ^ 52 - 2 ^ 35 \<le> n div PAGE_SIZE \<and> n div PAGE_SIZE < 2 ^ 52" if "canonical n" for n :: nat
    using that by (auto simp: canonical_def div_less_iff_less_mult less_eq_div_iff_mult_less_eq)
  have "x div 512 div 512 div 512 mod 512 = y div 512 div 512 div 512 mod 512" "x div 512 div 512 mod 512 = y div 512 div 512 mod 512"
    "x div 512 mod 512 = y div 512 mod 512" "x mod 512 = y mod 512"
    using assms(1) by (simp_all add: page_key_def va_path_def index_digits x_def y_def)
  then have "x mod (512 * (512 * (512 * 512))) = y mod (512 * (512 * (512 * 512)))" by (simp only: mod_mult2_eq)
  then have "x mod 2 ^ 36 = y mod 2 ^ 36" by simp
  moreover have "z = (let w = z mod 2 ^ 36 in if w < 2 ^ 35 then w else 2 ^ 36 * (2 ^ 16 - 1) + w)"
    if "z < 2 ^ 35 \<or> 2 ^ 52 - 2 ^ 35 \<le> z \<and> z < 2 ^ 52" for z :: nat
  proof (cases "z < 2 ^ 35")
    case False
    define w where "w = z - 2 ^ 36 * (2 ^ 16 - 1)"
    have w: "z = w + 2 ^ 36 * (2 ^ 16 - 1)" "2 ^ 35 \<le> w" "w < 2 ^ 36" using that False by (auto simp: w_def)
    have "z mod 2 ^ 36 = w" unfolding w(1) using w(3) by (simp only: mod_mult_self2 mod_less)
    then show ?thesis using w(1,2) by (simp add: Let_def)
  qed simp
  ultimately have "x = y" using half [OF assms(2)] half [OF assms(3)] unfolding x_def [symmetric] y_def [symmetric] by metis
  then show ?thesis by (simp add: x_def y_def)
qed

lemma page_key_page: "va div PAGE_SIZE = vb div PAGE_SIZE \<Longrightarrow> page_key va = page_key vb"
  by (simp add: page_key_def va_path_def index_digits)

lemma lookup_same:
  "entry_at T' r (fst (page_key va)) (snd (page_key va)) = entry_at T r (fst (page_key va)) (snd (page_key va)) \<Longrightarrow>
   lookup_pte T' r va = lookup_pte T r va"
  by (simp add: lookup_pte_entry page_key_def)

lemma page_mapped_kept:
  assumes "page_mapped (tables s) r va a w u" and "extends r s s'"
    and "entry_at (tables s') r (va_path va) (pml1_entry_index va) = entry_at (tables s) r (va_path va) (pml1_entry_index va)"
  shows "page_mapped (tables s') r va a w u"
  unfolding page_mapped_def
proof (intro conjI allI impI)
  show "\<exists>e. lookup_pte (tables s') r va = Some e \<and> pte_addr e = a \<and> pte_rw e = w \<and> pte_us e = u"
    using assms(1,3) by (simp add: page_mapped_def lookup_pte_entry)
  fix k :: nat assume k: "k < 3"
  then obtain e where "entry_at (tables s) r (take k (va_path va)) (va_path va ! k) = Some e" "at_least w u e"
    using assms(1) by (auto simp: page_mapped_def)
  then show "\<exists>e. entry_at (tables s') r (take k (va_path va)) (va_path va ! k) = Some e \<and> at_least w u e"
    using extends_entry [OF assms(2)] k by (simp add: min_def)
qed

lemma task_page_kept:
  assumes "task_page r s va a w" and "extends r s s'"
    and "entry_at (tables s') r (va_path va) (pml1_entry_index va) = entry_at (tables s) r (va_path va) (pml1_entry_index va)"
  shows "task_page r s' va a w"
  using assms page_mapped_kept [OF _ assms(2,3)] unfolding task_page_def extends_def by simp

lemma user_map_loop:
  assumes pages: "distinct (map (\<lambda>k. page_key (start + k * PAGE_SIZE)) ks)" and aligned: "PAGE_SIZE dvd phys"
    and fits: "\<forall>k\<in>set ks. phys + k * PAGE_SIZE < 2 ^ 39"
  shows "user_space r s \<Longrightarrow> \<exists>res s'. for_each (map (\<lambda>k. start + k * PAGE_SIZE) ks) (\<lambda>i.
       bind_act (lift_outcome (uadd phys (i - start))) (\<lambda>a. user_map_page r i a w pw c)) s = (res, s') \<and>
     res \<noteq> Panic \<and> extends r s s' \<and>
     (\<forall>q j. length q = 3 \<longrightarrow> (\<forall>k\<in>set ks. (q, j) \<noteq> page_key (start + k * PAGE_SIZE)) \<longrightarrow>
       entry_at (tables s') r q j = entry_at (tables s) r q j) \<and>
     (res = Ok () \<longrightarrow> (\<forall>k\<in>set ks. task_page r s' (start + k * PAGE_SIZE) (phys + k * PAGE_SIZE) w))"
  using pages fits
proof (induction ks arbitrary: s)
  case Nil
  then show ?case using extends_refl by (simp add: return_act_def)
next
  case (Cons k ks)
  let ?i = "start + k * PAGE_SIZE" and ?a = "phys + k * PAGE_SIZE"
  have a: "PAGE_SIZE dvd ?a" "?a < 2 ^ 39" using aligned Cons.prems(3) by simp_all
  then have add: "uadd phys (?i - start) = Ok ?a" by simp
  from user_map_page_run [OF Cons.prems(1) a, of ?i w pw c] show ?case
  proof (elim disjE exE conjE)
    fix e s1 assume "user_map_page r ?i ?a w pw c s = (Err e, s1)" "extends r s s1" "same_leaves r s s1"
    then show ?thesis using add by (simp add: bind_act_def lift_outcome_def same_leaves_def)
  next
    fix s1 assume one: "user_map_page r ?i ?a w pw c s = (Ok (), s1)" "extends r s s1" "task_page r s1 ?i ?a w"
      "\<forall>q j. length q = 3 \<longrightarrow> (q, j) \<noteq> (va_path ?i, pml1_entry_index ?i) \<longrightarrow> entry_at (tables s1) r q j = entry_at (tables s) r q j"
    have us1: "user_space r s1" using one(2) by (simp add: extends_def)
    have ks: "distinct (map (\<lambda>k. page_key (start + k * PAGE_SIZE)) ks)" "\<forall>k\<in>set ks. phys + k * PAGE_SIZE < 2 ^ 39"
      using Cons.prems(2,3) by simp_all
    obtain res s' where rest: "for_each (map (\<lambda>k. start + k * PAGE_SIZE) ks) (\<lambda>i.
         bind_act (lift_outcome (uadd phys (i - start))) (\<lambda>a. user_map_page r i a w pw c)) s1 = (res, s')"
      "res \<noteq> Panic" "extends r s1 s'"
      "\<forall>q j. length q = 3 \<longrightarrow> (\<forall>k\<in>set ks. (q, j) \<noteq> page_key (start + k * PAGE_SIZE)) \<longrightarrow>
        entry_at (tables s') r q j = entry_at (tables s1) r q j"
      "res = Ok () \<longrightarrow> (\<forall>k\<in>set ks. task_page r s' (start + k * PAGE_SIZE) (phys + k * PAGE_SIZE) w)"
      using Cons.IH [OF us1 ks] by blast
    have "(va_path ?i, pml1_entry_index ?i) \<noteq> page_key (start + l * PAGE_SIZE)" if "l \<in> set ks" for l
      using Cons.prems(2) that by (auto simp: page_key_def)
    then have "task_page r s' ?i ?a w"
      using task_page_kept [OF one(3) rest(3)] rest(4) by simp
    then have "res = Ok () \<longrightarrow> (\<forall>l\<in>set (k # ks). task_page r s' (start + l * PAGE_SIZE) (phys + l * PAGE_SIZE) w)"
      using rest(5) by simp
    moreover have "for_each (map (\<lambda>k. start + k * PAGE_SIZE) (k # ks)) (\<lambda>i.
         bind_act (lift_outcome (uadd phys (i - start))) (\<lambda>a. user_map_page r i a w pw c)) s = (res, s')"
      using add one(1) rest(1) by (simp add: bind_act_def lift_outcome_def)
    moreover have "\<forall>q j. length q = 3 \<longrightarrow> (\<forall>l\<in>set (k # ks). (q, j) \<noteq> page_key (start + l * PAGE_SIZE)) \<longrightarrow>
       entry_at (tables s') r q j = entry_at (tables s) r q j"
      using rest(4) one(4) by (auto simp: page_key_def)
    ultimately show ?thesis using rest(2) extends_trans [OF one(2) rest(3)] by blast
  qed
qed

lemma page_steps_aligned:
  assumes "PAGE_SIZE dvd start" and "PAGE_SIZE dvd stop"
  shows "page_steps start stop = map (\<lambda>k. start + k * PAGE_SIZE) [0..<(stop - start) div PAGE_SIZE]"
proof -
  have "PAGE_SIZE dvd stop - start" using assms by simp
  then have "(stop - start + (PAGE_SIZE - 1)) div PAGE_SIZE = (stop - start) div PAGE_SIZE" by auto
  then show ?thesis by (simp add: page_steps_def)
qed

lemma page_of_range:
  assumes "PAGE_SIZE dvd start" and "PAGE_SIZE dvd stop" and "start \<le> va" and "va < stop"
  shows "\<exists>k < (stop - start) div PAGE_SIZE. va div PAGE_SIZE = (start + k * PAGE_SIZE) div PAGE_SIZE \<and>
    va - start = k * PAGE_SIZE + va mod PAGE_SIZE"
proof -
  obtain m n where mn: "start = PAGE_SIZE * m" "stop = PAGE_SIZE * n" using assms(1,2) by (auto elim!: dvdE)
  have "va div PAGE_SIZE < n" using assms(4) mn(2) by (simp add: div_less_iff_less_mult mult.commute)
  moreover have "m \<le> va div PAGE_SIZE" using assms(3) mn(1) by (simp add: less_eq_div_iff_mult_less_eq mult.commute)
  moreover have "va = va div PAGE_SIZE * PAGE_SIZE + va mod PAGE_SIZE" by simp
  ultimately show ?thesis
    by (intro exI [of _ "va div PAGE_SIZE - m"]) (auto simp: mn algebra_simps diff_mult_distrib)
qed

lemma page_offset_mod: "va AND 0xfff = va mod PAGE_SIZE" for va :: nat
  using take_bit_eq_mask [of 12 va] by (simp add: mask_eq_exp_minus_1 take_bit_eq_mod)

lemma or_page_offset:
  fixes a va :: nat
  assumes "PAGE_SIZE dvd a"
  shows "a OR (va AND 0xfff) = a + va mod PAGE_SIZE"
proof -
  have "a OR (va mod PAGE_SIZE) = a + va mod PAGE_SIZE"
  proof (rule disjunctive_add_eq_or [symmetric])
    have "take_bit 12 a = 0" using assms by (simp add: take_bit_eq_mod dvd_eq_mod_eq_0)
    then have "\<not> bit (take_bit 12 a) n" for n by simp
    then have "\<not> bit a n" if "n < 12" for n using that by (simp add: bit_take_bit_iff)
    moreover have "\<not> bit (va mod PAGE_SIZE) n" if "12 \<le> n" for n
      using that bit_take_bit_iff [of 12 va n] by (simp add: take_bit_eq_mod)
    ultimately have "\<not> (bit a n \<and> bit (va mod PAGE_SIZE) n)" for n by (meson not_le)
    then show "a AND va mod PAGE_SIZE = 0" by (intro bit_eqI) (auto simp: bit_and_iff)
  qed
  then show ?thesis by (simp add: page_offset_mod)
qed

end
