(* ===== verification/Paging_Spaces.thy ===== *)
theory Paging_Spaces
  imports Paging_Walk
begin

unbundle bit_operations_syntax

text \<open>
  Address spaces of tasks: what \<open>new_cloned_from_kernel\<close>, \<open>map\<close> and \<open>unmap\<close> of a task's page table do to the
  translation of that task and to those of the kernel and of the other tasks.
\<close>

subsection \<open>Enough memory\<close>

text \<open>An action takes at most \<open>n\<close> frames and returns no error when that many are left.\<close>

definition spare :: "paging \<Rightarrow> nat" where
  "spare s = card (free_frames (pg_frames s) - {0})"

definition costs :: "nat \<Rightarrow> (paging, 'a) act \<Rightarrow> bool" where
  "costs n m \<longleftrightarrow> (\<forall>s res s'. pool_ok (pg_frames s) \<longrightarrow> m s = (res, s') \<longrightarrow>
     pool_ok (pg_frames s') \<and> spare s \<le> spare s' + n \<and> (n \<le> spare s \<longrightarrow> (\<forall>e. res \<noteq> Err e)))"

lemma costsD:
  assumes "costs n m" and "pool_ok (pg_frames s)" and "m s = (res, s')"
  shows "pool_ok (pg_frames s')" "spare s \<le> spare s' + n" "n \<le> spare s \<Longrightarrow> res \<noteq> Err e"
  using assms unfolding costs_def by blast+

lemma costsI:
  assumes "\<And>s res s'. pool_ok (pg_frames s) \<Longrightarrow> m s = (res, s') \<Longrightarrow>
    pool_ok (pg_frames s') \<and> spare s \<le> spare s' + n \<and> (n \<le> spare s \<longrightarrow> (\<forall>e. res \<noteq> Err e))"
  shows "costs n m"
  using assms unfolding costs_def by blast

lemma costs_mono: "costs n m \<Longrightarrow> n \<le> k \<Longrightarrow> costs k m"
  by (rule costsI, frule (2) costsD(1), frule (2) costsD(2)) (auto dest: costsD(3))

lemma costs_bind:
  assumes "costs n m" and "\<And>x. costs k (f x)"
  shows "costs (n + k) (bind_act m f)"
proof (rule costsI)
  fix s res s' assume pool: "pool_ok (pg_frames s)" and run: "bind_act m f s = (res, s')"
  obtain r1 s1 where m: "m s = (r1, s1)" by fastforce
  note c = costsD [OF assms(1) pool m]
  show "pool_ok (pg_frames s') \<and> spare s \<le> spare s' + (n + k) \<and> (n + k \<le> spare s \<longrightarrow> (\<forall>e. res \<noteq> Err e))"
  proof (cases r1)
    case (Ok x)
    then have "f x s1 = (res, s')" using run m by (simp add: bind_act_def)
    note d = costsD [OF assms(2) c(1) this]
    show ?thesis using c(2) d by auto
  next
    case (Err e)
    then show ?thesis using run m c(1,2) c(3) [of e] by (auto simp: bind_act_def)
  next
    case Panic
    then show ?thesis using run m c(1,2) by (auto simp: bind_act_def)
  qed
qed

lemma costs_free:
  "costs 0 (return_act x)" "costs 0 (entry_of t i)" "costs 0 (write_entry t i e)" "costs 0 (zero_table f)"
  "costs 0 (copy_table src f)" "costs 0 (push_owned f)" "costs 0 (lift_outcome (Ok x))" "costs 0 (lift_outcome Panic)"
  "costs 0 (gets g)" "costs 0 pml4_phys_addr"
  by (auto simp: costs_def return_act_def entry_of_def gets_def write_entry_def modify_def zero_table_def copy_table_def
      push_owned_def lift_outcome_def spare_def pml4_phys_addr_def split: option.splits)

lemma costs_then: "costs 0 m \<Longrightarrow> (\<And>x. costs k (f x)) \<Longrightarrow> costs k (bind_act m f)"
  using costs_bind [of 0 m k f] by simp

lemma costs_and: "costs n m \<Longrightarrow> (\<And>x. costs 0 (f x)) \<Longrightarrow> costs n (bind_act m f)"
  using costs_bind [of n m 0 f] by simp

lemma costs_alloc: "costs 1 alloc_one"
proof (rule costsI)
  fix s res s' assume pool: "pool_ok (pg_frames s)" and run: "alloc_one s = (res, s')"
  have inv: "bmm_inv (pg_frames s)" using pool by (simp add: pool_ok_def)
  have inv_finite: "finite (free_frames (pg_frames s) - {0})" by simp
  show "pool_ok (pg_frames s') \<and> spare s \<le> spare s' + 1 \<and> (1 \<le> spare s \<longrightarrow> (\<forall>e. res \<noteq> Err e))"
  proof (cases rule: alloc_one_cases [OF pool, case_names found failed])
    case (found f b)
    let ?F = "free_frames (pg_frames s) - {0}" and ?a = "frame_start_phys_addr f div PAGE_SIZE"
    have "free_frames b - {0} = ?F - {?a}" using found(4) by auto
    then have "card ?F \<le> card (free_frames b - {0}) + 1" using card_Suc_Diff1 [of ?F ?a] inv_finite by (cases "?a \<in> ?F") auto
    then show ?thesis using run found(1,2) by (auto simp: spare_def)
  next
    case (failed e)
    have "spare s = 0"
    proof (rule ccontr)
      assume "spare s \<noteq> 0"
      then obtain i where "i \<in> free_frames (pg_frames s)" "1 \<le> i"
        unfolding spare_def by (metis DiffE One_nat_def Suc_leI all_not_in_conv card.empty insertI1 neq0_conv)
      then show False using Frame_Allocator.alloc_one [OF inv] failed by (auto simp: alloc_one_def split: prod.splits)
    qed
    then show ?thesis using run failed pool by auto
  qed
qed

lemma costs_ensure_task_table: "costs 1 (ensure_task_table t i w pw c)"
proof -
  have upd: "costs 0 (update_entry t i g)" for g by (simp add: update_entry_def costs_then costs_free)
  have clone: "costs 1 (clone_table_entries src)" for src
    unfolding clone_table_entries_def by (intro costs_and costs_alloc costs_then costs_free)
  have fresh: "costs 1 (bind_act alloc_one (\<lambda>f. bind_act (zero_table f) (\<lambda>_.
      bind_act (update_entry t i (g f)) (\<lambda>_. push_owned f))))" for g
    by (intro costs_and costs_alloc costs_free upd)
  have own: "costs 1 (bind_act (clone_table_entries src) (\<lambda>f. bind_act (update_entry t i (g f)) (\<lambda>_. push_owned f)))" for src g
    by (intro costs_and clone costs_free upd)
  have "costs 1 (return_act ())" by (rule costs_mono [OF costs_free(1)]) simp
  then have "costs 1 (bind_act (if b then bind_act (clone_table_entries src) (\<lambda>f.
      bind_act (update_entry t i (g f)) (\<lambda>_. push_owned f)) else return_act ()) (\<lambda>_. update_entry t i h))" for b src g h
    using own by (intro costs_and upd) (cases b; simp only: if_True if_False)
  then show ?thesis unfolding ensure_task_table_def using fresh
    by (intro costs_then costs_free(2)) (auto simp: costs_then costs_free simp del: One_nat_def)
qed

lemma costs_user_map_page: "costs 3 (user_map_page r i a w pw c)"
proof -
  have step: "costs (Suc k) (bind_act (ensure_task_table t j w pw c) f)" if "\<And>x. costs k (f x)" for t j k and f :: "unit \<Rightarrow> (paging, unit) act"
    using costs_bind [OF costs_ensure_task_table that] by simp
  have "costs 0 (update_entry t j g)" for t j g by (simp add: update_entry_def costs_then costs_free)
  then show ?thesis unfolding user_map_page_def numeral_3_eq_3
    by (intro step costs_then costs_free)
qed

lemma costs_for_each: "(\<And>x. x \<in> set xs \<Longrightarrow> costs k (f x)) \<Longrightarrow> costs (k * length xs) (for_each xs f)"
proof (induction xs)
  case Nil
  then show ?case using costs_free(1) [of "()"] by (simp del: act_run)
next
  case (Cons x xs)
  have "costs (k + k * length xs) (bind_act (f x) (\<lambda>_. for_each xs f))" by (rule costs_bind) (use Cons in simp_all)
  then show ?case by simp
qed

subsection \<open>Mapping a range\<close>

text \<open>The tables of the space below root \<open>k\<close> are neither tables of the task's own nor free pages.\<close>

definition apart :: "nat \<Rightarrow> nat \<Rightarrow> paging \<Rightarrow> bool" where
  "apart k r s \<longleftrightarrow> (\<forall>q a. length q \<le> 3 \<longrightarrow> follow (tables s) k q = Some a \<longrightarrow>
     a \<notin> own_tables r s \<and> a div PAGE_SIZE \<notin> free_frames (pg_frames s))"

lemma apartD:
  assumes "apart k r s" and "length q \<le> 3" and "follow (tables s) k q = Some a"
  shows "a \<notin> own_tables r s" "a div PAGE_SIZE \<notin> free_frames (pg_frames s)"
  using assms unfolding apart_def by blast+

lemma follow_same:
  assumes "\<And>q a. length q \<le> 3 \<Longrightarrow> follow T k q = Some a \<Longrightarrow> T' a = T a"
  shows "length q \<le> 4 \<Longrightarrow> follow T' k q = follow T k q"
proof (induction q rule: rev_induct)
  case (snoc i q)
  then show ?case using assms [of q] by (cases "follow T k q") (auto simp: follow_snoc lookup_step_def)
qed simp

lemma lookup_untouched:
  assumes same: "\<And>q a. length q \<le> 3 \<Longrightarrow> follow T k q = Some a \<Longrightarrow> T' a = T a"
  shows "lookup_pte T' k va = lookup_pte T k va"
proof -
  have "follow T' k (va_path va) = follow T k (va_path va)" using follow_same [OF same, where q = "va_path va"] by simp
  then show ?thesis using same [of "va_path va"]
    by (cases "follow T k (va_path va)") (auto simp: lookup_pte_entry entry_at_def)
qed

lemma extends_apart:
  assumes ext: "extends r s s'" and apart: "apart k r s"
  shows "lookup_pte (tables s') k va = lookup_pte (tables s) k va" and "apart k r s'"
proof -
  have out: "a \<notin> own_tables r s'" "a div PAGE_SIZE \<notin> free_frames (pg_frames s')" "tables s' a = tables s a"
    if "length q \<le> 3" "follow (tables s) k q = Some a" for q a
    using apartD [OF apart that] ext unfolding extends_def by blast+
  show "lookup_pte (tables s') k va = lookup_pte (tables s) k va" by (rule lookup_untouched [OF out(3)])
  have fol: "follow (tables s') k q = follow (tables s) k q" if "length q \<le> 3" for q
    by (rule follow_same [OF out(3)]) (use that in simp_all)
  show "apart k r s'" unfolding apart_def using out(1,2) fol by simp
qed

lemma page_calc:
  assumes "page_mapped T r p a w u" and "p div PAGE_SIZE = va div PAGE_SIZE" and "PAGE_SIZE dvd a"
  shows "calc_phys_addr T r va = Some (a + va mod PAGE_SIZE)"
proof -
  have "lookup_pte T r va = lookup_pte T r p"
    using page_key_page [OF assms(2)] by (simp add: lookup_pte_entry page_key_def)
  then obtain e where "lookup_pte T r va = Some e" "pte_addr e = a" using assms(1) by (auto simp: page_mapped_def)
  then show ?thesis using or_page_offset [OF assms(3), of va] by (simp add: calc_phys_addr_def)
qed

lemma task_page_same:
  assumes "va div PAGE_SIZE = vb div PAGE_SIZE"
  shows "task_page r s va a w = task_page r s vb a w"
proof -
  have "va_path va = va_path vb" "pml1_entry_index va = pml1_entry_index vb"
    using page_key_page [OF assms] by (simp_all add: page_key_def)
  then show ?thesis by (simp add: task_page_def page_mapped_def lookup_pte_entry)
qed

lemma page_outside:
  assumes "PAGE_SIZE dvd start" and "PAGE_SIZE dvd stop" and "canonical_range start stop"
    and "k < (stop - start) div PAGE_SIZE" and "canonical va" and "page_key va = page_key (start + k * PAGE_SIZE)"
  shows "va \<in> {start..<stop}"
proof -
  obtain m n where mn: "start = PAGE_SIZE * m" "stop = PAGE_SIZE * n" using assms(1,2) by (auto elim!: dvdE)
  then have k: "m + k < n" using assms(4) by (simp flip: diff_mult_distrib2)
  then have "canonical (start + k * PAGE_SIZE)" using canonical_rangeD [OF assms(3)] mn by simp
  from page_key_inj [OF assms(6,5) this] have "va div PAGE_SIZE = m + k" by (simp add: mn)
  moreover have "va div PAGE_SIZE * PAGE_SIZE \<le> va" "va < va div PAGE_SIZE * PAGE_SIZE + PAGE_SIZE" by (simp_all add: dividend_less_div_times)
  ultimately show ?thesis using k mn by auto
qed

lemma range_pages:
  defines "n start stop \<equiv> (stop - start :: nat) div PAGE_SIZE"
  shows "canonical_range start stop \<Longrightarrow> distinct (map (\<lambda>k. page_key (start + k * PAGE_SIZE)) [0..<n start stop])"
    and "phys + (stop - start) \<le> 2 ^ 39 \<Longrightarrow> \<forall>k\<in>set [0..<n start stop]. phys + k * PAGE_SIZE < 2 ^ 39"
proof -
  have small: "k * PAGE_SIZE + PAGE_SIZE \<le> stop - start" if "k < n start stop" for k
    using that div_times_less_eq_dividend [of "stop - start" PAGE_SIZE] mult_le_mono1 [of "Suc k" "n start stop" PAGE_SIZE]
    by (simp add: n_def)
  show "distinct (map (\<lambda>k. page_key (start + k * PAGE_SIZE)) [0..<n start stop])" if "canonical_range start stop"
  proof -
    have "inj_on (\<lambda>k. page_key (start + k * PAGE_SIZE)) {0..<n start stop}"
    proof (rule inj_onI)
      fix k l assume kl: "k \<in> {0..<n start stop}" "l \<in> {0..<n start stop}"
        "page_key (start + k * PAGE_SIZE) = page_key (start + l * PAGE_SIZE)"
      then have "canonical (start + k * PAGE_SIZE)" "canonical (start + l * PAGE_SIZE)"
        using small [of k] small [of l] canonical_rangeD [OF that] by auto
      from page_key_inj [OF kl(3) this] show "k = l" by simp
    qed
    then show ?thesis by (simp add: distinct_map)
  qed
  assume lim: "phys + (stop - start) \<le> 2 ^ 39"
  show "\<forall>k\<in>set [0..<n start stop]. phys + k * PAGE_SIZE < 2 ^ 39"
  proof
    fix k assume "k \<in> set [0..<n start stop]"
    then show "phys + k * PAGE_SIZE < 2 ^ 39" using small [of k] lim by simp
  qed
qed

text \<open>From entries of pages to translations of addresses.\<close>

lemma range_lookup:
  assumes al: "PAGE_SIZE dvd start" "PAGE_SIZE dvd stop" "PAGE_SIZE dvd phys" and lim: "canonical_range start stop"
  shows "\<forall>q j. length q = 3 \<longrightarrow> (\<forall>k<(stop - start) div PAGE_SIZE. (q, j) \<noteq> page_key (start + k * PAGE_SIZE)) \<longrightarrow>
       entry_at T' r q j = entry_at T r q j \<Longrightarrow>
     canonical va \<Longrightarrow> va \<notin> {start..<stop} \<Longrightarrow> lookup_pte T' r va = lookup_pte T r va"
    and "\<forall>k<(stop - start) div PAGE_SIZE. page_mapped T' r (start + k * PAGE_SIZE) (phys + k * PAGE_SIZE) w u \<Longrightarrow>
     va \<in> {start..<stop} \<Longrightarrow> calc_phys_addr T' r va = Some (phys + (va - start))"
proof -
  show "lookup_pte T' r va = lookup_pte T r va" if out: "canonical va" "va \<notin> {start..<stop}"
    "\<forall>q j. length q = 3 \<longrightarrow> (\<forall>k<(stop - start) div PAGE_SIZE. (q, j) \<noteq> page_key (start + k * PAGE_SIZE)) \<longrightarrow>
       entry_at T' r q j = entry_at T r q j"
  proof -
    have "page_key va \<noteq> page_key (start + k * PAGE_SIZE)" if "k < (stop - start) div PAGE_SIZE" for k
      using out(1,2) that page_outside [OF al(1,2) lim] by blast
    then show ?thesis using out(3) by (simp add: lookup_pte_entry page_key_def)
  qed
  assume "\<forall>k<(stop - start) div PAGE_SIZE. page_mapped T' r (start + k * PAGE_SIZE) (phys + k * PAGE_SIZE) w u" "va \<in> {start..<stop}"
  moreover then obtain k where k: "k < (stop - start) div PAGE_SIZE" "va div PAGE_SIZE = (start + k * PAGE_SIZE) div PAGE_SIZE"
      "va - start = k * PAGE_SIZE + va mod PAGE_SIZE"
    using page_of_range [OF al(1,2)] by auto
  ultimately show "calc_phys_addr T' r va = Some (phys + (va - start))"
    using page_calc [of T' r "start + k * PAGE_SIZE" "phys + k * PAGE_SIZE" w u va] al(3) by simp
qed

lemma user_map_run:
  assumes root: "pml4_frame (user_pt s) = Some f" "frame_start_phys_addr f = r" and us: "user_space r s"
    and al: "PAGE_SIZE dvd start" "PAGE_SIZE dvd stop" "PAGE_SIZE dvd phys"
    and lim: "canonical_range start stop" "phys + (stop - start) \<le> 2 ^ 39"
  shows "\<exists>res s'. user_map start stop phys w pw c s = (res, s') \<and> res \<noteq> Panic \<and> extends r s s' \<and>
    (\<forall>q j. length q = 3 \<longrightarrow> (\<forall>k<(stop - start) div PAGE_SIZE. (q, j) \<noteq> page_key (start + k * PAGE_SIZE)) \<longrightarrow>
       entry_at (tables s') r q j = entry_at (tables s) r q j) \<and>
    (res = Ok () \<longrightarrow> (\<forall>k<(stop - start) div PAGE_SIZE.
       task_page r s' (start + k * PAGE_SIZE) (phys + k * PAGE_SIZE) w)) \<and>
    (3 * ((stop - start) div PAGE_SIZE) \<le> spare s \<longrightarrow> res = Ok ())"
proof -
  let ?n = "(stop - start) div PAGE_SIZE"
  let ?body = "\<lambda>i. bind_act (lift_outcome (uadd phys (i - start))) (\<lambda>a. user_map_page r i a w pw c)"
  note dist = range_pages(1) [OF lim(1)] and fits = range_pages(2) [OF lim(2)]
  obtain res s' where run: "for_each (map (\<lambda>k. start + k * PAGE_SIZE) [0..<?n]) ?body s = (res, s')" "res \<noteq> Panic" "extends r s s'"
    "\<forall>q j. length q = 3 \<longrightarrow> (\<forall>k\<in>set [0..<?n]. (q, j) \<noteq> page_key (start + k * PAGE_SIZE)) \<longrightarrow>
       entry_at (tables s') r q j = entry_at (tables s) r q j"
    "res = Ok () \<longrightarrow> (\<forall>k\<in>set [0..<?n]. task_page r s' (start + k * PAGE_SIZE) (phys + k * PAGE_SIZE) w)"
    using user_map_loop [OF dist al(3) fits us] by blast
  have "costs (3 * length (map (\<lambda>k. start + k * PAGE_SIZE) [0..<?n])) (for_each (map (\<lambda>k. start + k * PAGE_SIZE) [0..<?n]) ?body)"
  proof (rule costs_for_each)
    fix i assume "i \<in> set (map (\<lambda>k. start + k * PAGE_SIZE) [0..<?n])"
    then obtain k where "k < ?n" "i = start + k * PAGE_SIZE" by auto
    moreover have "phys + k * PAGE_SIZE < 2 ^ 39" using fits calculation(1) by simp
    ultimately have "uadd phys (i - start) = Ok (phys + k * PAGE_SIZE)" by (simp add: uadd_def)
    then show "costs 3 (?body i)" by (simp only:) (intro costs_then costs_free costs_user_map_page)
  qed
  from costsD(3) [OF this _ run(1)] us run(2) have "3 * ?n \<le> spare s \<Longrightarrow> res = Ok ()"
    by (cases res) (auto simp: user_space_def)
  moreover have "user_map start stop phys w pw c s = (res, s')"
    using root run(1) page_steps_aligned [OF al(1,2)] by (simp add: user_map_def pml4_phys_addr_def bind_act_def)
  ultimately show ?thesis using run(2-5) by (intro exI [of _ res] exI [of _ s'] conjI) auto
qed

lemma user_map_spec:
  assumes root: "pml4_frame (user_pt s) = Some f" "frame_start_phys_addr f = r" and us: "user_space r s"
    and al: "PAGE_SIZE dvd start" "PAGE_SIZE dvd stop" "PAGE_SIZE dvd phys"
    and lim: "canonical_range start stop" "phys + (stop - start) \<le> 2 ^ 39"
    and run: "user_map start stop phys w pw c s = (res, s')"
  shows "res \<noteq> Panic" "extends r s s'" "3 * ((stop - start) div PAGE_SIZE) \<le> spare s \<Longrightarrow> res = Ok ()"
    "canonical va \<Longrightarrow> va \<notin> {start..<stop} \<Longrightarrow> lookup_pte (tables s') r va = lookup_pte (tables s) r va"
    "res = Ok () \<Longrightarrow> va \<in> {start..<stop} \<Longrightarrow> calc_phys_addr (tables s') r va = Some (phys + (va - start))"
    "res = Ok () \<Longrightarrow> va \<in> {start..<stop} \<Longrightarrow> task_page r s' va ((phys + (va - start)) div PAGE_SIZE * PAGE_SIZE) w"
proof -
  let ?n = "(stop - start) div PAGE_SIZE"
  have m: "res \<noteq> Panic" "extends r s s'"
    "\<forall>q j. length q = 3 \<longrightarrow> (\<forall>k<?n. (q, j) \<noteq> page_key (start + k * PAGE_SIZE)) \<longrightarrow> entry_at (tables s') r q j = entry_at (tables s) r q j"
    "res = Ok () \<longrightarrow> (\<forall>k<?n. task_page r s' (start + k * PAGE_SIZE) (phys + k * PAGE_SIZE) w)"
    "3 * ?n \<le> spare s \<longrightarrow> res = Ok ()"
    using user_map_run [OF root us al lim, of w pw c] run by auto
  show "res \<noteq> Panic" "extends r s s'" "3 * ?n \<le> spare s \<Longrightarrow> res = Ok ()" using m(1,2,5) by simp_all
  show "canonical va \<Longrightarrow> va \<notin> {start..<stop} \<Longrightarrow> lookup_pte (tables s') r va = lookup_pte (tables s) r va"
    by (rule range_lookup(1) [OF al lim(1) m(3)])
  assume ok: "res = Ok ()" and va: "va \<in> {start..<stop}"
  obtain k where k: "k < ?n" "va div PAGE_SIZE = (start + k * PAGE_SIZE) div PAGE_SIZE" "va - start = k * PAGE_SIZE + va mod PAGE_SIZE"
    using page_of_range [OF al(1,2)] va by auto
  have tp: "task_page r s' (start + k * PAGE_SIZE) (phys + k * PAGE_SIZE) w" using m(4) ok k(1) by simp
  have "(phys + (va - start)) div PAGE_SIZE * PAGE_SIZE = phys + k * PAGE_SIZE" using al(3) k(3) by auto
  then show "task_page r s' va ((phys + (va - start)) div PAGE_SIZE * PAGE_SIZE) w" using tp task_page_same [OF k(2)] by simp
  show "calc_phys_addr (tables s') r va = Some (phys + (va - start))"
    by (rule range_lookup(2) [OF al lim(1) _ va, of "tables s'" r w User]) (use m(4) ok in \<open>simp add: task_page_def\<close>)
qed

lemma user_map_ok:
  assumes root: "pml4_frame (user_pt s) = Some f" "frame_start_phys_addr f = r" and us: "user_space r s"
    and al: "PAGE_SIZE dvd start" "PAGE_SIZE dvd stop" "PAGE_SIZE dvd phys"
    and lim: "canonical_range start stop" "phys + (stop - start) \<le> 2 ^ 39"
    and run: "user_map start stop phys w pw c s = (Ok (), s')"
  shows "extends r s s'" "\<forall>i\<in>set (page_steps start stop). owned_path r s' (va_path i)"
    "va \<in> {start..<stop} \<Longrightarrow> calc_phys_addr (tables s') r va = Some (phys + (va - start))"
    "canonical va \<Longrightarrow> va \<notin> {start..<stop} \<Longrightarrow> lookup_pte (tables s') r va = lookup_pte (tables s) r va"
proof -
  note m = user_map_spec [OF root us al lim run]
  show "extends r s s'" by (rule m(2))
  show "va \<in> {start..<stop} \<Longrightarrow> calc_phys_addr (tables s') r va = Some (phys + (va - start))" by (rule m(5)) simp
  show "canonical va \<Longrightarrow> va \<notin> {start..<stop} \<Longrightarrow> lookup_pte (tables s') r va = lookup_pte (tables s) r va" by (rule m(4))
  show "\<forall>i\<in>set (page_steps start stop). owned_path r s' (va_path i)"
    using user_map_run [OF root us al lim, of w pw c] run page_steps_aligned [OF al(1,2)] by (auto simp: task_page_def)
qed

subsection \<open>A new task\<close>

text \<open>Tables of the space below root \<open>k\<close> are not free, and there are no large pages.\<close>

definition shared_space :: "nat \<Rightarrow> table_mem \<Rightarrow> nat set \<Rightarrow> bool" where
  "shared_space k T free \<longleftrightarrow>
     (\<forall>q a. length q \<le> 3 \<longrightarrow> follow T k q = Some a \<longrightarrow> a div PAGE_SIZE \<notin> free) \<and>
     (\<forall>q a i. length q \<le> 2 \<longrightarrow> follow T k q = Some a \<longrightarrow> \<not> pte_page_size (T a i))"

lemma shared_spaceD:
  assumes "shared_space k T free"
  shows "length q \<le> 3 \<Longrightarrow> follow T k q = Some a \<Longrightarrow> a div PAGE_SIZE \<notin> free"
    and "length q \<le> 2 \<Longrightarrow> follow T k q = Some a \<Longrightarrow> \<not> pte_page_size (T a i)"
  using assms unfolding shared_space_def by blast+

lemma shared_same:
  assumes "shared_space k T free" and "r div PAGE_SIZE \<in> free" and "length q \<le> 3" and "follow T k q = Some a"
  shows "(T(r := X)) a = T a" "a \<noteq> r"
  using shared_spaceD(1) [OF assms(1,3,4)] assms(2) by auto

lemma shared_follow:
  assumes "shared_space k T free" and "r div PAGE_SIZE \<in> free" and "length q \<le> 3"
  shows "follow (T(r := X)) k q = follow T k q"
  by (rule follow_same [OF shared_same(1) [OF assms(1,2)]]) (use assms(3) in simp_all)

lemma root_copy_follow:
  assumes "shared_space k T free" and "r div PAGE_SIZE \<in> free" and "length q \<le> 3" and "q \<noteq> []"
  shows "follow (T(r := T k)) r q = follow T k q"
proof -
  have "k \<noteq> r" using shared_same(2) [OF assms(1,2), of "[]"] by simp
  then have "lookup_step (T(r := T k)) r i = lookup_step (T(r := T k)) k i" for i by (simp add: lookup_step_def)
  then show ?thesis using shared_follow [OF assms(1-3), of "T k"] assms(4) by (cases q) simp_all
qed

lemma root_copy_space:
  assumes sh: "shared_space k T free" and r: "r div PAGE_SIZE \<in> free"
  shows "space (T(r := T k)) r {r} (free - {r div PAGE_SIZE})"
proof (rule spaceI)
  let ?T = "T(r := T k)"
  note down = root_copy_follow [OF sh r]
  show "q = q'" if "length q \<le> 3" "length q' \<le> 3" "follow ?T r q = Some a" "follow ?T r q' = Some a" "a \<in> {r}" for q q' a
  proof -
    have "p = []" if "length p \<le> 3" "follow ?T r p = Some r" for p
      using that down [of p] shared_same(2) [OF sh r that(1), of r] by (cases "p = []") auto
    from this [of q] this [of q'] show ?thesis using that by simp
  qed
  show "a div PAGE_SIZE \<notin> free - {r div PAGE_SIZE}" if "length q \<le> 3" "follow ?T r q = Some a" for q a
    using that down [of q] shared_spaceD(1) [OF sh, of q a] by (cases "q = []") auto
  show "\<not> pte_page_size (?T a i)" if "length q \<le> 2" "follow ?T r q = Some a" for q a i
  proof (cases "q = []")
    case True
    then show ?thesis using that shared_spaceD(2) [OF sh, of "[]" k i] by simp
  next
    case False
    then have "follow T k q = Some a" using down [of q] that by simp
    then show ?thesis using shared_same(1) [OF sh r, of q a] shared_spaceD(2) [OF sh, of q a] that(1) by simp
  qed
qed simp_all

lemma root_copy_lookup:
  assumes "shared_space k T free" and "r div PAGE_SIZE \<in> free"
  shows "lookup_pte (T(r := T k)) r va = lookup_pte T k va"
proof -
  have "va_path va \<noteq> []" by (simp add: va_path_def)
  then have "follow (T(r := T k)) r (va_path va) = follow T k (va_path va)" using root_copy_follow [OF assms, of "va_path va"] by simp
  then show ?thesis using shared_same(1) [OF assms, of "va_path va"]
    by (cases "follow T k (va_path va)") (auto simp: lookup_pte_entry entry_at_def)
qed

lemma new_cloned_run:
  assumes pool: "pool_ok (pg_frames s)" and sh: "shared_space (kernel_pml4_phys s) (tables s) (free_frames (pg_frames s))"
  shows "(\<exists>e. new_cloned_from_kernel s = (Err e, s)) \<or>
    (\<exists>f s'. new_cloned_from_kernel s = (Ok (), s') \<and> user_pt s' = \<lparr>pml4_frame = Some f, allocated_frames = []\<rparr> \<and>
      user_space (frame_start_phys_addr f) s' \<and> kernel_pml4_phys s' = kernel_pml4_phys s \<and>
      free_frames (pg_frames s') = free_frames (pg_frames s) - {frame_start_phys_addr f div PAGE_SIZE} \<and>
      (\<forall>va. lookup_pte (tables s') (frame_start_phys_addr f) va = lookup_pte (tables s) (kernel_pml4_phys s) va) \<and>
      (\<forall>k. shared_space k (tables s) (free_frames (pg_frames s)) \<longrightarrow>
         (\<forall>va. lookup_pte (tables s') k va = lookup_pte (tables s) k va) \<and> apart k (frame_start_phys_addr f) s'))"
proof (cases rule: alloc_one_cases [OF pool, case_names found failed])
  case (found f b)
  let ?r = "frame_start_phys_addr f" and ?k = "kernel_pml4_phys s"
  define s' where "s' = s\<lparr>pg_frames := b, tables := (tables s)(?r := tables s ?k), user_pt := \<lparr>pml4_frame = Some f, allocated_frames = []\<rparr>\<rparr>"
  have tab: "tables s' = (tables s)(?r := tables s ?k)" by (simp add: s'_def)
  have "?k \<noteq> ?r" using shared_same(2) [OF sh found(3), of "[]"] by simp
  then have run: "new_cloned_from_kernel s = (Ok (), s')"
    using found(1) by (simp add: new_cloned_from_kernel_def user_pt_new_def bind_act_def zero_table_def pml4_phys_addr_def s'_def)
  have other: "lookup_pte (tables s') k va = lookup_pte (tables s) k va" "apart k ?r s'"
    if "shared_space k (tables s) (free_frames (pg_frames s))" for k va
  proof -
    show "lookup_pte (tables s') k va = lookup_pte (tables s) k va"
      unfolding tab by (rule lookup_untouched [OF shared_same(1) [OF that found(3)]])
    show "apart k ?r s'" unfolding apart_def
      using shared_follow [OF that found(3)] shared_same(2) [OF that found(3)] shared_spaceD(1) [OF that] found(4)
      by (auto simp: own_tables_def s'_def)
  qed
  have "user_space ?r s'" using root_copy_space [OF sh found(3)] found(2,4) by (simp add: user_space_def own_tables_def s'_def)
  moreover have "user_pt s' = \<lparr>pml4_frame = Some f, allocated_frames = []\<rparr>" "kernel_pml4_phys s' = ?k"
    "free_frames (pg_frames s') = free_frames (pg_frames s) - {?r div PAGE_SIZE}" using found(4) by (simp_all add: s'_def)
  moreover have "lookup_pte (tables s') ?r va = lookup_pte (tables s) ?k va" for va
    unfolding tab by (rule root_copy_lookup [OF sh found(3)])
  ultimately show ?thesis using run other by blast
next
  case (failed e)
  then show ?thesis by (simp add: new_cloned_from_kernel_def user_pt_new_def bind_act_def)
qed

subsection \<open>Unmapping\<close>

lemma unmap_page_owned:
  assumes us: "user_space r s" and own: "owned_path r s (va_path i)"
  shows "extends r s (unmap_page r i s)"
    and "length q = 3 \<Longrightarrow> entry_at (tables (unmap_page r i s)) r q j =
      (if (q, j) = page_key i then None else entry_at (tables s) r q j)"
proof -
  let ?T = "tables s" and ?i1 = "pml1_entry_index i"
  let ?e4 = "?T r (pml4_entry_index i)"
  let ?e3 = "?T (pte_addr ?e4) (pml3_entry_index i)"
  let ?e2 = "?T (pte_addr ?e3) (pml2_entry_index i)"
  obtain t where t: "follow ?T r (va_path i) = Some t" "t \<in> own_tables r s" using own by (auto simp: owned_path_def)
  then have "pte_p ?e4" "pte_p ?e3" "pte_p ?e2" "pte_addr ?e2 = t"
    by (auto simp: va_path_def lookup_step_def entry_page_table_def split: Option.bind_splits if_splits)
  then have eq: "unmap_page r i s = s\<lparr>tables := ?T(t := (?T t)(?i1 := 0))\<rparr>" by (simp add: unmap_page_def Let_def)
  note leaf = user_leaf [OF us t va_path_length, where i = ?i1 and e = 0, folded eq]
  show "extends r s (unmap_page r i s)" by (rule leaf(1))
  show "entry_at (tables (unmap_page r i s)) r q j = (if (q, j) = page_key i then None else entry_at ?T r q j)" if "length q = 3"
    using leaf(2) [of q j] that by (simp add: page_key_def)
qed

lemma unmap_pages:
  "user_space r s \<Longrightarrow> \<forall>i\<in>set is. owned_path r s (va_path i) \<Longrightarrow>
   extends r s (fold (unmap_page r) is s) \<and> (\<forall>q j. length q = 3 \<longrightarrow> entry_at (tables (fold (unmap_page r) is s)) r q j =
     (if (q, j) \<in> page_key ` set is then None else entry_at (tables s) r q j))"
proof (induction "is" arbitrary: s)
  case Nil
  then show ?case by (simp add: extends_refl)
next
  case (Cons i "is")
  note one = unmap_page_owned [OF Cons.prems(1), of i]
  have ext: "extends r s (unmap_page r i s)" using one(1) Cons.prems(2) by simp
  then have s1: "user_space r (unmap_page r i s)" "\<forall>k\<in>set is. owned_path r (unmap_page r i s) (va_path k)"
    using Cons.prems(2) by (simp_all add: extends_def)
  note rest = Cons.IH [OF s1]
  have "extends r s (fold (unmap_page r) (i # is) s)" using extends_trans [OF ext] rest by simp
  moreover have "entry_at (tables (fold (unmap_page r) (i # is) s)) r q j =
      (if (q, j) \<in> page_key ` set (i # is) then None else entry_at (tables s) r q j)" if "length q = 3" for q j
    using rest one(2) [OF _ that, of j] that Cons.prems(2) by simp
  ultimately show ?case by blast
qed

lemma range_keys:
  assumes "PAGE_SIZE dvd start" and "PAGE_SIZE dvd stop" and "canonical_range start stop" and "canonical va"
  shows "page_key va \<in> page_key ` set (page_steps start stop) \<longleftrightarrow> va \<in> {start..<stop}"
proof -
  have steps: "set (page_steps start stop) = (\<lambda>k. start + k * PAGE_SIZE) ` {..<(stop - start) div PAGE_SIZE}"
    using page_steps_aligned [OF assms(1,2)] by auto
  have "page_key va \<in> page_key ` set (page_steps start stop)" if va: "va \<in> {start..<stop}"
  proof -
    obtain k where "k < (stop - start) div PAGE_SIZE" "va div PAGE_SIZE = (start + k * PAGE_SIZE) div PAGE_SIZE"
      using page_of_range [OF assms(1,2), of va] va by auto
    then show ?thesis using page_key_page [of va "start + k * PAGE_SIZE"] by (auto simp: steps)
  qed
  then show ?thesis using page_outside [OF assms(1-3) _ assms(4)] by (auto simp: steps)
qed

lemma user_unmap_run:
  assumes root: "pml4_frame (user_pt s) = Some f" "frame_start_phys_addr f = r" and us: "user_space r s"
    and al: "PAGE_SIZE dvd start" "PAGE_SIZE dvd stop" and lim: "canonical_range start stop"
    and own: "\<forall>i\<in>set (page_steps start stop). owned_path r s (va_path i)"
  obtains s' where "user_unmap start stop s = (Ok (), s')" "extends r s s'"
    "\<And>va. canonical va \<Longrightarrow> lookup_pte (tables s') r va = (if va \<in> {start..<stop} then None else lookup_pte (tables s) r va)"
proof (rule that)
  note all = unmap_pages [OF us own]
  let ?s = "fold (unmap_page r) (page_steps start stop) s"
  show "user_unmap start stop s = (Ok (), ?s)" using root by (simp add: user_unmap_def pml4_phys_addr_def bind_act_def)
  show "extends r s ?s" using all by simp
  show "lookup_pte (tables ?s) r va = (if va \<in> {start..<stop} then None else lookup_pte (tables s) r va)" if "canonical va" for va
  proof -
    have "(va_path va, pml1_entry_index va) \<in> page_key ` set (page_steps start stop) \<longleftrightarrow> va \<in> {start..<stop}"
      using range_keys [OF al lim that] by (simp add: page_key_def)
    then show ?thesis using all by (simp add: lookup_pte_entry)
  qed
qed

subsection \<open>A small machine\<close>

text \<open>Eight frames of which six are free; the kernel's tables lie above them and map one page to itself.\<close>

definition demo_pool :: BitmapMemoryManager where
  "demo_pool = \<lparr>bitmap_phys_addr = Some 0, total_frame_len = 8, allocated_frame_len = 2,
     free_frame_len = 6, allocated_frame_len_in_available_mem = 2,
     total_available_mem_size = 32768, phys_mem = (\<lambda>_. 0x81)\<rparr>"

definition demo_tables :: table_mem where
  "demo_tables t i =
     (if t = 0x8000 \<and> i = 0 then set_entry 0x9000 WriteAccess Supervisor WriteBack False 0
      else if t = 0x9000 \<and> i = 0 then set_entry 0xA000 WriteAccess Supervisor WriteBack False 0
      else if t = 0xA000 \<and> i = 0 then set_entry 0xB000 WriteAccess Supervisor WriteBack False 0
      else if t = 0xB000 \<and> i = 7 then set_entry 0x7000 WriteAccess Supervisor WriteBack False 0
      else 0)"

definition demo_paging :: paging where
  "demo_paging = \<lparr>pg_frames = demo_pool, tables = demo_tables, kernel_pml4_phys = 0x8000, cr3_reg = 0x8000,
     user_pt = \<lparr>pml4_frame = None, allocated_frames = []\<rparr>\<rparr>"

lemma demo_pool_free: "free_frames demo_pool = {1, 2, 3, 4, 5, 6}"
proof -
  have "bitmap_len demo_pool = 1" by (simp add: bitmap_len_def demo_pool_def)
  then have "free_frames demo_pool = {i. i < 8 \<and> \<not> bit (0x81 :: u8) i}"
    by (auto simp: free_frames_def frame_free_def bitmap_bit_def demo_pool_def)
  also have "\<dots> = {1, 2, 3, 4, 5, 6}" by (auto simp: nat_below_8 bit_iff_odd)
  finally show ?thesis .
qed

lemma demo_pool_ok: "pool_ok demo_pool"
proof -
  have "bmm_inv demo_pool" unfolding bmm_inv_def demo_pool_free
    by (auto simp: bmm_wf_def demo_pool_def bitmap_len_def)
  then show ?thesis by (simp add: pool_ok_def demo_pool_def)
qed

lemma demo_step:
  "lookup_step demo_tables t i =
     (if i = 0 \<and> t = 0x8000 then Some 0x9000 else if i = 0 \<and> t = 0x9000 then Some 0xA000
      else if i = 0 \<and> t = 0xA000 then Some 0xB000 else if i = 7 \<and> t = 0xB000 then Some 0x7000 else None)"
  by (simp add: lookup_step_def demo_tables_def entry_page_table_def set_entry_fields)

lemma demo_shared: "shared_space 0x8000 demo_tables {1, 2, 3, 4, 5, 6}"
proof -
  have low: "a \<in> {0xA000, 0xB000}" if "length q \<le> 1" "follow demo_tables 0xA000 q = Some a" for q a
    using that by (cases q) (auto simp: demo_step split: if_splits Option.bind_splits)
  have "a \<in> {0x8000, 0x9000, 0xA000, 0xB000}" if "length q \<le> 3" "follow demo_tables 0x8000 q = Some a" for q a
    using that low by (cases q rule: remdups_adj.cases) (auto simp: demo_step split: if_splits Option.bind_splits)
  moreover have "\<not> pte_page_size (demo_tables a i)" for a i by (simp add: demo_tables_def set_entry_fields)
  ultimately show ?thesis unfolding shared_space_def by fastforce
qed

lemma demo_identity: "calc_phys_addr demo_tables 0x8000 0x7000 = Some 0x7000"
proof -
  have "lookup_pte demo_tables 0x8000 0x7000 = Some (set_entry 0x7000 WriteAccess Supervisor WriteBack False 0)"
    by (simp add: lookup_pte_def demo_step index_digits) (simp add: demo_tables_def set_entry_fields)
  then show ?thesis by (simp add: calc_phys_addr_def set_entry_fields)
qed

lemma demo_task:
  "\<exists>s f. new_cloned_from_kernel demo_paging = (Ok (), s) \<and> pml4_frame (user_pt s) = Some f \<and>
     user_space (frame_start_phys_addr f) s \<and> apart 0x8000 (frame_start_phys_addr f) s \<and> 3 \<le> spare s"
proof -
  have costs: "costs 1 new_cloned_from_kernel" unfolding new_cloned_from_kernel_def user_pt_new_def
    by (intro costs_and costs_alloc costs_then costs_free) (auto simp: costs_def spare_def)
  have sp: "spare demo_paging = 6" by (simp add: spare_def demo_paging_def demo_pool_free)
  have sh: "pool_ok (pg_frames demo_paging)" "shared_space (kernel_pml4_phys demo_paging) (tables demo_paging) (free_frames (pg_frames demo_paging))"
    using demo_pool_ok demo_shared by (simp_all add: demo_paging_def demo_pool_free)
  obtain res s where run: "new_cloned_from_kernel demo_paging = (res, s)" by fastforce
  note c = costsD [OF costs sh(1) run]
  show ?thesis using new_cloned_run [OF sh] c(2) c(3) run sp sh(2) by (fastforce simp: demo_paging_def)
qed

subsection \<open>Properties\<close>

text \<open>C4: mapping memory into a task changes that range of that task and nothing else. \<open>map\<close> does not panic and keeps the task's tables
  well formed; every address of the range is then translated to the given memory, with user access on every level and the wanted write access;
  every other address of the task keeps its translation, and so do the kernel and every other task, although the task shares
  the kernel's tables until it needs its own copies. Three free frames per page are enough for it to succeed.\<close>

theorem user_map_isolated:
  assumes root: "pml4_frame (user_pt s) = Some f" "frame_start_phys_addr f = r" and us: "user_space r s"
    and al: "PAGE_SIZE dvd start" "PAGE_SIZE dvd stop" "PAGE_SIZE dvd phys"
    and lim: "canonical_range start stop" "phys + (stop - start) \<le> 2 ^ 39"
    and run: "user_map start stop phys w pw c s = (res, s')"
  shows "res \<noteq> Panic \<and> user_space r s' \<and> (3 * ((stop - start) div PAGE_SIZE) \<le> spare s \<longrightarrow> res = Ok ()) \<and>
    (\<forall>k va. apart k r s \<longrightarrow> lookup_pte (tables s') k va = lookup_pte (tables s) k va) \<and>
    (\<forall>va. canonical va \<longrightarrow> va \<notin> {start..<stop} \<longrightarrow> lookup_pte (tables s') r va = lookup_pte (tables s) r va) \<and>
    (res = Ok () \<longrightarrow> (\<forall>va\<in>{start..<stop}. calc_phys_addr (tables s') r va = Some (phys + (va - start)) \<and>
       task_page r s' va ((phys + (va - start)) div PAGE_SIZE * PAGE_SIZE) w))"
proof -
  note m = user_map_spec [OF root us al lim run]
  have "user_space r s'" using m(2) by (simp add: extends_def)
  then show ?thesis using m(1,3-6) extends_apart(1) [OF m(2)] by blast
qed
theorem user_map_isolated_witness:
  "\<exists>s f r s'. new_cloned_from_kernel demo_paging = (Ok (), s) \<and> pml4_frame (user_pt s) = Some f \<and> frame_start_phys_addr f = r \<and>
     user_map 0xffff800000000000 0xffff800000001000 0x6000 ReadAccess WriteBack False s = (Ok (), s') \<and>
     calc_phys_addr (tables s') r 0xffff800000000123 = Some 0x6123 \<and> task_page r s' 0xffff800000000123 0x6000 ReadAccess \<and>
     lookup_pte (tables s') r 0x7000 = lookup_pte (tables s) r 0x7000 \<and>
     (\<forall>va. lookup_pte (tables s') 0x8000 va = lookup_pte (tables s) 0x8000 va)"
proof -
  obtain s f where s: "new_cloned_from_kernel demo_paging = (Ok (), s)" "pml4_frame (user_pt s) = Some f"
    "user_space (frame_start_phys_addr f) s" "apart 0x8000 (frame_start_phys_addr f) s" "3 \<le> spare s"
    using demo_task by blast
  obtain res s' where run: "user_map 0xffff800000000000 0xffff800000001000 0x6000 ReadAccess WriteBack False s = (res, s')" by fastforce
  have al: "PAGE_SIZE dvd (0xffff800000000000 :: nat)" "PAGE_SIZE dvd (0xffff800000001000 :: nat)" "PAGE_SIZE dvd (0x6000 :: nat)" by simp_all
  have lim: "canonical_range 0xffff800000000000 0xffff800000001000" "(0x6000 :: nat) + (0xffff800000001000 - 0xffff800000000000) \<le> 2 ^ 39" by (simp_all add: canonical_range_def)
  note m = user_map_isolated [OF s(2) refl s(3) al lim run]
  have ok: "res = Ok ()" using m s(5) by simp
  have "calc_phys_addr (tables s') (frame_start_phys_addr f) 0xffff800000000123 = Some 0x6123 \<and> task_page (frame_start_phys_addr f) s' 0xffff800000000123 0x6000 ReadAccess"
  proof -
    have "\<forall>va\<in>{0xffff800000000000..<0xffff800000001000}. calc_phys_addr (tables s') (frame_start_phys_addr f) va = Some (0x6000 + (va - 0xffff800000000000)) \<and>
        task_page (frame_start_phys_addr f) s' va ((0x6000 + (va - 0xffff800000000000)) div PAGE_SIZE * PAGE_SIZE) ReadAccess"
      using m ok by blast
    then show ?thesis by (elim ballE [of _ _ "0xffff800000000123"]) simp_all
  qed
  moreover have "lookup_pte (tables s') (frame_start_phys_addr f) 0x7000 = lookup_pte (tables s) (frame_start_phys_addr f) 0x7000"
    using m by (simp add: canonical_def)
  moreover have "\<forall>va. lookup_pte (tables s') 0x8000 va = lookup_pte (tables s) 0x8000 va" using m s(4) by blast
  ultimately show ?thesis using s(1,2) run ok by blast
qed

text \<open>C6: a task starts with the kernel's translation, \<open>map\<close> and \<open>unmap\<close> of memory at its own address leave the kernel's tables as they are,
  and after \<open>unmap\<close> the task has no translation for that memory, although the kernel's identity mapping has one: kernel code that
  runs on the task's page tables can no longer reach the page.\<close>

theorem unmapped_page_unreachable:
  assumes pool: "pool_ok (pg_frames s0)" and sh: "shared_space (kernel_pml4_phys s0) (tables s0) (free_frames (pg_frames s0))"
    and new: "new_cloned_from_kernel s0 = (Ok (), s1)" and r: "pml4_phys_addr s1 = (Ok r, s1)"
    and al: "PAGE_SIZE dvd start" "PAGE_SIZE dvd stop" and lim: "start \<le> stop" "stop \<le> 2 ^ 39"
    and map: "user_map start stop start WriteAccess WriteThrough False s1 = (Ok (), s2)"
    and unmap: "user_unmap start stop s2 = (res, s3)"
  shows "res = Ok () \<and>
    (\<forall>va. calc_phys_addr (tables s1) r va = calc_phys_addr (tables s0) (kernel_pml4_phys s0) va) \<and>
    (\<forall>va. calc_phys_addr (tables s3) (kernel_pml4_phys s0) va = calc_phys_addr (tables s0) (kernel_pml4_phys s0) va) \<and>
    (\<forall>va. canonical va \<longrightarrow> calc_phys_addr (tables s2) r va =
       (if va \<in> {start..<stop} then Some va else calc_phys_addr (tables s0) (kernel_pml4_phys s0) va)) \<and>
    (\<forall>va. canonical va \<longrightarrow> calc_phys_addr (tables s3) r va =
       (if va \<in> {start..<stop} then None else calc_phys_addr (tables s0) (kernel_pml4_phys s0) va))"
proof -
  let ?k = "kernel_pml4_phys s0"
  obtain f where f: "user_pt s1 = \<lparr>pml4_frame = Some f, allocated_frames = []\<rparr>" "user_space (frame_start_phys_addr f) s1"
    "\<forall>va. lookup_pte (tables s1) (frame_start_phys_addr f) va = lookup_pte (tables s0) ?k va"
    "\<forall>va. lookup_pte (tables s1) ?k va = lookup_pte (tables s0) ?k va" "apart ?k (frame_start_phys_addr f) s1"
    using new_cloned_run [OF pool sh] new sh by auto
  have root: "pml4_frame (user_pt s1) = Some f" "frame_start_phys_addr f = r" using f(1) r by (simp_all add: pml4_phys_addr_def)
  have us: "user_space r s1" and ap: "apart ?k r s1" using f(2,5) root(2) by simp_all
  have lims: "canonical_range start stop" "start + (stop - start) \<le> 2 ^ 39" using lim by (simp_all add: canonical_range_def)
  note m = user_map_ok [OF root us al al(1) lims map]
  have us2: "user_space r s2" and root2: "pml4_frame (user_pt s2) = Some f"
    using m(1) root(1) by (simp_all add: extends_def fixed_part_def)
  obtain s' where u: "user_unmap start stop s2 = (Ok (), s')" "extends r s2 s'"
    "\<And>va. canonical va \<Longrightarrow> lookup_pte (tables s') r va = (if va \<in> {start..<stop} then None else lookup_pte (tables s2) r va)"
    using user_unmap_run [OF root2 root(2) us2 al lims(1) m(2)] by blast
  have s3: "res = Ok ()" "s' = s3" using u(1) unmap by simp_all
  have "calc_phys_addr (tables s1) r va = calc_phys_addr (tables s0) ?k va" for va
    using f(3) root(2) by (simp add: calc_phys_addr_def)
  moreover have "calc_phys_addr (tables s3) ?k va = calc_phys_addr (tables s0) ?k va" for va
    using extends_apart(1) [OF extends_trans [OF m(1) u(2)] ap, of va] f(4) s3(2) by (simp add: calc_phys_addr_def)
  moreover have l2: "calc_phys_addr (tables s2) r va = (if va \<in> {start..<stop} then Some va else calc_phys_addr (tables s0) ?k va)"
    if "canonical va" for va
    using m(3) [of va] m(4) [OF that] f(3) root(2) by (auto simp: calc_phys_addr_def)
  moreover have "calc_phys_addr (tables s3) r va = (if va \<in> {start..<stop} then None else calc_phys_addr (tables s0) ?k va)"
    if "canonical va" for va
    using u(3) [OF that] l2 [OF that] s3(2) by (auto simp: calc_phys_addr_def)
  ultimately show ?thesis using s3(1) by blast
qed

theorem unmapped_page_unreachable_witness:
  "\<exists>s1 r s2 s3. new_cloned_from_kernel demo_paging = (Ok (), s1) \<and> pml4_phys_addr s1 = (Ok r, s1) \<and>
     user_map 0x7000 0x8000 0x7000 WriteAccess WriteThrough False s1 = (Ok (), s2) \<and> user_unmap 0x7000 0x8000 s2 = (Ok (), s3) \<and>
     calc_phys_addr demo_tables 0x8000 0x7000 = Some 0x7000 \<and> calc_phys_addr (tables s1) r 0x7000 = Some 0x7000 \<and>
     calc_phys_addr (tables s2) r 0x7000 = Some 0x7000 \<and> calc_phys_addr (tables s3) r 0x7000 = None \<and>
     calc_phys_addr (tables s3) 0x8000 0x7000 = Some 0x7000"
proof -
  have sh: "pool_ok (pg_frames demo_paging)" "shared_space (kernel_pml4_phys demo_paging) (tables demo_paging) (free_frames (pg_frames demo_paging))"
    using demo_pool_ok demo_shared by (simp_all add: demo_paging_def demo_pool_free)
  obtain s1 f where s1: "new_cloned_from_kernel demo_paging = (Ok (), s1)" "pml4_frame (user_pt s1) = Some f"
    "user_space (frame_start_phys_addr f) s1" "3 \<le> spare s1"
    using demo_task by blast
  let ?r = "frame_start_phys_addr f"
  have r: "pml4_phys_addr s1 = (Ok ?r, s1)" using s1(2) by (simp add: pml4_phys_addr_def)
  obtain res s2 where run: "user_map 0x7000 0x8000 0x7000 WriteAccess WriteThrough False s1 = (res, s2)" by fastforce
  have al: "PAGE_SIZE dvd (0x7000 :: nat)" "PAGE_SIZE dvd (0x8000 :: nat)" by simp_all
  have lim: "(0x7000 :: nat) \<le> 0x8000" "(0x8000 :: nat) \<le> 2 ^ 39" "canonical_range 0x7000 0x8000" "(0x7000 :: nat) + (0x8000 - 0x7000) \<le> 2 ^ 39"
    by (simp_all add: canonical_range_def)
  have "res = Ok ()" using user_map_spec(3) [OF s1(2) refl s1(3) al al(1) lim(3,4) run] s1(4) by simp
  then have run': "user_map 0x7000 0x8000 0x7000 WriteAccess WriteThrough False s1 = (Ok (), s2)" using run by simp
  obtain ures s3 where unmap: "user_unmap 0x7000 0x8000 s2 = (ures, s3)" by fastforce
  note m = unmapped_page_unreachable [OF sh s1(1) r al lim(1,2) run' unmap]
  have "calc_phys_addr demo_tables 0x8000 0x7000 = Some 0x7000" by (rule demo_identity)
  then have k: "calc_phys_addr (tables demo_paging) (kernel_pml4_phys demo_paging) 0x7000 = Some 0x7000" "kernel_pml4_phys demo_paging = 0x8000"
    by (simp_all add: demo_paging_def)
  have "calc_phys_addr (tables s1) ?r 0x7000 = Some 0x7000" "calc_phys_addr (tables s3) 0x8000 0x7000 = Some 0x7000" "ures = Ok ()"
    using m k by simp_all
  moreover have "calc_phys_addr (tables s2) ?r 0x7000 = Some 0x7000" "calc_phys_addr (tables s3) ?r 0x7000 = None" using m by (simp_all add: canonical_def)
  ultimately show ?thesis using s1(1) r run' unmap demo_identity by blast
qed

end
