(* ===== verification/Paging_Kernel.thy ===== *)
theory Paging_Kernel
  imports Paging_Spaces
begin

unbundle bit_operations_syntax

text \<open>
  The kernel's address space: \<open>kernel_init\<close> makes the identity mapping and \<open>kernel_map\<close> extends it. The kernel owns
  every table that its root leads to.
\<close>

definition kernel_space :: "nat \<Rightarrow> nat set \<Rightarrow> paging \<Rightarrow> bool" where
  "kernel_space r own s \<longleftrightarrow> pool_ok (pg_frames s) \<and> space (tables s) r own (free_frames (pg_frames s)) \<and>
     (\<forall>q a. length q \<le> 3 \<longrightarrow> follow (tables s) r q = Some a \<longrightarrow> a \<in> own)"

lemma kernel_spaceD:
  assumes "kernel_space r own s"
  shows "pool_ok (pg_frames s)" "space (tables s) r own (free_frames (pg_frames s))"
    "length q \<le> 3 \<Longrightarrow> follow (tables s) r q = Some a \<Longrightarrow> a \<in> own"
  using assms unfolding kernel_space_def by blast+

definition registers :: "paging \<Rightarrow> nat \<times> nat \<times> UserPageTable" where
  "registers s = (kernel_pml4_phys s, cr3_reg s, user_pt s)"

lemma registers_fields [simp]:
  "registers (s\<lparr>tables := T\<rparr>) = registers s" "registers (s\<lparr>pg_frames := b\<rparr>) = registers s"
  by (simp_all add: registers_def)

text \<open>The kernel's space got more tables, out of free frames.\<close>

definition grows :: "nat \<Rightarrow> nat set \<Rightarrow> nat set \<Rightarrow> paging \<Rightarrow> paging \<Rightarrow> bool" where
  "grows r own own' s s' \<longleftrightarrow> kernel_space r own' s' \<and> own \<subseteq> own' \<and>
     (\<forall>a\<in>own' - own. a div PAGE_SIZE \<in> free_frames (pg_frames s)) \<and>
     free_frames (pg_frames s') \<subseteq> free_frames (pg_frames s) \<and>
     (\<forall>a. a \<notin> own' \<longrightarrow> tables s' a = tables s a) \<and>
     access_grows (tables s) (tables s') r \<and> registers s' = registers s"

lemma grows_refl: "kernel_space r own s \<Longrightarrow> grows r own own s s"
  by (simp add: grows_def)

lemma grows_trans:
  assumes "grows r own own1 s s1" and "grows r own1 own2 s1 s2"
  shows "grows r own own2 s s2"
proof -
  have "\<forall>a\<in>own2 - own. a div PAGE_SIZE \<in> free_frames (pg_frames s)" using assms unfolding grows_def by blast
  moreover have "\<forall>a. a \<notin> own2 \<longrightarrow> tables s2 a = tables s a" using assms unfolding grows_def by (metis subsetD)
  moreover have "access_grows (tables s) (tables s2) r" using assms access_grows_trans unfolding grows_def by blast
  moreover have "own \<subseteq> own2" "free_frames (pg_frames s2) \<subseteq> free_frames (pg_frames s)" using assms unfolding grows_def by blast+
  ultimately show ?thesis using assms by (simp add: grows_def)
qed

lemma hung_grows:
  assumes ks: "kernel_space r own s" and h: "hung r path t i w u own own' s s'" and "registers s' = registers s"
  shows "grows r own own' s s'" "same_leaves r s s'"
proof -
  have "a \<in> own'" if "length q \<le> 3" "follow (tables s') r q = Some a" for q a
    using h that kernel_spaceD(3) [OF ks, of q a] unfolding hung_def by (cases "q = path @ [i]") auto
  then have "kernel_space r own' s'" using h by (simp add: kernel_space_def hung_def)
  then show "grows r own own' s s'" "same_leaves r s s'" using h assms(3) by (simp_all add: hung_def grows_def same_leaves_def)
qed

lemma grows_entry:
  assumes "grows r own own' s s'" and "entry_at (tables s) r q j = Some e" and "length q \<le> 2" and "at_least w u e"
  shows "\<exists>e'. entry_at (tables s') r q j = Some e' \<and> at_least w u e'"
  using assms at_least_trans unfolding grows_def access_grows_def by blast

subsection \<open>Walking and allocating\<close>

lemma raise_at_least_same: "at_least w u e \<Longrightarrow> raise_entry w u e = e"
  by (cases w; cases u; simp add: raise_entry_def at_least_def)

lemma ensure_pte_level:
  assumes ks: "kernel_space r own s" and path: "follow (tables s) r path = Some t" "length path \<le> 2"
  obtains (failed) e where "ensure_pte t i w u pw c alloc_one s = (Err e, s)"
    | (ready) fr own' s' e where "ensure_pte t i w u pw c alloc_one s = (Ok (fr, e), s')" "grows r own own' s s'" "same_leaves r s s'"
      "entry_at (tables s') r path i = Some e" "at_least w u e" "entry_page_table e = Some (pte_addr e)"
      "follow (tables s') r (path @ [i]) = Some (pte_addr e)"
proof -
  have sp: "space (tables s) r own (free_frames (pg_frames s))" and t: "t \<in> own"
    using kernel_spaceD(2) [OF ks] kernel_spaceD(3) [OF ks _ path(1)] path(2) by simp_all
  note run = ensure_pte_def entry_of_def gets_def bind_act_def zero_table_def write_entry_def modify_def return_act_def
  show thesis
  proof (cases "pte_p (tables s t i)")
    case False
    show thesis
    proof (cases rule: alloc_one_cases [OF kernel_spaceD(1) [OF ks], case_names found failed])
      case (found f b)
      let ?c = "frame_start_phys_addr f" and ?e = "set_entry (frame_start_phys_addr f) w u pw c (tables s t i)"
      have ct: "?c \<noteq> t" using spaceD(5) [OF sp t] found(3) by auto
      define s1 where "s1 = s\<lparr>pg_frames := b, tables := graft (tables s) ?c (\<lambda>_. 0) t i ?e\<rparr>"
      have go: "ensure_pte t i w u pw c alloc_one s = (Ok (Some f, ?e), s1)"
        using False found(1) ct raise_at_least_same [OF set_entry_at_least]
        by (simp add: run s1_def graft_def fun_upd_twist)
      have h: "hung r path t i w u own (insert ?c own) s s1"
        by (rule hung_new [OF sp path(1) t path(2) False found(3,5,6), where s' = s1]) (use found(2,4) in \<open>simp_all add: s1_def\<close>)
      have e: "tables s1 t i = ?e" by (simp add: s1_def graft_def)
      have reg: "registers s1 = registers s" by (simp add: s1_def registers_def)
      show thesis by (rule ready [OF go hung_grows [OF ks h reg]]) (use h e in \<open>auto simp: hung_def\<close>)
    next
      case (failed e)
      then show thesis using False that(1) by (simp add: run)
    qed
  next
    case True
    let ?e = "raise_entry w u (tables s t i)"
    define s1 where "s1 = s\<lparr>tables := (tables s)(t := (tables s t)(i := ?e))\<rparr>"
    have go: "ensure_pte t i w u pw c alloc_one s = (Ok (None, ?e), s1)" using True by (simp add: run s1_def)
    have "follow (tables s) r (path @ [i]) = Some (pte_addr (tables s t i))"
      using True spaceD(4) [OF sp path(2,1)] path(1) by (simp add: follow_snoc lookup_step_def entry_page_table_def)
    then have "pte_addr (tables s t i) \<in> own" using kernel_spaceD(3) [OF ks, of "path @ [i]"] path(2) by simp
    from hung_raise [OF kernel_spaceD(1) [OF ks] sp path(1) t path(2) True this, of w u]
    have h: "hung r path t i w u own own s s1" by (simp add: s1_def)
    have e: "tables s1 t i = ?e" by (simp add: s1_def)
    have reg: "registers s1 = registers s" by (simp add: s1_def)
    show thesis by (rule ready [OF go hung_grows [OF ks h reg]]) (use h e in \<open>auto simp: hung_def\<close>)
  qed
qed

lemma walk_ensure_run:
  "kernel_space r own s \<Longrightarrow> follow (tables s) r path = Some t \<Longrightarrow> length path + length is \<le> 3 \<Longrightarrow>
   (\<exists>e own' s'. walk_ensure is t w u pw c alloc_one leak_frame s = (Err e, s') \<and> grows r own own' s s' \<and> same_leaves r s s') \<or>
   (\<exists>t' own' s'. walk_ensure is t w u pw c alloc_one leak_frame s = (Ok t', s') \<and> grows r own own' s s' \<and> same_leaves r s s' \<and>
     follow (tables s') r (path @ is) = Some t' \<and>
     (\<forall>k<length is. \<exists>e. entry_at (tables s') r (path @ take k is) (is ! k) = Some e \<and> at_least w u e))"
proof (induction "is" arbitrary: s own path t)
  case Nil
  then show ?case using grows_refl by (fastforce simp: same_leaves_def)
next
  case (Cons i "is")
  have len: "length path \<le> 2" using Cons.prems(3) by simp
  show ?case
  proof (cases rule: ensure_pte_level [OF Cons.prems(1,2) len, of i w u pw c, case_names failed ready])
    case (failed e)
    then show ?thesis using grows_refl [OF Cons.prems(1)] by (fastforce simp: same_leaves_def bind_act_def)
  next
    case (ready fr own1 s1 e)
    have ks1: "kernel_space r own1 s1" using ready(2) by (simp add: grows_def)
    have len1: "length (path @ [i]) + length is \<le> 3" using Cons.prems(3) by simp
    have step: "walk_ensure (i # is) t w u pw c alloc_one leak_frame s = walk_ensure is (pte_addr e) w u pw c alloc_one leak_frame s1"
      using ready(1,6) by (cases fr) (simp_all add: bind_act_def leak_frame_def)
    from Cons.IH [OF ks1 ready(7) len1] show ?thesis
    proof (elim disjE exE conjE)
      fix e' own' s' assume rest: "walk_ensure is (pte_addr e) w u pw c alloc_one leak_frame s1 = (Err e', s')" "grows r own1 own' s1 s'" "same_leaves r s1 s'"
      have "same_leaves r s s'" using ready(3) rest(3) by (simp add: same_leaves_def)
      then show ?thesis using step rest(1) grows_trans [OF ready(2) rest(2)] by metis
    next
      fix t' own' s' assume rest: "walk_ensure is (pte_addr e) w u pw c alloc_one leak_frame s1 = (Ok t', s')" "grows r own1 own' s1 s'"
        "same_leaves r s1 s'" "follow (tables s') r ((path @ [i]) @ is) = Some t'"
        "\<forall>k<length is. \<exists>e. entry_at (tables s') r ((path @ [i]) @ take k is) (is ! k) = Some e \<and> at_least w u e"
      have "\<exists>e. entry_at (tables s') r (path @ take k (i # is)) ((i # is) ! k) = Some e \<and> at_least w u e" if "k < length (i # is)" for k
        using that rest(5) grows_entry [OF rest(2) ready(4) len ready(5)] by (cases k) simp_all
      moreover have "same_leaves r s s'" using ready(3) rest(3) by (simp add: same_leaves_def)
      ultimately show ?thesis using step rest(1,4) grows_trans [OF ready(2) rest(2)] by (intro disjI2 exI [of _ t'] exI [of _ own'] exI [of _ s']) simp
    qed
  qed
qed

lemma kernel_leaf:
  fixes e :: PageTableEntry and i :: nat
  assumes ks: "kernel_space r own s" and path: "follow (tables s) r path = Some t" "length path = 3"
  defines "s' \<equiv> s\<lparr>tables := (tables s)(t := (tables s t)(i := e))\<rparr>"
  shows "grows r own own s s'" "length q \<le> 3 \<Longrightarrow> entry_at (tables s') r q j =
      (if q = path \<and> j = i then (if pte_p e then Some e else None) else entry_at (tables s) r q j)"
proof -
  have t: "t \<in> own" using kernel_spaceD(3) [OF ks _ path(1)] path(2) by simp
  note wr = leaf_write [OF kernel_spaceD(2) [OF ks] path(1) t path(2), where i = i and e = e]
  show ent: "length q \<le> 3 \<Longrightarrow> entry_at (tables s') r q j =
      (if q = path \<and> j = i then (if pte_p e then Some e else None) else entry_at (tables s) r q j)" for q j
    using wr(2) [of q j] by (simp add: s'_def)
  have "access_grows (tables s) (tables s') r" unfolding access_grows_def using ent path(2) by (auto simp: s'_def)
  moreover have "kernel_space r own s'" using ks wr(1,3) by (simp add: kernel_space_def s'_def)
  ultimately show "grows r own own s s'" using t by (auto simp: grows_def s'_def)
qed

lemma map_page_run:
  assumes ks: "kernel_space r own s" and a: "PAGE_SIZE dvd phys + (i - start)" "phys + (i - start) < 2 ^ 39"
  shows "(\<exists>e own' s'. map_page r start phys i w u pw c alloc_one leak_frame s = (Err e, s') \<and> grows r own own' s s' \<and> same_leaves r s s') \<or>
    (\<exists>own' s'. map_page r start phys i w u pw c alloc_one leak_frame s = (Ok (), s') \<and> grows r own own' s s' \<and>
      page_mapped (tables s') r i (phys + (i - start)) w u \<and>
      (\<forall>q j. length q = 3 \<longrightarrow> (q, j) \<noteq> page_key i \<longrightarrow> entry_at (tables s') r q j = entry_at (tables s) r q j))"
proof -
  let ?i1 = "pml1_entry_index i" and ?a = "phys + (i - start)"
  have add: "uadd phys (i - start) = Ok ?a" using a(2) by (simp add: uadd_def)
  have r: "follow (tables s) r [] = Some r" "length ([] :: nat list) + length (va_path i) \<le> 3" by simp_all
  from walk_ensure_run [OF ks r, of w u pw c] show ?thesis
  proof (elim disjE exE conjE)
    fix e own' s' assume "walk_ensure (va_path i) r w u pw c alloc_one leak_frame s = (Err e, s')" "grows r own own' s s'" "same_leaves r s s'"
    then show ?thesis by (auto simp: map_page_def bind_act_def va_path_def)
  next
    fix t own1 s1 assume walk: "walk_ensure (va_path i) r w u pw c alloc_one leak_frame s = (Ok t, s1)" "grows r own own1 s s1"
      "same_leaves r s s1" "follow (tables s1) r ([] @ va_path i) = Some t"
      "\<forall>k<length (va_path i). \<exists>e. entry_at (tables s1) r ([] @ take k (va_path i)) (va_path i ! k) = Some e \<and> at_least w u e"
    have ks1: "kernel_space r own1 s1" using walk(2) by (simp add: grows_def)
    have p: "follow (tables s1) r (va_path i) = Some t" using walk(4) by simp
    let ?e = "set_entry ?a w u pw c (tables s1 t ?i1)"
    define s2 where "s2 = s1\<lparr>tables := (tables s1)(t := (tables s1 t)(?i1 := ?e))\<rparr>"
    note leaf = kernel_leaf [OF ks1 p va_path_length, where i = ?i1 and e = ?e, folded s2_def]
    have go: "map_page r start phys i w u pw c alloc_one leak_frame s = (Ok (), s2)"
      using walk(1) add by (simp add: map_page_def bind_act_def va_path_def entry_of_def write_entry_def s2_def)
    have "lookup_pte (tables s2) r i = Some ?e" using leaf(2) [of "va_path i"] by (simp add: lookup_pte_entry set_entry_fields)
    moreover have "\<exists>e. entry_at (tables s2) r (take k (va_path i)) (va_path i ! k) = Some e \<and> at_least w u e" if "k < 3" for k
      using walk(5) grows_entry [OF leaf(1), of "take k (va_path i)" "va_path i ! k" _ w u] that by fastforce
    ultimately have "page_mapped (tables s2) r i ?a w u" using a by (simp add: page_mapped_def set_entry_fields)
    moreover have "entry_at (tables s2) r q j = entry_at (tables s) r q j" if "length q = 3" "(q, j) \<noteq> page_key i" for q j
      using that leaf(2) [of q j] walk(3) by (auto simp: same_leaves_def page_key_def)
    ultimately show ?thesis using go grows_trans [OF walk(2) leaf(1)] by blast
  qed
qed

lemma grows_mapped:
  assumes "page_mapped (tables s) r va a w u" and "grows r own own' s s'"
    and "entry_at (tables s') r (va_path va) (pml1_entry_index va) = entry_at (tables s) r (va_path va) (pml1_entry_index va)"
  shows "page_mapped (tables s') r va a w u"
  unfolding page_mapped_def
proof (intro conjI allI impI)
  show "\<exists>e. lookup_pte (tables s') r va = Some e \<and> pte_addr e = a \<and> pte_rw e = w \<and> pte_us e = u"
    using assms(1,3) by (simp add: page_mapped_def lookup_pte_entry)
  fix k :: nat assume k: "k < 3"
  then obtain e where "entry_at (tables s) r (take k (va_path va)) (va_path va ! k) = Some e" "at_least w u e"
    using assms(1) by (auto simp: page_mapped_def)
  then show "\<exists>e. entry_at (tables s') r (take k (va_path va)) (va_path va ! k) = Some e \<and> at_least w u e"
    using grows_entry [OF assms(2)] k by (simp add: min_def)
qed

lemma map_pages_run:
  assumes aligned: "PAGE_SIZE dvd phys" and fits: "\<forall>k\<in>set ks. phys + k * PAGE_SIZE < 2 ^ 39"
    and pages: "distinct (map (\<lambda>k. page_key (start + k * PAGE_SIZE)) ks)"
  shows "kernel_space r own s \<Longrightarrow> \<exists>res own' s'.
     for_each (map (\<lambda>k. start + k * PAGE_SIZE) ks) (\<lambda>i. map_page r start phys i w u pw c alloc_one leak_frame) s = (res, s') \<and>
     res \<noteq> Panic \<and> grows r own own' s s' \<and>
     (\<forall>q j. length q = 3 \<longrightarrow> (\<forall>k\<in>set ks. (q, j) \<noteq> page_key (start + k * PAGE_SIZE)) \<longrightarrow>
       entry_at (tables s') r q j = entry_at (tables s) r q j) \<and>
     (res = Ok () \<longrightarrow> (\<forall>k\<in>set ks. page_mapped (tables s') r (start + k * PAGE_SIZE) (phys + k * PAGE_SIZE) w u))"
  using fits pages
proof (induction ks arbitrary: s own)
  case Nil
  then show ?case using grows_refl by fastforce
next
  case (Cons k ks)
  let ?i = "start + k * PAGE_SIZE" and ?a = "phys + k * PAGE_SIZE"
  let ?loop = "\<lambda>ks. for_each (map (\<lambda>k. start + k * PAGE_SIZE) ks) (\<lambda>i. map_page r start phys i w u pw c alloc_one leak_frame)"
  have a: "PAGE_SIZE dvd phys + (?i - start)" "phys + (?i - start) < 2 ^ 39" using aligned Cons.prems(2) by simp_all
  have a_eq: "phys + (?i - start) = ?a" by simp
  from map_page_run [OF Cons.prems(1) a, of w u pw c, unfolded a_eq] show ?case
  proof (elim disjE exE conjE)
    fix e own' s' assume "map_page r start phys ?i w u pw c alloc_one leak_frame s = (Err e, s')" "grows r own own' s s'" "same_leaves r s s'"
    then show ?thesis by (auto simp: same_leaves_def)
  next
    fix own1 s1 assume one: "map_page r start phys ?i w u pw c alloc_one leak_frame s = (Ok (), s1)" "grows r own own1 s s1"
      "page_mapped (tables s1) r ?i ?a w u"
      "\<forall>q j. length q = 3 \<longrightarrow> (q, j) \<noteq> page_key ?i \<longrightarrow> entry_at (tables s1) r q j = entry_at (tables s) r q j"
    have ks1: "kernel_space r own1 s1" using one(2) by (simp add: grows_def)
    have ks: "\<forall>k\<in>set ks. phys + k * PAGE_SIZE < 2 ^ 39" "distinct (map (\<lambda>k. page_key (start + k * PAGE_SIZE)) ks)"
      using Cons.prems(2,3) by simp_all
    obtain res own' s' where rest: "?loop ks s1 = (res, s')" "res \<noteq> Panic" "grows r own1 own' s1 s'"
      "\<forall>q j. length q = 3 \<longrightarrow> (\<forall>k\<in>set ks. (q, j) \<noteq> page_key (start + k * PAGE_SIZE)) \<longrightarrow>
        entry_at (tables s') r q j = entry_at (tables s1) r q j"
      "res = Ok () \<longrightarrow> (\<forall>k\<in>set ks. page_mapped (tables s') r (start + k * PAGE_SIZE) (phys + k * PAGE_SIZE) w u)"
      using Cons.IH [OF ks1 ks] by blast
    have "page_key ?i \<noteq> page_key (start + l * PAGE_SIZE)" if "l \<in> set ks" for l using Cons.prems(3) that by auto
    then have "page_mapped (tables s') r ?i ?a w u"
      using grows_mapped [OF one(3) rest(3)] rest(4) by (simp add: page_key_def)
    then have "res = Ok () \<longrightarrow> (\<forall>l\<in>set (k # ks). page_mapped (tables s') r (start + l * PAGE_SIZE) (phys + l * PAGE_SIZE) w u)"
      using rest(5) by simp
    moreover have "?loop (k # ks) s = (res, s')" using one(1) rest(1) by simp
    moreover have "\<forall>q j. length q = 3 \<longrightarrow> (\<forall>l\<in>set (k # ks). (q, j) \<noteq> page_key (start + l * PAGE_SIZE)) \<longrightarrow>
       entry_at (tables s') r q j = entry_at (tables s) r q j"
      using rest(4) one(4) by simp
    ultimately show ?thesis using rest(2) grows_trans [OF one(2) rest(3)] by blast
  qed
qed

subsection \<open>A range\<close>

lemma costs_ensure_pte: "costs 1 (ensure_pte t i w u pw c alloc_one)"
proof -
  have fresh: "costs 1 (bind_act alloc_one (\<lambda>f. bind_act (zero_table f) (\<lambda>_. bind_act (entry_of t i) (\<lambda>e.
      bind_act (write_entry t i (g f e)) (\<lambda>_. return_act (Some f))))))" for g
    by (intro costs_and costs_alloc costs_free)
  have "costs 1 (return_act (None :: MemoryFrame option))" by (rule costs_mono [OF costs_free(1)]) simp
  then have "costs 1 (bind_act (if b then bind_act alloc_one (\<lambda>f. bind_act (zero_table f) (\<lambda>_. bind_act (entry_of t i) (\<lambda>e.
      bind_act (write_entry t i (g f e)) (\<lambda>_. return_act (Some f))))) else return_act None) (\<lambda>frame.
      bind_act (entry_of t i) (\<lambda>e. bind_act (write_entry t i (h e)) (\<lambda>_. return_act (frame, h e)))))" for b g h
    using fresh by (intro costs_and costs_free) (cases b; simp only: if_True if_False)
  then show ?thesis unfolding ensure_pte_def by (rule costs_then [OF costs_free(2)])
qed

lemma costs_walk_ensure: "costs (length is) (walk_ensure is t w u pw c alloc_one leak_frame)"
proof (induction "is" arbitrary: t)
  case Nil
  show ?case using costs_free(1) [of t] by (simp del: act_run)
next
  case (Cons i "is")
  have leak: "costs 0 (case fr of Some f \<Rightarrow> leak_frame f | None \<Rightarrow> return_act ())" for fr
    using costs_free(1) [of "()"] by (simp add: leak_frame_def del: act_run split: option.split)
  have below: "costs (length is) (case n of None \<Rightarrow> lift_outcome Panic | Some t' \<Rightarrow> walk_ensure is t' w u pw c alloc_one leak_frame)" for n
    using Cons costs_mono [OF costs_free(8)] by (auto split: option.split)
  have "costs (length is) (case x of (fr, e) \<Rightarrow> bind_act (case fr of Some f \<Rightarrow> leak_frame f | None \<Rightarrow> return_act ()) (\<lambda>_.
      case entry_page_table e of None \<Rightarrow> lift_outcome Panic | Some t' \<Rightarrow> walk_ensure is t' w u pw c alloc_one leak_frame))" for x
    using costs_then [OF leak below] by (cases x) simp
  from costs_bind [OF costs_ensure_pte this] show ?case by simp
qed

lemma costs_map_page:
  assumes "uadd phys (i - start) = Ok a"
  shows "costs 3 (map_page r start phys i w u pw c alloc_one leak_frame)"
proof -
  have "costs (length [pml4_entry_index i, pml3_entry_index i, pml2_entry_index i] + 0) (map_page r start phys i w u pw c alloc_one leak_frame)"
    unfolding map_page_def assms by (intro costs_bind [OF costs_walk_ensure] costs_then costs_free)
  then show ?thesis by (simp add: numeral_3_eq_3)
qed

lemma map_range_spec:
  assumes ks: "kernel_space r own s" and al: "PAGE_SIZE dvd start" "PAGE_SIZE dvd stop" "PAGE_SIZE dvd phys"
    and lim: "canonical_range start stop" "phys + (stop - start) \<le> 2 ^ 39"
  obtains res own' s' where "map_range r start stop phys w u pw c alloc_one leak_frame s = (res, s')"
    "res \<noteq> Panic" "grows r own own' s s'" "3 * ((stop - start) div PAGE_SIZE) \<le> spare s \<Longrightarrow> res = Ok ()"
    "\<And>va. canonical va \<Longrightarrow> va \<notin> {start..<stop} \<Longrightarrow> lookup_pte (tables s') r va = lookup_pte (tables s) r va"
    "\<And>va. res = Ok () \<Longrightarrow> va \<in> {start..<stop} \<Longrightarrow> calc_phys_addr (tables s') r va = Some (phys + (va - start))"
    "\<And>k. res = Ok () \<Longrightarrow> k < (stop - start) div PAGE_SIZE \<Longrightarrow> page_mapped (tables s') r (start + k * PAGE_SIZE) (phys + k * PAGE_SIZE) w u"
proof -
  let ?n = "(stop - start) div PAGE_SIZE"
  let ?body = "\<lambda>i. map_page r start phys i w u pw c alloc_one leak_frame"
  note dist = range_pages(1) [OF lim(1)] and fits = range_pages(2) [OF lim(2)]
  obtain res own' s' where run: "for_each (map (\<lambda>k. start + k * PAGE_SIZE) [0..<?n]) ?body s = (res, s')" "res \<noteq> Panic" "grows r own own' s s'"
    "\<forall>q j. length q = 3 \<longrightarrow> (\<forall>k\<in>set [0..<?n]. (q, j) \<noteq> page_key (start + k * PAGE_SIZE)) \<longrightarrow>
       entry_at (tables s') r q j = entry_at (tables s) r q j"
    "res = Ok () \<longrightarrow> (\<forall>k\<in>set [0..<?n]. page_mapped (tables s') r (start + k * PAGE_SIZE) (phys + k * PAGE_SIZE) w u)"
    using map_pages_run [OF al(3) fits dist ks] by blast
  have "costs (3 * length (map (\<lambda>k. start + k * PAGE_SIZE) [0..<?n])) (for_each (map (\<lambda>k. start + k * PAGE_SIZE) [0..<?n]) ?body)"
  proof (rule costs_for_each)
    fix i assume "i \<in> set (map (\<lambda>k. start + k * PAGE_SIZE) [0..<?n])"
    then obtain k where "k < ?n" "i = start + k * PAGE_SIZE" by auto
    moreover have "phys + k * PAGE_SIZE < 2 ^ 39" using fits calculation(1) by simp
    ultimately have "uadd phys (i - start) = Ok (phys + k * PAGE_SIZE)" by (simp add: uadd_def)
    then show "costs 3 (?body i)" by (rule costs_map_page)
  qed
  from costsD(3) [OF this kernel_spaceD(1) [OF ks] run(1)] run(2) have enough: "3 * ?n \<le> spare s \<Longrightarrow> res = Ok ()" by (cases res) auto
  have go: "map_range r start stop phys w u pw c alloc_one leak_frame s = (res, s')"
    using run(1) al page_steps_aligned [OF al(1,2)] by (simp add: map_range_def dvd_eq_mod_eq_0)
  have out: "\<forall>q j. length q = 3 \<longrightarrow> (\<forall>k<?n. (q, j) \<noteq> page_key (start + k * PAGE_SIZE)) \<longrightarrow> entry_at (tables s') r q j = entry_at (tables s) r q j"
    using run(4) by simp
  have ins: "res = Ok () \<Longrightarrow> \<forall>k<?n. page_mapped (tables s') r (start + k * PAGE_SIZE) (phys + k * PAGE_SIZE) w u" using run(5) by simp
  show thesis
    by (rule that [OF go run(2,3) enough range_lookup(1) [OF al lim(1) out] range_lookup(2) [OF al lim(1) ins]]) (use ins in auto)
qed

text \<open>\<open>kernel_map\<close> adds a range to the kernel's space and keeps the rest.\<close>

lemma kernel_map_spec:
  assumes "kernel_space (kernel_pml4_phys s) own s" and "PAGE_SIZE dvd start" and "PAGE_SIZE dvd stop" and "start \<le> stop" and "stop \<le> 2 ^ 39"
  obtains res own' s' where "kernel_map start stop w pw c s = (res, s')" "res \<noteq> Panic" "grows (kernel_pml4_phys s) own own' s s'"
    "3 * ((stop - start) div PAGE_SIZE) \<le> spare s \<Longrightarrow> res = Ok ()"
    "\<And>va. canonical va \<Longrightarrow> va \<notin> {start..<stop} \<Longrightarrow>
      lookup_pte (tables s') (kernel_pml4_phys s) va = lookup_pte (tables s) (kernel_pml4_phys s) va"
    "\<And>va. res = Ok () \<Longrightarrow> va \<in> {start..<stop} \<Longrightarrow> calc_phys_addr (tables s') (kernel_pml4_phys s) va = Some va"
proof -
  have lim: "canonical_range start stop" "start + (stop - start) \<le> 2 ^ 39" using assms(4,5) by (simp_all add: canonical_range_def)
  show thesis
  proof (rule map_range_spec [OF assms(1-3) assms(2) lim, of w Supervisor pw c])
    fix res own' s' assume m: "map_range (kernel_pml4_phys s) start stop start w Supervisor pw c alloc_one leak_frame s = (res, s')"
      "res \<noteq> Panic" "grows (kernel_pml4_phys s) own own' s s'" "3 * ((stop - start) div PAGE_SIZE) \<le> spare s \<Longrightarrow> res = Ok ()"
      "\<And>va. canonical va \<Longrightarrow> va \<notin> {start..<stop} \<Longrightarrow> lookup_pte (tables s') (kernel_pml4_phys s) va = lookup_pte (tables s) (kernel_pml4_phys s) va"
      "\<And>va. res = Ok () \<Longrightarrow> va \<in> {start..<stop} \<Longrightarrow> calc_phys_addr (tables s') (kernel_pml4_phys s) va = Some (start + (va - start))"
    have "kernel_map start stop w pw c s = (res, s')" using m(1) by (simp add: kernel_map_def)
    then show thesis by (rule that [OF _ m(2-5)]) (use m(6) in auto)
  qed
qed

subsection \<open>The identity mapping\<close>

lemma empty_space:
  assumes "pool_ok b" and "r div PAGE_SIZE \<notin> free_frames b" and "\<And>i. T r i = 0"
  shows "kernel_space r {r} (s\<lparr>pg_frames := b, tables := T\<rparr>)" "lookup_pte T r va = None"
proof -
  have fol: "follow T r q = Some a \<longleftrightarrow> q = [] \<and> a = r" for q a
    using assms(3) by (cases q) (auto simp: lookup_step_def)
  have "space T r {r} (free_frames b)" by (rule spaceI) (use fol assms(2,3) in auto)
  then show "kernel_space r {r} (s\<lparr>pg_frames := b, tables := T\<rparr>)" using fol assms(1) by (simp add: kernel_space_def)
  show "lookup_pte T r va = None" using assms(3) by (simp add: lookup_pte_def lookup_step_def)
qed

lemma fresh_not_deallocated: "bmm_inv b \<Longrightarrow> alloc_multi_mem_frame n b = (Ok f, b') \<Longrightarrow> \<not> deallocated f"
  by (cases rule: alloc_multi_cases [of b n]) (auto simp: alloc_post_def frame_at_def)

text \<open>The outcome of \<open>kernel_init\<close> as three cases.\<close>

lemma kernel_init_cases:
  assumes pool: "pool_ok (pg_frames s)" and al: "PAGE_SIZE dvd start" "PAGE_SIZE dvd stop" and lim: "start \<le> stop" "stop \<le> 2 ^ 39"
  obtains (no_root) e where "kernel_init start stop s = (Err e, s)" "spare s = 0"
    | (no_table) s' where "kernel_init start stop s = (Panic, s')" "spare s < 3 * ((stop - start) div PAGE_SIZE) + 1"
    | (mapped) own' s' where "kernel_init start stop s = (Ok (), s')" "kernel_space (kernel_pml4_phys s') own' s'"
      "cr3_reg s' = kernel_pml4_phys s'" "user_pt s' = user_pt s"
      "\<And>va. canonical va \<Longrightarrow> calc_phys_addr (tables s') (kernel_pml4_phys s') va = (if va \<in> {start..<stop} then Some va else None)"
      "\<And>k. k < (stop - start) div PAGE_SIZE \<Longrightarrow>
        page_mapped (tables s') (kernel_pml4_phys s') (start + k * PAGE_SIZE) (start + k * PAGE_SIZE) WriteAccess Supervisor"
proof (cases rule: alloc_one_cases [OF pool, case_names found failed])
  case (failed e)
  then have "\<not> 1 \<le> spare s" using costsD(3) [OF costs_alloc pool failed, where e = e] by blast
  then show thesis using no_root [of e] failed by (simp add: kernel_init_def bind_act_def)
next
  case (found f b)
  let ?r = "frame_start_phys_addr f" and ?n = "(stop - start) div PAGE_SIZE"
  define s1 where "s1 = s\<lparr>pg_frames := b, tables := (tables s)(?r := (\<lambda>_. 0))\<rparr>"
  have ks: "kernel_space ?r {?r} s1" and none: "lookup_pte (tables s1) ?r va = None" for va
    unfolding s1_def using empty_space [OF found(2), of ?r "(tables s)(?r := (\<lambda>_. 0))"] found(4) by simp_all
  have sp: "spare s \<le> spare s1 + 1" using costsD(2) [OF costs_alloc pool found(1)] by (simp add: s1_def spare_def)
  have live: "\<not> deallocated f"
    using fresh_not_deallocated [of "pg_frames s" 1 f] found(1) pool by (auto simp: alloc_one_def pool_ok_def split: prod.splits)
  have start: "kernel_init start stop s = catch (map_range ?r start stop start WriteAccess Supervisor WriteBack False alloc_one leak_frame) (\<lambda>r.
       case r of
         Ok _ \<Rightarrow> modify (\<lambda>s. s\<lparr>cr3_reg := ?r, kernel_pml4_phys := ?r\<rparr>)
       | Err e \<Rightarrow> lift_outcome (and_then (drop_frame f) (\<lambda>_. Err e))
       | Panic \<Rightarrow> lift_outcome Panic) s1"
    using found(1) by (simp add: kernel_init_def bind_act_def zero_table_def s1_def)
  have lims: "canonical_range start stop" "start + (stop - start) \<le> 2 ^ 39" using lim by (simp_all add: canonical_range_def)
  obtain res own' s2 where m: "map_range ?r start stop start WriteAccess Supervisor WriteBack False alloc_one leak_frame s1 = (res, s2)"
    "res \<noteq> Panic" "grows ?r {?r} own' s1 s2" "3 * ?n \<le> spare s1 \<Longrightarrow> res = Ok ()"
    "\<And>va. canonical va \<Longrightarrow> va \<notin> {start..<stop} \<Longrightarrow> lookup_pte (tables s2) ?r va = lookup_pte (tables s1) ?r va"
    "\<And>va. res = Ok () \<Longrightarrow> va \<in> {start..<stop} \<Longrightarrow> calc_phys_addr (tables s2) ?r va = Some (start + (va - start))"
    "\<And>k. res = Ok () \<Longrightarrow> k < ?n \<Longrightarrow> page_mapped (tables s2) ?r (start + k * PAGE_SIZE) (start + k * PAGE_SIZE) WriteAccess Supervisor"
    by (rule map_range_spec [OF ks al al(1) lims]) blast
  show thesis
  proof (cases res)
    case (Err e)
    then have "kernel_init start stop s = (Panic, s2)" using start m(1) live by (simp add: catch_def drop_frame_def)
    moreover have "spare s < 3 * ?n + 1" using m(4) Err sp by fastforce
    ultimately show thesis by (rule no_table)
  next
    case (Ok x)
    let ?s = "s2\<lparr>cr3_reg := ?r, kernel_pml4_phys := ?r\<rparr>"
    have "kernel_init start stop s = (Ok (), ?s)" using start m(1) Ok by (simp add: catch_def)
    then show thesis
    proof (rule mapped)
      show "kernel_space (kernel_pml4_phys ?s) own' ?s" using m(3) by (simp add: grows_def kernel_space_def)
      show "user_pt ?s = user_pt s" using m(3) by (simp add: grows_def registers_def s1_def)
      show "calc_phys_addr (tables ?s) (kernel_pml4_phys ?s) va = (if va \<in> {start..<stop} then Some va else None)" if "canonical va" for va
        using m(5) [OF that] m(6) [of va] none Ok by (auto simp: calc_phys_addr_def)
    qed (use m(7) Ok in simp_all)
  qed (use m(2) in simp)
qed

text \<open>A kernel's space can be cloned for tasks.\<close>

lemma kernel_space_shared: "kernel_space r own s \<Longrightarrow> shared_space r (tables s) (free_frames (pg_frames s))"
  using spaceD(3,4) kernel_spaceD(2) unfolding shared_space_def by blast



end
