(* ===== verification/Loader.thy ===== *)
theory Loader
  imports Elf Paging_Kernel Path
begin

unbundle bit_operations_syntax

text \<open>
  Building a task, \<open>Task::new\<close> of kernel/src/task/mod.rs: a page table, the segments of the program, the stack and the block of arguments.
  The result is the name, the context and the resources, of which \<open>task_build\<close> makes the task. Physical memory has two views here: pages that hold page
  tables are the \<open>tables\<close> of the paging state, whose \<open>user_pt\<close> is the page table under construction; the bytes of all other pages are \<open>ld_mem\<close>. When \<open>?\<close> leaves the
  function, the frames it holds are dropped, newest first, and then the page table.
\<close>

record loader =
  ld_pg :: paging
  ld_mem :: mem

definition on_paging :: "(paging, 'a) act \<Rightarrow> (loader, 'a) act" where
  "on_paging m s = (case m (ld_pg s) of (r, p) \<Rightarrow> (r, s\<lparr>ld_pg := p\<rparr>))"

definition on_frames :: "(BitmapMemoryManager, 'a) act \<Rightarrow> (loader, 'a) act" where
  "on_frames m = on_paging (\<lambda>p. case m (pg_frames p) of (r, b) \<Rightarrow> (r, p\<lparr>pg_frames := b\<rparr>))"

definition alloc_mem :: "nat \<Rightarrow> (loader, MemoryFrame) act" where
  "alloc_mem n = on_frames (alloc_multi_mem_frame n)"

definition copy_bytes :: "nat \<Rightarrow> u8 list \<Rightarrow> (loader, unit) act" where
  "copy_bytes a bs = modify (\<lambda>s. s\<lparr>ld_mem := put a bs (ld_mem s)\<rparr>)"

definition zero_out :: "MemoryFrame \<Rightarrow> (loader, unit) act" where
  "zero_out f = copy_bytes (frame_start_phys_addr f) (replicate (frame_size f) 0)"

definition drop_locals :: "MemoryFrame list \<Rightarrow> kerror \<Rightarrow> (loader, 'a) act" where
  "drop_locals fs e =
     bind_act (for_each fs (\<lambda>f. lift_outcome (drop_frame f))) (\<lambda>_.
     bind_act (on_paging (gets user_pt)) (\<lambda>pt.
     bind_act (on_frames (drop_page_table pt)) (\<lambda>_.
     fail e)))"

text \<open>A call followed by \<open>?\<close> while the frames \<open>fs\<close> are held.\<close>

definition or_drop :: "MemoryFrame list \<Rightarrow> (loader, 'a) act \<Rightarrow> ('a \<Rightarrow> (loader, 'b) act) \<Rightarrow> (loader, 'b) act" where
  "or_drop fs m k =
     catch m (\<lambda>r. case r of Ok x \<Rightarrow> k x | Err e \<Rightarrow> drop_locals fs e | Panic \<Rightarrow> lift_outcome Panic)"

subsection \<open>The program\<close>

definition pages_needed :: "Elf64ProgramHeader \<Rightarrow> nat outcome" where
  "pages_needed ph =
     and_then (uadd (ph_virt_addr ph mod PAGE_SIZE) (ph_mem_size ph)) (\<lambda>a.
     and_then (uadd a PAGE_SIZE) (\<lambda>b. Ok ((b - 1) div PAGE_SIZE)))"

definition holds_entry :: "nat \<Rightarrow> Elf64ProgramHeader \<Rightarrow> bool outcome" where
  "holds_entry entry ph =
     (if ph_virt_addr ph \<le> entry then map_ok (\<lambda>stop. entry < stop) (uadd (ph_virt_addr ph) (ph_mem_size ph)) else Ok False)"

definition map_for_task :: "nat \<Rightarrow> MemoryFrame \<Rightarrow> MemoryFrame list \<Rightarrow> (loader, unit) act" where
  "map_for_task va f fs =
     bind_act (lift_outcome (uadd va (frame_size f))) (\<lambda>stop.
     or_drop (f # fs) (on_paging (user_map va stop (frame_start_phys_addr f) WriteAccess WriteThrough False)) return_act)"

definition load_segment :: "Elf64 \<Rightarrow> MemoryFrame list \<Rightarrow> Elf64ProgramHeader \<Rightarrow> (loader, MemoryFrame \<times> bool) act" where
  "load_segment e fs ph =
     bind_act (lift_outcome (pages_needed ph)) (\<lambda>n.
     or_drop fs (alloc_mem n) (\<lambda>f.
     bind_act (zero_out f) (\<lambda>_.
     bind_act (lift_outcome (data_by_program_header ph e)) (\<lambda>data.
     bind_act (case data of
         None \<Rightarrow> return_act ()
       | Some bs \<Rightarrow> bind_act (lift_outcome (uadd (frame_start_phys_addr f) (ph_virt_addr ph mod PAGE_SIZE))) (\<lambda>a. copy_bytes a bs)) (\<lambda>_.
     bind_act (map_for_task (ph_virt_addr ph div PAGE_SIZE * PAGE_SIZE) f fs) (\<lambda>_.
     bind_act (lift_outcome (holds_entry (eh_entry_point (elf_header e)) ph)) (\<lambda>here.
     return_act (f, here))))))))"

fun load_segments ::
  "Elf64 \<Rightarrow> Elf64ProgramHeader list \<Rightarrow> MemoryFrame list \<Rightarrow> nat option \<Rightarrow> (loader, nat option \<times> MemoryFrame list) act" where
  "load_segments e [] fs entry = return_act (entry, fs)"
| "load_segments e (ph # phs) fs entry =
     (if segment_type ph \<noteq> Load then load_segments e phs fs entry
      else bind_act (load_segment e fs ph) (\<lambda>(f, here).
        load_segments e phs (fs @ [f]) (if here then Some (eh_entry_point (elf_header e)) else entry)))"

definition load_program :: "Elf64 option \<Rightarrow> (loader, nat option \<times> MemoryFrame list) act" where
  "load_program elf =
     (case elf of
        None \<Rightarrow> return_act (None, [])
      | Some e \<Rightarrow>
          if elf_type (elf_header e) \<noteq> Executable then drop_locals [] (with_context InvalidData ''ELF type'')
          else if header_machine (elf_header e) \<noteq> X8664 then drop_locals [] (with_context InvalidData ''ELF machine'')
          else load_segments e (program_headers e) [] None)"

subsection \<open>Stack and arguments\<close>

definition new_stack :: "nat \<Rightarrow> ContextMode \<Rightarrow> MemoryFrame list \<Rightarrow> (loader, MemoryFrame option) act" where
  "new_stack stack_size mode fs =
     (if 0 < stack_size then
        or_drop fs (alloc_mem (max ((stack_size + (PAGE_SIZE - 1)) div PAGE_SIZE) 1)) (\<lambda>stack.
        bind_act (if mode = ContextMode.User then map_for_task (frame_start_phys_addr stack) stack fs else return_act ()) (\<lambda>_.
        return_act (Some stack)))
      else return_act None)"

definition stack_top :: "nat \<Rightarrow> MemoryFrame option \<Rightarrow> nat outcome" where
  "stack_top stack_size stack =
     (case stack of
        None \<Rightarrow> Ok 0
      | Some f \<Rightarrow> and_then (uadd (frame_start_phys_addr f) stack_size) (\<lambda>a.
          and_then (usub a 63) (\<lambda>b. Ok (b div 64 * 64))))"

definition into_cstring_bytes_with_nul :: "string \<Rightarrow> u8 list outcome" where
  "into_cstring_bytes_with_nul s =
     (if CHR 0x00 \<in> set s then Panic else Ok (map of_char s @ [0]))"

fun c_args :: "string list \<Rightarrow> u8 list outcome" where
  "c_args [] = Ok []"
| "c_args (a # as) = and_then (into_cstring_bytes_with_nul a) (\<lambda>b. map_ok (\<lambda>bs. b @ bs) (c_args as))"

fun c_args_ref :: "nat \<Rightarrow> string list \<Rightarrow> nat list" where
  "c_args_ref a [] = []"
| "c_args_ref a (x # xs) = a # c_args_ref (a + length x + 1) xs"

definition le_bytes8 :: "nat \<Rightarrow> u8 list" where
  "le_bytes8 n = map (\<lambda>i. word_of_nat (n div 256 ^ i)) [0..<8]"

definition new_args ::
  "string list option \<Rightarrow> ContextMode \<Rightarrow> MemoryFrame list \<Rightarrow> (loader, MemoryFrame option \<times> nat \<times> nat) act" where
  "new_args args mode fs =
     (case args of
        None \<Rightarrow> return_act (None, 0, 0)
      | Some args \<Rightarrow>
          bind_act (lift_outcome (c_args args)) (\<lambda>bytes.
          let offset = (length args + 2) * 8 in
          or_drop fs (alloc_mem (max ((length bytes + offset) div PAGE_SIZE) 1)) (\<lambda>f.
          bind_act (zero_out f) (\<lambda>_.
          bind_act (if mode = ContextMode.User then map_for_task (frame_start_phys_addr f) f fs else return_act ()) (\<lambda>_.
          bind_act (copy_bytes (frame_start_phys_addr f + offset) bytes) (\<lambda>_.
          bind_act (copy_bytes (frame_start_phys_addr f) (concat (map le_bytes8 (c_args_ref (frame_start_phys_addr f + offset) args)))) (\<lambda>_.
          return_act (Some f, length args, frame_start_phys_addr f))))))))"

subsection \<open>The task\<close>

text \<open>From the loaded program to the values of the task.\<close>

definition task_finish ::
  "nat \<Rightarrow> string list option \<Rightarrow> ContextMode \<Rightarrow> bool \<Rightarrow> nat option list \<Rightarrow> nat option \<Rightarrow> MemoryFrame list \<Rightarrow>
   (loader, string \<times> Context \<times> TaskResource) act" where
  "task_finish stack_size args mode dwarf pipe entry program =
     (let rip = (case entry of Some f \<Rightarrow> f | None \<Rightarrow> 0) in
     bind_act (new_stack stack_size mode program) (\<lambda>stack.
     bind_act (lift_outcome (stack_top stack_size stack)) (\<lambda>rsp.
     bind_act (new_args args mode (opt_list stack @ program)) (\<lambda>(args_frame, arg0, arg1).
     bind_act (lift_outcome (case args of None \<Rightarrow> Ok ''/kernel'' | Some [] \<Rightarrow> Panic | Some (a # _) \<Rightarrow> Ok a)) (\<lambda>path.
     bind_act (on_paging (case mode of ContextMode.User \<Rightarrow> pml4_phys_addr | ContextMode.Kernel \<Rightarrow> gets cr3_reg)) (\<lambda>cr3.
     bind_act (on_paging (gets cr3_reg)) (\<lambda>old.
     bind_act (on_paging (gets user_pt)) (\<lambda>pt.
     let context = (context_init (word_of_nat old) (word_of_nat rip) (word_of_nat arg0) (word_of_nat arg1) (word_of_nat rsp)
       mode dwarf context_new)\<lparr>ctx_cr3 := word_of_nat cr3\<rparr> in
     return_act (path_name path, context, resource_new pt args_frame stack program pipe)))))))))"

definition task_new ::
  "nat \<Rightarrow> Elf64 option \<Rightarrow> string list option \<Rightarrow> ContextMode \<Rightarrow> bool \<Rightarrow> nat option list \<Rightarrow>
   (loader, string \<times> Context \<times> TaskResource) act" where
  "task_new stack_size elf args mode dwarf pipe =
     bind_act (on_paging (case mode of ContextMode.User \<Rightarrow> new_cloned_from_kernel | ContextMode.Kernel \<Rightarrow> user_pt_new)) (\<lambda>_.
     bind_act (load_program elf) (\<lambda>(entry, program).
     task_finish stack_size args mode dwarf pipe entry program))"

end
