(* ===== verification/Loader_Correct.thy ===== *)
theory Loader_Correct
  imports Loader
begin

unbundle bit_operations_syntax

text \<open>
  What a loaded program sees. \<open>user_byte\<close> reads memory through the page table of the task; \<open>segment_image\<close> says that the
  segment is there as the ELF file describes it. Loading writes only to pages that were free and changes only translations of the segment's range,
  so that what is loaded first stays.
\<close>

definition user_byte :: "nat \<Rightarrow> loader \<Rightarrow> nat \<Rightarrow> u8 option" where
  "user_byte r s va = map_option (ld_mem s) (calc_phys_addr (tables (ld_pg s)) r va)"

definition segment_image :: "nat \<Rightarrow> Elf64 \<Rightarrow> Elf64ProgramHeader \<Rightarrow> loader \<Rightarrow> bool" where
  "segment_image r e ph s \<longleftrightarrow> (\<forall>j<ph_mem_size ph. user_byte r s (ph_virt_addr ph + j) =
     Some (if j < ph_file_size ph then elf_mem e (ph_offset ph + j) else 0))"

definition page_down :: "nat \<Rightarrow> nat" where
  "page_down a = a div PAGE_SIZE * PAGE_SIZE"

definition seg_pages :: "Elf64ProgramHeader \<Rightarrow> nat" where
  "seg_pages ph = (ph_virt_addr ph mod PAGE_SIZE + ph_mem_size ph + (PAGE_SIZE - 1)) div PAGE_SIZE"

definition seg_range :: "Elf64ProgramHeader \<Rightarrow> nat set" where
  "seg_range ph = {page_down (ph_virt_addr ph)..<page_down (ph_virt_addr ph) + seg_pages ph * PAGE_SIZE}"

text \<open>What the code needs of a segment, and what it does not test: that the bytes of the file fit into the segment.\<close>

definition seg_placed :: "Elf64 \<Rightarrow> Elf64ProgramHeader \<Rightarrow> bool" where
  "seg_placed e ph \<longleftrightarrow> 0 < ph_mem_size ph \<and> ph_offset ph + ph_file_size ph \<le> elf_len e \<and> elf_len e < 2 ^ 64 \<and> ph_mem_size ph < 2 ^ 63 \<and>
     canonical_range (page_down (ph_virt_addr ph)) (page_down (ph_virt_addr ph) + seg_pages ph * PAGE_SIZE) \<and>
     page_down (ph_virt_addr ph) + seg_pages ph * PAGE_SIZE < 2 ^ 64"

definition seg_ok :: "Elf64 \<Rightarrow> Elf64ProgramHeader \<Rightarrow> bool" where
  "seg_ok e ph \<longleftrightarrow> seg_placed e ph \<and> ph_file_size ph \<le> ph_mem_size ph"

lemma seg_okD: "seg_ok e ph \<Longrightarrow> seg_placed e ph" "seg_ok e ph \<Longrightarrow> ph_file_size ph \<le> ph_mem_size ph"
  by (simp_all add: seg_ok_def)

lemma page_down_add: "page_down a + a mod PAGE_SIZE = a"
  by (simp add: page_down_def)

lemma seg_fits:
  "ph_virt_addr ph mod PAGE_SIZE + ph_mem_size ph \<le> seg_pages ph * PAGE_SIZE"
proof -
  let ?x = "ph_virt_addr ph mod PAGE_SIZE + ph_mem_size ph"
  have "?x + (PAGE_SIZE - 1) < seg_pages ph * PAGE_SIZE + PAGE_SIZE"
    unfolding seg_pages_def by (simp add: dividend_less_div_times)
  then show ?thesis by simp
qed

lemma pages_needed_ok: "seg_placed e ph \<Longrightarrow> pages_needed ph = Ok (seg_pages ph)"
proof -
  assume ok: "seg_placed e ph"
  have "ph_virt_addr ph mod PAGE_SIZE < PAGE_SIZE" by simp
  moreover have "ph_mem_size ph < 2 ^ 63" using ok by (simp add: seg_placed_def)
  ultimately have "uadd (ph_virt_addr ph mod PAGE_SIZE) (ph_mem_size ph) = Ok (ph_virt_addr ph mod PAGE_SIZE + ph_mem_size ph)"
    "uadd (ph_virt_addr ph mod PAGE_SIZE + ph_mem_size ph) PAGE_SIZE = Ok (ph_virt_addr ph mod PAGE_SIZE + ph_mem_size ph + PAGE_SIZE)"
    by (simp_all add: uadd_def)
  then show ?thesis by (simp add: pages_needed_def seg_pages_def)
qed

subsection \<open>Frames for the task\<close>

text \<open>The page table under construction has its root at \<open>r\<close>.\<close>

definition building :: "nat \<Rightarrow> loader \<Rightarrow> bool" where
  "building r s \<longleftrightarrow> (\<exists>f. pml4_frame (user_pt (ld_pg s)) = Some f \<and> frame_start_phys_addr f = r) \<and> user_space r (ld_pg s)"

abbreviation ld_free :: "loader \<Rightarrow> nat set" where
  "ld_free s \<equiv> free_frames (pg_frames (ld_pg s))"

lemma space_less_free: "space T r own F \<Longrightarrow> F' \<subseteq> F \<Longrightarrow> space T r own F'"
  unfolding space_def by blast

lemma building_fields [simp]: "building r (s\<lparr>ld_mem := m\<rparr>) = building r s"
  by (simp add: building_def)

lemma alloc_mem_cases:
  assumes "building r s"
  obtains (found) a s' where "alloc_mem n s = (Ok (frame_at a n), s')" "building r s'" "{a..<a + n} \<subseteq> ld_free s"
      "ld_free s' = ld_free s - {a..<a + n}" "tables (ld_pg s') = tables (ld_pg s)" "ld_mem s' = ld_mem s" "0 < n"
      "(a + n) * PAGE_SIZE \<le> 2 ^ 39" "own_tables r (ld_pg s') = own_tables r (ld_pg s)" "fixed_part (ld_pg s') = fixed_part (ld_pg s)"
    | (failed) e where "alloc_mem n s = (Err e, s)"
proof -
  have pool: "pool_ok (pg_frames (ld_pg s))" and inv: "bmm_inv (pg_frames (ld_pg s))"
    using assms by (simp_all add: building_def user_space_def pool_ok_def)
  show thesis
  proof (cases rule: alloc_multi_cases [OF inv, of n, case_names found failed])
    case (found f b)
    then obtain a where a: "f = frame_at a n" "{a..<a + n} \<subseteq> ld_free s" "free_frames b = ld_free s - {a..<a + n}"
      "bmm_inv b" "same_layout (pg_frames (ld_pg s)) b"
      by (auto simp: alloc_post_def)
    let ?s = "s\<lparr>ld_pg := (ld_pg s)\<lparr>pg_frames := b\<rparr>\<rparr>"
    have "a + n - 1 \<in> ld_free s" using a(2) found(3) by auto
    then have "a + n \<le> total_frame_len (pg_frames (ld_pg s))" using inv found(3) by (auto simp: bmm_inv_def)
    then have "(a + n) * PAGE_SIZE \<le> total_frame_len (pg_frames (ld_pg s)) * PAGE_SIZE" by (rule mult_le_mono1)
    then have lim: "(a + n) * PAGE_SIZE \<le> 2 ^ 39" using pool unfolding pool_ok_def by linarith
    have "pool_ok b" using pool a(4,5) by (simp add: pool_ok_def same_layout_def)
    moreover have "space (tables (ld_pg s)) r (own_tables r (ld_pg s)) (free_frames b)"
      using assms space_less_free [of _ _ _ "ld_free s"] a(3) by (auto simp: building_def user_space_def)
    ultimately have "building r ?s" using assms by (simp add: building_def user_space_def)
    moreover have "alloc_mem n s = (Ok (frame_at a n), ?s)" using found(1) a(1) by (simp add: alloc_mem_def on_frames_def on_paging_def)
    ultimately show thesis using that(1) [of a ?s] a lim found(3) by simp
  next
    case (failed e)
    then have "alloc_mem n s = (Err e, s)" by (simp add: alloc_mem_def on_frames_def on_paging_def)
    then show thesis by (rule that(2))
  qed
qed

lemma drop_locals_not_Ok: "drop_locals fs e s \<noteq> (Ok y, s')"
  by (auto simp: drop_locals_def bind_act_def fail_def split: prod.splits outcome.splits)

lemma or_drop_Ok:
  assumes "or_drop fs m k s = (Ok y, s')"
  obtains x s1 where "m s = (Ok x, s1)" "k x s1 = (Ok y, s')"
proof (cases "m s")
  case (Pair res s1)
  then show thesis using that assms drop_locals_not_Ok [of fs _ s1 y s'] by (cases res) (auto simp: or_drop_def catch_def)
qed

lemma bind_act_Ok:
  assumes "bind_act m k s = (Ok y, s')"
  obtains x s1 where "m s = (Ok x, s1)" "k x s1 = (Ok y, s')"
  using assms by (cases "m s"; cases "fst (m s)") (auto simp: bind_act_def)

text \<open>What mapping a frame at \<open>va\<close> does.\<close>

lemma map_for_task_ok:
  assumes b: "building r s" and va: "PAGE_SIZE dvd va" "canonical_range va (va + n * PAGE_SIZE)" "va + n * PAGE_SIZE < 2 ^ 64"
    and a: "(a + n) * PAGE_SIZE \<le> 2 ^ 39" and run: "map_for_task va (frame_at a n) fs s = (Ok x, s')"
  shows "building r s'" "ld_mem s' = ld_mem s" "ld_free s' \<subseteq> ld_free s"
    "v \<in> {va..<va + n * PAGE_SIZE} \<Longrightarrow> calc_phys_addr (tables (ld_pg s')) r v = Some (a * PAGE_SIZE + (v - va))"
    "canonical v \<Longrightarrow> v \<notin> {va..<va + n * PAGE_SIZE} \<Longrightarrow>
      calc_phys_addr (tables (ld_pg s')) r v = calc_phys_addr (tables (ld_pg s)) r v"
    "apart k r (ld_pg s) \<Longrightarrow> apart k r (ld_pg s') \<and> lookup_pte (tables (ld_pg s')) k v = lookup_pte (tables (ld_pg s)) k v"
proof -
  have stop: "uadd va (frame_size (frame_at a n)) = Ok (va + n * PAGE_SIZE)" using va(3) by (simp add: uadd_def frame_at_def mult.commute)
  obtain p where p: "user_map va (va + n * PAGE_SIZE) (a * PAGE_SIZE) WriteAccess WriteThrough False (ld_pg s) = (Ok (), p)" "s' = s\<lparr>ld_pg := p\<rparr>"
    using run stop by (auto simp: map_for_task_def on_paging_def frame_at_def split: prod.splits elim!: bind_act_Ok or_drop_Ok)
  obtain f where root: "pml4_frame (user_pt (ld_pg s)) = Some f" "frame_start_phys_addr f = r" "user_space r (ld_pg s)"
    using b by (auto simp: building_def)
  have al: "PAGE_SIZE dvd va + n * PAGE_SIZE" "PAGE_SIZE dvd a * PAGE_SIZE" using va(1) by simp_all
  have lim: "a * PAGE_SIZE + (va + n * PAGE_SIZE - va) \<le> 2 ^ 39" using a by (simp add: add_mult_distrib)
  note m = user_map_ok [OF root va(1) al va(2) lim p(1)]
  show "building r s'" using m(1) root(1,2) p(2) by (auto simp: building_def extends_def fixed_part_def)
  show "ld_mem s' = ld_mem s" "ld_free s' \<subseteq> ld_free s" using p(2) m(1) by (simp_all add: extends_def)
  show "v \<in> {va..<va + n * PAGE_SIZE} \<Longrightarrow> calc_phys_addr (tables (ld_pg s')) r v = Some (a * PAGE_SIZE + (v - va))"
    using m(3) [of v] p(2) by simp
  show "canonical v \<Longrightarrow> v \<notin> {va..<va + n * PAGE_SIZE} \<Longrightarrow> calc_phys_addr (tables (ld_pg s')) r v = calc_phys_addr (tables (ld_pg s)) r v"
    using m(4) [of v] p(2) by (simp add: calc_phys_addr_def)
  show "apart k r (ld_pg s) \<Longrightarrow> apart k r (ld_pg s') \<and> lookup_pte (tables (ld_pg s')) k v = lookup_pte (tables (ld_pg s)) k v"
    using extends_apart [OF m(1)] p(2) by simp
qed

subsection \<open>Segments\<close>

text \<open>Nothing but free pages is written, and translations change in the set \<open>V\<close> of addresses only.\<close>

definition adds :: "nat \<Rightarrow> nat set \<Rightarrow> loader \<Rightarrow> loader \<Rightarrow> bool" where
  "adds r V s s' \<longleftrightarrow> building r s' \<and> ld_free s' \<subseteq> ld_free s \<and>
     (\<forall>p. p div PAGE_SIZE \<notin> ld_free s \<longrightarrow> ld_mem s' p = ld_mem s p) \<and>
     (\<forall>va. canonical va \<longrightarrow> va \<notin> V \<longrightarrow> calc_phys_addr (tables (ld_pg s')) r va = calc_phys_addr (tables (ld_pg s)) r va) \<and>
     (\<forall>k. apart k r (ld_pg s) \<longrightarrow> apart k r (ld_pg s') \<and>
       (\<forall>va. lookup_pte (tables (ld_pg s')) k va = lookup_pte (tables (ld_pg s)) k va))"

lemma addsD:
  assumes "adds r V s s'"
  shows "building r s'" "ld_free s' \<subseteq> ld_free s" "p div PAGE_SIZE \<notin> ld_free s \<Longrightarrow> ld_mem s' p = ld_mem s p"
    "canonical va \<Longrightarrow> va \<notin> V \<Longrightarrow> calc_phys_addr (tables (ld_pg s')) r va = calc_phys_addr (tables (ld_pg s)) r va"
    "apart k r (ld_pg s) \<Longrightarrow> apart k r (ld_pg s')"
    "apart k r (ld_pg s) \<Longrightarrow> lookup_pte (tables (ld_pg s')) k va = lookup_pte (tables (ld_pg s)) k va"
  using assms unfolding adds_def by blast+

lemma adds_refl: "building r s \<Longrightarrow> adds r V s s"
  by (simp add: adds_def)

lemma adds_trans:
  assumes "adds r V s s1" and "adds r W s1 s2"
  shows "adds r (V \<union> W) s s2"
proof -
  note one = addsD [OF assms(1)] and two = addsD [OF assms(2)]
  have "ld_mem s2 p = ld_mem s p" if "p div PAGE_SIZE \<notin> ld_free s" for p using one(2,3) two(3) that by (metis subsetD)
  moreover have "ld_free s2 \<subseteq> ld_free s" using one(2) two(2) by blast
  moreover have "calc_phys_addr (tables (ld_pg s2)) r va = calc_phys_addr (tables (ld_pg s)) r va" if "canonical va" "va \<notin> V \<union> W" for va
    using one(4) two(4) that by simp
  ultimately show ?thesis using one(5,6) two(1,5,6) by (simp add: adds_def)
qed

lemma adds_write: "adds r V s s1 \<Longrightarrow> (\<And>p. p div PAGE_SIZE \<notin> ld_free s \<Longrightarrow> m p = ld_mem s1 p) \<Longrightarrow> adds r V s (s1\<lparr>ld_mem := m\<rparr>)"
  by (simp add: adds_def)

text \<open>A mapped byte in a page that is held stays.\<close>

definition held_byte :: "nat \<Rightarrow> loader \<Rightarrow> nat \<Rightarrow> u8 \<Rightarrow> bool" where
  "held_byte r s va b \<longleftrightarrow> canonical va \<and> (\<exists>p. calc_phys_addr (tables (ld_pg s)) r va = Some p \<and> p div PAGE_SIZE \<notin> ld_free s \<and> ld_mem s p = b)"

lemma held_kept: "held_byte r s va b \<Longrightarrow> adds r V s s' \<Longrightarrow> va \<notin> V \<Longrightarrow> held_byte r s' va b"
  unfolding held_byte_def using addsD by (metis subsetD)

lemma held_user_byte: "held_byte r s va b \<Longrightarrow> user_byte r s va = Some b"
  by (auto simp: held_byte_def user_byte_def)

lemma in_frame: "p div PAGE_SIZE \<in> {a..<a + n} \<longleftrightarrow> p \<in> {a * PAGE_SIZE..<(a + n) * PAGE_SIZE}"
  by (simp add: div_less_iff_less_mult less_eq_div_iff_mult_less_eq)

lemma put_in_frame:
  assumes "a * PAGE_SIZE \<le> x" and "x + length bs \<le> (a + n) * PAGE_SIZE" and "p div PAGE_SIZE \<notin> {a..<a + n}"
  shows "put x bs m p = m p"
  using assms in_frame [of p a n] by (auto simp: put_apply)

text \<open>The frame of a segment once its bytes have been copied.\<close>

definition seg_bytes :: "Elf64 \<Rightarrow> Elf64ProgramHeader \<Rightarrow> nat \<Rightarrow> mem \<Rightarrow> mem" where
  "seg_bytes e ph a m =
     (let z = put (a * PAGE_SIZE) (replicate (PAGE_SIZE * seg_pages ph) 0) m in
      if ph_file_size ph = 0 then z
      else put (a * PAGE_SIZE + ph_virt_addr ph mod PAGE_SIZE) (read_bytes (elf_mem e) (ph_offset ph) (ph_file_size ph)) z)"

lemma read_bytes_length [simp]: "length (read_bytes m a n) = n"
  by (simp add: read_bytes_def)

declare read_bytes_nth [simp]

lemma seg_bytes_outside:
  assumes "seg_ok e ph" and "p div PAGE_SIZE \<notin> {a..<a + seg_pages ph}"
  shows "seg_bytes e ph a m p = m p"
proof -
  have "ph_virt_addr ph mod PAGE_SIZE + ph_file_size ph \<le> seg_pages ph * PAGE_SIZE"
    using seg_fits [of ph] assms(1) by (simp add: seg_ok_def)
  then show ?thesis
    using assms(2) put_in_frame [where a = a and n = "seg_pages ph"] by (simp add: seg_bytes_def Let_def add_mult_distrib mult.commute)
qed

lemma seg_bytes_inside:
  assumes "seg_ok e ph" and "j < ph_mem_size ph"
  shows "seg_bytes e ph a m (a * PAGE_SIZE + (ph_virt_addr ph mod PAGE_SIZE + j)) =
    (if j < ph_file_size ph then elf_mem e (ph_offset ph + j) else 0)"
proof -
  have "ph_virt_addr ph mod PAGE_SIZE + j < seg_pages ph * PAGE_SIZE" using seg_fits [of ph] assms(2) by linarith
  then show ?thesis by (auto simp: seg_bytes_def Let_def put_apply mult.commute)
qed

lemma data_found:
  "segment_type ph = Load \<Longrightarrow> seg_placed e ph \<Longrightarrow> data_by_program_header ph e =
     Ok (if ph_file_size ph = 0 then None else Some (read_bytes (elf_mem e) (ph_offset ph) (ph_file_size ph)))"
  by (auto simp: data_by_program_header_def seg_placed_def uadd_def)

text \<open>The steps of \<open>load_segment\<close> when all goes well.\<close>

lemma load_segment_steps:
  assumes b: "building r s" and load: "segment_type ph = Load" and ok: "seg_placed e ph" and run: "load_segment e fs ph s = (Ok (f, here), s')"
  obtains a s1 where "f = frame_at a (seg_pages ph)" "alloc_mem (seg_pages ph) s = (Ok f, s1)"
    "building r s1" "{a..<a + seg_pages ph} \<subseteq> ld_free s" "ld_free s1 = ld_free s - {a..<a + seg_pages ph}"
    "tables (ld_pg s1) = tables (ld_pg s)" "ld_mem s1 = ld_mem s" "(a + seg_pages ph) * PAGE_SIZE \<le> 2 ^ 39"
    "own_tables r (ld_pg s1) = own_tables r (ld_pg s)"
    "map_for_task (page_down (ph_virt_addr ph)) f fs (s1\<lparr>ld_mem := seg_bytes e ph a (ld_mem s1)\<rparr>) = (Ok (), s')"
    "holds_entry (eh_entry_point (elf_header e)) ph = Ok here"
proof -
  let ?n = "seg_pages ph" and ?P = "ph_virt_addr ph mod PAGE_SIZE"
  obtain g s1 where al: "alloc_mem ?n s = (Ok g, s1)"
    and rest: "(bind_act (zero_out g) (\<lambda>_. bind_act (lift_outcome (data_by_program_header ph e)) (\<lambda>data.
     bind_act (case data of None \<Rightarrow> return_act ()
       | Some bs \<Rightarrow> bind_act (lift_outcome (uadd (frame_start_phys_addr g) ?P)) (\<lambda>a. copy_bytes a bs)) (\<lambda>_.
     bind_act (map_for_task (ph_virt_addr ph div PAGE_SIZE * PAGE_SIZE) g fs) (\<lambda>_.
     bind_act (lift_outcome (holds_entry (eh_entry_point (elf_header e)) ph)) (\<lambda>here. return_act (g, here))))))) s1 = (Ok (f, here), s')"
    using run pages_needed_ok [OF ok] by (auto simp: load_segment_def elim!: or_drop_Ok)
  obtain a where a: "g = frame_at a ?n" "building r s1" "{a..<a + ?n} \<subseteq> ld_free s" "ld_free s1 = ld_free s - {a..<a + ?n}"
    "tables (ld_pg s1) = tables (ld_pg s)" "ld_mem s1 = ld_mem s" "(a + ?n) * PAGE_SIZE \<le> 2 ^ 39"
    "own_tables r (ld_pg s1) = own_tables r (ld_pg s)"
    by (rule alloc_mem_cases [OF b, of ?n]) (use al in auto)
  have start: "frame_start_phys_addr g = a * PAGE_SIZE" "frame_size g = PAGE_SIZE * ?n" by (simp_all add: a(1) frame_at_def)
  have "a * PAGE_SIZE + ?P < 2 ^ 64" using a(7) by (simp add: add_mult_distrib)
  then have add: "uadd (frame_start_phys_addr g) ?P = Ok (a * PAGE_SIZE + ?P)" by (simp add: uadd_def start(1))
  have "bind_act (map_for_task (page_down (ph_virt_addr ph)) g fs) (\<lambda>_. bind_act (lift_outcome (holds_entry (eh_entry_point (elf_header e)) ph))
      (\<lambda>here. return_act (g, here))) (s1\<lparr>ld_mem := seg_bytes e ph a (ld_mem s1)\<rparr>) = (Ok (f, here), s')"
    using rest data_found [OF load ok] add start
    by (cases "ph_file_size ph = 0") (simp_all add: bind_act_def zero_out_def copy_bytes_def seg_bytes_def Let_def page_down_def)
  then show thesis by (elim bind_act_Ok) (rule that [of a s1], use a al in \<open>auto split: prod.splits\<close>)
qed

lemma load_segment_ok:
  assumes b: "building r s" and load: "segment_type ph = Load" and ok: "seg_ok e ph" and run: "load_segment e fs ph s = (Ok (f, here), s')"
  shows "adds r (seg_range ph) s s'" "\<And>j. j < ph_mem_size ph \<Longrightarrow>
      held_byte r s' (ph_virt_addr ph + j) (if j < ph_file_size ph then elf_mem e (ph_offset ph + j) else 0)"
    "holds_entry (eh_entry_point (elf_header e)) ph = Ok here"
proof -
  let ?n = "seg_pages ph" and ?va = "page_down (ph_virt_addr ph)"
  obtain a s1 where st: "f = frame_at a ?n" "alloc_mem ?n s = (Ok f, s1)"
    "building r s1" "{a..<a + ?n} \<subseteq> ld_free s" "ld_free s1 = ld_free s - {a..<a + ?n}"
    "tables (ld_pg s1) = tables (ld_pg s)" "ld_mem s1 = ld_mem s" "(a + ?n) * PAGE_SIZE \<le> 2 ^ 39"
    "own_tables r (ld_pg s1) = own_tables r (ld_pg s)"
    "map_for_task ?va f fs (s1\<lparr>ld_mem := seg_bytes e ph a (ld_mem s1)\<rparr>) = (Ok (), s')"
    "holds_entry (eh_entry_point (elf_header e)) ph = Ok here"
    by (rule load_segment_steps [OF b load seg_okD(1) [OF ok] run])
  have va: "PAGE_SIZE dvd ?va" "canonical_range ?va (?va + ?n * PAGE_SIZE)" "?va + ?n * PAGE_SIZE < 2 ^ 64"
    using ok by (simp_all add: seg_ok_def seg_placed_def page_down_def)
  let ?s2 = "s1\<lparr>ld_mem := seg_bytes e ph a (ld_mem s1)\<rparr>"
  have b2: "building r ?s2" using st(3) by simp
  note m = map_for_task_ok [OF b2 va st(8) st(10) [unfolded st(1)]]
  have "apart k r (ld_pg ?s2)" if "apart k r (ld_pg s)" for k using that st(5,6,9) by (auto simp: apart_def)
  moreover have "ld_mem s' p = ld_mem s p" if "p div PAGE_SIZE \<notin> ld_free s" for p
  proof -
    have "p div PAGE_SIZE \<notin> {a..<a + ?n}" using st(4) that by blast
    then show ?thesis using m(2) st(7) seg_bytes_outside [OF ok] by simp
  qed
  ultimately show "adds r (seg_range ph) s s'" unfolding adds_def
    using m(1,3) m(5,6) st(4,5,6) by (intro conjI allI impI) (auto simp: seg_range_def)
  show "held_byte r s' (ph_virt_addr ph + j) (if j < ph_file_size ph then elf_mem e (ph_offset ph + j) else 0)" if j: "j < ph_mem_size ph" for j
  proof -
    let ?p = "a * PAGE_SIZE + (ph_virt_addr ph mod PAGE_SIZE + j)"
    have v: "ph_virt_addr ph + j = ?va + (ph_virt_addr ph mod PAGE_SIZE + j)" using page_down_add [of "ph_virt_addr ph"] by simp
    have lt: "ph_virt_addr ph mod PAGE_SIZE + j < ?n * PAGE_SIZE" using seg_fits [of ph] j by linarith
    then have mem: "ph_virt_addr ph + j \<in> {?va..<?va + ?n * PAGE_SIZE}" using v by simp
    then have "calc_phys_addr (tables (ld_pg s')) r (ph_virt_addr ph + j) = Some ?p" using m(4) v by simp
    moreover have "?p div PAGE_SIZE \<in> {a..<a + ?n}" using in_frame [of ?p a ?n] lt by (simp add: add_mult_distrib)
    then have "?p div PAGE_SIZE \<notin> ld_free s'" using m(3) st(5) by auto
    moreover have "ld_mem s' ?p = (if j < ph_file_size ph then elf_mem e (ph_offset ph + j) else 0)"
      using m(2) seg_bytes_inside [OF ok j, of a] by simp
    moreover have "canonical (ph_virt_addr ph + j)" using canonical_rangeD [OF va(2)] mem by simp
    ultimately show ?thesis by (auto simp: held_byte_def)
  qed
  show "holds_entry (eh_entry_point (elf_header e)) ph = Ok here" by (rule st(11))
qed

definition loads :: "Elf64ProgramHeader list \<Rightarrow> Elf64ProgramHeader list" where
  "loads phs = filter (\<lambda>ph. segment_type ph = Load) phs"

lemma loads_simps [simp]:
  "loads [] = []" "loads (ph # phs) = (if segment_type ph = Load then ph # loads phs else loads phs)"
  by (simp_all add: loads_def)

definition image_held :: "nat \<Rightarrow> Elf64 \<Rightarrow> Elf64ProgramHeader \<Rightarrow> loader \<Rightarrow> bool" where
  "image_held r e ph s \<longleftrightarrow> (\<forall>j<ph_mem_size ph.
     held_byte r s (ph_virt_addr ph + j) (if j < ph_file_size ph then elf_mem e (ph_offset ph + j) else 0))"

lemma image_kept:
  assumes "image_held r e ph s" and "adds r V s s'" and "seg_range ph \<inter> V = {}"
  shows "image_held r e ph s'"
  unfolding image_held_def
proof (intro allI impI)
  fix j assume j: "j < ph_mem_size ph"
  have "ph_virt_addr ph + j = page_down (ph_virt_addr ph) + (ph_virt_addr ph mod PAGE_SIZE + j)"
    using page_down_add [of "ph_virt_addr ph"] by simp
  moreover have "ph_virt_addr ph mod PAGE_SIZE + j < seg_pages ph * PAGE_SIZE" using seg_fits [of ph] j by linarith
  ultimately have "ph_virt_addr ph + j \<in> seg_range ph" by (simp add: seg_range_def)
  then have "ph_virt_addr ph + j \<notin> V" using assms(3) by blast
  then show "held_byte r s' (ph_virt_addr ph + j) (if j < ph_file_size ph then elf_mem e (ph_offset ph + j) else 0)"
    using assms(1,2) j held_kept unfolding image_held_def by blast
qed

lemma image_held_image: "image_held r e ph s \<Longrightarrow> segment_image r e ph s"
  by (simp add: image_held_def segment_image_def held_user_byte)

fun apart_ranges :: "Elf64ProgramHeader list \<Rightarrow> bool" where
  "apart_ranges [] = True"
| "apart_ranges (ph # phs) \<longleftrightarrow> (\<forall>q\<in>set phs. seg_range ph \<inter> seg_range q = {}) \<and> apart_ranges phs"

lemma load_segments_ok:
  "building r s \<Longrightarrow> \<forall>ph\<in>set (loads phs). seg_ok e ph \<Longrightarrow> apart_ranges (loads phs) \<Longrightarrow>
   load_segments e phs fs entry s = (Ok (entry', fs'), s') \<Longrightarrow>
   adds r (\<Union>(seg_range ` set (loads phs))) s s' \<and> (\<forall>ph\<in>set (loads phs). image_held r e ph s') \<and>
   entry' = (if \<exists>ph\<in>set (loads phs). holds_entry (eh_entry_point (elf_header e)) ph = Ok True
     then Some (eh_entry_point (elf_header e)) else entry)"
proof (induction phs arbitrary: fs entry s)
  case Nil
  then show ?case by (simp add: adds_refl)
next
  case (Cons ph phs)
  show ?case
  proof (cases "segment_type ph = Load")
    case False
    then show ?thesis using Cons by simp
  next
    case True
    obtain f here s1 where one: "load_segment e fs ph s = (Ok (f, here), s1)"
      and rest: "load_segments e phs (fs @ [f]) (if here then Some (eh_entry_point (elf_header e)) else entry) s1 = (Ok (entry', fs'), s')"
      using Cons.prems(4) True by (auto elim!: bind_act_Ok)
    have ok: "seg_ok e ph" using Cons.prems(2) True by simp
    note l = load_segment_ok [OF Cons.prems(1) True ok one]
    have b1: "building r s1" using addsD(1) [OF l(1)] .
    have prems: "\<forall>ph\<in>set (loads phs). seg_ok e ph" "apart_ranges (loads phs)" "seg_range ph \<inter> \<Union>(seg_range ` set (loads phs)) = {}"
      using Cons.prems(2,3) True by auto
    note IH = Cons.IH [OF b1 prems(1,2) rest]
    have "image_held r e ph s1" using l(2) by (simp add: image_held_def)
    then have "image_held r e ph s'" using image_kept [OF _ _ prems(3)] IH by blast
    moreover have "adds r (seg_range ph \<union> \<Union>(seg_range ` set (loads phs))) s s'" using adds_trans [OF l(1)] IH by blast
    ultimately show ?thesis using IH True l(3) by auto
  qed
qed

subsection \<open>Stack and arguments\<close>

definition frame_range :: "nat \<Rightarrow> nat \<Rightarrow> nat set" where
  "frame_range a n = {a * PAGE_SIZE..<a * PAGE_SIZE + n * PAGE_SIZE}"

text \<open>A frame that is allocated, possibly written, and mapped at its own address.\<close>

lemma identity_frame:
  assumes b: "building r s" and al: "alloc_mem n s = (Ok f, s1)"
    and out: "\<And>a p. f = frame_at a n \<Longrightarrow> p div PAGE_SIZE \<notin> {a..<a + n} \<Longrightarrow> m p = ld_mem s p"
    and run: "map_for_task (frame_start_phys_addr f) f fs (s1\<lparr>ld_mem := m\<rparr>) = (Ok x, s')"
  obtains a where "f = frame_at a n" "(a + n) * PAGE_SIZE \<le> 2 ^ 39" "adds r (frame_range a n) s s'" "ld_mem s' = m"
    "\<And>v. v \<in> frame_range a n \<Longrightarrow> calc_phys_addr (tables (ld_pg s')) r v = Some v" "{a..<a + n} \<inter> ld_free s' = {}" "0 < n" "{a..<a + n} \<subseteq> ld_free s"
proof -
  obtain a where a: "f = frame_at a n" "building r s1" "{a..<a + n} \<subseteq> ld_free s" "ld_free s1 = ld_free s - {a..<a + n}"
    "tables (ld_pg s1) = tables (ld_pg s)" "ld_mem s1 = ld_mem s" "(a + n) * PAGE_SIZE \<le> 2 ^ 39" "0 < n"
    "own_tables r (ld_pg s1) = own_tables r (ld_pg s)"
    by (rule alloc_mem_cases [OF b, of n]) (use al in auto)
  let ?va = "a * PAGE_SIZE" and ?s = "s1\<lparr>ld_mem := m\<rparr>"
  have lim: "?va + n * PAGE_SIZE \<le> 2 ^ 39" using a(7) by (simp add: add_mult_distrib)
  then have va: "PAGE_SIZE dvd ?va" "canonical_range ?va (?va + n * PAGE_SIZE)" "?va + n * PAGE_SIZE < 2 ^ 64" by (simp_all add: canonical_range_def)
  have start: "frame_start_phys_addr f = ?va" by (simp add: a(1) frame_at_def)
  have b2: "building r ?s" using a(2) by simp
  note mt = map_for_task_ok [OF b2 va a(7) run [unfolded start, unfolded a(1)]]
  have "apart k r (ld_pg ?s)" if "apart k r (ld_pg s)" for k using that a(4,5,9) by (auto simp: apart_def)
  moreover have "ld_mem s' p = ld_mem s p" if "p div PAGE_SIZE \<notin> ld_free s" for p
  proof -
    have "p div PAGE_SIZE \<notin> {a..<a + n}" using a(3) that by blast
    then show ?thesis using mt(2) out [OF a(1)] by simp
  qed
  ultimately have "adds r (frame_range a n) s s'" unfolding adds_def
    using mt(1,3) mt(5,6) a(4,5) by (intro conjI allI impI) (auto simp: frame_range_def)
  moreover have "calc_phys_addr (tables (ld_pg s')) r v = Some v" if "v \<in> frame_range a n" for v
    using mt(4) [of v] that by (simp add: frame_range_def)
  moreover have "{a..<a + n} \<inter> ld_free s' = {}" using mt(3) a(4) by auto
  ultimately show thesis using that [OF a(1,7)] mt(2) a(3,8) by simp
qed

lemma new_stack_ok:
  assumes b: "building r s" and sz: "0 < stack_size" and run: "new_stack stack_size ContextMode.User fs s = (Ok stack, s')"
  obtains a n where "stack = Some (frame_at a n)" "stack_size \<le> n * PAGE_SIZE" "(a + n) * PAGE_SIZE \<le> 2 ^ 39" "adds r (frame_range a n) s s'"
    "\<And>v. v \<in> frame_range a n \<Longrightarrow> calc_phys_addr (tables (ld_pg s')) r v = Some v" "{a..<a + n} \<inter> ld_free s' = {}"
proof -
  let ?n = "max ((stack_size + (PAGE_SIZE - 1)) div PAGE_SIZE) 1"
  obtain f s1 where f: "alloc_mem ?n s = (Ok f, s1)" "map_for_task (frame_start_phys_addr f) f fs s1 = (Ok (), s')" "stack = Some f"
    using run sz by (auto simp: new_stack_def elim!: or_drop_Ok bind_act_Ok)
  have "ld_mem s1 = ld_mem s" by (rule alloc_mem_cases [OF b, of ?n]) (use f(1) in auto)
  then have "s1\<lparr>ld_mem := ld_mem s\<rparr> = s1" by (intro loader.equality) simp_all
  then have go: "map_for_task (frame_start_phys_addr f) f fs (s1\<lparr>ld_mem := ld_mem s\<rparr>) = (Ok (), s')" using f(2) by simp
  have "stack_size + (PAGE_SIZE - 1) < (stack_size + (PAGE_SIZE - 1)) div PAGE_SIZE * PAGE_SIZE + PAGE_SIZE" by (simp add: dividend_less_div_times)
  then have "stack_size \<le> (stack_size + (PAGE_SIZE - 1)) div PAGE_SIZE * PAGE_SIZE" by simp
  also have "\<dots> \<le> ?n * PAGE_SIZE" by (rule mult_le_mono1) simp
  finally have fit: "stack_size \<le> ?n * PAGE_SIZE" .
  show thesis
  proof (rule identity_frame [OF b f(1) _ go])
    fix a assume "f = frame_at a ?n" "(a + ?n) * PAGE_SIZE \<le> 2 ^ 39" "adds r (frame_range a ?n) s s'"
      "\<And>v. v \<in> frame_range a ?n \<Longrightarrow> calc_phys_addr (tables (ld_pg s')) r v = Some v" "{a..<a + ?n} \<inter> ld_free s' = {}"
    then show thesis using that [of a ?n] f(3) fit by blast
  qed simp
qed

text \<open>The block of arguments: pointers, two empty words, and the strings.\<close>

definition args_offset :: "string list \<Rightarrow> nat" where
  "args_offset as = (length as + 2) * 8"

definition args_bytes :: "string list \<Rightarrow> u8 list" where
  "args_bytes as = concat (map (\<lambda>a. map of_char a @ [0]) as)"

definition args_fit :: "string list \<Rightarrow> bool" where
  "args_fit as \<longleftrightarrow> (let n = length (args_bytes as) + args_offset as in n \<le> PAGE_SIZE \<or> PAGE_SIZE dvd n)"

lemma c_args_ok: "c_args as = Ok bs \<Longrightarrow> bs = args_bytes as"
proof (induction as arbitrary: bs)
  case (Cons a as)
  then show ?case
    by (auto simp: args_bytes_def into_cstring_bytes_with_nul_def and_then_Ok_iff map_ok_Ok_iff split: if_splits)
qed (simp add: args_bytes_def)

lemma c_args_ref_length [simp]: "length (c_args_ref a as) = length as"
  by (induction as arbitrary: a) simp_all

lemma le_bytes8_length [simp]: "length (le_bytes8 n) = 8"
  by (simp add: le_bytes8_def)

lemma args_string:
  "i < length as \<Longrightarrow> k \<le> length (as ! i) \<Longrightarrow> x \<le> c_args_ref x as ! i \<and>
     c_args_ref x as ! i + k < x + length (args_bytes as) \<and> args_bytes as ! (c_args_ref x as ! i + k - x) = (map of_char (as ! i) @ [0]) ! k"
proof (induction as arbitrary: i x)
  case (Cons a as)
  show ?case
  proof (cases i)
    case 0
    then show ?thesis using Cons.prems by (auto simp: args_bytes_def nth_append)
  next
    case (Suc j)
    have IH: "x + length a + 1 \<le> c_args_ref (x + length a + 1) as ! j \<and>
        c_args_ref (x + length a + 1) as ! j + k < x + length a + 1 + length (args_bytes as) \<and>
        args_bytes as ! (c_args_ref (x + length a + 1) as ! j + k - (x + length a + 1)) = (map of_char (as ! j) @ [0]) ! k"
      using Cons.IH [of j "x + length a + 1"] Cons.prems Suc by simp
    have cons: "args_bytes (a # as) = (map of_char a @ [0]) @ args_bytes as" by (simp add: args_bytes_def)
    have "args_bytes (a # as) ! (c_args_ref (x + length a + 1) as ! j + k - x) =
        args_bytes as ! (c_args_ref (x + length a + 1) as ! j + k - (x + length a + 1))"
    proof -
      have "length (map of_char a @ [0 :: u8]) \<le> c_args_ref (x + length a + 1) as ! j + k - x"
        using conjunct1 [OF IH] by simp
      then show ?thesis unfolding cons by (subst nth_append) (simp add: not_less)
    qed
    then show ?thesis using IH Suc by (simp add: cons)
  qed
qed simp

lemma concat_nth8:
  "i < length ns \<Longrightarrow> k < 8 \<Longrightarrow> concat (map le_bytes8 ns) ! (8 * i + k) = le_bytes8 (ns ! i) ! k"
proof (induction ns arbitrary: i)
  case (Cons n ns)
  then show ?case by (cases i) (auto simp: nth_append)
qed simp

lemma concat_length8: "length (concat (map le_bytes8 ns)) = 8 * length ns"
  by (induction ns) simp_all

text \<open>Reading bytes through the page table of the task.\<close>

definition reads :: "nat \<Rightarrow> loader \<Rightarrow> nat \<Rightarrow> u8 list \<Rightarrow> bool" where
  "reads r s va bs \<longleftrightarrow> (\<forall>k<length bs. user_byte r s (va + k) = Some (bs ! k))"

definition argv_ready :: "nat \<Rightarrow> nat \<Rightarrow> string list \<Rightarrow> loader \<Rightarrow> bool" where
  "argv_ready r argv as s \<longleftrightarrow> (\<forall>i<length as. \<exists>p<2 ^ 64.
     reads r s (argv + 8 * i) (le_bytes8 p) \<and> reads r s p (map of_char (as ! i) @ [0]))"

lemma le_bytes8_value: "n < 2 ^ 64 \<Longrightarrow> from_le_bytes (le_bytes8 n) = n"
proof -
  assume "n < 2 ^ 64"
  have [simp]: "unat (word_of_nat x :: u8) = x mod 256" for x by (simp add: unat_of_nat)
  have "from_le_bytes (map (\<lambda>i. word_of_nat (n div 256 ^ i) :: u8) [k..<k + m]) = n div 256 ^ k mod 256 ^ m" for k m
  proof (induction m arbitrary: k)
    case (Suc m)
    have "[k..<k + Suc m] = k # [Suc k..<Suc k + m]" by (simp add: upt_conv_Cons)
    then show ?case using Suc [of "Suc k"] by (simp add: div_mult2_eq [symmetric] mod_mult2_eq mult.commute)
  qed simp
  from this [of 0 8] show ?thesis using \<open>n < 2 ^ 64\<close> by (simp add: le_bytes8_def)
qed

lemma argv_block:
  assumes seen: "\<And>v. v \<in> {arg1..<arg1 + (off + length (args_bytes as))} \<Longrightarrow> user_byte r s v = Some (ld_mem s v)"
    and lim: "arg1 + (off + length (args_bytes as)) < 2 ^ 64" and off: "8 * length as \<le> off"
    and mem: "\<And>p. ld_mem s p = (if p \<in> {arg1..<arg1 + 8 * length as} then concat (map le_bytes8 (c_args_ref (arg1 + off) as)) ! (p - arg1)
      else if p \<in> {arg1 + off..<arg1 + off + length (args_bytes as)} then args_bytes as ! (p - (arg1 + off)) else m p)"
  shows "argv_ready r arg1 as s"
  unfolding argv_ready_def
proof (intro allI impI)
  fix i assume i: "i < length as"
  let ?p = "c_args_ref (arg1 + off) as ! i"
  have str: "arg1 + off \<le> ?p \<and> ?p + k < arg1 + off + length (args_bytes as) \<and>
      args_bytes as ! (?p + k - (arg1 + off)) = (map of_char (as ! i) @ [0]) ! k" if "k \<le> length (as ! i)" for k
    using args_string [OF i that] by blast
  have "reads r s (arg1 + 8 * i) (le_bytes8 ?p)" unfolding reads_def
  proof (intro allI impI)
    fix k assume "k < length (le_bytes8 ?p)"
    then have k: "k < 8" by simp
    have here: "8 * i + k < 8 * length as" using i k by simp
    then have "ld_mem s (arg1 + 8 * i + k) = le_bytes8 ?p ! k" using mem [of "arg1 + 8 * i + k"] concat_nth8 [of i "c_args_ref (arg1 + off) as" k] i k
      by (simp add: add.assoc)
    then show "user_byte r s (arg1 + 8 * i + k) = Some (le_bytes8 ?p ! k)" using seen [of "arg1 + 8 * i + k"] here off by simp
  qed
  moreover have "reads r s ?p (map of_char (as ! i) @ [0])" unfolding reads_def
  proof (intro allI impI)
    fix k assume "k < length (map of_char (as ! i) @ [0 :: u8])"
    then have k: "k \<le> length (as ! i)" by simp
    have "ld_mem s (?p + k) = (map of_char (as ! i) @ [0]) ! k" using mem [of "?p + k"] str [OF k] off by auto
    then show "user_byte r s (?p + k) = Some ((map of_char (as ! i) @ [0]) ! k)" using seen [of "?p + k"] str [OF k] by simp
  qed
  moreover have "?p < 2 ^ 64" using str [of 0] lim by simp
  ultimately show "\<exists>p<2 ^ 64. reads r s (arg1 + 8 * i) (le_bytes8 p) \<and> reads r s p (map of_char (as ! i) @ [0])" by blast
qed

lemma new_args_steps:
  assumes run: "new_args (Some as) ContextMode.User fs s = (Ok (fr, arg0, arg1), s')"
  obtains f s1 s2 where "alloc_mem (max ((length (args_bytes as) + args_offset as) div PAGE_SIZE) 1) s = (Ok f, s1)"
    "map_for_task (frame_start_phys_addr f) f fs
       (s1\<lparr>ld_mem := put (frame_start_phys_addr f) (replicate (frame_size f) 0) (ld_mem s1)\<rparr>) = (Ok (), s2)"
    "fr = Some f" "arg0 = length as" "arg1 = frame_start_phys_addr f"
    "s' = s2\<lparr>ld_mem := put arg1 (concat (map le_bytes8 (c_args_ref (arg1 + args_offset as) as)))
       (put (arg1 + args_offset as) (args_bytes as) (ld_mem s2))\<rparr>"
proof -
  let ?n = "max ((length (args_bytes as) + args_offset as) div PAGE_SIZE) 1"
  let ?k = "\<lambda>f. bind_act (zero_out f) (\<lambda>_. bind_act (map_for_task (frame_start_phys_addr f) f fs) (\<lambda>_.
      bind_act (copy_bytes (frame_start_phys_addr f + args_offset as) (args_bytes as)) (\<lambda>_.
      bind_act (copy_bytes (frame_start_phys_addr f) (concat (map le_bytes8 (c_args_ref (frame_start_phys_addr f + args_offset as) as)))) (\<lambda>_.
      return_act (Some f, length as, frame_start_phys_addr f)))))"
  obtain bs where bs: "c_args as = Ok bs" using run by (cases "c_args as") (simp_all add: new_args_def)
  then have "or_drop fs (alloc_mem ?n) ?k s = (Ok (fr, arg0, arg1), s')"
    using run c_args_ok [OF bs] by (simp add: new_args_def Let_def args_offset_def)
  then obtain f s1 where f: "alloc_mem ?n s = (Ok f, s1)" "?k f s1 = (Ok (fr, arg0, arg1), s')" by (rule or_drop_Ok)
  let ?s = "s1\<lparr>ld_mem := put (frame_start_phys_addr f) (replicate (frame_size f) 0) (ld_mem s1)\<rparr>"
  obtain s2 where s2: "map_for_task (frame_start_phys_addr f) f fs ?s = (Ok (), s2)"
    using f(2) by (cases "map_for_task (frame_start_phys_addr f) f fs ?s"; cases "fst (map_for_task (frame_start_phys_addr f) f fs ?s)")
      (auto simp: zero_out_def copy_bytes_def)
  show thesis using that [OF f(1) s2] f(2) s2 by (auto simp: zero_out_def copy_bytes_def)
qed

lemma new_args_ok:
  assumes b: "building r s" and fit: "args_fit as" and run: "new_args (Some as) ContextMode.User fs s = (Ok (fr, arg0, arg1), s')"
  obtains a n where "fr = Some (frame_at a n)" "(a + n) * PAGE_SIZE \<le> 2 ^ 39" "adds r (frame_range a n) s s'" "0 < n"
    "arg0 = length as" "arg1 = a * PAGE_SIZE" "argv_ready r arg1 as s'" "{a..<a + n} \<subseteq> ld_free s" "length as < 2 ^ 39"
proof -
  let ?off = "args_offset as" and ?bytes = "args_bytes as"
  let ?n = "max ((length ?bytes + ?off) div PAGE_SIZE) 1"
  obtain f s1 s2 where f: "alloc_mem ?n s = (Ok f, s1)"
    "map_for_task (frame_start_phys_addr f) f fs (s1\<lparr>ld_mem := put (frame_start_phys_addr f) (replicate (frame_size f) 0) (ld_mem s1)\<rparr>) = (Ok (), s2)"
    and res: "fr = Some f" "arg0 = length as" "arg1 = frame_start_phys_addr f"
    and s': "s' = s2\<lparr>ld_mem := put arg1 (concat (map le_bytes8 (c_args_ref (arg1 + ?off) as))) (put (arg1 + ?off) ?bytes (ld_mem s2))\<rparr>"
    by (rule new_args_steps [OF run])
  have m1: "ld_mem s1 = ld_mem s" by (rule alloc_mem_cases [OF b, of ?n]) (use f(1) in auto)
  have len: "length ?bytes + ?off \<le> ?n * PAGE_SIZE" using fit by (auto simp: args_fit_def Let_def)
  have "\<And>a p. f = frame_at a ?n \<Longrightarrow> p div PAGE_SIZE \<notin> {a..<a + ?n} \<Longrightarrow> put (frame_start_phys_addr f) (replicate (frame_size f) 0) (ld_mem s1) p = ld_mem s p"
    unfolding m1 by (rule put_in_frame) (auto simp: frame_at_def algebra_simps)
  then obtain a where a: "f = frame_at a ?n" "(a + ?n) * PAGE_SIZE \<le> 2 ^ 39" "adds r (frame_range a ?n) s s2"
    "\<And>v. v \<in> frame_range a ?n \<Longrightarrow> calc_phys_addr (tables (ld_pg s2)) r v = Some v" "{a..<a + ?n} \<inter> ld_free s2 = {}" "{a..<a + ?n} \<subseteq> ld_free s"
    by (rule identity_frame [OF b f(1) _ f(2)]) blast+
  have start: "arg1 = a * PAGE_SIZE" using res(3) a(1) by (simp add: frame_at_def)
  let ?ref = "c_args_ref (arg1 + ?off) as"
  have ptrs: "length (concat (map le_bytes8 ?ref)) \<le> ?off" by (simp only: concat_length8 c_args_ref_length) (simp add: args_offset_def)
  have mem: "ld_mem s' p = (if p \<in> {arg1..<arg1 + 8 * length as} then concat (map le_bytes8 ?ref) ! (p - arg1)
      else if p \<in> {arg1 + ?off..<arg1 + ?off + length ?bytes} then ?bytes ! (p - (arg1 + ?off)) else ld_mem s2 p)" for p
    by (simp add: s' put_apply concat_length8 del: length_concat)
  have "ld_mem s' p = ld_mem s2 p" if "p div PAGE_SIZE \<notin> ld_free s" for p
  proof -
    have "p div PAGE_SIZE \<notin> {a..<a + ?n}" using a(6) that by blast
    then show ?thesis
      unfolding s' using put_in_frame [of a arg1 _ ?n p] put_in_frame [of a "arg1 + ?off" _ ?n p] ptrs len start
      by (simp add: add_mult_distrib)
  qed
  from adds_write [OF a(3) this] have "adds r (frame_range a ?n) s s'" by (simp add: s')
  moreover have "argv_ready r arg1 as s'"
  proof (rule argv_block)
    show "user_byte r s' v = Some (ld_mem s' v)" if "v \<in> {arg1..<arg1 + (?off + length ?bytes)}" for v
    proof -
      have "v \<in> frame_range a ?n" using that len start by (simp add: frame_range_def)
      then show ?thesis using a(4) by (simp add: user_byte_def s')
    qed
    show "arg1 + (?off + length ?bytes) < 2 ^ 64" using len start a(2) by (simp add: add_mult_distrib)
    show "8 * length as \<le> ?off" by (simp add: args_offset_def)
  qed (rule mem)
  moreover have "fr = Some (frame_at a ?n)" "0 < ?n" using res(1) a(1) by simp_all
  moreover have "length as < 2 ^ 39" using len a(2) by (simp add: args_offset_def add_mult_distrib)
  ultimately show thesis using that [of a ?n] a(2,6) res(2) start by blast
qed

subsection \<open>The whole task\<close>

lemma start_building:
  assumes pool: "pool_ok (pg_frames (ld_pg s))"
    and sh: "shared_space (kernel_pml4_phys (ld_pg s)) (tables (ld_pg s)) (free_frames (pg_frames (ld_pg s)))"
    and run: "on_paging new_cloned_from_kernel s = (Ok x, s1)"
  obtains r where "building r s1" "apart (kernel_pml4_phys (ld_pg s)) r (ld_pg s1)" "r < 2 ^ 39"
    "\<And>va. lookup_pte (tables (ld_pg s1)) (kernel_pml4_phys (ld_pg s)) va = lookup_pte (tables (ld_pg s)) (kernel_pml4_phys (ld_pg s)) va"
proof -
  obtain p where p: "new_cloned_from_kernel (ld_pg s) = (Ok (), p)" "s1 = s\<lparr>ld_pg := p\<rparr>"
    using run by (auto simp: on_paging_def split: prod.splits)
  obtain f where f: "user_pt p = \<lparr>pml4_frame = Some f, allocated_frames = []\<rparr>" "user_space (frame_start_phys_addr f) p"
    "\<forall>va. lookup_pte (tables p) (kernel_pml4_phys (ld_pg s)) va = lookup_pte (tables (ld_pg s)) (kernel_pml4_phys (ld_pg s)) va"
    "apart (kernel_pml4_phys (ld_pg s)) (frame_start_phys_addr f) p"
    using new_cloned_run [OF pool sh] p(1) sh by auto
  have "frame_start_phys_addr f < 2 ^ 39"
  proof (cases rule: alloc_one_cases [OF pool, case_names found failed])
    case (found g b)
    have "user_pt (snd (new_cloned_from_kernel (ld_pg s))) = \<lparr>pml4_frame = Some g, allocated_frames = []\<rparr>"
      using found(1) by (simp add: new_cloned_from_kernel_def user_pt_new_def bind_act_def pml4_phys_addr_def zero_table_def)
    then have "g = f" using p(1) f(1) by simp
    then show ?thesis using found(6) by simp
  next
    case (failed e)
    then show ?thesis using p(1) by (simp add: new_cloned_from_kernel_def user_pt_new_def bind_act_def)
  qed
  then show thesis using that [of "frame_start_phys_addr f"] f p(2) by (simp add: building_def)
qed

lemma frames_apart:
  assumes "{a..<a + n} \<inter> {b..<b + k} = {}"
  shows "frame_range a n \<inter> frame_range b k = {}"
proof -
  have "p div PAGE_SIZE \<in> {a..<a + n}" if "p \<in> frame_range a n" for p a n
    using that in_frame [of p a n] by (simp add: frame_range_def add_mult_distrib)
  then show ?thesis using assms by blast
qed

lemma stack_top_ok:
  assumes "(a + n) * PAGE_SIZE \<le> 2 ^ 39" and "64 \<le> sz" and "sz \<le> n * PAGE_SIZE"
  shows "\<exists>rsp. stack_top sz (Some (frame_at a n)) = Ok rsp \<and> 64 dvd rsp \<and> rsp \<in> frame_range a n"
proof -
  let ?b = "a * PAGE_SIZE + sz - 63"
  have "a * 64 \<le> ?b div 64" using assms(2) by (simp add: less_eq_div_iff_mult_less_eq)
  then have "a * PAGE_SIZE \<le> ?b div 64 * 64" by simp
  moreover have "?b div 64 * 64 \<le> ?b" by simp
  moreover have "a * PAGE_SIZE + sz < 2 ^ 64" using assms(1,3) by (simp add: add_mult_distrib)
  ultimately show ?thesis using assms(2,3) by (simp add: stack_top_def frame_at_def uadd_def usub_def frame_range_def)
qed

text \<open>The steps of \<open>Task::new\<close> for a program.\<close>

lemma task_new_steps:
  assumes "task_new sz (Some e) (Some as) ContextMode.User dwarf pipe s = (Ok (name, ctx, res), s')"
  obtains s1 s2 s3 entry program stack rsp fr arg0 arg1 cr3 where "on_paging new_cloned_from_kernel s = (Ok (), s1)"
    "load_segments e (program_headers e) [] None s1 = (Ok (entry, program), s2)" "new_stack sz ContextMode.User program s2 = (Ok stack, s3)"
    "stack_top sz stack = Ok rsp" "new_args (Some as) ContextMode.User (opt_list stack @ program) s3 = (Ok (fr, arg0, arg1), s')"
    "pml4_phys_addr (ld_pg s') = (Ok cr3, ld_pg s')" "ctx_cr3 ctx = word_of_nat cr3" "ctx_rsp ctx = word_of_nat rsp"
    "ctx_rip ctx = word_of_nat (case entry of Some f \<Rightarrow> f | None \<Rightarrow> 0)" "ctx_rdi ctx = word_of_nat arg0" "ctx_rsi ctx = word_of_nat arg1"
    "res = resource_new (user_pt (ld_pg s')) fr stack program pipe"
proof -
  let ?ctx = "\<lambda>old entry arg0 arg1 rsp cr3. (context_init (word_of_nat old) (word_of_nat (case entry of Some f \<Rightarrow> f | None \<Rightarrow> 0))
    (word_of_nat arg0) (word_of_nat arg1) (word_of_nat rsp) ContextMode.User dwarf context_new)\<lparr>ctx_cr3 := word_of_nat cr3\<rparr>"
  let ?tail = "\<lambda>entry program stack rsp fr arg0 arg1. bind_act (lift_outcome (case as of [] \<Rightarrow> Panic | a # _ \<Rightarrow> Ok a)) (\<lambda>path.
     bind_act (on_paging pml4_phys_addr) (\<lambda>cr3. bind_act (on_paging (gets cr3_reg)) (\<lambda>old. bind_act (on_paging (gets user_pt)) (\<lambda>pt.
     return_act (path_name path, ?ctx old entry arg0 arg1 rsp cr3, resource_new pt fr stack program pipe)))))"
  obtain s1 s2 entry program where s2: "on_paging new_cloned_from_kernel s = (Ok (), s1)" "load_program (Some e) s1 = (Ok (entry, program), s2)"
    and fin: "task_finish sz (Some as) ContextMode.User dwarf pipe entry program s2 = (Ok (name, ctx, res), s')"
    using assms unfolding task_new_def by (elim bind_act_Ok) (auto split: prod.splits)
  then have tail: "bind_act (new_stack sz ContextMode.User program) (\<lambda>stack. bind_act (lift_outcome (stack_top sz stack)) (\<lambda>rsp.
       bind_act (new_args (Some as) ContextMode.User (opt_list stack @ program)) (\<lambda>(fr, arg0, arg1).
       ?tail entry program stack rsp fr arg0 arg1))) s2 = (Ok (name, ctx, res), s')"
    by (simp add: task_finish_def Let_def)
  have load: "load_segments e (program_headers e) [] None s1 = (Ok (entry, program), s2)"
    using s2(2) by (simp add: load_program_def drop_locals_not_Ok split: if_splits)
  obtain stack s3 where s3: "new_stack sz ContextMode.User program s2 = (Ok stack, s3)" and tail: "bind_act (lift_outcome (stack_top sz stack)) (\<lambda>rsp.
       bind_act (new_args (Some as) ContextMode.User (opt_list stack @ program)) (\<lambda>(fr, arg0, arg1).
       ?tail entry program stack rsp fr arg0 arg1)) s3 = (Ok (name, ctx, res), s')"
    by (rule bind_act_Ok [OF tail])
  obtain rsp where rsp: "stack_top sz stack = Ok rsp" and tail: "bind_act (new_args (Some as) ContextMode.User (opt_list stack @ program)) (\<lambda>(fr, arg0, arg1).
       ?tail entry program stack rsp fr arg0 arg1) s3 = (Ok (name, ctx, res), s')"
    using tail by (cases "stack_top sz stack") simp_all
  obtain fr arg0 arg1 s4 where s4: "new_args (Some as) ContextMode.User (opt_list stack @ program) s3 = (Ok (fr, arg0, arg1), s4)"
    and tail: "?tail entry program stack rsp fr arg0 arg1 s4 = (Ok (name, ctx, res), s')"
    using tail by (elim bind_act_Ok) auto
  obtain f where f: "pml4_frame (user_pt (ld_pg s4)) = Some f"
    using tail by (cases as; cases "pml4_frame (user_pt (ld_pg s4))") (simp_all add: on_paging_def pml4_phys_addr_def bind_act_def)
  define cr3 where "cr3 = frame_start_phys_addr f"
  have cr3: "pml4_phys_addr (ld_pg s4) = (Ok cr3, ld_pg s4)" by (simp add: f cr3_def pml4_phys_addr_def)
  have fin: "s' = s4" "ctx = ?ctx (cr3_reg (ld_pg s4)) entry arg0 arg1 rsp cr3" "res = resource_new (user_pt (ld_pg s4)) fr stack program pipe"
    using tail cr3 by (cases as; simp add: on_paging_def)+
  have "ctx_cr3 ctx = word_of_nat cr3" "ctx_rsp ctx = word_of_nat rsp" "ctx_rip ctx = word_of_nat (case entry of Some f \<Rightarrow> f | None \<Rightarrow> 0)"
    "ctx_rdi ctx = word_of_nat arg0" "ctx_rsi ctx = word_of_nat arg1"
    by (simp_all add: fin(2) context_init_def)
  then show thesis using that [OF s2(1) load s3 rsp s4 [folded fin(1)]] cr3 fin(1,3) by simp
qed

subsection \<open>Properties\<close>

text \<open>What a task finds when it starts to run.\<close>

definition task_ready :: "Elf64 \<Rightarrow> string list \<Rightarrow> nat \<Rightarrow> Context \<Rightarrow> TaskResource \<Rightarrow> loader \<Rightarrow> bool" where
  "task_ready e as sz ctx res s \<longleftrightarrow> (\<exists>r f stack n.
     unat (ctx_cr3 ctx) = r \<and> pml4_frame (page_table res) = Some f \<and> frame_start_phys_addr f = r \<and>
     (\<forall>ph\<in>set (loads (program_headers e)). segment_image r e ph s) \<and>
     unat (ctx_rdi ctx) = length as \<and> argv_ready r (unat (ctx_rsi ctx)) as s \<and>
     stack_frame res = Some (frame_at stack n) \<and> sz \<le> n * PAGE_SIZE \<and> 64 dvd unat (ctx_rsp ctx) \<and>
     unat (ctx_rsp ctx) \<in> frame_range stack n \<and>
     (\<forall>va\<in>frame_range stack n. calc_phys_addr (tables (ld_pg s)) r va = Some va))"

lemma low_apart: "a * PAGE_SIZE + n * PAGE_SIZE \<le> 2 ^ 39 \<Longrightarrow> 2 ^ 39 \<le> page_down (ph_virt_addr ph) \<Longrightarrow> seg_range ph \<inter> frame_range a n = {}"
  by (auto simp: seg_range_def frame_range_def)

lemma task_new_ready:
  assumes pool: "pool_ok (pg_frames (ld_pg s))"
    and sh: "shared_space (kernel_pml4_phys (ld_pg s)) (tables (ld_pg s)) (free_frames (pg_frames (ld_pg s)))"
    and segs: "\<forall>ph\<in>set (loads (program_headers e)). seg_ok e ph \<and> 2 ^ 39 \<le> page_down (ph_virt_addr ph)"
      "apart_ranges (loads (program_headers e))"
    and fit: "args_fit as" and sz: "64 \<le> sz"
    and run: "task_new sz (Some e) (Some as) ContextMode.User dwarf pipe s = (Ok (name, ctx, res), s')"
  shows "task_ready e as sz ctx res s'"
    "lookup_pte (tables (ld_pg s')) (kernel_pml4_phys (ld_pg s)) va = lookup_pte (tables (ld_pg s)) (kernel_pml4_phys (ld_pg s)) va"
    "ctx_rip ctx = word_of_nat (if \<exists>ph\<in>set (loads (program_headers e)). holds_entry (eh_entry_point (elf_header e)) ph = Ok True
       then eh_entry_point (elf_header e) else 0)"
proof -
  let ?k = "kernel_pml4_phys (ld_pg s)" and ?segs = "loads (program_headers e)"
  obtain s1 s2 s3 entry program stack rsp fr arg0 arg1 cr3 where t: "on_paging new_cloned_from_kernel s = (Ok (), s1)"
    "load_segments e (program_headers e) [] None s1 = (Ok (entry, program), s2)" "new_stack sz ContextMode.User program s2 = (Ok stack, s3)"
    "stack_top sz stack = Ok rsp" "new_args (Some as) ContextMode.User (opt_list stack @ program) s3 = (Ok (fr, arg0, arg1), s')"
    "pml4_phys_addr (ld_pg s') = (Ok cr3, ld_pg s')" "ctx_cr3 ctx = word_of_nat cr3" "ctx_rsp ctx = word_of_nat rsp"
    "ctx_rip ctx = word_of_nat (case entry of Some f \<Rightarrow> f | None \<Rightarrow> 0)" "ctx_rdi ctx = word_of_nat arg0" "ctx_rsi ctx = word_of_nat arg1"
    "res = resource_new (user_pt (ld_pg s')) fr stack program pipe"
    by (rule task_new_steps [OF run])
  obtain r where b: "building r s1" "apart ?k r (ld_pg s1)" "r < 2 ^ 39" "\<And>va. lookup_pte (tables (ld_pg s1)) ?k va = lookup_pte (tables (ld_pg s)) ?k va"
    by (rule start_building [OF pool sh t(1)]) blast
  have l: "adds r (\<Union>(seg_range ` set ?segs)) s1 s2" "\<forall>ph\<in>set ?segs. image_held r e ph s2"
    "entry = (if \<exists>ph\<in>set ?segs. holds_entry (eh_entry_point (elf_header e)) ph = Ok True then Some (eh_entry_point (elf_header e)) else None)"
    using load_segments_ok [OF b(1) _ segs(2) t(2)] segs(1) by blast+
  have "0 < sz" using sz by simp
  obtain a n where st: "stack = Some (frame_at a n)" "sz \<le> n * PAGE_SIZE" "(a + n) * PAGE_SIZE \<le> 2 ^ 39" "adds r (frame_range a n) s2 s3"
    "\<And>v. v \<in> frame_range a n \<Longrightarrow> calc_phys_addr (tables (ld_pg s3)) r v = Some v" "{a..<a + n} \<inter> ld_free s3 = {}"
    by (rule new_stack_ok [OF addsD(1) [OF l(1)] \<open>0 < sz\<close> t(3)]) blast
  obtain c k where ar: "fr = Some (frame_at c k)" "(c + k) * PAGE_SIZE \<le> 2 ^ 39" "adds r (frame_range c k) s3 s'" "0 < k"
    "arg0 = length as" "arg1 = c * PAGE_SIZE" "argv_ready r arg1 as s'" "{c..<c + k} \<subseteq> ld_free s3" "length as < 2 ^ 39"
    by (rule new_args_ok [OF addsD(1) [OF st(4)] fit t(5)])
  have low: "a * PAGE_SIZE + n * PAGE_SIZE \<le> 2 ^ 39" "c * PAGE_SIZE + k * PAGE_SIZE \<le> 2 ^ 39" using st(3) ar(2) by (simp_all add: add_mult_distrib)
  have img: "segment_image r e ph s'" if "ph \<in> set ?segs" for ph
    using image_held_image image_kept [OF image_kept [OF _ st(4)] ar(3)] low_apart [OF low(1), of ph] low_apart [OF low(2), of ph] l(2) segs(1) that by blast
  have root: "\<exists>f. pml4_frame (user_pt (ld_pg s')) = Some f \<and> frame_start_phys_addr f = r" "cr3 = r"
    using addsD(1) [OF ar(3)] t(6) by (auto simp: building_def pml4_phys_addr_def)
  have rsp: "64 dvd rsp" "rsp \<in> frame_range a n" using stack_top_ok [OF st(3) sz st(2)] t(4) st(1) by auto
  have stk: "calc_phys_addr (tables (ld_pg s')) r v = Some v" if "v \<in> frame_range a n" for v
  proof -
    have "canonical v" using that low(1) by (simp add: frame_range_def canonical_def)
    moreover have "v \<notin> frame_range c k" using frames_apart [of a n c k] st(6) ar(8) that by blast
    ultimately show ?thesis using addsD(4) [OF ar(3)] st(5) [OF that] by simp
  qed
  have words: "unat (word_of_nat r :: u64) = r" "unat (word_of_nat rsp :: u64) = rsp" "unat (word_of_nat arg0 :: u64) = arg0" "unat (word_of_nat arg1 :: u64) = arg1"
  proof -
    have "rsp < 2 ^ 39" "arg1 < 2 ^ 39" "arg0 < 2 ^ 39" using rsp(2) low ar(4,5,6,9) by (simp_all add: frame_range_def)
    then show "unat (word_of_nat r :: u64) = r" "unat (word_of_nat rsp :: u64) = rsp" "unat (word_of_nat arg0 :: u64) = arg0"
      "unat (word_of_nat arg1 :: u64) = arg1" using b(3) by (simp_all add: unat_of_nat)
  qed
  obtain f where f: "pml4_frame (user_pt (ld_pg s')) = Some f" "frame_start_phys_addr f = r" using root(1) by blast
  show "task_ready e as sz ctx res s'" unfolding task_ready_def
    by (intro exI [of _ r] exI [of _ f] exI [of _ a] exI [of _ n])
      (use f root(2) img ar(5,7) st(1,2) rsp stk t(7,8,10,11,12) words in \<open>simp add: resource_new_def\<close>)
  have ap: "apart ?k r (ld_pg s2)" "apart ?k r (ld_pg s3)" using addsD(5) [OF l(1) b(2)] addsD(5) [OF st(4)] by auto
  show "lookup_pte (tables (ld_pg s')) ?k va = lookup_pte (tables (ld_pg s)) ?k va"
    using addsD(6) [OF l(1) b(2)] addsD(6) [OF st(4) ap(1)] addsD(6) [OF ar(3) ap(2)] b(4) by simp
  show "ctx_rip ctx = word_of_nat (if \<exists>ph\<in>set ?segs. holds_entry (eh_entry_point (elf_header e)) ph = Ok True
       then eh_entry_point (elf_header e) else 0)" using t(9) l(3) by auto
qed

end
