(* ===== verification/Program_Start.thy ===== *)
theory Program_Start
  imports Loader_Correct
begin

text \<open>
  When a program starts, and when it does not: with enough frames a program of one page starts; once a segment is loaded an error
  of \<open>Task::new\<close> is a panic, because the frames it holds are dropped; and the bytes of a segment are copied behind its frame when
  the file has more of them than memory was asked for.
\<close>

subsection \<open>Errors\<close>

definition no_err :: "(loader, 'a) act \<Rightarrow> bool" where
  "no_err m \<longleftrightarrow> (\<forall>s e s'. m s \<noteq> (Err e, s'))"

definition holds_live :: "MemoryFrame list \<Rightarrow> bool" where
  "holds_live fs \<longleftrightarrow> (\<exists>f\<in>set fs. \<not> deallocated f)"

lemma no_err_bind: "no_err m \<Longrightarrow> (\<And>x. no_err (k x)) \<Longrightarrow> no_err (bind_act m k)"
  by (auto simp: no_err_def bind_act_def split: prod.splits outcome.splits)

lemma no_err_basic:
  "no_err (return_act x)" "no_err (lift_outcome (uadd a b))" "no_err (copy_bytes a bs)" "no_err (zero_out f)" "no_err (lift_outcome (Ok x))"
  by (auto simp: no_err_def uadd_def copy_bytes_def zero_out_def)

lemma drop_live: "holds_live fs \<Longrightarrow> drop_locals fs e s = (Panic, s)"
proof -
  assume "holds_live fs"
  then have "for_each fs (\<lambda>f. lift_outcome (drop_frame f)) s = (Panic, s)"
    by (induction fs) (auto simp: holds_live_def drop_frame_def bind_act_def)
  then show ?thesis by (simp add: drop_locals_def bind_act_def)
qed

lemma no_err_or_drop:
  assumes "holds_live fs" and "\<And>x. no_err (k x)"
  shows "no_err (or_drop fs m k)"
  unfolding no_err_def
proof (intro allI)
  fix s e s'
  obtain r s1 where m: "m s = (r, s1)" by fastforce
  show "or_drop fs m k s \<noteq> (Err e, s')"
    using m assms(2) by (cases r) (auto simp: or_drop_def catch_def no_err_def drop_live [OF assms(1)])
qed

lemma holds_live_mono: "holds_live fs \<Longrightarrow> set fs \<subseteq> set gs \<Longrightarrow> holds_live gs"
  by (auto simp: holds_live_def)

lemma no_err_map: "holds_live (f # fs) \<Longrightarrow> no_err (map_for_task va f fs)"
  unfolding map_for_task_def by (intro no_err_bind no_err_basic no_err_or_drop)

lemma no_err_lift: "(\<And>e. r \<noteq> Err e) \<Longrightarrow> no_err (lift_outcome r)"
  by (simp add: no_err_def)

lemma no_err_pages: "no_err (lift_outcome (pages_needed ph))" "no_err (lift_outcome (data_by_program_header ph e))"
  "no_err (lift_outcome (holds_entry n ph))"
  by (rule no_err_lift, auto simp: pages_needed_def data_by_program_header_def holds_entry_def uadd_def)+

lemma no_err_load_segment:
  assumes "holds_live fs"
  shows "no_err (load_segment e fs ph)"
proof -
  have more: "holds_live (f # fs)" for f by (rule holds_live_mono [OF assms]) auto
  have copy: "no_err (case data of None \<Rightarrow> return_act () | Some bs \<Rightarrow> bind_act (lift_outcome (uadd a b)) (\<lambda>a. copy_bytes a bs))" for data a b
    by (cases data) (simp_all only: option.case no_err_basic no_err_bind)
  show ?thesis unfolding load_segment_def
    by (intro no_err_bind no_err_pages no_err_or_drop no_err_basic copy no_err_map more assms)
qed

lemma no_err_load_segments: "holds_live fs \<Longrightarrow> no_err (load_segments e phs fs entry)"
proof (induction phs arbitrary: fs entry)
  case Nil
  then show ?case by (simp only: load_segments.simps no_err_basic)
next
  case (Cons ph phs)
  have more: "holds_live (fs @ [f])" for f by (rule holds_live_mono [OF Cons.prems]) auto
  show ?case
  proof (cases "segment_type ph = Load")
    case True
    have "no_err (case x of (f, here) \<Rightarrow> load_segments e phs (fs @ [f]) (if here then Some (eh_entry_point (elf_header e)) else entry))" for x
      using Cons.IH [OF more] by (cases x) simp
    from no_err_bind [OF no_err_load_segment [OF Cons.prems] this] show ?thesis using True by simp
  qed (use Cons in simp)
qed

lemma load_segments_keep: "load_segments e phs fs entry s = (Ok (entry', fs'), s') \<Longrightarrow> set fs \<subseteq> set fs'"
proof (induction phs arbitrary: fs entry s)
  case (Cons ph phs)
  show ?case
  proof (cases "segment_type ph = Load")
    case True
    then obtain x s1 where "(case x of (f, here) \<Rightarrow> load_segments e phs (fs @ [f]) (if here then Some (eh_entry_point (elf_header e)) else entry)) s1 = (Ok (entry', fs'), s')"
      using Cons.prems by (auto elim!: bind_act_Ok)
    then show ?thesis using Cons.IH by (cases x) fastforce
  qed (use Cons in simp)
qed simp

lemma no_err_stack: "holds_live fs \<Longrightarrow> no_err (new_stack sz mode fs)"
proof -
  assume live: "holds_live fs"
  have more: "holds_live (f # fs)" for f by (rule holds_live_mono [OF live]) auto
  have map: "no_err (if b then map_for_task va f fs else return_act ())" for b va f
    by (cases b) (simp_all only: if_True if_False no_err_map [OF more] no_err_basic)
  show ?thesis
  proof (cases "0 < sz")
    case True
    then show ?thesis unfolding new_stack_def if_P [OF True] by (intro no_err_or_drop live no_err_bind map no_err_basic)
  next
    case False
    then show ?thesis unfolding new_stack_def if_not_P [OF False] by (intro no_err_basic)
  qed
qed

lemma no_err_args: "holds_live fs \<Longrightarrow> no_err (new_args args mode fs)"
proof -
  assume live: "holds_live fs"
  have more: "holds_live (f # fs)" for f by (rule holds_live_mono [OF live]) auto
  have map: "no_err (if b then map_for_task va f fs else return_act ())" for b va f
    by (cases b) (simp_all only: if_True if_False no_err_map [OF more] no_err_basic)
  have bytes: "c_args as \<noteq> Err e" for as e
    by (induction as) (auto simp: into_cstring_bytes_with_nul_def and_then_Err_iff elim: map_ok.elims)
  show ?thesis
  proof (cases args)
    case None
    then show ?thesis by (simp only: new_args_def option.case no_err_basic)
  next
    case (Some as)
    show ?thesis unfolding new_args_def Some option.case Let_def
      by (intro no_err_bind no_err_lift bytes no_err_or_drop live map no_err_basic)
  qed
qed

lemma no_err_run: "no_err m \<Longrightarrow> m s = (Err e, s') \<Longrightarrow> P"
  by (auto simp: no_err_def)

lemma bind_no_err:
  assumes "m s \<noteq> (Err e, t)" and "\<And>x s1. m s = (Ok x, s1) \<Longrightarrow> k x s1 \<noteq> (Err e, t)"
  shows "bind_act m k s \<noteq> (Err e, t)"
  using assms by (cases "m s"; cases "fst (m s)") (auto simp: bind_act_def)

lemma no_err_finish:
  assumes "holds_live program"
  shows "no_err (task_finish sz args mode dwarf pipe entry program)"
proof -
  have more: "holds_live (opt_list stack @ program)" for stack by (rule holds_live_mono [OF assms]) auto
  have top: "stack_top sz stack \<noteq> Err e" for stack e by (auto simp: stack_top_def uadd_def usub_def split: option.splits)
  have name: "(case args of None \<Rightarrow> Ok ''/kernel'' | Some [] \<Rightarrow> Panic | Some (a # _) \<Rightarrow> Ok a) \<noteq> Err e" for e
    by (auto split: option.splits list.splits)
  have regs: "no_err (on_paging (gets g))" for g by (simp add: no_err_def on_paging_def)
  have cr3: "no_err (on_paging (case mode of ContextMode.User \<Rightarrow> pml4_phys_addr | ContextMode.Kernel \<Rightarrow> gets cr3_reg))"
    by (cases mode) (auto simp: no_err_def on_paging_def pml4_phys_addr_def split: option.splits)
  have tail: "no_err (bind_act (lift_outcome (case args of None \<Rightarrow> Ok ''/kernel'' | Some [] \<Rightarrow> Panic | Some (a # _) \<Rightarrow> Ok a)) (\<lambda>path.
     bind_act (on_paging (case mode of ContextMode.User \<Rightarrow> pml4_phys_addr | ContextMode.Kernel \<Rightarrow> gets cr3_reg)) (\<lambda>cr3.
     bind_act (on_paging (gets cr3_reg)) (\<lambda>old. bind_act (on_paging (gets user_pt)) (\<lambda>pt. return_act (g path cr3 old pt))))))" for g
    by (intro no_err_bind no_err_lift name cr3 regs no_err_basic)
  show ?thesis unfolding task_finish_def Let_def
    by (intro no_err_bind no_err_stack assms no_err_lift top no_err_args more) (auto intro: tail split: prod.splits)
qed

lemma load_segment_live:
  assumes "building r s" and "load_segment e fs ph s = (Ok (f, here), s')"
  shows "\<not> deallocated f"
proof -
  obtain n s1 where "alloc_mem n s = (Ok f, s1)"
    using assms(2) unfolding load_segment_def by (elim bind_act_Ok or_drop_Ok) auto
  then show ?thesis by (cases rule: alloc_mem_cases [OF assms(1), of n]) (auto simp: frame_at_def)
qed

lemma load_segments_loads: "load_segments e phs fs entry = load_segments e (loads phs) fs entry"
proof (induction phs arbitrary: fs entry)
  case (Cons ph phs)
  then show ?case by (cases "segment_type ph = Load") simp_all
qed simp

lemma loads_Load: "loads phs = ph # qs \<Longrightarrow> segment_type ph = Load"
  by (metis (mono_tags, lifting) Cons_eq_filterD loads_def)

subsection \<open>Enough memory\<close>

lemma alloc_mem_one:
  assumes b: "building r s" and "1 \<le> spare (ld_pg s)"
  obtains a s' where "alloc_mem 1 s = (Ok (frame_at a 1), s')" "building r s'" "spare (ld_pg s) \<le> spare (ld_pg s') + 1"
    "(a + 1) * PAGE_SIZE \<le> 2 ^ 39"
proof -
  have pool: "pool_ok (pg_frames (ld_pg s))" using b by (simp add: building_def user_space_def)
  have run: "alloc_mem 1 s = (case alloc_one (ld_pg s) of (res, p) \<Rightarrow> (res, s\<lparr>ld_pg := p\<rparr>))"
    by (simp add: alloc_mem_def on_frames_def on_paging_def alloc_one_def split: prod.splits)
  show thesis
  proof (cases rule: alloc_mem_cases [OF b, of 1, case_names found failed])
    case (found a s')
    obtain q where q: "alloc_one (ld_pg s) = (Ok (frame_at a 1), q)" "s' = s\<lparr>ld_pg := q\<rparr>"
      using found(1) run by (auto split: prod.splits)
    show thesis using that [OF found(1,2) _ found(8)] costsD(2) [OF costs_alloc pool q(1)] q(2) by simp
  next
    case (failed x)
    then obtain q where "alloc_one (ld_pg s) = (Err x, q)" using run by (auto split: prod.splits)
    then show thesis using costsD(3) [OF costs_alloc pool, of _ q x] assms(2) by blast
  qed
qed

lemma map_one_page:
  assumes b: "building r s" and va: "PAGE_SIZE dvd va" "canonical_range va (va + PAGE_SIZE)" "va + PAGE_SIZE < 2 ^ 64"
    and a: "(a + 1) * PAGE_SIZE \<le> 2 ^ 39" and sp: "3 \<le> spare (ld_pg s)"
  obtains s' where "map_for_task va (frame_at a 1) fs s = (Ok (), s')" "building r s'" "spare (ld_pg s) \<le> spare (ld_pg s') + 3"
proof -
  obtain f where root: "pml4_frame (user_pt (ld_pg s)) = Some f" "frame_start_phys_addr f = r" "user_space r (ld_pg s)"
    using b by (auto simp: building_def)
  obtain res p where run: "user_map va (va + PAGE_SIZE) (a * PAGE_SIZE) WriteAccess WriteThrough False (ld_pg s) = (res, p)" by fastforce
  have al: "PAGE_SIZE dvd va + PAGE_SIZE" "PAGE_SIZE dvd a * PAGE_SIZE" "a * PAGE_SIZE + (va + PAGE_SIZE - va) \<le> 2 ^ 39" using va(1) a by simp_all
  note m = user_map_spec [OF root va(1) al(1,2) va(2) al(3) run]
  have ok: "res = Ok ()" using m(3) sp by simp
  define g where "g = frame_at a 1"
  have add: "uadd va (frame_size g) = Ok (va + PAGE_SIZE)" "frame_start_phys_addr g = a * PAGE_SIZE"
    using va(3) by (simp_all add: uadd_def frame_at_def g_def)
  have go: "map_for_task va g fs s = (Ok (), s\<lparr>ld_pg := p\<rparr>)"
    using run ok by (simp add: map_for_task_def add or_drop_def catch_def on_paging_def)
  have "uadd (a * PAGE_SIZE) (va - va) = Ok (a * PAGE_SIZE)" using a by (simp add: uadd_def)
  then have "costs 3 (user_map va (va + PAGE_SIZE) (a * PAGE_SIZE) WriteAccess WriteThrough False)"
    using page_steps_aligned [OF va(1) al(1)] unfolding user_map_def by (intro costs_then costs_free) (simp add: costs_then costs_free costs_user_map_page costs_and)
  from costsD(2) [OF this _ run] have "spare (ld_pg s) \<le> spare p + 3" using root(3) by (simp add: user_space_def)
  moreover have "building r (s\<lparr>ld_pg := p\<rparr>)" using m(2) root(1,2) by (auto simp: building_def extends_def fixed_part_def)
  ultimately show thesis using that [OF go [unfolded g_def]] by simp
qed

text \<open>A program of one page, with a stack and arguments of at most one page each.\<close>

lemma load_one_page:
  assumes b: "building r s" and seg: "segment_type ph = Load" "seg_placed e ph" "seg_pages ph = 1" and sp: "4 \<le> spare (ld_pg s)"
  obtains f here s' where "load_segment e fs ph s = (Ok (f, here), s')" "building r s'" "spare (ld_pg s) \<le> spare (ld_pg s') + 4"
proof -
  let ?va = "page_down (ph_virt_addr ph)"
  obtain a s1 where al: "alloc_mem 1 s = (Ok (frame_at a 1), s1)" "building r s1" "spare (ld_pg s) \<le> spare (ld_pg s1) + 1"
    "(a + 1) * PAGE_SIZE \<le> 2 ^ 39"
    by (rule alloc_mem_one [OF b]) (use sp in auto)
  define g where "g = frame_at a 1"
  let ?P = "ph_virt_addr ph mod PAGE_SIZE"
  let ?s2 = "s1\<lparr>ld_mem := seg_bytes e ph a (ld_mem s1)\<rparr>"
  have va: "PAGE_SIZE dvd ?va" "canonical_range ?va (?va + PAGE_SIZE)" "?va + PAGE_SIZE < 2 ^ 64"
    using seg(2,3) by (simp_all add: seg_placed_def page_down_def)
  have b2: "building r ?s2" and sp2: "3 \<le> spare (ld_pg ?s2)" using al(2,3) sp by simp_all
  obtain s' where m: "map_for_task ?va g fs ?s2 = (Ok (), s')" "building r s'" "spare (ld_pg ?s2) \<le> spare (ld_pg s') + 3"
    using map_one_page [OF b2 va al(4) sp2] unfolding g_def by blast
  have start: "frame_start_phys_addr g = a * PAGE_SIZE" "frame_size g = PAGE_SIZE" by (simp_all add: g_def frame_at_def)
  have "a * PAGE_SIZE + ?P < 2 ^ 64" using al(4) by (simp add: add_mult_distrib)
  then have add: "uadd (frame_start_phys_addr g) ?P = Ok (a * PAGE_SIZE + ?P)" by (simp add: uadd_def start(1))
  have "ph_virt_addr ph + ph_mem_size ph < 2 ^ 64"
    using seg_fits [of ph] page_down_add [of "ph_virt_addr ph"] va(3) seg(3) by linarith
  then have "uadd (ph_virt_addr ph) (ph_mem_size ph) = Ok (ph_virt_addr ph + ph_mem_size ph)" by (simp add: uadd_def)
  then have here: "holds_entry (eh_entry_point (elf_header e)) ph =
      Ok (ph_virt_addr ph \<le> eh_entry_point (elf_header e) \<and> eh_entry_point (elf_header e) < ph_virt_addr ph + ph_mem_size ph)"
    by (simp add: holds_entry_def)
  let ?here = "ph_virt_addr ph \<le> eh_entry_point (elf_header e) \<and> eh_entry_point (elf_header e) < ph_virt_addr ph + ph_mem_size ph"
  have "load_segment e fs ph s = (Ok (g, ?here), s')"
    using al(1) m(1) here add start pages_needed_ok [OF seg(2)] data_found [OF seg(1,2)] seg(3) unfolding g_def [symmetric]
    by (cases "ph_file_size ph = 0")
      (simp_all add: load_segment_def or_drop_def catch_def bind_act_def zero_out_def copy_bytes_def seg_bytes_def Let_def page_down_def)
  then show thesis using that m(2,3) al(3) by simp
qed

lemma identity_page:
  assumes "(a + 1) * PAGE_SIZE \<le> 2 ^ 39"
  shows "PAGE_SIZE dvd a * PAGE_SIZE" "canonical_range (a * PAGE_SIZE) (a * PAGE_SIZE + PAGE_SIZE)" "a * PAGE_SIZE + PAGE_SIZE < 2 ^ 64"
  using assms by (simp_all add: canonical_range_def)

lemma stack_one_page:
  assumes b: "building r s" and sz: "64 \<le> sz" "sz \<le> PAGE_SIZE" and sp: "4 \<le> spare (ld_pg s)"
  obtains f rsp s' where "new_stack sz ContextMode.User fs s = (Ok (Some f), s')" "stack_top sz (Some f) = Ok rsp" "building r s'"
    "spare (ld_pg s) \<le> spare (ld_pg s') + 4"
proof -
  obtain a s1 where al: "alloc_mem 1 s = (Ok (frame_at a 1), s1)" "building r s1" "spare (ld_pg s) \<le> spare (ld_pg s1) + 1"
    "(a + 1) * PAGE_SIZE \<le> 2 ^ 39"
    by (rule alloc_mem_one [OF b]) (use sp in auto)
  define g where "g = frame_at a 1"
  have sp1: "3 \<le> spare (ld_pg s1)" using al(3) sp by simp
  obtain s' where m: "map_for_task (a * PAGE_SIZE) g fs s1 = (Ok (), s')" "building r s'" "spare (ld_pg s1) \<le> spare (ld_pg s') + 3"
    using map_one_page [OF al(2) identity_page [OF al(4)] al(4) sp1] unfolding g_def by blast
  have start: "frame_start_phys_addr g = a * PAGE_SIZE" by (simp add: g_def frame_at_def)
  have "(sz + (PAGE_SIZE - 1)) div PAGE_SIZE = 1" using sz by (intro div_nat_eqI) simp_all
  then have n: "max ((sz + (PAGE_SIZE - 1)) div PAGE_SIZE) 1 = 1" by simp
  have "new_stack sz ContextMode.User fs s = (Ok (Some g), s')"
    using al(1) m(1) sz(1) start n unfolding g_def [symmetric] new_stack_def by (simp add: or_drop_def catch_def)
  moreover obtain rsp where "stack_top sz (Some g) = Ok rsp" using stack_top_ok [OF al(4) sz(1)] sz(2) unfolding g_def by auto
  ultimately show thesis using that m(2,3) al(3) by simp
qed

lemma args_one_page:
  assumes b: "building r s" and as: "\<forall>a\<in>set as. CHR 0x00 \<notin> set a" "length (args_bytes as) + args_offset as \<le> PAGE_SIZE" and sp: "4 \<le> spare (ld_pg s)"
  obtains f s' where "new_args (Some as) ContextMode.User fs s = (Ok (Some f, length as, frame_start_phys_addr f), s')" "building r s'"
proof -
  obtain a s1 where al: "alloc_mem 1 s = (Ok (frame_at a 1), s1)" "building r s1" "spare (ld_pg s) \<le> spare (ld_pg s1) + 1"
    "(a + 1) * PAGE_SIZE \<le> 2 ^ 39"
    by (rule alloc_mem_one [OF b]) (use sp in auto)
  define g where "g = frame_at a 1"
  let ?s = "s1\<lparr>ld_mem := put (frame_start_phys_addr g) (replicate (frame_size g) 0) (ld_mem s1)\<rparr>"
  have b1: "building r ?s" and sp1: "3 \<le> spare (ld_pg ?s)" using al(2,3) sp by simp_all
  have start: "frame_start_phys_addr g = a * PAGE_SIZE" by (simp add: g_def frame_at_def)
  obtain s' where m: "map_for_task (a * PAGE_SIZE) g fs ?s = (Ok (), s')" "building r s'"
    using map_one_page [OF b1 identity_page [OF al(4)] al(4) sp1] unfolding g_def by blast
  have bytes: "c_args as = Ok (args_bytes as)" using as(1)
    by (induction as) (simp_all add: args_bytes_def into_cstring_bytes_with_nul_def)
  have "(length (args_bytes as) + args_offset as) div PAGE_SIZE \<le> 1" using as(2) div_le_mono [OF as(2), of PAGE_SIZE] by simp
  then have n: "max ((length (args_bytes as) + args_offset as) div PAGE_SIZE) 1 = 1" by simp
  obtain t where "new_args (Some as) ContextMode.User fs s = (Ok (Some g, length as, frame_start_phys_addr g), t)" "building r t"
    using al(1) m n bytes start unfolding g_def [symmetric] new_args_def args_offset_def [symmetric]
    by (simp add: or_drop_def catch_def Let_def zero_out_def copy_bytes_def args_offset_def [symmetric])
  then show thesis by (rule that)
qed

lemma costs_new_cloned: "costs 1 new_cloned_from_kernel"
  unfolding new_cloned_from_kernel_def user_pt_new_def
  by (intro costs_and costs_alloc costs_then costs_free) (auto simp: costs_def spare_def)

lemma small_program_starts:
  assumes pool: "pool_ok (pg_frames (ld_pg s))"
    and sh: "shared_space (kernel_pml4_phys (ld_pg s)) (tables (ld_pg s)) (free_frames (pg_frames (ld_pg s)))"
    and elf: "elf_type (elf_header e) = Executable" "header_machine (elf_header e) = X8664" "loads (program_headers e) = [ph]"
      "seg_placed e ph" "seg_pages ph = 1"
    and as: "as \<noteq> []" "\<forall>a\<in>set as. CHR 0x00 \<notin> set a" "length (args_bytes as) + args_offset as \<le> PAGE_SIZE"
    and sz: "64 \<le> sz" "sz \<le> PAGE_SIZE" and sp: "13 \<le> spare (ld_pg s)"
  obtains name ctx res s' where "task_new sz (Some e) (Some as) ContextMode.User dwarf pipe s = (Ok (name, ctx, res), s')"
proof -
  note costs = costs_new_cloned
  obtain r1 p where new: "new_cloned_from_kernel (ld_pg s) = (r1, p)" by fastforce
  have ok: "new_cloned_from_kernel (ld_pg s) = (Ok (), p)"
    using new_cloned_run [OF pool sh] new costsD(3) [OF costs pool new] sp by auto
  then have go: "on_paging new_cloned_from_kernel s = (Ok (), s\<lparr>ld_pg := p\<rparr>)" by (simp add: on_paging_def)
  obtain r where b: "building r (s\<lparr>ld_pg := p\<rparr>)" by (rule start_building [OF pool sh go])
  have sp1: "12 \<le> spare p" using costsD(2) [OF costs pool new] sp by simp
  define s1 where "s1 = s\<lparr>ld_pg := p\<rparr>"
  have b1: "building r s1" and sp1': "12 \<le> spare (ld_pg s1)" using b sp1 by (simp_all add: s1_def)
  obtain f here s2 where seg: "load_segment e [] ph s1 = (Ok (f, here), s2)" "building r s2" "spare (ld_pg s1) \<le> spare (ld_pg s2) + 4"
    by (rule load_one_page [OF b1 loads_Load [OF elf(3)] elf(4,5)]) (use sp1' in auto)
  have load: "load_program (Some e) s1 = (Ok (if here then Some (eh_entry_point (elf_header e)) else None, [f]), s2)"
    using elf(1,2) load_segments_loads [of e "program_headers e"] elf(3) loads_Load [OF elf(3)] seg(1) by (simp add: load_program_def)
  obtain st rsp s3 where st: "new_stack sz ContextMode.User [f] s2 = (Ok (Some st), s3)" "stack_top sz (Some st) = Ok rsp" "building r s3"
    "spare (ld_pg s2) \<le> spare (ld_pg s3) + 4"
    by (rule stack_one_page [OF seg(2) sz, of "[f]"]) (use sp1' seg(3) in auto)
  have sp3: "4 \<le> spare (ld_pg s3)" using sp1' seg(3) st(4) by simp
  obtain g s4 where ar: "new_args (Some as) ContextMode.User [st, f] s3 = (Ok (Some g, length as, frame_start_phys_addr g), s4)" "building r s4"
    by (rule args_one_page [OF st(3) as(2,3) sp3])
  obtain h where h: "pml4_frame (user_pt (ld_pg s4)) = Some h" using ar(2) by (auto simp: building_def)
  obtain a0 as' where a0: "as = a0 # as'" using as(1) by (cases as) auto
  have "\<exists>v. task_finish sz (Some as) ContextMode.User dwarf pipe (if here then Some (eh_entry_point (elf_header e)) else None) [f] s2 = (Ok v, s4)"
    unfolding task_finish_def Let_def using st(1,2) ar(1) h a0 by (simp add: on_paging_def pml4_phys_addr_def)
  then obtain v where "task_new sz (Some e) (Some as) ContextMode.User dwarf pipe s = (Ok v, s4)"
    using go load by (auto simp: task_new_def s1_def)
  then show thesis using that by (cases v) auto
qed

subsection \<open>A small machine and a small program\<close>

definition small_pool :: BitmapMemoryManager where
  "small_pool = \<lparr>bitmap_phys_addr = Some 0, total_frame_len = 16, allocated_frame_len = 1,
     free_frame_len = 15, allocated_frame_len_in_available_mem = 1,
     total_available_mem_size = 65536, phys_mem = (\<lambda>i. if i = 0 then 1 else 0)\<rparr>"

definition small_machine :: loader where
  "small_machine = \<lparr>ld_pg = \<lparr>pg_frames = small_pool, tables = (\<lambda>_ _. 0), kernel_pml4_phys = 0x18000, cr3_reg = 0x18000,
     user_pt = \<lparr>pml4_frame = None, allocated_frames = []\<rparr>\<rparr>, ld_mem = (\<lambda>_. 0)\<rparr>"

lemma small_pool_free: "free_frames small_pool = {1..<16}"
proof -
  have "bitmap_len small_pool = 2" by (simp add: bitmap_len_def small_pool_def)
  then have "free_frames small_pool = {i. i < 16 \<and> \<not> bit (if i div 8 = 0 then 1 else 0 :: u8) (i mod 8)}"
    by (auto simp: free_frames_def frame_free_def bitmap_bit_def small_pool_def)
  also have "\<dots> = {1..<16}" by (auto simp: bit_1_iff)
  finally show ?thesis .
qed

lemma small_pool_ok: "pool_ok small_pool"
proof -
  have "bmm_inv small_pool" unfolding bmm_inv_def small_pool_free
    by (auto simp: bmm_wf_def small_pool_def bitmap_len_def)
  then show ?thesis by (simp add: pool_ok_def small_pool_def)
qed

lemma small_machine_shared:
  "shared_space (kernel_pml4_phys (ld_pg small_machine)) (tables (ld_pg small_machine)) (free_frames (pg_frames (ld_pg small_machine)))"
proof -
  have none: "follow (\<lambda>_ _. 0) k q = (if q = [] then Some k else None)" for k q by (cases q) (simp_all add: lookup_step_def)
  show ?thesis by (simp add: shared_space_def small_machine_def small_pool_free none)
qed

text \<open>An executable of one segment with \<open>n\<close> bytes in the file and 8 in memory, linked at the address of the user programs.\<close>

definition small_image :: "u8 list \<Rightarrow> u8 list" where
  "small_image n =
     [0x7f, 0x45, 0x4c, 0x46, 2, 1, 1, 0, 0, 0, 0, 0, 0, 0, 0, 0,
      2, 0, 0x3e, 0, 1, 0, 0, 0, 0, 0, 0, 0, 0, 0x80, 0xff, 0xff,
      64, 0, 0, 0, 0, 0, 0, 0, 0, 0, 0, 0, 0, 0, 0, 0,
      0, 0, 0, 0, 64, 0, 56, 0, 1, 0, 64, 0, 0, 0, 0, 0,
      1, 0, 0, 0, 5, 0, 0, 0, 120, 0, 0, 0, 0, 0, 0, 0,
      0, 0, 0, 0, 0, 0x80, 0xff, 0xff, 0, 0, 0, 0, 0, 0x80, 0xff, 0xff] @
     n @ [0, 0, 0, 0, 0, 0, 8, 0, 0, 0, 0, 0, 0, 0, 0, 16, 0, 0, 0, 0, 0, 0]"

definition small_elf :: "u8 list \<Rightarrow> Elf64" where
  "small_elf n = \<lparr>elf_mem = (\<lambda>i. if i < 120 then small_image n ! i else 0xab), elf_len = 8192\<rparr>"

lemma small_image_bytes:
  assumes "length n = 2" and "a + k \<le> 120"
  shows "read_bytes (elf_mem (small_elf n)) a k = take k (drop a (small_image n))"
  by (rule nth_equalityI) (use assms in \<open>auto simp: small_elf_def read_bytes_def small_image_def\<close>)

lemma small_elf_fields:
  assumes n: "length n = 2"
  shows "elf_type (elf_header (small_elf n)) = Executable" "header_machine (elf_header (small_elf n)) = X8664"
    "eh_entry_point (elf_header (small_elf n)) = 0xffff800000000000"
    "program_headers (small_elf n) = [\<lparr>ph_segment_type = 1, ph_flags = 5, ph_offset = 120, ph_virt_addr = 0xffff800000000000,
       ph_phys_addr = 0xffff800000000000, ph_file_size = from_le_bytes n, ph_mem_size = 8, ph_align = 4096\<rparr>]"
proof -
  obtain x y where n': "n = [x, y]" using n by (cases n; cases "tl n") auto
  note bytes = small_image_bytes [OF n]
  have ph: "eh_ph_num (elf_header (small_elf n)) = 1" "eh_ph_offset (elf_header (small_elf n)) = 64"
    by (simp_all add: elf_header_def Let_def le_at_def bytes) (simp_all add: small_image_def n')
  show "elf_type (elf_header (small_elf n)) = Executable" "header_machine (elf_header (small_elf n)) = X8664"
    "eh_entry_point (elf_header (small_elf n)) = 0xffff800000000000"
    by (simp_all add: elf_type_def header_machine_def elf_header_def Let_def le_at_def bytes)
      (simp_all add: small_image_def n' type_of_def machine_of_def)
  show "program_headers (small_elf n) = [\<lparr>ph_segment_type = 1, ph_flags = 5, ph_offset = 120, ph_virt_addr = 0xffff800000000000,
       ph_phys_addr = 0xffff800000000000, ph_file_size = from_le_bytes n, ph_mem_size = 8, ph_align = 4096\<rparr>]"
    unfolding program_headers_def ph by (simp add: program_header_at_def le_at_def bytes) (simp add: small_image_def n')
qed

lemma small_machine_task:
  obtains s1 r where "on_paging new_cloned_from_kernel small_machine = (Ok (), s1)" "building r s1" "4 \<le> spare (ld_pg s1)"
proof -
  note costs = costs_new_cloned
  have pool: "pool_ok (pg_frames (ld_pg small_machine))" "spare (ld_pg small_machine) = 15"
    using small_pool_ok by (simp_all add: small_machine_def spare_def small_pool_free)
  obtain r1 p where new: "new_cloned_from_kernel (ld_pg small_machine) = (r1, p)" by fastforce
  have "new_cloned_from_kernel (ld_pg small_machine) = (Ok (), p)"
    using new_cloned_run [OF pool(1) small_machine_shared] new costsD(3) [OF costs pool(1) new] pool(2) by auto
  then have go: "on_paging new_cloned_from_kernel small_machine = (Ok (), small_machine\<lparr>ld_pg := p\<rparr>)" by (simp add: on_paging_def)
  obtain r where "building r (small_machine\<lparr>ld_pg := p\<rparr>)" by (rule start_building [OF pool(1) small_machine_shared go])
  then show thesis using that [OF go] costsD(2) [OF costs pool(1) new] pool(2) by simp
qed

subsection \<open>Properties\<close>

text \<open>C7: a task that \<open>Task::new\<close> builds can run. Through its page table it sees every loadable segment of a well-formed executable at its address: the bytes of the file
  followed by zeros; CR3 is the root of that page table, the instruction pointer the entry point, the first two arguments the number of strings and a vector of
  pointers to the strings, each followed by a zero byte; the stack pointer is aligned to 64 bytes and lies in a stack that is mapped. The kernel's own translation is what it was.\<close>

theorem new_task_sees_program:
  assumes "pool_ok (pg_frames (ld_pg s))"
    and "shared_space (kernel_pml4_phys (ld_pg s)) (tables (ld_pg s)) (free_frames (pg_frames (ld_pg s)))"
    and "\<forall>ph\<in>set (loads (program_headers e)). seg_ok e ph \<and> 2 ^ 39 \<le> page_down (ph_virt_addr ph)"
    and "apart_ranges (loads (program_headers e))" and "args_fit as" and "64 \<le> sz"
    and "task_new sz (Some e) (Some as) ContextMode.User dwarf pipe s = (Ok (name, ctx, res), s')"
  shows "task_ready e as sz ctx res s' \<and>
    (\<forall>va. lookup_pte (tables (ld_pg s')) (kernel_pml4_phys (ld_pg s)) va = lookup_pte (tables (ld_pg s)) (kernel_pml4_phys (ld_pg s)) va) \<and>
    ctx_rip ctx = word_of_nat (if \<exists>ph\<in>set (loads (program_headers e)). holds_entry (eh_entry_point (elf_header e)) ph = Ok True
       then eh_entry_point (elf_header e) else 0)"
  using task_new_ready [OF assms] by blast

theorem new_task_sees_program_witness:
  "\<exists>name ctx res s'. task_new 4096 (Some (small_elf [4, 0])) (Some [''/bin/a'', ''x'']) ContextMode.User False [] small_machine =
       (Ok (name, ctx, res), s') \<and>
     task_ready (small_elf [4, 0]) [''/bin/a'', ''x''] 4096 ctx res s' \<and> ctx_rip ctx = 0xffff800000000000 \<and>
     user_byte (unat (ctx_cr3 ctx)) s' 0xffff800000000003 = Some 0xab \<and> user_byte (unat (ctx_cr3 ctx)) s' 0xffff800000000004 = Some 0"
proof -
  let ?e = "small_elf [4, 0]" and ?as = "[''/bin/a'', ''x'']"
  let ?ph = "\<lparr>ph_segment_type = 1, ph_flags = 5, ph_offset = 120, ph_virt_addr = 0xffff800000000000,
       ph_phys_addr = 0xffff800000000000, ph_file_size = 4, ph_mem_size = 8, ph_align = 4096\<rparr>"
  have n: "length [4, 0 :: u8] = 2" by simp
  note fields = small_elf_fields [OF n]
  have loads: "loads (program_headers ?e) = [?ph]" unfolding fields(4) by (simp add: segment_type_def segment_type_of_def)
  have pages: "seg_pages ?ph = 1" "page_down (ph_virt_addr ?ph) = 0xffff800000000000" by (simp_all add: seg_pages_def page_down_def)
  then have ok: "seg_ok ?e ?ph" by (simp add: seg_ok_def seg_placed_def small_elf_def canonical_range_def)
  have pool: "pool_ok (pg_frames (ld_pg small_machine))" "13 \<le> spare (ld_pg small_machine)"
    using small_pool_ok by (simp_all add: small_machine_def spare_def small_pool_free)
  have len: "length (args_bytes ?as) + args_offset ?as \<le> PAGE_SIZE" by (simp add: args_bytes_def args_offset_def)
  then have fit: "args_fit ?as" by (simp add: args_fit_def Let_def)
  obtain name ctx res s' where run: "task_new 4096 (Some ?e) (Some ?as) ContextMode.User False [] small_machine = (Ok (name, ctx, res), s')"
    by (rule small_program_starts [where sz = 4096 and dwarf = False and pipe = "[]", OF pool(1) small_machine_shared fields(1,2) loads seg_okD(1) [OF ok] pages(1) _ _ len _ _ pool(2)]) auto
  have segs: "\<forall>ph\<in>set (loads (program_headers ?e)). seg_ok ?e ph \<and> 2 ^ 39 \<le> page_down (ph_virt_addr ph)" "apart_ranges (loads (program_headers ?e))"
    unfolding loads using ok pages(2) by simp_all
  have sz: "64 \<le> (4096 :: nat)" by simp
  note m = new_task_sees_program [OF pool(1) small_machine_shared segs fit sz run]
  have img: "segment_image (unat (ctx_cr3 ctx)) ?e ?ph s'" using m unfolding task_ready_def loads by auto
  have "holds_entry (eh_entry_point (elf_header ?e)) ?ph = Ok True" unfolding fields(3) by (simp add: holds_entry_def uadd_def)
  then have "ctx_rip ctx = 0xffff800000000000" using m unfolding loads fields(3) by simp
  moreover have "user_byte (unat (ctx_cr3 ctx)) s' 0xffff800000000003 = Some 0xab" "user_byte (unat (ctx_cr3 ctx)) s' 0xffff800000000004 = Some 0"
    using img [unfolded segment_image_def, rule_format, of 3] img [unfolded segment_image_def, rule_format, of 4] by (simp_all add: small_elf_def)
  ultimately show ?thesis using run m by blast
qed

text \<open>C8: once a segment of the program is loaded, \<open>Task::new\<close> no longer returns an error: when memory runs out, or anything else fails, the frames it
  holds are dropped without having been deallocated and the kernel panics.\<close>

theorem failed_load_panics:
  assumes elf: "elf_type (elf_header e) = Executable" "header_machine (elf_header e) = X8664" "loads (program_headers e) = ph # phs"
    and new: "on_paging new_cloned_from_kernel s = (Ok (), s1)" and b: "building r s1"
    and one: "load_segment e [] ph s1 = (Ok (f, here), s2)"
    and run: "task_new sz (Some e) args ContextMode.User dwarf pipe s = (res, s')"
  shows "\<forall>x. res \<noteq> Err x"
proof (intro allI notI)
  fix x assume "res = Err x"
  let ?entry = "if here then Some (eh_entry_point (elf_header e)) else None"
  have load: "load_program (Some e) s1 = load_segments e (loads phs) [f] ?entry s2"
  proof -
    have "loads (ph # phs) = ph # loads phs" using loads_Load [OF elf(3)] by simp
    then show ?thesis using elf one loads_Load [OF elf(3)] load_segments_loads [of e "program_headers e"] load_segments_loads [of e phs]
      by (simp add: load_program_def)
  qed
  have live: "holds_live [f]" using load_segment_live [OF b one] by (simp add: holds_live_def)
  have "load_program (Some e) s1 \<noteq> (Err x, s')" using no_err_load_segments [OF live] load by (simp add: no_err_def)
  moreover have "task_finish sz args ContextMode.User dwarf pipe entry program s3 \<noteq> (Err x, s')"
    if p: "load_program (Some e) s1 = (Ok (entry, program), s3)" for entry program s3
  proof -
    have "set [f] \<subseteq> set program" using load_segments_keep p load by metis
    then have "holds_live program" using holds_live_mono [OF live] by blast
    from no_err_finish [OF this] show ?thesis by (simp add: no_err_def)
  qed
  ultimately have "bind_act (load_program (Some e)) (\<lambda>(entry, program). task_finish sz args ContextMode.User dwarf pipe entry program) s1 \<noteq> (Err x, s')"
    by (intro bind_no_err) (auto split: prod.splits)
  then show False using run new \<open>res = Err x\<close> by (simp add: task_new_def)
qed

theorem failed_load_panics_witness:
  "\<exists>s1 r f here s2. on_paging new_cloned_from_kernel small_machine = (Ok (), s1) \<and> building r s1 \<and>
     load_segment (small_elf [4, 0]) [] (hd (program_headers (small_elf [4, 0]))) s1 = (Ok (f, here), s2) \<and>
     (\<forall>sz args x s'. task_new sz (Some (small_elf [4, 0])) args ContextMode.User False [] small_machine \<noteq> (Err x, s'))"
proof -
  let ?e = "small_elf [4, 0]"
  let ?ph = "\<lparr>ph_segment_type = 1, ph_flags = 5, ph_offset = 120, ph_virt_addr = 0xffff800000000000,
       ph_phys_addr = 0xffff800000000000, ph_file_size = 4, ph_mem_size = 8, ph_align = 4096\<rparr>"
  have n: "length [4, 0 :: u8] = 2" by simp
  note fields = small_elf_fields [OF n]
  have loads: "loads (program_headers ?e) = [?ph]" unfolding fields(4) by (simp add: segment_type_def segment_type_of_def)
  have hd: "hd (program_headers ?e) = ?ph" unfolding fields(4) by simp
  have pages: "seg_pages ?ph = 1" "page_down (ph_virt_addr ?ph) = 0xffff800000000000" by (simp_all add: seg_pages_def page_down_def)
  then have placed: "seg_placed ?e ?ph" by (simp add: seg_placed_def small_elf_def canonical_range_def)
  obtain s1 r where s1: "on_paging new_cloned_from_kernel small_machine = (Ok (), s1)" "building r s1" "4 \<le> spare (ld_pg s1)"
    by (rule small_machine_task)
  obtain f here s2 where seg: "load_segment ?e [] ?ph s1 = (Ok (f, here), s2)"
    by (rule load_one_page [OF s1(2) loads_Load [OF loads] placed pages(1) s1(3)])
  have "task_new sz (Some ?e) args ContextMode.User False [] small_machine \<noteq> (Err x, s')" for sz args x s'
    using failed_load_panics [OF fields(1,2) loads s1(1,2) seg, of sz args False "[]"] by blast
  then show ?thesis using s1(1,2) seg hd by auto
qed



end
