(* ===== verification/Terminal.thy ===== *)
theory Terminal
  imports Vfs
begin

text \<open>
  The terminal, kernel/src/device/tty.rs. A \<open>char\<close> is its code point. \<open>Tty\<close> is the struct behind the lock; \<open>tty\<close> adds whether the lock is
  held, the flag \<open>FLAG_SIGINT\<close>, and what was sent: the bytes given to \<open>uart::send_data\<close> and the characters given to
  \<open>frame_buf_console::write_char\<close>. The buffers are rings that forget their oldest character when they are full. The interface of a ring is the
  locale \<open>char_ring\<close>; reading a line is proved against it.
\<close>

type_synonym code_point = nat

definition IO_BUF_LEN :: nat where "IO_BUF_LEN = 512"

datatype BufferType = Input | Output | ErrorOutput

record Buffer =
  ring :: "code_point list"
  ring_head :: nat
  ring_tail :: nat
  ring_full :: bool

subsection \<open>Buffers\<close>

definition buffer_default :: "nat \<Rightarrow> Buffer" where
  "buffer_default n = \<lparr>ring = replicate n 0, ring_head = 0, ring_tail = 0, ring_full = False\<rparr>"

definition buffer_push :: "code_point \<Rightarrow> Buffer \<Rightarrow> Buffer" where
  "buffer_push c b =
     (let n = length (ring b);
          h = (if ring_full b then (ring_head b + 1) mod n else ring_head b);
          t = (ring_tail b + 1) mod n
      in \<lparr>ring = (ring b)[ring_tail b := c], ring_head = h, ring_tail = t, ring_full = (t = h)\<rparr>)"

definition buffer_pop_front :: "Buffer \<Rightarrow> code_point option \<times> Buffer" where
  "buffer_pop_front b =
     (if \<not> ring_full b \<and> ring_head b = ring_tail b then (None, b)
      else (Some (ring b ! ring_head b), b\<lparr>ring_head := (ring_head b + 1) mod length (ring b), ring_full := False\<rparr>))"

definition buffer_pop_back :: "Buffer \<Rightarrow> code_point option \<times> Buffer" where
  "buffer_pop_back b =
     (if \<not> ring_full b \<and> ring_head b = ring_tail b then (None, b)
      else (let t = (ring_tail b + length (ring b) - 1) mod length (ring b) in
            (Some (ring b ! t), b\<lparr>ring_tail := t, ring_full := False\<rparr>)))"

definition buffer_len :: "Buffer \<Rightarrow> nat" where
  "buffer_len b =
     (if ring_full b then length (ring b)
      else if ring_head b \<le> ring_tail b then ring_tail b - ring_head b
      else length (ring b) + ring_tail b - ring_head b)"

definition buffer_clear :: "Buffer \<Rightarrow> Buffer" where
  "buffer_clear b = b\<lparr>ring_head := 0, ring_tail := 0, ring_full := False\<rparr>"

subsection \<open>The terminal\<close>

datatype EscState = EscNormal | Esc | EscBracket

record Tty =
  tty_info :: DeviceDriverInfo
  input_buf :: Buffer
  output_buf :: Buffer
  err_output_buf :: Buffer
  use_serial_port :: bool
  is_ready_get_line :: bool
  esc_state :: EscState

record tty = Tty +
  tty_locked :: bool
  flag_sigint :: bool
  serial :: "u8 list"
  console :: "code_point list"

definition tty_new :: "bool \<Rightarrow> Tty" where
  "tty_new use_serial =
     \<lparr>tty_info = \<lparr>driver_name = ''tty'', attached = False\<rparr>, input_buf = buffer_default IO_BUF_LEN,
      output_buf = buffer_default IO_BUF_LEN, err_output_buf = buffer_default IO_BUF_LEN, use_serial_port = use_serial,
      is_ready_get_line = False, esc_state = EscNormal\<rparr>"

fun buffer_of :: "BufferType \<Rightarrow> tty \<Rightarrow> Buffer" where
  "buffer_of Input t = input_buf t"
| "buffer_of Output t = output_buf t"
| "buffer_of ErrorOutput t = err_output_buf t"

fun set_buffer :: "BufferType \<Rightarrow> Buffer \<Rightarrow> tty \<Rightarrow> tty" where
  "set_buffer Input b t = t\<lparr>input_buf := b\<rparr>"
| "set_buffer Output b t = t\<lparr>output_buf := b\<rparr>"
| "set_buffer ErrorOutput b t = t\<lparr>err_output_buf := b\<rparr>"

abbreviation erases :: "code_point \<Rightarrow> bool" where "erases c \<equiv> c = 0x08 \<or> c = 0x7f"

definition send_serial :: "code_point \<Rightarrow> u8 list" where
  "send_serial c =
     (let d = (if erases c then 0x08 else word_of_nat c :: u8) in if d = 0x08 then [d, 0x20, d] else [d])"

definition tty_write :: "code_point \<Rightarrow> BufferType \<Rightarrow> tty \<Rightarrow> tty" where
  "tty_write c ty t =
     (let b = buffer_of ty t;
          t1 = set_buffer ty (if erases c then snd (buffer_pop_back b) else buffer_push c b) t
      in if ty = Input then t1
         else t1\<lparr>serial := (if use_serial_port t1 then serial t1 @ send_serial c else serial t1), console := console t1 @ [c]\<rparr>)"

text \<open>The loop of \<open>Tty::line\<close>, with the line read so far.\<close>

partial_function (option) line_loop :: "Buffer \<Rightarrow> code_point list \<Rightarrow> (code_point list \<times> Buffer) option" where
  "line_loop b s =
     (case buffer_pop_front b of
        (Some c, b') \<Rightarrow> line_loop b' (if erases c then butlast s else s @ [c])
      | (None, b') \<Rightarrow> Some (s, b'))"

definition tty_line :: "BufferType \<Rightarrow> tty \<Rightarrow> (code_point list \<times> tty) option" where
  "tty_line ty t = map_option (\<lambda>(s, b). (s, set_buffer ty b t)) (line_loop (buffer_of ty t) [])"

definition tty_char :: "BufferType \<Rightarrow> tty \<Rightarrow> code_point option \<times> tty" where
  "tty_char ty t =
     (case buffer_pop_front (buffer_of ty t) of
        (c, b) \<Rightarrow>
          let t1 = set_buffer ty b t in
          (c, if ty = Input \<and> c = Some 0x0a then t1\<lparr>is_ready_get_line := False\<rparr> else t1))"

definition clear_input :: "tty \<Rightarrow> tty" where
  "clear_input t = t\<lparr>input_buf := buffer_clear (input_buf t), is_ready_get_line := False\<rparr>"

definition input_char :: "code_point \<Rightarrow> tty \<Rightarrow> tty" where
  "input_char c t =
     (let t1 = t\<lparr>input_buf := buffer_push c (input_buf t)\<rparr> in
      if erases c then tty_write 0x08 Output t1
      else
        let t2 = (if c = 0x0a then t1\<lparr>is_ready_get_line := True\<rparr> else t1);
            (state, echo) = (case esc_state t2 of
               EscNormal \<Rightarrow> if c = 0x1b then (Esc, False) else (EscNormal, True)
             | Esc \<Rightarrow> (if c = 0x5b then EscBracket else EscNormal, False)
             | EscBracket \<Rightarrow> (EscNormal, False));
            t3 = t2\<lparr>esc_state := state\<rparr>
        in if echo then tty_write c Output t3 else t3)"

subsection \<open>The module's functions\<close>

definition tty_try_lock :: "(tty, 'a) act \<Rightarrow> (tty, 'a) act" where
  "tty_try_lock m = (\<lambda>t. if tty_locked t then (err Locked, t) else m t)"

definition tty_print :: "code_point list \<Rightarrow> tty \<Rightarrow> tty" where
  "tty_print s t = (if tty_locked t then t else fold (\<lambda>c. tty_write c Output) s t)"

definition pub_write :: "u8 list \<Rightarrow> (tty, unit) act" where
  "pub_write bs = tty_try_lock (modify (fold (\<lambda>c. tty_write (unat c) Output) bs))"

definition pub_input :: "code_point \<Rightarrow> (tty, unit) act" where
  "pub_input c =
     (if c = 0x03 then bind_act (modify (\<lambda>t. t\<lparr>flag_sigint := True\<rparr>)) (\<lambda>_. tty_try_lock (modify clear_input))
      else let c = (if c = 0x0d then 0x0a else c) in tty_try_lock (modify (input_char c)))"

text \<open>\<open>None\<close> is a call that does not end.\<close>

definition pub_line :: "tty \<Rightarrow> (code_point list option outcome \<times> tty) option" where
  "pub_line t =
     (if tty_locked t then Some (err Locked, t)
      else if is_ready_get_line t
        then map_option (\<lambda>(s, t'). (Ok (Some s), t')) (tty_line Input (t\<lparr>is_ready_get_line := False\<rparr>))
      else Some (Ok None, t))"

definition pub_char :: "(tty, code_point option) act" where
  "pub_char = tty_try_lock (\<lambda>t. case tty_char Input t of (c, t') \<Rightarrow> (Ok c, t'))"

definition pub_input_count :: "(tty, nat) act" where
  "pub_input_count = tty_try_lock (gets (\<lambda>t. buffer_len (input_buf t)))"

text \<open>Opening, closing and reading the device file are \<open>unimplemented!()\<close>.\<close>

definition tty_open :: "(tty, unit) act" where
  "tty_open = tty_try_lock (lift_outcome Panic)"

definition tty_close :: "(tty, unit) act" where
  "tty_close = tty_try_lock (lift_outcome Panic)"

definition tty_read :: "nat \<Rightarrow> nat \<Rightarrow> (tty, u8 list) act" where
  "tty_read offset max_len = tty_try_lock (lift_outcome Panic)"

subsection \<open>Rings\<close>

definition ring_ok :: "Buffer \<Rightarrow> bool" where
  "ring_ok b \<longleftrightarrow> ring_head b < length (ring b) \<and> ring_tail b < length (ring b) \<and> (ring_full b \<longrightarrow> ring_head b = ring_tail b)"

definition contents :: "Buffer \<Rightarrow> code_point list" where
  "contents b = map (\<lambda>i. ring b ! ((ring_head b + i) mod length (ring b))) [0..<buffer_len b]"

lemma wrap_mod: "h < n \<Longrightarrow> k \<le> n \<Longrightarrow> (h + k) mod n = (if h + k < n then h + k else h + k - n)" for h k n :: nat
  by (simp add: mod_if)

lemma buffer_len_iff:
  assumes "ring_ok b" and "k \<le> length (ring b)"
  shows "buffer_len b = k \<longleftrightarrow> ring_tail b = (ring_head b + k) mod length (ring b) \<and> (ring_full b \<longleftrightarrow> k = length (ring b))"
proof -
  have h: "ring_head b < length (ring b)" "ring_tail b < length (ring b)" "ring_full b \<Longrightarrow> ring_head b = ring_tail b"
    using assms(1) by (simp_all add: ring_ok_def)
  show ?thesis unfolding buffer_len_def wrap_mod [OF h(1) assms(2)] using h assms(2) by (cases "ring_full b") (simp_all, arith+)
qed

lemma buffer_len_le: "ring_ok b \<Longrightarrow> buffer_len b \<le> length (ring b)"
  by (auto simp: ring_ok_def buffer_len_def)

lemma ring_shape:
  assumes "ring_ok b"
  shows "ring_tail b = (ring_head b + buffer_len b) mod length (ring b)" "ring_full b \<longleftrightarrow> buffer_len b = length (ring b)"
  using buffer_len_iff [OF assms buffer_len_le [OF assms], THEN iffD1, OF refl] by simp_all

lemma ring_empty_iff: "ring_ok b \<Longrightarrow> \<not> ring_full b \<and> ring_head b = ring_tail b \<longleftrightarrow> buffer_len b = 0"
  by (auto simp: ring_ok_def buffer_len_def split: if_splits)

lemma length_contents [simp]: "length (contents b) = buffer_len b"
  by (simp add: contents_def)

lemma contents_nth: "i < buffer_len b \<Longrightarrow> contents b ! i = ring b ! ((ring_head b + i) mod length (ring b))"
  by (simp add: contents_def)

lemma mod_inj_window:
  fixes h i j n :: nat
  assumes "h < n" "i < n" "j < n" "(h + i) mod n = (h + j) mod n"
  shows "i = j"
  using assms(4) wrap_mod [of h n i] wrap_mod [of h n j] assms(1-3) by (simp split: if_splits)

lemma ring_ok_push: "ring_ok b \<Longrightarrow> ring_ok (buffer_push c b)"
proof -
  assume "ring_ok b"
  moreover from this have "Suc k mod length (ring b) < length (ring b)" for k
    by (intro mod_less_divisor) (auto simp: ring_ok_def)
  ultimately show ?thesis by (simp add: ring_ok_def buffer_push_def Let_def)
qed

lemma push_len:
  assumes ok: "ring_ok b"
  shows "buffer_len (buffer_push c b) = (if ring_full b then buffer_len b else buffer_len b + 1)"
proof -
  let ?n = "length (ring b)"
  have n: "0 < ?n" "ring_head b < ?n" using ok by (auto simp: ring_ok_def)
  note sh = ring_shape [OF ok] and le = buffer_len_le [OF ok]
  have k: "(if ring_full b then buffer_len b else buffer_len b + 1) \<le> length (ring (buffer_push c b))"
    using sh le by (auto simp: buffer_push_def Let_def)
  show ?thesis
  proof (cases "ring_full b")
    case True
    have "ring_head b = ring_tail b" using ok True by (simp add: ring_ok_def)
    then show ?thesis using True sh
      by (subst buffer_len_iff [OF ring_ok_push [OF ok] k]) (auto simp: buffer_push_def Let_def)
  next
    case False
    have t: "(ring_tail b + 1) mod ?n = (ring_head b + (buffer_len b + 1)) mod ?n"
      using sh(1) by (simp add: mod_Suc_eq)
    have "(ring_head b + (buffer_len b + 1)) mod ?n = ring_head b \<longleftrightarrow> buffer_len b + 1 = ?n"
      using wrap_mod [OF n(2), of "buffer_len b + 1"] False sh le n by auto
    then show ?thesis using False t
      by (subst buffer_len_iff [OF ring_ok_push [OF ok] k]) (auto simp: buffer_push_def Let_def)
  qed
qed

lemma push_contents:
  assumes ok: "ring_ok b"
  shows "contents (buffer_push c b) = (if ring_full b then tl (contents b) else contents b) @ [c]"
proof (rule nth_equalityI)
  let ?n = "length (ring b)" and ?b = "buffer_push c b"
  let ?old = "if ring_full b then tl (contents b) else contents b"
  have n: "0 < ?n" "ring_head b < ?n" using ok by (auto simp: ring_ok_def)
  note sh = ring_shape [OF ok] and le = buffer_len_le [OF ok]
  have ht: "ring_full b \<Longrightarrow> ring_head b = ring_tail b" using ok by (simp add: ring_ok_def)
  show len: "length (contents ?b) = length (?old @ [c])" using push_len [OF ok] sh n by auto
  fix i assume "i < length (contents ?b)"
  then have i: "i < buffer_len ?b" by simp
  have shift: "(Suc h mod ?n + i) mod ?n = (h + Suc i) mod ?n" for h by (simp add: mod_add_left_eq)
  show "contents ?b ! i = (?old @ [c]) ! i"
  proof (cases "ring_full b")
    case True
    have k: "buffer_len b = ?n" "i < ?n" using True sh i push_len [OF ok] by auto
    have at: "contents ?b ! i = (ring b)[ring_tail b := c] ! ((ring_head b + Suc i) mod ?n)"
      using contents_nth [OF i] True shift [of "ring_head b"] by (simp add: buffer_push_def Let_def)
    show ?thesis
    proof (cases "Suc i = ?n")
      case True
      then have "(ring_head b + Suc i) mod ?n = ring_tail b" using n ht [OF \<open>ring_full b\<close>] by simp
      moreover have "\<not> i < ?n - 1" using True by simp
      ultimately show ?thesis using at k n ht \<open>ring_full b\<close> True by (simp add: nth_append)
    next
      case False
      have "(ring_head b + Suc i) mod ?n \<noteq> (ring_head b + 0) mod ?n"
        using mod_inj_window [OF n(2), of "Suc i" 0] False k n by auto
      then have "(ring_head b + Suc i) mod ?n \<noteq> ring_tail b" using n ht [OF \<open>ring_full b\<close>] by simp
      moreover have "i < ?n - 1" using False k by simp
      ultimately show ?thesis using at k \<open>ring_full b\<close> by (simp add: nth_append nth_tl contents_nth)
    qed
  next
    case False
    have k: "buffer_len b < ?n" "i < Suc (buffer_len b)" using False sh le i push_len [OF ok] by auto
    have at: "contents ?b ! i = (ring b)[ring_tail b := c] ! ((ring_head b + i) mod ?n)"
      using contents_nth [OF i] False by (simp add: buffer_push_def Let_def)
    show ?thesis
    proof (cases "i = buffer_len b")
      case True
      then show ?thesis using at False sh n by (simp add: nth_append)
    next
      case ne: False
      have "(ring_head b + i) mod ?n \<noteq> ring_tail b"
        using mod_inj_window [OF n(2), of i "buffer_len b"] ne k sh(1) by auto
      then show ?thesis using at ne k False by (simp add: nth_append contents_nth)
    qed
  qed
qed

lemma pop_front_empty: "ring_ok b \<Longrightarrow> contents b = [] \<Longrightarrow> buffer_pop_front b = (None, b)"
  using ring_empty_iff [of b] length_contents [of b] by (auto simp: buffer_pop_front_def)

lemma pop_front_contents:
  assumes ok: "ring_ok b" and ne: "contents b \<noteq> []"
  shows "\<exists>b'. buffer_pop_front b = (Some (hd (contents b)), b') \<and> ring_ok b' \<and> contents b' = tl (contents b) \<and> length (ring b') = length (ring b)"
proof -
  let ?n = "length (ring b)"
  let ?b = "b\<lparr>ring_head := (ring_head b + 1) mod ?n, ring_full := False\<rparr>"
  have n: "0 < ?n" "ring_head b < ?n" using ok by (auto simp: ring_ok_def)
  note sh = ring_shape [OF ok] and le = buffer_len_le [OF ok]
  have pos: "0 < buffer_len b" using ne by (metis length_contents length_greater_0_conv)
  have okb: "ring_ok ?b" using ok n by (simp add: ring_ok_def)
  have shift: "(Suc h mod ?n + i) mod ?n = (h + Suc i) mod ?n" for h i by (simp add: mod_add_left_eq)
  have len: "buffer_len ?b = buffer_len b - 1"
    using sh(1) pos le shift [of "ring_head b" "buffer_len b - 1"] n by (subst buffer_len_iff [OF okb]) auto
  have "contents ?b = tl (contents b)"
  proof (rule nth_equalityI)
    fix i assume "i < length (contents ?b)"
    then show "contents ?b ! i = tl (contents b) ! i"
      using len shift [of "ring_head b" i] by (simp add: contents_nth nth_tl)
  qed (use len in simp)
  moreover have "hd (contents b) = ring b ! ring_head b" using ne pos n by (simp add: hd_conv_nth contents_nth)
  ultimately show ?thesis using okb pos ring_empty_iff [OF ok] by (auto simp: buffer_pop_front_def)
qed

lemma pop_back_contents:
  assumes ok: "ring_ok b" and ne: "contents b \<noteq> []"
  shows "\<exists>b'. buffer_pop_back b = (Some (last (contents b)), b') \<and> ring_ok b' \<and> contents b' = butlast (contents b) \<and> length (ring b') = length (ring b)"
proof -
  let ?n = "length (ring b)"
  let ?t = "(ring_tail b + ?n - 1) mod ?n"
  let ?b = "b\<lparr>ring_tail := ?t, ring_full := False\<rparr>"
  have n: "0 < ?n" "ring_head b < ?n" "ring_tail b < ?n" using ok by (auto simp: ring_ok_def)
  note sh = ring_shape [OF ok] and le = buffer_len_le [OF ok]
  have pos: "0 < buffer_len b" using ne by (metis length_contents length_greater_0_conv)
  have okb: "ring_ok ?b" using ok n by (simp add: ring_ok_def)
  have t: "?t = (ring_head b + (buffer_len b - 1)) mod ?n"
    using sh(1) wrap_mod [OF n(2), of "buffer_len b"] wrap_mod [OF n(2), of "buffer_len b - 1"] pos le n by (auto simp: mod_if)
  have len: "buffer_len ?b = buffer_len b - 1"
    using t pos le n by (subst buffer_len_iff [OF okb]) auto
  have "contents ?b = butlast (contents b)"
  proof (rule nth_equalityI)
    fix i assume "i < length (contents ?b)"
    then show "contents ?b ! i = butlast (contents b) ! i" using len by (simp add: nth_butlast contents_nth)
  qed (use len in simp)
  moreover have "last (contents b) = ring b ! ?t" using ne pos t by (simp add: last_conv_nth contents_nth)
  ultimately show ?thesis using okb pos ring_empty_iff [OF ok] by (auto simp: buffer_pop_back_def Let_def)
qed

lemma pop_back_empty: "ring_ok b \<Longrightarrow> contents b = [] \<Longrightarrow> buffer_pop_back b = (None, b)"
  using ring_empty_iff [of b] length_contents [of b] by (auto simp: buffer_pop_back_def)

lemma default_ring: "0 < n \<Longrightarrow> ring_ok (buffer_default n) \<and> contents (buffer_default n) = [] \<and> length (ring (buffer_default n)) = n"
  by (simp add: ring_ok_def contents_def buffer_default_def buffer_len_def)

lemma clear_ring: "ring_ok b \<Longrightarrow> ring_ok (buffer_clear b) \<and> contents (buffer_clear b) = [] \<and> length (ring (buffer_clear b)) = length (ring b)"
  by (auto simp: ring_ok_def contents_def buffer_clear_def buffer_len_def)

text \<open>The interface of the rings: \<open>items\<close> are the characters from the oldest on, at most \<open>cap\<close> of them.\<close>

locale char_ring =
  fixes ok :: "'b \<Rightarrow> bool" and cap :: "'b \<Rightarrow> nat" and items :: "'b \<Rightarrow> code_point list"
    and push :: "code_point \<Rightarrow> 'b \<Rightarrow> 'b" and pop_front :: "'b \<Rightarrow> code_point option \<times> 'b"
  assumes push_ok: "ok b \<Longrightarrow> ok (push c b) \<and> cap (push c b) = cap b"
    and items_push: "ok b \<Longrightarrow> items (push c b) = (if length (items b) = cap b then tl (items b) else items b) @ [c]"
    and items_le: "ok b \<Longrightarrow> length (items b) \<le> cap b \<and> 0 < cap b"
    and pop_none: "ok b \<Longrightarrow> items b = [] \<Longrightarrow> pop_front b = (None, b)"
    and pop_some: "ok b \<Longrightarrow> items b \<noteq> [] \<Longrightarrow>
      \<exists>b'. pop_front b = (Some (hd (items b)), b') \<and> ok b' \<and> cap b' = cap b \<and> items b' = tl (items b)"
begin

text \<open>A ring keeps the last \<open>cap\<close> characters of what is pushed.\<close>

lemma items_pushes:
  "ok b \<Longrightarrow> ok (fold push cs b) \<and> cap (fold push cs b) = cap b \<and>
     items (fold push cs b) = drop (length (items b) + length cs - cap b) (items b @ cs)"
proof (induction cs arbitrary: b)
  case Nil
  then show ?case using items_le [of b] by simp
next
  case (Cons c cs)
  have ok: "ok (push c b)" "cap (push c b) = cap b" using push_ok [OF Cons.prems] by auto
  have "items (fold push cs (push c b)) = drop (length (items (push c b)) + length cs - cap b) (items (push c b) @ cs)"
    using Cons.IH [OF ok(1)] ok(2) by simp
  also have "\<dots> = drop (length (items b) + length (c # cs) - cap b) (items b @ c # cs)"
  proof (cases "length (items b) = cap b")
    case True
    then obtain x xs where "items b = x # xs" using items_le [OF Cons.prems] by (cases "items b") auto
    then show ?thesis using True items_push [OF Cons.prems, of c] by simp
  next
    case False
    then show ?thesis using items_push [OF Cons.prems, of c] items_le [OF Cons.prems] by simp
  qed
  finally show ?case using Cons.IH [OF ok(1)] ok(2) by simp
qed

end

interpretation tty_ring: char_ring ring_ok "\<lambda>b. length (ring b)" contents buffer_push buffer_pop_front
proof
  fix b c assume "ring_ok b"
  then show "ring_ok (buffer_push c b) \<and> length (ring (buffer_push c b)) = length (ring b)"
    using ring_ok_push [of b c] by (auto simp: buffer_push_def Let_def)
  show "contents (buffer_push c b) = (if length (contents b) = length (ring b) then tl (contents b) else contents b) @ [c]"
    using push_contents [OF \<open>ring_ok b\<close>] ring_shape(2) [OF \<open>ring_ok b\<close>] by simp
next
  fix b assume "ring_ok b"
  then show "length (contents b) \<le> length (ring b) \<and> 0 < length (ring b)"
    using buffer_len_le [of b] by (auto simp: ring_ok_def)
  show "contents b = [] \<Longrightarrow> buffer_pop_front b = (None, b)" by (rule pop_front_empty [OF \<open>ring_ok b\<close>])
  show "contents b \<noteq> [] \<Longrightarrow> \<exists>b'. buffer_pop_front b = (Some (hd (contents b)), b') \<and> ring_ok b' \<and>
      length (ring b') = length (ring b) \<and> contents b' = tl (contents b)"
    using pop_front_contents [OF \<open>ring_ok b\<close>] by auto
qed

subsection \<open>Reading a line\<close>

definition edit_step :: "code_point list \<Rightarrow> code_point \<Rightarrow> code_point list" where
  "edit_step s c = (if erases c then butlast s else s @ [c])"

text \<open>A line as its author means it: an erasing character takes back the one before it.\<close>

definition edited :: "code_point list \<Rightarrow> code_point list" where
  "edited cs = foldl edit_step [] cs"

lemma line_loop_reads:
  "ring_ok b \<Longrightarrow> \<exists>b'. line_loop b s = Some (foldl edit_step s (contents b), b') \<and> ring_ok b' \<and> contents b' = [] \<and>
     length (ring b') = length (ring b)"
proof (induction "contents b" arbitrary: b s)
  case Nil
  then show ?case using tty_ring.pop_none [of b] by (subst line_loop.simps) auto
next
  case (Cons c cs)
  obtain b1 where b1: "buffer_pop_front b = (Some c, b1)" "ring_ok b1" "length (ring b1) = length (ring b)" "contents b1 = cs"
    using tty_ring.pop_some [OF Cons.prems] Cons.hyps(2) by (metis list.distinct(1) list.sel(1,3))
  have "line_loop b s = line_loop b1 (edit_step s c)"
    using b1(1) by (subst line_loop.simps) (simp add: edit_step_def)
  moreover have "foldl edit_step s (contents b) = foldl edit_step (edit_step s c) cs" using Cons.hyps(2) by (metis foldl_Cons)
  ultimately show ?case using Cons.hyps(1) [OF b1(4) [symmetric] b1(2), of "edit_step s c"] b1(3,4) by simp
qed

definition tty_ok :: "tty \<Rightarrow> bool" where
  "tty_ok t \<longleftrightarrow> ring_ok (input_buf t) \<and> length (ring (input_buf t)) = IO_BUF_LEN \<and> \<not> tty_locked t"

lemma tty_write_Output [simp]:
  "input_buf (tty_write c Output t) = input_buf t" "tty_locked (tty_write c Output t) = tty_locked t"
  "is_ready_get_line (tty_write c Output t) = is_ready_get_line t"
  by (simp_all add: tty_write_def Let_def)

lemma input_char_effect [simp]:
  "input_buf (input_char c t) = buffer_push c (input_buf t)" "tty_locked (input_char c t) = tty_locked t"
  "is_ready_get_line (input_char c t) = (is_ready_get_line t \<or> c = 0x0a)"
  by (auto simp: input_char_def Let_def split: prod.split EscState.split)

definition as_newline :: "code_point \<Rightarrow> code_point" where
  "as_newline c = (if c = 0x0d then 0x0a else c)"

lemma typing:
  "tty_ok t \<Longrightarrow> 0x03 \<notin> set cs \<Longrightarrow>
   \<exists>t'. for_each cs pub_input t = (Ok (), t') \<and> tty_locked t' = tty_locked t \<and>
     input_buf t' = fold buffer_push (map as_newline cs) (input_buf t) \<and>
     (is_ready_get_line t' \<longleftrightarrow> is_ready_get_line t \<or> 0x0a \<in> set (map as_newline cs))"
proof (induction cs arbitrary: t)
  case (Cons c cs)
  have run: "pub_input c t = (Ok (), input_char (as_newline c) t)"
    using Cons.prems by (simp add: pub_input_def tty_try_lock_def tty_ok_def as_newline_def Let_def)
  have "tty_ok (input_char (as_newline c) t)"
    using Cons.prems tty_ring.push_ok [of "input_buf t" "as_newline c"] by (simp add: tty_ok_def)
  from Cons.IH [OF this] Cons.prems(2) show ?case by (auto simp: run)
qed simp

text \<open>C14: a line typed at the terminal is read as it was meant. Once a newline or a carriage return has been typed, \<open>tty::line\<close> ends and returns what
  was typed, with the carriage returns as newlines and the erased characters gone, and leaves the buffer empty; of more than 512 characters it
  returns what the last 512 give. Before that it returns nothing and changes nothing.\<close>

theorem typed_line_read:
  assumes "tty_ok t" and "contents (input_buf t) = []" and "\<not> is_ready_get_line t" and "0x03 \<notin> set cs"
  shows "\<exists>t'. for_each cs pub_input t = (Ok (), t') \<and>
    (if 0x0a \<in> set cs \<or> 0x0d \<in> set cs
     then \<exists>t''. pub_line t' = Some (Ok (Some (edited (drop (length cs - 512) (map as_newline cs)))), t'') \<and>
       contents (input_buf t'') = [] \<and> pub_line t'' = Some (Ok None, t'')
     else pub_line t' = Some (Ok None, t'))"
proof -
  obtain t' where run: "for_each cs pub_input t = (Ok (), t')" "tty_locked t' = tty_locked t"
    "input_buf t' = fold buffer_push (map as_newline cs) (input_buf t)"
    "is_ready_get_line t' \<longleftrightarrow> 0x0a \<in> set (map as_newline cs)"
    using typing [OF assms(1,4)] assms(3) by auto
  have nl: "0x0a \<in> set (map as_newline cs) \<longleftrightarrow> 0x0a \<in> set cs \<or> 0x0d \<in> set cs" by (auto simp: as_newline_def image_iff)
  have ok: "ring_ok (input_buf t)" "length (ring (input_buf t)) = 512" "\<not> tty_locked t"
    using assms(1) by (auto simp: tty_ok_def IO_BUF_LEN_def)
  have items: "ring_ok (input_buf t')" "contents (input_buf t') = drop (length cs - 512) (map as_newline cs)"
    using tty_ring.items_pushes [OF ok(1), of "map as_newline cs"] ok(2) assms(2) run(3) by auto
  obtain b where b: "line_loop (input_buf t') [] = Some (edited (contents (input_buf t')), b)" "contents b = []"
    using line_loop_reads [OF items(1), of "[]"] by (auto simp: edited_def)
  show ?thesis
  proof (intro exI [of _ t'] conjI run(1))
    show "if 0x0a \<in> set cs \<or> 0x0d \<in> set cs
     then \<exists>t''. pub_line t' = Some (Ok (Some (edited (drop (length cs - 512) (map as_newline cs)))), t'') \<and>
       contents (input_buf t'') = [] \<and> pub_line t'' = Some (Ok None, t'')
     else pub_line t' = Some (Ok None, t')"
      using run(2,4) ok(3) nl b items(2) by (simp add: pub_line_def tty_line_def)
  qed
qed

definition demo_tty :: tty where
  "demo_tty = Tty.extend (tty_new True) \<lparr>tty_locked = False, flag_sigint = False, serial = [], console = []\<rparr>"

theorem typed_line_read_witness:
  "\<exists>t' t''. for_each [0x6c, 0x78, 0x7f, 0x73, 0x0d] pub_input demo_tty = (Ok (), t') \<and>
     pub_line t' = Some (Ok (Some [0x6c, 0x73, 0x0a]), t'')"
proof -
  have "tty_ok demo_tty" "contents (input_buf demo_tty) = []" "\<not> is_ready_get_line demo_tty"
    using default_ring [of IO_BUF_LEN] by (auto simp: tty_ok_def demo_tty_def tty_new_def Tty.defs IO_BUF_LEN_def)
  from typed_line_read [OF this, of "[0x6c, 0x78, 0x7f, 0x73, 0x0d]"] show ?thesis
    by (auto simp: edited_def edit_step_def as_newline_def)
qed

end
