(* ===== verification/Syscall.thy ===== *)
theory Syscall
  imports Program_Start Network Procfs Terminal
begin

unbundle bit_operations_syntax

text \<open>
  The system calls, kernel/src/task/syscall.rs, with kernel/src/task/exec.rs and the drop of a task: the operations that join the components. The state
  \<open>sys\<close> has one field for each of them. A call of user space ends in one of five ways, \<open>call\<close>: it returns, it fails, the kernel panics, the task
  exits and does not come back (\<open>Left\<close>), or the task still waits. A call that blocks runs other tasks and interrupts
  meanwhile; what they do until the task goes on is a list of changes of the state, a parameter, and \<open>Waits\<close> is the result when the list is used up.

  Pointers of user space are virtual addresses that the code uses as they are. They are translated by the page table in CR3; an address that
  is not canonical or not mapped is a fault, whose handler ends the task with code 122 (kernel/src/arch/x86_64/idt.rs). The buffer that a call reads is read before the
  call begins. Memory that holds page tables is \<open>tables\<close>, as in the loader, and is not reached through pointers here.

  Outside the model are the DWARF reader, the bytes behind a vector on the heap, and the windows behind \<open>iomsg\<close>; they are the fields of \<open>outside\<close>.
\<close>

record 'w sys =
  sy_vfs :: "'w vfs"
  sy_sched :: TaskScheduler
  sy_loader :: loader
  sy_net :: net
  sy_tty :: tty

datatype 'a call = Returned 'a | Failed kerror | Panicked | Left | Waits

type_synonym ('w, 'a) sysc = "'w sys \<Rightarrow> 'a call \<times> 'w sys"

type_synonym 'w events = "('w sys \<Rightarrow> 'w sys) list"

record 'w outside =
  parse_dwarf :: "Elf64 \<Rightarrow> bool"
  behind :: "u8 list \<Rightarrow> mem"
  iomsg_call :: "nat \<Rightarrow> nat \<Rightarrow> nat \<Rightarrow> ('w, unit) sysc"

subsection \<open>Calls\<close>

fun of_outcome :: "'a outcome \<Rightarrow> 'a call" where
  "of_outcome (Ok x) = Returned x"
| "of_outcome (Err e) = Failed e"
| "of_outcome Panic = Panicked"

definition give :: "'a \<Rightarrow> ('w, 'a) sysc" where "give x k = (Returned x, k)"
definition failed :: "kerror \<Rightarrow> ('w, 'a) sysc" where "failed e k = (Failed e, k)"
definition panics :: "('w, 'a) sysc" where "panics k = (Panicked, k)"

definition seq :: "('w, 'a) sysc \<Rightarrow> ('a \<Rightarrow> ('w, 'b) sysc) \<Rightarrow> ('w, 'b) sysc" where
  "seq m f k =
     (case m k of
        (Returned x, k') \<Rightarrow> f x k'
      | (Failed e, k') \<Rightarrow> (Failed e, k')
      | (Panicked, k') \<Rightarrow> (Panicked, k')
      | (Left, k') \<Rightarrow> (Left, k')
      | (Waits, k') \<Rightarrow> (Waits, k'))"

text \<open>A \<open>match\<close> on a \<open>Result\<close>.\<close>

definition attempt :: "('w, 'a) sysc \<Rightarrow> (kerror + 'a \<Rightarrow> ('w, 'b) sysc) \<Rightarrow> ('w, 'b) sysc" where
  "attempt m f k =
     (case m k of
        (Returned x, k') \<Rightarrow> f (Inr x) k'
      | (Failed e, k') \<Rightarrow> f (Inl e) k'
      | (Panicked, k') \<Rightarrow> (Panicked, k')
      | (Left, k') \<Rightarrow> (Left, k')
      | (Waits, k') \<Rightarrow> (Waits, k'))"

primrec each :: "'i list \<Rightarrow> ('i \<Rightarrow> ('w, unit) sysc) \<Rightarrow> ('w, unit) sysc" where
  "each [] body = give ()"
| "each (i # is) body = seq (body i) (\<lambda>_. each is body)"

definition now :: "'a outcome \<Rightarrow> ('w, 'a) sysc" where "now r k = (of_outcome r, k)"

definition on_vfs :: "('w vfs, 'a) act \<Rightarrow> ('w, 'a) sysc" where
  "on_vfs m k = (case m (sy_vfs k) of (r, v) \<Rightarrow> (of_outcome r, k\<lparr>sy_vfs := v\<rparr>))"

definition on_sched :: "(TaskScheduler, 'a) act \<Rightarrow> ('w, 'a) sysc" where
  "on_sched m k = (case m (sy_sched k) of (r, v) \<Rightarrow> (of_outcome r, k\<lparr>sy_sched := v\<rparr>))"

definition on_loader :: "(loader, 'a) act \<Rightarrow> ('w, 'a) sysc" where
  "on_loader m k = (case m (sy_loader k) of (r, v) \<Rightarrow> (of_outcome r, k\<lparr>sy_loader := v\<rparr>))"

definition on_net :: "(net, 'a) act \<Rightarrow> ('w, 'a) sysc" where
  "on_net m k = (case m (sy_net k) of (r, v) \<Rightarrow> (of_outcome r, k\<lparr>sy_net := v\<rparr>))"

definition on_tty :: "(tty, 'a) act \<Rightarrow> ('w, 'a) sysc" where
  "on_tty m k = (case m (sy_tty k) of (r, v) \<Rightarrow> (of_outcome r, k\<lparr>sy_tty := v\<rparr>))"

subsection \<open>Tasks that go\<close>

definition close_unwrap :: "nat \<Rightarrow> ('w, unit) sysc" where
  "close_unwrap fd = attempt (on_vfs (close_file fd)) (\<lambda>r. case r of Inr _ \<Rightarrow> give () | Inl _ \<Rightarrow> panics)"

text \<open>\<open>Drop for TaskResource\<close>. Windows are removed from the window manager, which is outside the model.\<close>

definition drop_resource :: "TaskResource \<Rightarrow> ('w, unit) sysc" where
  "drop_resource r =
     seq (on_loader (on_frames (dealloc_opt (args_frame r)))) (\<lambda>_.
     seq (on_loader (on_frames (dealloc_opt (stack_frame r)))) (\<lambda>_.
     seq (on_loader (on_frames (for_each (program_frames r) dealloc_unwrap))) (\<lambda>_.
     seq (on_loader (on_frames (for_each (alloc_frames r) dealloc_unwrap))) (\<lambda>_.
     seq (each (fd_nums r) close_unwrap) (\<lambda>_.
     on_loader (on_frames (drop_page_table (page_table r))))))))"

definition drop_exited :: "Task list \<Rightarrow> ('w, unit) sysc" where
  "drop_exited ts = each ts (\<lambda>t. drop_resource (task_resource t))"

text \<open>\<open>switch_to\<close>, of which only CR3 is seen here.\<close>

definition switch_to :: "Task \<Rightarrow> ('w, unit) sysc" where
  "switch_to t = on_loader (on_paging (modify (\<lambda>p. p\<lparr>cr3_reg := unat (ctx_cr3 (task_context t))\<rparr>)))"

definition sys_sched :: "('w, unit) sysc" where
  "sys_sched k =
     (case sched (sy_sched k) of
        (old, pair, s) \<Rightarrow>
          seq (drop_exited old) (\<lambda>_. case pair of Ok (prev, nxt) \<Rightarrow> switch_to nxt | _ \<Rightarrow> panics) (k\<lparr>sy_sched := s\<rparr>))"

definition exit_task :: "i32 \<Rightarrow> ('w, 'a) sysc" where
  "exit_task code =
     seq (on_sched (exit_current code)) (\<lambda>(gone, nxt, old).
     seq (drop_exited old) (\<lambda>_.
     seq (switch_to nxt) (\<lambda>_ k. (Left, k))))"

definition check_sigint :: "('w, unit) sysc" where
  "check_sigint k =
     (let k' = k\<lparr>sy_tty := (sy_tty k)\<lparr>flag_sigint := False\<rparr>\<rparr> in
      if flag_sigint (sy_tty k) then exit_task (- 1) k' else (Returned (), k'))"

subsection \<open>Memory of user space\<close>

text \<open>The handlers of page faults and of general protection faults.\<close>

definition fault :: "('w, 'a) sysc" where
  "fault k = (if current_task (sy_sched k) = None then (Panicked, k) else exit_task 122 k)"

definition translate :: "loader \<Rightarrow> nat \<Rightarrow> nat option" where
  "translate l va = (if canonical va then calc_phys_addr (tables (ld_pg l)) (cr3_reg (ld_pg l)) va else None)"

definition read_user :: "nat \<Rightarrow> nat \<Rightarrow> ('w, u8 list) sysc" where
  "read_user va n k =
     (case those (map (\<lambda>i. translate (sy_loader k) (va + i)) [0..<n]) of
        None \<Rightarrow> fault k
      | Some ps \<Rightarrow> (Returned (map (ld_mem (sy_loader k)) ps), k))"

fun write_user :: "nat \<Rightarrow> u8 list \<Rightarrow> ('w, unit) sysc" where
  "write_user va [] k = (Returned (), k)"
| "write_user va (b # bs) k =
     (case translate (sy_loader k) va of
        None \<Rightarrow> fault k
      | Some p \<Rightarrow> write_user (va + 1) bs (k\<lparr>sy_loader := (sy_loader k)\<lparr>ld_mem := (ld_mem (sy_loader k))(p := b)\<rparr>\<rparr>))"

text \<open>\<open>from_cstring_ptr\<close>: the bytes before the first zero. No address at or above \<open>2 ^ 64\<close> is mapped, so the loop ends.\<close>

function cstring_at :: "loader \<Rightarrow> nat \<Rightarrow> u8 list option" where
  "cstring_at l va =
     (if 2 ^ 64 \<le> va then None
      else case translate l va of
          None \<Rightarrow> None
        | Some p \<Rightarrow> if ld_mem l p = 0 then Some [] else map_option (\<lambda>bs. ld_mem l p # bs) (cstring_at l (va + 1)))"
  by pat_completeness auto

termination by (relation "measure (\<lambda>(l, va). 2 ^ 64 - va)") auto

declare cstring_at.simps [simp del]

definition from_cstring_ptr :: "nat \<Rightarrow> ('w, string) sysc" where
  "from_cstring_ptr va k =
     (case cstring_at (sy_loader k) va of
        None \<Rightarrow> fault k
      | Some bs \<Rightarrow> (Returned (to_string (utf8_lossy bs)), k))"

definition le_bytes :: "nat \<Rightarrow> nat \<Rightarrow> u8 list" where
  "le_bytes n v = map (\<lambda>i. word_of_nat (v div 256 ^ i)) [0..<n]"

definition i32_at :: "u8 list \<Rightarrow> int" where
  "i32_at bs = sint (word_of_nat (from_le_bytes bs) :: 32 word)"

text \<open>The encoding of a character, and the characters of a valid string.\<close>

definition encode_utf8 :: "code_point \<Rightarrow> u8 list" where
  "encode_utf8 c =
     (if c < 0x80 then [word_of_nat c]
      else if c < 0x800 then [word_of_nat (0xc0 + c div 64), word_of_nat (0x80 + c mod 64)]
      else if c < 0x10000 then [word_of_nat (0xe0 + c div 4096), word_of_nat (0x80 + c div 64 mod 64), word_of_nat (0x80 + c mod 64)]
      else [word_of_nat (0xf0 + c div 262144), word_of_nat (0x80 + c div 4096 mod 64), word_of_nat (0x80 + c div 64 mod 64), word_of_nat (0x80 + c mod 64)])"

fun code_points :: "u8 list \<Rightarrow> code_point list" where
  "code_points [] = []"
| "code_points (b # bs) =
     (if b < 0x80 then unat b # code_points bs
      else if b < 0xe0 then (case bs of c # cs \<Rightarrow> ((unat b - 0xc0) * 64 + (unat c - 0x80)) # code_points cs | _ \<Rightarrow> [])
      else if b < 0xf0 then (case bs of c # d # ds \<Rightarrow>
          ((unat b - 0xe0) * 4096 + (unat c - 0x80) * 64 + (unat d - 0x80)) # code_points ds | _ \<Rightarrow> [])
      else (case bs of c # d # e # es \<Rightarrow>
          ((unat b - 0xf0) * 262144 + (unat c - 0x80) * 4096 + (unat d - 0x80) * 64 + (unat e - 0x80)) # code_points es | _ \<Rightarrow> []))"

text \<open>Copying a result that has to fit into the buffer.\<close>

definition copy_out :: "nat \<Rightarrow> nat \<Rightarrow> u8 list \<Rightarrow> ('w, unit) sysc" where
  "copy_out buf n bs = (if n < length bs then failed (from_error (InvalidBufferSize (length bs) n)) else write_user buf bs)"

subsection \<open>Files\<close>

text \<open>Reading standard input from a pipe waits until there are bytes or no writer is left.\<close>

primrec read_pipe_loop :: "'w events \<Rightarrow> nat \<Rightarrow> nat \<Rightarrow> nat \<Rightarrow> ('w, nat) sysc" where
  "read_pipe_loop [] fd buf n =
     seq check_sigint (\<lambda>_.
     attempt (on_vfs (read_file fd n)) (\<lambda>r. case r of
       Inr bs \<Rightarrow> seq (write_user buf bs) (\<lambda>_. give (length bs))
     | Inl e \<Rightarrow> if kind e = BufferEmpty then seq sys_sched (\<lambda>_ k. (Waits, k)) else failed e))"
| "read_pipe_loop (e # es) fd buf n =
     seq check_sigint (\<lambda>_.
     attempt (on_vfs (read_file fd n)) (\<lambda>r. case r of
       Inr bs \<Rightarrow> seq (write_user buf bs) (\<lambda>_. give (length bs))
     | Inl x \<Rightarrow> if kind x = BufferEmpty then seq sys_sched (\<lambda>_ k. read_pipe_loop es fd buf n (e k)) else failed x))"

definition next_line :: "'w sys \<Rightarrow> (code_point list option \<times> 'w sys) option" where
  "next_line k =
     map_option (\<lambda>(r, t). (case r of Ok x \<Rightarrow> x | _ \<Rightarrow> None, k\<lparr>sy_tty := t\<rparr>)) (pub_line (sy_tty k))"

primrec read_line_loop :: "'w events \<Rightarrow> ('w, code_point list) sysc" where
  "read_line_loop [] = seq check_sigint (\<lambda>_ k. case next_line k of
     None \<Rightarrow> (Waits, k) | Some (_, k') \<Rightarrow> seq sys_sched (\<lambda>_ k. (Waits, k)) k')"
| "read_line_loop (e # es) = seq check_sigint (\<lambda>_ k. case next_line k of
     None \<Rightarrow> (Waits, k)
   | Some (r, k') \<Rightarrow> seq sys_sched (\<lambda>_ k. case r of Some s \<Rightarrow> (Returned s, e k) | None \<Rightarrow> read_line_loop es (e k)) k')"

definition next_char :: "('w, code_point option) sysc" where
  "next_char = attempt (on_tty pub_char) (\<lambda>r. give (case r of Inr c \<Rightarrow> c | Inl _ \<Rightarrow> None))"

primrec read_char_loop :: "'w events \<Rightarrow> ('w, code_point) sysc" where
  "read_char_loop [] = seq check_sigint (\<lambda>_. seq next_char (\<lambda>c. case c of
     Some c \<Rightarrow> give c | None \<Rightarrow> seq sys_sched (\<lambda>_ k. (Waits, k))))"
| "read_char_loop (e # es) = seq check_sigint (\<lambda>_. seq next_char (\<lambda>c. case c of
     Some c \<Rightarrow> give c | None \<Rightarrow> seq sys_sched (\<lambda>_ k. read_char_loop es (e k))))"

definition pipe_of :: "nat \<Rightarrow> 'w sys \<Rightarrow> nat option" where
  "pipe_of i k = Option.bind (current_pipe_fd (sy_sched k)) (\<lambda>fds. fds ! i)"

definition c_line :: "code_point list \<Rightarrow> u8 list outcome" where
  "c_line s = (if 0 \<in> set s then Panic else Ok (concat (map encode_utf8 s) @ [0]))"

definition read_tty :: "'w events \<Rightarrow> nat \<Rightarrow> nat \<Rightarrow> ('w, nat) sysc" where
  "read_tty ev buf n =
     (if 1 < n then
        seq (read_line_loop ev) (\<lambda>s.
        seq (now (c_line s)) (\<lambda>bs.
        seq (copy_out buf n bs) (\<lambda>_. give (length bs))))
      else if n = 1 then seq (read_char_loop ev) (\<lambda>c. seq (write_user buf [word_of_nat c]) (\<lambda>_. give 1))
      else give 0)"

definition sys_read :: "'w events \<Rightarrow> int \<Rightarrow> nat \<Rightarrow> nat \<Rightarrow> ('w, nat) sysc" where
  "sys_read ev fd buf n =
     seq (now (fd_number_try_new fd)) (\<lambda>fd.
       if fd = 1 \<or> fd = 2 then failed (with_context NotFound ''file descriptor'')
       else if fd = 0 then (\<lambda>k. case pipe_of 0 k of Some p \<Rightarrow> read_pipe_loop ev p buf n k | None \<Rightarrow> read_tty ev buf n k)
       else attempt (on_vfs (read_file fd n)) (\<lambda>r.
         case (case r of Inr bs \<Rightarrow> Inr bs | Inl e \<Rightarrow> if kind e = BufferEmpty then Inr [] else Inl e) of
           Inl e \<Rightarrow> failed e
         | Inr bs \<Rightarrow> seq (write_user buf bs) (\<lambda>_. give (length bs))))"

definition sys_write :: "int \<Rightarrow> nat \<Rightarrow> nat \<Rightarrow> ('w, nat) sysc" where
  "sys_write fd buf n =
     seq (now (fd_number_try_new fd)) (\<lambda>fd.
       if fd = 1 \<or> fd = 2 then (\<lambda>k.
         case pipe_of 1 k of
           Some p \<Rightarrow> seq (read_user buf n) (\<lambda>bs. seq (on_vfs (write_file p bs)) (\<lambda>_. give n)) k
         | None \<Rightarrow> seq (read_user buf n) (\<lambda>bs. seq (on_tty (modify (tty_print (code_points (utf8_lossy bs))))) (\<lambda>_. give n)) k)
       else if fd = 0 then failed (with_context InvalidData ''stdin write'')
       else seq (read_user buf n) (\<lambda>bs. seq (on_vfs (write_file fd bs)) (\<lambda>_. give n)))"

definition OPEN_FLAG_CREATE :: "32 word" where "OPEN_FLAG_CREATE = 1"
definition EXEC_FLAG_DEBUG :: "32 word" where "EXEC_FLAG_DEBUG = 1"

definition as_i32 :: "nat \<Rightarrow> int" where "as_i32 n = sint (word_of_nat n :: 32 word)"

definition sys_open :: "nat \<Rightarrow> 32 word \<Rightarrow> ('w, int) sysc" where
  "sys_open filepath flags =
     seq (from_cstring_ptr filepath) (\<lambda>p.
     seq (on_vfs (open_file p (flags AND OPEN_FLAG_CREATE \<noteq> 0))) (\<lambda>fd.
     seq (on_sched (current_add_fd fd)) (\<lambda>_.
     give (as_i32 fd))))"

text \<open>A number that is no open file may be a socket.\<close>

definition close_as_socket :: "int \<Rightarrow> ('w, unit) sysc" where
  "close_as_socket fd =
     attempt (seq (now (socket_id_try_new fd)) (\<lambda>i. on_net (try_lock (close_socket i)))) (\<lambda>r.
       case r of Inr _ \<Rightarrow> give () | Inl _ \<Rightarrow> failed (with_context InvalidData ''file descriptor''))"

definition sys_close :: "int \<Rightarrow> ('w, unit) sysc" where
  "sys_close fd =
     attempt (seq (now (fd_number_try_new fd)) (\<lambda>n. seq (on_vfs (close_file n)) (\<lambda>_. give n))) (\<lambda>r.
       case r of Inr n \<Rightarrow> on_sched (current_remove_fd n) | Inl _ \<Rightarrow> close_as_socket fd)"

definition sys_stat :: "int \<Rightarrow> nat \<Rightarrow> ('w, unit) sysc" where
  "sys_stat fd buf =
     seq (now (fd_number_try_new fd)) (\<lambda>fd.
     seq (if fd = 0 then on_tty pub_input_count
          else if fd = 1 \<or> fd = 2 then give 0
          else on_vfs (\<lambda>v. (file_size fd v, v))) (\<lambda>size.
     write_user buf (le_bytes 8 size)))"

definition sys_lseek :: "int \<Rightarrow> int \<Rightarrow> nat \<Rightarrow> ('w, int) sysc" where
  "sys_lseek fd offset whence =
     seq (now (fd_number_try_new fd)) (\<lambda>fd.
     seq (if whence = 0 then give (SeekStart offset) else if whence = 1 then give (SeekCurrent offset)
          else if whence = 2 then give (SeekEnd offset) else failed (with_context InvalidData ''lseek whence'')) (\<lambda>pos.
     seq (on_vfs (seek fd pos)) (\<lambda>n. give (as_i64 n))))"

definition sys_pipe :: "nat \<Rightarrow> ('w, unit) sysc" where
  "sys_pipe pipefd =
     seq (on_vfs create_pipe) (\<lambda>(rd, wr).
     seq (write_user pipefd (le_bytes 4 rd)) (\<lambda>_.
     seq (write_user (pipefd + 4) (le_bytes 4 wr)) (\<lambda>_.
     seq (on_sched (current_add_fd rd)) (\<lambda>_. on_sched (current_add_fd wr)))))"

definition sys_getcwd :: "nat \<Rightarrow> nat \<Rightarrow> ('w, unit) sysc" where
  "sys_getcwd buf n =
     seq (on_vfs (\<lambda>v. (get_cwd_path v, v))) (\<lambda>cwd.
     seq (now (into_cstring_bytes_with_nul cwd)) (\<lambda>bs. copy_out buf n bs))"

definition sys_chdir :: "nat \<Rightarrow> ('w, unit) sysc" where
  "sys_chdir path = seq (from_cstring_ptr path) (\<lambda>p. on_vfs (chdir p))"

definition sys_getenames :: "nat \<Rightarrow> nat \<Rightarrow> nat \<Rightarrow> ('w, unit) sysc" where
  "sys_getenames path buf n =
     seq (from_cstring_ptr path) (\<lambda>p.
     seq (on_vfs (\<lambda>v. (entry_names p v, v))) (\<lambda>ns.
     seq (now (c_args ns)) (\<lambda>bs. copy_out buf n bs)))"

subsection \<open>Memory\<close>

text \<open>The page table of the current task.\<close>

definition with_page_table :: "(loader, 'a) act \<Rightarrow> ('w, 'a) sysc" where
  "with_page_table m =
     seq (on_sched (current_task_mut (\<lambda>t. (page_table (task_resource t), t)))) (\<lambda>pt.
     seq (on_loader (on_paging (modify (\<lambda>p. p\<lparr>user_pt := pt\<rparr>)))) (\<lambda>_.
     attempt (on_loader m) (\<lambda>r.
     seq (on_loader (on_paging (gets user_pt))) (\<lambda>pt'.
     seq (on_sched (upd_resource (\<lambda>res. res\<lparr>page_table := pt'\<rparr>))) (\<lambda>_.
     case r of Inr x \<Rightarrow> give x | Inl e \<Rightarrow> failed e)))))"

definition current_map_user_page :: "MemoryFrame \<Rightarrow> ('w, unit) sysc" where
  "current_map_user_page f =
     with_page_table (bind_act (lift_outcome (uadd (frame_start_phys_addr f) (frame_size f))) (\<lambda>stop.
       on_paging (user_map (frame_start_phys_addr f) stop (frame_start_phys_addr f) WriteAccess WriteThrough False)))"

definition current_unmap_user_page :: "MemoryFrame \<Rightarrow> ('w, unit) sysc" where
  "current_unmap_user_page f =
     with_page_table (bind_act (lift_outcome (uadd (frame_start_phys_addr f) (frame_size f))) (\<lambda>stop.
       on_paging (user_unmap (frame_start_phys_addr f) stop)))"

text \<open>\<open>?\<close> while a frame is held: the frame is dropped.\<close>

definition or_drop_frame :: "MemoryFrame \<Rightarrow> ('w, 'a) sysc \<Rightarrow> ('w, 'a) sysc" where
  "or_drop_frame f m = attempt m (\<lambda>r. case r of Inr x \<Rightarrow> give x | Inl e \<Rightarrow> seq (now (drop_frame f)) (\<lambda>_. failed e))"

definition sys_sbrk :: "nat \<Rightarrow> ('w, nat) sysc" where
  "sys_sbrk len =
     (if len = 0 then give 0
      else seq (now (uadd len PAGE_SIZE)) (\<lambda>n.
        seq (on_loader (alloc_mem ((n + (PAGE_SIZE - 1)) div PAGE_SIZE))) (\<lambda>f.
        seq (or_drop_frame f (current_map_user_page f)) (\<lambda>_.
        seq (on_sched (current_add_mem_frame f)) (\<lambda>_.
        give (frame_start_phys_addr f))))))"

definition sys_free :: "nat \<Rightarrow> ('w, unit) sysc" where
  "sys_free ptr =
     seq (on_sched (current_remove_mem_frame ptr)) (\<lambda>f.
     seq (or_drop_frame f (current_unmap_user_page f)) (\<lambda>_.
     on_loader (on_frames (dealloc_mem_frame f))))"

definition sys_sbrksz :: "nat \<Rightarrow> ('w, nat) sysc" where
  "sys_sbrksz target =
     seq (on_sched (current_mem_frame_size target)) (\<lambda>n. now (ok_or n (with_context NotFound ''memory frame size'')))"

subsection \<open>Tasks\<close>

definition USER_TASK_STACK_SIZE :: nat where "USER_TASK_STACK_SIZE = 1024 * 1024"

text \<open>\<open>spawn_user_task\<close> of the scheduler with \<open>Task::new\<close>.\<close>

definition spawn_program :: "Elf64 \<Rightarrow> path \<Rightarrow> string list \<Rightarrow> bool \<Rightarrow> nat option list \<Rightarrow> ('w, TaskId) sysc" where
  "spawn_program elf path args dwarf pipe =
     seq (on_sched (\<lambda>s. (ok_or (current_task_id s) (with_context NotFound ''current task''), s))) (\<lambda>_.
     seq (on_loader (task_new USER_TASK_STACK_SIZE (Some elf) (Some (path # args)) ContextMode.User dwarf pipe)) (\<lambda>(name, ctx, res).
     on_sched (spawn_user_task name ctx res)))"

definition exec_elf :: "'w outside \<Rightarrow> path \<Rightarrow> string list \<Rightarrow> bool \<Rightarrow> nat option list \<Rightarrow> ('w, TaskId) sysc" where
  "exec_elf out path args enable_debug pipe =
     seq (on_vfs (open_file path False)) (\<lambda>fd.
     seq (on_vfs (read_file fd USIZE_MAX)) (\<lambda>bs.
     seq (now (elf_new \<lparr>elf_mem = put 0 bs (behind out bs), elf_len = length bs\<rparr>)) (\<lambda>elf.
     seq (on_vfs (close_file fd)) (\<lambda>_.
     spawn_program elf path args (enable_debug \<and> parse_dwarf out elf) pipe))))"

definition try_fd :: "int \<Rightarrow> nat option" where
  "try_fd n = (case fd_number_try_new n of Ok fd \<Rightarrow> Some fd | _ \<Rightarrow> None)"

definition sys_exec :: "'w outside \<Rightarrow> nat \<Rightarrow> 32 word \<Rightarrow> nat \<Rightarrow> ('w, int) sysc" where
  "sys_exec out args flags pipefd =
     seq (from_cstring_ptr args) (\<lambda>s.
     let args = split_on (CHR '' '') s in
     seq (if pipefd = 0 then give [None, None, None]
          else seq (read_user pipefd 12) (\<lambda>bs.
            give [try_fd (i32_at (take 4 bs)), try_fd (i32_at (take 4 (drop 4 bs))), try_fd (i32_at (drop 8 bs))])) (\<lambda>pipe.
     seq (exec_elf out (hd args) (tl args) (flags AND EXEC_FLAG_DEBUG \<noteq> 0) pipe) (\<lambda>i. give (as_i32 i))))"

definition sys_exit :: "i32 \<Rightarrow> ('w, 'a) sysc" where
  "sys_exit status = exit_task status"

text \<open>\<open>pid as usize\<close> extends the sign. The task sleeps unless the child has exited already.\<close>

definition sys_wait :: "'w events \<Rightarrow> int \<Rightarrow> ('w, i32) sysc" where
  "sys_wait ev pid =
     (let child = nat (pid mod 2 ^ 64);
          collect_code = seq (on_sched (\<lambda>s. case take_exit_code child s of (c, s') \<Rightarrow> (Ok c, s'))) (\<lambda>c.
            now (ok_or c (with_context NotFound ''exit code'')))
      in seq (on_sched (sleep_waiting_for child)) (\<lambda>pair.
         case pair of
           None \<Rightarrow> collect_code
         | Some (prev, nxt) \<Rightarrow> seq (switch_to nxt) (\<lambda>_ k. case ev of [] \<Rightarrow> (Waits, k) | e # _ \<Rightarrow> collect_code (e k))))"

definition sys_getpid :: "('w, int) sysc" where
  "sys_getpid = seq (on_sched (\<lambda>s. (ok_or (current_task_id s) (with_context NotFound ''current task''), s))) (\<lambda>i. give (as_i32 i))"

text \<open>The breakpoint handler panics.\<close>

definition sys_break :: "('w, 'a) sysc" where
  "sys_break = panics"

definition sys_uname :: "nat \<Rightarrow> ('w, unit) sysc" where
  "sys_uname buf = each (zip [0..<6] [''myos'', ''nodename'', ''release'', ''0.1.0'', ''x86_64'', ''domainname''])
     (\<lambda>(i, s). write_user (buf + 64 * i) (as_bytes s))"

definition sys_uptime :: "('w, int) sysc" where
  "sys_uptime k = (Returned (as_i64 (uptime (sy_net k) mod 2 ^ 64)), k)"

subsection \<open>Sockets\<close>

record sockaddr_in =
  sin_family :: nat
  sin_port :: u16
  sin_addr :: nat

definition sockaddr_of :: "u8 list \<Rightarrow> sockaddr_in" where
  "sockaddr_of bs = \<lparr>sin_family = from_le_bytes (take 2 bs), sin_port = word_of_nat (from_le_bytes (take 2 (drop 2 bs))),
     sin_addr = from_le_bytes (take 4 (drop 4 bs))\<rparr>"

definition ipv4_of_u32 :: "nat \<Rightarrow> Ipv4Addr" where
  "ipv4_of_u32 n = Ipv4Addr (word_of_nat (n div 2 ^ 24)) (word_of_nat (n div 2 ^ 16)) (word_of_nat (n div 2 ^ 8)) (word_of_nat n)"

text \<open>The address is read before its length is asserted.\<close>

definition read_sockaddr :: "nat \<Rightarrow> nat \<Rightarrow> ('w, sockaddr_in) sysc" where
  "read_sockaddr addr addrlen =
     seq (read_user addr 16) (\<lambda>bs. if addrlen = 16 then give (sockaddr_of bs) else panics)"

abbreviation AF_INET :: nat where "AF_INET \<equiv> 1"

definition sys_socket :: "int \<Rightarrow> int \<Rightarrow> ('w, SocketId) sysc" where
  "sys_socket domain ty =
     (if domain \<noteq> 1 then failed (with_context InvalidData ''socket domain'')
      else if ty = 2 then on_net (try_lock (create_new_socket Stream))
      else if ty = 1 then on_net (try_lock (create_new_socket Dgram))
      else failed (with_context InvalidData ''socket type''))"

definition sys_bind :: "int \<Rightarrow> nat \<Rightarrow> nat \<Rightarrow> ('w, unit) sysc" where
  "sys_bind sockfd addr addrlen =
     seq (now (socket_id_try_new sockfd)) (\<lambda>i.
     seq (read_sockaddr addr addrlen) (\<lambda>a.
     if sin_family a \<noteq> AF_INET then failed (with_context InvalidData ''address family'')
     else seq (if sin_addr a = 0 then give True
               else seq (on_net (try_lock (gets my_ipv4_addr))) (\<lambda>me. give (ipv4_of_u32 (sin_addr a) = me))) (\<lambda>ok.
       if \<not> ok then failed (with_context InvalidData ''bind address'')
       else on_net (try_lock (bind_socket_v4 i (if sin_addr a = 0 then None else Some (ipv4_of_u32 (sin_addr a)))
              (if sin_port a = 0 then None else Some (sin_port a)))))))"

definition sent :: "nat \<Rightarrow> ('w, unit option) sysc \<Rightarrow> ('w, nat) sysc" where
  "sent n m = seq m (\<lambda>r. case r of None \<Rightarrow> (\<lambda>k. (Waits, k)) | Some _ \<Rightarrow> give n)"

definition sys_sendto :: "(net \<Rightarrow> net) list \<Rightarrow> int \<Rightarrow> nat \<Rightarrow> nat \<Rightarrow> nat \<Rightarrow> nat \<Rightarrow> ('w, nat) sysc" where
  "sys_sendto irqs sockfd buf len dest_addr addrlen =
     seq (now (socket_id_try_new sockfd)) (\<lambda>i.
     seq (read_user buf len) (\<lambda>bs.
     if dest_addr = 0 then sent len (on_net (pub_send_tcp_packet irqs i bs))
     else seq (read_sockaddr dest_addr addrlen) (\<lambda>a.
       sent len (on_net (pub_sendto_udp_v4 irqs i (ipv4_of_u32 (sin_addr a)) (sin_port a) bs)))))"

text \<open>Receiving from a connection waits until there are bytes or the connection is no longer established.\<close>

definition recv_step :: "SocketId \<Rightarrow> nat \<Rightarrow> nat \<Rightarrow> ('w, nat option) sysc" where
  "recv_step i buf len =
     attempt (on_net (try_lock (recv_tcp_packet i len))) (\<lambda>r. case r of
       Inr bs \<Rightarrow>
         if bs \<noteq> [] then seq (write_user buf bs) (\<lambda>_. give (Some (length bs)))
         else attempt (on_net (try_lock (is_tcp_established i))) (\<lambda>r. case r of
           Inr established \<Rightarrow> give (if established then None else Some 0)
         | Inl e \<Rightarrow> if should_retry e then give None else failed e)
     | Inl e \<Rightarrow> if should_retry e then give None else failed e)"

primrec recv_loop :: "'w events \<Rightarrow> SocketId \<Rightarrow> nat \<Rightarrow> nat \<Rightarrow> ('w, nat) sysc" where
  "recv_loop [] i buf len = seq (recv_step i buf len) (\<lambda>r. case r of Some n \<Rightarrow> give n | None \<Rightarrow> (\<lambda>k. (Waits, k)))"
| "recv_loop (e # es) i buf len =
     seq (recv_step i buf len) (\<lambda>r. case r of Some n \<Rightarrow> give n | None \<Rightarrow> (\<lambda>k. recv_loop es i buf len (e k)))"

definition sys_recvfrom :: "'w events \<Rightarrow> int \<Rightarrow> nat \<Rightarrow> nat \<Rightarrow> nat \<Rightarrow> ('w, nat) sysc" where
  "sys_recvfrom ev sockfd buf len from_addr =
     seq (now (socket_id_try_new sockfd)) (\<lambda>i.
     if from_addr = 0 then recv_loop ev i buf len
     else seq (on_net (try_lock (recvfrom_udp_v4 i len))) (\<lambda>bs. seq (write_user buf bs) (\<lambda>_. give (length bs))))"

primrec await_established :: "'w events \<Rightarrow> SocketId \<Rightarrow> ('w, unit) sysc" where
  "await_established [] i = seq (on_net (try_lock (is_tcp_established i))) (\<lambda>b.
     if b then give () else seq check_sigint (\<lambda>_ k. (Waits, k)))"
| "await_established (e # es) i = seq (on_net (try_lock (is_tcp_established i))) (\<lambda>b.
     if b then give () else seq check_sigint (\<lambda>_ k. await_established es i (e k)))"

definition sys_connect :: "(net \<Rightarrow> net) list \<Rightarrow> 'w events \<Rightarrow> int \<Rightarrow> nat \<Rightarrow> nat \<Rightarrow> ('w, unit) sysc" where
  "sys_connect irqs ev sockfd addr addrlen =
     seq (now (socket_id_try_new sockfd)) (\<lambda>i.
     seq (read_sockaddr addr addrlen) (\<lambda>a.
     if sin_family a \<noteq> AF_INET then failed (with_context InvalidData ''address family'')
     else seq (on_net (try_lock (connect_tcp_v4 i (ipv4_of_u32 (sin_addr a)) (sin_port a)))) (\<lambda>_.
       seq (sent 0 (on_net (pub_send_tcp_syn irqs i))) (\<lambda>_.
       await_established ev i))))"

definition sys_listen :: "int \<Rightarrow> ('w, unit) sysc" where
  "sys_listen sockfd = seq (now (socket_id_try_new sockfd)) (\<lambda>i. on_net (try_lock (listen_tcp_v4 i)))"

text \<open>Any error of \<open>accept_tcp_v4\<close> is taken for a connection that has not come yet.\<close>

primrec accept_loop :: "'w events \<Rightarrow> SocketId \<Rightarrow> ('w, SocketId) sysc" where
  "accept_loop [] i = seq check_sigint (\<lambda>_. attempt (on_net (try_lock (accept_tcp_v4 i))) (\<lambda>r.
     case r of Inr c \<Rightarrow> give c | Inl _ \<Rightarrow> (\<lambda>k. (Waits, k))))"
| "accept_loop (e # es) i = seq check_sigint (\<lambda>_. attempt (on_net (try_lock (accept_tcp_v4 i))) (\<lambda>r.
     case r of Inr c \<Rightarrow> give c | Inl _ \<Rightarrow> (\<lambda>k. accept_loop es i (e k))))"

definition sys_accept :: "'w events \<Rightarrow> int \<Rightarrow> ('w, SocketId) sysc" where
  "sys_accept ev sockfd = seq (now (socket_id_try_new sockfd)) (\<lambda>i. accept_loop ev i)"

subsection \<open>The dispatcher\<close>

definition answer :: "int \<Rightarrow> ('a \<Rightarrow> int) \<Rightarrow> ('w, 'a) sysc \<Rightarrow> ('w, int) sysc" where
  "answer bad f m = attempt m (\<lambda>r. give (case r of Inr x \<Rightarrow> f x | Inl _ \<Rightarrow> bad))"

abbreviation minus_one :: "('a \<Rightarrow> int) \<Rightarrow> ('w, 'a) sysc \<Rightarrow> ('w, int) sysc" where
  "minus_one \<equiv> answer (- 1)"

definition arg_i32 :: "u64 \<Rightarrow> int" where "arg_i32 a = sint (ucast a :: 32 word)"

definition syscall_handler_inner ::
  "'w outside \<Rightarrow> (net \<Rightarrow> net) list \<Rightarrow> 'w events \<Rightarrow> u64 \<Rightarrow> u64 \<Rightarrow> u64 \<Rightarrow> u64 \<Rightarrow> u64 \<Rightarrow> u64 \<Rightarrow> u64 \<Rightarrow> ('w, int) sysc" where
  "syscall_handler_inner out irqs ev num a0 a1 a2 a3 a4 a5 =
     (let n = unat (ucast num :: 32 word); u = (\<lambda>a. unat a); i = arg_i32; zero = (\<lambda>_. 0) in
      if n = 0 then minus_one as_i64 (sys_read ev (i a0) (u a1) (u a2))
      else if n = 1 then minus_one as_i64 (sys_write (i a0) (u a1) (u a2))
      else if n = 2 then minus_one (\<lambda>fd. fd) (sys_open (u a0) (ucast a1))
      else if n = 3 then minus_one zero (sys_close (i a0))
      else if n = 4 then sys_exit (ucast a0)
      else if n = 5 then minus_one as_i64 (sys_sbrk (u a0))
      else if n = 6 then minus_one zero (sys_uname (u a0))
      else if n = 7 then sys_break
      else if n = 8 then minus_one zero (sys_stat (i a0) (u a1))
      else if n = 9 then sys_uptime
      else if n = 10 then minus_one (\<lambda>pid. pid) (sys_exec out (u a0) (ucast a1) (u a2))
      else if n = 11 then minus_one zero (sys_getcwd (u a0) (u a1))
      else if n = 12 then minus_one zero (sys_chdir (u a0))
      else if n = 13 then minus_one zero (sys_free (u a0))
      else if n = 14 then minus_one sint (sys_wait ev (i a0))
      else if n = 15 then answer 0 as_i64 (sys_sbrksz (u a0))
      else if n = 16 then minus_one (\<lambda>pid. pid) sys_getpid
      else if n = 17 then minus_one zero (sys_getenames (u a0) (u a1) (u a2))
      else if n = 18 then minus_one zero (iomsg_call out (u a0) (u a1) (u a2))
      else if n = 19 then minus_one as_i64 (sys_socket (i a0) (i a1))
      else if n = 20 then minus_one zero (sys_bind (i a0) (u a1) (u a2))
      else if n = 21 then minus_one as_i64 (sys_sendto irqs (i a0) (u a1) (u a2) (u a4) (u a5))
      else if n = 22 then minus_one as_i64 (sys_recvfrom ev (i a0) (u a1) (u a2) (u a4))
      else if n = 23 then minus_one as_i64 (sys_sendto irqs (i a0) (u a1) (u a2) 0 0)
      else if n = 24 then minus_one as_i64 (sys_recvfrom ev (i a0) (u a1) (u a2) 0)
      else if n = 25 then minus_one zero (sys_connect irqs ev (i a0) (u a1) (u a2))
      else if n = 26 then minus_one zero (sys_listen (i a0))
      else if n = 27 then minus_one as_i64 (sys_accept ev (i a0))
      else if n = 28 then minus_one zero (sys_pipe (u a0))
      else if n = 29 then minus_one (\<lambda>x. x) (sys_lseek (i a0) (sint a1) (unat (ucast a2 :: 32 word)))
      else give (- 1))"

definition syscall_handler ::
  "'w outside \<Rightarrow> (net \<Rightarrow> net) list \<Rightarrow> 'w events \<Rightarrow> u64 \<Rightarrow> u64 \<Rightarrow> u64 \<Rightarrow> u64 \<Rightarrow> u64 \<Rightarrow> u64 \<Rightarrow> u64 \<Rightarrow> ('w, int) sysc" where
  "syscall_handler out irqs ev num a0 a1 a2 a3 a4 a5 =
     seq check_sigint (\<lambda>_. syscall_handler_inner out irqs ev num a0 a1 a2 a3 a4 a5)"

end
