(* ===== verification/Syscall_Files.thy ===== *)
theory Syscall_Files
  imports Syscall Vfs_Correct
begin

unbundle bit_operations_syntax

text \<open>
  Files through system calls: what a program sees of a file through its own memory, what the calls do not check, and what becomes of the
  descriptors of a task that ends.
\<close>

subsection \<open>Composing calls\<close>

named_theorems call_simps

lemma call_run [call_simps, simp]:
  "give x k = (Returned x, k)" "failed e k = (Failed e, k)" "panics k = (Panicked, k)" "now r k = (of_outcome r, k)"
  by (simp_all add: give_def failed_def panics_def now_def)

lemma seq_simps [simp]:
  "m k = (Returned x, k') \<Longrightarrow> seq m f k = f x k'"
  "m k = (Failed e, k') \<Longrightarrow> seq m f k = (Failed e, k')"
  "m k = (Panicked, k') \<Longrightarrow> seq m f k = (Panicked, k')"
  "m k = (Left, k') \<Longrightarrow> seq m f k = (Left, k')"
  "m k = (Waits, k') \<Longrightarrow> seq m f k = (Waits, k')"
  by (simp_all add: seq_def)

lemma attempt_simps [simp]:
  "m k = (Returned x, k') \<Longrightarrow> attempt m f k = f (Inr x) k'"
  "m k = (Failed e, k') \<Longrightarrow> attempt m f k = f (Inl e) k'"
  "m k = (Panicked, k') \<Longrightarrow> attempt m f k = (Panicked, k')"
  "m k = (Left, k') \<Longrightarrow> attempt m f k = (Left, k')"
  "m k = (Waits, k') \<Longrightarrow> attempt m f k = (Waits, k')"
  by (simp_all add: attempt_def)

lemma on_vfs_run: "m (sy_vfs k) = (r, v) \<Longrightarrow> on_vfs m k = (of_outcome r, k\<lparr>sy_vfs := v\<rparr>)"
  by (simp add: on_vfs_def)

lemma on_sched_run: "m (sy_sched k) = (r, v) \<Longrightarrow> on_sched m k = (of_outcome r, k\<lparr>sy_sched := v\<rparr>)"
  by (simp add: on_sched_def)

lemma on_loader_run: "m (sy_loader k) = (r, v) \<Longrightarrow> on_loader m k = (of_outcome r, k\<lparr>sy_loader := v\<rparr>)"
  by (simp add: on_loader_def)

subsection \<open>Memory of user space\<close>

text \<open>The physical addresses behind a buffer, if all of it is mapped.\<close>

definition behind_buffer :: "loader \<Rightarrow> nat \<Rightarrow> nat \<Rightarrow> nat list option" where
  "behind_buffer l va n = those (map (\<lambda>i. translate l (va + i)) [0..<n])"

definition user_bytes :: "loader \<Rightarrow> nat \<Rightarrow> nat \<Rightarrow> u8 list option" where
  "user_bytes l va n = map_option (map (ld_mem l)) (behind_buffer l va n)"

lemma translate_mem [simp]: "translate (l\<lparr>ld_mem := m\<rparr>) va = translate l va"
  by (simp add: translate_def)

lemma behind_buffer_mem [simp]: "behind_buffer (l\<lparr>ld_mem := m\<rparr>) va n = behind_buffer l va n"
  by (simp add: behind_buffer_def)

lemma behind_buffer_Suc:
  "behind_buffer l va (Suc n) =
     (case translate l va of None \<Rightarrow> None | Some p \<Rightarrow> map_option (\<lambda>ps. p # ps) (behind_buffer l (va + 1) n))"
proof -
  have "[0..<Suc n] = 0 # map Suc [0..<n]" by (simp add: map_Suc_upt upt_conv_Cons)
  then show ?thesis by (simp add: behind_buffer_def comp_def del: upt_Suc split: option.split)
qed

lemma behind_buffer_0 [simp]: "behind_buffer l va 0 = Some []"
  by (simp add: behind_buffer_def)

lemma behind_buffer_length: "behind_buffer l va n = Some ps \<Longrightarrow> length ps = n"
  by (induction n arbitrary: va ps) (auto simp: behind_buffer_Suc split: option.splits)

lemma read_user_run:
  assumes "user_bytes (sy_loader k) va n = Some bs"
  shows "read_user va n k = (Returned bs, k)"
  using assms by (auto simp: read_user_def user_bytes_def behind_buffer_def)

lemma write_user_run:
  "behind_buffer (sy_loader k) va (length bs) = Some ps \<Longrightarrow>
   write_user va bs k = (Returned (), k\<lparr>sy_loader := (sy_loader k)\<lparr>ld_mem := fold (\<lambda>(p, b) m. m(p := b)) (zip ps bs) (ld_mem (sy_loader k))\<rparr>\<rparr>)"
proof (induction bs arbitrary: va ps k)
  case (Cons b bs)
  obtain p qs where p: "translate (sy_loader k) va = Some p" "behind_buffer (sy_loader k) (va + 1) (length bs) = Some qs" "ps = p # qs"
    using Cons.prems by (auto simp: behind_buffer_Suc split: option.splits)
  show ?case using Cons.IH [of "k\<lparr>sy_loader := (sy_loader k)\<lparr>ld_mem := (ld_mem (sy_loader k))(p := b)\<rparr>\<rparr>" "va + 1" qs] p by simp
qed simp

lemma fold_updates_other: "q \<notin> set ps \<Longrightarrow> fold (\<lambda>(p, b) m. m(p := b)) (zip ps bs) m q = m q"
  by (induction ps bs arbitrary: m rule: list_induct2') auto

lemma fold_updates_at: "distinct ps \<Longrightarrow> length ps = length bs \<Longrightarrow> map (fold (\<lambda>(p, b) m. m(p := b)) (zip ps bs) m) ps = bs"
proof (induction ps arbitrary: bs m)
  case (Cons p ps)
  obtain b cs where b: "bs = b # cs" using Cons.prems(2) by (cases bs) auto
  define m1 where "m1 = m(p := b)"
  have "fold (\<lambda>(p, b) m. m(p := b)) (zip (p # ps) bs) m = fold (\<lambda>(p, b) m. m(p := b)) (zip ps cs) m1" by (simp add: b m1_def)
  moreover have "map (fold (\<lambda>(p, b) m. m(p := b)) (zip ps cs) m1) ps = cs"
    by (rule Cons.IH) (use Cons.prems b in auto)
  moreover have "fold (\<lambda>(p, b) m. m(p := b)) (zip ps cs) m1 p = b" using Cons.prems fold_updates_other [of p ps cs m1] by (simp add: m1_def)
  ultimately show ?case using b by (metis list.simps(9))
qed simp

text \<open>Writing a buffer whose bytes lie at different places.\<close>

lemma write_user_buffer:
  assumes "behind_buffer (sy_loader k) va (length bs) = Some ps" and "distinct ps"
  shows "\<exists>m. write_user va bs k = (Returned (), k\<lparr>sy_loader := (sy_loader k)\<lparr>ld_mem := m\<rparr>\<rparr>) \<and>
    map m ps = bs \<and> (\<forall>q. q \<notin> set ps \<longrightarrow> m q = ld_mem (sy_loader k) q)"
  using write_user_run [OF assms(1)] fold_updates_at [OF assms(2), of bs "ld_mem (sy_loader k)"] behind_buffer_length [OF assms(1)]
    fold_updates_other [of _ ps bs "ld_mem (sy_loader k)"] by auto

subsection \<open>Copying through a file\<close>

lemma fd_number_Ok: "fd_number_try_new (int fd) = Ok fd"
  by (simp add: fd_number_try_new_def)

lemma sys_write_file:
  assumes inv: "vfs_inv (sy_vfs k)" and op: "open_virtual (sy_vfs k) fd i (p, b)" and fd: "3 \<le> fd"
    and bs: "user_bytes (sy_loader k) buf n = Some bs" and fits: "p + n \<le> ISIZE_MAX"
  shows "\<exists>v. sys_write (int fd) buf n k = (Returned n, k\<lparr>sy_vfs := v\<rparr>) \<and> vfs_inv v \<and> open_virtual v fd i (p + n, patch b p bs)"
proof -
  have len: "length bs = n" using bs behind_buffer_length by (fastforce simp: user_bytes_def)
  obtain v where v: "write_file fd bs (sy_vfs k) = (Ok (), v)" "open_virtual v fd i (p + n, patch b p bs)"
    using write_virtual [OF inv op, of bs] fits len by auto
  have "vfs_inv v" using keepsD_eq [OF keeps_write_file inv v(1)] .
  moreover have "sys_write (int fd) buf n k = (Returned n, k\<lparr>sy_vfs := v\<rparr>)"
    using fd read_user_run [OF bs] on_vfs_run [where m = "write_file fd bs", OF v(1)]
    by (simp add: sys_write_def seq_def fd_number_Ok)
  ultimately show ?thesis using v(2) by blast
qed

lemma sys_lseek_file:
  assumes inv: "vfs_inv (sy_vfs k)" and op: "open_virtual (sy_vfs k) fd i (p, b)" and q: "q < 2 ^ 63"
  shows "\<exists>v. sys_lseek (int fd) (int q) 0 k = (Returned (int q), k\<lparr>sy_vfs := v\<rparr>) \<and> vfs_inv v \<and> open_virtual v fd i (q, b)"
proof -
  obtain v where v: "seek fd (SeekStart (int q)) (sy_vfs k) = (Ok q, v)" "open_virtual v fd i (q, b)"
    using seek_virtual [OF op, of q] by blast
  have "vfs_inv v" using keepsD_eq [OF keeps_seek inv v(1)] .
  moreover have "sys_lseek (int fd) (int q) 0 k = (Returned (int q), k\<lparr>sy_vfs := v\<rparr>)"
    using on_vfs_run [where m = "seek fd (SeekStart (int q))", OF v(1)] q
    by (simp add: sys_lseek_def seq_def fd_number_Ok as_i64_def)
  ultimately show ?thesis using v(2) by blast
qed

lemma sys_read_file:
  assumes inv: "vfs_inv (sy_vfs k)" and op: "open_virtual (sy_vfs k) fd i (p, b)" and fd: "3 \<le> fd" and n: "n \<le> USIZE_MAX"
    and ps: "behind_buffer (sy_loader k) buf (min n (length b - p)) = Some ps" "distinct ps"
  shows "\<exists>v m. sys_read ev (int fd) buf n k =
      (Returned (min n (length b - p)), k\<lparr>sy_vfs := v, sy_loader := (sy_loader k)\<lparr>ld_mem := m\<rparr>\<rparr>) \<and>
    map m ps = take n (drop p b) \<and> (\<forall>q. q \<notin> set ps \<longrightarrow> m q = ld_mem (sy_loader k) q) \<and> vfs_inv v \<and>
    open_virtual v fd i (min (min p (length b) + n) (length b), b)"
proof -
  let ?bs = "take n (drop p b)"
  have len: "length ?bs = min n (length b - p)" by simp
  obtain v where v: "read_file fd n (sy_vfs k) = (Ok ?bs, v)" "open_virtual v fd i (min (min p (length b) + n) (length b), b)"
    using read_virtual [OF inv op n] by blast
  have inv': "vfs_inv v" using keepsD_eq [OF keeps_read_file inv v(1)] .
  have ps': "behind_buffer (sy_loader (k\<lparr>sy_vfs := v\<rparr>)) buf (length ?bs) = Some ps" using ps(1) len by simp
  obtain m where m: "write_user buf ?bs (k\<lparr>sy_vfs := v\<rparr>) = (Returned (), k\<lparr>sy_vfs := v, sy_loader := (sy_loader k)\<lparr>ld_mem := m\<rparr>\<rparr>)"
      "map m ps = ?bs" "\<forall>q. q \<notin> set ps \<longrightarrow> m q = ld_mem (sy_loader k) q"
    using write_user_buffer [OF ps' ps(2)] by auto
  have "sys_read ev (int fd) buf n k = (Returned (min n (length b - p)), k\<lparr>sy_vfs := v, sy_loader := (sy_loader k)\<lparr>ld_mem := m\<rparr>\<rparr>)"
    using fd on_vfs_run [where m = "read_file fd n", OF v(1)] m(1) len
    by (simp add: sys_read_def seq_def attempt_def fd_number_Ok)
  then show ?thesis using m(2,3) inv' v(2) by blast
qed

text \<open>C12: a program can copy memory through a file. It writes a buffer to an open in-memory file, seeks back and reads into another buffer: all three calls
  succeed with the full length, the second buffer then holds what the first held, and no other byte of memory has changed.\<close>

theorem copy_through_file:
  assumes "vfs_reachable (sy_vfs k)" and "open_virtual (sy_vfs k) fd i (p, b)" and "3 \<le> fd" and "p + n \<le> ISIZE_MAX"
    and "user_bytes (sy_loader k) src n = Some bs" and "behind_buffer (sy_loader k) dst n = Some ps" and "distinct ps"
  shows "\<exists>k1 k2 k3. sys_write (int fd) src n k = (Returned n, k1) \<and> sys_lseek (int fd) (int p) 0 k1 = (Returned (int p), k2) \<and>
    sys_read ev (int fd) dst n k2 = (Returned n, k3) \<and> user_bytes (sy_loader k3) dst n = Some bs \<and>
    (\<forall>q. q \<notin> set ps \<longrightarrow> ld_mem (sy_loader k3) q = ld_mem (sy_loader k) q)"
proof -
  have inv: "vfs_inv (sy_vfs k)" by (rule vfs_reachable_inv [OF assms(1)])
  have len: "length bs = n" using assms(5) behind_buffer_length by (fastforce simp: user_bytes_def)
  obtain v1 where v1: "sys_write (int fd) src n k = (Returned n, k\<lparr>sy_vfs := v1\<rparr>)" "vfs_inv v1" "open_virtual v1 fd i (p + n, patch b p bs)"
    using sys_write_file [OF inv assms(2,3,5,4)] by blast
  let ?k1 = "k\<lparr>sy_vfs := v1\<rparr>"
  obtain v2 where v2: "sys_lseek (int fd) (int p) 0 ?k1 = (Returned (int p), ?k1\<lparr>sy_vfs := v2\<rparr>)" "vfs_inv v2" "open_virtual v2 fd i (p, patch b p bs)"
    using sys_lseek_file [of ?k1 fd i "p + n" "patch b p bs" p] v1(2,3) assms(4) by auto
  let ?k2 = "k\<lparr>sy_vfs := v2\<rparr>"
  have m: "min n (length (patch b p bs) - p) = n" using len by simp
  obtain v3 mem where v3: "sys_read ev (int fd) dst n ?k2 = (Returned n, ?k2\<lparr>sy_vfs := v3, sy_loader := (sy_loader k)\<lparr>ld_mem := mem\<rparr>\<rparr>)"
      "map mem ps = take n (drop p (patch b p bs))" "\<forall>q. q \<notin> set ps \<longrightarrow> mem q = ld_mem (sy_loader k) q"
    using sys_read_file [of ?k2 fd i p "patch b p bs" n dst ps ev] v2(2,3) assms(3,4,6,7) m by auto
  have "map mem ps = bs" using v3(2) patch_read_back [of bs p b] len by simp
  then have "user_bytes ((sy_loader k)\<lparr>ld_mem := mem\<rparr>) dst n = Some bs" using assms(6) by (simp add: user_bytes_def)
  then show ?thesis using v1(1) v2(1) v3(1,3) by auto
qed

text \<open>A page table that maps every address into the page at 0x1000, for the kernel only.\<close>

definition flat_machine :: loader where
  "flat_machine = small_machine\<lparr>ld_pg := (ld_pg small_machine)\<lparr>tables := (\<lambda>_ _. 0x1003), cr3_reg := 0x1000\<rparr>,
     ld_mem := (\<lambda>a. word_of_nat a)\<rparr>"

definition demo_sys :: "unit sys" where
  "demo_sys = \<lparr>sy_vfs = demo_open, sy_sched = demo_ready, sy_loader = flat_machine, sy_net = boot_net, sy_tty = demo_tty\<rparr>"

lemma flat_lookup: "lookup_pte (tables (ld_pg flat_machine)) 0x1000 va = Some 0x1003"
  by (simp add: flat_machine_def lookup_pte_def lookup_step_def pte_p_def entry_page_table_def pte_page_size_def)

lemma flat_translate: "va < 0x1000 \<Longrightarrow> translate flat_machine va = Some (0x1000 OR (va AND 0xfff))"
  using flat_lookup [of va]
  by (simp add: translate_def canonical_def calc_phys_addr_def pte_addr_def ADDR_MASK_def) (simp add: flat_machine_def)

theorem copy_through_file_witness:
  "\<exists>k1 k2 k3. sys_write 3 32 3 demo_sys = (Returned 3, k1) \<and> sys_lseek 3 0 0 k1 = (Returned 0, k2) \<and>
     sys_read [] 3 16 3 k2 = (Returned 3, k3) \<and> user_bytes (sy_loader k3) 16 3 = Some [32, 33, 34]"
proof -
  have src: "user_bytes (sy_loader demo_sys) 32 3 = Some [32, 33, 34]"
    by (simp add: demo_sys_def user_bytes_def behind_buffer_def flat_translate upt_rec) (simp add: flat_machine_def)
  have dst: "behind_buffer (sy_loader demo_sys) 16 3 = Some [4112, 4113, 4114]"
    by (simp add: demo_sys_def behind_buffer_def flat_translate upt_rec)
  have "vfs_reachable (sy_vfs demo_sys)" "open_virtual (sy_vfs demo_sys) 3 5 (0, [])"
    using demo_open_reachable demo_open_virtual by (simp_all add: demo_sys_def)
  from copy_through_file [OF this, of 3 32 "[32, 33, 34]" 16 "[4112, 4113, 4114]" "[]"] src dst
  show ?thesis by auto
qed

subsection \<open>What is not checked\<close>

text \<open>C13: a program can write to the kernel's memory. \<open>sys_read\<close> takes the address of the buffer as it comes: when a page is mapped for the kernel only, so that
  the program itself could not touch it, the byte that the program has put into a file is stored there all the same.\<close>

theorem kernel_memory_overwritten:
  assumes "vfs_reachable (sy_vfs k)" and "open_virtual (sy_vfs k) fd i (p, b)" and "3 \<le> fd" and "p < length b" and "canonical va"
    and "lookup_pte (tables (ld_pg (sy_loader k))) (cr3_reg (ld_pg (sy_loader k))) va = Some e" and "pte_us e = Supervisor"
  shows "\<exists>k'. sys_read ev (int fd) va 1 k = (Returned 1, k') \<and>
    ld_mem (sy_loader k') = (ld_mem (sy_loader k))(pte_addr e OR (va AND 0xfff) := b ! p)"
proof -
  let ?a = "pte_addr e OR (va AND 0xfff)"
  have "translate (sy_loader k) va = Some ?a" using assms(5,6) by (simp add: translate_def calc_phys_addr_def)
  then have one: "behind_buffer (sy_loader k) va 1 = Some [?a]" by (simp add: behind_buffer_Suc)
  have "min 1 (length b - p) = 1" using assms(4) by simp
  then obtain v m where run: "sys_read ev (int fd) va 1 k = (Returned 1, k\<lparr>sy_vfs := v, sy_loader := (sy_loader k)\<lparr>ld_mem := m\<rparr>\<rparr>)"
      "map m [?a] = take 1 (drop p b)" "\<forall>q. q \<notin> set [?a] \<longrightarrow> m q = ld_mem (sy_loader k) q"
    using sys_read_file [OF vfs_reachable_inv [OF assms(1)] assms(2,3), of 1 va "[?a]" ev] one by auto
  have "take 1 (drop p b) = [b ! p]" using assms(4) by (simp add: take_Suc_conv_app_nth)
  then have "m = (ld_mem (sy_loader k))(?a := b ! p)" using run(2,3) by auto
  then show ?thesis using run(1) by auto
qed

text \<open>The file of the demonstration state with three bytes in it.\<close>

definition demo_written :: "unit sys" where
  "demo_written = demo_sys\<lparr>sy_vfs := snd (run_ops (file_call 3) [FileWrite [7, 8, 9], FileSeek 1] demo_open)\<rparr>"

lemma demo_written_file: "vfs_reachable (sy_vfs demo_written) \<and> open_virtual (sy_vfs demo_written) 3 5 (1, [7, 8, 9])"
proof -
  let ?v1 = "snd (write_file 3 [7, 8, 9] demo_open)"
  let ?v2 = "snd (seek 3 (SeekStart 1) ?v1)"
  have inv: "vfs_inv demo_open" by (rule vfs_reachable_inv [OF demo_open_reachable])
  obtain u where u: "write_file 3 [7, 8, 9] demo_open = (Ok (), u)" "open_virtual u 3 5 (0 + length [7, 8, 9 :: u8], patch [] 0 [7, 8, 9])"
    using write_virtual [OF inv demo_open_virtual, of "[7, 8, 9]"] by auto
  obtain w where w: "seek 3 (SeekStart (int 1)) u = (Ok 1, w)" "open_virtual w 3 5 (1, patch [] 0 [7, 8, 9])"
    using seek_virtual [OF u(2), of 1] by blast
  have "patch [] 0 [7, 8, 9] = [7, 8, 9 :: u8]" by code_simp
  moreover have "sy_vfs demo_written = w" using u(1) w(1) by (simp add: demo_written_def)
  moreover have "vfs_reachable w"
  proof -
    have "quiet_step u (snd (seek 3 (SeekStart 1) u))" by (rule quiet_step.intros)
    moreover have "vfs_step demo_open (snd (write_file 3 [7, 8, 9] demo_open))" by (rule vfs_step.intros)
    ultimately show ?thesis using u(1) w(1) demo_open_reachable by (auto intro: vfs_reachable.step vfs_step.quiet)
  qed
  ultimately show ?thesis using w(2) by simp
qed

theorem kernel_memory_overwritten_witness:
  "\<exists>k'. sys_read [] 3 0x10 1 demo_written = (Returned 1, k') \<and> ld_mem (sy_loader k') 0x1010 = 8"
proof -
  have look: "lookup_pte (tables (ld_pg (sy_loader demo_written))) (cr3_reg (ld_pg (sy_loader demo_written))) 0x10 = Some 0x1003"
    using flat_lookup [of "0x10"] by (simp add: demo_written_def demo_sys_def) (simp add: flat_machine_def)
  have us: "pte_us 0x1003 = Supervisor" by (simp add: pte_us_def)
  have "(pte_addr 0x1003 OR (0x10 AND 0xfff)) = 0x1010" by (simp add: pte_addr_def ADDR_MASK_def)
  then show ?thesis
    using kernel_memory_overwritten [OF demo_written_file [THEN conjunct1] demo_written_file [THEN conjunct2] _ _ _ look us, where ev = "[]"]
    by (auto simp: canonical_def)
qed

subsection \<open>Starting what is not a program\<close>

lemma read_virtual_keeps:
  assumes "open_virtual v n i a" and "read_file n m v = (Ok bs, u)"
  shows "find_file u = find_file v \<and> world u = world v \<and> root_id u = root_id v \<and> cwd_path u = cwd_path v"
proof -
  obtain d f where d: "find (\<lambda>d. fd_num d = n) (fds v) = Some d" "fd_backing d = BackVfs i" "find_file v i = Some f" "f_ty f = VirtualFile"
    using assms(1) by (auto simp: open_virtual_def)
  then show ?thesis using assms(2)
    by (auto simp: read_file_def vfs_read_file_def file_desc_def file_ref_def read_window_def file_desc_mut_def bind_act_def find_file_def
        split: option.splits outcome.splits prod.splits)
qed

text \<open>\<open>exec_elf\<close> of a file that is no ELF image fails before the file is closed. No task owns the descriptor, so that nothing closes it later: as long as it is there the
  file can be opened neither by a program nor for another attempt.\<close>

lemma exec_leaves_file_open:
  assumes reach: "vfs_reachable (sy_vfs k)" and room: "room (sy_vfs k)"
    and path: "find_file_by_path (sy_vfs k) p = Some (ResVfs i f)" and f: "f_ty f = VirtualFile" "f_buf f = Some b"
    and closed: "\<And>d. d \<in> set (fds (sy_vfs k)) \<Longrightarrow> fd_backing d \<noteq> BackVfs i"
    and magic: "read_bytes (put 0 b (behind out b)) 0 4 \<noteq> MAGIC"
  shows "\<exists>k'. exec_elf out p args debug pipe k = (Failed (from_error (ElfError InvalidMagicNumber)), k') \<and> sy_sched k' = sy_sched k \<and>
    (\<forall>c. open_file p c (sy_vfs k') = (vfs_err (BlockingFileResource (next_fd (sy_vfs k))), sy_vfs k'))"
proof -
  let ?v = "sy_vfs k" and ?n = "next_fd (sy_vfs k)"
  let ?u = "?v\<lparr>next_fd := ?n + 1, fds := fds ?v @ [new_descriptor ?n (BackVfs i) None]\<rparr>"
  have inv: "vfs_inv ?v" by (rule vfs_reachable_inv [OF reach])
  have node: "find_file ?v i = Some f" using find_file_by_path_sound [OF inv path] by simp
  have none: "find (\<lambda>d. fd_backing d = BackVfs i) (fds ?v) = None" using closed by (auto simp: find_None_iff)
  have opened: "open_file p False ?v = (Ok ?n, ?u)"
    using path f(1) none room by (simp add: open_file_def vfs_open_file_def open_backing_def bind_act_def fd_number_new_def push_fd_def room_def)
  have reach_u: "vfs_reachable ?u"
    using vfs_reachable.step [OF reach vfs_step.quiet [OF quiet_step.opens [OF room, of p False]]] opened by simp
  have fresh: "find (\<lambda>d. fd_num d = ?n) (fds ?v) = None"
    using vfs_invD(2) [OF inv] fds_baseD(3) [of "find_file ?v" "fds ?v" ?n] by (force simp: fds_ok_def find_None_iff)
  have "open_virtual ?u ?n i (0, b)"
    using node f fresh by (simp add: open_virtual_def find_append new_descriptor_def find_file_def)
  then obtain w where w: "read_file ?n USIZE_MAX ?u = (Ok (take USIZE_MAX (drop 0 b)), w)" "open_virtual w ?n i (min (min 0 (length b) + USIZE_MAX) (length b), b)"
    using read_virtual [OF vfs_reachable_inv [OF reach_u], of ?n i 0 b USIZE_MAX] by auto
  have "length b \<le> ISIZE_MAX" by (rule open_virtual_len [OF vfs_reachable_inv [OF reach_u] \<open>open_virtual ?u ?n i (0, b)\<close>])
  then have all: "take USIZE_MAX (drop 0 b) = b" by simp
  have reach_w: "vfs_reachable w" using vfs_reachable.step [OF reach_u vfs_step.reads [of ?u ?n USIZE_MAX]] w(1) by simp
  have path_w: "find_file_by_path w p = Some (ResVfs i f)"
    using find_file_by_path_same [of w ?u p] read_virtual_keeps [OF \<open>open_virtual ?u ?n i (0, b)\<close> w(1)]
      find_file_by_path_same [of ?u ?v p] path by (simp add: find_file_def)
  obtain d where d: "d \<in> set (fds w)" "fd_num d = ?n" "fd_backing d = BackVfs i"
    using w(2) find_fd [OF vfs_reachable_inv [OF reach_w], of ?n] unfolding open_virtual_def by blast
  have "exec_elf out p args debug pipe k = (Failed (from_error (ElfError InvalidMagicNumber)), k\<lparr>sy_vfs := w\<rparr>)"
    using opened w(1) all magic
    by (simp add: exec_elf_def seq_def on_vfs_def elf_new_def header_is_valid_def elf_header_def Let_def)
  then show ?thesis using open_is_exclusive [OF reach_w path_w f(1) d(1,3)] d(2) by auto
qed

end
