(* ===== verification/Task_Memory.thy ===== *)
theory Task_Memory
  imports Scheduler "HOL-Library.Multiset"
begin

text \<open>
  Tasks and physical memory together. A frame is owned by the allocator, by a task (through its
  resources) or by the kernel code that has allocated it and not yet handed it on: \<open>held\<close> are the frames
  in the hands of running kernel code. The steps are those of the scheduler and the allocator, where
  \<open>sched\<close>, \<open>preempt_sched\<close> and \<open>exit_current\<close> drop exited tasks as the code does. The invariant says that
  all frames in use are live for the allocator, so that no two owners share a page and no drop panics.
\<close>

record kernel =
  k_sched :: TaskScheduler
  k_frames :: BitmapMemoryManager
  held :: "MemoryFrame list"

text \<open>\<open>drop(stale)\<close>: the destructors of the tasks in order.\<close>

definition drop_tasks :: "Task list \<Rightarrow> (BitmapMemoryManager, unit) act" where
  "drop_tasks ts = for_each ts (\<lambda>t. release_frames (task_resource t))"

definition task_frames :: "Task list \<Rightarrow> MemoryFrame list" where
  "task_frames ts = concat (map (\<lambda>t. resource_frames (task_resource t)) ts)"

inductive kernel_step :: "kernel \<Rightarrow> kernel \<Rightarrow> bool" where
  allocates: "alloc_multi_mem_frame n (k_frames k) = (Ok f, b) \<Longrightarrow>
    kernel_step k (k\<lparr>k_frames := b, held := f # held k\<rparr>)"
| deallocates: "held k = xs @ f # ys \<Longrightarrow> dealloc_mem_frame f (k_frames k) = (r, b) \<Longrightarrow>
    kernel_step k (k\<lparr>k_frames := b, held := xs @ ys\<rparr>)"
| starts: "next_task_id (k_sched k) + 1 < 2 ^ 64 \<Longrightarrow>
    mset (held k) = mset (resource_frames res) + mset rest \<Longrightarrow>
    spawn_user_task name ctx res (k_sched k) = (Ok i, s) \<Longrightarrow>
    kernel_step k (k\<lparr>k_sched := s, held := rest\<rparr>)"
| gives: "held k = xs @ f # ys \<Longrightarrow> current_add_mem_frame f (k_sched k) = (Ok (), s) \<Longrightarrow>
    kernel_step k (k\<lparr>k_sched := s, held := xs @ ys\<rparr>)"
| takes: "current_remove_mem_frame a (k_sched k) = (Ok f, s) \<Longrightarrow>
    kernel_step k (k\<lparr>k_sched := s, held := f # held k\<rparr>)"
| yields: "sched (k_sched k) = (old, Ok p, s) \<Longrightarrow> drop_tasks old (k_frames k) = (r, b) \<Longrightarrow>
    kernel_step k (k\<lparr>k_sched := s, k_frames := b\<rparr>)"
| interrupts: "preempt_sched i p (k_sched k) = (old, c, s) \<Longrightarrow> drop_tasks old (k_frames k) = (r, b) \<Longrightarrow>
    kernel_step k (k\<lparr>k_sched := s, k_frames := b\<rparr>)"
| ends: "exit_current code (k_sched k) = (Ok (gone, nxt, old), s) \<Longrightarrow> drop_tasks old (k_frames k) = (r, b) \<Longrightarrow>
    kernel_step k (k\<lparr>k_sched := s, k_frames := b\<rparr>)"
| sleeps: "sleep_waiting_for child (k_sched k) = (Ok p, s) \<Longrightarrow> kernel_step k (k\<lparr>k_sched := s\<rparr>)"
| collects: "take_exit_code i (k_sched k) = (c, s) \<Longrightarrow> kernel_step k (k\<lparr>k_sched := s\<rparr>)"

inductive kernel_reachable :: "kernel \<Rightarrow> bool" where
  boot: "frames_live b fs \<Longrightarrow> alloc_multi_mem_frame 1 b = (Ok f, b') \<Longrightarrow>
    res = resource_new \<lparr>pml4_frame = Some f, allocated_frames = []\<rparr> None None [] pipe \<Longrightarrow>
    sched_init name ctx res scheduler_new = (Ok (), s) \<Longrightarrow>
    kernel_reachable \<lparr>k_sched = s, k_frames = b', held = fs\<rparr>"
| step: "kernel_reachable k \<Longrightarrow> kernel_step k k' \<Longrightarrow> kernel_reachable k'"

definition kernel_frames :: "kernel \<Rightarrow> MemoryFrame list" where
  "kernel_frames k = held k @ task_frames (all_tasks (k_sched k))"

definition owned :: "kernel \<Rightarrow> bool" where
  "owned k \<longleftrightarrow> bmm_pool.live (k_frames k) (kernel_frames k)"

subsection \<open>Live frames in any order\<close>

lemma sorted_wrt_mset:
  "(\<And>x y. P x y \<Longrightarrow> P y x) \<Longrightarrow> mset xs = mset ys \<Longrightarrow> sorted_wrt P xs \<Longrightarrow> sorted_wrt P ys"
proof (induction ys arbitrary: xs)
  case (Cons y ys)
  have "y \<in> set xs" using Cons.prems(2) by (metis list.set_intros(1) set_mset_mset)
  then obtain a b where xs: "xs = a @ y # b" by (meson split_list)
  then have ab: "mset (a @ b) = mset ys" using Cons.prems(2) by simp
  have "sorted_wrt P (a @ b)" using Cons.prems(3) by (auto simp: xs sorted_wrt_append)
  then have "sorted_wrt P ys" using Cons.IH [OF Cons.prems(1) ab] by blast
  moreover have "set ys = set a \<union> set b" using ab by (metis mset_eq_setD set_append)
  then have "\<forall>z\<in>set ys. P y z" using Cons.prems(1,3) by (auto simp: xs sorted_wrt_append)
  ultimately show ?case by simp
qed simp

context frame_pool
begin

lemma live_mset:
  assumes "live s xs" and "mset xs = mset ys"
  shows "live s ys"
proof -
  have "sum_list (map (\<lambda>f. card (frames f)) xs) = sum_list (map (\<lambda>f. card (frames f)) ys)"
    using assms(2) by (metis mset_map sum_mset_sum_list)
  moreover have "sorted_wrt (\<lambda>f g. frames f \<inter> frames g = {}) ys"
    by (rule sorted_wrt_mset [OF _ assms(2)]) (use assms(1) in \<open>auto simp: live_def\<close>)
  moreover have "set xs = set ys" using assms(2) by (rule mset_eq_setD)
  ultimately show ?thesis using assms(1) by (auto simp: live_def)
qed

end

lemma drop_tasks_loop: "drop_tasks ts = for_each (task_frames ts) dealloc_unwrap"
proof (induction ts)
  case (Cons t ts)
  then show ?case by (simp add: drop_tasks_def task_frames_def release_frames_loop for_each_append_act)
qed (simp add: drop_tasks_def task_frames_def)

lemma task_frames_simps [simp]:
  "task_frames [] = []" "task_frames (t # ts) = resource_frames (task_resource t) @ task_frames ts"
  "task_frames (xs @ ys) = task_frames xs @ task_frames ys"
  by (simp_all add: task_frames_def)

lemma task_frames_resources: "map task_resource xs = map task_resource ys \<Longrightarrow> task_frames xs = task_frames ys"
proof -
  have "task_frames zs = concat (map resource_frames (map task_resource zs))" for zs
    by (simp add: task_frames_def comp_def)
  then show "map task_resource xs = map task_resource ys \<Longrightarrow> ?thesis" by metis
qed

text \<open>Dropping tasks whose frames are live gives back exactly their pages.\<close>

lemma drop_tasks_ok:
  assumes "bmm_pool.live b xs" and "mset xs = mset (task_frames ts) + mset ys"
  shows "\<exists>b'. drop_tasks ts b = (Ok (), b') \<and> bmm_pool.live b' ys \<and>
    free_frames b' = free_frames b \<union> pages_of (task_frames ts)"
  using dealloc_all_live [of b "task_frames ts" ys] bmm_pool.live_mset [OF assms(1), of "task_frames ts @ ys"] assms(2)
  by (simp add: drop_tasks_loop)


subsection \<open>The invariant\<close>

text \<open>How the scheduler's operations move resources: the tasks alive afterwards and the tasks dropped are
  those from before.\<close>

definition res_of :: "TaskScheduler \<Rightarrow> TaskResource multiset" where
  "res_of s = mset (map task_resource (all_tasks s))"

definition res_in :: "Task list \<Rightarrow> TaskResource multiset" where
  "res_in ts = mset (map task_resource ts)"

lemma frames_of_res:
  "mset (task_frames ts) = \<Sum>\<^sub># (image_mset (\<lambda>r. mset (resource_frames r)) (res_in ts))"
  by (induction ts) (simp_all add: res_in_def)

lemma pick_res: "res_of (snd (pick_next_task s)) = res_of s" "exited_tasks (snd (pick_next_task s)) = exited_tasks s"
  by (auto simp: pick_next_task_def res_of_def all_tasks_def live_tasks_def Let_def split: option.split list.split)

lemma drop_exited_res: "res_of s = res_in (exited_tasks s) + res_of (s\<lparr>exited_tasks := []\<rparr>)"
  by (simp add: res_of_def res_in_def all_tasks_def live_tasks_def)

lemma sched_res: "sched s = (old, r, t) \<Longrightarrow> res_of s = res_in old + res_of t"
  using pick_res [of s] drop_exited_res [of "snd (pick_next_task s)"]
  by (auto simp: sched_def split: prod.splits)

lemma save_res:
  "res_of (s\<lparr>current_task := map_option (\<lambda>t. t\<lparr>task_context := f t\<rparr>) (current_task s)\<rparr>) = res_of s"
  by (cases "current_task s") (simp_all add: res_of_def all_tasks_def live_tasks_def)

lemma preempt_res: "preempt_sched i p s = (old, c, t) \<Longrightarrow> res_of s = res_in old + res_of t"
proof -
  let ?s = "s\<lparr>current_task := map_option (\<lambda>t. t\<lparr>task_context := save_context i p (task_context t)\<rparr>) (current_task s)\<rparr>"
  assume "preempt_sched i p s = (old, c, t)"
  then have "old = exited_tasks (snd (pick_next_task ?s))" "t = (snd (pick_next_task ?s))\<lparr>exited_tasks := []\<rparr>"
    by (auto simp: preempt_sched_def Let_def split: prod.splits)
  then show ?thesis using pick_res [of ?s] drop_exited_res [of "snd (pick_next_task ?s)"] by (simp add: save_res)
qed

lemma run_next_res: "current_task s = None \<Longrightarrow> res_of (snd (run_next s)) = res_of s"
  by (auto simp: run_next_def res_of_def all_tasks_def live_tasks_def Let_def split: list.split)

lemma wake_res: "res_of (wake_waiter i s) = res_of s"
proof (cases "take_waiter i (sleeping_tasks s)")
  case (Some p)
  obtain w rest where p: "p = (w, rest)" by (cases p)
  then obtain xs ys where "sleeping_tasks s = xs @ w # ys" "rest = xs @ ys" using take_waiter_Some Some by blast
  then show ?thesis using Some p by (simp add: wake_waiter_def res_of_def all_tasks_def live_tasks_def)
qed (simp add: wake_waiter_def)

lemma exit_res:
  assumes "exit_current code s = (Ok (gone, nxt, old), t)"
  shows "res_of s = res_in old + res_of t"
proof -
  obtain c where c: "current_task s = Some c"
    using assms by (cases "current_task s") (auto simp: exit_current_def pick_next_task_on_exit_def)
  let ?a = "after_exit code c s"
  have none: "current_task ?a = None" using no_current_queues [of c "s\<lparr>current_task := None\<rparr>"]
    by (simp add: after_exit_def Let_def)
  have t: "t = snd (run_next (wake_waiter (task_id c) ?a))" and old: "old = exited_tasks s"
  proof -
    show "t = snd (run_next (wake_waiter (task_id c) ?a))"
      using arg_cong [OF assms, of snd] by (simp add: exit_run [OF c] bind_return_snd)
    show "old = exited_tasks s"
      using assms by (cases "run_next (wake_waiter (task_id c) ?a)"; cases "fst (run_next (wake_waiter (task_id c) ?a))")
        (auto simp: exit_run [OF c] bind_act_def)
  qed
  have "res_of t = res_of ?a" using none by (simp add: t run_next_res wake_res)
  also have "\<dots> = res_in (live_tasks ?a) + res_in (exited_tasks ?a)"
    by (simp add: res_of_def res_in_def all_tasks_def)
  also have "live_tasks ?a = live_tasks (leave_family c (s\<lparr>current_task := None\<rparr>))"
    by (simp add: after_exit_def Let_def live_tasks_def)
  also have "res_in \<dots> = res_in (live_tasks (s\<lparr>current_task := None\<rparr>))"
    unfolding res_in_def leave_queues(7) ..
  also have "res_in (exited_tasks ?a) = res_in [c]"
    by (simp add: res_in_def after_exit_def Let_def)
  finally show ?thesis
    by (simp add: old res_of_def res_in_def all_tasks_def live_tasks_def c)
qed

lemma sleep_res: "sleep_waiting_for child s = (r, t) \<Longrightarrow> res_of t = res_of s"
proof (cases "current_task s")
  case (Some e)
  assume run: "sleep_waiting_for child s = (r, t)"
  let ?s = "s\<lparr>current_task := None, sleeping_tasks := sleeping_tasks s @ [e\<lparr>waiting_for := Some child, task_state := Sleeping\<rparr>]\<rparr>"
  have "t = (if bt_contains_key (exit_codes s) child then s else snd (run_next ?s))"
    using arg_cong [OF run, of snd] Some
    by (simp add: sleep_waiting_for_def try_sleep_current_waiting_for_def sleep_current_waiting_for_def
        Let_def bind_return_snd split: if_splits)
  moreover have "res_of ?s = res_of s" using Some by (simp add: res_of_def all_tasks_def live_tasks_def)
  ultimately show ?thesis using run_next_res [of ?s] by simp
qed (auto simp: sleep_waiting_for_def try_sleep_current_waiting_for_def sleep_current_waiting_for_def
    bind_act_def split: if_splits)


definition frames_in :: "TaskResource multiset \<Rightarrow> MemoryFrame multiset" where
  "frames_in M = \<Sum>\<^sub># (image_mset (\<lambda>r. mset (resource_frames r)) M)"

lemma frames_in_simps [simp]:
  "frames_in {#} = {#}" "frames_in (A + B) = frames_in A + frames_in B"
  "frames_in (add_mset r A) = mset (resource_frames r) + frames_in A"
  by (simp_all add: frames_in_def)

lemma mset_kernel_frames: "mset (kernel_frames k) = mset (held k) + frames_in (res_of (k_sched k))"
  by (simp add: kernel_frames_def frames_of_res frames_in_def res_of_def res_in_def)

lemma res_in_frames: "frames_in (res_in ts) = mset (task_frames ts)"
  by (simp add: frames_of_res frames_in_def)

lemma owned_intro:
  "bmm_pool.live (k_frames k) xs \<Longrightarrow> mset xs = mset (held k) + frames_in (res_of (k_sched k)) \<Longrightarrow> owned k"
  unfolding owned_def by (rule bmm_pool.live_mset) (simp_all add: mset_kernel_frames)

text \<open>A step that drops tasks: the drop succeeds, and what is left is live.\<close>

lemma owned_drop:
  assumes "owned k" and "res_of (k_sched k) = res_in old + res_of s"
  shows "\<exists>b. drop_tasks old (k_frames k) = (Ok (), b) \<and> owned (k\<lparr>k_sched := s, k_frames := b\<rparr>) \<and>
    free_frames b = free_frames (k_frames k) \<union> pages_of (task_frames old)"
proof -
  obtain ys where ys: "mset ys = mset (held k) + frames_in (res_of s)" by (metis ex_mset)
  have "mset (kernel_frames k) = mset (task_frames old) + mset ys"
    by (simp add: mset_kernel_frames assms(2) ys res_in_frames)
  from drop_tasks_ok [OF assms(1) [unfolded owned_def] this] obtain b where
    b: "drop_tasks old (k_frames k) = (Ok (), b)" "bmm_pool.live b ys"
      "free_frames b = free_frames (k_frames k) \<union> pages_of (task_frames old)" by blast
  have "owned (k\<lparr>k_sched := s, k_frames := b\<rparr>)" by (rule owned_intro [of _ ys]) (simp_all add: b ys)
  then show ?thesis using b by blast
qed

lemma replace_resource:
  assumes "current_task s = Some t"
  shows "add_mset (task_resource t) (res_of (s\<lparr>current_task := Some (t\<lparr>task_resource := r\<rparr>)\<rparr>)) = add_mset r (res_of s)"
  using assms by (simp add: res_of_def all_tasks_def live_tasks_def)

lemma replace_frames:
  assumes "current_task s = Some t" and "mset (resource_frames r) + A = mset (resource_frames (task_resource t)) + B"
  shows "frames_in (res_of (s\<lparr>current_task := Some (t\<lparr>task_resource := r\<rparr>)\<rparr>)) + A = frames_in (res_of s) + B"
proof -
  let ?s = "s\<lparr>current_task := Some (t\<lparr>task_resource := r\<rparr>)\<rparr>"
  have "frames_in (add_mset (task_resource t) (res_of ?s)) = frames_in (add_mset r (res_of s))"
    by (simp only: replace_resource [OF assms(1)])
  then have eq: "mset (resource_frames (task_resource t)) + frames_in (res_of ?s) =
      mset (resource_frames r) + frames_in (res_of s)" by simp
  have "mset (resource_frames (task_resource t)) + (frames_in (res_of ?s) + A) =
      (mset (resource_frames (task_resource t)) + frames_in (res_of ?s)) + A" by (simp only: add.assoc)
  also have "\<dots> = (mset (resource_frames r) + A) + frames_in (res_of s)" by (simp only: eq ac_simps)
  also have "\<dots> = (mset (resource_frames (task_resource t)) + B) + frames_in (res_of s)" by (simp only: assms(2))
  also have "\<dots> = mset (resource_frames (task_resource t)) + (frames_in (res_of s) + B)"
    by (simp only: ac_simps)
  finally show ?thesis by simp
qed

lemma remove_first_mset: "remove_first p xs = Some (y, rest) \<Longrightarrow> mset xs = add_mset y (mset rest)"
  by (induction xs arbitrary: rest) (auto split: if_splits)

lemma gives_frames:
  assumes "current_add_mem_frame f s = (Ok (), t)"
  shows "frames_in (res_of t) = add_mset f (frames_in (res_of s))"
proof -
  obtain c where c: "current_task s = Some c"
    using assms by (cases "current_task s") (auto simp: current_add_mem_frame_def upd_resource_def current_task_mut_def)
  let ?r = "(task_resource c)\<lparr>alloc_frames := alloc_frames (task_resource c) @ [f]\<rparr>"
  have "t = s\<lparr>current_task := Some (c\<lparr>task_resource := ?r\<rparr>)\<rparr>"
    using assms c by (simp add: current_add_mem_frame_def upd_resource_def current_task_mut_def)
  then show ?thesis using replace_frames [OF c, of ?r "{#}" "{#f#}"] by (simp add: resource_frames_def)
qed

lemma takes_frames:
  assumes "current_remove_mem_frame a s = (Ok f, t)"
  shows "frames_in (res_of s) = add_mset f (frames_in (res_of t))"
proof -
  obtain c where c: "current_task s = Some c"
    using assms by (cases "current_task s") (auto simp: current_remove_mem_frame_def current_task_mut_def bind_act_def)
  obtain rest where r: "remove_first (\<lambda>f. frame_start_phys_addr f = a) (alloc_frames (task_resource c)) = Some (f, rest)"
    and t: "t = s\<lparr>current_task := Some (c\<lparr>task_resource := (task_resource c)\<lparr>alloc_frames := rest\<rparr>\<rparr>)\<rparr>"
    using assms c by (auto simp: current_remove_mem_frame_def current_task_mut_def bind_act_def split: option.splits prod.splits)
  show ?thesis
    using replace_frames [OF c, of "(task_resource c)\<lparr>alloc_frames := rest\<rparr>" "{#f#}" "{#}"] remove_first_mset [OF r]
    by (simp add: t resource_frames_def)
qed

lemma kernel_step_owned: "kernel_step k k' \<Longrightarrow> owned k \<Longrightarrow> owned k'"
proof (induction rule: kernel_step.induct)
  case (allocates n k f b)
  have "bmm_pool.live b (f # kernel_frames k)"
    using bmm_pool.live_alloc [OF _ allocates(1)] allocates(2) by (simp add: owned_def)
  then show ?case by (simp add: owned_def kernel_frames_def)
next
  case (deallocates k xs f ys r b)
  have "bmm_pool.live (k_frames k) (xs @ f # (ys @ task_frames (all_tasks (k_sched k))))"
    using deallocates(3) by (simp add: owned_def kernel_frames_def deallocates(1))
  from bmm_pool.live_dealloc [OF this] show ?case
    using deallocates(2) by (auto simp: owned_def kernel_frames_def)
next
  case (starts k res rest name ctx i s)
  obtain c where c: "current_task (k_sched k) = Some c"
    using starts(3) by (cases "current_task (k_sched k)") (auto simp: spawn_user_task_def bind_act_def current_task_id_def)
  have "res_of s = add_mset res (res_of (k_sched k))"
    using starts(3) by (auto simp: spawn_run [OF c starts(1)] res_of_def all_tasks_def live_tasks_def task_build_def c)
  then show ?case
    by (intro owned_intro [of _ "kernel_frames k"])
      (use starts in \<open>simp_all add: owned_def mset_kernel_frames\<close>)
next
  case (gives k xs f ys s)
  show ?case
    by (rule owned_intro [of _ "kernel_frames k"])
      (use gives in \<open>simp_all add: owned_def mset_kernel_frames gives_frames [OF gives(2)]\<close>)
next
  case (takes a k f s)
  show ?case
    by (rule owned_intro [of _ "kernel_frames k"])
      (use takes in \<open>simp_all add: owned_def mset_kernel_frames takes_frames [OF takes(1)]\<close>)
next
  case (yields k old p s r b)
  then show ?case using owned_drop [OF yields(3) sched_res [OF yields(1)]] by auto
next
  case (interrupts i p k old c s r b)
  then show ?case using owned_drop [OF interrupts(3) preempt_res [OF interrupts(1)]] by auto
next
  case (ends code k gone nxt old s r b)
  then show ?case using owned_drop [OF ends(3) exit_res [OF ends(1)]] by auto
next
  case (sleeps child k p s)
  show ?case
    by (rule owned_intro [of _ "kernel_frames k"])
      (use sleeps in \<open>simp_all add: owned_def mset_kernel_frames sleep_res [OF sleeps(1)]\<close>)
next
  case (collects i k c s)
  have "res_of s = res_of (k_sched k)"
    using collects(1) by (auto simp: take_exit_code_def res_of_def all_tasks_def live_tasks_def)
  then show ?case
    by (intro owned_intro [of _ "kernel_frames k"]) (use collects in \<open>simp_all add: owned_def mset_kernel_frames\<close>)
qed

lemma kernel_reachable_owned: "kernel_reachable k \<Longrightarrow> owned k"
proof (induction rule: kernel_reachable.induct)
  case (boot b fs f b' res pipe name ctx s)
  have "bmm_pool.live b' (f # fs)" by (rule bmm_pool.live_alloc [OF frames_live_inv [OF boot(1)] boot(2)])
  moreover have "res_of s = {#res#}"
    using boot(4) by (auto simp: sched_init_def scheduler_new_def task_id_new_def task_build_def bind_act_def
        res_of_def all_tasks_def live_tasks_def)
  ultimately show ?case
    by (intro owned_intro [of _ "f # fs"]) (simp_all add: boot(3) resource_new_def resource_frames_def)
qed (rule kernel_step_owned)


subsection \<open>Properties\<close>

lemma pages_disjoint:
  "(\<And>f g. f \<in> set xs \<Longrightarrow> g \<in> set ys \<Longrightarrow> frame_indices f \<inter> frame_indices g = {}) \<Longrightarrow> pages_of xs \<inter> pages_of ys = {}"
  unfolding pages_of_def by blast

lemma live_split:
  assumes "bmm_pool.live b (hs @ task_frames (xs @ t # ys))"
  shows "pages_of (resource_frames (task_resource t)) \<inter> pages_of (hs @ task_frames (xs @ ys)) = {}"
    "pages_of (resource_frames (task_resource t)) \<inter> free_frames b = {}"
proof -
  let ?P = "\<lambda>f g. frame_indices f \<inter> frame_indices g = {}"
  have "sorted_wrt ?P ((hs @ task_frames xs) @ (resource_frames (task_resource t) @ task_frames ys))"
    using assms by (simp add: bmm_pool.live_def)
  then have "\<forall>f\<in>set (hs @ task_frames xs). \<forall>g\<in>set (resource_frames (task_resource t)). ?P f g"
    "\<forall>f\<in>set (resource_frames (task_resource t)). \<forall>g\<in>set (task_frames ys). ?P f g"
    unfolding sorted_wrt_append by auto
  then show "pages_of (resource_frames (task_resource t)) \<inter> pages_of (hs @ task_frames (xs @ ys)) = {}"
    by (intro pages_disjoint) (auto simp: Int_commute)
  show "pages_of (resource_frames (task_resource t)) \<inter> free_frames b = {}"
    using assms by (fastforce simp: bmm_pool.live_def pages_of_def)
qed

text \<open>A kernel with two tasks that own a frame each.\<close>

lemma demo_alloc:
  assumes "frames_live b fs" and "free_frames b \<noteq> {}" and "free_frames b \<subseteq> {2..}"
  shows "\<exists>f b'. alloc_multi_mem_frame 1 b = (Ok f, b') \<and> frames_live b' (f # fs) \<and> frame_indices f \<noteq> {} \<and>
    free_frames b' \<subseteq> free_frames b \<and> card (free_frames b) = Suc (card (free_frames b'))"
proof -
  have inv: "bmm_inv b" using frames_live_inv [OF assms(1)] by (simp add: bmm_pool.live_def)
  obtain i where "i \<in> free_frames b" using assms(2) by blast
  moreover from this have "1 \<le> i" using assms(3) by auto
  ultimately obtain f b' where f: "alloc_multi_mem_frame 1 b = (Ok f, b')" using alloc_one [OF inv] by blast
  from bmm_pool.alloc_ok [OF inv f] have "card (frame_indices f) = 1" "frame_indices f \<subseteq> free_frames b"
    "free_frames b' = free_frames b - frame_indices f" "finite (frame_indices f)" by auto
  then show ?thesis using f frames_live.allocated [OF assms(1) f] card_Diff_subset [of "frame_indices f" "free_frames b"]
      card_mono [of "free_frames b" "frame_indices f"] by auto
qed

lemma demo_kernel:
  "\<exists>k t u. kernel_reachable k \<and> all_tasks (k_sched k) = [t, u] \<and> task_id t = 0 \<and> task_id u = 1 \<and>
     pages_of (resource_frames (task_resource t)) \<noteq> {} \<and> pages_of (resource_frames (task_resource u)) \<noteq> {}"
proof -
  obtain b where b: "frames_live b []" "free_frames b = {2..<13}" using demo_booted by blast
  obtain f b1 where f: "alloc_multi_mem_frame 1 b = (Ok f, b1)" "frames_live b1 [f]" "frame_indices f \<noteq> {}"
    "free_frames b1 \<subseteq> {2..<13}" "card (free_frames b1) = 10"
    using demo_alloc [OF b(1), unfolded b(2)] by (auto simp: subset_iff)
  have ne: "free_frames b1 \<noteq> {}" using f(5) by auto
  obtain g b2 where g: "alloc_multi_mem_frame 1 b1 = (Ok g, b2)" "frame_indices g \<noteq> {}"
    using demo_alloc [OF f(2) ne] f(4) subset_trans [OF f(4), of "{2..}"] by (auto simp: subset_iff)
  let ?res = "\<lambda>f. resource_new \<lparr>pml4_frame = Some f, allocated_frames = []\<rparr> None None [] [None, None, None]"
  let ?s0 = "\<lparr>ready_queue = [], current_task = Some ((task_build 0 None ''k'' context_new (?res f))\<lparr>task_state := Running\<rparr>),
      exited_tasks = [], sleeping_tasks = [], exit_codes = [], next_task_id = 1\<rparr>"
  let ?k0 = "\<lparr>k_sched = ?s0, k_frames = b1, held = []\<rparr>"
  have "sched_init ''k'' context_new (?res f) scheduler_new = (Ok (), ?s0)"
    by (simp add: sched_init_def bind_act_def task_id_new_def scheduler_new_def)
  from kernel_reachable.boot [OF b(1) f(1) refl this] have k0: "kernel_reachable ?k0" .
  let ?k1 = "?k0\<lparr>k_frames := b2, held := [g]\<rparr>"
  have "kernel_step ?k0 (?k0\<lparr>k_frames := b2, held := g # held ?k0\<rparr>)"
    by (rule kernel_step.allocates [of 1]) (use g(1) in simp)
  then have k1: "kernel_reachable ?k1" using kernel_reachable.step [OF k0] by simp
  let ?s1 = "snd (spawn_user_task ''u'' context_new (?res g) ?s0)"
  have run: "spawn_user_task ''u'' context_new (?res g) ?s0 = (Ok 1, ?s1)"
    using spawn_run [of ?s0] by simp
  have "kernel_step ?k1 (?k1\<lparr>k_sched := ?s1, held := []\<rparr>)"
    by (rule kernel_step.starts [of _ "?res g" "[]" "''u''" context_new 1])
      (use run in \<open>simp_all add: resource_new_def resource_frames_def\<close>)
  then have k2: "kernel_reachable (?k1\<lparr>k_sched := ?s1, held := []\<rparr>)" using kernel_reachable.step [OF k1] by blast
  show ?thesis
    by (intro exI conjI, rule k2)
      (use spawn_run [of ?s0] f(3) g(2) in \<open>auto simp: all_tasks_def live_tasks_def task_build_def
         resource_new_def resource_frames_def\<close>)
qed





end
