(* ===== verification/Syscall_Tasks.thy ===== *)
theory Syscall_Tasks
  imports Syscall_Files Task_Memory
begin

text \<open>
  The descriptors of tasks. The kernel has one table of descriptors; a task keeps the numbers it has opened and closes them when it is dropped. \<open>fds_owned\<close> says
  that no number has two owners and that every owned number is open. Calls keep it as long as tasks close their own
  descriptors only, which the kernel does not check.
\<close>

subsection \<open>Closing\<close>

definition open_fds :: "'w vfs \<Rightarrow> nat set" where
  "open_fds v = fd_num ` set (fds v)"

lemma release_pipe_end_fds [simp]: "fds (release_pipe_end i e v) = fds v" "next_fd (release_pipe_end i e v) = next_fd v"
  by (simp_all add: release_pipe_end_def upd_file_def split: option.split)

lemma close_file_fds:
  assumes "vfs_inv v" and "close_file n v = (r, u)"
  shows "fds u = filter (\<lambda>d. fd_num d \<noteq> n) (fds v) \<and> vfs_inv u \<and> r \<noteq> Panic \<and> (r = Ok () \<longrightarrow> n \<in> open_fds v)"
proof -
  have u: "vfs_inv u" using keepsD_eq [OF keeps_close_file assms] .
  show ?thesis
  proof (cases "find (\<lambda>d. fd_num d = n) (fds v)")
    case None
    then have "fds v = filter (\<lambda>d. fd_num d \<noteq> n) (fds v)" by (metis (mono_tags, lifting) filter_True find_None_iff)
    then show ?thesis using assms None u by (auto simp: close_file_def vfs_close_file_def)
  next
    case (Some d)
    have "n \<in> open_fds v" using Some by (auto simp: open_fds_def find_Some_iff)
    then show ?thesis
      using assms(2) Some u drop_first_filter [OF fds_distinct [OF assms(1)]]
      by (auto simp: close_file_def vfs_close_file_def Let_def bind_act_def call_world_def of_result.simps
          split: FileBacking.splits option.splits prod.splits sum.splits outcome.splits elim: of_result.elims)
  qed
qed

lemma open_fds_close: "fds u = filter (\<lambda>d. fd_num d \<noteq> n) (fds v) \<Longrightarrow> open_fds u = open_fds v - {n}"
  by (auto simp: open_fds_def)

text \<open>\<open>close_unwrap\<close> returns or panics, and changes the file system only.\<close>

lemma close_unwrap_run:
  assumes "vfs_inv (sy_vfs k)"
  shows "\<exists>u. vfs_inv u \<and> fds u = filter (\<lambda>d. fd_num d \<noteq> n) (fds (sy_vfs k)) \<and>
    (close_unwrap n k = (Returned (), k\<lparr>sy_vfs := u\<rparr>) \<and> n \<in> open_fds (sy_vfs k) \<or> close_unwrap n k = (Panicked, k\<lparr>sy_vfs := u\<rparr>))"
proof -
  obtain r u where run: "close_file n (sy_vfs k) = (r, u)" by (cases "close_file n (sy_vfs k)")
  note facts = close_file_fds [OF assms run]
  show ?thesis
    by (rule exI [of _ u], cases r) (use facts in \<open>auto simp: close_unwrap_def attempt_def on_vfs_def run\<close>)
qed

lemma close_all_run:
  assumes "vfs_inv (sy_vfs k)"
  shows "\<exists>u. vfs_inv u \<and> (each ns close_unwrap k = (Returned (), k\<lparr>sy_vfs := u\<rparr>) \<and> distinct ns \<and> set ns \<subseteq> open_fds (sy_vfs k) \<and>
      fds u = filter (\<lambda>d. fd_num d \<notin> set ns) (fds (sy_vfs k)) \<or> each ns close_unwrap k = (Panicked, k\<lparr>sy_vfs := u\<rparr>))"
  using assms
proof (induction ns arbitrary: k)
  case Nil
  then show ?case by (intro exI [of _ "sy_vfs k"]) simp
next
  case (Cons n ns)
  obtain u where u: "vfs_inv u" "fds u = filter (\<lambda>d. fd_num d \<noteq> n) (fds (sy_vfs k))"
    and run: "close_unwrap n k = (Returned (), k\<lparr>sy_vfs := u\<rparr>) \<and> n \<in> open_fds (sy_vfs k) \<or> close_unwrap n k = (Panicked, k\<lparr>sy_vfs := u\<rparr>)"
    using close_unwrap_run [OF Cons.prems] by blast
  from run show ?case
  proof
    assume now: "close_unwrap n k = (Returned (), k\<lparr>sy_vfs := u\<rparr>) \<and> n \<in> open_fds (sy_vfs k)"
    have step: "each (n # ns) close_unwrap k = each ns close_unwrap (k\<lparr>sy_vfs := u\<rparr>)" using now by simp
    obtain w where w: "vfs_inv w" "each ns close_unwrap (k\<lparr>sy_vfs := u\<rparr>) = (Returned (), k\<lparr>sy_vfs := w\<rparr>) \<and> distinct ns \<and> set ns \<subseteq> open_fds u \<and>
        fds w = filter (\<lambda>d. fd_num d \<notin> set ns) (fds u) \<or> each ns close_unwrap (k\<lparr>sy_vfs := u\<rparr>) = (Panicked, k\<lparr>sy_vfs := w\<rparr>)"
      using Cons.IH [of "k\<lparr>sy_vfs := u\<rparr>"] u(1) by auto
    have o: "open_fds u = open_fds (sy_vfs k) - {n}" by (rule open_fds_close [OF u(2)])
    have "filter (\<lambda>d. fd_num d \<notin> set ns) (fds u) = filter (\<lambda>d. fd_num d \<notin> set (n # ns)) (fds (sy_vfs k))"
      using u(2) by (auto intro: filter_cong)
    then show ?case unfolding step using w now o by (intro exI [of _ w]) auto
  qed (use u(1) in auto)
qed

text \<open>So does giving back frames, which changes the allocator only.\<close>

abbreviation pool :: "'w sys \<Rightarrow> BitmapMemoryManager" where "pool k \<equiv> pg_frames (ld_pg (sy_loader k))"

definition set_pool :: "BitmapMemoryManager \<Rightarrow> 'w sys \<Rightarrow> 'w sys" where
  "set_pool b k = k\<lparr>sy_loader := (sy_loader k)\<lparr>ld_pg := (ld_pg (sy_loader k))\<lparr>pg_frames := b\<rparr>\<rparr>\<rparr>"

lemma set_pool_simps [simp]:
  "sy_vfs (set_pool b k) = sy_vfs k" "sy_sched (set_pool b k) = sy_sched k" "pool (set_pool b k) = b"
  "set_pool b (set_pool c k) = set_pool b k" "sy_tty (set_pool b k) = sy_tty k" "sy_net (set_pool b k) = sy_net k"
  "set_pool b (k\<lparr>sy_vfs := v\<rparr>) = (set_pool b k)\<lparr>sy_vfs := v\<rparr>"
  by (simp_all add: set_pool_def)

lemma on_frames_run: "m (pool k) = (r, b) \<Longrightarrow> on_loader (on_frames m) k = (of_outcome r, set_pool b k)"
  by (simp add: on_loader_def on_frames_def on_paging_def set_pool_def)

lemma bind_act_assoc: "bind_act (bind_act m f) g = bind_act m (\<lambda>x. bind_act (f x) g)"
  by (rule ext) (simp add: bind_act_def split: prod.split outcome.split)

lemma seq_on_frames:
  fixes f :: "'x \<Rightarrow> ('w, 'y) sysc"
  shows "seq (on_loader (on_frames m)) (\<lambda>_. seq (on_loader (on_frames n)) f) = seq (on_loader (on_frames (bind_act m (\<lambda>_. n)))) f"
proof (rule ext)
  fix k :: "'w sys"
  obtain r b where m: "m (pool k) = (r, b)" by (cases "m (pool k)")
  show "seq (on_loader (on_frames m)) (\<lambda>_. seq (on_loader (on_frames n)) f) k = seq (on_loader (on_frames (bind_act m (\<lambda>_. n)))) f k"
  proof (cases r)
    case (Ok x)
    obtain q c where n: "n b = (q, c)" by (cases "n b")
    have "on_loader (on_frames n) (set_pool b k) = (of_outcome q, set_pool c k)" using on_frames_run [of n "set_pool b k"] n by simp
    moreover have "on_loader (on_frames (bind_act m (\<lambda>_. n))) k = (of_outcome q, set_pool c k)"
      using on_frames_run [of "bind_act m (\<lambda>_. n)" k q c] m n Ok by simp
    ultimately show ?thesis using on_frames_run [where m = m, OF m] Ok by (simp add: seq_def)
  qed (use on_frames_run [where m = m, OF m] on_frames_run [of "bind_act m (\<lambda>_. n)" k] m in \<open>simp_all add: seq_def\<close>)
qed

definition first_frames :: "TaskResource \<Rightarrow> MemoryFrame list" where
  "first_frames r = opt_list (args_frame r) @ opt_list (stack_frame r) @ program_frames r @ alloc_frames r"

definition table_frames :: "TaskResource \<Rightarrow> MemoryFrame list" where
  "table_frames r = allocated_frames (page_table r) @ opt_list (pml4_frame (page_table r))"

lemma resource_frames_split: "resource_frames r = first_frames r @ table_frames r"
  by (simp add: resource_frames_def first_frames_def table_frames_def)

lemma drop_resource_phases:
  "drop_resource r = seq (on_loader (on_frames (for_each (first_frames r) dealloc_unwrap))) (\<lambda>_.
     seq (each (fd_nums r) close_unwrap) (\<lambda>_. on_loader (on_frames (for_each (table_frames r) dealloc_unwrap))))"
  by (simp add: drop_resource_def seq_on_frames first_frames_def table_frames_def drop_page_table_def dealloc_opt_for_each
      for_each_append_act bind_act_assoc)

lemma dealloc_loop_no_err: "for_each xs dealloc_unwrap b = (r, b') \<Longrightarrow> r = Ok () \<or> r = Panic"
proof (induction xs arbitrary: b)
  case (Cons x xs)
  have "\<exists>q c. dealloc_unwrap x b = (q, c) \<and> (q = Ok () \<or> q = Panic)"
    by (cases "dealloc_mem_frame x b"; cases "fst (dealloc_mem_frame x b)") (auto simp: dealloc_unwrap_def)
  then show ?case using Cons by (auto simp: bind_act_def)
qed simp

subsection \<open>Dropping tasks\<close>

text \<open>What a drop that comes to an end has done; every other drop panics.\<close>

definition dropped :: "MemoryFrame list \<Rightarrow> nat list \<Rightarrow> 'w sys \<Rightarrow> 'w sys \<Rightarrow> bool" where
  "dropped fs ns k k' \<longleftrightarrow> (\<exists>u b. k' = (set_pool b k)\<lparr>sy_vfs := u\<rparr> \<and> vfs_inv u \<and> distinct ns \<and> set ns \<subseteq> open_fds (sy_vfs k) \<and>
     fds u = filter (\<lambda>d. fd_num d \<notin> set ns) (fds (sy_vfs k)) \<and> for_each fs dealloc_unwrap (pool k) = (Ok (), b))"

lemma drop_resource_run:
  assumes inv: "vfs_inv (sy_vfs k)"
  shows "(\<exists>k'. drop_resource r k = (Returned (), k') \<and> dropped (resource_frames r) (fd_nums r) k k') \<or> fst (drop_resource r k) = Panicked"
proof -
  obtain q b where q: "for_each (first_frames r) dealloc_unwrap (pool k) = (q, b)" by (cases "for_each (first_frames r) dealloc_unwrap (pool k)")
  note step1 = on_frames_run [where m = "for_each (first_frames r) dealloc_unwrap", OF q]
  from dealloc_loop_no_err [OF q] show ?thesis
  proof
    assume ok: "q = Ok ()"
    let ?k1 = "set_pool b k"
    obtain u where u: "vfs_inv u" "each (fd_nums r) close_unwrap ?k1 = (Returned (), ?k1\<lparr>sy_vfs := u\<rparr>) \<and> distinct (fd_nums r) \<and>
        set (fd_nums r) \<subseteq> open_fds (sy_vfs k) \<and> fds u = filter (\<lambda>d. fd_num d \<notin> set (fd_nums r)) (fds (sy_vfs k)) \<or>
        each (fd_nums r) close_unwrap ?k1 = (Panicked, ?k1\<lparr>sy_vfs := u\<rparr>)"
      using close_all_run [of ?k1 "fd_nums r"] inv by auto
    obtain p c where p: "for_each (table_frames r) dealloc_unwrap b = (p, c)" by (cases "for_each (table_frames r) dealloc_unwrap b")
    have step3: "on_loader (on_frames (for_each (table_frames r) dealloc_unwrap)) (?k1\<lparr>sy_vfs := u\<rparr>) = (of_outcome p, set_pool c (?k1\<lparr>sy_vfs := u\<rparr>))"
      by (rule on_frames_run) (simp add: p)
    have all: "p = Ok () \<Longrightarrow> for_each (resource_frames r) dealloc_unwrap (pool k) = (Ok (), c)"
      using q ok p by (simp add: resource_frames_split for_each_append)
    show ?thesis using u step1 step3 ok dealloc_loop_no_err [OF p] all
      by (auto simp: drop_resource_phases seq_def dropped_def)
  qed (use step1 in \<open>simp add: drop_resource_phases seq_def\<close>)
qed

definition task_fds :: "Task list \<Rightarrow> nat list" where
  "task_fds ts = concat (map (\<lambda>t. fd_nums (task_resource t)) ts)"

lemma task_fds_simps [simp]:
  "task_fds [] = []" "task_fds (t # ts) = fd_nums (task_resource t) @ task_fds ts" "task_fds (xs @ ys) = task_fds xs @ task_fds ys"
  by (simp_all add: task_fds_def)

lemma dropped_inv: "dropped fs ns k k' \<Longrightarrow> vfs_inv (sy_vfs k')"
  by (auto simp: dropped_def)

lemma dropped_open: "dropped fs ns k k' \<Longrightarrow> open_fds (sy_vfs k') = open_fds (sy_vfs k) - set ns"
  by (auto simp: dropped_def open_fds_def)

lemma dropped_trans:
  assumes "dropped fs ns k k1" and "dropped gs ms k1 k2"
  shows "dropped (fs @ gs) (ns @ ms) k k2"
proof -
  obtain u b where 1: "k1 = (set_pool b k)\<lparr>sy_vfs := u\<rparr>" "distinct ns" "set ns \<subseteq> open_fds (sy_vfs k)"
    "fds u = filter (\<lambda>d. fd_num d \<notin> set ns) (fds (sy_vfs k))" "for_each fs dealloc_unwrap (pool k) = (Ok (), b)"
    using assms(1) by (auto simp: dropped_def)
  obtain w c where 2: "k2 = (set_pool c k1)\<lparr>sy_vfs := w\<rparr>" "vfs_inv w" "distinct ms" "set ms \<subseteq> open_fds (sy_vfs k1)"
    "fds w = filter (\<lambda>d. fd_num d \<notin> set ms) (fds (sy_vfs k1))" "for_each gs dealloc_unwrap (pool k1) = (Ok (), c)"
    using assms(2) by (auto simp: dropped_def)
  have "k2 = (set_pool c k)\<lparr>sy_vfs := w\<rparr>" using 1(1) 2(1) by simp
  moreover have "set ns \<inter> set ms = {}" "set ms \<subseteq> open_fds (sy_vfs k)"
    using 2(4) dropped_open [OF assms(1)] by auto
  moreover have "fds w = filter (\<lambda>d. fd_num d \<notin> set (ns @ ms)) (fds (sy_vfs k))"
    using 1(1,4) 2(5) by (auto intro: filter_cong)
  moreover have "for_each (fs @ gs) dealloc_unwrap (pool k) = (Ok (), c)"
    using 1(1,5) 2(6) by (simp add: for_each_append set_pool_def)
  ultimately show ?thesis using 1(2,3) 2(2,3) by (auto simp: dropped_def)
qed

lemma drop_exited_run:
  assumes "vfs_inv (sy_vfs k)"
  shows "(\<exists>k'. drop_exited ts k = (Returned (), k') \<and> dropped (task_frames ts) (task_fds ts) k k') \<or> fst (drop_exited ts k) = Panicked"
  using assms
proof (induction ts arbitrary: k)
  case Nil
  have "k = (set_pool (pool k) k)\<lparr>sy_vfs := sy_vfs k\<rparr>" by (simp add: set_pool_def)
  then have "dropped [] [] k k" using Nil unfolding dropped_def by (intro exI [of _ "sy_vfs k"] exI [of _ "pool k"]) simp
  then show ?case by (simp add: drop_exited_def)
next
  case (Cons t ts)
  from drop_resource_run [OF Cons.prems, of "task_resource t"] show ?case
  proof
    assume "\<exists>k'. drop_resource (task_resource t) k = (Returned (), k') \<and> dropped (resource_frames (task_resource t)) (fd_nums (task_resource t)) k k'"
    then obtain k1 where k1: "drop_resource (task_resource t) k = (Returned (), k1)" "dropped (resource_frames (task_resource t)) (fd_nums (task_resource t)) k k1"
      by blast
    have "drop_exited (t # ts) k = drop_exited ts k1" using k1(1) by (simp add: drop_exited_def)
    then show ?thesis using Cons.IH [OF dropped_inv [OF k1(2)]] dropped_trans [OF k1(2)] by auto
  next
    assume "fst (drop_resource (task_resource t) k) = Panicked"
    then show ?thesis by (cases "drop_resource (task_resource t) k") (simp add: drop_exited_def seq_def)
  qed
qed

subsection \<open>Descriptors of other tasks\<close>

lemma on_vfs_outcome: "on_vfs m k = (of_outcome (fst (m (sy_vfs k))), k\<lparr>sy_vfs := snd (m (sy_vfs k))\<rparr>)"
  by (simp add: on_vfs_def split: prod.split)

lemma current_remove_fd_run:
  "on_sched (current_remove_fd n) k = (r, k') \<Longrightarrow> sy_vfs k' = sy_vfs k \<and> ready_queue (sy_sched k') = ready_queue (sy_sched k) \<and>
     sleeping_tasks (sy_sched k') = sleeping_tasks (sy_sched k) \<and> exited_tasks (sy_sched k') = exited_tasks (sy_sched k)"
  by (auto simp: on_sched_def current_remove_fd_def upd_resource_def current_task_mut_def split: option.splits prod.splits)

lemma sys_close_run:
  assumes inv: "vfs_inv (sy_vfs k)" and run: "sys_close (int n) k = (r, k')"
  shows "vfs_inv (sy_vfs k') \<and> fds (sy_vfs k') = filter (\<lambda>d. fd_num d \<noteq> n) (fds (sy_vfs k)) \<and> ready_queue (sy_sched k') = ready_queue (sy_sched k) \<and>
    sleeping_tasks (sy_sched k') = sleeping_tasks (sy_sched k) \<and> exited_tasks (sy_sched k') = exited_tasks (sy_sched k)"
proof -
  obtain q u where q: "close_file n (sy_vfs k) = (q, u)" by (cases "close_file n (sy_vfs k)")
  note facts = close_file_fds [OF inv q]
  let ?k = "k\<lparr>sy_vfs := u\<rparr>"
  let ?socket = "close_as_socket (int n)"
  obtain q2 k2 where k2: "?socket ?k = (q2, k2)" by (cases "?socket ?k")
  have sock: "sy_vfs k2 = u \<and> sy_sched k2 = sy_sched k"
    using arg_cong [OF k2, of snd]
    by (auto simp: close_as_socket_def attempt_def seq_def on_net_def socket_id_try_new_def split: prod.splits call.splits)
  show ?thesis
  proof (cases q)
    case (Ok x)
    have "on_sched (current_remove_fd n) ?k = (r, k')"
      using run q Ok by (simp add: sys_close_def seq_def attempt_def fd_number_Ok on_vfs_def)
    from current_remove_fd_run [OF this] show ?thesis using facts by simp
  next
    case (Err e)
    have "sys_close (int n) k = ?socket ?k"
      using q Err by (simp add: sys_close_def Let_def seq_def attempt_def fd_number_Ok on_vfs_def)
    then have "k' = k2" using run k2 by simp
    then show ?thesis using facts sock by simp
  qed (use facts in simp)
qed

lemma drop_missing:
  assumes "vfs_inv (sy_vfs k)" and "n \<in> set (task_fds ts)" and "n \<notin> open_fds (sy_vfs k)"
  shows "fst (drop_exited ts k) = Panicked"
  using drop_exited_run [OF assms(1), of ts] assms(2,3) by (auto simp: dropped_def)

text \<open>C10: one program can stop the kernel by closing the file of another. Descriptor numbers are global and \<open>sys_close\<close> takes any of them. After a call with the number of a file
  that another task has opened, that task still lists the number, and when the task is dropped the kernel unwraps the error of the second close and panics; if the
  task has exited already, the next switch of tasks panics.\<close>

theorem foreign_close_panics:
  assumes "vfs_reachable (sy_vfs k)" and "sys_close (int n) k = (r, k')" and "n \<in> set (fd_nums (task_resource t))"
    and "t \<in> set (ready_queue (sy_sched k) @ sleeping_tasks (sy_sched k) @ exited_tasks (sy_sched k))"
  shows "t \<in> set (ready_queue (sy_sched k') @ sleeping_tasks (sy_sched k') @ exited_tasks (sy_sched k')) \<and>
    fst (drop_resource (task_resource t) k') = Panicked \<and> (t \<in> set (exited_tasks (sy_sched k)) \<longrightarrow> fst (sys_sched k') = Panicked)"
proof -
  note c = sys_close_run [OF vfs_reachable_inv [OF assms(1)] assms(2)]
  have gone: "n \<notin> open_fds (sy_vfs k')" using c by (auto simp: open_fds_def)
  have inv: "vfs_inv (sy_vfs k')" using c by simp
  have one: "fst (drop_resource (task_resource t) k') = Panicked"
    using drop_resource_run [OF inv, of "task_resource t"] gone assms(3) by (auto simp: dropped_def)
  have "fst (sys_sched k') = Panicked" if ex: "t \<in> set (exited_tasks (sy_sched k))"
  proof -
    obtain old pair s where sc: "sched (sy_sched k') = (old, pair, s)" by (cases "sched (sy_sched k')")
    have "old = exited_tasks (snd (pick_next_task (sy_sched k')))" using sc by (auto simp: sched_def split: prod.splits)
    then have old: "t \<in> set old" using ex c pick_res(2) [of "sy_sched k'"] by simp
    have "n \<in> set (task_fds old)" using old assms(3) by (auto simp: task_fds_def)
    then have "fst (drop_exited old (k'\<lparr>sy_sched := s\<rparr>)) = Panicked" using drop_missing [of "k'\<lparr>sy_sched := s\<rparr>"] inv gone by simp
    then show ?thesis using sc by (cases "drop_exited old (k'\<lparr>sy_sched := s\<rparr>)") (simp add: sys_sched_def seq_def)
  qed
  then show ?thesis using one c assms(4) by auto
qed

definition demo_victim :: Task where
  "demo_victim = (demo_task 7 (Some 0) (Exited 0) None [])\<lparr>task_resource := demo_res\<lparr>fd_nums := [3]\<rparr>\<rparr>"

theorem foreign_close_panics_witness:
  "\<exists>k'. sys_close 3 (demo_sys\<lparr>sy_sched := demo_ready\<lparr>exited_tasks := [demo_victim]\<rparr>\<rparr>) = (Returned (), k') \<and> fst (sys_sched k') = Panicked"
proof -
  let ?k = "demo_sys\<lparr>sy_sched := demo_ready\<lparr>exited_tasks := [demo_victim]\<rparr>\<rparr>"
  have close: "\<exists>u. close_file 3 demo_open = (Ok (), u)"
    by (simp add: demo_open_def demo_vfs_eq open_file_def vfs_open_file_def open_backing_def vfs_run demo_paths boot_paths
        push_fd_def new_descriptor_def close_file_def vfs_close_file_def Let_def)
  have "\<exists>k'. sys_close (int 3) ?k = (Returned (), k')"
    using close by (auto simp: sys_close_def seq_def attempt_def fd_number_try_new_def on_vfs_def demo_sys_def on_sched_def current_remove_fd_def
        upd_resource_def current_task_mut_def demo_ready_def demo_sched_def)
  then obtain k' where k': "sys_close (int 3) ?k = (Returned (), k')" by blast
  have "vfs_reachable (sy_vfs ?k)" by (simp add: demo_sys_def demo_open_reachable)
  from foreign_close_panics [OF this k', of demo_victim] k' show ?thesis by (auto simp: demo_victim_def)
qed

subsection \<open>A task that ends\<close>

text \<open>A descriptor that can be closed: behind a device file is a driver whose close succeeds.\<close>

definition closable :: "'w vfs \<Rightarrow> FileDescriptor \<Rightarrow> bool" where
  "closable v d \<longleftrightarrow> (\<forall>i f desc w. fd_backing d = BackVfs i \<longrightarrow> find_file v i = Some f \<longrightarrow> f_ty f = DeviceFile desc \<longrightarrow>
     (\<exists>w'. dev_close desc w = (Inr (), w')))"

lemma release_pipe_end_types:
  "bt_inv (files v) \<Longrightarrow> find_file (release_pipe_end i e v) j = Some f \<Longrightarrow> \<exists>g. find_file v j = Some g \<and> f_ty f = f_ty g"
  by (auto simp: release_pipe_end_def find_file_remove split: option.splits if_splits)

lemma close_file_types:
  assumes "close_file n v = (r, u)" and "find_file u j = Some f" and inv: "vfs_inv v"
  shows "\<exists>g. find_file v j = Some g \<and> f_ty f = f_ty g"
proof -
  obtain q w where q: "vfs_close_file n v = (q, w)" by (cases "vfs_close_file n v")
  have same: "find_file u j = find_file w j"
    using assms(1) q by (auto simp: close_file_def bind_act_def call_world_def find_file_def split: outcome.splits option.splits prod.splits)
  have "\<exists>g. find_file v j = Some g \<and> f_ty f = f_ty g" if "find_file w j = Some f"
  proof -
    let ?v = "v\<lparr>fds := drop_first (\<lambda>d. fd_num d = n) (fds v)\<rparr>"
    have "bt_inv (files ?v)" using vfs_invD(1) [OF inv] by simp
    note types = release_pipe_end_types [OF this]
    have "w = v \<or> w = ?v \<or> (\<exists>i e. w = release_pipe_end i e ?v)"
      using q by (auto simp: vfs_close_file_def Let_def split: option.splits FileBacking.splits)
    then show ?thesis using that types [of _ _ j f] by (auto simp: find_file_def)
  qed
  then show ?thesis using same assms(2) by simp
qed

lemma closable_close: "close_file n v = (r, u) \<Longrightarrow> vfs_inv v \<Longrightarrow> closable v d \<Longrightarrow> closable u d"
  unfolding closable_def by (metis close_file_types)

lemma close_file_ok:
  assumes inv: "vfs_inv v" and d: "d \<in> set (fds v)" "closable v d"
  shows "\<exists>u. close_file (fd_num d) v = (Ok (), u)"
proof -
  have f: "find (\<lambda>e. fd_num e = fd_num d) (fds v) = Some d" using d(1) by (simp add: find_fd [OF inv])
  show ?thesis
  proof (cases "fd_backing d")
    case (BackVfs i)
    show ?thesis
    proof (cases "\<exists>f desc. find_file v i = Some f \<and> f_ty f = DeviceFile desc")
      case True
      then obtain g desc where g: "find_file v i = Some g" "f_ty g = DeviceFile desc" by blast
      then have "\<exists>w'. dev_close desc w = (Inr (), w')" for w using d(2) BackVfs by (auto simp: closable_def)
      then have "\<exists>w. call_world (dev_close desc) x = (Ok (), w)" for x
        by (metis call_world_def of_result.simps(2) old.prod.case)
      then show ?thesis using f BackVfs g by (simp add: close_file_def vfs_close_file_def Let_def find_file_def)
    next
      case False
      then show ?thesis using f BackVfs
        by (cases "find_file v i") (auto simp: close_file_def vfs_close_file_def Let_def find_file_def split: VfsFileType.splits)
    qed
  qed (use f in \<open>simp add: close_file_def vfs_close_file_def\<close>)
qed

lemma close_all_ok:
  assumes "vfs_inv (sy_vfs k)" and "distinct ns" and "set ns \<subseteq> open_fds (sy_vfs k)"
    and "\<forall>d\<in>set (fds (sy_vfs k)). fd_num d \<in> set ns \<longrightarrow> closable (sy_vfs k) d"
  shows "\<exists>u. each ns close_unwrap k = (Returned (), k\<lparr>sy_vfs := u\<rparr>) \<and> (\<forall>d. closable (sy_vfs k) d \<longrightarrow> closable u d)"
  using assms
proof (induction ns arbitrary: k)
  case Nil
  then show ?case by (intro exI [of _ "sy_vfs k"]) simp
next
  case (Cons n ns)
  obtain d where d: "d \<in> set (fds (sy_vfs k))" "fd_num d = n" using Cons.prems(3) by (auto simp: open_fds_def)
  obtain u where u: "close_file n (sy_vfs k) = (Ok (), u)"
    using close_file_ok [OF Cons.prems(1) d(1)] Cons.prems(4) d by auto
  note facts = close_file_fds [OF Cons.prems(1) u] and keep = closable_close [OF u Cons.prems(1)]
  have run: "close_unwrap n k = (Returned (), k\<lparr>sy_vfs := u\<rparr>)" by (simp add: close_unwrap_def attempt_def on_vfs_def u)
  have "set ns \<subseteq> open_fds u" using facts Cons.prems(2,3) open_fds_close [of u n "sy_vfs k"] by auto
  moreover have "\<forall>d\<in>set (fds u). fd_num d \<in> set ns \<longrightarrow> closable u d" using facts Cons.prems(4) keep by auto
  ultimately obtain w where "each ns close_unwrap (k\<lparr>sy_vfs := u\<rparr>) = (Returned (), k\<lparr>sy_vfs := w\<rparr>)" "\<forall>d. closable u d \<longrightarrow> closable w d"
    using Cons.IH [of "k\<lparr>sy_vfs := u\<rparr>"] facts Cons.prems(2) by auto
  then show ?case using run keep by auto
qed

text \<open>Frames that are live and descriptors that are open and can be closed are given back without a panic.\<close>

definition droppable :: "MemoryFrame list \<Rightarrow> nat list \<Rightarrow> MemoryFrame list \<Rightarrow> 'w sys \<Rightarrow> bool" where
  "droppable fs ns ys k \<longleftrightarrow> vfs_inv (sy_vfs k) \<and> bmm_pool.live (pool k) (fs @ ys) \<and> distinct ns \<and> set ns \<subseteq> open_fds (sy_vfs k) \<and>
     (\<forall>d\<in>set (fds (sy_vfs k)). fd_num d \<in> set ns \<longrightarrow> closable (sy_vfs k) d)"

lemma drop_resource_ok:
  assumes d: "droppable (resource_frames r @ gs) (fd_nums r @ ms) ys k"
  shows "\<exists>k'. drop_resource r k = (Returned (), k') \<and> dropped (resource_frames r) (fd_nums r) k k' \<and> droppable gs ms ys k'"
proof -
  have inv: "vfs_inv (sy_vfs k)" and live: "bmm_pool.live (pool k) (first_frames r @ table_frames r @ gs @ ys)"
    using d by (simp_all add: droppable_def resource_frames_split)
  obtain b where b: "for_each (first_frames r) dealloc_unwrap (pool k) = (Ok (), b)" "bmm_pool.live b (table_frames r @ gs @ ys)"
    using dealloc_all_live [OF live] by blast
  obtain c where c: "for_each (table_frames r) dealloc_unwrap b = (Ok (), c)" "bmm_pool.live c (gs @ ys)"
    using dealloc_all_live [OF b(2)] by blast
  let ?k1 = "set_pool b k"
  obtain u where u: "each (fd_nums r) close_unwrap ?k1 = (Returned (), ?k1\<lparr>sy_vfs := u\<rparr>)" "\<forall>d. closable (sy_vfs k) d \<longrightarrow> closable u d"
    using close_all_ok [of ?k1 "fd_nums r"] d by (auto simp: droppable_def)
  have "on_loader (on_frames (for_each (first_frames r) dealloc_unwrap)) k = (Returned (), ?k1)"
    using on_frames_run [where m = "for_each (first_frames r) dealloc_unwrap", OF b(1)] by simp
  moreover have "on_loader (on_frames (for_each (table_frames r) dealloc_unwrap)) (?k1\<lparr>sy_vfs := u\<rparr>) = (of_outcome (Ok ()), set_pool c (?k1\<lparr>sy_vfs := u\<rparr>))"
    by (rule on_frames_run) (simp add: c)
  ultimately have run: "drop_resource r k = (Returned (), (set_pool c k)\<lparr>sy_vfs := u\<rparr>)"
    using u(1) by (simp add: drop_resource_phases seq_def)
  let ?k' = "(set_pool c k)\<lparr>sy_vfs := u\<rparr>"
  have drop: "dropped (resource_frames r) (fd_nums r) k ?k'" using drop_resource_run [OF inv, of r] run by auto
  then have fds: "fds u = filter (\<lambda>d. fd_num d \<notin> set (fd_nums r)) (fds (sy_vfs k))"
    by (auto simp: dropped_def dest: arg_cong [where f = sy_vfs])
  have "set ms \<subseteq> open_fds u" using d dropped_open [OF drop] by (auto simp: droppable_def)
  moreover have "\<forall>d\<in>set (fds u). fd_num d \<in> set ms \<longrightarrow> closable u d" using fds u(2) d by (auto simp: droppable_def)
  moreover have "pool ?k' = c" by (simp add: set_pool_def)
  ultimately have "droppable gs ms ys ?k'"
    using dropped_inv [OF drop] c(2) d by (simp add: droppable_def)
  then show ?thesis using run drop by blast
qed

lemma drop_exited_ok:
  "droppable (task_frames ts) (task_fds ts) ys k \<Longrightarrow> \<exists>k'. drop_exited ts k = (Returned (), k') \<and> droppable [] [] ys k'"
proof (induction ts arbitrary: k)
  case (Cons t ts)
  obtain k1 where "drop_resource (task_resource t) k = (Returned (), k1)" "droppable (task_frames ts) (task_fds ts) ys k1"
    using drop_resource_ok [of "task_resource t" "task_frames ts" "task_fds ts" ys k] Cons.prems by auto
  then show ?case using Cons.IH [of k1] by (simp add: drop_exited_def)
qed (simp add: drop_exited_def)



end
