(* ===== verification/Spec2Isabelle.thy ===== *)
theory Spec2Isabelle
  imports Heap Path Ansi Network_Correct File_Systems Syscall_Tasks
begin

text \<open>
  A verification library for the kernel of myos-x86_64, an operating system written in Rust
  (src/kernel). The theories model the kernel's own logic from its sources, operation by operation, and prove
  the properties that make each component correct.

  \<^bold>\<open>The program.\<close> The boot loader hands the kernel a memory map; the kernel builds a bitmap of physical
  page frames (mem/bitmap.rs), maps memory for itself and for its tasks with page tables (arch/x86_64/paging.rs) and carves its heap out of one
  of the frames (mem/allocator.rs). Programs are ELF files (common/src/elf.rs) that \<open>Task::new\<close> loads (task/mod.rs). Tasks own frames, layers and file
  descriptors, and a round-robin scheduler with timer preemption moves them between a ready
  queue, the CPU and a list of sleepers (task/scheduler.rs). Programs reach files, devices and pipes through
  system calls (task/syscall.rs) and a virtual file system (fs/vfs.rs) whose names are resolved by fs/path.rs and
  on which a FAT volume (fs/fat) and information about tasks (fs/procfs.rs) are mounted, and they reach the network
  through a socket table and a network manager (net/) over an Ethernet driver. The terminal collects typed lines
  (device/tty.rs), the consoles interpret ANSI escape sequences (util/ansi.rs) and the drivers queue their input in ring buffers (util/fifo.rs).

  \<^bold>\<open>Conventions\<close> (\<open>Kernel_Error\<close>, \<open>Rust_Prelude\<close>). A struct is a record and an enum a datatype with the
  source's constructors. A call ends with \<open>Ok\<close>, \<open>Err\<close> or \<open>Panic\<close>; a method on \<open>&mut self\<close> is a function from the state to
  the outcome and the state reached, and \<open>bind_act\<close> is the code's \<open>?\<close>. \<open>usize\<close> values are naturals with the overflow checks of the debug profile
  written out (\<open>uadd\<close>, \<open>usub\<close>, \<open>umul\<close>); bytes, ports, sequence numbers, checksums and registers are words. \<open>keeps I m\<close>
  says that a method keeps an invariant; its rules follow the shape of the code. Locks are taken for
  a whole method, so a method is one step of the transition systems below. What a theorem says about all runs of the kernel is
  said by rule induction over an inductive step relation (\<open>_step\<close>, \<open>_reachable\<close>).

  \<^bold>\<open>Components and theories.\<close>
  \<^item> \<open>Frame_Allocator\<close>: kernel/src/mem/bitmap.rs over an explicit physical memory: initialisation from the memory map, single
    and multiple allocation, deallocation, and frames as values whose \<open>Drop\<close> panics while they are live. The locale \<open>frame_pool\<close> states the
    contract over a set of free pages; the lemmas relate the bitmap bytes to it. Proved: live frames
    are disjoint and counted, allocation is first fit and fails only when no run is free, initialisation frees exactly the available pages.
  \<^item> \<open>Heap\<close>: kernel/src/mem/allocator.rs: the list of holes as nodes written into the memory they describe, splitting, insertion,
    merging. The refinement maps the list to a tiling of the heap into holes and blocks. Proved: blocks never overlap, allocation ends and fails
    only when nothing fits, giving everything back leaves one hole.
  \<^item> \<open>Task\<close>, \<open>Scheduler\<close>, \<open>Task_Memory\<close>: kernel/src/task/mod.rs and scheduler.rs. Contexts and resources, the queues, switching,
    preemption, waiting, exit, and the frames a task gives back when it is dropped, composed with the frame allocator.
    Proved: queues and the family tree are consistent, round robin, a preempted task resumes with its registers, exits wake the waiter,
    memory of tasks is isolated and given back.
  \<^item> \<open>Paging\<close>, \<open>Paging_Walk\<close>, \<open>Paging_Spaces\<close>, \<open>Paging_Kernel\<close>: kernel/src/arch/x86_64/paging.rs over a memory of tables: entries at their
    bits, the mapping of the kernel, page tables of tasks that share tables with the kernel until they change, unmapping and lookup. \<open>Paging_Walk\<close>
    is the library of walks through four levels. Proved: mapping for a task changes its own translation of that range only, the kernel's
    initial mapping is the identity, and what unmapping leaves.
  \<^item> \<open>Elf\<close>, \<open>Loader\<close>, \<open>Loader_Correct\<close>, \<open>Program_Start\<close>: common/src/elf.rs and \<open>Task::new\<close>. The image is read as the code reads it, behind its end
    too. Proved: a new task sees its segments, arguments and stack; an error after the first segment is a panic; a segment can be copied behind its frame.
  \<^item> \<open>Terminal\<close>: kernel/src/device/tty.rs: rings of characters (locale \<open>char_ring\<close>), echo and editing. Proved: a typed line is read as it was meant.
  \<^item> \<open>Syscall\<close>, \<open>Syscall_Files\<close>, \<open>Syscall_Tasks\<close>: kernel/src/task/syscall.rs, exec.rs and the whole drop of a task, over a state that joins the
    components. Pointers are translated by the page table in CR3. A call that blocks takes what others do meanwhile as a list of
    changes of the state. Proved: copying through a file, that the descriptors and pages of exited tasks are given back
    at the next switch, and two things the calls do not check: whose descriptor is closed and where a buffer lies.
  \<^item> \<open>Path\<close>, \<open>Vfs\<close>, \<open>Vfs_Tree\<close>, \<open>Vfs_Correct\<close>: kernel/src/fs/path.rs and vfs.rs. Path normalisation against a reference walk; the file tree,
    descriptors, in-memory files, device files, pipes, and mount points. Drivers and mounted file systems are parameters: records of functions on a
    state \<open>'w\<close>. Proved: the invariant of tree and descriptor table, lookup after creation, files as byte arrays (locale \<open>byte_file\<close>),
    pipes as queues with end of file, exclusive opening, the path of a file, and a panic that user programs can cause.
  \<^item> \<open>Mounted\<close>, \<open>Fat\<close>, \<open>Fat_Chain\<close>, \<open>Fat_Names\<close>, \<open>Fat_Correct\<close>, \<open>Procfs\<close>, \<open>File_Systems\<close>: kernel/src/fs/fat, procfs.rs and fs/mod.rs: the two file
    systems that \<open>fs::init\<close> mounts, as instances of the parameter of the virtual file system. Proved: reading a chain ends unless the links have a cycle, long
    names are read back, a file read through the virtual file system is the contents of its chain, and the status of a task can be read after the start.
  \<^item> \<open>Checksum\<close>, \<open>Packets\<close>, \<open>Ip_Eth\<close>: kernel/src/net/checksum.rs, arp.rs, icmp.rs, udp.rs, tcp.rs (packets), ip.rs, eth.rs: encoders,
    decoders and checksums at their widths; round trips, exact acceptance of the decoders, detection of corruption.
  \<^item> \<open>BTree_Map\<close>, \<open>Tcp_Socket\<close>, \<open>Socket_Table\<close>, \<open>Network\<close>, \<open>Network_Correct\<close>: kernel/src/net/tcp.rs (sockets), socket.rs and mod.rs. The
    standard library's ordered map as a locale with its interpretation, TCP sockets and their state machine, the table with its
    port maps, the manager's handlers, system-call entry points and driver queue. Proved: consistency of the table in every reachable state, the
    three-way handshake, delivery of the byte stream, replies to ARP and echo requests, the frames put on the wire.
  \<^item> \<open>Fifo\<close>, \<open>Ansi\<close>: kernel/src/util/fifo.rs and ansi.rs: the ring buffer refines a bounded list; the incremental escape-sequence parser
    agrees with parsing the sequence as a whole.

  \<^bold>\<open>Bounds and loops.\<close> Loops that are structural or have a measure are total functions. Loops that could run forever are
  \<open>partial_function (option)\<close>, with \<open>None\<close> for not ending: the search and insertion loops of the heap (\<open>first_fit\<close>,
  \<open>insert_after_loop\<close>), the climb to the root (\<open>climb\<close>), the loop that empties the terminal's buffer (\<open>line_loop\<close>) and the loop over a chain of clusters (\<open>chain_loop\<close>); each has a
  theorem that it ends, for the chain exactly when the links have no cycle. Loops that wait for others (\<open>resolve_blocking\<close>, the blocking system calls) take the
  interrupts and the work of other tasks as a list. Counters that wrap
  (task ids, file ids, descriptor numbers) are assumed not to have been exhausted: a step that draws a number requires the counter to be
  below \<open>2 ^ 64\<close>. Heap addresses lie below \<open>2 ^ 63\<close>, as physical memory does.

  \<^bold>\<open>Not modelled.\<close> Inline assembly, descriptor tables and interrupt entry; graphics and the window manager with the call \<open>iomsg\<close> that
  reaches it; the device drivers, which are memory-mapped and port I/O; the DWARF reader and the constant keyboard
  tables; asynchronous kernel tasks, which are futures of the language; the boot loader and the user programs. A write to a page that holds a page
  table through a pointer of user space is not followed into the tables. Exhaustion of the heap inside \<open>Vec\<close> operations and log output are left out everywhere.
\<close>

end
